(* ===== verification/Zorp_Prelude.thy ===== *)
theory Zorp_Prelude
  imports Main "HOL-Library.Word"
begin

section \<open>Shared vocabulary of the library model\<close>

text \<open>
  This theory holds what every component uses: the machine integers of the C code, the ways
  a C function can fail to return a value, the sequencing of such functions, the GLib I/O
  status, and the generic facts on lists and numbers that carry the component proofs.

  Sizes (\<open>gsize\<close>) are natural numbers below \<open>2 ^ 64\<close> with the wrap-around of unsigned
  arithmetic written out (\<open>addz\<close>, \<open>subz\<close>, \<open>shlz\<close>); signed sizes (\<open>gssize\<close>) are
  integers, converted by \<open>ssize_to_size\<close> and \<open>size_to_ssize\<close> where the C code converts
  them. Bytes are \<open>8 word\<close> values.
\<close>

named_theorems sizes \<open>arithmetic on gsize values that do not wrap around\<close>
named_theorems mem_simps \<open>reads and writes on the block memory\<close>

type_synonym byte = "8 word"
type_synonym bytes = "byte list"

lemma unat_byte_less: "unat (b :: byte) < 256"
  using unsigned_less[of b, where ?'a = nat] by simp

subsection \<open>Unsigned and signed sizes\<close>

abbreviation size_limit :: nat where
  "size_limit \<equiv> 2 ^ 64"

abbreviation ssize_limit :: nat where
  "ssize_limit \<equiv> 2 ^ 63"

definition addz :: "nat \<Rightarrow> nat \<Rightarrow> nat" where
  "addz a b = (a + b) mod size_limit"

definition subz :: "nat \<Rightarrow> nat \<Rightarrow> nat" where
  "subz a b = (a + (size_limit - b mod size_limit)) mod size_limit"

definition shlz :: "nat \<Rightarrow> nat \<Rightarrow> nat" where
  "shlz a k = (a * 2 ^ k) mod size_limit"

definition size_to_ssize :: "nat \<Rightarrow> int" where
  "size_to_ssize a = (if a < ssize_limit then int a else int a - int size_limit)"

definition ssize_to_size :: "int \<Rightarrow> nat" where
  "ssize_to_size i = nat (i mod int size_limit)"

definition wrap_ssize :: "int \<Rightarrow> int" where
  "wrap_ssize i = size_to_ssize (ssize_to_size i)"

lemma addz_small [sizes]: "a + b < size_limit \<Longrightarrow> addz a b = a + b"
  by (simp add: addz_def)

lemma subz_le [sizes]: "b \<le> a \<Longrightarrow> a < size_limit \<Longrightarrow> subz a b = a - b"
proof -
  assume le: "b \<le> a" and lim: "a < size_limit"
  then have "a + (size_limit - b mod size_limit) = (a - b) + size_limit"
    by simp
  then show ?thesis using lim by (simp add: subz_def)
qed

lemma subz_wraps: "a < b \<Longrightarrow> b < size_limit \<Longrightarrow> subz a b = a + size_limit - b"
  by (simp add: subz_def)

lemma shlz_small [sizes]: "a * 2 ^ k < size_limit \<Longrightarrow> shlz a k = a * 2 ^ k"
  by (simp add: shlz_def)

lemma size_to_ssize_small [sizes]: "a < ssize_limit \<Longrightarrow> size_to_ssize a = int a"
  by (simp add: size_to_ssize_def)

lemma ssize_to_size_nonneg [sizes]:
  "0 \<le> i \<Longrightarrow> i < int size_limit \<Longrightarrow> ssize_to_size i = nat i"
  by (simp add: ssize_to_size_def)

lemma ssize_to_size_neg [sizes]:
  assumes "i < 0" "- int size_limit \<le> i"
  shows "ssize_to_size i = nat (i + int size_limit)"
proof -
  have "i mod int size_limit = (i + int size_limit) mod int size_limit" by simp
  also have "\<dots> = i + int size_limit" using assms by (intro mod_pos_pos_trivial) auto
  finally show ?thesis by (simp add: ssize_to_size_def)
qed

lemma wrap_ssize_id [sizes]:
  assumes "- int ssize_limit \<le> i" "i < int ssize_limit"
  shows "wrap_ssize i = i"
proof (cases "0 \<le> i")
  case True
  then have "ssize_to_size i = nat i" using assms by (simp add: ssize_to_size_nonneg)
  then show ?thesis using True assms by (simp add: wrap_ssize_def size_to_ssize_def)
next
  case False
  then have "ssize_to_size i = nat (i + int size_limit)"
    using assms by (simp add: ssize_to_size_neg)
  then show ?thesis using False assms by (simp add: wrap_ssize_def size_to_ssize_def)
qed

lemma int_addz_ssize: "int (addz a (ssize_to_size i)) = (int a + i) mod int size_limit"
  by (simp add: addz_def ssize_to_size_def zmod_int mod_add_right_eq)

lemma addz_ssize [sizes]:
  assumes "0 \<le> int a + i" "int a + i < int size_limit"
  shows "addz a (ssize_to_size i) = nat (int a + i)"
  using int_addz_ssize[of a i] assms by simp

lemma addz_ssize_neg:
  assumes "int a + i < 0" "- int ssize_limit \<le> i"
  shows "int (addz a (ssize_to_size i)) = int a + i + int size_limit"
proof -
  have "(int a + i) mod int size_limit = (int a + i + int size_limit) mod int size_limit" by simp
  also have "\<dots> = int a + i + int size_limit" using assms by (intro mod_pos_pos_trivial) auto
  finally show ?thesis by (simp add: int_addz_ssize)
qed

text \<open>A \<open>gsize\<close> passed where a 32-bit \<open>gint\<close> is expected.\<close>

definition size_to_int :: "nat \<Rightarrow> int" where
  "size_to_int a = (let n = int (a mod 2 ^ 32) in if n < 2 ^ 31 then n else n - 2 ^ 32)"

lemma size_to_int_small [sizes]: "a < 2 ^ 31 \<Longrightarrow> size_to_int a = int a"
  by (simp add: size_to_int_def)

subsection \<open>Results of C functions\<close>

text \<open>
  A function may abort on a failed assertion, touch memory it does not own, loop for ever or
  overflow a signed integer; each is a value of \<open>fault\<close>. \<open>rbind\<close> runs two functions one after the other.
\<close>

datatype fault =
    Assert_failed  \<comment> \<open>\<open>g_assert\<close> failed, the process aborts\<close>
  | Bad_access     \<comment> \<open>a read, write or free outside live memory\<close>
  | Endless_loop   \<comment> \<open>the function does not return\<close>
  | Int_overflow   \<comment> \<open>signed overflow, undefined in C\<close>

type_synonym 'a result = "fault + 'a"

definition rbind :: "'a result \<Rightarrow> ('a \<Rightarrow> 'b result) \<Rightarrow> 'b result" where
  "rbind m f = (case m of Inl e \<Rightarrow> Inl e | Inr x \<Rightarrow> f x)"

lemma rbind_simps [simp]: "rbind (Inl e) f = Inl e" "rbind (Inr x) f = f x"
  by (simp_all add: rbind_def)

lemma rbind_eq_Inr: "rbind m f = Inr y \<longleftrightarrow> (\<exists>x. m = Inr x \<and> f x = Inr y)"
  by (cases m) auto

lemma rbind_eq_InrE:
  assumes "rbind m f = Inr y"
  obtains x where "m = Inr x" "f x = Inr y"
  using assms by (auto simp: rbind_eq_Inr)

lemma rbind_split:
  "P (rbind m f) \<longleftrightarrow> (\<forall>e. m = Inl e \<longrightarrow> P (Inl e)) \<and> (\<forall>x. m = Inr x \<longrightarrow> P (f x))"
  by (cases m) auto

lemma rbind_cong [fundef_cong]:
  "m = m' \<Longrightarrow> (\<And>x. m' = Inr x \<Longrightarrow> f x = f' x) \<Longrightarrow> rbind m f = rbind m' f'"
  by (cases m') auto

definition g_assert :: "bool \<Rightarrow> unit result" where
  "g_assert b = (if b then Inr () else Inl Assert_failed)"

lemma g_assert_simps [simp]: "g_assert True = Inr ()" "g_assert False = Inl Assert_failed"
  by (simp_all add: g_assert_def)

lemma g_assert_eq_Inr [simp]: "g_assert b = Inr u \<longleftrightarrow> b"
  by (simp add: g_assert_def)

text \<open>The status of GLib I/O calls, in the order of \<open>GIOStatus\<close>.\<close>

datatype io_status = IO_ERROR | IO_NORMAL | IO_EOF | IO_AGAIN

text \<open>
  A stream that is read from but not modelled itself is the script of what its reads return from
  now on: data in pieces, nothing for the moment, an error, and the end of the input after the
  last event.
\<close>

datatype child_event = Data bytes | Again | Broken

type_synonym child = "child_event list"

fun child_read :: "nat \<Rightarrow> child \<Rightarrow> child \<times> io_status \<times> bytes" where
  "child_read n [] = ([], IO_EOF, [])"
| "child_read n (Data bs # es) =
     (if length bs \<le> n then (es, IO_NORMAL, bs) else (Data (drop n bs) # es, IO_NORMAL, take n bs))"
| "child_read n (Again # es) = (es, IO_AGAIN, [])"
| "child_read n (Broken # es) = (es, IO_ERROR, [])"

fun event_size :: "child_event \<Rightarrow> nat" where
  "event_size (Data bs) = length bs + 1"
| "event_size _ = 1"

definition child_size :: "child \<Rightarrow> nat" where
  "child_size es = sum_list (map event_size es)"

lemma child_read_progress: "0 < n \<Longrightarrow> es \<noteq> [] \<Longrightarrow> child_size (fst (child_read n es)) < child_size es"
  by (cases "(n, es)" rule: child_read.cases) (auto simp: child_size_def)

text \<open>What the child has still to deliver, when it does not fail.\<close>

fun child_input :: "child \<Rightarrow> bytes" where
  "child_input [] = []"
| "child_input (Data bs # es) = bs @ child_input es"
| "child_input (_ # es) = child_input es"

definition clean :: "child \<Rightarrow> bool" where
  "clean es \<longleftrightarrow> Broken \<notin> set es"

subsection \<open>Lists of bytes\<close>

text \<open>\<open>overwrite i ys xs\<close> is \<open>memcpy (xs + i, ys, length ys)\<close> on an array that holds it.\<close>

definition overwrite :: "nat \<Rightarrow> 'a list \<Rightarrow> 'a list \<Rightarrow> 'a list" where
  "overwrite i ys xs = take i xs @ ys @ drop (i + length ys) xs"

definition chunk :: "nat \<Rightarrow> nat \<Rightarrow> 'a list \<Rightarrow> 'a list" where
  "chunk i n xs = take n (drop i xs)"

lemma length_overwrite [simp]:
  "i + length ys \<le> length xs \<Longrightarrow> length (overwrite i ys xs) = length xs"
  by (simp add: overwrite_def)

lemma overwrite_Nil [simp]: "overwrite i [] xs = xs"
  by (simp add: overwrite_def)

lemma length_chunk [simp]: "i + n \<le> length xs \<Longrightarrow> length (chunk i n xs) = n"
  by (simp add: chunk_def)

lemma chunk_0 [simp]: "chunk i 0 xs = []"
  by (simp add: chunk_def)

lemma chunk_all: "n = length xs \<Longrightarrow> chunk 0 n xs = xs"
  by (simp add: chunk_def)

lemma chunk_overwrite_same [simp]:
  "i + length ys \<le> length xs \<Longrightarrow> n = length ys \<Longrightarrow> chunk i n (overwrite i ys xs) = ys"
  by (simp add: chunk_def overwrite_def)

lemma chunk_alt: "chunk i n xs = drop i (take (i + n) xs)"
  by (simp add: chunk_def take_drop add.commute)

lemma chunk_overwrite_before:
  "j + n \<le> i \<Longrightarrow> i \<le> length xs \<Longrightarrow> chunk j n (overwrite i ys xs) = chunk j n xs"
  by (simp add: chunk_alt overwrite_def min_absorb1)

lemma take_overwrite: "n \<le> i \<Longrightarrow> i \<le> length xs \<Longrightarrow> take n (overwrite i ys xs) = take n xs"
  by (simp add: overwrite_def min_absorb1)

lemma chunk_append_left: "i + n \<le> length xs \<Longrightarrow> chunk i n (xs @ ys) = chunk i n xs"
  by (simp add: chunk_def)

lemma chunk_chunk: "j + m \<le> n \<Longrightarrow> chunk j m (chunk i n xs) = chunk (i + j) m xs"
  by (simp add: chunk_def drop_take min_absorb1 add.commute)

lemma take_chunk: "m \<le> n \<Longrightarrow> take m (chunk i n xs) = chunk i m xs"
  by (simp add: chunk_def min_absorb1)

lemma overwrite_append:
  "i + length ys \<le> length xs \<Longrightarrow> overwrite i ys (xs @ zs) = overwrite i ys xs @ zs"
  by (simp add: overwrite_def)

subsection \<open>Stores of objects\<close>

text \<open>Objects that are allocated and freed live in a list of slots; a freed object leaves an empty one.\<close>

definition slot :: "'a option list \<Rightarrow> nat \<Rightarrow> 'a option" where
  "slot xs a = (if a < length xs then xs ! a else None)"

lemma slot_update: "slot (xs[a := x]) b = (if b = a \<and> a < length xs then x else slot xs b)"
  by (auto simp: slot_def)

lemma slot_Some: "slot xs a = Some x \<Longrightarrow> a < length xs \<and> xs ! a = Some x"
  by (auto simp: slot_def split: if_splits)

lemma filter_update:
  "i < length xs \<Longrightarrow> length (filter P (xs[i := y])) + of_bool (P (xs ! i)) = length (filter P xs) + of_bool (P y)"
proof (induction xs arbitrary: i)
  case (Cons x xs)
  show ?case
  proof (cases i)
    case (Suc j)
    then have "length (filter P (xs[j := y])) + of_bool (P (xs ! j)) = length (filter P xs) + of_bool (P y)"
      using Cons.IH[of j] Cons.prems by simp
    then show ?thesis using Suc by (cases "P x"; cases "P y"; cases "P (xs ! j)") simp_all
  qed simp
qed simp

end
