(* ===== verification/Zorp_Memory.thy ===== *)
theory Zorp_Memory
  imports Zorp_Prelude
begin

section \<open>Block memory and the GLib allocator\<close>

text \<open>
  The heap as a partial map from block numbers to byte arrays, with pointers as a block and an
  offset. A pointer into a freed block, or past the end of a live one, is a \<open>Bad_access\<close>; so
  a theorem that an operation returns is a memory-safety theorem. An access to zero bytes
  touches nothing. Fresh memory holds arbitrary bytes: \<open>junk b i\<close> is what byte \<open>i\<close> of
  block \<open>b\<close> holds when the block is allocated, and every theorem holds for all \<open>junk\<close>.
  \<open>g_realloc\<close> always moves the block, the worst case for a stale pointer.
\<close>

datatype ptr = Null | Ptr nat nat

record heap =
  next_block :: nat
  blocks :: "nat \<rightharpoonup> bytes"
  junk :: "nat \<Rightarrow> nat \<Rightarrow> byte"

fun ptr_add :: "ptr \<Rightarrow> nat \<Rightarrow> ptr" where
  "ptr_add Null n = Null"
| "ptr_add (Ptr b i) n = Ptr b (i + n)"

fun mem_read :: "heap \<Rightarrow> ptr \<Rightarrow> nat \<Rightarrow> bytes result" where
  "mem_read h Null n = (if n = 0 then Inr [] else Inl Bad_access)"
| "mem_read h (Ptr b i) n =
     (if n = 0 then Inr []
      else case blocks h b of
        None \<Rightarrow> Inl Bad_access
      | Some bs \<Rightarrow> if i + n \<le> length bs then Inr (chunk i n bs) else Inl Bad_access)"

fun mem_write :: "heap \<Rightarrow> ptr \<Rightarrow> bytes \<Rightarrow> heap result" where
  "mem_write h Null d = (if d = [] then Inr h else Inl Bad_access)"
| "mem_write h (Ptr b i) d =
     (if d = [] then Inr h
      else case blocks h b of
        None \<Rightarrow> Inl Bad_access
      | Some bs \<Rightarrow> if i + length d \<le> length bs
          then Inr (h\<lparr>blocks := (blocks h)(b \<mapsto> overwrite i d bs)\<rparr>) else Inl Bad_access)"

definition fresh_bytes :: "heap \<Rightarrow> nat \<Rightarrow> nat \<Rightarrow> bytes" where
  "fresh_bytes h i n = map (junk h (next_block h)) [i..<n]"

definition g_malloc :: "heap \<Rightarrow> nat \<Rightarrow> heap \<times> ptr" where
  "g_malloc h n =
     (if n = 0 then (h, Null)
      else (h\<lparr>next_block := Suc (next_block h),
             blocks := (blocks h)(next_block h \<mapsto> fresh_bytes h 0 n)\<rparr>, Ptr (next_block h) 0))"

fun g_free :: "heap \<Rightarrow> ptr \<Rightarrow> heap result" where
  "g_free h Null = Inr h"
| "g_free h (Ptr b i) =
     (if i = 0 \<and> blocks h b \<noteq> None then Inr (h\<lparr>blocks := (blocks h)(b := None)\<rparr>)
      else Inl Bad_access)"

fun g_realloc :: "heap \<Rightarrow> ptr \<Rightarrow> nat \<Rightarrow> (heap \<times> ptr) result" where
  "g_realloc h Null n = Inr (g_malloc h n)"
| "g_realloc h (Ptr b i) n =
     (if i \<noteq> 0 then Inl Bad_access
      else case blocks h b of
        None \<Rightarrow> Inl Bad_access
      | Some bs \<Rightarrow>
          if n = 0 then Inr (h\<lparr>blocks := (blocks h)(b := None)\<rparr>, Null)
          else Inr (h\<lparr>next_block := Suc (next_block h),
                 blocks := (blocks h)(b := None,
                   next_block h \<mapsto> take n bs @ fresh_bytes h (length bs) n)\<rparr>,
               Ptr (next_block h) 0))"

text \<open>\<open>memmove (p + dst, p + src, n)\<close> inside one buffer.\<close>

definition mem_move :: "heap \<Rightarrow> ptr \<Rightarrow> nat \<Rightarrow> nat \<Rightarrow> nat \<Rightarrow> heap result" where
  "mem_move h p dst src n =
     rbind (mem_read h (ptr_add p src) n) (\<lambda>d. mem_write h (ptr_add p dst) d)"

subsection \<open>A live region\<close>

text \<open>
  \<open>region h p n = Some bs\<close>: the \<open>n\<close> bytes at \<open>p\<close> are live and hold \<open>bs\<close>. The lemmas of this
  section are all that the client theories use of the memory.
\<close>

fun region :: "heap \<Rightarrow> ptr \<Rightarrow> nat \<Rightarrow> bytes option" where
  "region h Null n = (if n = 0 then Some [] else None)"
| "region h (Ptr b i) n =
     (case blocks h b of
        None \<Rightarrow> None
      | Some bs \<Rightarrow> if i + n \<le> length bs then Some (chunk i n bs) else None)"

lemma length_fresh_bytes [simp]: "length (fresh_bytes h i n) = n - i"
  by (simp add: fresh_bytes_def)

lemma ptr_add_0 [simp]: "ptr_add p 0 = p"
  by (cases p) auto

lemma ptr_add_add [simp]: "ptr_add (ptr_add p m) n = ptr_add p (m + n)"
  by (cases p) auto

lemma region_length: "region h p n = Some bs \<Longrightarrow> length bs = n"
  by (cases p) (auto split: option.splits if_splits)

lemma region_sub:
  assumes "region h p n = Some bs" "i + m \<le> n"
  shows "region h (ptr_add p i) m = Some (chunk i m bs)"
  using assms
  by (cases p) (auto split: option.splits if_splits simp: chunk_chunk add.assoc)

lemma region_take: "region h p n = Some bs \<Longrightarrow> m \<le> n \<Longrightarrow> region h p m = Some (take m bs)"
  using region_sub[of h p n bs 0 m] by (simp add: chunk_def)

lemma mem_read_region [mem_simps]:
  assumes "region h p n = Some bs" "i + m \<le> n"
  shows "mem_read h (ptr_add p i) m = Inr (chunk i m bs)"
  using assms
  by (cases p) (auto split: option.splits if_splits simp: chunk_chunk add.assoc)

lemma mem_read_region0 [mem_simps]:
  "region h p n = Some bs \<Longrightarrow> m \<le> n \<Longrightarrow> mem_read h p m = Inr (take m bs)"
  using mem_read_region[of h p n bs 0 m] by (simp add: chunk_def)

lemma chunk_overwrite_shift:
  assumes "i + n \<le> length xs" "j + length ys \<le> n"
  shows "chunk i n (overwrite (i + j) ys xs) = overwrite j ys (chunk i n xs)"
proof -
  define ws where "ws = drop i xs"
  have l: "n \<le> length ws" using assms by (simp add: ws_def)
  have "chunk i n (overwrite (i + j) ys xs) = take n (overwrite j ys ws)"
    using assms by (simp add: chunk_def overwrite_def ws_def drop_take ac_simps)
  also have "\<dots> = overwrite j ys (take n ws)"
    using assms l by (simp add: overwrite_def min_absorb1 min_absorb2 drop_take)
  finally show ?thesis by (simp add: chunk_def ws_def)
qed

lemma mem_write_region:
  assumes "region h p n = Some bs" "i + length d \<le> n"
  obtains h' where "mem_write h (ptr_add p i) d = Inr h'"
    and "region h' p n = Some (overwrite i d bs)"
    and "next_block h' = next_block h" and "junk h' = junk h"
    and "\<And>b. (case p of Null \<Rightarrow> True | Ptr b' _ \<Rightarrow> b \<noteq> b') \<Longrightarrow> blocks h' b = blocks h b"
    and "\<And>b. map_option length (blocks h' b) = map_option length (blocks h b)"
proof (cases p)
  case Null
  then have "d = []" using assms by (auto split: if_splits)
  then show thesis using assms Null by (intro that[of h]) auto
next
  case (Ptr b o')
  then obtain xs where xs: "blocks h b = Some xs" "o' + n \<le> length xs" "bs = chunk o' n xs"
    using assms by (auto split: option.splits if_splits)
  let ?h = "if d = [] then h else h\<lparr>blocks := (blocks h)(b \<mapsto> overwrite (o' + i) d xs)\<rparr>"
  show thesis
  proof (rule that[of ?h])
    show "mem_write h (ptr_add p i) d = Inr ?h" using Ptr xs assms by simp
    show "region ?h p n = Some (overwrite i d bs)"
      using Ptr xs assms by (auto simp: chunk_overwrite_shift)
  qed (use Ptr xs assms in auto)
qed

end
