(* ===== verification/Byte_Order.thy ===== *)
theory Byte_Order
  imports Zorp_Prelude
begin

section \<open>Integers in memory\<close>

text \<open>
  How an unsigned integer of \<open>n\<close> bytes lies in memory, for a host of either byte order.
  \<open>host\<close> is \<open>G_BYTE_ORDER\<close> (\<open>G_HOST_ENDIAN\<close> in \<open>packetbuf.h\<close>); \<open>swap_uint\<close> is the GLib macro
  family \<open>GUINTx_SWAP_LE_BE\<close>, which reverses the bytes of its operand.
\<close>

definition G_LITTLE_ENDIAN :: int where "G_LITTLE_ENDIAN = 1234"
definition G_BIG_ENDIAN :: int where "G_BIG_ENDIAN = 4321"

definition G_NETWORK_ENDIAN :: int where
  "G_NETWORK_ENDIAN = G_BIG_ENDIAN"

definition byte_order :: "int \<Rightarrow> bool" where
  "byte_order e \<longleftrightarrow> e = G_LITTLE_ENDIAN \<or> e = G_BIG_ENDIAN"

fun le_bytes :: "nat \<Rightarrow> nat \<Rightarrow> bytes" where
  "le_bytes 0 v = []"
| "le_bytes (Suc n) v = of_nat (v mod 256) # le_bytes n (v div 256)"

fun le_val :: "bytes \<Rightarrow> nat" where
  "le_val [] = 0"
| "le_val (b # bs) = unat b + 256 * le_val bs"

definition uint_to_mem :: "int \<Rightarrow> nat \<Rightarrow> nat \<Rightarrow> bytes" where
  "uint_to_mem host n v = (if host = G_LITTLE_ENDIAN then le_bytes n v else rev (le_bytes n v))"

definition uint_of_mem :: "int \<Rightarrow> bytes \<Rightarrow> nat" where
  "uint_of_mem host bs = (if host = G_LITTLE_ENDIAN then le_val bs else le_val (rev bs))"

definition swap_uint :: "nat \<Rightarrow> nat \<Rightarrow> nat" where
  "swap_uint n v = le_val (rev (le_bytes n v))"

lemma length_le_bytes [simp]: "length (le_bytes n v) = n"
  by (induction n arbitrary: v) auto

lemma length_uint_to_mem [simp]: "length (uint_to_mem host n v) = n"
  by (simp add: uint_to_mem_def)

lemma le_val_less: "le_val bs < 256 ^ length bs"
proof (induction bs)
  case (Cons b bs)
  have "unat b < 256" by (rule unat_byte_less)
  moreover have "256 * le_val bs + 256 \<le> 256 * 256 ^ length bs"
    using Cons.IH by simp
  ultimately show ?case by simp
qed simp

lemma unat_of_mod_256: "unat (of_nat (v mod 256) :: byte) = v mod 256"
  by (simp add: unat_of_nat)

lemma le_val_le_bytes [simp]: "v < 256 ^ n \<Longrightarrow> le_val (le_bytes n v) = v"
proof (induction n arbitrary: v)
  case (Suc n)
  then have "v div 256 < 256 ^ n"
    by (simp add: less_mult_imp_div_less mult.commute)
  then show ?case using Suc.IH by (simp add: unat_of_mod_256)
qed simp

lemma le_bytes_le_val [simp]: "n = length bs \<Longrightarrow> le_bytes n (le_val bs) = bs"
proof (induction bs arbitrary: n)
  case (Cons b bs)
  have "unat b < 256" by (rule unat_byte_less)
  then show ?case using Cons by simp
qed simp

lemma swap_uint_less: "swap_uint n v < 256 ^ n"
  using le_val_less[of "rev (le_bytes n v)"] by (simp add: swap_uint_def)

lemma swap_uint_swap [simp]: "v < 256 ^ n \<Longrightarrow> swap_uint n (swap_uint n v) = v"
  by (simp add: swap_uint_def)

lemma le_bytes_swap: "le_bytes n (swap_uint n v) = rev (le_bytes n v)"
  by (simp add: swap_uint_def)

lemma uint_of_to_mem [simp]: "v < 256 ^ n \<Longrightarrow> uint_of_mem host (uint_to_mem host n v) = v"
  by (simp add: uint_of_mem_def uint_to_mem_def)

lemma uint_of_mem_less: "uint_of_mem host bs < 256 ^ length bs"
  using le_val_less[of bs] le_val_less[of "rev bs"] by (simp add: uint_of_mem_def)

subsection \<open>A value as the code stores and loads it\<close>

text \<open>\<open>if (e == G_HOST_ENDIAN) v else GUINTx_SWAP_LE_BE(v)\<close>.\<close>

definition to_endian :: "int \<Rightarrow> nat \<Rightarrow> int \<Rightarrow> nat \<Rightarrow> nat" where
  "to_endian host n e v = (if e = host then v else swap_uint n v)"

lemma to_endian_less: "v < 256 ^ n \<Longrightarrow> to_endian host n e v < 256 ^ n"
  by (simp add: to_endian_def swap_uint_less)

lemma to_endian_twice [simp]:
  "v < 256 ^ n \<Longrightarrow> to_endian host n e (to_endian host n e v) = v"
  by (simp add: to_endian_def)

lemma stored_bytes:
  assumes "byte_order host" "byte_order e"
  shows "uint_to_mem host n (to_endian host n e v)
       = (if e = G_LITTLE_ENDIAN then le_bytes n v else rev (le_bytes n v))"
  using assms
  by (auto simp: uint_to_mem_def to_endian_def byte_order_def le_bytes_swap
      G_LITTLE_ENDIAN_def G_BIG_ENDIAN_def)

text \<open>The same value by the byte order of the packet alone.\<close>

definition enc_uint :: "int \<Rightarrow> nat \<Rightarrow> nat \<Rightarrow> bytes" where
  "enc_uint e n v = (if e = G_LITTLE_ENDIAN then le_bytes n v else rev (le_bytes n v))"

definition dec_uint :: "int \<Rightarrow> bytes \<Rightarrow> nat" where
  "dec_uint e bs = (if e = G_LITTLE_ENDIAN then le_val bs else le_val (rev bs))"

lemma length_enc_uint [simp]: "length (enc_uint e n v) = n"
  by (simp add: enc_uint_def)

lemma dec_enc_uint [simp]: "v < 256 ^ n \<Longrightarrow> dec_uint e (enc_uint e n v) = v"
  by (simp add: dec_uint_def enc_uint_def)

lemma dec_uint_less: "dec_uint e bs < 256 ^ length bs"
  using le_val_less[of bs] le_val_less[of "rev bs"] by (simp add: dec_uint_def)

lemma stored_value:
  "byte_order host \<Longrightarrow> byte_order e \<Longrightarrow> uint_to_mem host n (to_endian host n e v) = enc_uint e n v"
  by (simp add: stored_bytes enc_uint_def)

lemma loaded_value:
  assumes "byte_order host" "byte_order e" "length bs = n"
  shows "to_endian host n e (uint_of_mem host bs) = dec_uint e bs"
  using assms
  by (auto simp: uint_of_mem_def to_endian_def byte_order_def swap_uint_def dec_uint_def
      G_LITTLE_ENDIAN_def G_BIG_ENDIAN_def)

lemma byte_order_consts [simp]:
  "byte_order G_LITTLE_ENDIAN" "byte_order G_BIG_ENDIAN" "byte_order G_NETWORK_ENDIAN"
  by (simp_all add: byte_order_def G_NETWORK_ENDIAN_def)

end
