(* ===== verification/Refcount.thy ===== *)
theory Refcount
  imports Zorp_Prelude
begin

section \<open>Reference counters\<close>

text \<open>
  The counters of \<open>src/zorp/misc.h\<close>: \<open>z_incref\<close>/\<open>z_decref\<close> on a plain \<open>guint\<close> and
  \<open>z_refcount_inc\<close>/\<open>z_refcount_dec\<close>/\<open>z_refcount_set\<close> on a \<open>ZRefCount\<close>, both with the sanity
  check that aborts the program on a counter outside \<open>1 .. MAX_REF - 1\<close>. The locale
  \<open>refcounted\<close> is the contract of a reference counted class (a \<open>_ref\<close> and an \<open>_unref\<close>
  function): \<open>inv\<close> is what the counter calls keep, \<open>released\<close> what holds once the last
  reference was dropped. The reference counted classes interpret it.
\<close>

definition MAX_REF :: int where
  "MAX_REF = 512 * 1024"

definition z_incref :: "nat \<Rightarrow> nat result" where
  "z_incref ref = rbind (g_assert (int ref < MAX_REF \<and> ref > 0)) (\<lambda>_. Inr (ref + 1))"

definition z_decref :: "nat \<Rightarrow> nat result" where
  "z_decref ref = rbind (g_assert (int ref < MAX_REF \<and> ref > 0)) (\<lambda>_. Inr (ref - 1))"

definition z_refcount_inc :: "int \<Rightarrow> int result" where
  "z_refcount_inc counter =
     rbind (g_assert (counter < MAX_REF \<and> counter > 0)) (\<lambda>_. Inr (counter + 1))"

definition z_refcount_dec :: "int \<Rightarrow> (int \<times> bool) result" where
  "z_refcount_dec counter =
     rbind (g_assert (counter < MAX_REF \<and> counter > 0)) (\<lambda>_. Inr (counter - 1, counter - 1 = 0))"

definition z_refcount_set :: "int \<Rightarrow> int \<Rightarrow> int" where
  "z_refcount_set counter value = value"

definition count_ok :: "int \<Rightarrow> bool" where
  "count_ok c \<longleftrightarrow> 0 < c \<and> c < MAX_REF"

lemma z_refcount_inc_ok [simp]: "count_ok c \<Longrightarrow> z_refcount_inc c = Inr (c + 1)"
  by (simp add: z_refcount_inc_def count_ok_def)

lemma z_refcount_inc_bad [simp]: "\<not> count_ok c \<Longrightarrow> z_refcount_inc c = Inl Assert_failed"
  by (auto simp: z_refcount_inc_def count_ok_def g_assert_def)

lemma z_refcount_dec_ok [simp]: "count_ok c \<Longrightarrow> z_refcount_dec c = Inr (c - 1, c = 1)"
  by (auto simp: z_refcount_dec_def count_ok_def)

lemma z_refcount_dec_bad [simp]: "\<not> count_ok c \<Longrightarrow> z_refcount_dec c = Inl Assert_failed"
  by (auto simp: z_refcount_dec_def count_ok_def g_assert_def)

lemma count_ok_1 [simp]: "count_ok 1"
  by (simp add: count_ok_def MAX_REF_def)

subsection \<open>Runs of references taken and dropped\<close>

datatype ref_op = Take_ref | Drop_ref

text \<open>
  The object after a sequence of \<open>_ref\<close> and \<open>_unref\<close> calls: \<open>Inl s\<close> while it is alive,
  \<open>Inr (d, rest)\<close> once the last reference was dropped, where \<open>rest\<close> are the calls not made.
\<close>

fun run_refs :: "('s \<Rightarrow> 's result) \<Rightarrow> ('s \<Rightarrow> ('s + 'd) result) \<Rightarrow> ref_op list \<Rightarrow> 's \<Rightarrow>
    ('s + 'd \<times> ref_op list) result" where
  "run_refs ref unref [] s = Inr (Inl s)"
| "run_refs ref unref (Take_ref # ops) s = rbind (ref s) (\<lambda>s'. run_refs ref unref ops s')"
| "run_refs ref unref (Drop_ref # ops) s =
     rbind (unref s) (\<lambda>r. case r of Inl s' \<Rightarrow> run_refs ref unref ops s' | Inr d \<Rightarrow> Inr (Inr (d, ops)))"

fun balance :: "ref_op list \<Rightarrow> int" where
  "balance [] = 0"
| "balance (Take_ref # ops) = 1 + balance ops"
| "balance (Drop_ref # ops) = balance ops - 1"

fun stays_alive :: "int \<Rightarrow> ref_op list \<Rightarrow> bool" where
  "stays_alive c [] = count_ok c"
| "stays_alive c (Take_ref # ops) = (count_ok c \<and> stays_alive (c + 1) ops)"
| "stays_alive c (Drop_ref # ops) = (count_ok c \<and> stays_alive (c - 1) ops)"

lemma stays_alive_count_ok: "stays_alive c ops \<Longrightarrow> count_ok c"
  by (cases "(c, ops)" rule: stays_alive.cases) auto

locale refcounted =
  fixes inv :: "'s \<Rightarrow> bool"
    and count :: "'s \<Rightarrow> int"
    and ref :: "'s \<Rightarrow> 's result"
    and unref :: "'s \<Rightarrow> ('s + 'd) result"
    and released :: "'d \<Rightarrow> bool"
  assumes ref_ok: "inv s \<Longrightarrow> count_ok (count s) \<Longrightarrow>
      \<exists>s'. ref s = Inr s' \<and> count s' = count s + 1 \<and> inv s'"
    and ref_bad: "inv s \<Longrightarrow> \<not> count_ok (count s) \<Longrightarrow> ref s = Inl Assert_failed"
    and unref_more: "inv s \<Longrightarrow> count_ok (count s) \<Longrightarrow> count s \<noteq> 1 \<Longrightarrow>
      \<exists>s'. unref s = Inr (Inl s') \<and> count s' = count s - 1 \<and> inv s'"
    and unref_last: "inv s \<Longrightarrow> count s = 1 \<Longrightarrow> \<exists>d. unref s = Inr (Inr d) \<and> released d"
    and unref_bad: "inv s \<Longrightarrow> \<not> count_ok (count s) \<Longrightarrow> unref s = Inl Assert_failed"
begin

lemma run_alive:
  "inv s \<Longrightarrow> stays_alive (count s) ops \<Longrightarrow>
   \<exists>s'. run_refs ref unref ops s = Inr (Inl s') \<and> count s' = count s + balance ops \<and> inv s'"
proof (induction ops arbitrary: s)
  case Nil
  then show ?case by auto
next
  case (Cons op ops)
  have ok: "count_ok (count s)" using Cons.prems(2) by (rule stays_alive_count_ok)
  show ?case
  proof (cases op)
    case Take_ref
    obtain s1 where s1: "ref s = Inr s1" "count s1 = count s + 1" "inv s1"
      using ref_ok[OF Cons.prems(1) ok] by auto
    then have "stays_alive (count s1) ops" using Cons.prems(2) Take_ref by simp
    from Cons.IH[OF s1(3) this] show ?thesis using s1 Take_ref by auto
  next
    case Drop_ref
    have "count_ok (count s - 1)"
      using Cons.prems(2) Drop_ref by (auto dest: stays_alive_count_ok)
    then have "count s \<noteq> 1" by (auto simp: count_ok_def)
    then obtain s1 where s1: "unref s = Inr (Inl s1)" "count s1 = count s - 1" "inv s1"
      using unref_more[OF Cons.prems(1) ok] by auto
    then have "stays_alive (count s1) ops" using Cons.prems(2) Drop_ref by simp
    from Cons.IH[OF s1(3) this] show ?thesis using s1 Drop_ref by auto
  qed
qed

text \<open>The object dies exactly with the call that balances the references taken.\<close>

lemma run_freed:
  assumes "inv s" "stays_alive (count s) ops" "count s + balance ops = 1"
  shows "\<exists>d. run_refs ref unref (ops @ Drop_ref # rest) s = Inr (Inr (d, rest)) \<and> released d"
proof -
  have app: "run_refs ref unref (ops @ more) s =
    (case run_refs ref unref ops s of Inl e \<Rightarrow> Inl e
     | Inr (Inl s') \<Rightarrow> run_refs ref unref more s'
     | Inr (Inr (d, r)) \<Rightarrow> Inr (Inr (d, r @ more)))" for more
    by (induction ref unref ops s rule: run_refs.induct)
       (auto simp: rbind_def split: sum.splits)
  obtain s' where "run_refs ref unref ops s = Inr (Inl s')" "count s' = 1" "inv s'"
    using run_alive[OF assms(1,2)] assms(3) by auto
  then show ?thesis using unref_last[of s'] by (auto simp: app)
qed

end

end
