(* ===== verification/Packetbuf.thy ===== *)
theory Packetbuf
  imports Zorp_Memory Byte_Order Refcount
begin

section \<open>Packet buffers\<close>

text \<open>
  \<open>src/packetbuf.c\<close> and the inline functions of \<open>src/zorp/packetbuf.h\<close>: a resizable buffer that
  holds one packet, with a read/write position. The structure is the record \<open>zpktbuf\<close>; its data
  is a pointer into the block memory, so that a buffer made by \<open>z_pktbuf_part\<close> shares the memory
  of its parent. Every operation takes and returns the heap and the structure. The source of a
  copy is given by its contents. \<open>host\<close> is the byte order of the machine.

  After the definitions: the well-formedness invariant and the contract of each operation, then
  the abstract packet (contents and position), which every operation refines.
\<close>

unbundle bit_operations_syntax

definition Z_PB_BORROWED :: "32 word" where "Z_PB_BORROWED = 1"

record zpktbuf =
  pb_ref_cnt :: int
  pb_allocated :: nat
  pb_length :: nat
  pb_pos :: nat
  pb_flags :: "32 word"
  pb_data :: ptr

type_synonym pkt_state = "heap \<times> zpktbuf"

datatype seek_type = G_SEEK_CUR | G_SEEK_SET | G_SEEK_END

definition pb_borrowed :: "zpktbuf \<Rightarrow> bool" where
  "pb_borrowed self \<longleftrightarrow> pb_flags self AND Z_PB_BORROWED \<noteq> 0"

subsection \<open>Attributes\<close>

definition z_pktbuf_current :: "zpktbuf \<Rightarrow> ptr" where
  "z_pktbuf_current self = ptr_add (pb_data self) (pb_pos self)"

definition z_pktbuf_end :: "zpktbuf \<Rightarrow> ptr" where
  "z_pktbuf_end self = ptr_add (pb_data self) (pb_length self)"

definition z_pktbuf_free_size :: "zpktbuf \<Rightarrow> nat" where
  "z_pktbuf_free_size self = subz (pb_allocated self) (pb_length self)"

definition z_pktbuf_available :: "zpktbuf \<Rightarrow> nat" where
  "z_pktbuf_available self = subz (pb_length self) (pb_pos self)"

subsection \<open>The buffer regardless of the position\<close>

definition z_pktbuf_resize :: "heap \<Rightarrow> zpktbuf \<Rightarrow> nat \<Rightarrow> pkt_state result" where
  "z_pktbuf_resize h self sz =
     rbind (if sz > pb_allocated self
            then rbind (g_assert (\<not> pb_borrowed self)) (\<lambda>_.
                 rbind (g_realloc h (pb_data self) sz) (\<lambda>(h', p).
                   Inr (h', self\<lparr>pb_data := p, pb_allocated := sz\<rparr>)))
            else Inr (h, self))
       (\<lambda>(h', s).
         let s = (if pb_length s > sz then s\<lparr>pb_length := sz\<rparr> else s);
             s = (if pb_pos s > sz then s\<lparr>pb_pos := sz\<rparr> else s)
         in Inr (h', s))"

definition z_pktbuf_copy :: "heap \<Rightarrow> zpktbuf \<Rightarrow> bytes \<Rightarrow> (pkt_state \<times> bool) result" where
  "z_pktbuf_copy h self data =
     rbind (z_pktbuf_resize h self (length data)) (\<lambda>(h', s).
       let s = (if pb_pos s > length data then s\<lparr>pb_pos := length data\<rparr> else s);
           s = s\<lparr>pb_length := length data\<rparr>
       in rbind (mem_write h' (pb_data s) data) (\<lambda>h''. Inr ((h'', s), True)))"

definition z_pktbuf_relocate :: "heap \<Rightarrow> zpktbuf \<Rightarrow> ptr \<Rightarrow> nat \<Rightarrow> bool \<Rightarrow> pkt_state result" where
  "z_pktbuf_relocate h self data len is_borrowed =
     rbind (if pb_data self \<noteq> Null \<and> \<not> pb_borrowed self then g_free h (pb_data self) else Inr h)
       (\<lambda>h'.
         let s = (if pb_pos self > len then self\<lparr>pb_pos := len\<rparr> else self);
             s = s\<lparr>pb_data := data, pb_allocated := len, pb_length := len\<rparr>
         in Inr (h', if is_borrowed then s\<lparr>pb_flags := pb_flags s OR Z_PB_BORROWED\<rparr>
                     else s\<lparr>pb_flags := pb_flags s AND NOT Z_PB_BORROWED\<rparr>))"

definition z_pktbuf_set_available :: "heap \<Rightarrow> zpktbuf \<Rightarrow> nat \<Rightarrow> (pkt_state \<times> bool) result" where
  "z_pktbuf_set_available h self sz =
     (if pb_length self \<ge> addz (pb_pos self) sz then Inr ((h, self), True)
      else let s = self\<lparr>pb_length := addz (pb_pos self) sz\<rparr>
        in rbind (z_pktbuf_resize h s (addz (pb_pos s) sz)) (\<lambda>st. Inr (st, True)))"

definition z_pktbuf_append :: "heap \<Rightarrow> zpktbuf \<Rightarrow> bytes \<Rightarrow> (pkt_state \<times> bool) result" where
  "z_pktbuf_append h self data =
     rbind (z_pktbuf_resize h self (addz (pb_length self) (length data))) (\<lambda>(h', s).
     rbind (mem_write h' (ptr_add (pb_data s) (pb_length s)) data) (\<lambda>h''.
       Inr ((h'', s\<lparr>pb_length := addz (pb_length s) (length data)\<rparr>), True)))"

definition z_pktbuf_insert :: "heap \<Rightarrow> zpktbuf \<Rightarrow> nat \<Rightarrow> bytes \<Rightarrow> (pkt_state \<times> bool) result" where
  "z_pktbuf_insert h self pos data =
     rbind (z_pktbuf_resize h self (addz (pb_length self) (length data))) (\<lambda>(h', s).
     rbind (mem_move h' (pb_data s) (pos + length data) pos (subz (pb_length s) pos)) (\<lambda>h2.
     rbind (mem_write h2 (ptr_add (pb_data s) pos) data) (\<lambda>h3.
       Inr ((h3, s\<lparr>pb_length := addz (pb_length s) (length data)\<rparr>), True))))"

definition z_pktbuf_data_equal :: "heap \<Rightarrow> zpktbuf \<Rightarrow> zpktbuf \<Rightarrow> bool result" where
  "z_pktbuf_data_equal h lhs rhs =
     (if pb_length lhs = pb_length rhs
      then rbind (mem_read h (pb_data lhs) (pb_length rhs)) (\<lambda>l.
           rbind (mem_read h (pb_data rhs) (pb_length rhs)) (\<lambda>r. Inr (l = r)))
      else Inr False)"

subsection \<open>Instances\<close>

definition z_pktbuf_new :: zpktbuf where
  "z_pktbuf_new =
     \<lparr>pb_ref_cnt = z_refcount_set 0 1, pb_allocated = 0, pb_length = 0, pb_pos = 0,
      pb_flags = 0, pb_data = Null\<rparr>"

definition z_pktbuf_part :: "zpktbuf \<Rightarrow> nat \<Rightarrow> nat \<Rightarrow> zpktbuf" where
  "z_pktbuf_part parent pos len =
     (let n = min len (subz (pb_length parent) pos)
      in \<lparr>pb_ref_cnt = z_refcount_set 0 1, pb_allocated = n, pb_length = n, pb_pos = 0,
          pb_flags = Z_PB_BORROWED, pb_data = ptr_add (pb_data parent) pos\<rparr>)"

definition z_pktbuf_ref :: "zpktbuf \<Rightarrow> zpktbuf result" where
  "z_pktbuf_ref self = rbind (z_refcount_inc (pb_ref_cnt self)) (\<lambda>c. Inr (self\<lparr>pb_ref_cnt := c\<rparr>))"

text \<open>\<open>Inl\<close>: the instance is still alive; \<open>Inr\<close>: it was freed, with the heap that is left.\<close>

definition z_pktbuf_unref :: "heap \<Rightarrow> zpktbuf option \<Rightarrow> (pkt_state + heap) result" where
  "z_pktbuf_unref h self =
     (case self of
        None \<Rightarrow> Inr (Inr h)
      | Some s \<Rightarrow>
          rbind (z_refcount_dec (pb_ref_cnt s)) (\<lambda>(c, zero).
            if zero
            then rbind (if pb_data s \<noteq> Null \<and> \<not> pb_borrowed s then g_free h (pb_data s) else Inr h)
                   (\<lambda>h'. Inr (Inr h'))
            else Inr (Inl (h, s\<lparr>pb_ref_cnt := c\<rparr>))))"

subsection \<open>The position\<close>

definition z_pktbuf_seek :: "zpktbuf \<Rightarrow> seek_type \<Rightarrow> int \<Rightarrow> zpktbuf \<times> bool" where
  "z_pktbuf_seek self whence pos =
     (case whence of
        G_SEEK_CUR \<Rightarrow>
          if addz (pb_pos self) (ssize_to_size pos) > pb_length self
             \<or> wrap_ssize (size_to_ssize (pb_pos self) + pos) < 0
          then (self, False)
          else (self\<lparr>pb_pos := addz (pb_pos self) (ssize_to_size pos)\<rparr>, True)
      | G_SEEK_SET \<Rightarrow>
          if pos > size_to_ssize (pb_length self) \<or> pos < 0 then (self, False)
          else (self\<lparr>pb_pos := ssize_to_size pos\<rparr>, True)
      | G_SEEK_END \<Rightarrow>
          if pos > 0 \<or> size_to_ssize (pb_length self) < wrap_ssize (- pos) then (self, False)
          else (self\<lparr>pb_pos := addz (pb_length self) (ssize_to_size pos)\<rparr>, True))"

subsection \<open>Reading numbers\<close>

text \<open>
  The body that \<open>z_pktbuf_get_u8\<close>, \<open>_u16\<close>, \<open>_u32\<close> and \<open>_u64\<close> share, for \<open>n\<close> bytes: \<open>res\<close> says
  whether the pointer for the result is not \<open>NULL\<close>; the last component is what is stored there.
\<close>

definition get_uint :: "int \<Rightarrow> nat \<Rightarrow> heap \<Rightarrow> zpktbuf \<Rightarrow> int \<Rightarrow> bool \<Rightarrow>
    (zpktbuf \<times> bool \<times> nat option) result" where
  "get_uint host n h self e res =
     (if z_pktbuf_available self < n then Inr (self, False, None)
      else rbind (if res
                  then rbind (mem_read h (z_pktbuf_current self) n)
                         (\<lambda>bs. Inr (Some (to_endian host n e (uint_of_mem host bs))))
                  else Inr None)
             (\<lambda>v. Inr (self\<lparr>pb_pos := addz (pb_pos self) n\<rparr>, True, v)))"

definition z_pktbuf_get_u8 :: "int \<Rightarrow> heap \<Rightarrow> zpktbuf \<Rightarrow> bool \<Rightarrow>
    (zpktbuf \<times> bool \<times> 8 word option) result" where
  "z_pktbuf_get_u8 host h self res =
     rbind (get_uint host 1 h self host res) (\<lambda>(s, ok, v). Inr (s, ok, map_option of_nat v))"

definition z_pktbuf_get_u16 :: "int \<Rightarrow> heap \<Rightarrow> zpktbuf \<Rightarrow> int \<Rightarrow> bool \<Rightarrow>
    (zpktbuf \<times> bool \<times> 16 word option) result" where
  "z_pktbuf_get_u16 host h self e res =
     rbind (get_uint host 2 h self e res) (\<lambda>(s, ok, v). Inr (s, ok, map_option of_nat v))"

definition z_pktbuf_get_u32 :: "int \<Rightarrow> heap \<Rightarrow> zpktbuf \<Rightarrow> int \<Rightarrow> bool \<Rightarrow>
    (zpktbuf \<times> bool \<times> 32 word option) result" where
  "z_pktbuf_get_u32 host h self e res =
     rbind (get_uint host 4 h self e res) (\<lambda>(s, ok, v). Inr (s, ok, map_option of_nat v))"

definition z_pktbuf_get_u64 :: "int \<Rightarrow> heap \<Rightarrow> zpktbuf \<Rightarrow> int \<Rightarrow> bool \<Rightarrow>
    (zpktbuf \<times> bool \<times> 64 word option) result" where
  "z_pktbuf_get_u64 host h self e res =
     rbind (get_uint host 8 h self e res) (\<lambda>(s, ok, v). Inr (s, ok, map_option of_nat v))"

definition z_pktbuf_get_boolean :: "heap \<Rightarrow> zpktbuf \<Rightarrow> bool \<Rightarrow>
    (zpktbuf \<times> bool \<times> bool option) result" where
  "z_pktbuf_get_boolean h self res =
     rbind (get_uint G_LITTLE_ENDIAN 1 h self G_LITTLE_ENDIAN res)
       (\<lambda>(s, ok, v). Inr (s, ok, map_option (\<lambda>x. x \<noteq> 0) v))"

definition z_pktbuf_get_boolean16 :: "int \<Rightarrow> heap \<Rightarrow> zpktbuf \<Rightarrow> bool \<Rightarrow>
    (zpktbuf \<times> bool \<times> bool option) result" where
  "z_pktbuf_get_boolean16 host h self res =
     rbind (get_uint host 2 h self host res)
       (\<lambda>(s, ok, v). Inr (s, ok, map_option (\<lambda>x. x \<noteq> 0) v))"

subsection \<open>Writing numbers\<close>

definition put_uint :: "int \<Rightarrow> nat \<Rightarrow> heap \<Rightarrow> zpktbuf \<Rightarrow> int \<Rightarrow> nat \<Rightarrow> (pkt_state \<times> bool) result" where
  "put_uint host n h self e d =
     rbind (z_pktbuf_set_available h self n) (\<lambda>((h', s), _).
     rbind (mem_write h' (z_pktbuf_current s) (uint_to_mem host n (to_endian host n e d))) (\<lambda>h''.
       Inr ((h'', s\<lparr>pb_pos := addz (pb_pos s) n\<rparr>), True)))"

definition z_pktbuf_put_u8 :: "int \<Rightarrow> heap \<Rightarrow> zpktbuf \<Rightarrow> 8 word \<Rightarrow> (pkt_state \<times> bool) result" where
  "z_pktbuf_put_u8 host h self d = put_uint host 1 h self host (unat d)"

definition z_pktbuf_put_u16 ::
    "int \<Rightarrow> heap \<Rightarrow> zpktbuf \<Rightarrow> int \<Rightarrow> 16 word \<Rightarrow> (pkt_state \<times> bool) result" where
  "z_pktbuf_put_u16 host h self e d = put_uint host 2 h self e (unat d)"

definition z_pktbuf_put_u32 ::
    "int \<Rightarrow> heap \<Rightarrow> zpktbuf \<Rightarrow> int \<Rightarrow> 32 word \<Rightarrow> (pkt_state \<times> bool) result" where
  "z_pktbuf_put_u32 host h self e d = put_uint host 4 h self e (unat d)"

definition z_pktbuf_put_u64 ::
    "int \<Rightarrow> heap \<Rightarrow> zpktbuf \<Rightarrow> int \<Rightarrow> 64 word \<Rightarrow> (pkt_state \<times> bool) result" where
  "z_pktbuf_put_u64 host h self e d = put_uint host 8 h self e (unat d)"

definition z_pktbuf_put_boolean :: "heap \<Rightarrow> zpktbuf \<Rightarrow> bool \<Rightarrow> (pkt_state \<times> bool) result" where
  "z_pktbuf_put_boolean h self res =
     rbind (z_pktbuf_set_available h self 1) (\<lambda>((h', s), ok).
       if \<not> ok then Inr ((h', s), False)
       else rbind (mem_write h' (z_pktbuf_current s) [if res then 1 else 0]) (\<lambda>h''.
         Inr ((h'', s\<lparr>pb_pos := addz (pb_pos s) 1\<rparr>), True)))"

subsection \<open>Arrays of numbers\<close>

text \<open>
  The loop \<open>for (i = 0; i < n; i += k)\<close> of the array functions that swaps the bytes of each
  element. Its counter is a 32-bit \<open>guint\<close> and its bound a \<open>gsize\<close>: once \<open>i + k\<close> passes
  \<open>2 ^ 32\<close> the counter is 0 again, still below \<open>n\<close>, and the loop starts over for ever.
\<close>

function swap_loop :: "nat \<Rightarrow> nat \<Rightarrow> nat \<Rightarrow> bytes \<Rightarrow> bytes result" where
  "swap_loop k i n src =
     (if i < n \<and> 0 < k
      then if i + k \<ge> 2 ^ 32 then Inl Endless_loop
        else rbind (swap_loop k (i + k) n src) (\<lambda>rest. Inr (rev (chunk i k src) @ rest))
      else Inr [])"
  by pat_completeness auto
termination by (relation "measure (\<lambda>(k, i, n, src). n - i)") auto

declare swap_loop.simps [simp del]

definition get_uints :: "int \<Rightarrow> nat \<Rightarrow> nat \<Rightarrow> heap \<Rightarrow> zpktbuf \<Rightarrow> int \<Rightarrow> nat \<Rightarrow> bool \<Rightarrow>
    (zpktbuf \<times> bool \<times> bytes option) result" where
  "get_uints host sh k h self e n res =
     (let n = shlz n sh in
      if z_pktbuf_available self < n then Inr (self, False, None)
      else rbind (if res
                  then rbind (mem_read h (z_pktbuf_current self) n) (\<lambda>bs.
                    if e = host then Inr (Some bs)
                    else rbind (swap_loop k 0 n bs) (\<lambda>r. Inr (Some r)))
                  else Inr None)
             (\<lambda>v. Inr (self\<lparr>pb_pos := addz (pb_pos self) n\<rparr>, True, v)))"

definition put_uints :: "int \<Rightarrow> nat \<Rightarrow> nat \<Rightarrow> heap \<Rightarrow> zpktbuf \<Rightarrow> int \<Rightarrow> nat \<Rightarrow> bytes option \<Rightarrow>
    (pkt_state \<times> bool) result" where
  "put_uints host sh k h self e n res =
     (let n = shlz n sh in
      rbind (z_pktbuf_set_available h self n) (\<lambda>((h', s), _).
      rbind (case res of
               None \<Rightarrow> Inr h'
             | Some src \<Rightarrow>
                 if length src < n then Inl Bad_access
                 else rbind (if e = host then Inr (take n src) else swap_loop k 0 n src)
                   (\<lambda>d. mem_write h' (z_pktbuf_current s) d))
        (\<lambda>h''. Inr ((h'', s\<lparr>pb_pos := addz (pb_pos s) n\<rparr>), True))))"

text \<open>
  The arrays are given by their memory image: \<open>n\<close> elements of 1, 2, 4 and 8 bytes.
\<close>

definition z_pktbuf_get_u8s :: "heap \<Rightarrow> zpktbuf \<Rightarrow> nat \<Rightarrow> bool \<Rightarrow>
    (zpktbuf \<times> bool \<times> bytes option) result" where
  "z_pktbuf_get_u8s h self n res =
     (if z_pktbuf_available self < n then Inr (self, False, None)
      else rbind (if res then rbind (mem_read h (z_pktbuf_current self) n) (\<lambda>bs. Inr (Some bs))
                  else Inr None)
             (\<lambda>v. Inr (self\<lparr>pb_pos := addz (pb_pos self) n\<rparr>, True, v)))"

definition z_pktbuf_get_u16s where "z_pktbuf_get_u16s host = get_uints host 1 2"
definition z_pktbuf_get_u32s where "z_pktbuf_get_u32s host = get_uints host 2 4"
definition z_pktbuf_get_u64s where "z_pktbuf_get_u64s host = get_uints host 3 8"

definition z_pktbuf_put_u8s :: "heap \<Rightarrow> zpktbuf \<Rightarrow> nat \<Rightarrow> bytes option \<Rightarrow>
    (pkt_state \<times> bool) result" where
  "z_pktbuf_put_u8s h self n res =
     rbind (z_pktbuf_set_available h self n) (\<lambda>((h', s), _).
     rbind (case res of None \<Rightarrow> Inr h'
            | Some src \<Rightarrow>
                if length src < n then Inl Bad_access
                else mem_write h' (z_pktbuf_current s) (take n src)) (\<lambda>h''.
       Inr ((h'', s\<lparr>pb_pos := addz (pb_pos s) n\<rparr>), True)))"

definition z_pktbuf_put_u16s where "z_pktbuf_put_u16s host = put_uints host 1 2"
definition z_pktbuf_put_u32s where "z_pktbuf_put_u32s host = put_uints host 2 4"
definition z_pktbuf_put_u64s where "z_pktbuf_put_u64s host = put_uints host 3 8"

subsection \<open>Well-formed buffers\<close>

text \<open>
  \<open>pkt_mem_ok\<close>: the memory behind the buffer is live and, unless borrowed, starts at its
  block's beginning, so that it may be freed; \<open>pkt_ok\<close> adds \<open>pos \<le> length \<le> allocated\<close>.
\<close>

definition heap_ok :: "heap \<Rightarrow> bool" where
  "heap_ok h \<longleftrightarrow> (\<forall>b \<ge> next_block h. blocks h b = None)"

definition pkt_buf :: "heap \<Rightarrow> zpktbuf \<Rightarrow> bytes" where
  "pkt_buf h p = (case region h (pb_data p) (pb_allocated p) of Some bs \<Rightarrow> bs | None \<Rightarrow> [])"

definition pkt_mem_ok :: "heap \<Rightarrow> zpktbuf \<Rightarrow> bool" where
  "pkt_mem_ok h p \<longleftrightarrow> heap_ok h \<and> pb_allocated p < size_limit
     \<and> region h (pb_data p) (pb_allocated p) \<noteq> None
     \<and> (\<not> pb_borrowed p \<longrightarrow> (case pb_data p of Null \<Rightarrow> True | Ptr b i \<Rightarrow> i = 0))"

definition pkt_ok :: "heap \<Rightarrow> zpktbuf \<Rightarrow> bool" where
  "pkt_ok h p \<longleftrightarrow> pkt_mem_ok h p \<and> pb_pos p \<le> pb_length p \<and> pb_length p \<le> pb_allocated p"

text \<open>Memory of other owners is left alone.\<close>

fun ptr_block :: "ptr \<Rightarrow> nat option" where
  "ptr_block Null = None"
| "ptr_block (Ptr b i) = Some b"

definition pkt_frame :: "zpktbuf \<Rightarrow> heap \<Rightarrow> heap \<Rightarrow> bool" where
  "pkt_frame p h h' \<longleftrightarrow> next_block h \<le> next_block h'
     \<and> (\<forall>b < next_block h. ptr_block (pb_data p) \<noteq> Some b \<longrightarrow> blocks h' b = blocks h b)"

lemma pkt_frame_refl [simp]: "pkt_frame p h h"
  by (simp add: pkt_frame_def)

lemma pkt_mem_okD:
  assumes "pkt_mem_ok h p"
  shows "region h (pb_data p) (pb_allocated p) = Some (pkt_buf h p)"
    and "length (pkt_buf h p) = pb_allocated p"
  using assms by (auto simp: pkt_mem_ok_def pkt_buf_def region_length)

text \<open>Only the memory fields matter to \<open>pkt_mem_ok\<close> and \<open>pkt_buf\<close>.\<close>

lemma pkt_mem_ok_cong:
  "pb_data q = pb_data p \<Longrightarrow> pb_allocated q = pb_allocated p \<Longrightarrow> pb_flags q = pb_flags p \<Longrightarrow>
   pkt_mem_ok h q = pkt_mem_ok h p"
  by (simp add: pkt_mem_ok_def pb_borrowed_def)

lemma pkt_buf_cong:
  "pb_data q = pb_data p \<Longrightarrow> pb_allocated q = pb_allocated p \<Longrightarrow> pkt_buf h q = pkt_buf h p"
  by (simp add: pkt_buf_def)

lemma pkt_position_simps [simp]:
  "pkt_buf h (p\<lparr>pb_length := n\<rparr>) = pkt_buf h p" "pkt_buf h (p\<lparr>pb_pos := n\<rparr>) = pkt_buf h p"
  "pkt_mem_ok h (p\<lparr>pb_length := n\<rparr>) = pkt_mem_ok h p"
  "pkt_mem_ok h (p\<lparr>pb_pos := n\<rparr>) = pkt_mem_ok h p"
  by (simp_all add: pkt_buf_def pkt_mem_ok_def pb_borrowed_def)

lemma g_realloc_grows:
  assumes "pkt_mem_ok h p" "\<not> pb_borrowed p" "pb_allocated p < sz" "sz < size_limit"
  obtains h' q where "g_realloc h (pb_data p) sz = Inr (h', q)"
    and "pkt_mem_ok h' (p\<lparr>pb_data := q, pb_allocated := sz\<rparr>)"
    and "take (pb_allocated p) (pkt_buf h' (p\<lparr>pb_data := q, pb_allocated := sz\<rparr>)) = pkt_buf h p"
    and "pkt_frame p h h'" and "\<exists>b \<ge> next_block h. ptr_block q = Some b"
proof (cases "pb_data p")
  case Null
  then have a0: "pb_allocated p = 0" and buf: "pkt_buf h p = []"
    using assms(1) by (auto simp: pkt_mem_ok_def pkt_buf_def split: if_splits)
  show thesis
  proof (rule that)
    show "g_realloc h (pb_data p) sz = Inr (fst (g_malloc h sz), snd (g_malloc h sz))"
      using Null by simp
  qed (use Null a0 buf assms in
        \<open>auto simp: g_malloc_def pkt_mem_ok_def heap_ok_def pkt_frame_def pb_borrowed_def\<close>)
next
  case (Ptr b i)
  then have i0: "i = 0" using assms by (auto simp: pkt_mem_ok_def)
  with Ptr assms(1) obtain xs where xs: "blocks h b = Some xs" "pb_allocated p \<le> length xs"
    "pkt_buf h p = take (pb_allocated p) xs"
    by (auto simp: pkt_mem_ok_def pkt_buf_def chunk_def split: option.splits if_splits)
  have b: "b < next_block h"
    using xs(1) assms(1) unfolding pkt_mem_ok_def heap_ok_def by (metis not_less option.distinct(1))
  let ?h = "h\<lparr>next_block := Suc (next_block h), blocks := (blocks h)(b := None,
              next_block h \<mapsto> take sz xs @ fresh_bytes h (length xs) sz)\<rparr>"
  show thesis
  proof (rule that)
    show "g_realloc h (pb_data p) sz = Inr (?h, Ptr (next_block h) 0)"
      using Ptr i0 xs(1) assms by simp
    show "pkt_mem_ok ?h (p\<lparr>pb_data := Ptr (next_block h) 0, pb_allocated := sz\<rparr>)"
      using assms b by (auto simp: pkt_mem_ok_def heap_ok_def pb_borrowed_def)
    show "take (pb_allocated p)
        (pkt_buf ?h (p\<lparr>pb_data := Ptr (next_block h) 0, pb_allocated := sz\<rparr>)) = pkt_buf h p"
      using assms(3) xs(2) unfolding xs(3) by (simp add: pkt_buf_def chunk_def min_def)
    show "pkt_frame p h ?h" using Ptr b by (auto simp: pkt_frame_def)
    show "\<exists>c \<ge> next_block h. ptr_block (Ptr (next_block h) 0) = Some c" by auto
  qed
qed

text \<open>
  What every operation keeps: live memory, other blocks, the flags and the reference count;
  the data pointer stays in its block or moves to a fresh one.
\<close>

definition evolves :: "heap \<Rightarrow> zpktbuf \<Rightarrow> heap \<Rightarrow> zpktbuf \<Rightarrow> bool" where
  "evolves h p h' p' \<longleftrightarrow> pkt_mem_ok h' p' \<and> pkt_frame p h h'
     \<and> (ptr_block (pb_data p') = ptr_block (pb_data p)
        \<or> (\<exists>b \<ge> next_block h. ptr_block (pb_data p') = Some b))
     \<and> pb_flags p' = pb_flags p \<and> pb_ref_cnt p' = pb_ref_cnt p"

lemma evolves_refl: "pkt_mem_ok h p \<Longrightarrow> evolves h p h p"
  by (simp add: evolves_def)

lemma evolves_trans: "evolves h p h1 p1 \<Longrightarrow> evolves h1 p1 h2 p2 \<Longrightarrow> evolves h p h2 p2"
  unfolding evolves_def pkt_frame_def by (auto dest: order_trans)

lemma evolves_fields:
  "evolves h p h' p' \<Longrightarrow> pb_data q = pb_data p' \<Longrightarrow> pb_allocated q = pb_allocated p' \<Longrightarrow>
   pb_flags q = pb_flags p' \<Longrightarrow> pb_ref_cnt q = pb_ref_cnt p' \<Longrightarrow> evolves h p h' q"
  by (simp add: evolves_def pkt_mem_ok_cong[of q p'])

lemma resize_spec:
  assumes "pkt_mem_ok h p" "pb_allocated p < sz \<Longrightarrow> \<not> pb_borrowed p" "sz < size_limit"
  obtains h' p' where "z_pktbuf_resize h p sz = Inr (h', p')" "evolves h p h' p'"
    "pb_allocated p' = max (pb_allocated p) sz"
    "pb_length p' = min (pb_length p) sz" "pb_pos p' = min (pb_pos p) sz"
    "take (pb_allocated p) (pkt_buf h' p') = pkt_buf h p"
proof (cases "pb_allocated p < sz")
  case True
  have nb: "\<not> pb_borrowed p" using True assms(2) by simp
  obtain h' q where r: "g_realloc h (pb_data p) sz = Inr (h', q)"
    "pkt_mem_ok h' (p\<lparr>pb_data := q, pb_allocated := sz\<rparr>)"
    "take (pb_allocated p) (pkt_buf h' (p\<lparr>pb_data := q, pb_allocated := sz\<rparr>)) = pkt_buf h p"
    "pkt_frame p h h'" "\<exists>b \<ge> next_block h. ptr_block q = Some b"
    by (rule g_realloc_grows[OF assms(1) nb True assms(3)])
  let ?q = "p\<lparr>pb_data := q, pb_allocated := sz, pb_length := min (pb_length p) sz,
              pb_pos := min (pb_pos p) sz\<rparr>"
  show thesis
  proof (rule that[of h' ?q])
    show "z_pktbuf_resize h p sz = Inr (h', ?q)"
      using r(1) True nb by (simp add: z_pktbuf_resize_def Let_def min_def)
    show "evolves h p h' ?q"
      using r(2,4,5)
      by (simp add: evolves_def pkt_mem_ok_cong[of ?q "p\<lparr>pb_data := q, pb_allocated := sz\<rparr>"])
    show "take (pb_allocated p) (pkt_buf h' ?q) = pkt_buf h p"
      using r(3) by (simp add: pkt_buf_cong[of ?q "p\<lparr>pb_data := q, pb_allocated := sz\<rparr>"])
  qed (use True in auto)
next
  case False
  let ?q = "p\<lparr>pb_length := min (pb_length p) sz, pb_pos := min (pb_pos p) sz\<rparr>"
  show thesis
  proof (rule that[of h ?q])
    show "z_pktbuf_resize h p sz = Inr (h, ?q)"
      using False by (simp add: z_pktbuf_resize_def Let_def min_def)
    show "evolves h p h ?q" using evolves_refl[OF assms(1)] by (rule evolves_fields) auto
    show "take (pb_allocated p) (pkt_buf h ?q) = pkt_buf h p"
      using pkt_mem_okD(2)[OF assms(1)] by (simp add: pkt_buf_cong[of ?q p])
  qed (use False in auto)
qed

lemma resize_refused:
  assumes "pb_borrowed p" "pb_allocated p < sz"
  shows "z_pktbuf_resize h p sz = Inl Assert_failed"
  using assms by (simp add: z_pktbuf_resize_def)

lemma write_spec:
  assumes "pkt_mem_ok h p" "i + length d \<le> pb_allocated p"
  obtains h' where "mem_write h (ptr_add (pb_data p) i) d = Inr h'" "evolves h p h' p"
    "pkt_buf h' p = overwrite i d (pkt_buf h p)"
proof -
  obtain h' where w: "mem_write h (ptr_add (pb_data p) i) d = Inr h'"
    "region h' (pb_data p) (pb_allocated p) = Some (overwrite i d (pkt_buf h p))"
    "next_block h' = next_block h"
    "\<And>b. (case pb_data p of Null \<Rightarrow> True | Ptr b' _ \<Rightarrow> b \<noteq> b') \<Longrightarrow> blocks h' b = blocks h b"
    "\<And>b. map_option length (blocks h' b) = map_option length (blocks h b)"
    by (rule mem_write_region[OF pkt_mem_okD(1)[OF assms(1)] assms(2)]) blast
  have "heap_ok h'" using assms(1) w(3,5) unfolding pkt_mem_ok_def heap_ok_def
    by (metis map_option_is_None)
  then have "pkt_mem_ok h' p" using assms(1) w(2) by (simp add: pkt_mem_ok_def)
  moreover have "pkt_frame p h h'"
    using w(3,4) by (cases "pb_data p") (auto simp: pkt_frame_def)
  ultimately show thesis using w(1,2) by (intro that) (auto simp: evolves_def pkt_buf_def)
qed
subsection \<open>The abstract packet\<close>

text \<open>A packet is its contents and a position; memory, capacity and ownership are hidden.\<close>

type_synonym packet = "bytes \<times> nat"

definition pkt_abs :: "heap \<Rightarrow> zpktbuf \<Rightarrow> packet" where
  "pkt_abs h p = (take (pb_length p) (pkt_buf h p), pb_pos p)"

definition has_room :: "zpktbuf \<Rightarrow> nat \<Rightarrow> bool" where
  "has_room p n \<longleftrightarrow> n < size_limit \<and> (pb_allocated p < n \<longrightarrow> \<not> pb_borrowed p)"

lemma pkt_okD:
  assumes "pkt_ok h p"
  shows "pkt_mem_ok h p" "pb_pos p \<le> pb_length p" "pb_length p \<le> pb_allocated p"
    "pb_allocated p < size_limit" "length (pkt_buf h p) = pb_allocated p"
    "length (fst (pkt_abs h p)) = pb_length p"
  using assms pkt_mem_okD(2)[of h p] by (auto simp: pkt_ok_def pkt_mem_ok_def pkt_abs_def)

lemma pkt_okI:
  "evolves h0 p0 h p \<Longrightarrow> pb_pos p \<le> pb_length p \<Longrightarrow> pb_length p \<le> pb_allocated p \<Longrightarrow> pkt_ok h p"
  by (simp add: pkt_ok_def evolves_def)

lemma take_takeI: "take a xs = ys \<Longrightarrow> n \<le> a \<Longrightarrow> take n xs = take n ys"
  by (metis min.absorb1 take_take)

text \<open>Growing keeps the contents.\<close>

lemma reserve_spec:
  assumes "pkt_ok h p" "has_room p sz" "pb_length p \<le> sz"
  obtains h' p' where "z_pktbuf_resize h p sz = Inr (h', p')" "evolves h p h' p'"
    "pkt_ok h' p'" "pkt_abs h' p' = pkt_abs h p"
    "pb_length p' = pb_length p" "pb_pos p' = pb_pos p" "sz \<le> pb_allocated p'"
proof -
  note ok = pkt_okD[OF assms(1)]
  obtain h' p' where r: "z_pktbuf_resize h p sz = Inr (h', p')" "evolves h p h' p'"
    "pb_allocated p' = max (pb_allocated p) sz"
    "pb_length p' = min (pb_length p) sz" "pb_pos p' = min (pb_pos p) sz"
    "take (pb_allocated p) (pkt_buf h' p') = pkt_buf h p"
    by (rule resize_spec[OF ok(1), of sz]) (use assms(2) in \<open>auto simp: has_room_def\<close>)
  have "take (pb_length p) (pkt_buf h' p') = take (pb_length p) (pkt_buf h p)"
    using r(6) ok(3) by (rule take_takeI)
  then show thesis using r ok assms(3)
    by (intro that[of h' p']) (auto simp: pkt_abs_def min_absorb1 intro: pkt_okI)
qed

lemma copy_spec:
  assumes "pkt_ok h p" "has_room p (length d)"
  obtains h' p' where "z_pktbuf_copy h p d = Inr ((h', p'), True)" "evolves h p h' p'"
    "pkt_ok h' p'" "pkt_abs h' p' = (d, min (pb_pos p) (length d))"
proof -
  obtain h1 p1 where r: "z_pktbuf_resize h p (length d) = Inr (h1, p1)" "evolves h p h1 p1"
    "pb_allocated p1 = max (pb_allocated p) (length d)" "pb_pos p1 = min (pb_pos p) (length d)"
    by (rule resize_spec[OF pkt_okD(1)[OF assms(1)], of "length d"])
       (use assms(2) in \<open>auto simp: has_room_def\<close>)
  let ?q = "p1\<lparr>pb_length := length d\<rparr>"
  have e: "evolves h p h1 ?q" using r(2) by (rule evolves_fields) auto
  have m: "pkt_mem_ok h1 ?q" using e by (simp add: evolves_def)
  obtain h2 where w: "mem_write h1 (ptr_add (pb_data ?q) 0) d = Inr h2" "evolves h1 ?q h2 ?q"
    "pkt_buf h2 ?q = overwrite 0 d (pkt_buf h1 ?q)"
    by (rule write_spec[OF m, of 0 d]) (use r(3) in auto)
  show thesis
  proof (rule that[of h2 ?q])
    show "z_pktbuf_copy h p d = Inr ((h2, ?q), True)"
      using r(1,4) w(1) by (simp add: z_pktbuf_copy_def Let_def)
    show "evolves h p h2 ?q" using e w(2) by (rule evolves_trans)
    then show "pkt_ok h2 ?q" by (rule pkt_okI) (use r(3,4) in auto)
    show "pkt_abs h2 ?q = (d, min (pb_pos p) (length d))"
      using r(4) w(3) by (simp add: pkt_abs_def overwrite_def)
  qed
qed

lemma take_append_overwrite:
  assumes "k \<le> length xs" "k + length d \<le> length xs"
  shows "take (k + length d) (overwrite k d xs) = take k xs @ d"
  using assms by (simp add: overwrite_def)

lemma append_spec:
  assumes "pkt_ok h p" "has_room p (pb_length p + length d)"
  obtains h' p' where "z_pktbuf_append h p d = Inr ((h', p'), True)" "evolves h p h' p'"
    "pkt_ok h' p'" "pkt_abs h' p' = (fst (pkt_abs h p) @ d, pb_pos p)"
proof -
  have nz: "addz (pb_length p) (length d) = pb_length p + length d"
    using assms(2) by (intro sizes) (auto simp: has_room_def)
  obtain h1 p1 where r: "z_pktbuf_resize h p (pb_length p + length d) = Inr (h1, p1)"
    "evolves h p h1 p1" "pkt_ok h1 p1" "pkt_abs h1 p1 = pkt_abs h p"
    "pb_length p1 = pb_length p" "pb_pos p1 = pb_pos p" "pb_length p + length d \<le> pb_allocated p1"
    by (rule reserve_spec[OF assms]) auto
  note ok = pkt_okD[OF r(3)]
  obtain h2 where w: "mem_write h1 (ptr_add (pb_data p1) (pb_length p1)) d = Inr h2"
    "evolves h1 p1 h2 p1" "pkt_buf h2 p1 = overwrite (pb_length p1) d (pkt_buf h1 p1)"
    by (rule write_spec[OF ok(1), of "pb_length p1" d]) (use r(5,7) in auto)
  let ?q = "p1\<lparr>pb_length := pb_length p1 + length d\<rparr>"
  show thesis
  proof (rule that[of h2 ?q])
    show "z_pktbuf_append h p d = Inr ((h2, ?q), True)"
      using r(1,5) w(1) nz by (simp add: z_pktbuf_append_def)
    show e: "evolves h p h2 ?q"
      using evolves_trans[OF r(2) w(2)] by (rule evolves_fields) auto
    then show "pkt_ok h2 ?q" by (rule pkt_okI) (use r ok in auto)
    show "pkt_abs h2 ?q = (fst (pkt_abs h p) @ d, pb_pos p)"
      using r(4-7) ok w(3)
      by (simp add: pkt_abs_def take_append_overwrite)
  qed
qed

lemma insert_spec:
  assumes "pkt_ok h p" "has_room p (pb_length p + length d)" "k \<le> pb_length p"
  obtains h' p' where "z_pktbuf_insert h p k d = Inr ((h', p'), True)" "evolves h p h' p'"
    "pkt_ok h' p'"
    "pkt_abs h' p' = (take k (fst (pkt_abs h p)) @ d @ drop k (fst (pkt_abs h p)), pb_pos p)"
proof -
  have nz: "addz (pb_length p) (length d) = pb_length p + length d"
    using assms(2) by (intro sizes) (auto simp: has_room_def)
  obtain h1 p1 where r: "z_pktbuf_resize h p (pb_length p + length d) = Inr (h1, p1)"
    "evolves h p h1 p1" "pkt_ok h1 p1" "pkt_abs h1 p1 = pkt_abs h p"
    "pb_length p1 = pb_length p" "pb_pos p1 = pb_pos p" "pb_length p + length d \<le> pb_allocated p1"
    by (rule reserve_spec[OF assms(1,2)]) auto
  note ok = pkt_okD[OF r(3)]
  define xs where "xs = pkt_buf h1 p1"
  define c where "c = fst (pkt_abs h p)"
  have len: "length xs = pb_allocated p1" and c: "c = take (pb_length p) xs"
    using ok(5) r(4,5) by (auto simp: xs_def c_def pkt_abs_def)
  have sz: "subz (pb_length p1) k = pb_length p - k"
    using assms(3) ok r(5) by (simp add: subz_le)
  have rd: "mem_read h1 (ptr_add (pb_data p1) k) (pb_length p - k) = Inr (drop k c)"
    using mem_read_region[OF pkt_mem_okD(1)[OF ok(1)], of k "pb_length p - k"] assms(3) r(7)
    by (simp add: c chunk_alt xs_def)
  obtain h2 where w: "mem_write h1 (ptr_add (pb_data p1) (k + length d)) (drop k c) = Inr h2"
    "evolves h1 p1 h2 p1" "pkt_buf h2 p1 = overwrite (k + length d) (drop k c) xs"
    by (rule write_spec[OF ok(1), of "k + length d" "drop k c"])
       (use assms(3) r(7) len c in \<open>auto simp: xs_def\<close>)
  have m2: "pkt_mem_ok h2 p1" using w(2) by (simp add: evolves_def)
  obtain h3 where w3: "mem_write h2 (ptr_add (pb_data p1) k) d = Inr h3" "evolves h2 p1 h3 p1"
    "pkt_buf h3 p1 = overwrite k d (overwrite (k + length d) (drop k c) xs)"
    by (rule write_spec[OF m2, of k d]) (use assms(3) r(7) w(3) in auto)
  let ?q = "p1\<lparr>pb_length := pb_length p1 + length d\<rparr>"
  show thesis
  proof (rule that[of h3 ?q])
    show "z_pktbuf_insert h p k d = Inr ((h3, ?q), True)"
      using r(1,5) nz rd w(1) w3(1) sz by (simp add: z_pktbuf_insert_def mem_move_def)
    show "evolves h p h3 ?q"
      using evolves_trans[OF evolves_trans[OF r(2) w(2)] w3(2)] by (rule evolves_fields) auto
    then show "pkt_ok h3 ?q" by (rule pkt_okI) (use r ok in auto)
    have "take k xs = take k c" using assms(3) by (simp add: c min_absorb1)
    then have "take (pb_length p + length d) (pkt_buf h3 p1) = take k c @ d @ drop k c"
      unfolding w3(3) overwrite_def using assms(3) r(7) len c by (simp add: min_absorb1)
    then show "pkt_abs h3 ?q = (take k (fst (pkt_abs h p)) @ d @ drop k (fst (pkt_abs h p)), pb_pos p)"
      using r(5,6) by (simp add: pkt_abs_def c_def)
  qed
qed

lemma set_available_spec:
  assumes "pkt_ok h p" "has_room p (pb_pos p + n)"
  obtains h' p' where "z_pktbuf_set_available h p n = Inr ((h', p'), True)" "evolves h p h' p'"
    "pkt_ok h' p'" "pb_pos p' = pb_pos p" "pb_length p' = max (pb_length p) (pb_pos p + n)"
    "take (pb_length p) (pkt_buf h' p') = fst (pkt_abs h p)"
proof (cases "pb_length p \<ge> pb_pos p + n")
  case True
  show thesis
  proof (rule that[of h p])
    show "z_pktbuf_set_available h p n = Inr ((h, p), True)"
      using True assms(2) by (simp add: z_pktbuf_set_available_def has_room_def addz_small)
  qed (use True assms(1) in \<open>auto simp: pkt_abs_def evolves_refl pkt_okD\<close>)
next
  case False
  let ?p = "p\<lparr>pb_length := pb_pos p + n\<rparr>"
  note ok = pkt_okD[OF assms(1)]
  have m: "pkt_mem_ok h ?p" using ok(1) by simp
  obtain h' p' where r: "z_pktbuf_resize h ?p (pb_pos p + n) = Inr (h', p')" "evolves h ?p h' p'"
    "pb_allocated p' = max (pb_allocated ?p) (pb_pos p + n)"
    "pb_length p' = min (pb_length ?p) (pb_pos p + n)" "pb_pos p' = min (pb_pos ?p) (pb_pos p + n)"
    "take (pb_allocated ?p) (pkt_buf h' p') = pkt_buf h ?p"
    by (rule resize_spec[OF m, of "pb_pos p + n"])
       (use assms(2) in \<open>auto simp: has_room_def pb_borrowed_def\<close>)
  show thesis
  proof (rule that[of h' p'])
    show "z_pktbuf_set_available h p n = Inr ((h', p'), True)"
      using False assms(2) r(1)
      by (simp add: z_pktbuf_set_available_def has_room_def addz_small Let_def)
    show "evolves h p h' p'" using r(2) by (simp add: evolves_def pkt_frame_def)
    then show "pkt_ok h' p'" by (rule pkt_okI) (use r in auto)
    show "take (pb_length p) (pkt_buf h' p') = fst (pkt_abs h p)"
      using take_takeI[OF r(6), of "pb_length p"] ok(3) by (simp add: pkt_abs_def)
  qed (use r False in auto)
qed

text \<open>Writing \<open>d\<close> at the position, as all the \<open>put\<close> functions do.\<close>

lemma put_at_pos:
  assumes "pkt_ok h p" "has_room p (pb_pos p + length d)"
  obtains h1 p1 h2 where "z_pktbuf_set_available h p (length d) = Inr ((h1, p1), True)"
    "mem_write h1 (z_pktbuf_current p1) d = Inr h2"
    "addz (pb_pos p1) (length d) = pb_pos p + length d"
    "evolves h p h2 (p1\<lparr>pb_pos := pb_pos p + length d\<rparr>)"
    "pkt_ok h2 (p1\<lparr>pb_pos := pb_pos p + length d\<rparr>)"
    "pkt_abs h2 (p1\<lparr>pb_pos := pb_pos p + length d\<rparr>)
     = (overwrite (pb_pos p) d (fst (pkt_abs h p)), pb_pos p + length d)"
proof -
  obtain h1 p1 where r: "z_pktbuf_set_available h p (length d) = Inr ((h1, p1), True)"
    "evolves h p h1 p1" "pkt_ok h1 p1" "pb_pos p1 = pb_pos p"
    "pb_length p1 = max (pb_length p) (pb_pos p + length d)"
    "take (pb_length p) (pkt_buf h1 p1) = fst (pkt_abs h p)"
    by (rule set_available_spec[OF assms])
  note ok = pkt_okD[OF r(3)]
  obtain h2 where w: "mem_write h1 (ptr_add (pb_data p1) (pb_pos p)) d = Inr h2"
    "evolves h1 p1 h2 p1" "pkt_buf h2 p1 = overwrite (pb_pos p) d (pkt_buf h1 p1)"
    by (rule write_spec[OF ok(1), of "pb_pos p" d]) (use r(4,5) ok in auto)
  let ?q = "p1\<lparr>pb_pos := pb_pos p + length d\<rparr>"
  show thesis
  proof (rule that)
    show "z_pktbuf_set_available h p (length d) = Inr ((h1, p1), True)" by (fact r(1))
    show "mem_write h1 (z_pktbuf_current p1) d = Inr h2"
      using w(1) r(4) by (simp add: z_pktbuf_current_def)
    show "addz (pb_pos p1) (length d) = pb_pos p + length d"
      using assms(2) r(4) by (simp add: has_room_def addz_small)
    show e: "evolves h p h2 ?q"
      using evolves_trans[OF r(2) w(2)] by (rule evolves_fields) auto
    show "pkt_ok h2 ?q" using e by (rule pkt_okI) (use r(5) ok in auto)
    have lp: "pb_pos p \<le> pb_length p" using assms(1) by (rule pkt_okD)
    have "take (pb_length p1) (overwrite (pb_pos p) d (pkt_buf h1 p1))
        = overwrite (pb_pos p) d (take (pb_length p) (pkt_buf h1 p1))"
      using r(5) ok lp by (auto simp: overwrite_def min_def max_def drop_take)
    then show "pkt_abs h2 ?q
        = (overwrite (pb_pos p) d (fst (pkt_abs h p)), pb_pos p + length d)"
      using r(6) by (simp add: pkt_abs_def w(3))
  qed
qed

text \<open>Reading \<open>n\<close> bytes at the position, as all the \<open>get\<close> functions do.\<close>

lemma available_eq: "pkt_ok h p \<Longrightarrow> z_pktbuf_available p = pb_length p - pb_pos p"
  using pkt_okD[of h p] by (simp add: z_pktbuf_available_def subz_le)

lemma get_at_pos:
  assumes "pkt_ok h p" "n \<le> pb_length p - pb_pos p"
  shows "mem_read h (z_pktbuf_current p) n = Inr (chunk (pb_pos p) n (fst (pkt_abs h p)))"
    and "addz (pb_pos p) n = pb_pos p + n"
    and "pkt_ok h (p\<lparr>pb_pos := pb_pos p + n\<rparr>)"
    and "pkt_abs h (p\<lparr>pb_pos := pb_pos p + n\<rparr>) = (fst (pkt_abs h p), pb_pos p + n)"
proof -
  note ok = pkt_okD[OF assms(1)]
  have le: "pb_pos p + n \<le> pb_length p" using assms(2) ok by simp
  have "mem_read h (z_pktbuf_current p) n = Inr (chunk (pb_pos p) n (pkt_buf h p))"
    using mem_read_region[OF pkt_mem_okD(1)[OF ok(1)], of "pb_pos p" n] le ok
    by (simp add: z_pktbuf_current_def)
  then show "mem_read h (z_pktbuf_current p) n = Inr (chunk (pb_pos p) n (fst (pkt_abs h p)))"
    using le by (simp add: pkt_abs_def chunk_alt min_absorb1)
qed (use assms pkt_okD[OF assms(1)] in \<open>auto simp: addz_small pkt_ok_def pkt_abs_def\<close>)

subsection \<open>Contracts of the number operations\<close>

lemma get_uint_spec:
  assumes "pkt_ok h p" "byte_order host" "byte_order e"
  shows "get_uint host n h p e res =
     (if pb_pos p + n \<le> pb_length p
      then Inr (p\<lparr>pb_pos := pb_pos p + n\<rparr>, True,
             if res then Some (dec_uint e (chunk (pb_pos p) n (fst (pkt_abs h p)))) else None)
      else Inr (p, False, None))"
proof (cases "n \<le> pb_length p - pb_pos p")
  case True
  note g = get_at_pos[OF assms(1) True]
  note ok = pkt_okD[OF assms(1)]
  have le: "pb_pos p + n \<le> pb_length p" using True ok by simp
  then have "length (chunk (pb_pos p) n (fst (pkt_abs h p))) = n" using ok by simp
  from loaded_value[OF assms(2,3) this] show ?thesis
    using True le g(1,2) by (simp add: get_uint_def available_eq[OF assms(1)])
next
  case False
  then show ?thesis using pkt_okD[OF assms(1)]
    by (simp add: get_uint_def available_eq[OF assms(1)])
qed

lemma put_uint_spec:
  assumes "pkt_ok h p" "has_room p (pb_pos p + n)" "byte_order host" "byte_order e"
  obtains h' p' where "put_uint host n h p e v = Inr ((h', p'), True)" "evolves h p h' p'"
    "pkt_ok h' p'"
    "pkt_abs h' p' = (overwrite (pb_pos p) (enc_uint e n v) (fst (pkt_abs h p)), pb_pos p + n)"
proof -
  have room: "has_room p (pb_pos p + length (enc_uint e n v))" using assms(2) by simp
  show thesis
    by (rule put_at_pos[OF assms(1) room])
       (rule that, auto simp: put_uint_def stored_value[OF assms(3,4)])
qed

lemma put_bytes_spec:
  assumes "pkt_ok h p" "has_room p (pb_pos p + length d)"
  obtains h' p' where "z_pktbuf_put_u8s h p (length d) (Some d) = Inr ((h', p'), True)"
    "evolves h p h' p'" "pkt_ok h' p'"
    "pkt_abs h' p' = (overwrite (pb_pos p) d (fst (pkt_abs h p)), pb_pos p + length d)"
  by (rule put_at_pos[OF assms]) (rule that, auto simp: z_pktbuf_put_u8s_def)

lemma put_boolean_spec:
  assumes "pkt_ok h p" "has_room p (pb_pos p + 1)"
  obtains h' p' where "z_pktbuf_put_boolean h p b = Inr ((h', p'), True)"
    "evolves h p h' p'" "pkt_ok h' p'"
    "pkt_abs h' p' = (overwrite (pb_pos p) [if b then 1 else 0] (fst (pkt_abs h p)), pb_pos p + 1)"
proof -
  have room: "has_room p (pb_pos p + length [if b then 1 else (0 :: byte)])" using assms(2) by simp
  show thesis
    by (rule put_at_pos[OF assms(1) room]) (rule that, auto simp: z_pktbuf_put_boolean_def)
qed

lemma get_bytes_spec:
  assumes "pkt_ok h p"
  shows "z_pktbuf_get_u8s h p n True =
     (if pb_pos p + n \<le> pb_length p
      then Inr (p\<lparr>pb_pos := pb_pos p + n\<rparr>, True, Some (chunk (pb_pos p) n (fst (pkt_abs h p))))
      else Inr (p, False, None))"
proof (cases "n \<le> pb_length p - pb_pos p")
  case True
  then have "pb_pos p + n \<le> pb_length p" using pkt_okD(2)[OF assms] by simp
  then show ?thesis using True get_at_pos(1,2)[OF assms True]
    by (simp add: z_pktbuf_get_u8s_def available_eq[OF assms])
next
  case False
  then show ?thesis using pkt_okD[OF assms]
    by (simp add: z_pktbuf_get_u8s_def available_eq[OF assms])
qed

text \<open>
  Seeking moves to the target, counted from the position, the start or the end, if it lies
  inside the packet; the unsigned and signed comparisons of the code agree on that as long as
  the length is a positive \<open>gssize\<close>.
\<close>

fun seek_target :: "seek_type \<Rightarrow> packet \<Rightarrow> int \<Rightarrow> int" where
  "seek_target G_SEEK_CUR (c, i) off = int i + off"
| "seek_target G_SEEK_SET (c, i) off = off"
| "seek_target G_SEEK_END (c, i) off = int (length c) + off"

lemma seek_spec:
  assumes "pkt_ok h p" "pb_length p < ssize_limit"
    "- int ssize_limit < off" "off < int ssize_limit"
  shows "z_pktbuf_seek p whence off =
     (let t = seek_target whence (pkt_abs h p) off
      in if 0 \<le> t \<and> t \<le> int (pb_length p) then (p\<lparr>pb_pos := nat t\<rparr>, True) else (p, False))"
proof (cases whence)
  case G_SEEK_CUR
  note ok = pkt_okD[OF assms(1)]
  have sz: "size_to_ssize (pb_pos p) = int (pb_pos p)"
    using ok assms(2) by (intro size_to_ssize_small) auto
  show ?thesis
  proof (cases "0 \<le> int (pb_pos p) + off")
    case True
    then have a: "addz (pb_pos p) (ssize_to_size off) = nat (int (pb_pos p) + off)"
      using ok assms by (intro addz_ssize) auto
    have w: "nat (int (pb_pos p) + off) \<le> pb_length p \<Longrightarrow>
        wrap_ssize (int (pb_pos p) + off) = int (pb_pos p) + off"
      using True assms(2) by (intro wrap_ssize_id) auto
    then show ?thesis using True G_SEEK_CUR
      by (auto simp: z_pktbuf_seek_def pkt_abs_def Let_def a sz)
  next
    case False
    then have "int (addz (pb_pos p) (ssize_to_size off)) = int (pb_pos p) + off + int size_limit"
      using assms by (intro addz_ssize_neg) auto
    then have "addz (pb_pos p) (ssize_to_size off) > pb_length p" using assms by simp
    then show ?thesis using False G_SEEK_CUR by (simp add: z_pktbuf_seek_def pkt_abs_def Let_def)
  qed
next
  case G_SEEK_SET
  then show ?thesis using assms pkt_okD[OF assms(1)]
    by (auto simp: z_pktbuf_seek_def pkt_abs_def Let_def sizes)
next
  case G_SEEK_END
  note ok = pkt_okD[OF assms(1)]
  have w: "wrap_ssize (- off) = - off" using assms by (intro wrap_ssize_id) auto
  have a: "0 \<le> int (pb_length p) + off \<Longrightarrow> off \<le> 0 \<Longrightarrow>
      addz (pb_length p) (ssize_to_size off) = nat (int (pb_length p) + off)"
    using assms by (intro addz_ssize) auto
  have t: "seek_target G_SEEK_END (pkt_abs h p) off = int (pb_length p) + off"
    using ok(6) by (cases "pkt_abs h p") simp
  show ?thesis using G_SEEK_END assms a
    by (auto simp: z_pktbuf_seek_def t w Let_def size_to_ssize_small)
qed

subsection \<open>Sequences of operations\<close>

text \<open>
  The operations of a buffer as data, what each reports, their execution on the memory model and
  their meaning on the abstract packet. Integers are read and written in the byte order \<open>e\<close> named
  by the caller; the abstract meaning does not mention the machine's byte order.
\<close>

datatype pkt_op =
    Op_copy bytes
  | Op_append bytes
  | Op_insert nat bytes
  | Op_seek seek_type int
  | Op_put_u8 "8 word" | Op_put_u16 int "16 word" | Op_put_u32 int "32 word" | Op_put_u64 int "64 word"
  | Op_put_boolean bool | Op_put_u8s bytes
  | Op_get_u8 | Op_get_u16 int | Op_get_u32 int | Op_get_u64 int
  | Op_get_boolean | Op_get_boolean16 | Op_get_u8s nat

datatype pkt_out = Status bool | Number bool "nat option" | Flag bool "bool option" | Bytes bool "bytes option"

definition on_buf :: "(pkt_state \<times> bool) result \<Rightarrow> (pkt_state \<times> pkt_out) result" where
  "on_buf m = rbind m (\<lambda>(st, ok). Inr (st, Status ok))"

definition on_pos :: "heap \<Rightarrow> (zpktbuf \<times> bool \<times> 'a option) result \<Rightarrow> (bool \<Rightarrow> 'a option \<Rightarrow> pkt_out) \<Rightarrow>
    (pkt_state \<times> pkt_out) result" where
  "on_pos h m f = rbind m (\<lambda>(p, ok, v). Inr ((h, p), f ok v))"

fun pkt_exec :: "int \<Rightarrow> pkt_op \<Rightarrow> heap \<Rightarrow> zpktbuf \<Rightarrow> (pkt_state \<times> pkt_out) result" where
  "pkt_exec host (Op_copy d) h p = on_buf (z_pktbuf_copy h p d)"
| "pkt_exec host (Op_append d) h p = on_buf (z_pktbuf_append h p d)"
| "pkt_exec host (Op_insert k d) h p = on_buf (z_pktbuf_insert h p k d)"
| "pkt_exec host (Op_seek w off) h p =
     (let (p', ok) = z_pktbuf_seek p w off in Inr ((h, p'), Status ok))"
| "pkt_exec host (Op_put_u8 v) h p = on_buf (z_pktbuf_put_u8 host h p v)"
| "pkt_exec host (Op_put_u16 e v) h p = on_buf (z_pktbuf_put_u16 host h p e v)"
| "pkt_exec host (Op_put_u32 e v) h p = on_buf (z_pktbuf_put_u32 host h p e v)"
| "pkt_exec host (Op_put_u64 e v) h p = on_buf (z_pktbuf_put_u64 host h p e v)"
| "pkt_exec host (Op_put_boolean b) h p = on_buf (z_pktbuf_put_boolean h p b)"
| "pkt_exec host (Op_put_u8s d) h p = on_buf (z_pktbuf_put_u8s h p (length d) (Some d))"
| "pkt_exec host Op_get_u8 h p =
     on_pos h (z_pktbuf_get_u8 host h p True) (\<lambda>ok v. Number ok (map_option unat v))"
| "pkt_exec host (Op_get_u16 e) h p =
     on_pos h (z_pktbuf_get_u16 host h p e True) (\<lambda>ok v. Number ok (map_option unat v))"
| "pkt_exec host (Op_get_u32 e) h p =
     on_pos h (z_pktbuf_get_u32 host h p e True) (\<lambda>ok v. Number ok (map_option unat v))"
| "pkt_exec host (Op_get_u64 e) h p =
     on_pos h (z_pktbuf_get_u64 host h p e True) (\<lambda>ok v. Number ok (map_option unat v))"
| "pkt_exec host Op_get_boolean h p = on_pos h (z_pktbuf_get_boolean h p True) Flag"
| "pkt_exec host Op_get_boolean16 h p = on_pos h (z_pktbuf_get_boolean16 host h p True) Flag"
| "pkt_exec host (Op_get_u8s n) h p = on_pos h (z_pktbuf_get_u8s h p n True) Bytes"

fun pkt_run :: "int \<Rightarrow> pkt_op list \<Rightarrow> heap \<Rightarrow> zpktbuf \<Rightarrow> (pkt_state \<times> pkt_out list) result" where
  "pkt_run host [] h p = Inr ((h, p), [])"
| "pkt_run host (op # ops) h p =
     rbind (pkt_exec host op h p) (\<lambda>((h', p'), out).
     rbind (pkt_run host ops h' p') (\<lambda>(st, outs). Inr (st, out # outs)))"

text \<open>The meaning on packets.\<close>

definition spec_put :: "bytes \<Rightarrow> packet \<Rightarrow> packet" where
  "spec_put d k = (overwrite (snd k) d (fst k), snd k + length d)"

definition spec_get :: "nat \<Rightarrow> packet \<Rightarrow> (bytes \<Rightarrow> 'a) \<Rightarrow> (bool \<Rightarrow> 'a option \<Rightarrow> pkt_out) \<Rightarrow> packet \<times> pkt_out" where
  "spec_get n k f out =
     (if snd k + n \<le> length (fst k)
      then ((fst k, snd k + n), out True (Some (f (chunk (snd k) n (fst k)))))
      else (k, out False None))"

fun spec_exec :: "pkt_op \<Rightarrow> packet \<Rightarrow> packet \<times> pkt_out" where
  "spec_exec (Op_copy d) k = ((d, min (snd k) (length d)), Status True)"
| "spec_exec (Op_append d) k = ((fst k @ d, snd k), Status True)"
| "spec_exec (Op_insert j d) k = ((take j (fst k) @ d @ drop j (fst k), snd k), Status True)"
| "spec_exec (Op_seek w off) k =
     (let t = seek_target w k off
      in if 0 \<le> t \<and> t \<le> int (length (fst k)) then ((fst k, nat t), Status True) else (k, Status False))"
| "spec_exec (Op_put_u8 v) k = (spec_put [v] k, Status True)"
| "spec_exec (Op_put_u16 e v) k = (spec_put (enc_uint e 2 (unat v)) k, Status True)"
| "spec_exec (Op_put_u32 e v) k = (spec_put (enc_uint e 4 (unat v)) k, Status True)"
| "spec_exec (Op_put_u64 e v) k = (spec_put (enc_uint e 8 (unat v)) k, Status True)"
| "spec_exec (Op_put_boolean b) k = (spec_put [if b then 1 else 0] k, Status True)"
| "spec_exec (Op_put_u8s d) k = (spec_put d k, Status True)"
| "spec_exec Op_get_u8 k = spec_get 1 k (\<lambda>bs. unat (hd bs)) Number"
| "spec_exec (Op_get_u16 e) k = spec_get 2 k (dec_uint e) Number"
| "spec_exec (Op_get_u32 e) k = spec_get 4 k (dec_uint e) Number"
| "spec_exec (Op_get_u64 e) k = spec_get 8 k (dec_uint e) Number"
| "spec_exec Op_get_boolean k = spec_get 1 k (\<lambda>bs. bs \<noteq> [0]) Flag"
| "spec_exec Op_get_boolean16 k = spec_get 2 k (\<lambda>bs. bs \<noteq> [0, 0]) Flag"
| "spec_exec (Op_get_u8s n) k = spec_get n k (\<lambda>bs. bs) Bytes"

fun spec_run :: "pkt_op list \<Rightarrow> packet \<Rightarrow> packet \<times> pkt_out list" where
  "spec_run [] k = (k, [])"
| "spec_run (op # ops) k =
     (let (k', out) = spec_exec op k; (k'', outs) = spec_run ops k' in (k'', out # outs))"

text \<open>
  What the caller has to respect: byte orders are one of the two constants, an insertion point
  lies in the packet, offsets are representable and the packet stays below \<open>2 ^ 63\<close> bytes.
\<close>

fun op_legal :: "pkt_op \<Rightarrow> packet \<Rightarrow> bool" where
  "op_legal (Op_insert j d) k = (j \<le> length (fst k))"
| "op_legal (Op_seek w off) k = (- int ssize_limit < off \<and> off < int ssize_limit)"
| "op_legal (Op_put_u16 e v) k = byte_order e"
| "op_legal (Op_put_u32 e v) k = byte_order e"
| "op_legal (Op_put_u64 e v) k = byte_order e"
| "op_legal (Op_get_u16 e) k = byte_order e"
| "op_legal (Op_get_u32 e) k = byte_order e"
| "op_legal (Op_get_u64 e) k = byte_order e"
| "op_legal _ k = True"

fun ops_legal :: "pkt_op list \<Rightarrow> packet \<Rightarrow> bool" where
  "ops_legal [] k = True"
| "ops_legal (op # ops) k =
     (op_legal op k \<and> length (fst (fst (spec_exec op k))) < ssize_limit
      \<and> ops_legal ops (fst (spec_exec op k)))"

lemma has_room_owned: "\<not> pb_borrowed p \<Longrightarrow> n < size_limit \<Longrightarrow> has_room p n"
  by (simp add: has_room_def)

lemma dec_uint_1: "dec_uint e bs = unat (hd bs)" if "length bs = 1"
  using that by (cases bs) (auto simp: dec_uint_def)

lemma le_val_eq_0: "le_val bs = 0 \<longleftrightarrow> set bs \<subseteq> {0}"
  by (induction bs) (auto simp: unat_eq_0)

lemma dec_uint_pos: "0 < dec_uint e bs \<longleftrightarrow> \<not> set bs \<subseteq> {0}"
  by (simp add: dec_uint_def le_val_eq_0 flip: neq0_conv)

lemma unat_of_nat_dec:
  "length bs = n \<Longrightarrow> 256 ^ n = (2 :: nat) ^ LENGTH('a) \<Longrightarrow>
   unat (of_nat (dec_uint e bs) :: 'a::len word) = dec_uint e bs"
  using dec_uint_less[of e bs] by (simp add: unat_of_nat)

text \<open>
  \<open>simulates\<close>: executed on the memory, the operation returns, keeps the buffer well formed and
  does to its abstraction what the meaning says. One lemma per operation follows.
\<close>

definition simulates :: "int \<Rightarrow> pkt_op \<Rightarrow> heap \<Rightarrow> zpktbuf \<Rightarrow> bool" where
  "simulates host op h p \<longleftrightarrow>
     (\<exists>h' p'. pkt_exec host op h p = Inr ((h', p'), snd (spec_exec op (pkt_abs h p)))
       \<and> pkt_ok h' p' \<and> pkt_abs h' p' = fst (spec_exec op (pkt_abs h p)) \<and> pb_flags p' = pb_flags p)"

lemma simulates_buf:
  assumes "pkt_exec host op h p = on_buf m" "spec_exec op (pkt_abs h p) = (k, Status True)"
    and "\<exists>h' p'. m = Inr ((h', p'), True) \<and> evolves h p h' p' \<and> pkt_ok h' p' \<and> pkt_abs h' p' = k"
  shows "simulates host op h p"
  using assms by (auto simp: simulates_def on_buf_def evolves_def)

lemma simulates_put:
  assumes "pkt_ok h p" "\<not> pb_borrowed p" "length (fst (spec_put d (pkt_abs h p))) < ssize_limit"
    and op: "pkt_exec host op h p = on_buf m" "spec_exec op (pkt_abs h p) = (spec_put d (pkt_abs h p), Status True)"
    and put: "has_room p (pb_pos p + length d) \<Longrightarrow>
      \<exists>h' p'. m = Inr ((h', p'), True) \<and> evolves h p h' p' \<and> pkt_ok h' p'
        \<and> pkt_abs h' p' = (overwrite (pb_pos p) d (fst (pkt_abs h p)), pb_pos p + length d)"
  shows "simulates host op h p"
proof (rule simulates_buf[OF op])
  have "pb_pos p + length d < size_limit"
    using assms(3) pkt_okD[OF assms(1)] by (simp add: spec_put_def overwrite_def pkt_abs_def)
  then have "has_room p (pb_pos p + length d)" using assms(2) by (rule has_room_owned[rotated])
  from put[OF this] show "\<exists>h' p'. m = Inr ((h', p'), True) \<and> evolves h p h' p' \<and> pkt_ok h' p'
      \<and> pkt_abs h' p' = spec_put d (pkt_abs h p)"
    by (simp add: spec_put_def pkt_abs_def)
qed

lemma simulates_put_uint:
  assumes "pkt_ok h p" "\<not> pb_borrowed p" "byte_order host" "byte_order e"
    and "length (fst (spec_put (enc_uint e n v) (pkt_abs h p))) < ssize_limit"
    and op: "pkt_exec host op h p = on_buf (put_uint host n h p e v)"
      "spec_exec op (pkt_abs h p) = (spec_put (enc_uint e n v) (pkt_abs h p), Status True)"
  shows "simulates host op h p"
proof (rule simulates_put[OF assms(1,2,5) op])
  assume "has_room p (pb_pos p + length (enc_uint e n v))"
  then have "has_room p (pb_pos p + n)" by simp
  then show "\<exists>h' p'. put_uint host n h p e v = Inr ((h', p'), True) \<and> evolves h p h' p' \<and> pkt_ok h' p'
      \<and> pkt_abs h' p' = (overwrite (pb_pos p) (enc_uint e n v) (fst (pkt_abs h p)),
           pb_pos p + length (enc_uint e n v))"
    by (rule put_uint_spec[OF assms(1) _ assms(3,4), of n v]) auto
qed

lemma simulates_get_uint:
  assumes "pkt_ok h p" "byte_order host" "byte_order e"
    and op: "pkt_exec host' op h p = on_pos h
        (rbind (get_uint host n h p e True) (\<lambda>(s, ok, v). Inr (s, ok, map_option g v))) out"
      "spec_exec op (pkt_abs h p) = spec_get n (pkt_abs h p) f' out'"
    and out: "\<And>bs. length bs = n \<Longrightarrow> out True (Some (g (dec_uint e bs))) = out' True (Some (f' bs))"
      "out False None = out' False None"
  shows "simulates host' op h p"
proof (cases "pb_pos p + n \<le> pb_length p")
  case True
  note ok = pkt_okD[OF assms(1)]
  have len: "length (chunk (pb_pos p) n (fst (pkt_abs h p))) = n" using True ok by simp
  have "n \<le> pb_length p - pb_pos p" using True by simp
  note g = get_at_pos(3,4)[OF assms(1) this]
  have "snd (pkt_abs h p) = pb_pos p" by (simp add: pkt_abs_def)
  then show ?thesis
    using True ok(6) g out(1)[OF len] unfolding simulates_def op
    by (simp add: get_uint_spec[OF assms(1-3)] on_pos_def spec_get_def)
next
  case False
  have "snd (pkt_abs h p) = pb_pos p" by (simp add: pkt_abs_def)
  then show ?thesis using False pkt_okD(6)[OF assms(1)] assms(1) out(2) unfolding simulates_def op
    by (simp add: get_uint_spec[OF assms(1-3)] on_pos_def spec_get_def)
qed

lemma simulates_get_word:
  assumes "pkt_ok h p" "byte_order host" "byte_order e"
    and op: "pkt_exec host op h p = on_pos h
        (rbind (get_uint host n h p e True)
          (\<lambda>(s, ok, v). Inr (s, ok, map_option (of_nat :: nat \<Rightarrow> 'a::len word) v)))
        (\<lambda>ok v. Number ok (map_option unat v))"
      "spec_exec op (pkt_abs h p) = spec_get n (pkt_abs h p) f' Number"
    and f': "\<And>bs. length bs = n \<Longrightarrow> dec_uint e bs = f' bs"
    and width: "256 ^ n = (2 :: nat) ^ LENGTH('a)"
  shows "simulates host op h p"
  by (rule simulates_get_uint[OF assms(1-3) op]) (simp_all add: unat_of_nat_dec[OF _ width] flip: f')

lemma simulates_get_flag:
  assumes "pkt_ok h p" "byte_order host" "byte_order e"
    and op: "pkt_exec host' op h p = on_pos h
        (rbind (get_uint host n h p e True) (\<lambda>(s, ok, v). Inr (s, ok, map_option (\<lambda>x. x \<noteq> 0) v))) Flag"
      "spec_exec op (pkt_abs h p) = spec_get n (pkt_abs h p) f' Flag"
    and f': "\<And>bs. length bs = n \<Longrightarrow> f' bs \<longleftrightarrow> \<not> set bs \<subseteq> {0}"
  shows "simulates host' op h p"
  by (rule simulates_get_uint[OF assms(1-3) op]) (simp_all add: f' dec_uint_pos)

lemma simulates_copy:
  assumes "pkt_ok h p" "has_room p (length d)"
  shows "simulates host (Op_copy d) h p"
proof (rule simulates_buf)
  show "\<exists>h' p'. z_pktbuf_copy h p d = Inr ((h', p'), True) \<and> evolves h p h' p'
      \<and> pkt_ok h' p' \<and> pkt_abs h' p' = (d, min (pb_pos p) (length d))"
    by (rule copy_spec[OF assms]) blast
qed (simp_all add: pkt_abs_def)

lemma simulates_append:
  assumes "pkt_ok h p" "has_room p (pb_length p + length d)"
  shows "simulates host (Op_append d) h p"
proof (rule simulates_buf)
  show "\<exists>h' p'. z_pktbuf_append h p d = Inr ((h', p'), True) \<and> evolves h p h' p'
      \<and> pkt_ok h' p' \<and> pkt_abs h' p' = (fst (pkt_abs h p) @ d, pb_pos p)"
    by (rule append_spec[OF assms]) blast
qed (simp_all add: pkt_abs_def)

lemma simulates_insert:
  assumes "pkt_ok h p" "has_room p (pb_length p + length d)" "j \<le> pb_length p"
  shows "simulates host (Op_insert j d) h p"
proof (rule simulates_buf)
  show "\<exists>h' p'. z_pktbuf_insert h p j d = Inr ((h', p'), True) \<and> evolves h p h' p' \<and> pkt_ok h' p'
      \<and> pkt_abs h' p' = (take j (fst (pkt_abs h p)) @ d @ drop j (fst (pkt_abs h p)), pb_pos p)"
    by (rule insert_spec[OF assms]) blast
qed (simp_all add: pkt_abs_def)

lemma simulates_seek:
  assumes "pkt_ok h p" "pb_length p < ssize_limit" "- int ssize_limit < off" "off < int ssize_limit"
  shows "simulates host (Op_seek w off) h p"
proof -
  note okD = pkt_okD[OF assms(1)]
  let ?t = "seek_target w (pkt_abs h p) off"
  show ?thesis
  proof (cases "0 \<le> ?t \<and> ?t \<le> int (pb_length p)")
    case True
    then have "pkt_ok h (p\<lparr>pb_pos := nat ?t\<rparr>)" using assms(1) by (auto simp: pkt_ok_def)
    moreover have "pkt_abs h (p\<lparr>pb_pos := nat ?t\<rparr>) = (fst (pkt_abs h p), nat ?t)"
      by (simp add: pkt_abs_def)
    ultimately show ?thesis using True okD(6)
      by (simp add: simulates_def seek_spec[OF assms] Let_def)
  next
    case False
    then show ?thesis using assms(1) okD(6)
      by (auto simp: simulates_def seek_spec[OF assms] Let_def)
  qed
qed

lemma simulates_put_boolean:
  assumes "pkt_ok h p" "\<not> pb_borrowed p"
    and "length (fst (spec_put [if b then 1 else 0] (pkt_abs h p))) < ssize_limit"
  shows "simulates host (Op_put_boolean b) h p"
proof (rule simulates_put[OF assms])
  assume "has_room p (pb_pos p + length [if b then 1 else (0 :: byte)])"
  then have "has_room p (pb_pos p + 1)" by simp
  then show "\<exists>h' p'. z_pktbuf_put_boolean h p b = Inr ((h', p'), True) \<and> evolves h p h' p'
      \<and> pkt_ok h' p' \<and> pkt_abs h' p' = (overwrite (pb_pos p) [if b then 1 else 0]
        (fst (pkt_abs h p)), pb_pos p + length [if b then 1 else (0 :: byte)])"
    by (rule put_boolean_spec[OF assms(1), of b]) auto
qed simp_all

lemma simulates_put_u8s:
  assumes "pkt_ok h p" "\<not> pb_borrowed p" "length (fst (spec_put d (pkt_abs h p))) < ssize_limit"
  shows "simulates host (Op_put_u8s d) h p"
proof (rule simulates_put[OF assms])
  assume "has_room p (pb_pos p + length d)"
  then show "\<exists>h' p'. z_pktbuf_put_u8s h p (length d) (Some d) = Inr ((h', p'), True)
      \<and> evolves h p h' p' \<and> pkt_ok h' p'
      \<and> pkt_abs h' p' = (overwrite (pb_pos p) d (fst (pkt_abs h p)), pb_pos p + length d)"
    by (rule put_bytes_spec[OF assms(1)]) blast
qed simp_all

lemma simulates_get_u8s:
  assumes "pkt_ok h p"
  shows "simulates host (Op_get_u8s n) h p"
proof (cases "pb_pos p + n \<le> pb_length p")
  case True
  then have "n \<le> pb_length p - pb_pos p" by simp
  note g = get_at_pos(3,4)[OF assms this]
  have "snd (pkt_abs h p) = pb_pos p" by (simp add: pkt_abs_def)
  then show ?thesis using True g pkt_okD(6)[OF assms]
    by (simp add: simulates_def on_pos_def get_bytes_spec[OF assms] spec_get_def)
next
  case False
  have "snd (pkt_abs h p) = pb_pos p" by (simp add: pkt_abs_def)
  then show ?thesis using False assms pkt_okD(6)[OF assms]
    by (simp add: simulates_def on_pos_def get_bytes_spec[OF assms] spec_get_def)
qed

lemma enc_uint_byte: "enc_uint e (Suc 0) (unat v) = [v]"
  by (simp add: enc_uint_def mod_less[OF unat_byte_less])

text \<open>Every legal operation on an owned buffer refines its meaning, and never faults.\<close>

lemma legal_simulates:
  assumes ok: "pkt_ok h p" and own: "\<not> pb_borrowed p" and host: "byte_order host"
    and legal: "op_legal op (pkt_abs h p)" and lim0: "pb_length p < ssize_limit"
    and lim: "length (fst (fst (spec_exec op (pkt_abs h p)))) < ssize_limit"
  shows "simulates host op h p"
proof -
  note put = simulates_put_uint[OF ok own host] and get = simulates_get_word[OF ok host]
  have room: "has_room p n" if "n < ssize_limit" for n
    using own that by (intro has_room_owned) auto
  show ?thesis
  proof (cases op)
    case (Op_put_u8 v)
    then show ?thesis using lim host
      by (intro put[where n = 1 and e = host]) (auto simp: z_pktbuf_put_u8_def enc_uint_byte)
  next
    case Op_get_u8
    then show ?thesis
      by (intro get[OF host, where f' = "\<lambda>bs. unat (hd bs)"])
         (auto simp: z_pktbuf_get_u8_def dec_uint_1)
  next
    case Op_get_boolean
    show ?thesis unfolding Op_get_boolean
      by (rule simulates_get_flag[OF ok byte_order_consts(1,1)])
         (simp add: z_pktbuf_get_boolean_def, simp, auto simp: length_Suc_conv)
  next
    case Op_get_boolean16
    show ?thesis unfolding Op_get_boolean16
      by (rule simulates_get_flag[OF ok host host])
         (simp add: z_pktbuf_get_boolean16_def, simp, auto simp: numeral_2_eq_2 length_Suc_conv)
  next
    case (Op_put_u16 e v)
    then show ?thesis using lim legal
      by (intro put[where n = 2 and e = e and v = "unat v"]) (auto simp: z_pktbuf_put_u16_def)
  next
    case (Op_get_u16 e)
    then show ?thesis using legal
      by (intro get[where n = 2 and e = e and ?'a = 16]) (auto simp: z_pktbuf_get_u16_def)
  next
    case (Op_put_u32 e v)
    then show ?thesis using lim legal
      by (intro put[where n = 4 and e = e and v = "unat v"]) (auto simp: z_pktbuf_put_u32_def)
  next
    case (Op_get_u32 e)
    then show ?thesis using legal
      by (intro get[where n = 4 and e = e and ?'a = 32]) (auto simp: z_pktbuf_get_u32_def)
  next
    case (Op_put_u64 e v)
    then show ?thesis using lim legal
      by (intro put[where n = 8 and e = e and v = "unat v"]) (auto simp: z_pktbuf_put_u64_def)
  next
    case (Op_get_u64 e)
    then show ?thesis using legal
      by (intro get[where n = 8 and e = e and ?'a = 64]) (auto simp: z_pktbuf_get_u64_def)
  qed (use legal lim lim0 ok own pkt_okD[OF ok] in
      \<open>auto intro!: simulates_copy simulates_append simulates_insert simulates_seek room
        simulates_put_boolean simulates_put_u8s simulates_get_u8s simp: min_absorb2\<close>)
qed

lemma pb_borrowed_cong: "pb_flags p' = pb_flags p \<Longrightarrow> pb_borrowed p' = pb_borrowed p"
  by (simp add: pb_borrowed_def)

lemma pkt_run_refines:
  assumes "pkt_ok h p" "\<not> pb_borrowed p" "byte_order host"
    "pb_length p < ssize_limit" "ops_legal ops (pkt_abs h p)"
  shows "\<exists>h' p'. pkt_run host ops h p = Inr ((h', p'), snd (spec_run ops (pkt_abs h p)))
     \<and> pkt_ok h' p' \<and> pkt_abs h' p' = fst (spec_run ops (pkt_abs h p))"
  using assms
proof (induction ops arbitrary: h p)
  case Nil
  then show ?case by auto
next
  case (Cons op ops)
  from Cons.prems(5) have legal: "op_legal op (pkt_abs h p)"
    and lim: "length (fst (fst (spec_exec op (pkt_abs h p)))) < ssize_limit"
    and rest: "ops_legal ops (fst (spec_exec op (pkt_abs h p)))" by auto
  obtain h1 p1 where st: "pkt_exec host op h p = Inr ((h1, p1), snd (spec_exec op (pkt_abs h p)))"
    "pkt_ok h1 p1" "pkt_abs h1 p1 = fst (spec_exec op (pkt_abs h p))" "pb_flags p1 = pb_flags p"
    using legal_simulates[OF Cons.prems(1-3) legal Cons.prems(4) lim]
    unfolding simulates_def by blast
  have "\<not> pb_borrowed p1" using Cons.prems(2) pb_borrowed_cong[OF st(4)] by simp
  moreover have "pb_length p1 < ssize_limit" using lim st(3) pkt_okD(6)[OF st(2)] by simp
  moreover have "ops_legal ops (pkt_abs h1 p1)" using rest st(3) by simp
  ultimately obtain h2 p2 where r: "pkt_run host ops h1 p1
      = Inr ((h2, p2), snd (spec_run ops (pkt_abs h1 p1)))"
    "pkt_ok h2 p2" "pkt_abs h2 p2 = fst (spec_run ops (pkt_abs h1 p1))"
    using Cons.IH[OF st(2) _ Cons.prems(3)] by blast
  show ?case
    by (rule exI[of _ h2], rule exI[of _ p2])
       (simp add: st(1) r st(3)[symmetric] Let_def split_beta)
qed

lemma pkt_ok_new: "heap_ok h \<Longrightarrow> pkt_ok h z_pktbuf_new"
  by (simp add: pkt_ok_def pkt_mem_ok_def z_pktbuf_new_def)

lemma pkt_abs_new: "pkt_abs h z_pktbuf_new = ([], 0)"
  by (simp add: pkt_abs_def z_pktbuf_new_def pkt_buf_def)

lemma new_owned: "\<not> pb_borrowed z_pktbuf_new"
  by (simp add: z_pktbuf_new_def pb_borrowed_def)

end
