(* ===== verification/Packet_Messages.thy ===== *)
theory Packet_Messages
  imports Packetbuf
begin

section \<open>Messages, arrays, parts and references of packet buffers\<close>

text \<open>
  What a protocol implementation builds from \<open>src/packetbuf.c\<close>: messages of typed fields that
  one host writes and another reads, arrays of numbers, a part that shares the memory of its
  parent, and the life of a reference counted buffer.
\<close>

subsection \<open>Messages of typed fields\<close>

datatype pkt_field =
    Fld_u8 "8 word" | Fld_u16 int "16 word" | Fld_u32 int "32 word" | Fld_u64 int "64 word"
  | Fld_boolean bool | Fld_bytes bytes

fun put_field :: "pkt_field \<Rightarrow> pkt_op" where
  "put_field (Fld_u8 v) = Op_put_u8 v"
| "put_field (Fld_u16 e v) = Op_put_u16 e v"
| "put_field (Fld_u32 e v) = Op_put_u32 e v"
| "put_field (Fld_u64 e v) = Op_put_u64 e v"
| "put_field (Fld_boolean b) = Op_put_boolean b"
| "put_field (Fld_bytes d) = Op_put_u8s d"

fun get_field :: "pkt_field \<Rightarrow> pkt_op" where
  "get_field (Fld_u8 v) = Op_get_u8"
| "get_field (Fld_u16 e v) = Op_get_u16 e"
| "get_field (Fld_u32 e v) = Op_get_u32 e"
| "get_field (Fld_u64 e v) = Op_get_u64 e"
| "get_field (Fld_boolean b) = Op_get_boolean"
| "get_field (Fld_bytes d) = Op_get_u8s (length d)"

fun field_value :: "pkt_field \<Rightarrow> pkt_out" where
  "field_value (Fld_u8 v) = Number True (Some (unat v))"
| "field_value (Fld_u16 e v) = Number True (Some (unat v))"
| "field_value (Fld_u32 e v) = Number True (Some (unat v))"
| "field_value (Fld_u64 e v) = Number True (Some (unat v))"
| "field_value (Fld_boolean b) = Flag True (Some b)"
| "field_value (Fld_bytes d) = Bytes True (Some d)"

fun field_bytes :: "pkt_field \<Rightarrow> bytes" where
  "field_bytes (Fld_u8 v) = [v]"
| "field_bytes (Fld_u16 e v) = enc_uint e 2 (unat v)"
| "field_bytes (Fld_u32 e v) = enc_uint e 4 (unat v)"
| "field_bytes (Fld_u64 e v) = enc_uint e 8 (unat v)"
| "field_bytes (Fld_boolean b) = [if b then 1 else 0]"
| "field_bytes (Fld_bytes d) = d"

fun field_order :: "pkt_field \<Rightarrow> bool" where
  "field_order (Fld_u16 e v) = byte_order e"
| "field_order (Fld_u32 e v) = byte_order e"
| "field_order (Fld_u64 e v) = byte_order e"
| "field_order _ = True"

definition wire :: "pkt_field list \<Rightarrow> bytes" where
  "wire fs = concat (map field_bytes fs)"

lemma wire_simps [simp]: "wire [] = []" "wire (f # fs) = field_bytes f @ wire fs"
  by (simp_all add: wire_def)

lemma spec_put_end: "spec_put d (c, length c) = (c @ d, length (c @ d))"
  by (simp add: spec_put_def overwrite_def)

lemma spec_exec_put_field:
  "spec_exec (put_field f) (c, length c) = ((c @ field_bytes f, length (c @ field_bytes f)), Status True)"
  by (cases f) (simp_all add: spec_put_end)

lemma spec_get_here:
  "spec_get (length d) (c @ d @ r, length c) f out = ((c @ d @ r, length (c @ d)), out True (Some (f d)))"
  by (simp add: spec_get_def chunk_def)

lemmas spec_get_at = spec_get_here [of "enc_uint e n v" for e n v, simplified length_enc_uint]

lemma spec_exec_get_field:
  "spec_exec (get_field f) (c @ field_bytes f @ r, length c)
   = ((c @ field_bytes f @ r, length (c @ field_bytes f)), field_value f)"
proof (cases f)
  case (Fld_u8 v)
  then show ?thesis using spec_get_here[of "[v]" c r "\<lambda>bs. unat (hd bs)" Number] by simp
next
  case (Fld_boolean b)
  then show ?thesis using spec_get_here[of "[if b then 1 else 0]" c r "\<lambda>bs. bs \<noteq> [0]" Flag] by simp
next
  case (Fld_u16 e v)
  have "unat v < 256 ^ 2" using unsigned_less[of v, where ?'a = nat] by simp
  with Fld_u16 show ?thesis by (simp add: spec_get_at dec_enc_uint)
next
  case (Fld_u32 e v)
  have "unat v < 256 ^ 4" using unsigned_less[of v, where ?'a = nat] by simp
  with Fld_u32 show ?thesis by (simp add: spec_get_at dec_enc_uint)
next
  case (Fld_u64 e v)
  have "unat v < 256 ^ 8" using unsigned_less[of v, where ?'a = nat] by simp
  with Fld_u64 show ?thesis by (simp add: spec_get_at dec_enc_uint)
next
  case (Fld_bytes d)
  then show ?thesis by (simp add: spec_get_here)
qed

lemma spec_run_put_fields:
  "spec_run (map put_field fs) (c, length c)
   = ((c @ wire fs, length (c @ wire fs)), map (\<lambda>_. Status True) fs)"
proof (induction fs arbitrary: c)
  case (Cons f fs)
  show ?case using Cons.IH[of "c @ field_bytes f"] by (simp add: spec_exec_put_field Let_def)
qed simp

lemma spec_run_get_fields:
  "spec_run (map get_field fs) (c @ wire fs @ r, length c)
   = ((c @ wire fs @ r, length (c @ wire fs)), map field_value fs)"
proof (induction fs arbitrary: c)
  case (Cons f fs)
  have "spec_exec (get_field f) (c @ wire (f # fs) @ r, length c)
      = ((c @ wire (f # fs) @ r, length (c @ field_bytes f)), field_value f)"
    using spec_exec_get_field[of f c "wire fs @ r"] by simp
  then show ?case using Cons.IH[of "c @ field_bytes f"] by (simp add: Let_def)
qed simp

lemma put_fields_legal:
  assumes "\<forall>f \<in> set fs. field_order f" "length (c @ wire fs) < ssize_limit"
  shows "ops_legal (map put_field fs) (c, length c)"
  using assms
proof (induction fs arbitrary: c)
  case (Cons f fs)
  have "op_legal (put_field f) (c, length c)" using Cons.prems(1) by (cases f) auto
  then show ?case using Cons.prems Cons.IH[of "c @ field_bytes f"]
    by (simp add: spec_exec_put_field)
qed simp

lemma get_fields_legal:
  assumes "\<forall>f \<in> set fs. field_order f" "length (c @ wire fs @ r) < ssize_limit"
  shows "ops_legal (map get_field fs) (c @ wire fs @ r, length c)"
  using assms
proof (induction fs arbitrary: c)
  case (Cons f fs)
  have ex: "spec_exec (get_field f) (c @ wire (f # fs) @ r, length c)
      = ((c @ wire (f # fs) @ r, length (c @ field_bytes f)), field_value f)"
    using spec_exec_get_field[of f c "wire fs @ r"] by simp
  have "op_legal (get_field f) (c @ wire (f # fs) @ r, length c)"
    using Cons.prems(1) by (cases f) auto
  then show ?case using Cons.prems Cons.IH[of "c @ field_bytes f"] ex by simp
qed simp

lemma fields_written:
  assumes "heap_ok h" "byte_order host" "\<forall>f \<in> set fs. field_order f" "length (wire fs) < ssize_limit"
  shows "\<exists>h' p'. pkt_run host (map put_field fs) h z_pktbuf_new
      = Inr ((h', p'), map (\<lambda>_. Status True) fs) \<and> pkt_ok h' p' \<and> fst (pkt_abs h' p') = wire fs"
proof -
  have "ops_legal (map put_field fs) (pkt_abs h z_pktbuf_new)"
    using put_fields_legal[of fs "[]"] assms(3,4) by (simp add: pkt_abs_new)
  then show ?thesis
    using pkt_run_refines[OF pkt_ok_new[OF assms(1)] new_owned assms(2), of "map put_field fs"]
      spec_run_put_fields[of fs "[]"]
    by (auto simp: pkt_abs_new) (auto simp: z_pktbuf_new_def)
qed

lemma fields_read:
  assumes "heap_ok h" "byte_order host" "\<forall>f \<in> set fs. field_order f" "length (wire fs) < ssize_limit"
  shows "\<exists>h' p'. pkt_run host (Op_copy (wire fs) # map get_field fs) h z_pktbuf_new
      = Inr ((h', p'), Status True # map field_value fs) \<and> pkt_ok h' p'"
proof -
  have "ops_legal (Op_copy (wire fs) # map get_field fs) (pkt_abs h z_pktbuf_new)"
    using get_fields_legal[of fs "[]" "[]"] assms(3,4) by (simp add: pkt_abs_new)
  then show ?thesis
    using pkt_run_refines[OF pkt_ok_new[OF assms(1)] new_owned assms(2),
        of "Op_copy (wire fs) # map get_field fs"]
      spec_run_get_fields[of fs "[]" "[]"]
    by (auto simp: pkt_abs_new Let_def) (auto simp: z_pktbuf_new_def)
qed

subsection \<open>Arrays\<close>

text \<open>
  The memory image of an array of \<open>k\<close>-byte numbers on a host, and its bytes in a packet.
\<close>

definition array_mem :: "int \<Rightarrow> nat \<Rightarrow> nat list \<Rightarrow> bytes" where
  "array_mem host k vs = concat (map (uint_to_mem host k) vs)"

definition array_wire :: "int \<Rightarrow> nat \<Rightarrow> nat list \<Rightarrow> bytes" where
  "array_wire e k vs = concat (map (enc_uint e k) vs)"

lemma length_array_mem [simp]: "length (array_mem host k vs) = k * length vs"
  by (induction vs) (auto simp: array_mem_def)

lemma length_array_wire [simp]: "length (array_wire e k vs) = k * length vs"
  by (induction vs) (auto simp: array_wire_def)

lemma swap_loop_append:
  assumes "0 < k" "\<forall>b \<in> set bss. length b = k" "length xs + k * length bss < 2 ^ 32"
  shows "swap_loop k (length xs) (length xs + k * length bss) (xs @ concat bss)
       = Inr (concat (map rev bss))"
  using assms(2,3)
proof (induction bss arbitrary: xs)
  case Nil
  then show ?case by (simp add: swap_loop.simps)
next
  case (Cons b bss)
  have "chunk (length xs) k (xs @ b @ concat bss) = b" using Cons.prems by (simp add: chunk_def)
  moreover have "swap_loop k (length xs + k) (length xs + k * length (b # bss)) (xs @ b @ concat bss)
      = Inr (concat (map rev bss))"
    using Cons.IH[of "xs @ b"] Cons.prems by (simp add: algebra_simps)
  moreover have "\<not> length xs + k \<ge> 2 ^ 32" using Cons.prems(2) by simp
  ultimately show ?case using assms(1) by (subst swap_loop.simps) simp
qed

lemma swap_loop_array:
  assumes "0 < k" "\<forall>b \<in> set bss. length b = k" "k * length bss < 2 ^ 32"
  shows "swap_loop k 0 (k * length bss) (concat bss) = Inr (concat (map rev bss))"
  using swap_loop_append[of k bss "[]"] assms by simp

lemma rev_enc_mem:
  assumes "byte_order host" "byte_order e" "e \<noteq> host"
  shows "rev (uint_to_mem host k v) = enc_uint e k v" "rev (enc_uint e k v) = uint_to_mem host k v"
  using assms by (auto simp: byte_order_def uint_to_mem_def enc_uint_def)

lemma swap_to_wire:
  assumes "0 < k" "k * length vs < 2 ^ 32" "byte_order host" "byte_order e"
  shows "(if e = host then Inr (array_mem host k vs)
          else swap_loop k 0 (k * length vs) (array_mem host k vs)) = Inr (array_wire e k vs)"
    and "(if e = host then Inr (array_wire e k vs)
          else swap_loop k 0 (k * length vs) (array_wire e k vs)) = Inr (array_mem host k vs)"
proof -
  have same: "enc_uint host = uint_to_mem host" by (intro ext) (simp add: enc_uint_def uint_to_mem_def)
  show "(if e = host then Inr (array_mem host k vs)
        else swap_loop k 0 (k * length vs) (array_mem host k vs)) = Inr (array_wire e k vs)"
  proof (cases "e = host")
    case False
    have "rev \<circ> uint_to_mem host k = enc_uint e k"
      using rev_enc_mem(1)[OF assms(3,4) False] by (intro ext) simp
    then show ?thesis using swap_loop_array[of k "map (uint_to_mem host k) vs"] assms(1,2) False
      by (simp add: array_mem_def array_wire_def)
  qed (simp add: array_mem_def array_wire_def same)
  show "(if e = host then Inr (array_wire e k vs)
        else swap_loop k 0 (k * length vs) (array_wire e k vs)) = Inr (array_mem host k vs)"
  proof (cases "e = host")
    case False
    have "rev \<circ> enc_uint e k = uint_to_mem host k"
      using rev_enc_mem(2)[OF assms(3,4) False] by (intro ext) simp
    then show ?thesis using swap_loop_array[of k "map (enc_uint e k) vs"] assms(1,2) False
      by (simp add: array_mem_def array_wire_def)
  qed (simp add: array_mem_def array_wire_def same)
qed

lemma put_uints_spec:
  assumes "pkt_ok h p" "has_room p (pb_pos p + 2 ^ sh * length vs)" "byte_order host" "byte_order e"
    "2 ^ sh * length vs < 2 ^ 32"
  obtains h' p' where
    "put_uints host sh (2 ^ sh) h p e (length vs) (Some (array_mem host (2 ^ sh) vs)) = Inr ((h', p'), True)"
    "evolves h p h' p'" "pkt_ok h' p'"
    "pkt_abs h' p' = spec_put (array_wire e (2 ^ sh) vs) (pkt_abs h p)"
proof -
  let ?k = "2 ^ sh :: nat"
  have n: "shlz (length vs) sh = ?k * length vs"
    using assms(5) by (subst shlz_small) (simp_all add: mult.commute)
  have pos: "0 < ?k" by simp
  note sw = swap_to_wire(1)[OF pos assms(5,3,4)]
  have snd: "snd (pkt_abs h p) = pb_pos p" by (simp add: pkt_abs_def)
  have room: "has_room p (pb_pos p + length (array_wire e ?k vs))" using assms(2) by simp
  show thesis
    by (rule put_at_pos[OF assms(1) room])
       (rule that, auto simp: put_uints_def n sw Let_def spec_put_def snd cong: if_cong)
qed

lemma get_uints_spec:
  assumes "pkt_ok h p" "byte_order host" "byte_order e" "2 ^ sh * length vs < 2 ^ 32"
    "pb_pos p + 2 ^ sh * length vs \<le> pb_length p"
    "chunk (pb_pos p) (2 ^ sh * length vs) (fst (pkt_abs h p)) = array_wire e (2 ^ sh) vs"
  shows "get_uints host sh (2 ^ sh) h p e (length vs) True
      = Inr (p\<lparr>pb_pos := pb_pos p + 2 ^ sh * length vs\<rparr>, True, Some (array_mem host (2 ^ sh) vs))"
proof -
  let ?k = "2 ^ sh :: nat"
  have n: "shlz (length vs) sh = ?k * length vs"
    using assms(4) by (subst shlz_small) (simp_all add: mult.commute)
  have le: "?k * length vs \<le> pb_length p - pb_pos p" using assms(5) by simp
  have pos: "0 < ?k" by simp
  note sw = swap_to_wire(2)[OF pos assms(4,2,3)]
  show ?thesis using get_at_pos(1,2)[OF assms(1) le] le assms(6) sw
    by (auto simp: get_uints_def n Let_def available_eq[OF assms(1)] split: if_splits)
qed

subsection \<open>Parts\<close>

lemma part_borrowed [simp]: "pb_borrowed (z_pktbuf_part p i n)"
  by (simp add: z_pktbuf_part_def pb_borrowed_def Z_PB_BORROWED_def Let_def)

lemma part_fields:
  assumes "pkt_ok h p" "i + n \<le> pb_length p"
  shows "z_pktbuf_part p i n =
    \<lparr>pb_ref_cnt = 1, pb_allocated = n, pb_length = n, pb_pos = 0,
     pb_flags = Z_PB_BORROWED, pb_data = ptr_add (pb_data p) i\<rparr>"
  using assms pkt_okD[OF assms(1)] by (simp add: z_pktbuf_part_def Let_def subz_le z_refcount_set_def)

lemma part_ok:
  assumes "pkt_ok h p" "i + n \<le> pb_length p"
  shows "pkt_ok h (z_pktbuf_part p i n)"
    and "pkt_abs h (z_pktbuf_part p i n) = (chunk i n (fst (pkt_abs h p)), 0)"
proof -
  note ok = pkt_okD[OF assms(1)]
  have r: "region h (ptr_add (pb_data p) i) n = Some (chunk i n (pkt_buf h p))"
    using region_sub[OF pkt_mem_okD(1)[OF ok(1)], of i n] assms(2) ok by simp
  then have buf: "pkt_buf h (z_pktbuf_part p i n) = chunk i n (pkt_buf h p)"
    using assms by (simp add: part_fields pkt_buf_def)
  have "heap_ok h" using ok(1) by (simp add: pkt_mem_ok_def)
  then show "pkt_ok h (z_pktbuf_part p i n)" using r assms(2) ok
    by (simp add: pkt_ok_def pkt_mem_ok_def part_fields[OF assms] pb_borrowed_def Z_PB_BORROWED_def)
  show "pkt_abs h (z_pktbuf_part p i n) = (chunk i n (fst (pkt_abs h p)), 0)"
    unfolding pkt_abs_def buf using assms ok
    by (simp add: part_fields chunk_def drop_take min_absorb1)
qed

lemma part_write:
  assumes "pkt_ok h p" "i + n \<le> pb_length p" "length d \<le> n"
  obtains h' where "z_pktbuf_put_u8s h (z_pktbuf_part p i n) (length d) (Some d)
      = Inr ((h', (z_pktbuf_part p i n)\<lparr>pb_pos := length d\<rparr>), True)"
    "pkt_ok h' p" "pkt_abs h' p = (overwrite i d (fst (pkt_abs h p)), pb_pos p)"
proof -
  note ok = pkt_okD[OF assms(1)]
  obtain h' where w: "mem_write h (ptr_add (pb_data p) i) d = Inr h'" "evolves h p h' p"
    "pkt_buf h' p = overwrite i d (pkt_buf h p)"
    by (rule write_spec[OF ok(1), of i d]) (use assms ok in auto)
  have len: "length d < size_limit" using assms ok by simp
  show thesis
  proof (rule that[of h'])
    show "z_pktbuf_put_u8s h (z_pktbuf_part p i n) (length d) (Some d)
      = Inr ((h', (z_pktbuf_part p i n)\<lparr>pb_pos := length d\<rparr>), True)"
      using w(1) assms len
      by (simp add: part_fields[OF assms(1,2)] z_pktbuf_put_u8s_def z_pktbuf_set_available_def
          z_pktbuf_current_def addz_small)
    show "pkt_ok h' p" using w(2) by (rule pkt_okI) (use ok in auto)
    show "pkt_abs h' p = (overwrite i d (fst (pkt_abs h p)), pb_pos p)"
      using assms ok by (simp add: pkt_abs_def w(3) overwrite_def min_absorb1 drop_take)
  qed
qed

lemma part_grow:
  assumes "pkt_ok h p" "i + n \<le> pb_length p" "d \<noteq> []" "n + length d < size_limit"
  shows "z_pktbuf_append h (z_pktbuf_part p i n) d = Inl Assert_failed"
proof -
  have "pb_length (z_pktbuf_part p i n) = n" "pb_allocated (z_pktbuf_part p i n) = n"
    using part_fields[OF assms(1,2)] by simp_all
  then show ?thesis using assms(3,4)
    by (simp add: z_pktbuf_append_def addz_small resize_refused)
qed

subsection \<open>References\<close>

text \<open>The buffer \<open>p\<close> in heap \<open>h\<close>, whatever its count.\<close>

definition pkt_same :: "heap \<Rightarrow> zpktbuf \<Rightarrow> pkt_state \<Rightarrow> bool" where
  "pkt_same h p s \<longleftrightarrow> pkt_ok h p \<and> (\<exists>c. s = (h, p\<lparr>pb_ref_cnt := c\<rparr>))"

definition pkt_ref :: "pkt_state \<Rightarrow> pkt_state result" where
  "pkt_ref s = rbind (z_pktbuf_ref (snd s)) (\<lambda>p. Inr (fst s, p))"

definition pkt_unref :: "pkt_state \<Rightarrow> (pkt_state + heap) result" where
  "pkt_unref s = z_pktbuf_unref (fst s) (Some (snd s))"

text \<open>What is left: the block of an owned buffer is freed, everything else is as it was.\<close>

definition pkt_released :: "heap \<Rightarrow> zpktbuf \<Rightarrow> heap \<Rightarrow> bool" where
  "pkt_released h p h' \<longleftrightarrow> h' = (case pb_data p of
       Ptr b i \<Rightarrow> if pb_borrowed p then h else h\<lparr>blocks := (blocks h)(b := None)\<rparr>
     | Null \<Rightarrow> h)"

lemma pkt_unref_last:
  assumes "pkt_same h p s" "pb_ref_cnt (snd s) = 1"
  shows "\<exists>h'. pkt_unref s = Inr (Inr h') \<and> pkt_released h p h'"
proof -
  have f: "fst s = h" "pb_data (snd s) = pb_data p" "pb_borrowed (snd s) = pb_borrowed p"
    using assms(1) by (auto simp: pkt_same_def pb_borrowed_def)
  have "\<not> pb_borrowed p \<Longrightarrow> pb_data p = Ptr b i \<Longrightarrow> i = 0 \<and> blocks h b \<noteq> None" for b i
    using assms(1) unfolding pkt_same_def pkt_ok_def pkt_mem_ok_def
    by (auto split: option.splits)
  then show ?thesis using assms(2) f
    by (cases "pb_data p") (auto simp: pkt_unref_def z_pktbuf_unref_def pkt_released_def)
qed

interpretation pkt_refs: refcounted "pkt_same h p" "\<lambda>s. pb_ref_cnt (snd s)" pkt_ref pkt_unref
    "pkt_released h p" for h p
proof unfold_locales
  fix s assume "pkt_same h p s" "pb_ref_cnt (snd s) = 1"
  then show "\<exists>d. pkt_unref s = Inr (Inr d) \<and> pkt_released h p d" by (rule pkt_unref_last)
qed (auto simp: pkt_same_def pkt_ref_def pkt_unref_def z_pktbuf_ref_def z_pktbuf_unref_def)

subsection \<open>Properties\<close>

definition empty_heap :: heap where
  "empty_heap = \<lparr>next_block = 0, blocks = Map.empty, junk = \<lambda>b i. 0\<rparr>"

lemma heap_ok_empty: "heap_ok empty_heap"
  by (simp add: heap_ok_def empty_heap_def)

text \<open>C1: A buffer made by \<open>z_pktbuf_new\<close> behaves as a list of bytes with a position: whatever
  copies, appends, insertions, seeks, reads and writes of numbers, flags and byte blocks are made
  on it, in any order, on a host of either byte order, none of them faults, every status and value
  returned is that of the same operation on the plain list, and the buffer ends well-formed with
  the contents and the position of the list.\<close>

theorem pktbuf_refines_packet:
  assumes "heap_ok h" "byte_order host" "ops_legal ops ([], 0)"
  shows "\<exists>h' p'. pkt_run host ops h z_pktbuf_new = Inr ((h', p'), snd (spec_run ops ([], 0)))
     \<and> pkt_ok h' p' \<and> pkt_abs h' p' = fst (spec_run ops ([], 0))"
proof -
  have "pb_length z_pktbuf_new < ssize_limit" by (simp add: z_pktbuf_new_def)
  from pkt_run_refines[OF pkt_ok_new[OF assms(1)] new_owned assms(2) this, of ops]
  show ?thesis using assms(3) by (simp add: pkt_abs_new)
qed

lemma enc_258: "enc_uint G_BIG_ENDIAN 2 258 = [1, 2]" "dec_uint G_LITTLE_ENDIAN [2, 7] = 1794"
  by (simp add: enc_uint_def G_LITTLE_ENDIAN_def G_BIG_ENDIAN_def numeral_2_eq_2,
      simp add: dec_uint_def)

theorem pktbuf_refines_packet_witness:
  "\<exists>h' p'. pkt_run G_LITTLE_ENDIAN
       [Op_put_u16 G_BIG_ENDIAN 258, Op_append [7, 8], Op_seek G_SEEK_END (-3),
        Op_get_u32 G_BIG_ENDIAN, Op_get_u16 G_LITTLE_ENDIAN, Op_insert 1 [9]] empty_heap z_pktbuf_new
     = Inr ((h', p'), [Status True, Status True, Status True, Number False None,
                       Number True (Some 1794), Status True])
     \<and> pkt_abs h' p' = ([1, 9, 2, 7, 8], 3)"
proof -
  let ?ops = "[Op_put_u16 G_BIG_ENDIAN 258, Op_append [7, 8], Op_seek G_SEEK_END (-3),
        Op_get_u32 G_BIG_ENDIAN, Op_get_u16 G_LITTLE_ENDIAN, Op_insert 1 [9]]"
  have run: "spec_run ?ops ([], 0) = (([1, 9, 2, 7, 8], 3), [Status True, Status True, Status True,
      Number False None, Number True (Some 1794), Status True])"
    by (simp add: spec_put_def spec_get_def overwrite_def chunk_def enc_258)
  have "ops_legal ?ops ([], 0)"
    by (simp add: spec_put_def spec_get_def overwrite_def chunk_def enc_258)
  from pktbuf_refines_packet[OF heap_ok_empty byte_order_consts(1) this] run
  show ?thesis by auto
qed

text \<open>C19: A message of typed fields crosses hosts: the bytes that one host writes for it, in its
  own byte order, are the wire form of the message, and a host of any byte order that receives these
  bytes and reads the fields back gets the values written, each read succeeding.\<close>

theorem message_roundtrip:
  assumes "heap_ok h1" "heap_ok h2" "byte_order host1" "byte_order host2"
    and "\<forall>f \<in> set fs. field_order f" "length (wire fs) < ssize_limit"
  shows "\<exists>h p. pkt_run host1 (map put_field fs) h1 z_pktbuf_new
           = Inr ((h, p), map (\<lambda>_. Status True) fs) \<and> pkt_ok h p \<and> fst (pkt_abs h p) = wire fs
      \<and> (\<exists>h' p'. pkt_run host2 (Op_copy (fst (pkt_abs h p)) # map get_field fs) h2 z_pktbuf_new
           = Inr ((h', p'), Status True # map field_value fs) \<and> pkt_ok h' p')"
  using fields_written[OF assms(1,3,5,6)] fields_read[OF assms(2,4,5,6)] by metis

theorem message_roundtrip_witness:
  "\<exists>h p. pkt_run G_LITTLE_ENDIAN [Op_put_u32 G_BIG_ENDIAN 5, Op_put_boolean True] empty_heap z_pktbuf_new
       = Inr ((h, p), [Status True, Status True]) \<and> pkt_ok h p
   \<and> (\<exists>h' p'. pkt_run G_BIG_ENDIAN
          [Op_copy (fst (pkt_abs h p)), Op_get_u32 G_BIG_ENDIAN, Op_get_boolean] empty_heap z_pktbuf_new
       = Inr ((h', p'), [Status True, Number True (Some 5), Flag True (Some True)]))"
  using message_roundtrip[OF heap_ok_empty heap_ok_empty byte_order_consts(1,2),
      of "[Fld_u32 G_BIG_ENDIAN 5, Fld_boolean True]"]
  by auto

text \<open>An array of up to \<open>2 ^ 32\<close> bytes written by \<open>z_pktbuf_put_u16s\<close>, \<open>_u32s\<close> or \<open>_u64s\<close>
  (\<open>sh\<close> = 1, 2, 3) at the position of an owned buffer and then read back from there by the matching
  \<open>get\<close> function on a host of either byte order gives the memory image of the same numbers on the
  reading host, and the packet holds each number in the byte order asked for.\<close>

theorem array_roundtrip:
  assumes "pkt_ok h p" "\<not> pb_borrowed p" "pb_pos p + 2 ^ sh * length vs < size_limit"
    and "2 ^ sh * length vs < 2 ^ 32" "byte_order host1" "byte_order host2" "byte_order e"
  shows "\<exists>h' p'. put_uints host1 sh (2 ^ sh) h p e (length vs) (Some (array_mem host1 (2 ^ sh) vs))
           = Inr ((h', p'), True) \<and> pkt_ok h' p'
      \<and> chunk (pb_pos p) (2 ^ sh * length vs) (fst (pkt_abs h' p')) = array_wire e (2 ^ sh) vs
      \<and> get_uints host2 sh (2 ^ sh) h' (p'\<lparr>pb_pos := pb_pos p\<rparr>) e (length vs) True
           = Inr (p', True, Some (array_mem host2 (2 ^ sh) vs))"
proof -
  let ?n = "2 ^ sh * length vs"
  note ok = pkt_okD[OF assms(1)]
  have room: "has_room p (pb_pos p + ?n)" using assms(2,3) by (rule has_room_owned)
  obtain h' p' where w: "put_uints host1 sh (2 ^ sh) h p e (length vs)
      (Some (array_mem host1 (2 ^ sh) vs)) = Inr ((h', p'), True)" "pkt_ok h' p'"
    "pkt_abs h' p' = spec_put (array_wire e (2 ^ sh) vs) (pkt_abs h p)"
    by (rule put_uints_spec[OF assms(1) room assms(5,7,4)])
  have abs: "fst (pkt_abs h' p') = overwrite (pb_pos p) (array_wire e (2 ^ sh) vs) (fst (pkt_abs h p))"
    "pb_pos p' = pb_pos p + ?n"
    using w(3) by (auto simp: spec_put_def pkt_abs_def)
  have len: "pb_pos p + ?n \<le> pb_length p'"
    using pkt_okD(2)[OF w(2)] abs(2) by simp
  have c: "chunk (pb_pos p) ?n (fst (pkt_abs h' p')) = array_wire e (2 ^ sh) vs"
    using ok(2,6) by (simp add: abs(1) chunk_def overwrite_def)
  let ?q = "p'\<lparr>pb_pos := pb_pos p\<rparr>"
  have q: "pkt_ok h' ?q" using w(2) len by (simp add: pkt_ok_def)
  have qa: "fst (pkt_abs h' ?q) = fst (pkt_abs h' p')" by (simp add: pkt_abs_def)
  have "get_uints host2 sh (2 ^ sh) h' ?q e (length vs) True
      = Inr (?q\<lparr>pb_pos := pb_pos ?q + ?n\<rparr>, True, Some (array_mem host2 (2 ^ sh) vs))"
    by (rule get_uints_spec[OF q assms(6,7,4)]) (use len c qa in auto)
  moreover have "?q\<lparr>pb_pos := pb_pos ?q + ?n\<rparr> = p'" using abs(2) by (cases p') simp
  ultimately show ?thesis using w(1,2) c by auto
qed

lemma array_513_1027:
  "array_mem G_LITTLE_ENDIAN 2 [513, 1027] = [1, 2, 3, 4]"
  "array_mem G_BIG_ENDIAN 2 [513, 1027] = [2, 1, 4, 3]"
  "array_wire G_BIG_ENDIAN 2 [513, 1027] = [2, 1, 4, 3]"
  by (simp_all add: array_mem_def array_wire_def uint_to_mem_def enc_uint_def
      G_LITTLE_ENDIAN_def G_BIG_ENDIAN_def numeral_2_eq_2)

theorem array_roundtrip_witness:
  "\<exists>h' p'. put_uints G_LITTLE_ENDIAN 1 2 empty_heap z_pktbuf_new G_BIG_ENDIAN 2 (Some [1, 2, 3, 4])
       = Inr ((h', p'), True) \<and> chunk 0 4 (fst (pkt_abs h' p')) = [2, 1, 4, 3]
    \<and> get_uints G_BIG_ENDIAN 1 2 h' (p'\<lparr>pb_pos := 0\<rparr>) G_BIG_ENDIAN 2 True
       = Inr (p', True, Some [2, 1, 4, 3])"
proof -
  have pos: "pb_pos z_pktbuf_new = 0" by (simp add: z_pktbuf_new_def)
  have k: "(2 :: nat) ^ 1 = 2" "length [513, 1027 :: nat] = 2" "2 * 2 = (4 :: nat)" by simp_all
  show ?thesis
    using array_roundtrip[OF pkt_ok_new[OF heap_ok_empty] new_owned _ _ byte_order_consts(1,2,2),
        of 1 "[513, 1027]", unfolded k array_513_1027 pos]
    by fastforce
qed

text \<open>A part made by \<open>z_pktbuf_part\<close> shares its parent's memory: it is well-formed, shows the
  bytes of the parent at its place, a write through it changes exactly these bytes of the parent and
  leaves the parent well-formed and its position alone, and an attempt to make it grow aborts
  instead of reallocating memory the part does not own.\<close>

theorem part_shares_memory:
  assumes "pkt_ok h p" "i + n \<le> pb_length p" "length d \<le> n" "a \<noteq> []" "n + length a < size_limit"
  shows "pkt_ok h (z_pktbuf_part p i n)
     \<and> pkt_abs h (z_pktbuf_part p i n) = (chunk i n (fst (pkt_abs h p)), 0)
     \<and> (\<exists>h'. z_pktbuf_put_u8s h (z_pktbuf_part p i n) (length d) (Some d)
             = Inr ((h', (z_pktbuf_part p i n)\<lparr>pb_pos := length d\<rparr>), True)
          \<and> pkt_ok h' p \<and> pkt_abs h' p = (overwrite i d (fst (pkt_abs h p)), pb_pos p))
     \<and> z_pktbuf_append h (z_pktbuf_part p i n) a = Inl Assert_failed"
  using part_ok[OF assms(1,2)] part_grow[OF assms(1,2,4,5)] part_write[OF assms(1-3)] by metis

definition five_heap :: heap where
  "five_heap = \<lparr>next_block = 1, blocks = [0 \<mapsto> [1, 2, 3, 4, 5]], junk = \<lambda>b i. 0\<rparr>"

definition five_buf :: zpktbuf where
  "five_buf = \<lparr>pb_ref_cnt = 1, pb_allocated = 5, pb_length = 5, pb_pos = 4, pb_flags = 0,
     pb_data = Ptr 0 0\<rparr>"

lemma five_ok: "pkt_ok five_heap five_buf" "fst (pkt_abs five_heap five_buf) = [1, 2, 3, 4, 5]"
  by (simp_all add: pkt_ok_def pkt_mem_ok_def heap_ok_def five_heap_def five_buf_def pkt_abs_def
      pkt_buf_def chunk_def)

theorem part_shares_memory_witness:
  "\<exists>h'. z_pktbuf_put_u8s five_heap (z_pktbuf_part five_buf 1 3) 2 (Some [8, 9])
       = Inr ((h', (z_pktbuf_part five_buf 1 3)\<lparr>pb_pos := 2\<rparr>), True)
     \<and> fst (pkt_abs h' five_buf) = [1, 8, 9, 4, 5]"
proof -
  have n: "1 + 3 \<le> pb_length five_buf" "length [8 :: byte, 9] \<le> 3" "length [8 :: byte, 9] = 2"
    "[7 :: byte] \<noteq> []" "3 + length [7 :: byte] < size_limit"
    by (simp_all add: five_buf_def)
  have "overwrite 1 [8, 9] [1, 2, 3, 4, 5] = ([1, 8, 9, 4, 5] :: bytes)"
    by (simp add: overwrite_def)
  then show ?thesis
    using part_shares_memory[OF five_ok(1) n(1,2,4,5), unfolded n(3) five_ok(2)] by auto
qed

text \<open>A reference counted buffer lives exactly as long as it is referenced: after any sequence
  of \<open>z_pktbuf_ref\<close> and \<open>z_pktbuf_unref\<close> calls that leaves one reference, the buffer and the heap
  are untouched, and the next \<open>z_pktbuf_unref\<close> is the one that frees it: an owned block is returned
  to the allocator, a borrowed one is left to its owner, and no other block changes.\<close>

theorem pktbuf_freed_at_last_unref:
  assumes "pkt_ok h p" "stays_alive (pb_ref_cnt p) ops" "pb_ref_cnt p + balance ops = 1"
  shows "run_refs pkt_ref pkt_unref ops (h, p) = Inr (Inl (h, p\<lparr>pb_ref_cnt := 1\<rparr>))
     \<and> (\<exists>h'. run_refs pkt_ref pkt_unref (ops @ Drop_ref # rest) (h, p) = Inr (Inr (h', rest))
          \<and> pkt_released h p h')"
proof -
  have same: "pkt_same h p (h, p)" using assms(1) by (auto simp: pkt_same_def intro: exI[of _ "pb_ref_cnt p"])
  have "\<exists>s'. run_refs pkt_ref pkt_unref ops (h, p) = Inr (Inl s') \<and> pb_ref_cnt (snd s') = 1 \<and> pkt_same h p s'"
    using pkt_refs.run_alive[OF same, of ops] assms(2,3) by auto
  then show ?thesis
    using pkt_refs.run_freed[OF same, of ops rest] assms(2,3) by (auto simp: pkt_same_def)
qed

theorem pktbuf_freed_at_last_unref_witness:
  "\<exists>h'. run_refs pkt_ref pkt_unref [Take_ref, Take_ref, Drop_ref, Drop_ref, Drop_ref] (five_heap, five_buf)
      = Inr (Inr (h', [])) \<and> blocks h' 0 = None"
proof -
  have "count_ok 1" "count_ok 2" "count_ok 3" by (simp_all add: count_ok_def MAX_REF_def)
  then show ?thesis
    using pktbuf_freed_at_last_unref[OF five_ok(1), of "[Take_ref, Take_ref, Drop_ref, Drop_ref]" "[]"]
    by (auto simp: five_buf_def pkt_released_def pb_borrowed_def)
qed

lemma swap_loop_endless:
  assumes "0 < k" "2 ^ 32 \<le> n" "i < 2 ^ 32"
  shows "swap_loop k i n src = Inl Endless_loop"
  using assms
proof (induction k i n src rule: swap_loop.induct)
  case (1 k i n src)
  then show ?case by (subst swap_loop.simps) auto
qed

text \<open>The array readers do not return on a packet they should be able to read: when the bytes
  have to be swapped and the array has \<open>2 ^ 32\<close> bytes or more, the 32-bit loop counter wraps around
  before it reaches the 64-bit length, and the loop goes on for ever.\<close>

theorem array_swap_never_ends:
  assumes "pkt_ok h p" "e \<noteq> host" "pb_pos p + 2 ^ sh * n \<le> pb_length p" "2 ^ 32 \<le> 2 ^ sh * n"
  shows "get_uints host sh (2 ^ sh) h p e n True = Inl Endless_loop"
proof -
  note ok = pkt_okD[OF assms(1)]
  have n: "shlz n sh = 2 ^ sh * n"
    using assms(3) ok by (subst shlz_small) (simp_all add: mult.commute)
  have le: "2 ^ sh * n \<le> pb_length p - pb_pos p" using assms(3) by simp
  have pos: "0 < (2 :: nat) ^ sh" by simp
  have "0 < (2 :: nat) ^ 32" by simp
  from swap_loop_endless[OF pos assms(4) this] show ?thesis
    using get_at_pos(1)[OF assms(1) le] le assms(2)
    by (simp add: get_uints_def n available_eq[OF assms(1)])
qed

definition huge_heap :: heap where
  "huge_heap = \<lparr>next_block = 1, blocks = [0 \<mapsto> replicate (2 ^ 32) 0], junk = \<lambda>b i. 0\<rparr>"

definition huge_buf :: zpktbuf where
  "huge_buf = \<lparr>pb_ref_cnt = 1, pb_allocated = 2 ^ 32, pb_length = 2 ^ 32, pb_pos = 0, pb_flags = 0,
     pb_data = Ptr 0 0\<rparr>"

lemma huge_ok: "pkt_ok huge_heap huge_buf"
  by (simp add: pkt_ok_def pkt_mem_ok_def heap_ok_def huge_heap_def huge_buf_def)

theorem array_swap_never_ends_witness:
  "pkt_ok huge_heap huge_buf \<and> z_pktbuf_get_u32s G_LITTLE_ENDIAN huge_heap huge_buf G_BIG_ENDIAN (2 ^ 30) True
     = Inl Endless_loop"
proof -
  have "G_BIG_ENDIAN \<noteq> G_LITTLE_ENDIAN" by (simp add: G_BIG_ENDIAN_def G_LITTLE_ENDIAN_def)
  then show ?thesis
    using array_swap_never_ends[OF huge_ok, of G_BIG_ENDIAN G_LITTLE_ENDIAN 2 "2 ^ 30"] huge_ok
    by (simp add: huge_buf_def z_pktbuf_get_u32s_def)
qed

end
