(* ===== verification/Code.thy ===== *)
theory Code
  imports Zorp_Prelude
begin

section \<open>The encoder and decoder base class\<close>

text \<open>
  \<open>src/code.c\<close> and \<open>src/zorp/code.h\<close>: \<open>ZCode\<close> collects the output of a transformation in a
  buffer that grows by doubling. The buffer is the list \<open>cb_buf\<close>, whose length is \<open>buf_len\<close>;
  the first \<open>cb_used\<close> bytes are the result so far and the byte after them may hold the bits of
  an unfinished output byte. \<open>fresh\<close> is what newly allocated memory holds. The derived classes
  extend the record, as the C structures embed \<open>ZCode super\<close>.

  The locale \<open>zcode_class\<close> is the contract of a derived class; it proves once that feeding an
  input piece by piece is feeding it at once.
\<close>

definition ZCODE_BUFSIZE_DEFAULT :: int where "ZCODE_BUFSIZE_DEFAULT = 256"

record zcode =
  cb_buf :: bytes
  cb_used :: nat
  cb_errors :: int

text \<open>\<open>self->buf[i]\<close> as a value and as the target of an assignment.\<close>

definition buf_get :: "'a zcode_scheme \<Rightarrow> nat \<Rightarrow> byte result" where
  "buf_get self i = (if i < length (cb_buf self) then Inr (cb_buf self ! i) else Inl Bad_access)"

definition buf_set :: "'a zcode_scheme \<Rightarrow> nat \<Rightarrow> byte \<Rightarrow> 'a zcode_scheme result" where
  "buf_set self i v =
     (if i < length (cb_buf self) then Inr (self\<lparr>cb_buf := (cb_buf self)[i := v]\<rparr>) else Inl Bad_access)"

subsection \<open>Operations\<close>

function grow_loop :: "int \<Rightarrow> int \<Rightarrow> int result" where
  "grow_loop newlen reqlen =
     (if newlen < reqlen \<and> 0 < newlen
      then if newlen * 2 \<ge> 2 ^ 31 then Inl Int_overflow else grow_loop (newlen * 2) reqlen
      else Inr newlen)"
  by pat_completeness auto
termination by (relation "measure (\<lambda>(newlen, reqlen). nat (reqlen - newlen))") auto

declare grow_loop.simps [simp del]

definition z_code_grow :: "(nat \<Rightarrow> byte) \<Rightarrow> 'a zcode_scheme \<Rightarrow> int \<Rightarrow> 'a zcode_scheme result" where
  "z_code_grow fresh self reqlen =
     (let newlen = size_to_int (length (cb_buf self));
          newlen = (if newlen \<le> 0 then 1 else newlen)
      in rbind (grow_loop newlen reqlen) (\<lambda>n.
           Inr (self\<lparr>cb_buf := take (nat n) (cb_buf self)
                       @ map fresh [length (cb_buf self)..<nat n]\<rparr>)))"

definition z_code_unget_result :: "(nat \<Rightarrow> byte) \<Rightarrow> 'a zcode_scheme \<Rightarrow> bytes \<Rightarrow> 'a zcode_scheme result" where
  "z_code_unget_result fresh self from =
     (if length from > 0
      then rbind (z_code_grow fresh self (size_to_int (cb_used self + length from))) (\<lambda>s.
           if length from + cb_used s \<le> length (cb_buf s)
           then let b = overwrite (length from) (take (cb_used s) (cb_buf s)) (cb_buf s);
                    b = overwrite 0 from b
             in Inr (s\<lparr>cb_buf := b, cb_used := cb_used s + length from\<rparr>)
           else Inl Bad_access)
      else Inr self)"

definition z_code_get_result :: "'a zcode_scheme \<Rightarrow> nat \<Rightarrow> ('a zcode_scheme \<times> bytes) result" where
  "z_code_get_result self tolen =
     (let res = (if tolen < cb_used self then tolen else cb_used self) in
      if res > 0
      then let used = cb_used self - res in
        if res + (used + 1) \<le> length (cb_buf self)
        then Inr (self\<lparr>cb_used := used,
                    cb_buf := overwrite 0 (chunk res (used + 1) (cb_buf self)) (cb_buf self)\<rparr>,
                  take res (cb_buf self))
        else Inl Bad_access
      else Inr (self, []))"

definition z_code_peek_result :: "'a zcode_scheme \<Rightarrow> bytes" where
  "z_code_peek_result self = cb_buf self"

definition z_code_get_result_length :: "'a zcode_scheme \<Rightarrow> nat" where
  "z_code_get_result_length self = cb_used self"

definition z_code_flush_result :: "'a zcode_scheme \<Rightarrow> nat \<Rightarrow> 'a zcode_scheme result" where
  "z_code_flush_result self flush_length =
     (if flush_length = 0 \<or> cb_used self < flush_length then Inr (self\<lparr>cb_used := 0\<rparr>)
      else if cb_used self \<ge> flush_length
      then if cb_used self \<le> length (cb_buf self)
        then Inr (self\<lparr>cb_buf := overwrite 0 (chunk flush_length (cb_used self - flush_length) (cb_buf self))
                              (cb_buf self),
                    cb_used := cb_used self - flush_length\<rparr>)
        else Inl Bad_access
      else Inr self)"

definition z_code_init :: "int \<Rightarrow> zcode" where
  "z_code_init bufsize =
     (let buf_len = (if bufsize \<le> 0 then ZCODE_BUFSIZE_DEFAULT else bufsize)
      in \<lparr>cb_buf = replicate (nat buf_len) 0, cb_used = 0, cb_errors = 0\<rparr>)"

definition z_code_new :: "int \<Rightarrow> zcode" where
  "z_code_new bufsize = z_code_init bufsize"

definition z_code_get_errors :: "'a zcode_scheme \<Rightarrow> int" where
  "z_code_get_errors self = cb_errors self"

definition z_code_clear_errors :: "'a zcode_scheme \<Rightarrow> 'a zcode_scheme" where
  "z_code_clear_errors self = self\<lparr>cb_errors := 0\<rparr>"

subsection \<open>The buffer grows to a multiple of its size and keeps its contents\<close>

lemma grow_loop_ok:
  assumes "0 < newlen" "newlen < 2 ^ 31" "reqlen \<le> 2 ^ 30"
  shows "\<exists>k. grow_loop newlen reqlen = Inr (newlen * 2 ^ k) \<and> reqlen \<le> newlen * 2 ^ k
     \<and> newlen * 2 ^ k < 2 ^ 31"
  using assms
proof (induction newlen reqlen rule: grow_loop.induct)
  case (1 newlen reqlen)
  show ?case
  proof (cases "newlen < reqlen")
    case True
    then have "\<not> newlen * 2 \<ge> 2 ^ 31" using 1 by simp
    with 1 True obtain k where "grow_loop (newlen * 2) reqlen = Inr (newlen * 2 * 2 ^ k)"
      "reqlen \<le> newlen * 2 * 2 ^ k" "newlen * 2 * 2 ^ k < 2 ^ 31" by auto
    then show ?thesis using True 1
      by (intro exI[of _ "Suc k"]) (subst grow_loop.simps, simp add: mult.assoc)
  next
    case False
    then show ?thesis using 1 by (intro exI[of _ 0]) (subst grow_loop.simps, simp)
  qed
qed

lemma code_grow_ok:
  assumes "0 < length (cb_buf s)" "length (cb_buf s) < 2 ^ 31" "reqlen \<le> 2 ^ 30"
  obtains b where "z_code_grow fresh s reqlen = Inr (s\<lparr>cb_buf := b\<rparr>)"
    "take (length (cb_buf s)) b = cb_buf s" "reqlen \<le> int (length b)" "length b < 2 ^ 31"
    "length (cb_buf s) dvd length b"
proof -
  let ?n = "length (cb_buf s)"
  have n: "size_to_int ?n = int ?n" using assms(2) by (rule size_to_int_small)
  obtain k where k: "grow_loop (int ?n) reqlen = Inr (int ?n * 2 ^ k)" "reqlen \<le> int ?n * 2 ^ k"
    "int ?n * 2 ^ k < 2 ^ 31"
    using grow_loop_ok[of "int ?n" reqlen] assms by auto
  let ?b = "take (?n * 2 ^ k) (cb_buf s) @ map fresh [?n..<?n * 2 ^ k]"
  have len: "length ?b = ?n * 2 ^ k" by simp
  have lt: "?n * 2 ^ k < 2 ^ 31"
    using k(3) by (metis (no_types, lifting) of_nat_less_iff of_nat_mult of_nat_numeral of_nat_power)
  show thesis
  proof (rule that[of ?b])
    have "nat (int ?n * 2 ^ k) = ?n * 2 ^ k"
      by (metis nat_int of_nat_mult of_nat_numeral of_nat_power)
    then show "z_code_grow fresh s reqlen = Inr (s\<lparr>cb_buf := ?b\<rparr>)"
      using assms(1) k(1) n by (auto simp: z_code_grow_def Let_def)
    show "take ?n ?b = cb_buf s" by simp
  qed (use k(2) lt len in auto)
qed

subsection \<open>The result buffer as a queue\<close>

definition code_ok :: "'a zcode_scheme \<Rightarrow> bool" where
  "code_ok s \<longleftrightarrow> 0 < length (cb_buf s) \<and> length (cb_buf s) < 2 ^ 31 \<and> cb_used s \<le> length (cb_buf s)"

definition code_result :: "'a zcode_scheme \<Rightarrow> bytes" where
  "code_result s = take (cb_used s) (cb_buf s)"

lemma code_result_length [simp]: "code_ok s \<Longrightarrow> length (code_result s) = cb_used s"
  by (simp add: code_ok_def code_result_def)

lemma code_init_ok:
  assumes "bufsize < 2 ^ 31"
  shows "code_ok (z_code_init bufsize)" "code_result (z_code_init bufsize) = []"
proof -
  have "nat bufsize < 2 ^ 31" using assms by simp
  then show "code_ok (z_code_init bufsize)"
    by (auto simp: code_ok_def z_code_init_def ZCODE_BUFSIZE_DEFAULT_def Let_def)
qed (simp add: code_result_def z_code_init_def Let_def)

lemma get_result_spec:
  assumes "code_ok s" "cb_used s < length (cb_buf s)"
  obtains s' where "z_code_get_result s n = Inr (s', take n (code_result s))"
    "code_ok s'" "code_result s' = drop n (code_result s)" "length (cb_buf s') = length (cb_buf s)"
    "cb_buf s' ! cb_used s' = cb_buf s ! cb_used s"
proof (cases "min n (cb_used s) = 0")
  case True
  then show thesis using assms
    by (intro that[of s]) (auto simp: z_code_get_result_def Let_def code_result_def min_def split: if_splits)
next
  case False
  define r where "r = min n (cb_used s)"
  define used where "used = cb_used s - r"
  have r: "0 < r" "r \<le> cb_used s" "r + (used + 1) \<le> length (cb_buf s)" "r + used = cb_used s"
    using False assms(2) by (auto simp: r_def used_def)
  let ?b = "overwrite 0 (chunk r (used + 1) (cb_buf s)) (cb_buf s)"
  let ?s = "s\<lparr>cb_used := used, cb_buf := ?b\<rparr>"
  have c: "length (chunk r (used + 1) (cb_buf s)) = used + 1" using r(3) by simp
  show thesis
  proof (rule that[of ?s])
    have "take n (code_result s) = take r (cb_buf s)" by (simp add: code_result_def r_def)
    moreover have "(if n < cb_used s then n else cb_used s) = r" by (simp add: r_def)
    ultimately show "z_code_get_result s n = Inr (?s, take n (code_result s))"
      using r by (simp add: z_code_get_result_def used_def Let_def)
    show "length (cb_buf ?s) = length (cb_buf s)" using r by simp
    then show "code_ok ?s" using assms(1) r by (simp add: code_ok_def)
    have "drop n (code_result s) = drop r (code_result s)"
      using assms(1) by (auto simp: r_def min_def)
    also have "\<dots> = chunk r used (cb_buf s)" using r by (simp add: code_result_def chunk_alt)
    also have "\<dots> = code_result ?s"
      using c by (simp add: code_result_def overwrite_def take_chunk)
    finally show "code_result ?s = drop n (code_result s)" ..
    show "cb_buf ?s ! cb_used ?s = cb_buf s ! cb_used s"
      using c r assms(2) by (simp add: overwrite_def nth_append) (simp add: chunk_def add.commute)
  qed
qed

lemma unget_result_spec:
  assumes "code_ok s" "cb_used s + length d \<le> 2 ^ 30"
  obtains s' where "z_code_unget_result fresh s d = Inr s'" "code_ok s'" "code_result s' = d @ code_result s"
proof (cases "d = []")
  case True
  then show thesis using assms(1) by (intro that[of s]) (simp_all add: z_code_unget_result_def)
next
  case False
  have len: "0 < length (cb_buf s)" "length (cb_buf s) < 2 ^ 31" using assms(1) by (simp_all add: code_ok_def)
  have n: "size_to_int (cb_used s + length d) = int (cb_used s + length d)"
    using assms(2) by (intro size_to_int_small) simp
  have "int (cb_used s + length d) \<le> 2 ^ 30" using assms(2) by simp
  then obtain b where b: "z_code_grow fresh s (int (cb_used s + length d)) = Inr (s\<lparr>cb_buf := b\<rparr>)"
    "take (length (cb_buf s)) b = cb_buf s" "int (cb_used s + length d) \<le> int (length b)"
    "length b < 2 ^ 31"
    by (rule code_grow_ok[OF len])
  have tk: "take (cb_used s) b = code_result s"
    using b(2) assms(1) unfolding code_result_def code_ok_def by (metis min.absorb1 take_take)
  let ?b = "overwrite 0 d (overwrite (length d) (take (cb_used s) b) b)"
  show thesis
  proof (rule that[of "s\<lparr>cb_buf := ?b, cb_used := cb_used s + length d\<rparr>"])
    show "z_code_unget_result fresh s d = Inr (s\<lparr>cb_buf := ?b, cb_used := cb_used s + length d\<rparr>)"
      using False b(1,3) n by (simp add: z_code_unget_result_def Let_def add.commute)
    have le: "cb_used s + length d \<le> length b" "0 < length d" using b(3) False by simp_all
    have lt: "length (take (cb_used s) b) = cb_used s" using le by simp
    then have "length ?b = length b" using le by (simp add: overwrite_def)
    then show "code_ok (s\<lparr>cb_buf := ?b, cb_used := cb_used s + length d\<rparr>)"
      using le b(4) by (auto simp: code_ok_def)
    show "code_result (s\<lparr>cb_buf := ?b, cb_used := cb_used s + length d\<rparr>) = d @ code_result s"
      using le lt by (simp add: code_result_def[of "s\<lparr>cb_buf := x, cb_used := y\<rparr>" for x y]
          overwrite_def tk[symmetric])
  qed
qed

lemma flush_result_spec:
  assumes "code_ok s" "0 < n" "n \<le> cb_used s"
  obtains s' where "z_code_flush_result s n = Inr s'" "code_ok s'" "code_result s' = drop n (code_result s)"
    "cb_buf s' ! cb_used s' = cb_buf s ! (cb_used s - n)"
proof -
  have l: "cb_used s \<le> length (cb_buf s)" using assms(1) by (simp add: code_ok_def)
  have c: "length (chunk n (cb_used s - n) (cb_buf s)) = cb_used s - n" using l assms(3) by simp
  let ?s = "s\<lparr>cb_buf := overwrite 0 (chunk n (cb_used s - n) (cb_buf s)) (cb_buf s), cb_used := cb_used s - n\<rparr>"
  show thesis
  proof (rule that[of ?s])
    show "z_code_flush_result s n = Inr ?s" using assms l by (simp add: z_code_flush_result_def)
    show "code_ok ?s" using assms l c by (simp add: code_ok_def)
    show "code_result ?s = drop n (code_result s)"
      using c assms(3) by (simp add: code_result_def overwrite_def) (simp add: chunk_alt)
    show "cb_buf ?s ! cb_used ?s = cb_buf s ! (cb_used s - n)"
      using c l assms(2,3) by (simp add: overwrite_def nth_append)
  qed
qed

subsection \<open>The contract of a derived class\<close>

text \<open>
  Feeding an input in pieces, as long as the transformation succeeds. \<open>rel a s\<close> ties the object
  \<open>s\<close> to the abstract state \<open>a\<close>, \<open>feed\<close> is the transformation on abstract states, \<open>fits a n\<close>
  says that \<open>n\<close> more bytes of input fit.
\<close>

fun feed_chunks :: "('s \<Rightarrow> bytes \<Rightarrow> ('s \<times> bool) result) \<Rightarrow> bytes list \<Rightarrow> 's \<Rightarrow> ('s \<times> bool) result" where
  "feed_chunks transform [] s = Inr (s, True)"
| "feed_chunks transform (c # cs) s =
     rbind (transform s c) (\<lambda>(s', ok). if ok then feed_chunks transform cs s' else Inr (s', False))"

locale zcode_class =
  fixes rel :: "'a \<Rightarrow> 's \<Rightarrow> bool"
    and transform :: "'s \<Rightarrow> bytes \<Rightarrow> ('s \<times> bool) result"
    and feed :: "'a \<Rightarrow> bytes \<Rightarrow> 'a \<times> bool"
    and fits :: "'a \<Rightarrow> nat \<Rightarrow> bool"
  assumes transform_refines: "rel a s \<Longrightarrow> fits a (length xs) \<Longrightarrow>
      \<exists>s'. transform s xs = Inr (s', snd (feed a xs)) \<and> rel (fst (feed a xs)) s'"
    and feed_Nil: "feed a [] = (a, True)"
    and feed_append: "feed a (xs @ ys) = (if snd (feed a xs) then feed (fst (feed a xs)) ys else feed a xs)"
    and fits_less: "fits a (length xs + n) \<Longrightarrow> fits a (length xs)"
    and fits_rest: "fits a (length xs + n) \<Longrightarrow> fits (fst (feed a xs)) n"
begin

lemma chunks_refine:
  "rel a s \<Longrightarrow> fits a (length (concat cs)) \<Longrightarrow>
   \<exists>s'. feed_chunks transform cs s = Inr (s', snd (feed a (concat cs))) \<and> rel (fst (feed a (concat cs))) s'"
proof (induction cs arbitrary: a s)
  case Nil
  then show ?case by (simp add: feed_Nil)
next
  case (Cons c cs)
  have f: "fits a (length c + length (concat cs))" using Cons.prems(2) by simp
  obtain s1 where s1: "transform s c = Inr (s1, snd (feed a c))" "rel (fst (feed a c)) s1"
    using transform_refines[OF Cons.prems(1) fits_less[OF f]] by auto
  show ?case
  proof (cases "snd (feed a c)")
    case True
    then show ?thesis using Cons.IH[OF s1(2) fits_rest[OF f]] s1 by (simp add: feed_append)
  next
    case False
    then show ?thesis using s1 by (simp add: feed_append)
  qed
qed

end

subsection \<open>Properties\<close>

text \<open>Taking part of the result out of an encoder with an unfinished output byte: \<open>z_code_get_result\<close>
  moves the unfinished byte along with the data, \<open>z_code_flush_result\<close> leaves it behind, so that the
  next \<open>transform\<close> goes on from a byte that was already flushed or delivered.\<close>

theorem flush_loses_partial_byte:
  assumes "code_ok s" "cb_used s < length (cb_buf s)" "0 < n" "n \<le> cb_used s"
  shows "\<exists>g f. z_code_get_result s n = Inr (g, take n (code_result s))
     \<and> z_code_flush_result s n = Inr f
     \<and> code_result g = drop n (code_result s) \<and> code_result f = code_result g
     \<and> cb_buf g ! cb_used g = cb_buf s ! cb_used s
     \<and> cb_buf f ! cb_used f = cb_buf s ! (cb_used s - n)"
proof -
  obtain g where "z_code_get_result s n = Inr (g, take n (code_result s))"
    "code_result g = drop n (code_result s)" "cb_buf g ! cb_used g = cb_buf s ! cb_used s"
    by (rule get_result_spec[OF assms(1,2)])
  moreover obtain f where "z_code_flush_result s n = Inr f" "code_result f = drop n (code_result s)"
    "cb_buf f ! cb_used f = cb_buf s ! (cb_used s - n)"
    by (rule flush_result_spec[OF assms(1,3,4)])
  ultimately show ?thesis by auto
qed

theorem flush_loses_partial_byte_witness:
  "\<exists>g f. z_code_get_result \<lparr>cb_buf = [65, 66, 48, 0], cb_used = 2, cb_errors = 0\<rparr> 2 = Inr (g, [65, 66])
     \<and> z_code_flush_result \<lparr>cb_buf = [65, 66, 48, 0], cb_used = 2, cb_errors = 0\<rparr> 2 = Inr f
     \<and> cb_buf g ! cb_used g = 48 \<and> cb_buf f ! cb_used f = 65"
  using flush_loses_partial_byte[of "\<lparr>cb_buf = [65, 66, 48, 0], cb_used = 2, cb_errors = 0\<rparr>" 2]
  by (auto simp: code_ok_def code_result_def)

text \<open>Data pushed back comes out again first: after \<open>z_code_unget_result\<close> the next
  \<open>z_code_get_result\<close> of that many bytes returns them and leaves the earlier result, as long as the
  buffer is not exactly full; when it is, \<open>z_code_get_result\<close> reads one byte past its end.\<close>

theorem unget_get:
  assumes "code_ok s" "cb_used s + length d \<le> 2 ^ 30" "d \<noteq> []"
  shows "\<exists>u. z_code_unget_result fresh s d = Inr u \<and> code_result u = d @ code_result s
     \<and> (cb_used u < length (cb_buf u) \<longrightarrow>
          (\<exists>g. z_code_get_result u (length d) = Inr (g, d) \<and> code_result g = code_result s))
     \<and> (cb_used u = length (cb_buf u) \<longrightarrow> z_code_get_result u (length d) = Inl Bad_access)"
proof -
  obtain u where u: "z_code_unget_result fresh s d = Inr u" "code_ok u" "code_result u = d @ code_result s"
    by (rule unget_result_spec[OF assms(1,2)])
  have "\<exists>g. z_code_get_result u (length d) = Inr (g, d) \<and> code_result g = code_result s"
    if "cb_used u < length (cb_buf u)"
    by (rule get_result_spec[OF u(2) that, of "length d"]) (simp add: u(3))
  moreover have "0 < length d" "length d \<le> cb_used u" using assms(3) u(3) code_result_length[OF u(2)] by auto
  then have "cb_used u = length (cb_buf u) \<Longrightarrow> z_code_get_result u (length d) = Inl Bad_access"
    by (auto simp: z_code_get_result_def Let_def)
  ultimately show ?thesis using u by auto
qed

theorem unget_get_witness:
  "\<exists>u. z_code_unget_result (\<lambda>_. 9) \<lparr>cb_buf = [65, 66, 48, 0], cb_used = 2, cb_errors = 0\<rparr> [1, 2, 3] = Inr u
     \<and> code_result u = [1, 2, 3, 65, 66]"
  using unget_get[of "\<lparr>cb_buf = [65, 66, 48, 0], cb_used = 2, cb_errors = 0\<rparr>" "[1, 2, 3]" "\<lambda>_. 9"]
  by (auto simp: code_ok_def code_result_def)

end
