(* ===== verification/Code_Base64.thy ===== *)
theory Code_Base64
  imports Code
begin

section \<open>The base64 encoder and decoder\<close>

text \<open>
  \<open>src/code_base64.c\<close>: the two classes derived from \<open>ZCode\<close>, with the tables of the source, the
  line breaking of the encoder, the phases and the error tolerance of the decoder.

  After the definitions: what the encoder's output is (\<open>b64_text\<close>, RFC 4648 groups of four
  characters broken into lines), the ideal decoder on an unbounded output (\<open>dec_feed\<close>), the
  interpretations of \<open>zcode_class\<close>, and the round trip.
\<close>

unbundle bit_operations_syntax

record base64_encode = zcode +
  be_phase :: int
  be_linepos :: int
  be_linelen :: int

record base64_decode = zcode +
  bd_phase :: int
  bd_error_tolerant :: bool

subsection \<open>Encoder\<close>

definition enc_xlat :: "byte list" where
  "enc_xlat =
    [65, 66, 67, 68, 69, 70, 71, 72, 73, 74, 75, 76, 77, 78, 79, 80,
     81, 82, 83, 84, 85, 86, 87, 88, 89, 90, 97, 98, 99, 100, 101, 102,
     103, 104, 105, 106, 107, 108, 109, 110, 111, 112, 113, 114, 115, 116, 117, 118,
     119, 120, 121, 122, 48, 49, 50, 51, 52, 53, 54, 55, 56, 57, 43, 47]"

definition z_code_base64_encode_fix :: "base64_encode \<Rightarrow> bool \<Rightarrow> base64_encode result" where
  "z_code_base64_encode_fix self closure =
     rbind (buf_get self (cb_used self)) (\<lambda>v.
     rbind (buf_set self (cb_used self) (if closure then 61 else enc_xlat ! unat (v AND 0x3f))) (\<lambda>s.
     let s = s\<lparr>cb_used := cb_used s + 1\<rparr> in
     if be_linelen s \<noteq> 0
     then let wrap = be_linepos s \<ge> be_linelen s;
              s = s\<lparr>be_linepos := be_linepos s + 1\<rparr>
       in if wrap
          then rbind (buf_set s (cb_used s) 13) (\<lambda>s.
               rbind (buf_set s (cb_used s + 1) 10) (\<lambda>s.
                 Inr (s\<lparr>cb_used := cb_used s + 2, be_linepos := 0\<rparr>)))
          else Inr s
     else Inr s))"

definition z_code_calculate_growing :: "nat \<Rightarrow> nat \<Rightarrow> nat \<Rightarrow> nat" where
  "z_code_calculate_growing old_size orig_size line_length =
     (let new_coded_size = ((orig_size * 4 mod size_limit + 2) mod size_limit) div 3;
          new_size = addz old_size new_coded_size
      in if line_length \<noteq> 0
         then addz new_size ((2 * subz (addz new_size line_length) 1) mod size_limit div line_length)
         else new_size)"

text \<open>One iteration of the loop of \<open>z_code_base64_encode_transform\<close>.\<close>

definition encode_byte :: "base64_encode \<Rightarrow> byte \<Rightarrow> base64_encode result" where
  "encode_byte self c =
     rbind
      (if be_phase self = 0 then
         rbind (buf_set self (cb_used self) (drop_bit 2 c)) (\<lambda>s.
         rbind (z_code_base64_encode_fix s False) (\<lambda>s.
           buf_set s (cb_used s) (push_bit 4 (c AND 0x03))))
       else if be_phase self = 1 then
         rbind (buf_get self (cb_used self)) (\<lambda>v.
         rbind (buf_set self (cb_used self) (v OR drop_bit 4 c)) (\<lambda>s.
         rbind (z_code_base64_encode_fix s False) (\<lambda>s.
           buf_set s (cb_used s) (push_bit 2 (c AND 0x0f)))))
       else if be_phase self = 2 then
         rbind (buf_get self (cb_used self)) (\<lambda>v.
         rbind (buf_set self (cb_used self) (v OR drop_bit 6 c)) (\<lambda>s.
         rbind (z_code_base64_encode_fix s False) (\<lambda>s.
         rbind (buf_set s (cb_used s) (c AND 0x3f)) (\<lambda>s.
           z_code_base64_encode_fix s False))))
       else Inr self)
      (\<lambda>s. Inr (s\<lparr>be_phase := (be_phase s + 1) mod 3\<rparr>))"

fun encode_loop :: "bytes \<Rightarrow> base64_encode \<Rightarrow> base64_encode result" where
  "encode_loop [] self = Inr self"
| "encode_loop (c # from) self = rbind (encode_byte self c) (\<lambda>s. encode_loop from s)"

definition z_code_base64_encode_transform ::
    "(nat \<Rightarrow> byte) \<Rightarrow> base64_encode \<Rightarrow> bytes \<Rightarrow> (base64_encode \<times> bool) result" where
  "z_code_base64_encode_transform fresh self from =
     rbind (z_code_grow fresh self (size_to_int (z_code_calculate_growing (cb_used self) (length from)
              (ssize_to_size (be_linelen self))))) (\<lambda>s.
     rbind (encode_loop from s) (\<lambda>s. Inr (s, True)))"

definition z_code_base64_encode_finish :: "base64_encode \<Rightarrow> (base64_encode \<times> bool) result" where
  "z_code_base64_encode_finish self =
     rbind
      (if be_phase self = 1 then
         rbind (buf_get self (cb_used self)) (\<lambda>v.
         rbind (buf_set self (cb_used self) (v AND 0x30)) (\<lambda>s.
         rbind (z_code_base64_encode_fix s False) (\<lambda>s.
         rbind (z_code_base64_encode_fix s True) (\<lambda>s.
           z_code_base64_encode_fix s True))))
       else if be_phase self = 2 then
         rbind (buf_get self (cb_used self)) (\<lambda>v.
         rbind (buf_set self (cb_used self) (v AND 0x3c)) (\<lambda>s.
         rbind (z_code_base64_encode_fix s False) (\<lambda>s.
           z_code_base64_encode_fix s True)))
       else Inr self)
      (\<lambda>s. rbind
        (if be_linepos s \<noteq> 0
         then rbind (buf_set s (cb_used s) 13) (\<lambda>s.
              rbind (buf_set s (cb_used s + 1) 10) (\<lambda>s. Inr (s\<lparr>cb_used := cb_used s + 2\<rparr>)))
         else Inr s)
        (\<lambda>s. Inr (s\<lparr>be_linepos := 0, be_phase := 0\<rparr>, True)))"

definition z_code_base64_encode_new :: "int \<Rightarrow> int \<Rightarrow> base64_encode" where
  "z_code_base64_encode_new bufsize linelen =
     zcode.extend (z_code_init bufsize) (base64_encode.fields 0 0 linelen)"

subsection \<open>Decoder\<close>

text \<open>-3: error, -2: end of stream, -1: ignore, other: value.\<close>

definition dec_xlat :: "int list" where
  "dec_xlat =
    [-3, -3, -3, -3, -3, -3, -3, -3, -3, -1, -1, -3, -3, -1, -3, -3,
     -3, -3, -3, -3, -3, -3, -3, -3, -3, -3, -3, -3, -3, -3, -3, -3,
     -1, -3, -3, -3, -3, -3, -3, -3, -3, -3, -3, 62, -3, -3, -3, 63,
     52, 53, 54, 55, 56, 57, 58, 59, 60, 61, -3, -3, -3, -2, -3, -3,
     -3, 0, 1, 2, 3, 4, 5, 6, 7, 8, 9, 10, 11, 12, 13, 14,
     15, 16, 17, 18, 19, 20, 21, 22, 23, 24, 25, -3, -3, -3, -3, -3,
     -3, 26, 27, 28, 29, 30, 31, 32, 33, 34, 35, 36, 37, 38, 39, 40,
     41, 42, 43, 44, 45, 46, 47, 48, 49, 50, 51, -3, -3, -3, -3, -3,
     -3, -3, -3, -3, -3, -3, -3, -3, -3, -3, -3, -3, -3, -3, -3, -3,
     -3, -3, -3, -3, -3, -3, -3, -3, -3, -3, -3, -3, -3, -3, -3, -3,
     -3, -3, -3, -3, -3, -3, -3, -3, -3, -3, -3, -3, -3, -3, -3, -3,
     -3, -3, -3, -3, -3, -3, -3, -3, -3, -3, -3, -3, -3, -3, -3, -3,
     -3, -3, -3, -3, -3, -3, -3, -3, -3, -3, -3, -3, -3, -3, -3, -3,
     -3, -3, -3, -3, -3, -3, -3, -3, -3, -3, -3, -3, -3, -3, -3, -3,
     -3, -3, -3, -3, -3, -3, -3, -3, -3, -3, -3, -3, -3, -3, -3, -3,
     -3, -3, -3, -3, -3, -3, -3, -3, -3, -3, -3, -3, -3, -3, -3, -3]"

text \<open>
  One iteration of the loop of \<open>z_code_base64_decode_transform\<close>; \<open>Inr s\<close>: go on with the next
  character, \<open>Inl s\<close>: return \<open>FALSE\<close>.
\<close>

definition decode_fail :: "base64_decode \<Rightarrow> (base64_decode + base64_decode) result" where
  "decode_fail self = Inr (Inl (self\<lparr>cb_errors := cb_errors self + 1\<rparr>))"

definition decode_value :: "base64_decode \<Rightarrow> int \<Rightarrow> base64_decode result" where
  "decode_value self value =
     rbind
      (if bd_phase self = 0 then buf_set self (cb_used self) (of_int (push_bit 2 value))
       else if bd_phase self = 1 then
         rbind (buf_get self (cb_used self)) (\<lambda>v.
         rbind (buf_set self (cb_used self) (v OR of_int (drop_bit 4 value))) (\<lambda>s.
         let s = s\<lparr>cb_used := cb_used s + 1\<rparr> in
         buf_set s (cb_used s) (of_int (push_bit 4 value))))
       else if bd_phase self = 2 then
         rbind (buf_get self (cb_used self)) (\<lambda>v.
         rbind (buf_set self (cb_used self) (v OR of_int (drop_bit 2 value))) (\<lambda>s.
         let s = s\<lparr>cb_used := cb_used s + 1\<rparr> in
         buf_set s (cb_used s) (of_int (push_bit 6 value))))
       else if bd_phase self = 3 then
         rbind (buf_get self (cb_used self)) (\<lambda>v.
         rbind (buf_set self (cb_used self) (v OR of_int value)) (\<lambda>s.
           Inr (s\<lparr>cb_used := cb_used s + 1\<rparr>)))
       else Inr self)
      (\<lambda>s. Inr (s\<lparr>bd_phase := (bd_phase s + 1) mod 4\<rparr>))"

definition decode_char :: "base64_decode \<Rightarrow> byte \<Rightarrow> (base64_decode + base64_decode) result" where
  "decode_char self c =
     (let value = dec_xlat ! unat c in
      if value = -1 then Inr (Inr self)
      else if value = -2 then
        if bd_phase self = 0 \<or> bd_phase self = 1 then
          if \<not> bd_error_tolerant self then decode_fail self else Inr (Inr self)
        else if bd_phase self = 2 then Inr (Inr (self\<lparr>bd_phase := 4\<rparr>))
        else if bd_phase self = 3 \<or> bd_phase self = 4 then Inr (Inr (self\<lparr>bd_phase := 0\<rparr>))
        else Inr (Inr self)
      else if value < 0 \<or> 0x3f < value then
        if bd_error_tolerant self then Inr (Inr self) else decode_fail self
      else if bd_phase self = 4 \<and> \<not> bd_error_tolerant self then decode_fail self
      else let s = (if bd_phase self = 4 then self\<lparr>bd_phase := 0\<rparr> else self)
        in rbind (decode_value s value) (\<lambda>s. Inr (Inr s)))"

fun decode_loop :: "bytes \<Rightarrow> base64_decode \<Rightarrow> (base64_decode \<times> bool) result" where
  "decode_loop [] self = Inr (self, True)"
| "decode_loop (c # from) self =
     rbind (decode_char self c) (\<lambda>r. case r of Inl s \<Rightarrow> Inr (s, False) | Inr s \<Rightarrow> decode_loop from s)"

definition z_code_base64_decode_transform ::
    "(nat \<Rightarrow> byte) \<Rightarrow> base64_decode \<Rightarrow> bytes \<Rightarrow> (base64_decode \<times> bool) result" where
  "z_code_base64_decode_transform fresh self from =
     rbind (z_code_grow fresh self
       (size_to_int (cb_used self + (length from * 3 + 3) mod size_limit div 4 + 16))) (\<lambda>s.
     decode_loop from s)"

definition z_code_base64_decode_finish :: "base64_decode \<Rightarrow> base64_decode \<times> bool" where
  "z_code_base64_decode_finish self =
     (if bd_phase self \<noteq> 0
      then (self\<lparr>bd_phase := 0\<rparr>, bd_error_tolerant self)
      else (self, True))"

definition z_code_base64_decode_new :: "int \<Rightarrow> bool \<Rightarrow> base64_decode" where
  "z_code_base64_decode_new bufsize error_tolerant =
     zcode.extend (z_code_init bufsize) (base64_decode.fields 0 error_tolerant)"

subsection \<open>The text of an encoded input\<close>

definition enc_char :: "byte \<Rightarrow> byte" where
  "enc_char v = enc_xlat ! unat (v AND 0x3f)"

text \<open>The sextets that are complete after \<open>d\<close>, and the bits of the next one.\<close>

fun b64_open :: "bytes \<Rightarrow> bytes" where
  "b64_open [] = []"
| "b64_open [a] = [drop_bit 2 a]"
| "b64_open [a, b] = [drop_bit 2 a, push_bit 4 (a AND 0x03) OR drop_bit 4 b]"
| "b64_open (a # b # c # r) =
     drop_bit 2 a # (push_bit 4 (a AND 0x03) OR drop_bit 4 b)
     # (push_bit 2 (b AND 0x0f) OR drop_bit 6 c) # (c AND 0x3f) # b64_open r"

fun b64_part :: "bytes \<Rightarrow> byte" where
  "b64_part [] = 0"
| "b64_part [a] = push_bit 4 (a AND 0x03)"
| "b64_part [a, b] = push_bit 2 (b AND 0x0f)"
| "b64_part (a # b # c # r) = b64_part r"

definition b64_closing :: "bytes \<Rightarrow> bytes" where
  "b64_closing d =
     (if length d mod 3 = 0 then []
      else if length d mod 3 = 1 then [enc_char (b64_part d), 61, 61] else [enc_char (b64_part d), 61])"

definition b64_chars :: "bytes \<Rightarrow> bytes" where
  "b64_chars d = map enc_char (b64_open d) @ b64_closing d"

text \<open>Breaking into lines: \<open>lp\<close> characters are already on the line.\<close>

fun wrap :: "int \<Rightarrow> int \<Rightarrow> bytes \<Rightarrow> bytes" where
  "wrap L lp [] = []"
| "wrap L lp (c # cs) =
     (if L = 0 then c # wrap L lp cs
      else if lp \<ge> L then c # 13 # 10 # wrap L 0 cs else c # wrap L (lp + 1) cs)"

fun wrap_pos :: "int \<Rightarrow> int \<Rightarrow> bytes \<Rightarrow> int" where
  "wrap_pos L lp [] = lp"
| "wrap_pos L lp (c # cs) = wrap_pos L (if L = 0 then lp else if lp \<ge> L then 0 else lp + 1) cs"

definition b64_text :: "int \<Rightarrow> bytes \<Rightarrow> bytes" where
  "b64_text L d =
     wrap L 0 (b64_chars d) @ (if wrap_pos L 0 (b64_chars d) = 0 then [] else [13, 10])"

lemma wrap_append: "wrap L lp (xs @ ys) = wrap L lp xs @ wrap L (wrap_pos L lp xs) ys"
  by (induction L lp xs rule: wrap.induct) auto

lemma wrap_pos_append: "wrap_pos L lp (xs @ ys) = wrap_pos L (wrap_pos L lp xs) ys"
  by (induction L lp xs rule: wrap_pos.induct) auto

lemma wrap_0 [simp]: "wrap 0 lp cs = cs" "wrap_pos 0 lp cs = lp"
  by (induction cs) auto

lemma length_wrap_cong: "length xs = length ys \<Longrightarrow> length (wrap L lp xs) = length (wrap L lp ys)"
  by (induction xs ys arbitrary: lp rule: list_induct2) auto

lemma length_wrap_mono: "length xs \<le> length ys \<Longrightarrow> length (wrap L lp xs) \<le> length (wrap L lp ys)"
proof -
  assume "length xs \<le> length ys"
  then have "length (wrap L lp xs) = length (wrap L lp (take (length xs) ys))"
    by (intro length_wrap_cong) simp
  also have "\<dots> \<le> length (wrap L lp ys)"
    using wrap_append[of L lp "take (length xs) ys" "drop (length xs) ys"] by simp
  finally show ?thesis .
qed

lemma length_b64_open: "length (b64_open d) = 4 * (length d div 3) + length d mod 3"
  by (induction d rule: b64_open.induct) (auto simp: div_add_self1[of "3 :: nat"])

lemma b64_open_snoc:
  "length d mod 3 = 0 \<Longrightarrow> b64_open (d @ [c]) = b64_open d @ [drop_bit 2 c]"
  "length d mod 3 = 1 \<Longrightarrow> b64_open (d @ [c]) = b64_open d @ [b64_part d OR drop_bit 4 c]"
  "length d mod 3 = 2 \<Longrightarrow> b64_open (d @ [c]) = b64_open d @ [b64_part d OR drop_bit 6 c, c AND 0x3f]"
  by (induction d rule: b64_open.induct) auto

lemma b64_part_snoc:
  "length d mod 3 = 0 \<Longrightarrow> b64_part (d @ [c]) = push_bit 4 (c AND 0x03)"
  "length d mod 3 = 1 \<Longrightarrow> b64_part (d @ [c]) = push_bit 2 (c AND 0x0f)"
  by (induction d rule: b64_part.induct) auto

lemma part_masks:
  "length d mod 3 = 1 \<Longrightarrow> b64_part d AND 0x30 = b64_part d"
  "length d mod 3 = 2 \<Longrightarrow> b64_part d AND 0x3c = b64_part d"
proof -
  have a: "push_bit 4 (x AND 0x03) AND 0x30 = push_bit 4 (x AND (0x03 :: byte))" for x :: byte
    by (rule bit_word_eqI) (auto simp: bit_simps numeral_eq_Suc less_Suc_eq)
  have b: "push_bit 2 (x AND 0x0f) AND 0x3c = push_bit 2 (x AND (0x0f :: byte))" for x :: byte
    by (rule bit_word_eqI) (auto simp: bit_simps numeral_eq_Suc less_Suc_eq)
  show "length d mod 3 = 1 \<Longrightarrow> b64_part d AND 0x30 = b64_part d"
    by (induction d rule: b64_part.induct) (auto simp: a)
  show "length d mod 3 = 2 \<Longrightarrow> b64_part d AND 0x3c = b64_part d"
    by (induction d rule: b64_part.induct) (auto simp: b)
qed

subsection \<open>The encoder writes that text\<close>

definition enc_at :: "int \<Rightarrow> base64_encode \<Rightarrow> bytes \<Rightarrow> int \<Rightarrow> int \<Rightarrow> nat \<Rightarrow> bool" where
  "enc_at L s out lp ph n \<longleftrightarrow> be_linelen s = L \<and> be_linepos s = lp \<and> be_phase s = ph
     \<and> cb_used s = length out \<and> length (cb_buf s) = n \<and> length out \<le> n \<and> take (length out) (cb_buf s) = out"

lemma enc_set:
  assumes "enc_at L s out lp ph n" "length out < n"
  shows "\<exists>s'. buf_set s (cb_used s) v = Inr s' \<and> enc_at L s' out lp ph n \<and> cb_buf s' ! cb_used s' = v"
  using assms by (auto simp: buf_set_def enc_at_def)

lemma enc_get:
  assumes "enc_at L s out lp ph n" "length out < n"
  shows "buf_get s (cb_used s) = Inr (cb_buf s ! cb_used s)"
  using assms by (auto simp: buf_get_def enc_at_def)

lemma take_update_snoc:
  "i < length xs \<Longrightarrow> take (Suc i) (xs[i := v]) = take i xs @ [v]"
  by (simp add: take_Suc_conv_app_nth)

lemma enc_fix:
  assumes "enc_at L s out lp ph n" "length out + length (wrap L lp [c]) \<le> n"
    "c = (if closure then 61 else enc_char (cb_buf s ! cb_used s))"
  shows "\<exists>s'. z_code_base64_encode_fix s closure = Inr s'
     \<and> enc_at L s' (out @ wrap L lp [c]) (wrap_pos L lp [c]) ph n"
proof -
  note at = assms(1)[unfolded enc_at_def]
  have lt: "length out < n" using assms(2) by (auto split: if_splits)
  let ?s1 = "s\<lparr>cb_buf := (cb_buf s)[cb_used s := c]\<rparr>"
  have g: "buf_get s (cb_used s) = Inr (cb_buf s ! cb_used s)" using enc_get[OF assms(1) lt] .
  have s1: "buf_set s (cb_used s) c = Inr ?s1" using at lt by (simp add: buf_set_def)
  have tk: "take (Suc (length out)) (cb_buf ?s1) = out @ [c]"
    using at lt by (simp add: take_update_snoc)
  have cl: "(if closure then 61 else enc_xlat ! unat (cb_buf s ! cb_used s AND 0x3f)) = c"
    using assms(3) by (simp add: enc_char_def)
  show ?thesis
  proof (cases "L \<noteq> 0 \<and> lp \<ge> L")
    case False
    then show ?thesis
      using at lt tk s1 g cl unfolding z_code_base64_encode_fix_def
      by (auto simp: enc_at_def Let_def)
  next
    case True
    then have room: "length out + 2 < n" using assms(2) by simp
    let ?b = "((cb_buf ?s1)[Suc (length out) := 13])[Suc (Suc (length out)) := 10]"
    have "take (Suc (Suc (Suc (length out)))) ?b = out @ [c, 13, 10]"
      using room at tk by (simp add: take_update_snoc take_Suc_conv_app_nth[of "Suc (length out)"])
    then show ?thesis
      using True at lt s1 g cl room unfolding z_code_base64_encode_fix_def
      by (auto simp: enc_at_def Let_def buf_set_def)
  qed
qed

lemma wrap_nonempty: "wrap L lp (c # cs) \<noteq> []"
  by simp

declare wrap.simps(2) [simp del] wrap_pos.simps(2) [simp del]

definition enc_out :: "int \<Rightarrow> bytes \<Rightarrow> bytes" where
  "enc_out L d = wrap L 0 (map enc_char (b64_open d))"

definition enc_lp :: "int \<Rightarrow> bytes \<Rightarrow> int" where
  "enc_lp L d = wrap_pos L 0 (map enc_char (b64_open d))"

definition enc_rel :: "int \<Rightarrow> bytes \<Rightarrow> base64_encode \<Rightarrow> nat \<Rightarrow> bool" where
  "enc_rel L d s n \<longleftrightarrow> enc_at L s (enc_out L d) (enc_lp L d) (int (length d mod 3)) n
     \<and> (length d mod 3 \<noteq> 0 \<longrightarrow> length (enc_out L d) < n \<and> cb_buf s ! cb_used s = b64_part d)"

definition enc_need :: "int \<Rightarrow> bytes \<Rightarrow> nat" where
  "enc_need L d = length (enc_out L d) + (if length d mod 3 = 0 then 0 else 1)"

lemma enc_out_snoc:
  assumes "b64_open (d @ [c]) = b64_open d @ vs"
  shows "enc_out L (d @ [c]) = enc_out L d @ wrap L (enc_lp L d) (map enc_char vs)"
    "enc_lp L (d @ [c]) = wrap_pos L (enc_lp L d) (map enc_char vs)"
  using assms by (simp_all add: enc_out_def enc_lp_def wrap_append wrap_pos_append)

lemma mod3_cases: obtains "(n :: nat) mod 3 = 0" | "n mod 3 = 1" | "n mod 3 = 2"
  by linarith

lemma int_mod3: "(int (length d mod 3) + 1) mod 3 = int (length (d @ [c]) mod 3)"
  by (simp add: zmod_int mod_simps add.commute)

lemma enc_at_phase: "enc_at L s out lp ph n \<Longrightarrow> enc_at L (s\<lparr>be_phase := q\<rparr>) out lp q n"
  by (simp add: enc_at_def)

text \<open>Phases 0 and 1: one character is completed and the next one is begun.\<close>

lemma enc_complete:
  assumes "enc_at L s out lp ph n" "length (out @ wrap L lp [enc_char v]) < n"
  shows "\<exists>s1 s2 s3. buf_set s (cb_used s) v = Inr s1 \<and> z_code_base64_encode_fix s1 False = Inr s2
     \<and> buf_set s2 (cb_used s2) w = Inr s3 \<and> be_phase s3 = ph
     \<and> enc_at L s3 (out @ wrap L lp [enc_char v]) (wrap_pos L lp [enc_char v]) ph n
     \<and> cb_buf s3 ! cb_used s3 = w"
proof -
  have lt: "length out < n" using assms(2) by simp
  have fit1: "length out + length (wrap L lp [enc_char v]) \<le> n" using assms(2) by simp
  obtain s1 where s1: "buf_set s (cb_used s) v = Inr s1" "enc_at L s1 out lp ph n"
    "cb_buf s1 ! cb_used s1 = v" using enc_set[OF assms(1) lt] by blast
  obtain s2 where s2: "z_code_base64_encode_fix s1 False = Inr s2"
    "enc_at L s2 (out @ wrap L lp [enc_char v]) (wrap_pos L lp [enc_char v]) ph n"
    using enc_fix[OF s1(2) fit1, of False] s1(3) by auto
  obtain s3 where s3: "buf_set s2 (cb_used s2) w = Inr s3" "cb_buf s3 ! cb_used s3 = w"
    "enc_at L s3 (out @ wrap L lp [enc_char v]) (wrap_pos L lp [enc_char v]) ph n"
    using enc_set[OF s2(2) assms(2)] by blast
  then show ?thesis using s1(1) s2(1) by (auto simp: enc_at_def)
qed

text \<open>Phase 2: two characters are completed.\<close>

lemma enc_complete2:
  assumes "enc_at L s out lp ph n" "length (out @ wrap L lp [enc_char v, enc_char w]) \<le> n"
  shows "\<exists>s1 s2 s3 s4. buf_set s (cb_used s) v = Inr s1 \<and> z_code_base64_encode_fix s1 False = Inr s2
     \<and> buf_set s2 (cb_used s2) w = Inr s3 \<and> z_code_base64_encode_fix s3 False = Inr s4 \<and> be_phase s4 = ph
     \<and> enc_at L s4 (out @ wrap L lp [enc_char v, enc_char w]) (wrap_pos L lp [enc_char v, enc_char w]) ph n"
proof -
  let ?o = "out @ wrap L lp [enc_char v]" and ?lp = "wrap_pos L lp [enc_char v]"
  have w: "wrap L lp [enc_char v, enc_char w] = wrap L lp [enc_char v] @ wrap L ?lp [enc_char w]"
    "wrap_pos L lp [enc_char v, enc_char w] = wrap_pos L ?lp [enc_char w]"
    using wrap_append[of L lp "[enc_char v]" "[enc_char w]"]
      wrap_pos_append[of L lp "[enc_char v]" "[enc_char w]"] by simp_all
  have "length (wrap L ?lp [enc_char w]) > 0" using wrap_nonempty by simp
  then have "length ?o < n" using assms(2) unfolding w by (simp del: length_greater_0_conv)
  then obtain s1 s2 s3 where st: "buf_set s (cb_used s) v = Inr s1" "z_code_base64_encode_fix s1 False = Inr s2"
    "buf_set s2 (cb_used s2) w = Inr s3" "enc_at L s3 ?o ?lp ph n" "cb_buf s3 ! cb_used s3 = w"
    using enc_complete[OF assms(1), of v w] by blast
  have fit2: "length ?o + length (wrap L ?lp [enc_char w]) \<le> n" using assms(2) unfolding w by simp
  obtain s4 where "z_code_base64_encode_fix s3 False = Inr s4"
    "enc_at L s4 (?o @ wrap L ?lp [enc_char w]) (wrap_pos L ?lp [enc_char w]) ph n"
    using enc_fix[OF st(4) fit2, of False] st(5) by auto
  then show ?thesis using st(1-3) unfolding w append_assoc[symmetric]
    by (intro exI[of _ s1] exI[of _ s2] exI[of _ s3] exI[of _ s4]) (simp add: enc_at_def)
qed

lemma encode_byte_ok:
  assumes "enc_rel L d s n" "enc_need L (d @ [c]) \<le> n"
  shows "\<exists>s'. encode_byte s c = Inr s' \<and> enc_rel L (d @ [c]) s' n"
proof (cases rule: mod3_cases[of "length d"])
  case 1
  note o = enc_out_snoc[OF b64_open_snoc(1)[OF 1, of c], of L]
  have m: "Suc (length d) mod 3 = 1" using 1 by presburger
  have at: "enc_at L s (enc_out L d) (enc_lp L d) 0 n" using assms(1) 1 by (simp add: enc_rel_def)
  have "length (enc_out L d @ wrap L (enc_lp L d) [enc_char (drop_bit 2 c)]) < n"
    using assms(2) o m by (simp add: enc_need_def)
  then obtain s1 s2 s3 where st: "buf_set s (cb_used s) (drop_bit 2 c) = Inr s1"
    "z_code_base64_encode_fix s1 False = Inr s2"
    "buf_set s2 (cb_used s2) (push_bit 4 (c AND 3)) = Inr s3" "be_phase s3 = 0"
    "enc_at L s3 (enc_out L (d @ [c])) (enc_lp L (d @ [c])) 0 n" "cb_buf s3 ! cb_used s3 = push_bit 4 (c AND 3)"
    using enc_complete[OF at, of "drop_bit 2 c" "push_bit 4 (c AND 3)"] o by auto
  have "be_phase s = 0" using at by (simp add: enc_at_def)
  then have "encode_byte s c = Inr (s3\<lparr>be_phase := 1\<rparr>)" using st by (simp add: encode_byte_def)
  moreover have "enc_rel L (d @ [c]) (s3\<lparr>be_phase := 1\<rparr>) n"
    using enc_at_phase[OF st(5), of 1] st(6) m b64_part_snoc(1)[OF 1] assms(2)
    by (simp add: enc_rel_def enc_need_def)
  ultimately show ?thesis by blast
next
  case 2
  note o = enc_out_snoc[OF b64_open_snoc(2)[OF 2, of c], of L]
  have m: "Suc (length d) mod 3 = 2" using 2 by presburger
  have at: "enc_at L s (enc_out L d) (enc_lp L d) 1 n" and lt: "length (enc_out L d) < n"
    and part: "cb_buf s ! cb_used s = b64_part d" using assms(1) 2 by (simp_all add: enc_rel_def)
  have "length (enc_out L d @ wrap L (enc_lp L d) [enc_char (b64_part d OR drop_bit 4 c)]) < n"
    using assms(2) o m by (simp add: enc_need_def)
  then obtain s1 s2 s3 where st: "buf_set s (cb_used s) (b64_part d OR drop_bit 4 c) = Inr s1"
    "z_code_base64_encode_fix s1 False = Inr s2"
    "buf_set s2 (cb_used s2) (push_bit 2 (c AND 15)) = Inr s3" "be_phase s3 = 1"
    "enc_at L s3 (enc_out L (d @ [c])) (enc_lp L (d @ [c])) 1 n" "cb_buf s3 ! cb_used s3 = push_bit 2 (c AND 15)"
    using enc_complete[OF at, of "b64_part d OR drop_bit 4 c" "push_bit 2 (c AND 15)"] o by auto
  have "be_phase s = 1" using at by (simp add: enc_at_def)
  then have "encode_byte s c = Inr (s3\<lparr>be_phase := 2\<rparr>)"
    using st enc_get[OF at lt] part by (simp add: encode_byte_def)
  moreover have "enc_rel L (d @ [c]) (s3\<lparr>be_phase := 2\<rparr>) n"
    using enc_at_phase[OF st(5), of 2] st(6) m b64_part_snoc(2)[OF 2] assms(2)
    by (simp add: enc_rel_def enc_need_def)
  ultimately show ?thesis by blast
next
  case 3
  note o = enc_out_snoc[OF b64_open_snoc(3)[OF 3, of c], of L]
  have m: "Suc (length d) mod 3 = 0" using 3 by presburger
  have at: "enc_at L s (enc_out L d) (enc_lp L d) 2 n" and lt: "length (enc_out L d) < n"
    and part: "cb_buf s ! cb_used s = b64_part d" using assms(1) 3 by (simp_all add: enc_rel_def)
  have "length (enc_out L d @ wrap L (enc_lp L d) [enc_char (b64_part d OR drop_bit 6 c), enc_char (c AND 63)]) \<le> n"
    using assms(2) o m by (simp add: enc_need_def)
  then obtain s1 s2 s3 s4 where st: "buf_set s (cb_used s) (b64_part d OR drop_bit 6 c) = Inr s1"
    "z_code_base64_encode_fix s1 False = Inr s2" "buf_set s2 (cb_used s2) (c AND 63) = Inr s3"
    "z_code_base64_encode_fix s3 False = Inr s4" "be_phase s4 = 2"
    "enc_at L s4 (enc_out L (d @ [c])) (enc_lp L (d @ [c])) 2 n"
    using enc_complete2[OF at, of "b64_part d OR drop_bit 6 c" "c AND 63"] o by auto
  have "be_phase s = 2" using at by (simp add: enc_at_def)
  then have "encode_byte s c = Inr (s4\<lparr>be_phase := 0\<rparr>)"
    using st enc_get[OF at lt] part by (simp add: encode_byte_def)
  moreover have "enc_rel L (d @ [c]) (s4\<lparr>be_phase := 0\<rparr>) n"
    using enc_at_phase[OF st(6), of 0] m by (simp add: enc_rel_def)
  ultimately show ?thesis by blast
qed

text \<open>The room that the encoding of \<open>m\<close> bytes takes, padding included.\<close>

definition enc_cap :: "int \<Rightarrow> nat \<Rightarrow> nat" where
  "enc_cap L m = length (wrap L 0 (replicate (4 * ((m + 2) div 3)) 0))"

lemma enc_cap_0: "enc_cap 0 m = 4 * ((m + 2) div 3)"
  by (simp add: enc_cap_def)

lemma enc_cap_mono: "m \<le> m' \<Longrightarrow> enc_cap L m \<le> enc_cap L m'"
  unfolding enc_cap_def by (intro length_wrap_mono) (simp add: div_le_mono)

lemma div3: "(m + 2) div 3 = m div 3 + (if m mod 3 = 0 then 0 else 1 :: nat)"
  by presburger

lemma enc_need_le: "enc_need L d \<le> enc_cap L (length d)"
proof (cases "length d mod 3 = 0")
  case True
  then show ?thesis unfolding enc_need_def enc_cap_def enc_out_def
    by (simp add: length_b64_open div3, intro length_wrap_mono) (simp add: length_b64_open)
next
  case False
  have "Suc (length (enc_out L d)) \<le> length (wrap L 0 (map enc_char (b64_open d) @ [0]))"
    using wrap_nonempty[of L "enc_lp L d" 0 "[]"] unfolding wrap_append enc_out_def enc_lp_def
    by (cases "wrap L (wrap_pos L 0 (map enc_char (b64_open d))) [0]") auto
  also have "\<dots> \<le> enc_cap L (length d)"
  proof -
    have "Suc (4 * (length d div 3) + length d mod 3) \<le> 4 * ((length d + 2) div 3)"
      unfolding div3 using False mod_less_divisor[of "3 :: nat" "length d"] by simp
    then show ?thesis unfolding enc_cap_def by (intro length_wrap_mono) (simp add: length_b64_open)
  qed
  finally show ?thesis using False by (simp add: enc_need_def)
qed

lemma encode_loop_ok:
  assumes "enc_rel L d s n" "enc_cap L (length d + length xs) \<le> n"
  shows "\<exists>s'. encode_loop xs s = Inr s' \<and> enc_rel L (d @ xs) s' n"
  using assms
proof (induction xs arbitrary: d s)
  case Nil
  then show ?case by simp
next
  case (Cons c xs)
  have "enc_need L (d @ [c]) \<le> n"
    using enc_need_le[of L "d @ [c]"] enc_cap_mono[of "length (d @ [c])" "length d + length (c # xs)" L]
      Cons.prems(2) by simp
  then obtain s1 where s1: "encode_byte s c = Inr s1" "enc_rel L (d @ [c]) s1 n"
    using encode_byte_ok[OF Cons.prems(1)] by blast
  then show ?case using Cons.IH[OF s1(2)] Cons.prems(2) by simp
qed

lemma enc_fixes:
  assumes "enc_at L s out lp ph n" "length (out @ wrap L lp (replicate k 61)) \<le> n" "k \<le> 2"
  shows "\<exists>s'. (case k of 0 \<Rightarrow> Inr s | Suc 0 \<Rightarrow> z_code_base64_encode_fix s True
       | _ \<Rightarrow> rbind (z_code_base64_encode_fix s True) (\<lambda>s. z_code_base64_encode_fix s True)) = Inr s'
     \<and> enc_at L s' (out @ wrap L lp (replicate k 61)) (wrap_pos L lp (replicate k 61)) ph n"
proof -
  consider "k = 0" | "k = 1" | "k = 2" using assms(3) by linarith
  then show ?thesis
  proof cases
    case 1
    then show ?thesis using assms by simp
  next
    case 2
    then show ?thesis using enc_fix[OF assms(1), of 61 True] assms(2) by simp
  next
    case 3
    have w: "wrap L lp [61, 61] = wrap L lp [61] @ wrap L (wrap_pos L lp [61]) [61]"
      "wrap_pos L lp [61, 61] = wrap_pos L (wrap_pos L lp [61]) [61]"
      using wrap_append[of L lp "[61]" "[61]"] wrap_pos_append[of L lp "[61]" "[61]"] by simp_all
    have len: "length out + length (wrap L lp [61]) \<le> n"
      "length (out @ wrap L lp [61]) + length (wrap L (wrap_pos L lp [61]) [61]) \<le> n"
      using assms(2) 3 w by (simp_all add: numeral_2_eq_2)
    obtain s1 where s1: "z_code_base64_encode_fix s True = Inr s1"
      "enc_at L s1 (out @ wrap L lp [61]) (wrap_pos L lp [61]) ph n"
      using enc_fix[OF assms(1) len(1), of True] by auto
    obtain s2 where s2: "z_code_base64_encode_fix s1 True = Inr s2"
      "enc_at L s2 ((out @ wrap L lp [61]) @ wrap L (wrap_pos L lp [61]) [61])
         (wrap_pos L (wrap_pos L lp [61]) [61]) ph n"
      using enc_fix[OF s1(2) len(2), of True] by auto
    then show ?thesis using s1(1) 3 w by (simp add: numeral_2_eq_2)
  qed
qed

lemma enc_close:
  assumes "enc_at L s out lp ph n" "length (out @ wrap L lp (c # replicate k 61)) \<le> n" "k \<le> 2"
    "cb_buf s ! cb_used s AND m = v" "c = enc_char v"
  shows "\<exists>s1 s2 s3. buf_set s (cb_used s) (cb_buf s ! cb_used s AND m) = Inr s1
     \<and> z_code_base64_encode_fix s1 False = Inr s2
     \<and> (case k of 0 \<Rightarrow> Inr s2 | Suc 0 \<Rightarrow> z_code_base64_encode_fix s2 True
       | _ \<Rightarrow> rbind (z_code_base64_encode_fix s2 True) (\<lambda>s. z_code_base64_encode_fix s True)) = Inr s3
     \<and> enc_at L s3 (out @ wrap L lp (c # replicate k 61)) (wrap_pos L lp (c # replicate k 61)) ph n"
proof -
  have w: "wrap L lp (c # r) = wrap L lp [c] @ wrap L (wrap_pos L lp [c]) r"
    "wrap_pos L lp (c # r) = wrap_pos L (wrap_pos L lp [c]) r" for r
    using wrap_append[of L lp "[c]" r] wrap_pos_append[of L lp "[c]" r] by simp_all
  have "0 < length (wrap L lp [c])" using wrap_nonempty by blast
  then have lt: "length out < n" "length out + length (wrap L lp [c]) \<le> n"
    "length ((out @ wrap L lp [c]) @ wrap L (wrap_pos L lp [c]) (replicate k 61)) \<le> n"
    using assms(2) w[of "replicate k 61"] by (simp_all del: length_greater_0_conv)
  obtain s1 where s1: "buf_set s (cb_used s) v = Inr s1" "enc_at L s1 out lp ph n"
    "cb_buf s1 ! cb_used s1 = v" using enc_set[OF assms(1) lt(1)] by blast
  obtain s2 where s2: "z_code_base64_encode_fix s1 False = Inr s2"
    "enc_at L s2 (out @ wrap L lp [c]) (wrap_pos L lp [c]) ph n"
    using enc_fix[OF s1(2) lt(2), of False] s1(3) assms(5) by auto
  obtain s3 where "(case k of 0 \<Rightarrow> Inr s2 | Suc 0 \<Rightarrow> z_code_base64_encode_fix s2 True
       | _ \<Rightarrow> rbind (z_code_base64_encode_fix s2 True) (\<lambda>s. z_code_base64_encode_fix s True)) = Inr s3"
     "enc_at L s3 (out @ wrap L lp (c # replicate k 61)) (wrap_pos L lp (c # replicate k 61)) ph n"
    using enc_fixes[OF s2(2) lt(3) assms(3)] unfolding w[of "replicate k 61"] append_assoc by blast
  then show ?thesis using s1(1) s2(1) unfolding assms(4) by blast
qed


text \<open>The input so far is encoded, and the buffer can hold what the next calls need.\<close>

definition enc_inv :: "int \<Rightarrow> nat \<Rightarrow> bytes \<Rightarrow> base64_encode \<Rightarrow> bool" where
  "enc_inv L cap d s \<longleftrightarrow> enc_rel L d s (length (cb_buf s)) \<and> 0 < length (cb_buf s)
     \<and> length (cb_buf s) < 2 ^ 31 \<and> cap \<le> length (cb_buf s)
     \<and> (L = 0 \<longrightarrow> 4 dvd length (cb_buf s) \<and> enc_cap 0 (length d) \<le> length (cb_buf s))"

definition enc_fits :: "int \<Rightarrow> nat \<Rightarrow> bytes \<Rightarrow> nat \<Rightarrow> bool" where
  "enc_fits L cap d k \<longleftrightarrow> (L = 0 \<and> length d + k < 2 ^ 28)
     \<or> (0 < L \<and> L < 2 ^ 31 \<and> length d + k < 2 ^ 25 \<and> enc_cap L (length d + k) + 2 \<le> cap)"

lemma length_wrap_le: "length (wrap L lp cs) \<le> 3 * length cs"
  by (induction L lp cs rule: wrap.induct) (auto simp: wrap.simps)

lemma length_enc_out: "length (enc_out L d) \<le> 3 * (4 * (length d div 3) + length d mod 3)"
  using length_wrap_le[of L 0 "map enc_char (b64_open d)"] by (simp add: enc_out_def length_b64_open)

lemma growing_0: "z_code_calculate_growing u k 0 = u + (4 * k + 2) div 3" if "u < 2 ^ 32" "k < 2 ^ 32"
  using that by (simp add: z_code_calculate_growing_def addz_def mult.commute)

lemma growing_lines:
  assumes "u < 2 ^ 28" "k < 2 ^ 25" "0 < l" "l < 2 ^ 31"
  shows "z_code_calculate_growing u k l \<le> 2 ^ 30"
proof -
  define S where "S = u + (4 * k + 2) div 3"
  have S: "S < 2 ^ 28 + 2 ^ 26" using assms(1,2) by (simp add: S_def)
  have s: "addz u (((k * 4) mod size_limit + 2) mod size_limit div 3) = S"
    using assms by (simp add: addz_def S_def mult.commute)
  have b: "2 * subz (addz S l) 1 mod size_limit = 2 * (S + l - 1)"
    using S assms(3,4) by (simp add: addz_small subz_le)
  have "2 * (S + l - 1) \<le> (2 * S + 2) * l"
  proof (cases l)
    case (Suc j)
    then show ?thesis by (simp add: algebra_simps)
  qed (use assms in simp)
  then have d: "2 * (S + l - 1) div l \<le> 2 * S + 2"
    using assms(3) by (metis div_le_mono nonzero_mult_div_cancel_right not_gr_zero)
  then have "addz S (2 * (S + l - 1) div l) = S + 2 * (S + l - 1) div l"
    using S by (intro addz_small) simp
  then show ?thesis using d S assms(3) s b
    by (simp add: z_code_calculate_growing_def Let_def)
qed

lemma enc_rel_grow:
  assumes "enc_rel L d s (length (cb_buf s))" "take (length (cb_buf s)) b = cb_buf s"
  shows "enc_rel L d (s\<lparr>cb_buf := b\<rparr>) (length b)"
proof -
  obtain r where r: "b = cb_buf s @ r" using assms(2) by (metis append_take_drop_id)
  show ?thesis using assms(1) unfolding r by (auto simp: enc_rel_def enc_at_def nth_append)
qed

lemma enc_rel_used: "enc_rel L d s n \<Longrightarrow> cb_used s = length (enc_out L d) \<and> be_linelen s = L"
  by (simp add: enc_rel_def enc_at_def)

lemma length_enc_out_0: "length (enc_out 0 d) = 4 * (length d div 3) + length d mod 3"
  by (simp add: enc_out_def length_b64_open)

text \<open>The size asked for is enough when lines are not broken and the buffer size is a multiple of 4.\<close>

lemma growing_enough:
  fixes m k n :: nat
  assumes "4 dvd n" "4 * (m div 3) + m mod 3 + (4 * k + 2) div 3 \<le> n" "4 * ((m + 2) div 3) \<le> n"
  shows "4 * ((m + k + 2) div 3) \<le> n"
proof -
  define q r p t where "q = m div 3" and "r = m mod 3" and "p = k div 3" and "t = n div 4"
  define x where "x = k mod 3"
  have m: "m = 3 * q + r" and k: "k = 3 * p + x" and n: "n = 4 * t"
    using assms(1) by (simp_all add: q_def r_def p_def t_def x_def)
  have le: "4 * q + r + (4 * (3 * p + x) + 2) div 3 \<le> 4 * t"
    using assms(2) unfolding q_def[symmetric] r_def[symmetric] k n by simp
  have "(4 * (3 * p + x) + 2) div 3 = 4 * p + (4 * x + 2) div 3" by simp
  moreover have "(3 * q + r + (3 * p + x) + 2) div 3 = q + p + (r + x + 2) div 3"
    using div_mult_self4[of 3 "q + p" "r + x + 2"] by (simp add: algebra_simps)
  ultimately show ?thesis unfolding m k n using le
    by (cases rule: mod3_cases[of m]; cases rule: mod3_cases[of k]) (auto simp: r_def x_def, presburger+)
qed

lemma encode_request:
  assumes "enc_inv L cap d s" "enc_fits L cap d k"
  shows "size_to_int (z_code_calculate_growing (cb_used s) k (ssize_to_size (be_linelen s))) \<le> 2 ^ 30"
    and "L = 0 \<Longrightarrow> size_to_int (z_code_calculate_growing (cb_used s) k (ssize_to_size (be_linelen s)))
          = int (4 * (length d div 3) + length d mod 3 + (4 * k + 2) div 3)"
proof -
  have rel: "cb_used s = length (enc_out L d)" "be_linelen s = L"
    using assms(1) by (auto simp: enc_inv_def dest: enc_rel_used)
  show "size_to_int (z_code_calculate_growing (cb_used s) k (ssize_to_size (be_linelen s)))
      = int (4 * (length d div 3) + length d mod 3 + (4 * k + 2) div 3)" if L: "L = 0"
  proof -
    have fit: "length d + k < 2 ^ 28" using assms(2) L by (simp add: enc_fits_def)
    have len: "length (enc_out 0 d) = 4 * (length d div 3) + length d mod 3"
      by (rule length_enc_out_0)
    have "3 * (length d div 3) + length d mod 3 = length d" by simp
    then have "4 * (length d div 3) + length d mod 3 < 2 ^ 30" using fit by simp
    then show ?thesis using fit L rel len
      by (simp add: growing_0 ssize_to_size_def size_to_int_small)
  qed
  note L0 = this
  show "size_to_int (z_code_calculate_growing (cb_used s) k (ssize_to_size (be_linelen s))) \<le> 2 ^ 30"
  proof (cases "L = 0")
    case True
    then have "length d + k < 2 ^ 28" using assms(2) by (simp add: enc_fits_def)
    moreover have "3 * (length d div 3) + length d mod 3 = length d" by simp
    moreover have "3 * ((4 * k + 2) div 3) \<le> 4 * k + 2" by simp
    ultimately have "4 * (length d div 3) + length d mod 3 + (4 * k + 2) div 3 \<le> 2 ^ 30" by simp
    then show ?thesis unfolding L0[OF True] by (metis of_nat_le_iff of_nat_numeral of_nat_power)
  next
    case False
    then have fit: "0 < L" "L < 2 ^ 31" "length d + k < 2 ^ 25"
      using assms(2) by (auto simp: enc_fits_def)
    have "ssize_to_size L = nat L" using fit by (intro ssize_to_size_nonneg) auto
    moreover have "length (enc_out L d) < 2 ^ 28"
    proof -
      have "3 * (length d div 3) + length d mod 3 = length d" by simp
      then show ?thesis using length_enc_out[of L d] fit(3) by simp
    qed
    ultimately have "z_code_calculate_growing (cb_used s) k (ssize_to_size (be_linelen s)) \<le> 2 ^ 30"
      using rel fit by (simp only:) (intro growing_lines, auto)
    then show ?thesis by (subst size_to_int_small) auto
  qed
qed

lemma encode_transform_ok:
  assumes "enc_inv L cap d s" "enc_fits L cap d (length xs)"
  shows "\<exists>s'. z_code_base64_encode_transform fresh s xs = Inr (s', True) \<and> enc_inv L cap (d @ xs) s'"
proof -
  note inv = assms(1)[unfolded enc_inv_def]
  define req where "req = size_to_int (z_code_calculate_growing (cb_used s) (length xs)
    (ssize_to_size (be_linelen s)))"
  have le: "req \<le> 2 ^ 30" unfolding req_def by (rule encode_request(1)[OF assms])
  obtain b where b: "z_code_grow fresh s req = Inr (s\<lparr>cb_buf := b\<rparr>)"
    "take (length (cb_buf s)) b = cb_buf s" "req \<le> int (length b)" "length b < 2 ^ 31"
    "length (cb_buf s) dvd length b"
    using code_grow_ok[OF _ _ le, of s] inv by blast
  have rel: "enc_rel L d (s\<lparr>cb_buf := b\<rparr>) (length b)" using inv b(2) by (intro enc_rel_grow) auto
  have bl: "length (cb_buf s) \<le> length b" using b(2) by (metis length_take min.bounded_iff order_refl)
  have cap: "enc_cap L (length d + length xs) \<le> length b"
  proof (cases "L = 0")
    case True
    have "4 * (length d div 3) + length d mod 3 + (4 * length xs + 2) div 3 \<le> length b"
      using encode_request(2)[OF assms True] b(3) unfolding req_def by linarith
    moreover have "4 dvd length b" using inv True b(5) dvd_trans by blast
    moreover have "4 * ((length d + 2) div 3) \<le> length b" using inv True bl by (simp add: enc_cap_0)
    ultimately show ?thesis unfolding True enc_cap_0 by (intro growing_enough)
  next
    case False
    then show ?thesis using assms(2) inv bl by (auto simp: enc_fits_def)
  qed
  obtain s' where s': "encode_loop xs (s\<lparr>cb_buf := b\<rparr>) = Inr s'" "enc_rel L (d @ xs) s' (length b)"
    using encode_loop_ok[OF rel cap] by blast
  have "length (cb_buf s') = length b" using s'(2) by (simp add: enc_rel_def enc_at_def)
  then have "enc_inv L cap (d @ xs) s'"
    using s'(2) b(4,5) inv bl cap by (auto simp: enc_inv_def)
  then show ?thesis using s'(1) b(1) by (simp add: z_code_base64_encode_transform_def req_def[symmetric])
qed

lemma length_b64_chars: "length (b64_chars d) = 4 * ((length d + 2) div 3)"
  unfolding div3 by (cases rule: mod3_cases[of "length d"])
    (simp_all add: b64_chars_def b64_closing_def length_b64_open)

lemma length_wrap_chars: "length (wrap L 0 (b64_chars d)) = enc_cap L (length d)"
  unfolding enc_cap_def by (intro length_wrap_cong) (simp add: length_b64_chars)

lemma encode_closing:
  assumes "enc_inv L cap d s" "enc_fits L cap d 0"
  shows "\<exists>s'. (if be_phase s = 1 then
         rbind (buf_get s (cb_used s)) (\<lambda>v.
         rbind (buf_set s (cb_used s) (v AND 0x30)) (\<lambda>s.
         rbind (z_code_base64_encode_fix s False) (\<lambda>s.
         rbind (z_code_base64_encode_fix s True) (\<lambda>s.
           z_code_base64_encode_fix s True))))
       else if be_phase s = 2 then
         rbind (buf_get s (cb_used s)) (\<lambda>v.
         rbind (buf_set s (cb_used s) (v AND 0x3c)) (\<lambda>s.
         rbind (z_code_base64_encode_fix s False) (\<lambda>s.
           z_code_base64_encode_fix s True)))
       else Inr s) = Inr s'
     \<and> enc_at L s' (wrap L 0 (b64_chars d)) (wrap_pos L 0 (b64_chars d)) (int (length d mod 3))
          (length (cb_buf s))"
proof -
  note inv = assms(1)[unfolded enc_inv_def]
  define n where "n = length (cb_buf s)"
  have rel: "enc_rel L d s n" using inv by (simp add: n_def)
  have at: "enc_at L s (enc_out L d) (enc_lp L d) (int (length d mod 3)) n"
    using rel by (simp add: enc_rel_def)
  have ph: "be_phase s = int (length d mod 3)" using at by (simp add: enc_at_def)
  have room: "length (wrap L 0 (b64_chars d)) \<le> n"
    using assms(2) inv by (auto simp: length_wrap_chars n_def enc_fits_def)
  have tx: "wrap L 0 (b64_chars d) = enc_out L d @ wrap L (enc_lp L d) (b64_closing d)"
    "wrap_pos L 0 (b64_chars d) = wrap_pos L (enc_lp L d) (b64_closing d)"
    by (simp_all add: b64_chars_def wrap_append wrap_pos_append enc_out_def enc_lp_def)
  have part: "length d mod 3 \<noteq> 0 \<Longrightarrow> cb_buf s ! cb_used s = b64_part d \<and> length (enc_out L d) < n"
    using rel by (simp add: enc_rel_def)
  show ?thesis
  proof (cases rule: mod3_cases[of "length d"])
    case 1
    then show ?thesis using at ph tx by (simp add: b64_closing_def n_def)
  next
    case 2
    then have c: "b64_closing d = enc_char (b64_part d) # replicate 2 61"
      by (simp add: b64_closing_def numeral_2_eq_2)
    have p: "cb_buf s ! cb_used s = b64_part d" "length (enc_out L d) < n" using part 2 by auto
    have m: "cb_buf s ! cb_used s AND 0x30 = b64_part d" using p part_masks(1)[OF 2] by simp
    show ?thesis
      using enc_close[OF at room[unfolded tx c] _ m refl] enc_get[OF at p(2)] ph 2
      by (auto simp: tx c n_def numeral_2_eq_2)
  next
    case 3
    then have c: "b64_closing d = enc_char (b64_part d) # replicate 1 61"
      by (simp add: b64_closing_def)
    have p: "cb_buf s ! cb_used s = b64_part d" "length (enc_out L d) < n" using part 3 by auto
    have m: "cb_buf s ! cb_used s AND 0x3c = b64_part d" using p part_masks(2)[OF 3] by simp
    show ?thesis
      using enc_close[OF at room[unfolded tx c] _ m refl] enc_get[OF at p(2)] ph 3
      by (auto simp: tx c n_def)
  qed
qed

lemma encode_finish_ok:
  assumes "enc_inv L cap d s" "enc_fits L cap d 0"
  shows "\<exists>s'. z_code_base64_encode_finish s = Inr (s', True) \<and> code_result s' = b64_text L d"
proof -
  obtain s1 where s1: "enc_at L s1 (wrap L 0 (b64_chars d)) (wrap_pos L 0 (b64_chars d))
      (int (length d mod 3)) (length (cb_buf s))"
    "z_code_base64_encode_finish s = rbind
        (if be_linepos s1 \<noteq> 0
         then rbind (buf_set s1 (cb_used s1) 13) (\<lambda>s.
              rbind (buf_set s (cb_used s + 1) 10) (\<lambda>s. Inr (s\<lparr>cb_used := cb_used s + 2\<rparr>)))
         else Inr s1)
        (\<lambda>s. Inr (s\<lparr>be_linepos := 0, be_phase := 0\<rparr>, True))"
    using encode_closing[OF assms] unfolding z_code_base64_encode_finish_def by auto
  define out where "out = wrap L 0 (b64_chars d)"
  define lp where "lp = wrap_pos L 0 (b64_chars d)"
  note at = s1(1)[unfolded enc_at_def, folded out_def lp_def]
  show ?thesis
  proof (cases "lp = 0")
    case True
    then show ?thesis using at s1(2)
      by (simp add: code_result_def b64_text_def out_def[symmetric] lp_def[symmetric])
  next
    case False
    then have "L \<noteq> 0" by (auto simp: lp_def)
    then have room: "length out + 2 \<le> length (cb_buf s)"
      using assms by (auto simp: enc_fits_def enc_inv_def out_def length_wrap_chars)
    let ?b = "((cb_buf s1)[length out := 13])[Suc (length out) := 10]"
    have "take (Suc (Suc (length out))) ?b = out @ [13, 10]"
      using room at by (simp add: take_update_snoc take_Suc_conv_app_nth[of "length out"])
    then show ?thesis using False at s1(2) room
      by (simp add: buf_set_def code_result_def b64_text_def out_def[symmetric] lp_def[symmetric])
  qed
qed

lemma encode_new_inv:
  assumes "0 < bufsize" "bufsize < 2 ^ 31" "L = 0 \<Longrightarrow> 4 dvd bufsize" "int cap \<le> bufsize"
  shows "enc_inv L cap [] (z_code_base64_encode_new bufsize L)"
proof -
  have "nat bufsize < 2 ^ 31" "0 < nat bufsize" "cap \<le> nat bufsize" using assms by auto
  moreover have "L = 0 \<Longrightarrow> 4 dvd nat bufsize" using assms(1,3) of_nat_dvd_iff[of 4 "nat bufsize", where ?'a = int] by simp
  ultimately show ?thesis using assms(1)
    by (simp add: enc_inv_def z_code_base64_encode_new_def z_code_init_def Let_def zcode.extend_def
        base64_encode.fields_def enc_rel_def enc_at_def enc_out_def enc_lp_def enc_cap_0)
qed

interpretation b64enc: zcode_class "enc_inv L cap" "z_code_base64_encode_transform fresh"
    "\<lambda>d xs. (d @ xs, True)" "enc_fits L cap" for L cap fresh
proof unfold_locales
  fix d xs :: bytes and s assume "enc_inv L cap d s" "enc_fits L cap d (length xs)"
  then show "\<exists>s'. z_code_base64_encode_transform fresh s xs = Inr (s', snd (d @ xs, True))
      \<and> enc_inv L cap (fst (d @ xs, True)) s'"
    using encode_transform_ok by simp
next
  fix d :: bytes and xs :: bytes and n assume "enc_fits L cap d (length xs + n)"
  moreover have "enc_cap L (length d + length xs) \<le> enc_cap L (length d + (length xs + n))"
    by (rule enc_cap_mono) simp
  ultimately show "enc_fits L cap d (length xs)" by (auto simp: enc_fits_def)
qed (auto simp: enc_fits_def add.assoc)

subsection \<open>The decoder on an unbounded output\<close>

record dec_state =
  ds_out :: bytes
  ds_phase :: int
  ds_part :: byte
  ds_errors :: int

definition dec_value :: "dec_state \<Rightarrow> int \<Rightarrow> dec_state" where
  "dec_value a v =
     (let a' = (if ds_phase a = 0 then a\<lparr>ds_part := of_int (push_bit 2 v)\<rparr>
          else if ds_phase a = 1
          then a\<lparr>ds_out := ds_out a @ [ds_part a OR of_int (drop_bit 4 v)], ds_part := of_int (push_bit 4 v)\<rparr>
          else if ds_phase a = 2
          then a\<lparr>ds_out := ds_out a @ [ds_part a OR of_int (drop_bit 2 v)], ds_part := of_int (push_bit 6 v)\<rparr>
          else a\<lparr>ds_out := ds_out a @ [ds_part a OR of_int v]\<rparr>)
      in a'\<lparr>ds_phase := (ds_phase a + 1) mod 4\<rparr>)"

text \<open>The next state and whether decoding goes on; \<open>t\<close> is the error tolerance.\<close>

definition dec_step :: "bool \<Rightarrow> dec_state \<Rightarrow> byte \<Rightarrow> dec_state \<times> bool" where
  "dec_step t a c =
     (let v = dec_xlat ! unat c; err = (a\<lparr>ds_errors := ds_errors a + 1\<rparr>, False) in
      if v = -1 then (a, True)
      else if v = -2 then
        if ds_phase a \<le> 1 then (if t then (a, True) else err)
        else (a\<lparr>ds_phase := (if ds_phase a = 2 then 4 else 0)\<rparr>, True)
      else if v < 0 then (if t then (a, True) else err)
      else if ds_phase a = 4 then (if t then (dec_value (a\<lparr>ds_phase := 0\<rparr>) v, True) else err)
      else (dec_value a v, True))"

fun dec_feed :: "bool \<Rightarrow> dec_state \<Rightarrow> bytes \<Rightarrow> dec_state \<times> bool" where
  "dec_feed t a [] = (a, True)"
| "dec_feed t a (c # cs) =
     (let r = dec_step t a c in if snd r then dec_feed t (fst r) cs else (fst r, False))"

definition dec_inv :: "bool \<Rightarrow> dec_state \<Rightarrow> base64_decode \<Rightarrow> bool" where
  "dec_inv t a s \<longleftrightarrow> bd_error_tolerant s = t \<and> bd_phase s = ds_phase a \<and> 0 \<le> ds_phase a \<and> ds_phase a \<le> 4
     \<and> cb_errors s = ds_errors a \<and> cb_used s = length (ds_out a) \<and> length (ds_out a) \<le> length (cb_buf s)
     \<and> take (length (ds_out a)) (cb_buf s) = ds_out a
     \<and> (ds_phase a \<in> {1, 2, 3} \<longrightarrow> length (ds_out a) < length (cb_buf s)
          \<and> cb_buf s ! length (ds_out a) = ds_part a)
     \<and> 0 < length (cb_buf s) \<and> length (cb_buf s) < 2 ^ 31"

definition phase_pot :: "int \<Rightarrow> nat" where
  "phase_pot ph = (if ph = 1 then 3 else if ph = 2 then 2 else if ph = 3 then 1 else 0)"

text \<open>Room for \<open>k\<close> more characters.\<close>

definition dec_room :: "dec_state \<Rightarrow> base64_decode \<Rightarrow> nat \<Rightarrow> bool" where
  "dec_room a s k \<longleftrightarrow> 4 * length (ds_out a) + 3 * k + phase_pot (ds_phase a) + 8 \<le> 4 * length (cb_buf s)"

lemma length_dec_xlat: "length dec_xlat = 256"
  by (simp add: dec_xlat_def)

lemma dec_xlat_le_63: "dec_xlat ! unat (c :: byte) \<le> 63"
proof -
  have "list_all (\<lambda>v. v \<le> 63) dec_xlat" by (simp add: dec_xlat_def)
  moreover have "unat c < length dec_xlat" using unat_byte_less[of c] by (simp add: length_dec_xlat)
  ultimately show ?thesis by (auto simp: list_all_length)
qed

lemma decode_value_ok:
  assumes "dec_inv t a s" "dec_room a s (Suc k)" "ds_phase a \<noteq> 4"
  shows "\<exists>s'. decode_value s v = Inr s' \<and> dec_inv t (dec_value a v) s' \<and> dec_room (dec_value a v) s' k"
proof -
  have room: "Suc (Suc (length (ds_out a))) \<le> length (cb_buf s)"
    using assms(2) by (auto simp: dec_room_def)
  have "ds_phase a = 0 \<or> ds_phase a = 1 \<or> ds_phase a = 2 \<or> ds_phase a = 3"
    using assms(1,3) by (auto simp: dec_inv_def)
  then show ?thesis
    using assms(1,2) room
    by (elim disjE)
       (auto simp: dec_inv_def dec_room_def phase_pot_def decode_value_def dec_value_def buf_set_def
          buf_get_def take_update_snoc Let_def)
qed

lemma decode_char_ok:
  assumes "dec_inv t a s" "dec_room a s (Suc k)"
  shows "\<exists>s'. decode_char s c = Inr (if snd (dec_step t a c) then Inr s' else Inl s')
     \<and> dec_inv t (fst (dec_step t a c)) s' \<and> (snd (dec_step t a c) \<longrightarrow> dec_room (fst (dec_step t a c)) s' k)"
proof -
  have ph: "bd_phase s = ds_phase a" "bd_error_tolerant s = t" "0 \<le> ds_phase a" "ds_phase a \<le> 4"
    using assms(1) by (auto simp: dec_inv_def)
  have room: "dec_room a s k" using assms(2) by (simp add: dec_room_def)
  define v where "v = dec_xlat ! unat c"
  have le: "v \<le> 63" unfolding v_def by (rule dec_xlat_le_63)
  consider "v < 0" | "0 \<le> v" "ds_phase a = 4" | "0 \<le> v" "ds_phase a \<noteq> 4" by linarith
  then show ?thesis
  proof cases
    case 1
    then show ?thesis using assms room ph
      by (auto simp: decode_char_def dec_step_def v_def[symmetric] Let_def decode_fail_def dec_inv_def
          dec_room_def phase_pot_def)
  next
    case 2
    let ?a = "a\<lparr>ds_phase := 0\<rparr>" and ?s = "s\<lparr>bd_phase := 0\<rparr>"
    have "dec_inv t ?a ?s" "dec_room ?a ?s (Suc k)" "ds_phase ?a \<noteq> 4"
      using assms 2 by (auto simp: dec_inv_def dec_room_def phase_pot_def)
    then obtain s' where "decode_value ?s v = Inr s'" "dec_inv t (dec_value ?a v) s'"
      "dec_room (dec_value ?a v) s' k"
      using decode_value_ok by blast
    then show ?thesis using 2 ph le assms(1)
      by (auto simp: decode_char_def dec_step_def v_def[symmetric] Let_def decode_fail_def dec_inv_def)
  next
    case 3
    obtain s' where "decode_value s v = Inr s'" "dec_inv t (dec_value a v) s'" "dec_room (dec_value a v) s' k"
      using decode_value_ok[OF assms 3(2)] by blast
    then show ?thesis using 3 ph le
      by (auto simp: decode_char_def dec_step_def v_def[symmetric] Let_def)
  qed
qed

lemma decode_loop_ok:
  assumes "dec_inv t a s" "dec_room a s (length xs)"
  shows "\<exists>s'. decode_loop xs s = Inr (s', snd (dec_feed t a xs)) \<and> dec_inv t (fst (dec_feed t a xs)) s'"
  using assms
proof (induction xs arbitrary: a s)
  case Nil
  then show ?case by simp
next
  case (Cons c xs)
  have "dec_room a s (Suc (length xs))" using Cons.prems(2) by simp
  then obtain s1 where s1: "decode_char s c = Inr (if snd (dec_step t a c) then Inr s1 else Inl s1)"
    "dec_inv t (fst (dec_step t a c)) s1"
    "snd (dec_step t a c) \<longrightarrow> dec_room (fst (dec_step t a c)) s1 (length xs)"
    using decode_char_ok[OF Cons.prems(1)] by blast
  then show ?case using Cons.IH[OF s1(2)] by (auto simp: Let_def)
qed

definition dec_fits :: "dec_state \<Rightarrow> nat \<Rightarrow> bool" where
  "dec_fits a k \<longleftrightarrow> length (ds_out a) + k < 2 ^ 29"

lemma dec_inv_grow:
  assumes "dec_inv t a s" "take (length (cb_buf s)) b = cb_buf s" "length b < 2 ^ 31"
  shows "dec_inv t a (s\<lparr>cb_buf := b\<rparr>)"
proof -
  obtain r where r: "b = cb_buf s @ r" using assms(2) by (metis append_take_drop_id)
  show ?thesis using assms(1,3) unfolding r by (auto simp: dec_inv_def nth_append)
qed

lemma decode_transform_ok:
  assumes "dec_inv t a s" "dec_fits a (length xs)"
  shows "\<exists>s'. z_code_base64_decode_transform fresh s xs = Inr (s', snd (dec_feed t a xs))
     \<and> dec_inv t (fst (dec_feed t a xs)) s'"
proof -
  note inv = assms(1)[unfolded dec_inv_def]
  let ?r = "cb_used s + (length xs * 3 + 3) mod size_limit div 4 + 16"
  have r: "?r = length (ds_out a) + (3 * length xs + 3) div 4 + 16"
    using inv assms(2) by (simp add: dec_fits_def mult.commute)
  have le: "?r \<le> 2 ^ 30" using assms(2) unfolding r by (simp add: dec_fits_def)
  then have req: "size_to_int ?r = int ?r" by (intro size_to_int_small) simp
  obtain b where b: "z_code_grow fresh s (size_to_int ?r) = Inr (s\<lparr>cb_buf := b\<rparr>)"
    "take (length (cb_buf s)) b = cb_buf s" "size_to_int ?r \<le> int (length b)" "length b < 2 ^ 31"
    using code_grow_ok[of s "size_to_int ?r"] inv le req by auto
  have inv': "dec_inv t a (s\<lparr>cb_buf := b\<rparr>)" by (rule dec_inv_grow[OF assms(1) b(2,4)])
  have "length (ds_out a) + (3 * length xs + 3) div 4 + 16 \<le> length b" using b(3) r req by simp
  moreover have "phase_pot (ds_phase a) \<le> 3" by (simp add: phase_pot_def)
  ultimately have "dec_room a (s\<lparr>cb_buf := b\<rparr>) (length xs)" by (simp add: dec_room_def)
  from decode_loop_ok[OF inv' this] show ?thesis using b(1) by (simp add: z_code_base64_decode_transform_def)
qed

lemma dec_feed_append:
  "dec_feed t a (xs @ ys) = (if snd (dec_feed t a xs) then dec_feed t (fst (dec_feed t a xs)) ys else dec_feed t a xs)"
  by (induction xs arbitrary: a) (auto simp: Let_def)

lemma dec_feed_grows: "length (ds_out (fst (dec_feed t a xs))) \<le> length (ds_out a) + length xs"
proof (induction xs arbitrary: a)
  case (Cons c xs)
  have "length (ds_out (fst (dec_step t a c))) \<le> Suc (length (ds_out a))"
    by (simp add: dec_step_def dec_value_def Let_def)
  then show ?case using Cons.IH[of "fst (dec_step t a c)"] by (simp add: Let_def)
qed simp

interpretation b64dec: zcode_class "dec_inv t" "z_code_base64_decode_transform fresh" "dec_feed t"
    dec_fits for t fresh
proof unfold_locales
  fix a s and xs :: bytes assume "dec_inv t a s" "dec_fits a (length xs)"
  then show "\<exists>s'. z_code_base64_decode_transform fresh s xs = Inr (s', snd (dec_feed t a xs))
      \<and> dec_inv t (fst (dec_feed t a xs)) s'" by (rule decode_transform_ok)
next
  fix a and xs :: bytes and n assume "dec_fits a (length xs + n)"
  then show "dec_fits (fst (dec_feed t a xs)) n"
    using dec_feed_grows[of t a xs] by (simp add: dec_fits_def)
qed (auto simp: dec_feed_append dec_fits_def)

definition dec_start :: dec_state where
  "dec_start = \<lparr>ds_out = [], ds_phase = 0, ds_part = 0, ds_errors = 0\<rparr>"

lemma decode_new_inv:
  assumes "bufsize < 2 ^ 31"
  shows "dec_inv t dec_start (z_code_base64_decode_new bufsize t)"
proof -
  have "nat bufsize < 2 ^ 31" using assms by simp
  then show ?thesis
    by (auto simp: dec_inv_def dec_start_def z_code_base64_decode_new_def z_code_init_def Let_def
        zcode.extend_def base64_decode.fields_def ZCODE_BUFSIZE_DEFAULT_def)
qed

subsection \<open>Decoding what was encoded\<close>

lemma dec_enc_table: "i < 64 \<Longrightarrow> dec_xlat ! unat (enc_xlat ! i) = int i"
proof -
  have "list_all (\<lambda>i. dec_xlat ! unat (enc_xlat ! i) = int i) [0..<64]" by code_simp
  then show "i < 64 \<Longrightarrow> dec_xlat ! unat (enc_xlat ! i) = int i" by (auto simp: list_all_iff)
qed

lemma mask_bytes:
  "a AND 3 = take_bit 2 (a :: byte)" "a AND 0xf = take_bit 4 (a :: byte)" "a AND 0x3f = take_bit 6 (a :: byte)"
  by (simp_all add: take_bit_eq_mask mask_eq_exp_minus_1)

lemma sextet_less: "unat (v AND 0x3f :: byte) < 64"
  using take_bit_nat_less_exp[of 6 "unat v"] by (simp add: mask_bytes unsigned_take_bit_eq)

lemma dec_enc_char: "dec_xlat ! unat (enc_char v) = uint (v AND 0x3f)"
  unfolding enc_char_def using dec_enc_table[OF sextet_less[of v]] by simp

lemma dec_specials: "dec_xlat ! 13 = -1" "dec_xlat ! 10 = -1" "dec_xlat ! 61 = -2"
  by code_simp+

lemma of_int_shifts:
  "of_int (push_bit n (uint w)) = push_bit n (w :: byte)"
  "of_int (drop_bit n (uint w)) = drop_bit n (w :: byte)"
  "of_int (uint w) = (w :: byte)"
  by (auto intro!: bit_word_eqI simp: bit_simps)

lemma bit_byte_high: "8 \<le> n \<Longrightarrow> \<not> bit (a :: byte) n"
  using bit_imp_le_length[of a n] by auto

lemma bit_byte_less: "bit (a :: byte) n \<Longrightarrow> n < 8"
  using bit_imp_le_length[of a n] by simp

lemma sextet_masks:
  fixes a b :: byte
  shows "take_bit 6 (push_bit 4 (take_bit 2 a) OR drop_bit 4 b) = push_bit 4 (take_bit 2 a) OR drop_bit 4 b"
    "take_bit 6 (push_bit 2 (take_bit 4 a) OR drop_bit 6 b) = push_bit 2 (take_bit 4 a) OR drop_bit 6 b"
    "take_bit 6 (push_bit 4 (take_bit 2 a)) = push_bit 4 (take_bit 2 a)"
    "take_bit 6 (push_bit 2 (take_bit 4 a)) = push_bit 2 (take_bit 4 a)"
  by (auto intro!: bit_word_eqI simp: bit_simps bit_byte_high)

lemma sextet_top: "take_bit 6 (drop_bit 2 a) = drop_bit 2 (a :: byte)"
proof (rule bit_word_eqI)
  fix n
  have "bit a (Suc (Suc n)) \<Longrightarrow> n < 6" using bit_byte_less[of a "Suc (Suc n)"] by simp
  then show "bit (take_bit 6 (drop_bit 2 a)) n = bit (drop_bit 2 a) n" by (auto simp: bit_simps)
qed

lemma Suc_Suc_sub2: "2 \<le> n \<Longrightarrow> Suc (Suc (n - 2)) = n"
  by simp

lemma byte_join:
  fixes a b c :: byte
  shows "push_bit 2 (drop_bit 2 a) OR drop_bit 4 (push_bit 4 (take_bit 2 a) OR drop_bit 4 b) = a"
    "push_bit 4 (push_bit 4 (take_bit 2 a) OR drop_bit 4 b) OR drop_bit 2 (push_bit 2 (take_bit 4 b) OR drop_bit 6 c) = b"
    "push_bit 6 (push_bit 2 (take_bit 4 b) OR drop_bit 6 c) OR take_bit 6 c = c"
    "push_bit 2 (drop_bit 2 a) OR drop_bit 4 (push_bit 4 (take_bit 2 a)) = a"
    "push_bit 4 (push_bit 4 (take_bit 2 a) OR drop_bit 4 b) OR drop_bit 2 (push_bit 2 (take_bit 4 b)) = b"
    "push_bit 4 (drop_bit 4 b) OR drop_bit 2 (push_bit 2 (take_bit 4 b)) = b"
    "push_bit 6 (drop_bit 6 c) OR take_bit 6 c = c"
  by (auto intro!: bit_word_eqI simp: bit_simps bit_byte_high Suc_Suc_sub2)

lemma dec_step_enc:
  assumes "take_bit 6 v = v" "0 \<le> ds_phase a" "ds_phase a \<le> 3"
  shows "dec_step t a (enc_char v) = (dec_value a (uint v), True)"
proof -
  have "dec_xlat ! unat (enc_char v) = uint v" using dec_enc_char[of v] assms(1) by (simp add: mask_bytes)
  moreover have "0 \<le> uint v" by simp
  then have "\<not> uint v < 0" "uint v \<noteq> -1" "uint v \<noteq> -2" by linarith+
  ultimately show ?thesis using assms(2,3) by (simp add: dec_step_def Let_def)
qed

lemma dec_step_pad:
  "2 \<le> ds_phase a \<Longrightarrow> dec_step t a 61 = (a\<lparr>ds_phase := (if ds_phase a = 2 then 4 else 0)\<rparr>, True)"
  by (simp add: dec_step_def dec_specials Let_def)

lemmas dec_steps = dec_step_enc[OF sextet_top] dec_step_enc[OF sextet_masks(1)]
  dec_step_enc[OF sextet_masks(2)] dec_step_enc[OF sextet_masks(3)] dec_step_enc[OF sextet_masks(4)]
  dec_step_enc[of "take_bit 6 z" for z, simplified] dec_step_pad

text \<open>Line ends are ignored.\<close>

lemma dec_feed_wrap: "dec_feed t a (wrap L lp cs) = dec_feed t a cs"
proof (induction cs arbitrary: a lp)
  case (Cons c cs)
  have "dec_step t x 13 = (x, True)" "dec_step t x 10 = (x, True)" for x
    by (simp_all add: dec_step_def dec_specials)
  then show ?case using Cons.IH by (simp add: wrap.simps Let_def)
qed simp

lemma dec_feed_b64:
  "ds_phase a = 0 \<Longrightarrow>
   \<exists>a'. dec_feed t a (b64_chars d) = (a', True) \<and> ds_out a' = ds_out a @ d \<and> ds_phase a' = 0
      \<and> ds_errors a' = ds_errors a"
proof (induction d arbitrary: a rule: b64_open.induct)
  case 1
  then show ?case by (simp add: b64_chars_def b64_closing_def)
next
  case (2 x)
  have c: "b64_chars [x] = [enc_char (drop_bit 2 x), enc_char (push_bit 4 (take_bit 2 x)), 61, 61]"
    by (simp add: b64_chars_def b64_closing_def mask_bytes)
  show ?case unfolding c using 2
    by (simp add: dec_steps Let_def dec_value_def of_int_shifts byte_join)
next
  case (3 x y)
  have c: "b64_chars [x, y] = [enc_char (drop_bit 2 x), enc_char (push_bit 4 (take_bit 2 x) OR drop_bit 4 y),
      enc_char (push_bit 2 (take_bit 4 y)), 61]"
    by (simp add: b64_chars_def b64_closing_def mask_bytes)
  show ?case unfolding c using 3
    by (simp add: dec_steps Let_def dec_value_def of_int_shifts byte_join)
next
  case (4 x y z r)
  have c: "b64_chars (x # y # z # r) = enc_char (drop_bit 2 x)
      # enc_char (push_bit 4 (take_bit 2 x) OR drop_bit 4 y)
      # enc_char (push_bit 2 (take_bit 4 y) OR drop_bit 6 z) # enc_char (take_bit 6 z) # b64_chars r"
    by (simp add: b64_chars_def b64_closing_def mask_bytes)
  let ?a = "a\<lparr>ds_part := push_bit 6 (drop_bit 6 z), ds_out := ds_out a @ [x, y, z], ds_phase := 0\<rparr>"
  have "dec_feed t a (b64_chars (x # y # z # r)) = dec_feed t ?a (b64_chars r)"
    unfolding c using 4(2) by (simp add: dec_steps Let_def dec_value_def of_int_shifts byte_join)
  then show ?case using 4(1)[of ?a] by simp
qed

lemma dec_feed_text:
  "ds_phase a = 0 \<Longrightarrow>
   \<exists>a'. dec_feed t a (b64_text L d) = (a', True) \<and> ds_out a' = ds_out a @ d \<and> ds_phase a' = 0
      \<and> ds_errors a' = ds_errors a"
proof -
  assume "ds_phase a = 0"
  then obtain a' where a': "dec_feed t a (b64_chars d) = (a', True)" "ds_out a' = ds_out a @ d" "ds_phase a' = 0"
    "ds_errors a' = ds_errors a"
    using dec_feed_b64 by blast
  have "dec_step t x 13 = (x, True)" "dec_step t x 10 = (x, True)" for x
    by (simp_all add: dec_step_def dec_specials)
  then show ?thesis using a' by (simp add: b64_text_def dec_feed_append dec_feed_wrap Let_def)
qed

lemma encode_run:
  assumes "0 < bufsize" "bufsize < 2 ^ 31" "L = 0 \<Longrightarrow> 4 dvd bufsize"
    and "enc_fits L (nat bufsize) [] (length (concat cs))"
  obtains s s' where "feed_chunks (z_code_base64_encode_transform fresh) cs
      (z_code_base64_encode_new bufsize L) = Inr (s, True)"
    "z_code_base64_encode_finish s = Inr (s', True)" "code_result s' = b64_text L (concat cs)"
proof -
  have "enc_inv L (nat bufsize) [] (z_code_base64_encode_new bufsize L)"
    using assms(1) by (intro encode_new_inv[OF assms(1-3)]) auto
  then obtain s where s: "feed_chunks (z_code_base64_encode_transform fresh) cs
      (z_code_base64_encode_new bufsize L) = Inr (s, True)" "enc_inv L (nat bufsize) (concat cs) s"
    using b64enc.chunks_refine[OF _ assms(4)] by auto
  have "enc_fits L (nat bufsize) (concat cs) 0"
    using b64enc.fits_rest[of L "nat bufsize" "[]" "concat cs" 0] assms(4) by simp
  from encode_finish_ok[OF s(2) this] show thesis using s(1) that by blast
qed

lemma decode_run:
  assumes "bufsize < 2 ^ 31" "length (concat ts) < 2 ^ 29"
  obtains s where "feed_chunks (z_code_base64_decode_transform fresh) ts (z_code_base64_decode_new bufsize t)
      = Inr (s, snd (dec_feed t dec_start (concat ts)))" "dec_inv t (fst (dec_feed t dec_start (concat ts))) s"
proof -
  have "dec_fits dec_start (length (concat ts))" using assms(2) by (simp add: dec_fits_def dec_start_def)
  from b64dec.chunks_refine[OF decode_new_inv[OF assms(1)] this] show thesis using that by blast
qed

subsection \<open>Properties\<close>





text \<open>The decoder is safe on any input: no byte sequence makes it write outside its buffer, an
  error tolerant decoder never refuses one, and how the input is cut into pieces does not change
  the verdict, the bytes decoded, the phase or the number of errors.\<close>

theorem base64_decode_any_input:
  assumes "bufsize < 2 ^ 31" "length (concat cs) < 2 ^ 29"
  shows "\<exists>s s' ok. feed_chunks (z_code_base64_decode_transform fresh) cs (z_code_base64_decode_new bufsize t)
         = Inr (s, ok)
     \<and> z_code_base64_decode_transform fresh (z_code_base64_decode_new bufsize t) (concat cs) = Inr (s', ok)
     \<and> cb_used s \<le> length (cb_buf s) \<and> code_result s = code_result s' \<and> bd_phase s = bd_phase s'
     \<and> cb_errors s = cb_errors s' \<and> (t \<longrightarrow> ok)"
proof -
  have fit: "dec_fits dec_start (length (concat cs))" using assms(2) by (simp add: dec_fits_def dec_start_def)
  note new = decode_new_inv[OF assms(1), of t]
  obtain s where s: "feed_chunks (z_code_base64_decode_transform fresh) cs (z_code_base64_decode_new bufsize t)
      = Inr (s, snd (dec_feed t dec_start (concat cs)))" "dec_inv t (fst (dec_feed t dec_start (concat cs))) s"
    using b64dec.chunks_refine[OF new fit] by blast
  obtain s' where s': "z_code_base64_decode_transform fresh (z_code_base64_decode_new bufsize t) (concat cs)
      = Inr (s', snd (dec_feed t dec_start (concat cs)))" "dec_inv t (fst (dec_feed t dec_start (concat cs))) s'"
    using decode_transform_ok[OF new fit] by blast
  have "snd (dec_feed True a xs)" for a xs
    by (induction xs arbitrary: a) (simp_all add: dec_step_def Let_def)
  then have "t \<longrightarrow> snd (dec_feed t dec_start (concat cs))" by (cases t) auto
  then show ?thesis using s s' by (auto simp: dec_inv_def code_result_def)
qed

theorem base64_decode_any_input_witness:
  "\<exists>s s' ok. feed_chunks (z_code_base64_decode_transform (\<lambda>_. 7)) [[61, 33], [84, 87, 70, 117]]
         (z_code_base64_decode_new 1 True) = Inr (s, ok)
     \<and> z_code_base64_decode_transform (\<lambda>_. 7) (z_code_base64_decode_new 1 True) [61, 33, 84, 87, 70, 117] = Inr (s', ok)
     \<and> ok \<and> code_result s = code_result s'"
  using base64_decode_any_input[of 1 "[[61, 33], [84, 87, 70, 117]]" "\<lambda>_. 7" True] by auto


text \<open>\<open>z_code_base64_encode_finish\<close> writes past the end of the buffer: it never grows it, and
  \<open>transform\<close> has only reserved the characters of the input. With a two byte buffer, encoding any
  single byte and finishing is an out of bounds write.\<close>

theorem base64_finish_overflows:
  "\<exists>s. z_code_base64_encode_transform fresh (z_code_base64_encode_new 2 0) [c] = Inr (s, True)
     \<and> z_code_base64_encode_finish s = Inl Bad_access"
proof -
  have "z_code_grow fresh (z_code_base64_encode_new 2 0) 2 = Inr (z_code_base64_encode_new 2 0)"
  proof -
    have l: "length (cb_buf (z_code_base64_encode_new 2 0)) = 2"
      by (simp add: z_code_base64_encode_new_def z_code_init_def zcode.extend_def)
    have "grow_loop 2 2 = Inr 2" by (subst grow_loop.simps) simp
    moreover have "size_to_int 2 = 2" by (simp add: size_to_int_def)
    ultimately show ?thesis by (simp add: z_code_grow_def l)
  qed
  then show ?thesis
    by (simp add: z_code_base64_encode_transform_def z_code_calculate_growing_def addz_def size_to_int_def
        ssize_to_size_def z_code_base64_encode_new_def z_code_init_def zcode.extend_def Let_def
        base64_encode.fields_def encode_byte_def z_code_base64_encode_fix_def buf_set_def buf_get_def
        z_code_base64_encode_finish_def)
qed

end
