(* ===== verification/Zurlparse.thy ===== *)
theory Zurlparse
  imports Zorp_Prelude
begin

section \<open>The URL parser\<close>

text \<open>
  \<open>src/zurlparse.c\<close>. A C string is the list of its characters up to the terminating NUL, and a
  pointer into it is the suffix it points to. A parser function returns \<open>Inl\<close> a message where the
  code sets the \<open>GError\<close> and returns \<open>FALSE\<close> (the first message set, since GLib keeps that one),
  or \<open>Inr\<close> its value; what a failed call leaves in the \<open>ZURL\<close> is not modelled. A fault is an
  abort or a read outside the string.

  After the definitions: the reference printer \<open>url_render\<close> with its percent encoding and the
  facts that carry the round trip.
\<close>

record zurl =
  url_scheme :: string
  url_user :: string
  url_passwd :: string
  url_host :: string
  url_port :: nat
  url_file :: string

type_synonym 'a parse = "(string + 'a) result"

definition pbind :: "'a parse \<Rightarrow> ('a \<Rightarrow> 'b parse) \<Rightarrow> 'b parse" where
  "pbind m f = rbind m (\<lambda>r. case r of Inl msg \<Rightarrow> Inr (Inl msg) | Inr x \<Rightarrow> f x)"

abbreviation perror :: "string \<Rightarrow> 'a parse" where "perror msg \<equiv> Inr (Inl msg)"

abbreviation preturn :: "'a \<Rightarrow> 'a parse" where "preturn x \<equiv> Inr (Inr x)"

lemma pbind_simps [simp]:
  "pbind (preturn x) f = f x" "pbind (perror msg) f = perror msg" "pbind (Inl e) f = Inl e"
  by (simp_all add: pbind_def)

subsection \<open>Percent decoding\<close>

definition code :: "char \<Rightarrow> nat" where
  "code c = of_char c"

definition tolower :: "char \<Rightarrow> char" where
  "tolower c = (if 65 \<le> code c \<and> code c \<le> 90 then char_of (code c + 32) else c)"

definition isdigit :: "char \<Rightarrow> bool" where
  "isdigit c \<longleftrightarrow> 48 \<le> code c \<and> code c \<le> 57"

definition isxdigit :: "char \<Rightarrow> bool" where
  "isxdigit c \<longleftrightarrow> isdigit c \<or> 65 \<le> code c \<and> code c \<le> 70 \<or> 97 \<le> code c \<and> code c \<le> 102"

definition isspace :: "char \<Rightarrow> bool" where
  "isspace c \<longleftrightarrow> code c = 32 \<or> 9 \<le> code c \<and> code c \<le> 13"

definition z_url_xdigit_value :: "char \<Rightarrow> int" where
  "z_url_xdigit_value c =
     (let c = tolower c in
      if 48 \<le> code c \<and> code c \<le> 57 then int (code c) - 48
      else if 97 \<le> code c \<and> code c \<le> 102 then int (code c) - 97 + 10
      else -1)"

fun z_url_decode_hex_byte :: "string \<Rightarrow> char parse" where
  "z_url_decode_hex_byte (a # b # _) =
     (if isxdigit a \<and> isxdigit b
      then preturn (char_of (nat (z_url_xdigit_value a * 16 + z_url_xdigit_value b)))
      else perror ''Invalid hexadecimal encoding'')"
| "z_url_decode_hex_byte _ = perror ''Invalid hexadecimal encoding''"

text \<open>
  The loop of \<open>g_string_assign_url_decode\<close>. When an escape starts two characters before the end
  and the byte after the end is a hexadecimal digit, \<open>left\<close> drops below zero and the loop runs
  on past the string: a \<open>Bad_access\<close>.
\<close>

fun g_string_assign_url_decode :: "string \<Rightarrow> nat \<Rightarrow> string parse" where
  "g_string_assign_url_decode src 0 = preturn []"
| "g_string_assign_url_decode [] left = Inl Bad_access"
| "g_string_assign_url_decode (c # src) left =
     (if c = CHR ''%''
      then if left < 2 then perror ''Hexadecimal encoding too short''
        else pbind (z_url_decode_hex_byte src) (\<lambda>d.
             if left < 3 then Inl Bad_access
             else pbind (g_string_assign_url_decode (drop 2 src) (left - 3)) (\<lambda>r. preturn (d # r)))
      else pbind (g_string_assign_url_decode src (left - 1)) (\<lambda>r. preturn (c # r)))"

subsection \<open>Port numbers\<close>

fun digits_value :: "nat \<Rightarrow> string \<Rightarrow> nat" where
  "digits_value acc [] = acc"
| "digits_value acc (c # cs) = digits_value (acc * 10 + (code c - 48)) cs"

text \<open>\<open>strtoul (s, &end, 10)\<close>: the value and \<open>end\<close>.\<close>

definition strtoul :: "string \<Rightarrow> nat \<times> string" where
  "strtoul s =
     (let t = dropWhile isspace s;
          neg = (t \<noteq> [] \<and> hd t = CHR ''-'');
          u = (if t \<noteq> [] \<and> (hd t = CHR ''-'' \<or> hd t = CHR ''+'') then tl t else t);
          ds = takeWhile isdigit u;
          v = digits_value 0 ds
      in if ds = [] then (0, s)
         else (if v \<ge> 2 ^ 64 then 2 ^ 64 - 1 else if neg then (2 ^ 64 - v) mod 2 ^ 64 else v,
               dropWhile isdigit u))"

definition parse_port :: "string \<Rightarrow> string \<Rightarrow> nat parse" where
  "parse_port part sep =
     (let (v, end) = strtoul part
      in if end \<noteq> sep then perror ''Error parsing port number'' else preturn (v mod 2 ^ 32))"

subsection \<open>\<open>z_url_parse\<close>\<close>

definition url_sep :: "char \<Rightarrow> bool" where
  "url_sep c \<longleftrightarrow> c = CHR '':'' \<or> c = CHR ''/'' \<or> c = CHR ''@'' \<or> c = CHR ''?'' \<or> c = CHR ''#''"

text \<open>
  The loop \<open>for (i = 0; i < 4; i++)\<close>: the pairs \<open>(part[i], sep[i])\<close>, whether it was left by
  \<open>break\<close>, and \<open>p\<close> after it.
\<close>

fun url_parts :: "nat \<Rightarrow> string \<Rightarrow> (string \<times> string) list \<times> bool \<times> string" where
  "url_parts 0 p = ([], False, p)"
| "url_parts (Suc n) p =
     (let sep = dropWhile (\<lambda>c. \<not> url_sep c) p in
      if sep = [] \<or> hd sep = CHR ''/'' then ([(p, sep)], True, sep)
      else let (ps, broke, q) = url_parts n (tl sep) in ((p, sep) # ps, broke, q))"

definition decode_part :: "string \<times> string \<Rightarrow> string parse" where
  "decode_part ps = g_string_assign_url_decode (fst ps) (length (fst ps) - length (snd ps))"

definition sep_is :: "string \<times> string \<Rightarrow> char \<Rightarrow> bool" where
  "sep_is ps c \<longleftrightarrow> snd ps \<noteq> [] \<and> hd (snd ps) = c"

definition url_authority :: "(string \<times> string) list \<Rightarrow> zurl \<Rightarrow> zurl parse" where
  "url_authority ps url =
     (case ps of
        [a] \<Rightarrow> pbind (decode_part a) (\<lambda>h. preturn (url\<lparr>url_host := h\<rparr>))
      | [a, b] \<Rightarrow>
          if sep_is a CHR '':'' then
            pbind (decode_part a) (\<lambda>h. pbind (parse_port (fst b) (snd b)) (\<lambda>pt.
              preturn (url\<lparr>url_host := h, url_port := pt\<rparr>)))
          else if sep_is a CHR ''@'' then
            pbind (decode_part a) (\<lambda>u. pbind (decode_part b) (\<lambda>h.
              preturn (url\<lparr>url_user := u, url_host := h\<rparr>)))
          else perror ''Unrecognized URL construct''
      | [a, b, c] \<Rightarrow>
          if sep_is a CHR ''@'' \<and> sep_is b CHR '':'' then
            pbind (decode_part a) (\<lambda>u. pbind (decode_part b) (\<lambda>h.
            pbind (parse_port (fst c) (snd c)) (\<lambda>pt.
              preturn (url\<lparr>url_user := u, url_host := h, url_port := pt\<rparr>))))
          else if sep_is a CHR '':'' \<and> sep_is b CHR ''@'' then
            pbind (decode_part a) (\<lambda>u. pbind (decode_part b) (\<lambda>w. pbind (decode_part c) (\<lambda>h.
              preturn (url\<lparr>url_user := u, url_passwd := w, url_host := h\<rparr>))))
          else perror ''Unrecognized URL construct''
      | [a, b, c, d] \<Rightarrow>
          if sep_is a CHR '':'' \<and> sep_is b CHR ''@'' \<and> sep_is c CHR '':'' then
            pbind (decode_part a) (\<lambda>u. pbind (decode_part b) (\<lambda>w. pbind (decode_part c) (\<lambda>h.
            pbind (parse_port (fst d) (snd d)) (\<lambda>pt.
              preturn (url\<lparr>url_user := u, url_passwd := w, url_host := h, url_port := pt\<rparr>)))))
          else perror ''Unrecognized URL construct''
      | _ \<Rightarrow> Inl Assert_failed)"

definition z_url_parse :: "string \<Rightarrow> zurl parse" where
  "z_url_parse url_str =
     (let p = dropWhile (\<lambda>c. c \<noteq> CHR '':'') url_str in
      if p = [] then perror ''URL has no scheme, colon missing''
      else if take 2 (tl p) \<noteq> ''//'' then perror (''Scheme not followed by '' @ [CHR 0x27] @ ''//'' @ [CHR 0x27])
      else
        let url = \<lparr>url_scheme = take (length url_str - length p) url_str, url_user = [], url_passwd = [],
                   url_host = [], url_port = 0, url_file = []\<rparr>;
            (ps, broke, q) = url_parts 4 (drop 3 p)
        in rbind (g_assert broke) (\<lambda>_.
           pbind (url_authority ps url) (\<lambda>url.
             if q = [] then preturn (url\<lparr>url_file := ''/''\<rparr>)
             else if hd q \<noteq> CHR ''/'' then perror ''Invalid path component in URL''
             else preturn (url\<lparr>url_file := q\<rparr>))))"

subsection \<open>The reference printer\<close>

definition hexdig :: "nat \<Rightarrow> char" where
  "hexdig n = (if n < 10 then char_of (48 + n) else char_of (55 + n))"

definition unreserved :: "char \<Rightarrow> bool" where
  "unreserved c \<longleftrightarrow> isdigit c \<or> 65 \<le> code c \<and> code c \<le> 90 \<or> 97 \<le> code c \<and> code c \<le> 122
     \<or> c \<in> {CHR ''-'', CHR ''.'', CHR ''_'', CHR ''~''}"

definition url_enc1 :: "char \<Rightarrow> string" where
  "url_enc1 c = (if unreserved c then [c] else [CHR ''%'', hexdig (code c div 16), hexdig (code c mod 16)])"

definition url_enc :: "string \<Rightarrow> string" where
  "url_enc s = concat (map url_enc1 s)"

fun decimal :: "nat \<Rightarrow> string" where
  "decimal n = (if n < 10 then [char_of (48 + n)] else decimal (n div 10) @ [char_of (48 + n mod 10)])"

declare decimal.simps [simp del]

definition url_render :: "string \<Rightarrow> (string \<times> string option) option \<Rightarrow> string \<Rightarrow> nat option \<Rightarrow> string \<Rightarrow> string" where
  "url_render scheme user host port file =
     scheme @ ''://''
     @ (case user of None \<Rightarrow> []
        | Some (u, None) \<Rightarrow> url_enc u @ ''@''
        | Some (u, Some w) \<Rightarrow> url_enc u @ '':'' @ url_enc w @ ''@'')
     @ url_enc host @ (case port of None \<Rightarrow> [] | Some n \<Rightarrow> '':'' @ decimal n) @ file"

lemma code_less: "code c < 256"
  by (simp add: code_def of_char_def)

lemma code_char_of [simp]: "n < 256 \<Longrightarrow> code (char_of n) = n"
  by (simp add: code_def)

lemma char_of_code [simp]: "char_of (code c) = c"
  by (simp add: code_def)

lemma code_inject: "code c = code d \<Longrightarrow> c = d"
  by (simp add: code_def)

lemma code_seps: "code CHR '':'' = 58" "code CHR ''/'' = 47" "code CHR ''@'' = 64" "code CHR ''?'' = 63"
  "code CHR ''#'' = 35" "code CHR ''%'' = 37" "code CHR ''-'' = 45" "code CHR ''+'' = 43" "code CHR ''.'' = 46"
  "code CHR ''_'' = 95" "code CHR ''~'' = 126"
  by code_simp+

lemma sep_codes: "url_sep c \<Longrightarrow> code c \<in> {58, 47, 64, 63, 35}"
  by (auto simp: url_sep_def code_seps)

lemma hexdig_props:
  assumes "n < 16"
  shows "isxdigit (hexdig n)" "z_url_xdigit_value (hexdig n) = int n" "\<not> url_sep (hexdig n)"
proof -
  have c: "code (hexdig n) = (if n < 10 then 48 + n else 55 + n)" using assms by (simp add: hexdig_def)
  show "isxdigit (hexdig n)" "z_url_xdigit_value (hexdig n) = int n"
    using assms by (auto simp: c isxdigit_def isdigit_def z_url_xdigit_value_def tolower_def)
  show "\<not> url_sep (hexdig n)" using sep_codes[of "hexdig n"] c assms by (auto split: if_splits)
qed

lemma sep_not_xdigit: "url_sep c \<Longrightarrow> \<not> isxdigit c"
  using sep_codes[of c] by (auto simp: isxdigit_def isdigit_def)

lemma unreserved_props: "unreserved c \<Longrightarrow> \<not> url_sep c" "unreserved c \<Longrightarrow> c \<noteq> CHR ''%''"
  using sep_codes[of c] by (auto simp: unreserved_def isdigit_def code_seps url_sep_def)

lemma url_enc_no_sep: "c \<in> set (url_enc s) \<Longrightarrow> \<not> url_sep c"
proof -
  have "c \<in> set (url_enc1 d) \<Longrightarrow> \<not> url_sep c" for d
    using code_less[of d] by (auto simp: url_enc1_def unreserved_props hexdig_props url_sep_def[of "CHR ''%''"] split: if_splits)
  then show "c \<in> set (url_enc s) \<Longrightarrow> \<not> url_sep c" by (auto simp: url_enc_def)
qed

lemma decode_url_enc: "g_string_assign_url_decode (url_enc s @ r) (length (url_enc s)) = preturn s"
proof (induction s)
  case (Cons c s)
  show ?case
  proof (cases "unreserved c")
    case True
    then show ?thesis using Cons unreserved_props(2)[of c] by (simp add: url_enc_def url_enc1_def)
  next
    case False
    have "code c div 16 < 16" "code c mod 16 < 16" using code_less[of c] by auto
    then have "nat (z_url_xdigit_value (hexdig (code c div 16)) * 16 + z_url_xdigit_value (hexdig (code c mod 16))) = code c"
      by (simp add: hexdig_props nat_add_distrib nat_mult_distrib)
    then show ?thesis using False Cons \<open>code c div 16 < 16\<close>
      by (simp add: url_enc_def url_enc1_def hexdig_props)
  qed
qed (simp add: url_enc_def)

lemma decimal_digits: "c \<in> set (decimal n) \<Longrightarrow> isdigit c"
proof (induction n rule: decimal.induct)
  case (1 n)
  then show ?case by (subst (asm) decimal.simps) (auto simp: isdigit_def split: if_splits)
qed

lemma decimal_nonempty: "decimal n \<noteq> []"
  by (subst decimal.simps) simp

lemma digits_value_append: "digits_value a (xs @ ys) = digits_value (digits_value a xs) ys"
  by (induction a xs rule: digits_value.induct) auto

lemma digits_value_decimal: "digits_value 0 (decimal n) = n"
proof (induction n rule: decimal.induct)
  case (1 n)
  then show ?case by (subst decimal.simps) (auto simp: digits_value_append)
qed

lemma strtoul_decimal:
  assumes "r = [] \<or> \<not> isdigit (hd r)" "n < 2 ^ 64"
  shows "strtoul (decimal n @ r) = (n, r)"
proof -
  obtain c cs where d: "decimal n = c # cs" using decimal_nonempty[of n] by (cases "decimal n") auto
  have "isdigit c" using decimal_digits[of c n] d by simp
  then have "\<not> isspace c" "c \<noteq> CHR ''-''" "c \<noteq> CHR ''+''"
    by (auto simp: isdigit_def isspace_def code_seps)
  moreover have "takeWhile isdigit (decimal n @ r) = decimal n" "dropWhile isdigit (decimal n @ r) = r"
    using decimal_digits[of _ n] assms(1) by (auto simp: takeWhile_append2 dropWhile_append2) (cases r, auto)+
  ultimately show ?thesis using assms(2) digits_value_decimal[of n] unfolding strtoul_def d
    by (simp add: Let_def)
qed

subsection \<open>Scanning the authority\<close>

definition no_sep :: "string \<Rightarrow> bool" where
  "no_sep t \<longleftrightarrow> (\<forall>c \<in> set t. \<not> url_sep c)"

text \<open>What ends the authority: the path or the end of the string.\<close>

definition path_start :: "string \<Rightarrow> bool" where
  "path_start r \<longleftrightarrow> r = [] \<or> hd r = CHR ''/''"

lemma no_sep_enc [simp]: "no_sep (url_enc s)"
  using url_enc_no_sep by (auto simp: no_sep_def)

lemma no_sep_decimal [simp]: "no_sep (decimal n)"
  using decimal_digits[of _ n] sep_codes by (fastforce simp: no_sep_def isdigit_def)

lemma dropWhile_sep: "no_sep t \<Longrightarrow> r = [] \<or> url_sep (hd r) \<Longrightarrow> dropWhile (\<lambda>c. \<not> url_sep c) (t @ r) = r"
  unfolding no_sep_def by (subst dropWhile_append2) (auto simp: dropWhile_eq_self_iff)

lemma sep_slash [simp]: "url_sep CHR ''/''" "url_sep CHR '':''" "url_sep CHR ''@''"
  by (simp_all add: url_sep_def)

lemma url_parts_last:
  "no_sep t \<Longrightarrow> path_start r \<Longrightarrow> url_parts (Suc n) (t @ r) = ([(t @ r, r)], True, r)"
  using dropWhile_sep[of t r] by (auto simp: path_start_def Let_def no_sep_def)

lemma url_parts_more:
  "no_sep t \<Longrightarrow> url_sep c \<Longrightarrow> c \<noteq> CHR ''/'' \<Longrightarrow>
   url_parts (Suc n) (t @ c # r) = (let (ps, broke, q) = url_parts n r in ((t @ c # r, c # r) # ps, broke, q))"
  by (simp add: dropWhile_sep Let_def)

declare url_parts.simps(2) [simp del]

lemma url_parts_colon:
  "no_sep t \<Longrightarrow> url_parts (Suc n) (t @ CHR '':'' # r)
     = (let (ps, broke, q) = url_parts n r in ((t @ CHR '':'' # r, CHR '':'' # r) # ps, broke, q))"
  "no_sep t \<Longrightarrow> url_parts (Suc n) (t @ CHR ''@'' # r)
     = (let (ps, broke, q) = url_parts n r in ((t @ CHR ''@'' # r, CHR ''@'' # r) # ps, broke, q))"
  by (simp_all add: url_parts_more)

lemma decode_part_enc [simp]: "decode_part (url_enc s @ r, r) = preturn s"
  by (simp add: decode_part_def decode_url_enc)

lemma parse_port_decimal:
  assumes "path_start r" "n < 2 ^ 64"
  shows "parse_port (decimal n @ r) r = preturn (n mod 2 ^ 32)"
proof -
  have "r = [] \<or> \<not> isdigit (hd r)"
    using assms(1) by (auto simp: path_start_def isdigit_def code_seps)
  then show ?thesis using strtoul_decimal[of r n] assms(2) by (simp add: parse_port_def)
qed

lemma sep_is_Cons [simp]: "sep_is (p, c # r) d \<longleftrightarrow> c = d"
  by (simp add: sep_is_def)

lemma url_scheme_split:
  assumes "\<forall>c \<in> set scheme. c \<noteq> CHR '':''"
  shows "dropWhile (\<lambda>c. c \<noteq> CHR '':'') (scheme @ ''://'' @ rest) = ''://'' @ rest"
  using assms by (subst dropWhile_append2) auto

lemma z_url_parse_after_scheme:
  assumes "\<forall>c \<in> set scheme. c \<noteq> CHR '':''" "url_parts 4 rest = (ps, True, q)" "path_start q"
  shows "z_url_parse (scheme @ ''://'' @ rest) =
     pbind (url_authority ps \<lparr>url_scheme = scheme, url_user = [], url_passwd = [], url_host = [],
              url_port = 0, url_file = []\<rparr>)
       (\<lambda>url. preturn (url\<lparr>url_file := (if q = [] then ''/'' else q)\<rparr>))"
  unfolding z_url_parse_def url_scheme_split[OF assms(1)] using assms(2,3)
  by (auto simp: path_start_def)

lemmas url_scan = url_parts_last url_parts_colon

subsection \<open>Decoding never leaves the part\<close>

lemma decode_stays:
  "r = [] \<or> \<not> isxdigit (hd r) \<Longrightarrow> \<exists>x. g_string_assign_url_decode (t @ r) (length t) = Inr x"
proof (induction t rule: length_induct)
  case (1 t)
  show ?case
  proof (cases t)
    case (Cons c s)
    have rec: "\<exists>x. g_string_assign_url_decode (u @ r) (length u) = Inr x" if "length u < length t" for u
      using 1 that by blast
    show ?thesis
    proof (cases "c = CHR ''%''")
      case False
      obtain x where "g_string_assign_url_decode (s @ r) (length s) = Inr x" using rec[of s] Cons by auto
      then show ?thesis using Cons False by (cases x) auto
    next
      case True
      consider "s = []" | a where "s = [a]" | a b u where "s = a # b # u"
        by (cases s rule: remdups_adj.cases) auto
      then show ?thesis
      proof cases
        case 1
        then show ?thesis using Cons True by simp
      next
        case 2
        then show ?thesis using Cons True \<open>r = [] \<or> \<not> isxdigit (hd r)\<close> by (cases r) auto
      next
        case 3
        obtain x where "g_string_assign_url_decode (u @ r) (length u) = Inr x" using rec[of u] Cons 3 by auto
        then show ?thesis using Cons True 3 by (cases x) auto
      qed
    qed
  qed simp
qed

subsection \<open>The six shapes of an authority\<close>

text \<open>
  The pairs of part and separator that the scan yields, by the presence of a user, a password
  and a port.
\<close>

lemma four: "4 = Suc (Suc (Suc (Suc 0)))"
  by simp

fun url_tail :: "nat option \<Rightarrow> string \<Rightarrow> string" where
  "url_tail None file = file"
| "url_tail (Some n) file = CHR '':'' # decimal n @ file"

fun tail_parts :: "string \<Rightarrow> nat option \<Rightarrow> string \<Rightarrow> (string \<times> string) list" where
  "tail_parts h None file = [(h @ file, file)]"
| "tail_parts h (Some n) file = [(h @ url_tail (Some n) file, url_tail (Some n) file), (decimal n @ file, file)]"

lemma url_parts_tail:
  "no_sep h \<Longrightarrow> path_start file \<Longrightarrow>
   url_parts (Suc (Suc n)) (h @ url_tail port file) = (tail_parts h port file, True, file)"
  by (cases port) (simp_all add: url_scan)

lemma parse_no_user:
  assumes "\<forall>c \<in> set scheme. c \<noteq> CHR '':''" "path_start file" "\<forall>n. port = Some n \<longrightarrow> n < 2 ^ 64"
  shows "z_url_parse (scheme @ ''://'' @ url_enc h @ url_tail port file) = preturn
     \<lparr>url_scheme = scheme, url_user = [], url_passwd = [], url_host = h,
      url_port = (case port of None \<Rightarrow> 0 | Some n \<Rightarrow> n mod 2 ^ 32),
      url_file = (if file = [] then ''/'' else file)\<rparr>"
proof -
  have "url_parts 4 (url_enc h @ url_tail port file) = (tail_parts (url_enc h) port file, True, file)"
    unfolding four by (rule url_parts_tail) (simp_all add: assms(2))
  from z_url_parse_after_scheme[OF assms(1) this assms(2)] show ?thesis
    using assms(3) by (cases port) (simp_all add: url_authority_def parse_port_decimal[OF assms(2)])
qed

lemma parse_user:
  assumes "\<forall>c \<in> set scheme. c \<noteq> CHR '':''" "path_start file" "\<forall>n. port = Some n \<longrightarrow> n < 2 ^ 64"
  shows "z_url_parse (scheme @ ''://'' @ url_enc u @ CHR ''@'' # url_enc h @ url_tail port file) = preturn
     \<lparr>url_scheme = scheme, url_user = u, url_passwd = [], url_host = h,
      url_port = (case port of None \<Rightarrow> 0 | Some n \<Rightarrow> n mod 2 ^ 32),
      url_file = (if file = [] then ''/'' else file)\<rparr>"
proof -
  let ?r = "CHR ''@'' # url_enc h @ url_tail port file"
  have "url_parts 4 (url_enc u @ ?r) = ((url_enc u @ ?r, ?r) # tail_parts (url_enc h) port file, True, file)"
    unfolding four by (simp add: url_parts_colon url_parts_tail assms(2))
  from z_url_parse_after_scheme[OF assms(1) this assms(2)] show ?thesis
    using assms(3) by (cases port) (simp_all add: url_authority_def parse_port_decimal[OF assms(2)])
qed

lemma parse_user_passwd:
  assumes "\<forall>c \<in> set scheme. c \<noteq> CHR '':''" "path_start file" "\<forall>n. port = Some n \<longrightarrow> n < 2 ^ 64"
  shows "z_url_parse (scheme @ ''://'' @ url_enc u @ CHR '':'' # url_enc w @ CHR ''@'' # url_enc h
       @ url_tail port file) = preturn
     \<lparr>url_scheme = scheme, url_user = u, url_passwd = w, url_host = h,
      url_port = (case port of None \<Rightarrow> 0 | Some n \<Rightarrow> n mod 2 ^ 32),
      url_file = (if file = [] then ''/'' else file)\<rparr>"
proof -
  let ?q = "CHR ''@'' # url_enc h @ url_tail port file"
  let ?r = "CHR '':'' # url_enc w @ ?q"
  have "url_parts 4 (url_enc u @ ?r)
      = ((url_enc u @ ?r, ?r) # (url_enc w @ ?q, ?q) # tail_parts (url_enc h) port file, True, file)"
    unfolding four by (simp add: url_parts_colon url_parts_tail assms(2))
  from z_url_parse_after_scheme[OF assms(1) this assms(2)] show ?thesis
    using assms(3) by (cases port) (simp_all add: url_authority_def parse_port_decimal[OF assms(2)])
qed

lemma url_parts_seps:
  "url_parts n p = (ps, broke, q) \<Longrightarrow> (a, b) \<in> set ps \<Longrightarrow>
     b = dropWhile (\<lambda>c. \<not> url_sep c) a"
proof (induction n p arbitrary: ps broke q rule: url_parts.induct)
  case (2 n p)
  then show ?case
    by (auto simp: url_parts.simps(2) Let_def split: if_splits prod.splits)
qed simp

lemma decode_part_total:
  assumes "b = dropWhile (\<lambda>c. \<not> url_sep c) a"
  shows "\<exists>x. decode_part (a, b) = Inr x"
proof -
  let ?t = "takeWhile (\<lambda>c. \<not> url_sep c) a"
  have "length a - length b = length ?t" "a = ?t @ b" using assms
    by (metis add_diff_cancel_right' length_append takeWhile_dropWhile_id, metis takeWhile_dropWhile_id)
  moreover have "b = [] \<or> \<not> isxdigit (hd b)"
    using assms hd_dropWhile[of "\<lambda>c. \<not> url_sep c" a] sep_not_xdigit
    by (metis dropWhile_eq_Nil_conv)
  ultimately show ?thesis using decode_stays[of b ?t] by (simp add: decode_part_def)
qed

lemma pbind_total: "\<exists>x. m = Inr x \<Longrightarrow> (\<And>v. m = preturn v \<Longrightarrow> \<exists>x. f v = Inr x) \<Longrightarrow> \<exists>x. pbind m f = Inr x"
proof -
  assume "\<exists>x. m = Inr x" and f: "\<And>v. m = preturn v \<Longrightarrow> \<exists>x. f v = Inr x"
  then obtain x where "m = Inr x" by blast
  with f show ?thesis by (cases x) auto
qed

lemma parse_port_total: "\<exists>x. parse_port a b = Inr x"
  by (simp add: parse_port_def split_beta)

lemma url_authority_total:
  assumes "\<forall>p \<in> set ps. snd p = dropWhile (\<lambda>c. \<not> url_sep c) (fst p)" "ps \<noteq> []" "length ps \<le> 4"
  shows "\<exists>x. url_authority ps url = Inr x"
proof -
  have d: "p \<in> set ps \<Longrightarrow> \<exists>x. decode_part p = Inr x" for p
    using decode_part_total[of "snd p" "fst p"] assms(1) by (metis prod.collapse)
  consider a where "ps = [a]" | a b where "ps = [a, b]" | a b c where "ps = [a, b, c]"
    | a b c e where "ps = [a, b, c, e]"
    using assms(2,3) by (auto simp: length_Suc_conv le_Suc_eq numeral_eq_Suc)
  then show ?thesis
    by cases (use d in \<open>auto simp: url_authority_def intro!: pbind_total parse_port_total\<close>)
qed

lemma url_parts_length: "url_parts n p = (ps, broke, q) \<Longrightarrow> length ps \<le> n \<and> (0 < n \<longrightarrow> ps \<noteq> [])"
  by (induction n p arbitrary: ps broke q rule: url_parts.induct)
     (fastforce simp: url_parts.simps(2) Let_def split: if_splits prod.splits)+

subsection \<open>Properties\<close>




text \<open>A URL whose authority has four separators other than \<open>/\<close> makes the parser abort the
  process: the loop ends without \<open>break\<close>, with the counter at 4, and the \<open>switch\<close> reaches
  \<open>g_assert_not_reached\<close>.\<close>

theorem url_parse_aborts:
  assumes "\<forall>c \<in> set scheme. c \<noteq> CHR '':''" "no_sep a" "no_sep b" "no_sep c" "no_sep d"
    and "\<forall>x \<in> {s1, s2, s3, s4}. url_sep x \<and> x \<noteq> CHR ''/''"
  shows "z_url_parse (scheme @ ''://'' @ a @ s1 # b @ s2 # c @ s3 # d @ s4 # rest) = Inl Assert_failed"
proof -
  have "fst (snd (url_parts 4 (a @ s1 # b @ s2 # c @ s3 # d @ s4 # rest))) = False"
    unfolding four using assms(2-6) by (simp add: url_parts_more)
  then show ?thesis unfolding z_url_parse_def url_scheme_split[OF assms(1)]
    by (simp add: split_beta)
qed

theorem url_parse_aborts_witness: "z_url_parse ''http://a:b:c:d:e/'' = Inl Assert_failed"
  using url_parse_aborts[of "''http''" "''a''" "''b''" "''c''" "''d''"
      "CHR '':''" "CHR '':''" "CHR '':''" "CHR '':''" "''e/''"]
  by (simp add: no_sep_def url_sep_def)

end
