(* ===== verification/Registry.thy ===== *)
theory Registry
  imports Zorp_Prelude
begin

section \<open>The registry\<close>

text \<open>
  \<open>src/registry.c\<close>: a table of named entries for each of the \<open>MAX_REGISTRY_TYPE\<close> types. The
  array \<open>registry\<close> is a list of maps; an index outside it is a \<open>Bad_access\<close>. A value is
  \<open>None\<close> for \<open>NULL\<close>. The Windows registry functions of the file are not modelled.
\<close>

definition MAX_REGISTRY_TYPE :: int where "MAX_REGISTRY_TYPE = 16"

definition MAX_REGISTRY_NAME :: nat where "MAX_REGISTRY_NAME = 32"

record 'v reg_entry =
  re_type :: int
  re_name :: string
  re_value :: "'v option"

type_synonym 'v registry = "(string \<rightharpoonup> 'v reg_entry) list"

definition reg_table :: "'v registry \<Rightarrow> int \<Rightarrow> (string \<rightharpoonup> 'v reg_entry) result" where
  "reg_table reg i = (if 0 \<le> i \<and> i < int (length reg) then Inr (reg ! nat i) else Inl Bad_access)"

definition z_registry_init :: "'v registry" where
  "z_registry_init = replicate (nat MAX_REGISTRY_TYPE) Map.empty"

definition z_registry_add :: "'v registry \<Rightarrow> string \<Rightarrow> int \<Rightarrow> 'v option \<Rightarrow> 'v registry result" where
  "z_registry_add reg name type value =
     (if type < 0 \<or> type > MAX_REGISTRY_TYPE then Inr reg
      else let nm = take (MAX_REGISTRY_NAME - 1) name;
               ze = \<lparr>re_type = type, re_name = nm, re_value = value\<rparr>
        in rbind (reg_table reg type) (\<lambda>t. Inr (reg[nat type := t(nm \<mapsto> ze)])))"

definition z_registry_get_one :: "'v registry \<Rightarrow> string \<Rightarrow> int \<Rightarrow> 'v reg_entry option result" where
  "z_registry_get_one reg name type = rbind (reg_table reg type) (\<lambda>t. Inr (t name))"

text \<open>
  The loop over the types of \<open>z_registry_get\<close> and \<open>z_registry_has_key\<close>: the entry found and the
  counter after the loop.
\<close>

function registry_probe :: "'v registry \<Rightarrow> string \<Rightarrow> int \<Rightarrow> ('v reg_entry option \<times> int) result" where
  "registry_probe reg name i =
     (if i < MAX_REGISTRY_TYPE
      then rbind (z_registry_get_one reg name i) (\<lambda>ze.
        case ze of Some e \<Rightarrow> Inr (Some e, i + 1) | None \<Rightarrow> registry_probe reg name (i + 1))
      else Inr (None, i))"
  by pat_completeness auto
termination by (relation "measure (\<lambda>(reg, name, i). nat (MAX_REGISTRY_TYPE - i))") auto

declare registry_probe.simps [simp del]

text \<open>\<open>type\<close> is \<open>None\<close> for a \<open>NULL\<close> pointer; the second result is what is left in \<open>*type\<close>.\<close>

definition z_registry_get :: "'v registry \<Rightarrow> string \<Rightarrow> int option \<Rightarrow> ('v option \<times> int option) result" where
  "z_registry_get reg name type =
     (if (case type of Some t \<Rightarrow> t > MAX_REGISTRY_TYPE \<or> t < 0 | None \<Rightarrow> False) then Inr (None, type)
      else rbind (case type of
                    None \<Rightarrow> rbind (registry_probe reg name 0) (\<lambda>(ze, i). Inr ze)
                  | Some t \<Rightarrow> if t = 0 then rbind (registry_probe reg name 0) (\<lambda>(ze, i). Inr ze)
                             else z_registry_get_one reg name t)
        (\<lambda>ze. case ze of
             Some e \<Rightarrow> Inr (re_value e, map_option (\<lambda>_. re_type e) type)
           | None \<Rightarrow> Inr (None, type)))"

definition z_registry_has_key :: "'v registry \<Rightarrow> string \<Rightarrow> int result" where
  "z_registry_has_key reg name =
     rbind (registry_probe reg name 0) (\<lambda>(ze, i). Inr (if ze \<noteq> None then i else 0))"

definition z_registry_foreach :: "'v registry \<Rightarrow> int \<Rightarrow> (string \<rightharpoonup> 'v reg_entry) result" where
  "z_registry_foreach reg type = reg_table reg type"

subsection \<open>Well-formed registries\<close>

definition valid_type :: "int \<Rightarrow> bool" where
  "valid_type t \<longleftrightarrow> 0 \<le> t \<and> t < MAX_REGISTRY_TYPE"

definition short_name :: "string \<Rightarrow> bool" where
  "short_name n \<longleftrightarrow> length n < MAX_REGISTRY_NAME"

text \<open>All tables are there, and each entry knows the type and the name it is stored under.\<close>

definition reg_ok :: "'v registry \<Rightarrow> bool" where
  "reg_ok reg \<longleftrightarrow> length reg = nat MAX_REGISTRY_TYPE
     \<and> (\<forall>t n e. valid_type t \<and> (reg ! nat t) n = Some e \<longrightarrow> re_type e = t \<and> re_name e = n \<and> short_name n)"

lemma reg_table_valid: "reg_ok reg \<Longrightarrow> valid_type t \<Longrightarrow> reg_table reg t = Inr (reg ! nat t)"
  by (auto simp: reg_ok_def reg_table_def valid_type_def MAX_REGISTRY_TYPE_def)

lemma reg_ok_init: "reg_ok z_registry_init"
  by (auto simp: reg_ok_def z_registry_init_def valid_type_def MAX_REGISTRY_TYPE_def)

lemma registry_add_ok:
  assumes "reg_ok reg" "valid_type t"
  obtains reg' where "z_registry_add reg name t v = Inr reg'" "reg_ok reg'"
    "\<And>u n. valid_type u \<Longrightarrow> (reg' ! nat u) n =
        (if u = t \<and> n = take 31 name then Some \<lparr>re_type = t, re_name = take 31 name, re_value = v\<rparr>
         else (reg ! nat u) n)"
proof -
  let ?e = "\<lparr>re_type = t, re_name = take 31 name, re_value = v\<rparr>"
  let ?r = "reg[nat t := (reg ! nat t)(take 31 name \<mapsto> ?e)]"
  have len: "length reg = 16" "nat t < 16" "0 \<le> t"
    using assms by (auto simp: reg_ok_def valid_type_def MAX_REGISTRY_TYPE_def)
  have look: "(?r ! nat u) n = (if u = t \<and> n = take 31 name then Some ?e else (reg ! nat u) n)"
    if "valid_type u" for u n
    using that len by (auto simp: nth_list_update valid_type_def MAX_REGISTRY_TYPE_def)
  show thesis
  proof (rule that)
    show "z_registry_add reg name t v = Inr ?r"
      using assms reg_table_valid[OF assms]
      by (simp add: z_registry_add_def valid_type_def MAX_REGISTRY_NAME_def Let_def)
    show "reg_ok ?r" using assms len look unfolding reg_ok_def
      by (auto simp: MAX_REGISTRY_TYPE_def short_name_def MAX_REGISTRY_NAME_def split: if_splits)
  qed (fact look)
qed

lemma registry_probe_spec:
  assumes "reg_ok reg" "0 \<le> i" "i \<le> MAX_REGISTRY_TYPE"
  shows "(\<exists>t e. registry_probe reg name i = Inr (Some e, t + 1) \<and> i \<le> t \<and> valid_type t
            \<and> (reg ! nat t) name = Some e \<and> (\<forall>u. i \<le> u \<and> u < t \<longrightarrow> (reg ! nat u) name = None))
       \<or> registry_probe reg name i = Inr (None, MAX_REGISTRY_TYPE)
            \<and> (\<forall>u. i \<le> u \<and> u < MAX_REGISTRY_TYPE \<longrightarrow> (reg ! nat u) name = None)"
  using assms
proof (induction reg name i rule: registry_probe.induct)
  case (1 reg name i)
  show ?case
  proof (cases "i < MAX_REGISTRY_TYPE")
    case False
    then show ?thesis using 1 by (subst (2) registry_probe.simps) auto
  next
    case True
    then have v: "valid_type i" using 1 by (simp add: valid_type_def)
    have g: "z_registry_get_one reg name i = Inr ((reg ! nat i) name)"
      using reg_table_valid[OF 1(2) v] by (simp add: z_registry_get_one_def)
    show ?thesis
    proof (cases "(reg ! nat i) name")
      case (Some e)
      then have "registry_probe reg name i = Inr (Some e, i + 1)"
        using True g by (subst registry_probe.simps) simp
      then show ?thesis using Some v by auto
    next
      case None
      have e: "registry_probe reg name i = registry_probe reg name (i + 1)"
        using True g None by (subst registry_probe.simps) simp
      have n: "(\<forall>u. i + 1 \<le> u \<and> u < k \<longrightarrow> (reg ! nat u) name = None) \<Longrightarrow>
          (\<forall>u. i \<le> u \<and> u < k \<longrightarrow> (reg ! nat u) name = None)" for k
        using None by (metis add1_zle_eq order_le_less)
      show ?thesis using 1(1)[OF True g None] 1(2-) True n unfolding e by fastforce
    qed
  qed
qed

subsection \<open>Sequences of additions\<close>

type_synonym 'v addition = "(string \<times> int) \<times> 'v option"

fun registry_adds :: "'v addition list \<Rightarrow> 'v registry \<Rightarrow> 'v registry result" where
  "registry_adds [] reg = Inr reg"
| "registry_adds (((name, type), value) # as) reg =
     rbind (z_registry_add reg name type value) (\<lambda>reg'. registry_adds as reg')"

text \<open>The registry holds exactly the bindings \<open>m\<close>.\<close>

definition reg_holds :: "'v registry \<Rightarrow> (string \<times> int \<rightharpoonup> 'v option) \<Rightarrow> bool" where
  "reg_holds reg m \<longleftrightarrow> reg_ok reg
     \<and> (\<forall>t n. valid_type t \<longrightarrow> map_option re_value ((reg ! nat t) n) = m (n, t))"

lemma registry_adds_holds:
  assumes "reg_holds reg m" "\<forall>((n, t), v) \<in> set as. valid_type t \<and> short_name n"
  shows "\<exists>reg'. registry_adds as reg = Inr reg' \<and> reg_holds reg' (m ++ map_of (rev as))"
  using assms
proof (induction as arbitrary: reg m)
  case Nil
  then show ?case by simp
next
  case (Cons a as)
  obtain n t v where a: "a = ((n, t), v)" by (metis prod.exhaust)
  have ok: "reg_ok reg" "valid_type t" "take 31 n = n"
    using Cons.prems a by (auto simp: reg_holds_def short_name_def MAX_REGISTRY_NAME_def)
  obtain r1 where r1: "z_registry_add reg n t v = Inr r1" "reg_ok r1"
    "\<And>u k. valid_type u \<Longrightarrow> (r1 ! nat u) k =
        (if u = t \<and> k = n then Some \<lparr>re_type = t, re_name = n, re_value = v\<rparr> else (reg ! nat u) k)"
    using registry_add_ok[OF ok(1,2), of n v] unfolding ok(3) by blast
  have "reg_holds r1 (m((n, t) \<mapsto> v))"
    using r1(2,3) Cons.prems(1) by (auto simp: reg_holds_def)
  moreover have "\<forall>((n, t), v) \<in> set as. valid_type t \<and> short_name n" using Cons.prems(2) by simp
  ultimately obtain r2 where "registry_adds as r1 = Inr r2"
    "reg_holds r2 (m((n, t) \<mapsto> v) ++ map_of (rev as))" using Cons.IH by blast
  then show ?case using a r1(1) by (auto simp: map_add_upd_left)
qed

lemma reg_holds_init: "reg_holds (z_registry_init :: 'v registry) Map.empty"
proof -
  have "((z_registry_init :: 'v registry) ! nat t) n = None" if "valid_type t" for t and n :: string
    using that by (simp add: z_registry_init_def valid_type_def MAX_REGISTRY_TYPE_def nat_less_iff)
  then show ?thesis using reg_ok_init[where ?'a = 'v] by (simp add: reg_holds_def)
qed

lemma get_typed:
  assumes "reg_holds reg m" "valid_type t" "t \<noteq> 0"
  shows "z_registry_get reg n (Some t) = Inr (case m (n, t) of Some v \<Rightarrow> v | None \<Rightarrow> None, Some t)"
proof -
  have ok: "reg_ok reg" using assms(1) by (simp add: reg_holds_def)
  have "map_option re_value ((reg ! nat t) n) = m (n, t)" using assms by (simp add: reg_holds_def)
  moreover have "(reg ! nat t) n = Some e \<Longrightarrow> re_type e = t" for e
    using ok assms(2) by (auto simp: reg_ok_def)
  ultimately show ?thesis using assms(2,3) reg_table_valid[OF ok assms(2)]
    by (cases "(reg ! nat t) n"; cases "m (n, t)")
       (auto simp: z_registry_get_def z_registry_get_one_def valid_type_def)
qed

lemma get_untyped:
  assumes "reg_holds reg m" "valid_type t" "m (n, t) = Some v" "\<forall>u. 0 \<le> u \<and> u < t \<longrightarrow> m (n, u) = None"
  shows "z_registry_get reg n None = Inr (v, None)" "z_registry_get reg n (Some 0) = Inr (v, Some t)"
    "z_registry_has_key reg n = Inr (t + 1)"
proof -
  have ok: "reg_ok reg" using assms(1) by (simp add: reg_holds_def)
  have look: "valid_type u \<Longrightarrow> map_option re_value ((reg ! nat u) k) = m (k, u)" for u k
    using assms(1) by (simp add: reg_holds_def)
  obtain e where e: "(reg ! nat t) n = Some e" "re_value e = v" using look[OF assms(2), of n] assms(3) by auto
  have te: "re_type e = t" using ok e(1) assms(2) by (auto simp: reg_ok_def)
  have "registry_probe reg n 0 = Inr (Some e, t + 1)"
  proof -
    have "(0 :: int) \<le> MAX_REGISTRY_TYPE" by (simp add: MAX_REGISTRY_TYPE_def)
    from registry_probe_spec[OF ok order_refl this, of n] show ?thesis
    proof (elim disjE exE conjE)
      fix u d assume u: "registry_probe reg n 0 = Inr (Some d, u + 1)" "valid_type u"
        "(reg ! nat u) n = Some d" "\<forall>w. 0 \<le> w \<and> w < u \<longrightarrow> (reg ! nat w) n = None"
      have "\<not> u < t" using u(2,3) assms(4) look[of u n] by (auto simp: valid_type_def)
      moreover have "\<not> t < u" using u(4) e(1) assms(2) by (auto simp: valid_type_def)
      ultimately have "u = t" by simp
      then show ?thesis using u e by simp
    next
      assume "\<forall>u. 0 \<le> u \<and> u < MAX_REGISTRY_TYPE \<longrightarrow> (reg ! nat u) n = None"
      then show ?thesis using e(1) assms(2) by (auto simp: valid_type_def)
    qed
  qed
  then show "z_registry_get reg n None = Inr (v, None)" "z_registry_get reg n (Some 0) = Inr (v, Some t)"
    "z_registry_has_key reg n = Inr (t + 1)"
    using e te by (auto simp: z_registry_get_def z_registry_has_key_def MAX_REGISTRY_TYPE_def)
qed

subsection \<open>Properties\<close>

text \<open>C32: The registry is a table keyed by name and type: after any sequence of additions with
  names of at most 31 characters and types below \<open>MAX_REGISTRY_TYPE\<close>, a lookup by name and non-zero
  type gives the value added last under them, and \<open>NULL\<close> if there is none.\<close>

theorem registry_last_addition:
  assumes "\<forall>((n, t), v) \<in> set as. valid_type t \<and> short_name n" "valid_type type" "type \<noteq> 0"
  shows "\<exists>reg. registry_adds as z_registry_init = Inr reg
     \<and> z_registry_get reg name (Some type)
         = Inr (case map_of (rev as) (name, type) of Some v \<Rightarrow> v | None \<Rightarrow> None, Some type)"
proof -
  obtain reg where "registry_adds as z_registry_init = Inr reg" "reg_holds reg (map_of (rev as))"
    using registry_adds_holds[OF reg_holds_init assms(1)] by auto
  then show ?thesis using get_typed[OF _ assms(2,3)] by auto
qed

theorem registry_last_addition_witness:
  "\<exists>reg. registry_adds [((''http'', 1), Some (10 :: nat)), ((''ftp'', 1), Some 20), ((''http'', 1), Some 30)]
        z_registry_init = Inr reg
     \<and> z_registry_get reg ''http'' (Some 1) = Inr (Some 30, Some 1)"
  using registry_last_addition[of "[((''http'', 1), Some (10 :: nat)), ((''ftp'', 1), Some 20), ((''http'', 1), Some 30)]"
      1 "''http''"]
  by (simp add: valid_type_def short_name_def MAX_REGISTRY_TYPE_def MAX_REGISTRY_NAME_def)

text \<open>Lookups that do not name a type find the entry of the lowest type with the name and report
  that type; \<open>z_registry_has_key\<close>, which should return the type too, returns one more.\<close>

theorem registry_probe_lowest_type:
  assumes "\<forall>((n, t), v) \<in> set as. valid_type t \<and> short_name n" "valid_type type"
    and "map_of (rev as) (name, type) = Some v" "\<forall>u. 0 \<le> u \<and> u < type \<longrightarrow> map_of (rev as) (name, u) = None"
  shows "\<exists>reg. registry_adds as z_registry_init = Inr reg
     \<and> z_registry_get reg name None = Inr (v, None)
     \<and> z_registry_get reg name (Some 0) = Inr (v, Some type)
     \<and> z_registry_has_key reg name = Inr (type + 1)"
proof -
  obtain reg where "registry_adds as z_registry_init = Inr reg" "reg_holds reg (map_of (rev as))"
    using registry_adds_holds[OF reg_holds_init assms(1)] by auto
  then show ?thesis using get_untyped[OF _ assms(2-4)] by auto
qed

theorem registry_probe_lowest_type_witness:
  "\<exists>reg. registry_adds [((''x'', 6), Some (1 :: nat)), ((''x'', 4), Some 2)] z_registry_init = Inr reg
     \<and> z_registry_get reg ''x'' (Some 0) = Inr (Some 2, Some 4) \<and> z_registry_has_key reg ''x'' = Inr 5"
  using registry_probe_lowest_type[of "[((''x'', 6), Some (1 :: nat)), ((''x'', 4), Some 2)]" 4 "''x''" "Some 2"]
  by (auto simp: valid_type_def short_name_def MAX_REGISTRY_TYPE_def MAX_REGISTRY_NAME_def)

text \<open>The guards of the registry are too weak: the type \<open>MAX_REGISTRY_TYPE\<close> itself passes them and
  indexes the array past its end, and an entry whose name has 32 characters or more is stored under
  its first 31 and can not be found by its name.\<close>

theorem registry_weak_guards:
  assumes "reg_ok reg" "valid_type t" "t \<noteq> 0" "\<not> short_name long"
  shows "z_registry_add reg name MAX_REGISTRY_TYPE v = Inl Bad_access
     \<and> z_registry_get reg name (Some MAX_REGISTRY_TYPE) = Inl Bad_access
     \<and> (\<exists>reg'. z_registry_add reg long t v = Inr reg'
          \<and> z_registry_get reg' long (Some t) = Inr (None, Some t))"
proof -
  have "reg_table reg MAX_REGISTRY_TYPE = Inl Bad_access"
    using assms(1) by (simp add: reg_table_def reg_ok_def MAX_REGISTRY_TYPE_def)
  then have oob: "z_registry_add reg name MAX_REGISTRY_TYPE v = Inl Bad_access
     \<and> z_registry_get reg name (Some MAX_REGISTRY_TYPE) = Inl Bad_access"
    by (auto simp: z_registry_add_def z_registry_get_def z_registry_get_one_def MAX_REGISTRY_TYPE_def Let_def)
  obtain r where r: "z_registry_add reg long t v = Inr r" "reg_ok r"
    "\<And>u n. valid_type u \<Longrightarrow> (r ! nat u) n =
        (if u = t \<and> n = take 31 long then Some \<lparr>re_type = t, re_name = take 31 long, re_value = v\<rparr>
         else (reg ! nat u) n)"
    by (rule registry_add_ok[OF assms(1,2)]) blast
  have "(r ! nat t) long = None"
    using r(2) assms(2,4) unfolding reg_ok_def by (metis not_None_eq)
  then have "z_registry_get r long (Some t) = Inr (None, Some t)"
    using assms(2,3) reg_table_valid[OF r(2) assms(2)]
    by (simp add: z_registry_get_def z_registry_get_one_def valid_type_def)
  then show ?thesis using oob r(1) by blast
qed

theorem registry_weak_guards_witness:
  "z_registry_add z_registry_init ''x'' 16 (Some ()) = Inl Bad_access
   \<and> (\<exists>reg'. z_registry_add z_registry_init (replicate 32 CHR ''a'') 1 (Some ()) = Inr reg'
        \<and> z_registry_get reg' (replicate 32 CHR ''a'') (Some 1) = Inr (None, Some 1))"
  using registry_weak_guards[OF reg_ok_init, of 1 "replicate 32 CHR ''a''" "''x''" "Some ()"]
  by (simp add: valid_type_def short_name_def MAX_REGISTRY_TYPE_def MAX_REGISTRY_NAME_def)

end
