(* ===== verification/Streamline.thy ===== *)
theory Streamline
  imports Zorp_Prelude
begin

section \<open>The line oriented stream\<close>

text \<open>
  \<open>src/streamline.c\<close>. The object keeps a buffer of \<open>bufsize\<close> bytes, of which \<open>pos .. end\<close> are
  data not handed out yet, and a word of flags. The stream below is given by the script of what
  its reads return from now on (\<open>child_event\<close>): data in pieces, nothing for the moment, an error,
  and the end of the input after the last event. A returned line is its offset in the buffer and
  its length; \<open>length\<close> is a \<open>gsize\<close> and is computed with wrap-around, as in the code.

  After the definitions: the invariant of the buffer, the input that is still to come, and the
  contract of a call, which says that lines come out as they are in the input however it arrives.
\<close>

unbundle bit_operations_syntax

definition ZRL_EOL_NL :: "32 word" where "ZRL_EOL_NL = 0x00000001"
definition ZRL_EOL_CRLF :: "32 word" where "ZRL_EOL_CRLF = 0x00000002"
definition ZRL_EOL_NUL :: "32 word" where "ZRL_EOL_NUL = 0x00000004"
definition ZRL_EOL_FATAL :: "32 word" where "ZRL_EOL_FATAL = 0x00000008"
definition ZRL_NUL_NONFATAL :: "32 word" where "ZRL_NUL_NONFATAL = 0x00000010"
definition ZRL_TRUNCATE :: "32 word" where "ZRL_TRUNCATE = 0x00000020"
definition ZRL_SPLIT :: "32 word" where "ZRL_SPLIT = 0x00000040"
definition ZRL_SINGLE_READ :: "32 word" where "ZRL_SINGLE_READ = 0x00000080"
definition ZRL_POLL_PARTIAL :: "32 word" where "ZRL_POLL_PARTIAL = 0x00000100"
definition ZRL_RETURN_EOL :: "32 word" where "ZRL_RETURN_EOL = 0x00000200"
definition ZRL_SAVED_FLAGS_MASK :: "32 word" where "ZRL_SAVED_FLAGS_MASK = 0x0000FFFF"
definition ZRL_IGNORE_TILL_EOL :: "32 word" where "ZRL_IGNORE_TILL_EOL = 0x00010000"
definition ZRL_LINE_AVAIL_SET :: "32 word" where "ZRL_LINE_AVAIL_SET = 0x00020000"
definition ZRL_LINE_AVAIL :: "32 word" where "ZRL_LINE_AVAIL = 0x00040000"
definition ZRL_ERROR :: "32 word" where "ZRL_ERROR = 0x00080000"
definition ZRL_EOF :: "32 word" where "ZRL_EOF = 0x00100000"

record zstream_line =
  ln_flags :: "32 word"
  ln_buffer :: bytes
  ln_pos :: nat
  ln_end :: nat
  ln_oldpos :: nat
  ln_child_in :: bool
  ln_child_pri :: bool
  ln_recvd :: nat

datatype line_error = Embedded_NUL | Bad_CRLF | Line_too_long | Stored_error | Child_error | Buffer_too_small

definition fl :: "zstream_line \<Rightarrow> 32 word \<Rightarrow> bool" where
  "fl self f \<longleftrightarrow> ln_flags self AND f \<noteq> 0"

definition set_fl :: "32 word \<Rightarrow> zstream_line \<Rightarrow> zstream_line" where
  "set_fl f self = self\<lparr>ln_flags := ln_flags self OR f\<rparr>"

definition clr_fl :: "32 word \<Rightarrow> zstream_line \<Rightarrow> zstream_line" where
  "clr_fl f self = self\<lparr>ln_flags := ln_flags self AND NOT f\<rparr>"

text \<open>\<open>memchr (buffer + i, c, n)\<close>, as an offset in the buffer.\<close>

fun memchr :: "byte \<Rightarrow> nat \<Rightarrow> bytes \<Rightarrow> nat option" where
  "memchr c i [] = None"
| "memchr c i (x # xs) = (if x = c then Some i else memchr c (Suc i) xs)"

subsection \<open>Lines in the buffer\<close>

definition eol_char :: "zstream_line \<Rightarrow> byte" where
  "eol_char self = (if fl self ZRL_EOL_NUL then 0 else 10)"

definition find_eol :: "zstream_line \<Rightarrow> nat option" where
  "find_eol self = memchr (eol_char self) (ln_pos self)
     (chunk (ln_pos self) (ln_end self - ln_pos self) (ln_buffer self))"

definition z_stream_line_have_line :: "zstream_line \<Rightarrow> zstream_line \<times> bool" where
  "z_stream_line_have_line self =
     (let s = (if \<not> fl self ZRL_LINE_AVAIL_SET
               then let s = set_fl ZRL_LINE_AVAIL_SET self
                 in if find_eol self \<noteq> None then set_fl ZRL_LINE_AVAIL s else clr_fl ZRL_LINE_AVAIL s
               else self)
      in (s, fl s ZRL_LINE_AVAIL))"

definition z_stream_line_buf_empty :: "zstream_line \<Rightarrow> bool" where
  "z_stream_line_buf_empty self \<longleftrightarrow> ln_pos self = ln_end self"

text \<open>Status, offset and length of the line, error.\<close>

type_synonym line_result = "io_status \<times> nat \<times> nat \<times> line_error option"

definition z_stream_line_get_from_buf :: "zstream_line \<Rightarrow> zstream_line \<times> line_result" where
  "z_stream_line_get_from_buf self =
     (let avail = ln_end self - ln_pos self;
          eol = (if fl self ZRL_EOF then Some (int (ln_end self) - 1) else map_option int (find_eol self))
      in case eol of
        Some e \<Rightarrow>
          let line = ln_pos self;
              len = nat (e - int line + 1);
              s = self\<lparr>ln_oldpos := line, ln_pos := line + len\<rparr>
          in if \<not> fl self ZRL_EOL_NUL \<and> 0 \<in> set (chunk line len (ln_buffer self))
                \<and> \<not> fl self ZRL_NUL_NONFATAL
             then (s, IO_ERROR, line, len, Some Embedded_NUL)
             else if fl self ZRL_EOF then (s, IO_NORMAL, line, len, None)
             else
               let ret = (\<lambda>len eol_len. (s, IO_NORMAL, line,
                            if fl self ZRL_RETURN_EOL then addz len eol_len else len, None))
               in if fl self ZRL_EOL_NL \<or> fl self ZRL_EOL_NUL then ret (subz len 1) 1
                  else if fl self ZRL_EOL_CRLF
                  then if e \<ge> 1 \<and> ln_buffer self ! nat (e - 1) = 13 then ret (subz (subz len 1) 1) 2
                    else if fl self ZRL_EOL_FATAL then (s, IO_ERROR, line, subz len 1, Some Bad_CRLF)
                    else ret (subz len 1) 1
                  else ret len 0
      | None \<Rightarrow>
          if ln_pos self \<noteq> 0
          then (self\<lparr>ln_buffer := overwrite 0 (chunk (ln_pos self) avail (ln_buffer self)) (ln_buffer self),
                     ln_end := avail, ln_pos := 0, ln_oldpos := 0\<rparr>, IO_AGAIN, 0, 0, None)
          else (self, IO_AGAIN, 0, 0, None))"

subsection \<open>Fetching a line\<close>

text \<open>From the label \<open>maybe_another_line\<close>: a line that ends a truncated one is skipped.\<close>

definition maybe_another_line :: "zstream_line \<Rightarrow> zstream_line \<times> line_result" where
  "maybe_another_line self =
     (let (s, st, r) = z_stream_line_get_from_buf self
      in if st = IO_NORMAL \<and> fl s ZRL_IGNORE_TILL_EOL
         then z_stream_line_get_from_buf (clr_fl ZRL_IGNORE_TILL_EOL s)
         else (s, st, r))"

definition count_recvd :: "zstream_line \<Rightarrow> nat \<Rightarrow> zstream_line" where
  "count_recvd self n = self\<lparr>ln_recvd := addz (ln_recvd self) n\<rparr>"

definition rewind :: "zstream_line \<Rightarrow> zstream_line" where
  "rewind self = self\<lparr>ln_pos := 0, ln_end := 0, ln_oldpos := 0\<rparr>"

text \<open>
  One round of the \<open>while (1)\<close> loop: it returns (\<open>Done\<close>) or goes on (\<open>More\<close>). A read of zero bytes,
  with a buffer of size zero, makes no progress: the loop is then taken to be endless.
\<close>

datatype line_step = Done zstream_line child line_result | More zstream_line child

text \<open>No room is left in the buffer, and no end of line was found.\<close>

definition line_full :: "zstream_line \<Rightarrow> child \<Rightarrow> line_step" where
  "line_full self es =
     (let bufsize = length (ln_buffer self) in
      if fl self ZRL_TRUNCATE
      then Done (set_fl ZRL_IGNORE_TILL_EOL (rewind (count_recvd self bufsize))) es (IO_NORMAL, 0, bufsize, None)
      else if fl self ZRL_SPLIT
      then Done (rewind (count_recvd self bufsize)) es (IO_AGAIN, 0, bufsize, None)
      else Done (set_fl ZRL_ERROR self) es (IO_ERROR, 0, 0, Some Line_too_long))"

text \<open>The two \<open>switch\<close> statements after the read that returned \<open>rc\<close> and \<open>d\<close>.\<close>

definition line_after_read :: "zstream_line \<Rightarrow> io_status \<Rightarrow> bytes \<Rightarrow> child \<Rightarrow> line_step" where
  "line_after_read self rc d es =
     (case rc of
        IO_ERROR \<Rightarrow> Done (set_fl ZRL_ERROR self) es (IO_ERROR, 0, 0, Some Child_error)
      | IO_AGAIN \<Rightarrow> Done self es (IO_AGAIN, 0, 0, None)
      | _ \<Rightarrow>
          if rc = IO_EOF \<and> (fl self ZRL_EOF \<or> ln_pos self = ln_end self)
          then Done self es (IO_EOF, 0, 0, None)
          else
            let self = (if rc = IO_EOF then set_fl ZRL_EOF self
                        else self\<lparr>ln_buffer := overwrite (ln_end self) d (ln_buffer self),
                                  ln_end := ln_end self + length d\<rparr>);
                (s, st, line, len, err) = maybe_another_line self
            in case st of
              IO_NORMAL \<Rightarrow> Done (count_recvd s len) es (IO_NORMAL, line, len, err)
            | IO_AGAIN \<Rightarrow> if fl s ZRL_SINGLE_READ then Done s es (IO_AGAIN, 0, 0, None) else More s es
            | _ \<Rightarrow> Done s es (st, 0, 0, err))"

definition line_read :: "zstream_line \<Rightarrow> child \<Rightarrow> line_step result" where
  "line_read self es =
     (let avail = length (ln_buffer self) - ln_end self;
          (es', rc, d) = child_read avail es
      in if avail = 0 then Inl Endless_loop else Inr (line_after_read self rc d es'))"

definition line_round :: "zstream_line \<Rightarrow> child \<Rightarrow> line_step result" where
  "line_round self es =
     (if length (ln_buffer self) = ln_end self
      then if fl self ZRL_IGNORE_TILL_EOL then line_read (rewind self) es else Inr (line_full self es)
      else line_read self es)"

subsubsection \<open>Flags\<close>

lemma fl_set: "fl (set_fl g s) f \<longleftrightarrow> fl s f \<or> g AND f \<noteq> 0"
proof -
  have "(x OR g) AND f = (x AND f) OR (g AND f)" for x :: "32 word"
    by (rule bit_word_eqI) (auto simp: bit_simps)
  moreover have "x OR y = 0 \<longleftrightarrow> x = 0 \<and> y = 0" for x y :: "32 word"
    by (auto simp: or_eq_0_iff)
  ultimately show ?thesis by (simp add: fl_def set_fl_def)
qed

lemma fl_clr: "f AND g = 0 \<Longrightarrow> fl (clr_fl g s) f = fl s f"
proof -
  assume fg: "f AND g = 0"
  have "bit f n \<Longrightarrow> \<not> bit g n" for n
    using arg_cong[OF fg, of "\<lambda>w. bit w n"] by (simp add: bit_simps)
  then have "(x AND NOT g) AND f = x AND f" for x
    by (intro bit_word_eqI) (auto simp: bit_simps)
  then show ?thesis by (simp add: fl_def clr_fl_def)
qed

lemma fl_clr_same: "\<not> fl (clr_fl f s) f"
proof -
  have "(x AND NOT f) AND f = 0" for x :: "32 word" by (intro bit_word_eqI) (auto simp: bit_simps)
  then show ?thesis by (simp add: fl_def clr_fl_def)
qed

lemma fl_update [simp]:
  "fl (s\<lparr>ln_buffer := b\<rparr>) f = fl s f" "fl (s\<lparr>ln_pos := n\<rparr>) f = fl s f" "fl (s\<lparr>ln_end := n\<rparr>) f = fl s f"
  "fl (s\<lparr>ln_oldpos := n\<rparr>) f = fl s f" "fl (s\<lparr>ln_recvd := n\<rparr>) f = fl s f"
  "fl (s\<lparr>ln_child_in := c\<rparr>) f = fl s f" "fl (count_recvd s n) f = fl s f" "fl (rewind s) f = fl s f"
  by (simp_all add: fl_def count_recvd_def rewind_def)

lemmas zrl_defs = ZRL_EOL_NL_def ZRL_EOL_CRLF_def ZRL_EOL_NUL_def ZRL_EOL_FATAL_def ZRL_NUL_NONFATAL_def
  ZRL_TRUNCATE_def ZRL_SPLIT_def ZRL_SINGLE_READ_def ZRL_POLL_PARTIAL_def ZRL_RETURN_EOL_def
  ZRL_IGNORE_TILL_EOL_def ZRL_LINE_AVAIL_SET_def ZRL_LINE_AVAIL_def ZRL_ERROR_def ZRL_EOF_def

lemma get_from_buf_eof: "fl s ZRL_EOF \<Longrightarrow> fst (snd (z_stream_line_get_from_buf s)) \<noteq> IO_AGAIN"
  by (simp add: z_stream_line_get_from_buf_def Let_def)

lemma get_from_buf_flags: "fl (fst (z_stream_line_get_from_buf s)) f = fl s f"
  by (auto simp: z_stream_line_get_from_buf_def Let_def split: option.splits)

lemma maybe_another_eof: "fl s ZRL_EOF \<Longrightarrow> fst (snd (maybe_another_line s)) \<noteq> IO_AGAIN"
  using get_from_buf_eof[of s] get_from_buf_flags[of s ZRL_EOF]
    get_from_buf_eof[of "clr_fl ZRL_IGNORE_TILL_EOL (fst (z_stream_line_get_from_buf s))"]
    fl_clr[of ZRL_EOF ZRL_IGNORE_TILL_EOL "fst (z_stream_line_get_from_buf s)"]
  by (auto simp: maybe_another_line_def split_beta zrl_defs)

text \<open>Every round that goes on has read something.\<close>

lemma after_read_more:
  assumes "line_after_read self rc d es = More s es'"
  shows "es' = es \<and> rc = IO_NORMAL"
  using assms maybe_another_eof[of "set_fl ZRL_EOF self"]
  by (auto simp: line_after_read_def Let_def split_beta fl_set zrl_defs split: io_status.splits if_splits)

lemma line_read_more:
  assumes "line_read self es = Inr (More s es')"
  shows "child_size es' < child_size es"
proof -
  define avail where "avail = length (ln_buffer self) - ln_end self"
  obtain es1 rc d where r: "child_read avail es = (es1, rc, d)" by (metis prod.exhaust)
  have a: "0 < avail" "line_after_read self rc d es1 = More s es'"
    using assms r by (auto simp: line_read_def avail_def Let_def split: if_splits)
  have "es \<noteq> []" using r after_read_more[OF a(2)] by auto
  then show ?thesis using child_read_progress[OF a(1)] r after_read_more[OF a(2)] by (metis fst_conv)
qed

lemma line_round_more: "line_round self es = Inr (More s es') \<Longrightarrow> child_size es' < child_size es"
  by (auto simp: line_round_def line_full_def Let_def split: if_splits dest: line_read_more)

function line_loop :: "zstream_line \<Rightarrow> child \<Rightarrow> (zstream_line \<times> child \<times> line_result) result" where
  "line_loop self es =
     rbind (line_round self es) (\<lambda>r. case r of
         Done s es' x \<Rightarrow> Inr (s, es', x)
       | More s es' \<Rightarrow> line_loop s es')"
  by pat_completeness auto
termination by (relation "measure (\<lambda>(self, es). child_size es)") (auto dest: line_round_more)

declare line_loop.simps [simp del]

definition z_stream_line_get_internal ::
    "zstream_line \<Rightarrow> child \<Rightarrow> (zstream_line \<times> child \<times> line_result) result" where
  "z_stream_line_get_internal self es =
     (if fl self ZRL_ERROR then Inr (self, es, IO_ERROR, 0, 0, Some Stored_error)
      else if fl self ZRL_EOF then Inr (self, es, IO_EOF, 0, 0, None)
      else
        let self = clr_fl ZRL_LINE_AVAIL_SET (self\<lparr>ln_child_in := False, ln_child_pri := False\<rparr>)
        in if ln_end self \<noteq> ln_pos self
           then let (s, st, line, len, err) = z_stream_line_get_from_buf self
             in if st = IO_NORMAL then Inr (count_recvd s len, es, IO_NORMAL, line, len, err)
                else if st = IO_ERROR then Inr (set_fl ZRL_ERROR s, es, IO_ERROR, line, len, err)
                else line_loop s es
           else line_loop (rewind self) es)"

text \<open>\<open>z_stream_line_get\<close> adds the log of the error; the stream searched for is the object itself.\<close>

definition z_stream_line_get :: "zstream_line \<Rightarrow> child \<Rightarrow> (zstream_line \<times> child \<times> line_result) result" where
  "z_stream_line_get self es = z_stream_line_get_internal self es"

text \<open>
  \<open>z_stream_line_get_copy\<close> into a buffer of \<open>cap\<close> bytes: status, bytes copied, the length stored in
  \<open>*length\<close>, and the error, which is lost when the buffer is too small.
\<close>

definition z_stream_line_get_copy :: "zstream_line \<Rightarrow> child \<Rightarrow> nat \<Rightarrow>
    (zstream_line \<times> child \<times> io_status \<times> bytes \<times> nat \<times> line_error option) result" where
  "z_stream_line_get_copy self es cap =
     (if cap = 0 then Inr (self, es, IO_AGAIN, [], cap, None)
      else rbind (z_stream_line_get_internal self es) (\<lambda>(s, es', st, line, len, err).
        if st = IO_NORMAL \<or> st = IO_AGAIN \<and> len > 0
        then if len > cap
          then if fl s ZRL_SPLIT
            then let s' = (if ln_end s = 0 then s\<lparr>ln_pos := cap, ln_end := len\<rparr>
                           else s\<lparr>ln_pos := ln_oldpos s + cap\<rparr>)
              in Inr (s', es', IO_AGAIN, chunk line cap (ln_buffer s), cap, err)
            else Inr (s, es', IO_ERROR, [], cap, None)
          else Inr (s, es', st, chunk line len (ln_buffer s), len, err)
        else Inr (s, es', st, [], 0, err)))"

definition z_stream_line_unget_packet_method :: "zstream_line \<Rightarrow> bytes \<Rightarrow> zstream_line \<times> bool" where
  "z_stream_line_unget_packet_method self data =
     (let avail_before = ln_pos self;
          avail_after = length (ln_buffer self) - ln_end self;
          n = length data
      in if avail_before + avail_after > n
         then if avail_before > n
           then (self\<lparr>ln_buffer := overwrite (ln_pos self - n) data (ln_buffer self),
                      ln_pos := ln_pos self - n\<rparr>, True)
           else let rest = chunk (ln_pos self) (ln_end self - ln_pos self) (ln_buffer self)
             in (self\<lparr>ln_buffer := overwrite 0 data (overwrite n rest (ln_buffer self)),
                      ln_end := ln_end self - ln_pos self + n, ln_pos := 0\<rparr>, True)
         else (self, False))"

subsection \<open>Stream methods\<close>

definition z_stream_line_read_callback :: "zstream_line \<Rightarrow> zstream_line" where
  "z_stream_line_read_callback self = self\<lparr>ln_child_in := True\<rparr>"

definition z_stream_line_pri_callback :: "zstream_line \<Rightarrow> zstream_line" where
  "z_stream_line_pri_callback self = self\<lparr>ln_child_pri := True\<rparr>"

definition z_stream_line_read_method ::
    "zstream_line \<Rightarrow> child \<Rightarrow> nat \<Rightarrow> zstream_line \<times> child \<times> io_status \<times> bytes" where
  "z_stream_line_read_method self es count =
     (let avail = ln_end self - ln_pos self in
      if avail \<noteq> 0
      then let n = min count avail;
               s = self\<lparr>ln_oldpos := ln_pos self, ln_pos := ln_pos self + n\<rparr>;
               s = (if ln_pos s = ln_end s then s\<lparr>ln_pos := 0, ln_end := 0\<rparr> else s)
        in (clr_fl ZRL_LINE_AVAIL_SET s, es, IO_NORMAL, chunk (ln_pos self) n (ln_buffer self))
      else let (es', rc, d) = child_read count es
        in (self\<lparr>ln_child_in := False, ln_child_pri := False\<rparr>, es', rc, d))"

text \<open>
  Control messages: the flag that a message sets or gets. \<open>value\<close> is the \<open>gboolean\<close> passed; the
  result is the object, what is stored in \<open>*value\<close>, and the return value, or \<open>None\<close> where the
  message goes to \<open>z_stream_ctrl_method\<close>.
\<close>

definition ZST_LINE_OFS :: nat where "ZST_LINE_OFS = 76 * 2 ^ 8"

definition line_ctrl_flag :: "nat \<Rightarrow> 32 word option" where
  "line_ctrl_flag n =
     (if n = 0x01 then Some ZRL_TRUNCATE else if n = 0x02 then Some ZRL_SPLIT
      else if n = 0x03 then Some ZRL_SINGLE_READ else if n = 0x04 then Some ZRL_POLL_PARTIAL
      else if n = 0x05 then Some ZRL_NUL_NONFATAL else if n = 0x06 then Some ZRL_RETURN_EOL else None)"

definition z_stream_line_ctrl_method ::
    "zstream_line \<Rightarrow> nat \<Rightarrow> bool \<Rightarrow> nat \<Rightarrow> (zstream_line \<times> bool \<times> bool) option" where
  "z_stream_line_ctrl_method self function value vlen =
     (let msg = function mod 2 ^ 16; low = msg mod 256; hi = msg - low in
      if hi \<noteq> ZST_LINE_OFS then None
      else case line_ctrl_flag (if low \<ge> 0x10 then low - 0x10 else low) of
        None \<Rightarrow> None
      | Some f \<Rightarrow>
          if vlen \<noteq> 4 then Some (self, value, False)
          else if low \<ge> 0x10 then Some (if value then set_fl f self else clr_fl f self, value, True)
          else Some (self, fl self f, True))"

text \<open>
  Polling: what the client wants (\<open>want_read\<close>, \<open>want_pri\<close>, \<open>want_write\<close>), whether the source is
  ready, and which conditions are asked of the child (input, output).
\<close>

definition line_readable :: "zstream_line \<Rightarrow> zstream_line \<times> bool" where
  "line_readable self =
     (if fl self ZRL_POLL_PARTIAL
      then (self, \<not> z_stream_line_buf_empty self \<or> ln_child_in self)
      else let (s, have) = z_stream_line_have_line self in (s, have \<or> ln_child_in s))"

definition z_stream_line_watch_prepare ::
    "zstream_line \<Rightarrow> bool \<Rightarrow> bool \<Rightarrow> bool \<Rightarrow> zstream_line \<times> bool \<times> bool \<times> bool" where
  "z_stream_line_watch_prepare self want_read want_pri want_write =
     (let (s, ready) = (if want_read then line_readable self else (self, False));
          child_in = (want_read \<and> \<not> ready)
      in (s, ready \<or> want_pri \<and> ln_child_pri s, child_in, want_write))"

definition z_stream_line_watch_check :: "zstream_line \<Rightarrow> bool \<Rightarrow> bool \<Rightarrow> zstream_line \<times> bool" where
  "z_stream_line_watch_check self want_read want_pri =
     (let (s, ready) = (if want_read then line_readable self else (self, False))
      in (s, ready \<or> want_pri \<and> ln_child_pri s))"

text \<open>Which callback is dispatched.\<close>

definition z_stream_line_watch_dispatch :: "bool \<Rightarrow> bool \<Rightarrow> string option" where
  "z_stream_line_watch_dispatch want_read want_pri =
     (if want_read then Some ''read_cb'' else if want_pri then Some ''pri_cb'' else None)"

definition z_stream_line_extra_save_method :: "zstream_line \<Rightarrow> 32 word" where
  "z_stream_line_extra_save_method self = ln_flags self AND ZRL_SAVED_FLAGS_MASK"

definition z_stream_line_extra_restore_method :: "zstream_line \<Rightarrow> 32 word \<Rightarrow> zstream_line" where
  "z_stream_line_extra_restore_method self extra =
     self\<lparr>ln_flags := (ln_flags self AND NOT ZRL_SAVED_FLAGS_MASK) OR (extra AND ZRL_SAVED_FLAGS_MASK)\<rparr>"

text \<open>\<open>junk\<close> is what the uninitialised buffer holds.\<close>

definition z_stream_line_new :: "bytes \<Rightarrow> 32 word \<Rightarrow> zstream_line" where
  "z_stream_line_new junk flags =
     \<lparr>ln_flags = flags, ln_buffer = junk, ln_pos = 0, ln_end = 0, ln_oldpos = 0,
      ln_child_in = False, ln_child_pri = False, ln_recvd = 0\<rparr>"

subsection \<open>The contract of a call\<close>

definition pending :: "zstream_line \<Rightarrow> bytes" where
  "pending s = chunk (ln_pos s) (ln_end s - ln_pos s) (ln_buffer s)"

definition line_input :: "zstream_line \<Rightarrow> child \<Rightarrow> bytes" where
  "line_input s es = pending s @ child_input es"

text \<open>
  The buffer invariant. The byte before the position is no carriage return, because a line ends
  in a line feed: the code looks at that byte when a line is empty.
\<close>

definition line_inv :: "zstream_line \<Rightarrow> bool" where
  "line_inv s \<longleftrightarrow> ln_pos s \<le> ln_end s \<and> ln_end s \<le> length (ln_buffer s)
     \<and> 0 < length (ln_buffer s) \<and> length (ln_buffer s) < ssize_limit
     \<and> (0 < ln_pos s \<longrightarrow> ln_buffer s ! (ln_pos s - 1) \<noteq> 13)"

text \<open>Lines end in LF or CR LF, and nothing but a too long line is an error.\<close>

definition text_mode :: "zstream_line \<Rightarrow> bool" where
  "text_mode s \<longleftrightarrow> (fl s ZRL_EOL_NL \<or> fl s ZRL_EOL_CRLF) \<and> fl s ZRL_NUL_NONFATAL
     \<and> \<not> fl s ZRL_EOL_NUL \<and> \<not> fl s ZRL_EOL_FATAL \<and> \<not> fl s ZRL_TRUNCATE \<and> \<not> fl s ZRL_SPLIT
     \<and> \<not> fl s ZRL_RETURN_EOL \<and> \<not> fl s ZRL_IGNORE_TILL_EOL \<and> \<not> fl s ZRL_ERROR \<and> \<not> fl s ZRL_EOF"

definition strip_cr :: "zstream_line \<Rightarrow> bytes \<Rightarrow> bytes" where
  "strip_cr s l = (if \<not> fl s ZRL_EOL_NL \<and> l \<noteq> [] \<and> last l = 13 then butlast l else l)"

lemma memchr_None: "memchr c i xs = None \<longleftrightarrow> c \<notin> set xs"
  by (induction c i xs rule: memchr.induct) auto

lemma memchr_Some: "memchr c i xs = Some j \<Longrightarrow>
   \<exists>l r. xs = l @ c # r \<and> c \<notin> set l \<and> j = i + length l"
proof (induction c i xs rule: memchr.induct)
  case (2 c i x xs)
  show ?case
  proof (cases "x = c")
    case True
    then show ?thesis using 2(2) by (intro exI[of _ "[]"] exI[of _ xs]) auto
  next
    case False
    then obtain l r where "xs = l @ c # r" "c \<notin> set l" "j = Suc i + length l" using 2 by auto
    then show ?thesis using False by (intro exI[of _ "x # l"] exI[of _ r]) auto
  qed
qed simp

lemma child_read_clean:
  assumes "child_read n es = (es', rc, d)" "clean es"
  shows "clean es'" "rc = IO_NORMAL \<Longrightarrow> child_input es = d @ child_input es' \<and> length d \<le> n"
    "rc = IO_AGAIN \<Longrightarrow> child_input es' = child_input es" "rc = IO_EOF \<Longrightarrow> child_input es = []"
    "rc \<noteq> IO_ERROR"
  using assms by (cases "(n, es)" rule: child_read.cases; auto simp: clean_def split: if_splits)+

lemma chunk_split:
  assumes "chunk i n xs = l @ c # r" "i + n \<le> length xs"
  shows "chunk i (length l) xs = l" "chunk (i + length l + 1) (n - (length l + 1)) xs = r"
    "xs ! (i + length l) = c" "length l + 1 + length r = n"
proof -
  have len: "length l + 1 + length r = n" using arg_cong[OF assms(1), of length] assms(2) by simp
  have a: "chunk i (length l) xs = take (length l) (chunk i n xs)" using len by (simp add: take_chunk)
  then show "chunk i (length l) xs = l" using assms(1) by simp
  have "chunk (i + length l + 1) (n - (length l + 1)) xs = chunk (length l + 1) (length r) (chunk i n xs)"
    using len by (subst chunk_chunk) auto
  then show "chunk (i + length l + 1) (n - (length l + 1)) xs = r" unfolding assms(1) by (simp add: chunk_def)
  have "(chunk i n xs) ! length l = xs ! (i + length l)" using len assms(2) by (simp add: chunk_def)
  then show "xs ! (i + length l) = c" unfolding assms(1) by simp
qed (use arg_cong[OF assms(1), of length] assms(2) in simp)

lemma last_before_eol:
  assumes "line_inv s" "pending s = l @ 10 # r"
  shows "(1 \<le> int (ln_pos s + length l) \<and> ln_buffer s ! nat (int (ln_pos s + length l) - 1) = 13)
     \<longleftrightarrow> l \<noteq> [] \<and> last l = 13"
proof (cases l rule: rev_cases)
  case Nil
  then show ?thesis using assms(1) by (auto simp: line_inv_def nat_diff_distrib)
next
  case (snoc k x)
  have "ln_pos s + (ln_end s - ln_pos s) \<le> length (ln_buffer s)" using assms(1) by (simp add: line_inv_def)
  moreover have "chunk (ln_pos s) (ln_end s - ln_pos s) (ln_buffer s) = k @ x # 10 # r"
    using assms(2) snoc by (simp add: pending_def)
  ultimately have "ln_buffer s ! (ln_pos s + length k) = x" by (intro chunk_split(3))
  moreover have "nat (int (ln_pos s) + int (length k)) = ln_pos s + length k" by simp
  ultimately show ?thesis using snoc by simp
qed

text \<open>A complete line is in the buffer.\<close>

lemma get_from_buf_line:
  assumes "line_inv s" "text_mode s" "pending s = l @ 10 # r" "10 \<notin> set l"
  obtains s' line len where "z_stream_line_get_from_buf s = (s', IO_NORMAL, line, len, None)"
    "ln_flags s' = ln_flags s" "ln_buffer s' = ln_buffer s" "line_inv s'" "pending s' = r"
    "chunk line len (ln_buffer s') = strip_cr s l"
proof -
  note inv = assms(1)[unfolded line_inv_def] and tm = assms(2)[unfolded text_mode_def]
  let ?p = "ln_pos s" and ?n = "ln_end s - ln_pos s" and ?b = "ln_buffer s"
  have le: "?p + ?n \<le> length ?b" using inv by simp
  note sp = chunk_split[OF assms(3)[unfolded pending_def] le]
  obtain e where e: "find_eol s = Some e"
    using memchr_None[of 10 ?p "pending s"] assms(3) tm
    by (cases "find_eol s") (auto simp: find_eol_def pending_def eol_char_def)
  have "e = ?p + length l"
    using memchr_Some[of 10 ?p "pending s" e] e tm assms(3,4)
    by (auto simp: find_eol_def pending_def eol_char_def append_eq_append_conv2 Cons_eq_append_conv append_eq_Cons_conv)
  then have eol: "find_eol s = Some (?p + length l)" using e by simp
  let ?s = "s\<lparr>ln_oldpos := ?p, ln_pos := ?p + (length l + 1)\<rparr>"
  have fl: "\<not> fl s ZRL_EOF" "\<not> fl s ZRL_EOL_NUL" "fl s ZRL_NUL_NONFATAL" "\<not> fl s ZRL_EOL_FATAL"
    "\<not> fl s ZRL_RETURN_EOL" "fl s ZRL_EOL_NL \<or> fl s ZRL_EOL_CRLF" using tm by auto
  have "ln_end s \<le> length ?b" "length ?b < ssize_limit" using inv by auto
  then have lim: "length l + 1 < size_limit" using sp(4) by simp
  have len: "nat (int (?p + length l) - int ?p + 1) = length l + 1" by simp
  have sub1: "subz (length l + 1) 1 = length l" using lim by (subst subz_le) auto
  have inv': "line_inv ?s" and pend': "pending ?s = r"
    using inv sp by (auto simp: line_inv_def pending_def)
  show thesis
  proof (cases "\<not> fl s ZRL_EOL_NL \<and> l \<noteq> [] \<and> last l = 13")
    case True
    then have sub2: "subz (length l) 1 = length l - 1" using lim by (subst subz_le) (auto simp: Suc_leI)
    have cr: "int (?p + length l) \<ge> 1 \<and> ?b ! nat (int (?p + length l) - 1) = 13"
      using last_before_eol[OF assms(1,3)] True by blast
    have "z_stream_line_get_from_buf s = (?s, IO_NORMAL, ?p, length l - 1, None)"
      unfolding z_stream_line_get_from_buf_def eol Let_def using fl True cr len sub1 sub2 by simp
    moreover have "chunk ?p (length l - 1) ?b = strip_cr s l"
      using sp(1) True take_chunk[of "length l - 1" "length l" ?p ?b] by (simp add: strip_cr_def butlast_conv_take)
    ultimately show thesis using inv' pend' by (intro that[of ?s ?p "length l - 1"]) simp_all
  next
    case False
    then have nocr: "fl s ZRL_EOL_NL \<or> \<not> (int (?p + length l) \<ge> 1 \<and> ?b ! nat (int (?p + length l) - 1) = 13)"
      using last_before_eol[OF assms(1,3)] by blast
    have "z_stream_line_get_from_buf s = (?s, IO_NORMAL, ?p, length l, None)"
      unfolding z_stream_line_get_from_buf_def eol Let_def using fl nocr len sub1 by auto
    moreover have "chunk ?p (length l) ?b = strip_cr s l" using sp(1) False by (auto simp: strip_cr_def)
    ultimately show thesis using inv' pend' by (intro that[of ?s ?p "length l"]) simp_all
  qed
qed

text \<open>No complete line is in the buffer: the data moves to its beginning.\<close>

lemma get_from_buf_none:
  assumes "line_inv s" "text_mode s" "10 \<notin> set (pending s)"
  obtains s' where "z_stream_line_get_from_buf s = (s', IO_AGAIN, 0, 0, None)"
    "ln_flags s' = ln_flags s" "line_inv s'" "pending s' = pending s" "ln_pos s' = 0"
    "length (ln_buffer s') = length (ln_buffer s)" "ln_end s' = length (pending s)"
proof -
  note inv = assms(1)[unfolded line_inv_def] and tm = assms(2)[unfolded text_mode_def]
  have eol: "find_eol s = None"
    using memchr_None[of 10 "ln_pos s" "pending s"] assms(3) tm
    by (simp add: find_eol_def pending_def eol_char_def)
  have lp: "length (pending s) = ln_end s - ln_pos s" using inv by (simp add: pending_def)
  show thesis
  proof (cases "ln_pos s = 0")
    case True
    then show thesis using tm eol assms(1) lp
      by (intro that[of s]) (simp_all add: z_stream_line_get_from_buf_def)
  next
    case False
    let ?s = "s\<lparr>ln_buffer := overwrite 0 (pending s) (ln_buffer s), ln_end := length (pending s),
                ln_pos := 0, ln_oldpos := 0\<rparr>"
    show thesis
    proof (rule that[of ?s])
      show "z_stream_line_get_from_buf s = (?s, IO_AGAIN, 0, 0, None)"
        using False tm eol lp by (simp add: z_stream_line_get_from_buf_def pending_def Let_def)
      have "length (overwrite 0 (pending s) (ln_buffer s)) = length (ln_buffer s)"
        using lp inv by (intro length_overwrite) auto
      then show "line_inv ?s" "length (ln_buffer ?s) = length (ln_buffer s)"
        using lp inv by (auto simp: line_inv_def)
      show "pending ?s = pending s" unfolding pending_def[of ?s] by (simp add: chunk_def overwrite_def)
    qed simp_all
  qed
qed

text \<open>The input has ended: what is left is the last line.\<close>

lemma get_from_buf_eof_line:
  assumes "line_inv s" "text_mode s" "pending s \<noteq> []"
  obtains s' where "z_stream_line_get_from_buf (set_fl ZRL_EOF s) = (s', IO_NORMAL, ln_pos s, length (pending s), None)"
    "ln_flags s' = ln_flags (set_fl ZRL_EOF s)" "ln_buffer s' = ln_buffer s" "pending s' = []"
proof -
  note inv = assms(1)[unfolded line_inv_def] and tm = assms(2)[unfolded text_mode_def]
  have lp: "length (pending s) = ln_end s - ln_pos s" using inv by (simp add: pending_def)
  have f: "fl (set_fl ZRL_EOF s) ZRL_EOF" "fl (set_fl ZRL_EOF s) ZRL_NUL_NONFATAL"
    using tm by (simp_all add: fl_set zrl_defs)
  have g: "ln_pos (set_fl ZRL_EOF s) = ln_pos s" "ln_end (set_fl ZRL_EOF s) = ln_end s"
    "ln_buffer (set_fl ZRL_EOF s) = ln_buffer s" by (simp_all add: set_fl_def)
  let ?s = "(set_fl ZRL_EOF s)\<lparr>ln_oldpos := ln_pos s, ln_pos := ln_end s\<rparr>"
  have "nat (int (ln_end s) - 1 - int (ln_pos s) + 1) = length (pending s)" "ln_pos s + length (pending s) = ln_end s"
    using lp inv by (auto simp: nat_diff_distrib)
  then have "z_stream_line_get_from_buf (set_fl ZRL_EOF s) = (?s, IO_NORMAL, ln_pos s, length (pending s), None)"
    using f g by (simp add: z_stream_line_get_from_buf_def Let_def)
  then show thesis by (intro that[of ?s]) (simp_all add: pending_def set_fl_def)
qed

lemma flags_only:
  assumes "ln_flags s' = ln_flags s"
  shows "text_mode s' = text_mode s" "strip_cr s' = strip_cr s" "fl s' f = fl s f"
  using assms by (auto simp: text_mode_def strip_cr_def fl_def fun_eq_iff)

lemma maybe_another_plain: "text_mode s \<Longrightarrow> maybe_another_line s = z_stream_line_get_from_buf s"
  using get_from_buf_flags[of s ZRL_IGNORE_TILL_EOL]
  by (auto simp: maybe_another_line_def text_mode_def split_beta)

definition weight :: "zstream_line \<Rightarrow> child \<Rightarrow> nat" where
  "weight s es = 2 * child_size es + length (pending s)"

text \<open>
  What a call gives for the input \<open>P\<close>: its next line, its unterminated rest once the child is at
  its end, nothing for now with nothing lost, the end, or an error if no line end is among the
  first \<open>bufsize\<close> bytes. \<open>W\<close> bounds the calls to come.
\<close>

definition delivers :: "zstream_line \<Rightarrow> bytes \<Rightarrow> nat \<Rightarrow> zstream_line \<times> child \<times> line_result \<Rightarrow> bool" where
  "delivers s P W r = (case r of (s', es', st, line, len, err) \<Rightarrow>
     let again = line_inv s' \<and> text_mode s' \<and> clean es' \<and> strip_cr s' = strip_cr s
           \<and> length (ln_buffer s') = length (ln_buffer s) \<and> weight s' es' < W
     in case st of
       IO_NORMAL \<Rightarrow>
         again \<and> (\<exists>l. P = l @ 10 # line_input s' es' \<and> 10 \<notin> set l \<and> chunk line len (ln_buffer s') = strip_cr s l)
         \<or> 10 \<notin> set P \<and> P \<noteq> [] \<and> chunk line len (ln_buffer s') = P \<and> fl s' ZRL_EOF \<and> \<not> fl s' ZRL_ERROR
     | IO_AGAIN \<Rightarrow> again \<and> line_input s' es' = P
     | IO_EOF \<Rightarrow> P = []
     | IO_ERROR \<Rightarrow> err = Some Line_too_long \<and> length (ln_buffer s) \<le> length P
         \<and> 10 \<notin> set (take (length (ln_buffer s)) P))"

lemma count_recvd_simps [simp]:
  "ln_flags (count_recvd s n) = ln_flags s" "ln_buffer (count_recvd s n) = ln_buffer s"
  "pending (count_recvd s n) = pending s" "line_inv (count_recvd s n) = line_inv s"
  "child_size [] = 0"
  by (simp_all add: count_recvd_def pending_def line_inv_def child_size_def)

lemma line_input_count [simp]: "line_input (count_recvd s n) es = line_input s es" "weight (count_recvd s n) es = weight s es"
  by (simp_all add: line_input_def weight_def)

lemma delivers_line:
  assumes "line_inv s" "text_mode s" "pending s = l @ 10 # r" "10 \<notin> set l" "clean es"
    "P = pending s @ child_input es" "weight s es \<le> W" "ln_flags s0 = ln_flags s"
    "length (ln_buffer s0) = length (ln_buffer s)"
  obtains s' line len where "z_stream_line_get_from_buf s = (s', IO_NORMAL, line, len, None)"
    "delivers s0 P W (count_recvd s' len, es, IO_NORMAL, line, len, None)"
proof -
  obtain s' line len where g: "z_stream_line_get_from_buf s = (s', IO_NORMAL, line, len, None)"
    "ln_flags s' = ln_flags s" "ln_buffer s' = ln_buffer s" "line_inv s'" "pending s' = r"
    "chunk line len (ln_buffer s') = strip_cr s l"
    by (rule get_from_buf_line[OF assms(1-4)])
  note f = flags_only[OF g(2)] flags_only[OF assms(8)]
  have fc: "text_mode (count_recvd s' len) = text_mode s'" "strip_cr (count_recvd s' len) = strip_cr s'"
    by (rule flags_only, simp)+
  have "weight s' es < W" using assms(3,7) g(5) by (simp add: weight_def)
  then have "delivers s0 P W (count_recvd s' len, es, IO_NORMAL, line, len, None)"
    using g f fc assms by (auto simp: delivers_def line_input_def)
  then show thesis using g(1) by (rule that[rotated])
qed

lemma text_flags:
  assumes "text_mode s"
  shows "\<not> fl s ZRL_EOF" "\<not> fl s ZRL_ERROR" "\<not> fl s ZRL_IGNORE_TILL_EOL" "\<not> fl s ZRL_TRUNCATE" "\<not> fl s ZRL_SPLIT"
  using assms by (auto simp: text_mode_def)

lemma append_read:
  assumes "line_inv s" "ln_pos s = 0" "length d \<le> length (ln_buffer s) - ln_end s"
  defines "s1 \<equiv> s\<lparr>ln_buffer := overwrite (ln_end s) d (ln_buffer s), ln_end := ln_end s + length d\<rparr>"
  shows "line_inv s1" "pending s1 = pending s @ d" "length (ln_buffer s1) = length (ln_buffer s)"
    "ln_pos s1 = 0" "ln_flags s1 = ln_flags s"
proof -
  note inv = assms(1)[unfolded line_inv_def]
  have le: "ln_end s + length d \<le> length (ln_buffer s)" using inv assms(3) by linarith
  then show l: "length (ln_buffer s1) = length (ln_buffer s)" by (simp add: s1_def)
  then show "line_inv s1" using inv le assms(2) by (simp add: line_inv_def s1_def)
  show "pending s1 = pending s @ d" using le assms(2) by (simp add: s1_def pending_def chunk_def overwrite_def)
qed (simp_all add: s1_def assms(2))

lemma line_loop_delivers:
  assumes "line_inv s" "text_mode s" "ln_pos s = 0" "10 \<notin> set (pending s)" "clean es"
    "ln_flags s0 = ln_flags s" "length (ln_buffer s0) = length (ln_buffer s)" "weight s es \<le> W"
  shows "\<exists>r. line_loop s es = Inr r \<and> delivers s0 (line_input s es) W r"
  using assms
proof (induction s es rule: line_loop.induct)
  case (1 s es)
  note inv = 1(2)[unfolded line_inv_def] and tf = text_flags[OF 1(3)]
  have pl: "length (pending s) = ln_end s" using inv 1(4) by (simp add: pending_def)
  show ?case
  proof (cases "length (ln_buffer s) = ln_end s")
    case True
    have "delivers s0 (line_input s es) W (set_fl ZRL_ERROR s, es, IO_ERROR, 0, 0, Some Line_too_long)"
      using True pl 1(5,8) by (simp add: delivers_def line_input_def)
    moreover have "line_round s es = Inr (Done (set_fl ZRL_ERROR s) es (IO_ERROR, 0, 0, Some Line_too_long))"
      using True tf by (simp add: line_round_def line_full_def)
    ultimately show ?thesis by (subst line_loop.simps) simp
  next
    case False
    define avail where "avail = length (ln_buffer s) - ln_end s"
    have av: "0 < avail" using False inv by (simp add: avail_def)
    obtain es' rc d where r: "child_read avail es = (es', rc, d)" by (metis prod.exhaust)
    note cr = child_read_clean[OF r 1(6)]
    have rnd: "line_round s es = Inr (line_after_read s rc d es')"
      using False r av by (simp add: line_round_def line_read_def avail_def)
    have f0: "strip_cr s = strip_cr s0" "text_mode s0" using flags_only[OF 1(7)] 1(3) by simp_all
    show ?thesis
    proof (cases rc)
      case IO_ERROR
      then show ?thesis using cr(5) by simp
    next
      case IO_AGAIN
      have "es \<noteq> []" using r IO_AGAIN by auto
      then have "child_size es' < child_size es" using child_read_progress[OF av] r by (metis fst_conv)
      then have "delivers s0 (line_input s es) W (s, es', IO_AGAIN, 0, 0, None)"
        using 1(2,3,8,9) cr(1,3) IO_AGAIN f0 by (simp add: delivers_def line_input_def weight_def)
      then show ?thesis using rnd IO_AGAIN by (subst line_loop.simps) (simp add: line_after_read_def)
    next
      case IO_EOF
      then have P: "line_input s es = pending s" using cr(4) by (simp add: line_input_def)
      show ?thesis
      proof (cases "ln_pos s = ln_end s")
        case True
        then have "delivers s0 (line_input s es) W (s, es', IO_EOF, 0, 0, None)"
          using P by (simp add: delivers_def pending_def)
        then show ?thesis using rnd IO_EOF True by (subst line_loop.simps) (simp add: line_after_read_def)
      next
        case False
        then have ne: "pending s \<noteq> []" using pl 1(4) by auto
        obtain s' where g: "z_stream_line_get_from_buf (set_fl ZRL_EOF s)
            = (s', IO_NORMAL, ln_pos s, length (pending s), None)"
          "ln_flags s' = ln_flags (set_fl ZRL_EOF s)" "ln_buffer s' = ln_buffer s"
          by (rule get_from_buf_eof_line[OF 1(2,3) ne])
        have fs: "fl s' f = fl (set_fl ZRL_EOF s) f" for f by (rule flags_only(3)[OF g(2)])
        have "\<not> fl (set_fl ZRL_EOF s) ZRL_IGNORE_TILL_EOL" using tf by (simp add: fl_set zrl_defs)
        then have m: "maybe_another_line (set_fl ZRL_EOF s) = (s', IO_NORMAL, ln_pos s, length (pending s), None)"
          using g(1) fs by (simp add: maybe_another_line_def)
        have "chunk (ln_pos s) (length (pending s)) (ln_buffer s) = pending s"
          using pl 1(4) by (simp add: pending_def)
        moreover have "fl (count_recvd s' n) ZRL_EOF" "\<not> fl (count_recvd s' n) ZRL_ERROR" for n
          using fs tf by (simp_all add: fl_set zrl_defs)
        ultimately have "delivers s0 (line_input s es) W
            (count_recvd s' (length (pending s)), es', IO_NORMAL, ln_pos s, length (pending s), None)"
          using P ne 1(5) g(3) by (simp add: delivers_def)
        then show ?thesis using rnd IO_EOF False m tf
          by (subst line_loop.simps) (simp add: line_after_read_def)
      qed
    next
      case IO_NORMAL
      then have d: "child_input es = d @ child_input es'" "length d \<le> avail" using cr(2) by auto
      define s1 where "s1 = s\<lparr>ln_buffer := overwrite (ln_end s) d (ln_buffer s), ln_end := ln_end s + length d\<rparr>"
      note ar = append_read[OF 1(2,4) d(2)[unfolded avail_def], folded s1_def]
      have tot: "line_input s es = pending s1 @ child_input es'" using d(1) ar(2) by (simp add: line_input_def)
      have tm: "text_mode s1" using flags_only(1)[OF ar(5)] 1(3) by simp
      have fl0: "ln_flags s0 = ln_flags s1" using ar(5) 1(7) by simp
      have len0: "length (ln_buffer s0) = length (ln_buffer s1)" using ar(3) 1(8) by simp
      have w: "weight s1 es' < W"
      proof -
        have "es \<noteq> []" using r IO_NORMAL by auto
        then have "2 * child_size es' + length d < 2 * child_size es"
          using r av by (cases "(avail, es)" rule: child_read.cases) (auto simp: child_size_def split: if_splits)
        then show ?thesis using 1(9) ar(2) by (simp add: weight_def)
      qed
      have after: "line_after_read s rc d es' = (case maybe_another_line s1 of (t, st, line, len, err) \<Rightarrow>
          (case st of IO_NORMAL \<Rightarrow> Done (count_recvd t len) es' (IO_NORMAL, line, len, err)
            | IO_AGAIN \<Rightarrow> if fl t ZRL_SINGLE_READ then Done t es' (IO_AGAIN, 0, 0, None) else More t es'
            | _ \<Rightarrow> Done t es' (st, 0, 0, err)))"
        using IO_NORMAL by (simp add: line_after_read_def s1_def Let_def)
      show ?thesis
      proof (cases "10 \<in> set (pending s1)")
        case True
        obtain l q where lq: "pending s1 = l @ 10 # q" "10 \<notin> set l" using split_list_first[OF True] by blast
        obtain s' line len where "z_stream_line_get_from_buf s1 = (s', IO_NORMAL, line, len, None)"
          "delivers s0 (line_input s es) W (count_recvd s' len, es', IO_NORMAL, line, len, None)"
          by (rule delivers_line[OF ar(1) tm lq cr(1) tot _ fl0 len0, of "W"]) (use w in auto)
        then show ?thesis using rnd after maybe_another_plain[OF tm] by (subst line_loop.simps) simp
      next
        case False
        obtain s2 where g: "z_stream_line_get_from_buf s1 = (s2, IO_AGAIN, 0, 0, None)"
          "ln_flags s2 = ln_flags s1" "line_inv s2" "pending s2 = pending s1" "ln_pos s2 = 0"
          "length (ln_buffer s2) = length (ln_buffer s1)"
          by (rule get_from_buf_none[OF ar(1) tm False]) blast
        have tm2: "text_mode s2" "strip_cr s2 = strip_cr s0"
          using flags_only[OF g(2)] flags_only[OF fl0] tm by simp_all
        have w2: "weight s2 es' < W" using w g(4) by (simp add: weight_def)
        have tot2: "line_input s2 es' = line_input s es" using tot g(4) by (simp add: line_input_def)
        show ?thesis
        proof (cases "fl s2 ZRL_SINGLE_READ")
          case True
          have "delivers s0 (line_input s es) W (s2, es', IO_AGAIN, 0, 0, None)"
            using g tm2 w2 tot2 cr(1) len0 by (simp add: delivers_def)
          then show ?thesis using rnd after maybe_another_plain[OF tm] g(1) True by (subst line_loop.simps) simp
        next
          case F: False
          have rr: "line_round s es = Inr (More s2 es')"
            using rnd after maybe_another_plain[OF tm] g(1) F by simp
          have "\<exists>r. line_loop s2 es' = Inr r \<and> delivers s0 (line_input s2 es') W r"
            by (rule 1(1)[OF rr refl g(3) tm2(1) g(5) _ cr(1)]) (use False g fl0 len0 w2 in auto)
          then show ?thesis using rr tot2 by (subst line_loop.simps) simp
        qed
      qed
    qed
  qed
qed

lemma text_mode_avail [simp]:
  "text_mode (clr_fl ZRL_LINE_AVAIL_SET s) = text_mode s"
  "strip_cr (clr_fl ZRL_LINE_AVAIL_SET s) = strip_cr s"
  by (simp_all add: text_mode_def strip_cr_def fl_clr zrl_defs fun_eq_iff)

lemma get_internal_delivers:
  assumes "line_inv s" "text_mode s" "clean es"
  shows "\<exists>r. z_stream_line_get_internal s es = Inr r \<and> delivers s (line_input s es) (weight s es) r"
proof -
  note tf = text_flags[OF assms(2)]
  define s0 where "s0 = clr_fl ZRL_LINE_AVAIL_SET (s\<lparr>ln_child_in := False, ln_child_pri := False\<rparr>)"
  have st: "ln_pos s0 = ln_pos s" "ln_end s0 = ln_end s" "ln_buffer s0 = ln_buffer s"
    by (simp_all add: s0_def clr_fl_def)
  have inv: "line_inv s0" "pending s0 = pending s" using assms(1) st by (simp_all add: line_inv_def pending_def)
  let ?s1 = "s\<lparr>ln_child_in := False, ln_child_pri := False\<rparr>"
  have "ln_flags ?s1 = ln_flags s" by simp
  note f1 = flags_only[OF this]
  have tm: "text_mode s0" "strip_cr s0 = strip_cr s" using f1 assms(2) by (simp_all add: s0_def)
  have wt: "weight s0 es = weight s es" "line_input s0 es = line_input s es"
    using inv(2) by (simp_all add: weight_def line_input_def)
  have conv: "delivers s0 P W r = delivers s P W r" for P W r
    by (simp only: delivers_def tm(2) st(3))
  have go: "z_stream_line_get_internal s es =
      (if ln_end s0 \<noteq> ln_pos s0
       then case z_stream_line_get_from_buf s0 of (t, st, line, len, err) \<Rightarrow>
         if st = IO_NORMAL then Inr (count_recvd t len, es, IO_NORMAL, line, len, err)
         else if st = IO_ERROR then Inr (set_fl ZRL_ERROR t, es, IO_ERROR, line, len, err)
         else line_loop t es
       else line_loop (rewind s0) es)"
    using tf by (simp add: z_stream_line_get_internal_def s0_def Let_def)
  show ?thesis
  proof (cases "10 \<in> set (pending s0)")
    case True
    obtain l q where lq: "pending s0 = l @ 10 # q" "10 \<notin> set l" using split_list_first[OF True] by blast
    have ne: "ln_end s0 \<noteq> ln_pos s0" using True by (auto simp: pending_def)
    obtain s' line len where g: "z_stream_line_get_from_buf s0 = (s', IO_NORMAL, line, len, None)"
      "delivers s0 (line_input s es) (weight s es) (count_recvd s' len, es, IO_NORMAL, line, len, None)"
      by (rule delivers_line[OF inv(1) tm(1) lq assms(3), of "line_input s es" "weight s es" s0])
         (use wt in \<open>auto simp: line_input_def\<close>)
    then show ?thesis using go ne conv by simp
  next
    case False
    show ?thesis
    proof (cases "ln_end s0 = ln_pos s0")
      case True
      have p: "pending (rewind s0) = []" "pending s0 = []" using True by (simp_all add: pending_def rewind_def)
      have "line_inv (rewind s0)" using inv(1) by (simp add: line_inv_def rewind_def)
      moreover have fr: "ln_flags s0 = ln_flags (rewind s0)" by (simp add: rewind_def)
      moreover have "text_mode (rewind s0)" using flags_only(1)[OF fr] tm(1) by simp
      moreover have "weight (rewind s0) es = weight s es" "line_input (rewind s0) es = line_input s es"
        using p wt by (simp_all add: weight_def line_input_def)
      ultimately have "\<exists>r. line_loop (rewind s0) es = Inr r \<and> delivers s0 (line_input s es) (weight s es) r"
        using line_loop_delivers[of "rewind s0" es s0 "weight s es"] p(1) assms(3) by (simp add: rewind_def)
      then show ?thesis using go True conv by simp
    next
      case ne: False
      obtain t where t: "z_stream_line_get_from_buf s0 = (t, IO_AGAIN, 0, 0, None)"
        "ln_flags t = ln_flags s0" "line_inv t" "pending t = pending s0" "ln_pos t = 0"
        "length (ln_buffer t) = length (ln_buffer s0)"
        by (rule get_from_buf_none[OF inv(1) tm(1) False]) blast
      have "weight t es = weight s es" "line_input t es = line_input s es"
        using t(4) wt by (simp_all add: weight_def line_input_def)
      then have "\<exists>r. line_loop t es = Inr r \<and> delivers s0 (line_input s es) (weight s es) r"
        using line_loop_delivers[of t es s0 "weight s es"] t False assms(3) flags_only(1)[OF t(2)] tm(1) by simp
      then show ?thesis using go ne t(1) conv by simp
    qed
  qed
qed

subsection \<open>Reading to the end\<close>

text \<open>
  A client that calls \<open>z_stream_line_get\<close> until the end of the input or an error, at most \<open>n\<close>
  times: the lines, and the status it ended with (\<open>None\<close>: more calls are needed).
\<close>

fun get_lines :: "nat \<Rightarrow> zstream_line \<Rightarrow> child \<Rightarrow> (bytes list \<times> io_status option) result" where
  "get_lines 0 s es = Inr ([], None)"
| "get_lines (Suc n) s es =
     rbind (z_stream_line_get s es) (\<lambda>(s', es', st, line, len, err).
       if st = IO_NORMAL
       then rbind (get_lines n s' es') (\<lambda>(ls, e). Inr (chunk line len (ln_buffer s') # ls, e))
       else if st = IO_AGAIN then get_lines n s' es'
       else Inr ([], Some st))"

text \<open>The lines of a text: split at LF, with a last unterminated line.\<close>

function lines_of :: "bytes \<Rightarrow> bytes list" where
  "lines_of P =
     (if 10 \<in> set P then takeWhile (\<lambda>c. c \<noteq> 10) P # lines_of (tl (dropWhile (\<lambda>c. c \<noteq> 10) P))
      else if P = [] then [] else [P])"
  by pat_completeness auto
termination
proof (relation "measure length", simp)
  fix P :: bytes assume "10 \<in> set P"
  then have "dropWhile (\<lambda>c. c \<noteq> 10) P \<noteq> []" by (auto simp: dropWhile_eq_Nil_conv)
  moreover have "length (dropWhile (\<lambda>c. c \<noteq> 10) P) \<le> length P" by (rule length_dropWhile_le)
  ultimately show "(tl (dropWhile (\<lambda>c. c \<noteq> 10) P), P) \<in> measure length"
    by (cases "dropWhile (\<lambda>c. c \<noteq> 10) P") auto
qed

declare lines_of.simps [simp del]

lemma lines_of_line: "10 \<notin> set l \<Longrightarrow> lines_of (l @ 10 # r) = l # lines_of r"
proof -
  assume "10 \<notin> set l"
  then have "takeWhile (\<lambda>c. c \<noteq> 10) (l @ 10 # r) = l" by (subst takeWhile_append2) auto
  moreover have "dropWhile (\<lambda>c. c \<noteq> 10) (l @ 10 # r) = 10 # r"
    using \<open>10 \<notin> set l\<close> by (subst dropWhile_append2) auto
  ultimately show ?thesis by (subst lines_of.simps) simp
qed

lemma lines_of_rest: "10 \<notin> set P \<Longrightarrow> lines_of P = (if P = [] then [] else [P])"
  by (subst lines_of.simps) simp

text \<open>The terminated lines lose their CR; the last, unterminated one does not.\<close>

definition ends_in_line :: "bytes \<Rightarrow> bool" where
  "ends_in_line P \<longleftrightarrow> P = [] \<or> last P = 10"

definition stripped_lines :: "zstream_line \<Rightarrow> bytes \<Rightarrow> bytes list" where
  "stripped_lines s P =
     (if ends_in_line P then map (strip_cr s) (lines_of P)
      else map (strip_cr s) (butlast (lines_of P)) @ [last (lines_of P)])"

lemma stripped_line:
  assumes "10 \<notin> set l"
  shows "stripped_lines s (l @ 10 # r) = strip_cr s l # stripped_lines s r"
proof (cases "r = []")
  case True
  then show ?thesis using assms by (simp add: stripped_lines_def lines_of_line ends_in_line_def lines_of_rest)
next
  case False
  then have "lines_of r \<noteq> []" by (subst lines_of.simps) auto
  then show ?thesis using False assms
    by (simp add: stripped_lines_def lines_of_line ends_in_line_def)
qed

lemma stripped_rest:
  assumes "10 \<notin> set P"
  shows "stripped_lines s P = (if P = [] then [] else [P])"
proof -
  have "P \<noteq> [] \<Longrightarrow> last P \<noteq> 10" using assms last_in_set by metis
  then show ?thesis using lines_of_rest[OF assms] by (auto simp: stripped_lines_def ends_in_line_def)
qed

lemma get_lines_all:
  assumes "line_inv s" "text_mode s" "clean es" "\<forall>l \<in> set (lines_of (line_input s es)). length l < length (ln_buffer s)"
    "weight s es + 2 \<le> n"
  shows "get_lines n s es = Inr (stripped_lines s (line_input s es), Some IO_EOF)"
  using assms
proof (induction n arbitrary: s es)
  case 0
  then show ?case by simp
next
  case (Suc n)
  obtain s' es' st line len err where
    r: "z_stream_line_get s es = Inr (s', es', st, line, len, err)"
      "delivers s (line_input s es) (weight s es) (s', es', st, line, len, err)"
    using get_internal_delivers[OF Suc.prems(1-3)] unfolding z_stream_line_get_def by (metis prod.exhaust)
  let ?P = "line_input s es"
  show ?case
  proof (cases st)
    case IO_EOF
    then show ?thesis using r by (simp add: delivers_def stripped_lines_def ends_in_line_def lines_of.simps)
  next
    case IO_ERROR
    then have long: "length (ln_buffer s) \<le> length ?P" "10 \<notin> set (take (length (ln_buffer s)) ?P)"
      using r(2) by (simp_all add: delivers_def)
    have False
    proof (cases "10 \<in> set ?P")
      case True
      obtain l q where lq: "?P = l @ 10 # q" "10 \<notin> set l" using split_list_first[OF True] by blast
      have "length l < length (ln_buffer s)" using Suc.prems(4) lq by (simp add: lines_of_line)
      then have "10 \<in> set (take (length (ln_buffer s)) ?P)" unfolding lq(1)
        by (cases "length (ln_buffer s) - length l") auto
      then show False using long by simp
    next
      case False
      have "0 < length (ln_buffer s)" using Suc.prems(1) by (simp add: line_inv_def)
      then have "?P \<noteq> []" using long(1) by auto
      then show False using Suc.prems(4) lines_of_rest[OF False] long(1) by simp
    qed
    then show ?thesis ..
  next
    case IO_AGAIN
    then have a: "line_inv s'" "text_mode s'" "clean es'" "strip_cr s' = strip_cr s"
      "length (ln_buffer s') = length (ln_buffer s)" "weight s' es' < weight s es" "line_input s' es' = ?P"
      using r(2) by (simp_all add: delivers_def)
    have "stripped_lines s' ?P = stripped_lines s ?P" using a(4) by (simp add: stripped_lines_def)
    moreover have "get_lines n s' es' = Inr (stripped_lines s' (line_input s' es'), Some IO_EOF)"
      by (rule Suc.IH[OF a(1-3)]) (use a Suc.prems in auto)
    ultimately show ?thesis using r(1) IO_AGAIN a(7) by simp
  next
    case IO_NORMAL
    then consider l where "line_inv s'" "text_mode s'" "clean es'" "strip_cr s' = strip_cr s"
        "length (ln_buffer s') = length (ln_buffer s)" "weight s' es' < weight s es"
        "?P = l @ 10 # line_input s' es'" "10 \<notin> set l" "chunk line len (ln_buffer s') = strip_cr s l"
      | "10 \<notin> set ?P" "?P \<noteq> []" "chunk line len (ln_buffer s') = ?P" "fl s' ZRL_EOF" "\<not> fl s' ZRL_ERROR"
      using r(2) by (auto simp: delivers_def Let_def)
    then show ?thesis
    proof cases
      case 1
      have "get_lines n s' es' = Inr (stripped_lines s' (line_input s' es'), Some IO_EOF)"
        by (rule Suc.IH[OF 1(1-3)]) (use 1 Suc.prems in \<open>auto simp: lines_of_line\<close>)
      moreover have "stripped_lines s' Q = stripped_lines s Q" for Q using 1(4) by (simp add: stripped_lines_def)
      ultimately show ?thesis using r(1) IO_NORMAL 1(7-9) by (simp add: stripped_line)
    next
      case 2
      obtain m where "n = Suc m" using Suc.prems(5) by (cases n) auto
      then have "get_lines n s' es' = Inr ([], Some IO_EOF)"
        using 2(4,5) by (simp add: z_stream_line_get_def z_stream_line_get_internal_def)
      then show ?thesis using r(1) IO_NORMAL 2(2,3) stripped_rest[OF 2(1)] by simp
    qed
  qed
qed

subsection \<open>Properties\<close>

text \<open>C4: The lines that come out are the lines that went in: on a new line stream in LF or CR LF
  mode, whatever the pieces and pauses in which the child delivers a text, a client that keeps
  calling \<open>z_stream_line_get\<close> gets exactly the lines of the text, without their line ends and with
  an unterminated last line, and then the end of the input, provided each line is shorter than the
  buffer. The number of calls it takes is bounded.\<close>

theorem line_stream_delivers_lines:
  assumes "0 < length junk" "length junk < ssize_limit" "text_mode (z_stream_line_new junk flags)" "clean es"
    and "\<forall>l \<in> set (lines_of (child_input es)). length l < length junk"
    and "2 * child_size es + 2 \<le> n"
  shows "get_lines n (z_stream_line_new junk flags) es
     = Inr (stripped_lines (z_stream_line_new junk flags) (child_input es), Some IO_EOF)"
proof -
  let ?s = "z_stream_line_new junk flags"
  have "line_inv ?s" "pending ?s = []" "ln_buffer ?s = junk"
    using assms(1,2) by (simp_all add: line_inv_def z_stream_line_new_def pending_def)
  then show ?thesis using get_lines_all[of ?s es n] assms(3-6) by (simp add: line_input_def weight_def)
qed

theorem line_stream_delivers_lines_witness:
  "get_lines 100 (z_stream_line_new (replicate 8 0) (ZRL_EOL_CRLF OR ZRL_NUL_NONFATAL))
     [Data [65, 13], Again, Data [10, 66, 10, 10], Data [67]]
   = Inr ([[65], [66], [], [67]], Some IO_EOF)"
proof -
  let ?s = "z_stream_line_new (replicate 8 0) (ZRL_EOL_CRLF OR ZRL_NUL_NONFATAL)"
  let ?es = "[Data [65, 13], Again, Data [10, 66, 10, 10], Data [67]]"
  have tm: "text_mode ?s" by (simp add: text_mode_def fl_def z_stream_line_new_def zrl_defs)
  have l: "lines_of [65, 13, 10, 66, 10, 10, 67] = [[65, 13], [66], [], [67]]"
    by (simp add: lines_of.simps)
  have "stripped_lines ?s [65, 13, 10, 66, 10, 10, 67] = [[65], [66], [], [67]]"
    by (simp add: stripped_lines_def l ends_in_line_def strip_cr_def fl_def z_stream_line_new_def zrl_defs)
  then show ?thesis
    using line_stream_delivers_lines[of "replicate 8 0" "ZRL_EOL_CRLF OR ZRL_NUL_NONFATAL" ?es 100] tm
    by (simp add: l clean_def child_size_def)
qed

text \<open>Mixing byte reads with line reads breaks the line length: in CR LF mode, when a read has
  taken the bytes up to and including the CR of a line end, the next \<open>z_stream_line_get\<close> looks at
  the CR that is already gone, subtracts two from a length of one and returns \<open>2 ^ 64 - 1\<close> as the
  length of the line.\<close>

theorem line_length_underflow:
  assumes "line_inv s" "text_mode s" "\<not> fl s ZRL_EOL_NL" "pending s = x @ 13 # 10 # r"
  shows "\<exists>s1 s2 line. z_stream_line_read_method s es (length x + 1) = (s1, es, IO_NORMAL, x @ [13])
     \<and> z_stream_line_get s1 es = Inr (s2, es, IO_NORMAL, line, 2 ^ 64 - 1, None)"
proof -
  note inv = assms(1)[unfolded line_inv_def] and tm = assms(2)[unfolded text_mode_def]
  let ?p = "ln_pos s" and ?n = "ln_end s - ln_pos s" and ?b = "ln_buffer s"
  have le: "?p + ?n \<le> length ?b" using inv by simp
  have ch: "chunk ?p ?n ?b = x @ 13 # 10 # r" "chunk ?p ?n ?b = (x @ [13]) @ 10 # r"
    using assms(4) by (simp_all add: pending_def)
  note sp = chunk_split[OF ch(1) le] and sp2 = chunk_split[OF ch(2) le]
  have n: "length x + 2 + length r = ?n" using sp(4) by simp
  define s1 where "s1 = clr_fl ZRL_LINE_AVAIL_SET (s\<lparr>ln_oldpos := ?p, ln_pos := ?p + (length x + 1)\<rparr>)"
  have rd: "z_stream_line_read_method s es (length x + 1) = (s1, es, IO_NORMAL, x @ [13])"
  proof -
    have "ln_pos s < ln_end s" using n by simp
    then show ?thesis
      using n sp2(1) by (simp add: z_stream_line_read_method_def s1_def Let_def min_def)
  qed
  have st: "ln_pos s1 = ?p + length x + 1" "ln_end s1 = ln_end s" "ln_buffer s1 = ?b"
    by (simp_all add: s1_def clr_fl_def)
  define s0 where "s0 = clr_fl ZRL_LINE_AVAIL_SET (s1\<lparr>ln_child_in := False, ln_child_pri := False\<rparr>)"
  have st0: "ln_pos s0 = ?p + length x + 1" "ln_end s0 = ln_end s" "ln_buffer s0 = ?b"
    using st by (simp_all add: s0_def clr_fl_def)
  have f0: "fl s0 f = fl s f" "fl s1 f = fl s f" if "f AND ZRL_LINE_AVAIL_SET = 0" for f
  proof -
    have "fl (s1\<lparr>ln_child_in := False, ln_child_pri := False\<rparr>) f = fl s1 f" by (simp add: fl_def)
    moreover show "fl s1 f = fl s f" using that by (simp add: s1_def fl_clr)
    ultimately show "fl s0 f = fl s f" using that by (simp add: s0_def fl_clr)
  qed
  have z: "ZRL_EOF AND ZRL_LINE_AVAIL_SET = 0" "ZRL_ERROR AND ZRL_LINE_AVAIL_SET = 0"
    "ZRL_EOL_NUL AND ZRL_LINE_AVAIL_SET = 0" "ZRL_NUL_NONFATAL AND ZRL_LINE_AVAIL_SET = 0"
    "ZRL_EOL_NL AND ZRL_LINE_AVAIL_SET = 0" "ZRL_EOL_CRLF AND ZRL_LINE_AVAIL_SET = 0"
    "ZRL_RETURN_EOL AND ZRL_LINE_AVAIL_SET = 0" by (simp_all add: zrl_defs)
  have ch0: "chunk (ln_pos s0) (ln_end s0 - ln_pos s0) (ln_buffer s0) = 10 # r"
    using sp(2) st0 n by simp
  have eol: "find_eol s0 = Some (?p + length x + 1)"
    unfolding find_eol_def ch0 using st0(1) tm f0(1)[OF z(3)] by (simp add: eol_char_def)
  have cr: "?b ! nat (int (?p + length x + 1) - 1) = 13" using sp(3) by (simp add: nat_add_distrib)
  have sub: "subz (subz 1 1) 1 = 2 ^ 64 - 1" by (simp add: subz_def)
  have g: "z_stream_line_get_from_buf s0 =
      (s0\<lparr>ln_oldpos := ?p + length x + 1, ln_pos := ?p + length x + 1 + 1\<rparr>, IO_NORMAL, ?p + length x + 1,
       2 ^ 64 - 1, None)"
    unfolding z_stream_line_get_from_buf_def eol Let_def st0
    using tm assms(3) f0(1)[OF z(1)] f0(1)[OF z(3)] f0(1)[OF z(4)] f0(1)[OF z(5)] f0(1)[OF z(6)]
      f0(1)[OF z(7)] cr sub by simp
  have "ln_end s0 \<noteq> ln_pos s0" using st0 n by simp
  then have "z_stream_line_get s1 es = Inr (count_recvd (s0\<lparr>ln_oldpos := ?p + length x + 1,
      ln_pos := ?p + length x + 1 + 1\<rparr>) (2 ^ 64 - 1), es, IO_NORMAL, ?p + length x + 1, 2 ^ 64 - 1, None)"
    using g tm f0(2)[OF z(1)] f0(2)[OF z(2)]
    by (simp add: z_stream_line_get_def z_stream_line_get_internal_def s0_def[symmetric] Let_def)
  then show ?thesis using rd by blast
qed

definition crlf_stream :: zstream_line where
  "crlf_stream = (z_stream_line_new [65, 10, 66, 13, 10, 67] (ZRL_EOL_CRLF OR ZRL_NUL_NONFATAL))
     \<lparr>ln_pos := 2, ln_end := 6\<rparr>"

lemma crlf_stream_ok: "line_inv crlf_stream" "text_mode crlf_stream" "\<not> fl crlf_stream ZRL_EOL_NL"
  "pending crlf_stream = [66] @ 13 # 10 # [67]"
  by (simp_all add: crlf_stream_def z_stream_line_new_def line_inv_def text_mode_def fl_def zrl_defs
      pending_def chunk_def)

theorem line_length_underflow_witness:
  "\<exists>s1 s2 line. z_stream_line_read_method crlf_stream [] 2 = (s1, [], IO_NORMAL, [66, 13])
     \<and> z_stream_line_get s1 [] = Inr (s2, [], IO_NORMAL, line, 2 ^ 64 - 1, None)"
  using line_length_underflow[OF crlf_stream_ok, of "[]"] by (simp add: numeral_2_eq_2)

lemma unget_spec:
  assumes "ln_pos s \<le> ln_end s" "ln_end s \<le> length (ln_buffer s)"
  shows "if ln_pos s + (length (ln_buffer s) - ln_end s) > length d
     then \<exists>s'. z_stream_line_unget_packet_method s d = (s', True) \<and> pending s' = d @ pending s
        \<and> ln_pos s' \<le> ln_end s' \<and> ln_end s' \<le> length (ln_buffer s')
        \<and> length (ln_buffer s') = length (ln_buffer s) \<and> ln_flags s' = ln_flags s
     else z_stream_line_unget_packet_method s d = (s, False)"
proof (cases "ln_pos s + (length (ln_buffer s) - ln_end s) > length d")
  case fits: True
  let ?p = "ln_pos s" and ?e = "ln_end s" and ?b = "ln_buffer s"
  show ?thesis
  proof (cases "?p > length d")
    case True
    let ?s = "s\<lparr>ln_buffer := overwrite (?p - length d) d ?b, ln_pos := ?p - length d\<rparr>"
    have "pending ?s = d @ pending s"
    proof -
      have "chunk (?p - length d) (?e - (?p - length d)) (overwrite (?p - length d) d ?b)
          = take (?e - (?p - length d)) (d @ drop ?p ?b)"
        using True assms by (simp add: chunk_def overwrite_def)
      also have "\<dots> = d @ take (?e - ?p) (drop ?p ?b)" using True assms by simp
      finally show ?thesis by (simp add: pending_def chunk_def)
    qed
    then show ?thesis using fits True assms
      by (simp add: z_stream_line_unget_packet_method_def Let_def)
  next
    case False
    let ?b' = "overwrite 0 d (overwrite (length d) (pending s) ?b)"
    let ?s = "s\<lparr>ln_buffer := ?b', ln_end := ?e - ?p + length d, ln_pos := 0\<rparr>"
    have lp: "length (pending s) = ?e - ?p" using assms by (simp add: pending_def)
    have room: "length d + (?e - ?p) \<le> length ?b" using fits assms by linarith
    have len: "length ?b' = length ?b" using lp room by (simp add: overwrite_def)
    have "pending ?s = take (?e - ?p + length d) (d @ pending s @ drop (length d + (?e - ?p)) ?b)"
      unfolding pending_def[of ?s] using lp room by (simp add: chunk_def overwrite_def)
    also have "\<dots> = d @ pending s" using lp by simp
    finally have "pending ?s = d @ pending s" .
    then show ?thesis using fits False len room
      by (simp add: z_stream_line_unget_packet_method_def pending_def[symmetric] Let_def)
  qed
qed (simp add: z_stream_line_unget_packet_method_def)

text \<open>Ungetting puts data before what is pending: a packet that fits is accepted, the bytes to
  read next are those of the packet followed by the former ones, and the buffer stays in bounds; a
  packet that does not fit is refused and nothing changes.\<close>

theorem line_unget_prepends:
  assumes "ln_pos s \<le> ln_end s" "ln_end s \<le> length (ln_buffer s)"
  shows "if ln_pos s + (length (ln_buffer s) - ln_end s) > length d
     then \<exists>s'. z_stream_line_unget_packet_method s d = (s', True) \<and> pending s' = d @ pending s
        \<and> ln_pos s' \<le> ln_end s' \<and> ln_end s' \<le> length (ln_buffer s')
        \<and> length (ln_buffer s') = length (ln_buffer s)
     else z_stream_line_unget_packet_method s d = (s, False)"
  using unget_spec[OF assms, of d] by (auto split: if_splits)

theorem line_unget_prepends_witness:
  "\<exists>s'. z_stream_line_unget_packet_method crlf_stream [1] = (s', True) \<and> pending s' = [1, 66, 13, 10, 67]"
  using line_unget_prepends[of crlf_stream "[1]"] crlf_stream_ok(1,4)
  by (auto simp: line_inv_def) (auto simp: crlf_stream_def z_stream_line_new_def)

text \<open>Polling misses a line that was pushed back: once the poll has found no line and cached that,
  ungetting a packet with a complete line does not drop the cached answer, and the next poll still
  reports nothing to read and waits for the child.\<close>

theorem poll_misses_ungot_line:
  assumes "line_inv s" "text_mode s" "\<not> fl s ZRL_LINE_AVAIL_SET" "\<not> fl s ZRL_POLL_PARTIAL"
    and "\<not> ln_child_in s" "10 \<notin> set (pending s)" "10 \<in> set d"
    and "ln_pos s + (length (ln_buffer s) - ln_end s) > length d"
  shows "\<exists>s1 s2 s3. z_stream_line_watch_prepare s True False False = (s1, False, True, False)
     \<and> z_stream_line_unget_packet_method s1 d = (s2, True) \<and> 10 \<in> set (pending s2)
     \<and> z_stream_line_watch_prepare s2 True False False = (s3, False, True, False)"
proof -
  have eol: "find_eol s = None"
    using memchr_None[of 10 "ln_pos s" "pending s"] assms(2,6)
    by (simp add: find_eol_def pending_def eol_char_def text_mode_def)
  define s1 where "s1 = clr_fl ZRL_LINE_AVAIL (set_fl ZRL_LINE_AVAIL_SET s)"
  have f1: "fl s1 ZRL_LINE_AVAIL_SET" "\<not> fl s1 ZRL_LINE_AVAIL" "\<not> fl s1 ZRL_POLL_PARTIAL"
    using assms(4) by (simp_all add: s1_def fl_clr fl_set zrl_defs) (simp_all add: fl_clr_same)
  have p1: "z_stream_line_watch_prepare s True False False = (s1, False, True, False)"
    using assms(3-5) eol f1(2)
    by (simp add: z_stream_line_watch_prepare_def line_readable_def z_stream_line_have_line_def Let_def
        s1_def[symmetric]) (simp add: s1_def clr_fl_def set_fl_def)
  have st: "ln_pos s1 = ln_pos s" "ln_end s1 = ln_end s" "ln_buffer s1 = ln_buffer s" "ln_child_in s1 = ln_child_in s"
    by (simp_all add: s1_def clr_fl_def set_fl_def)
  then obtain s2 where s2: "z_stream_line_unget_packet_method s1 d = (s2, True)" "pending s2 = d @ pending s1"
    "ln_flags s2 = ln_flags s1"
    using unget_spec[of s1 d] assms(1,8) by (auto simp: line_inv_def)
  have "ln_child_in s2 = ln_child_in s1"
    using s2(1) by (auto simp: z_stream_line_unget_packet_method_def Let_def split: if_splits)
  then have "z_stream_line_watch_prepare s2 True False False = (s2, False, True, False)"
    using f1 flags_only(3)[OF s2(3)] assms(5) st(4)
    by (simp add: z_stream_line_watch_prepare_def line_readable_def z_stream_line_have_line_def Let_def)
  then show ?thesis using p1 s2 assms(7) by auto
qed

definition quiet_stream :: zstream_line where
  "quiet_stream = z_stream_line_new (replicate 8 0) (ZRL_EOL_NL OR ZRL_NUL_NONFATAL)"

theorem poll_misses_ungot_line_witness:
  "\<exists>s1 s2 s3. z_stream_line_watch_prepare quiet_stream True False False = (s1, False, True, False)
     \<and> z_stream_line_unget_packet_method s1 [66, 10] = (s2, True) \<and> 10 \<in> set (pending s2)
     \<and> z_stream_line_watch_prepare s2 True False False = (s3, False, True, False)"
  by (rule poll_misses_ungot_line)
     (simp_all add: quiet_stream_def z_stream_line_new_def line_inv_def text_mode_def fl_def zrl_defs
      pending_def chunk_def)

end
