(* ===== verification/Stream.thy ===== *)
theory Stream
  imports Refcount
begin

section \<open>The stream base class\<close>

text \<open>
  \<open>src/stream.c\<close> and the inline functions of \<open>src/zorp/stream.h\<close>. Streams are reference counted
  objects that point at each other: \<open>child\<close> and \<open>parent\<close> link a stack, \<open>struct_ref\<close> counts the
  users of that structure, a source attached to the main loop holds a reference of its own. They
  live in the object store \<open>w_streams\<close> of the record \<open>world\<close>, a list of slots indexed by the
  address, where a freed object leaves an empty slot: every use of a freed object is a
  \<open>Bad_access\<close>. The packets that were ungot are objects of \<open>w_pkts\<close>. Calls of destroy notifiers are
  recorded in \<open>w_notified\<close>; a source that was destroyed while its callback runs is in \<open>w_dying\<close>
  until the main loop drops it.

  The methods here are those of \<open>ZStream\<close> itself; a derived class adds its own and calls these.
  What the \<open>read\<close> and \<open>write\<close> methods of a class return is a script kept with the stream. Loops along the
  \<open>child\<close> pointers stop with \<open>Endless_loop\<close> when they come back to where they were.
\<close>

unbundle bit_operations_syntax

subsection \<open>Streams and the object store\<close>

definition G_IO_IN :: "32 word" where "G_IO_IN = 1"
definition G_IO_PRI :: "32 word" where "G_IO_PRI = 2"
definition G_IO_OUT :: "32 word" where "G_IO_OUT = 4"

record callback =
  cb_want :: int
  cb_fn :: "nat option"
  cb_data :: "nat option"
  cb_notify :: "nat option"

text \<open>What the \<open>write\<close> method of a class answers, call by call; after the last event it takes all.\<close>

datatype write_event = Accept nat | Write_again | Write_broken

record source =
  src_active :: bool
  src_in_call :: bool

record zstream =
  st_class :: string
  st_ref :: int
  st_name :: string
  st_timeout :: int
  st_umb_state :: "32 word"
  st_umb_flags :: "32 word"
  st_ungot :: "nat list"
  st_struct_ref :: int
  st_parent :: "nat option"
  st_child :: "nat option"
  st_depth :: int
  st_source :: "source option"
  st_recvd :: nat
  st_sent :: nat
  st_read :: callback
  st_pri :: callback
  st_write :: callback
  st_input :: child
  st_accept :: "write_event list"
  st_written :: bytes

record world =
  w_streams :: "zstream option list"
  w_pkts :: "(int \<times> bytes) option list"
  w_notified :: "(nat \<times> nat option) list"
  w_dying :: "nat list"

definition get_st :: "world \<Rightarrow> nat \<Rightarrow> zstream result" where
  "get_st w a = (case slot (w_streams w) a of None \<Rightarrow> Inl Bad_access | Some s \<Rightarrow> Inr s)"

definition put_st :: "nat \<Rightarrow> zstream \<Rightarrow> world \<Rightarrow> world" where
  "put_st a s w = w\<lparr>w_streams := (w_streams w)[a := Some s]\<rparr>"

definition upd_st :: "world \<Rightarrow> nat \<Rightarrow> (zstream \<Rightarrow> zstream) \<Rightarrow> world result" where
  "upd_st w a f = rbind (get_st w a) (\<lambda>s. Inr (put_st a (f s) w))"

definition notify :: "nat option \<Rightarrow> nat option \<Rightarrow> world \<Rightarrow> world" where
  "notify fn data w = (case fn of None \<Rightarrow> w | Some f \<Rightarrow> w\<lparr>w_notified := w_notified w @ [(f, data)]\<rparr>)"

text \<open>The empty callback of a new object.\<close>

definition no_callback :: callback where
  "no_callback = \<lparr>cb_want = 0, cb_fn = None, cb_data = None, cb_notify = None\<rparr>"

definition z_stream_new :: "world \<Rightarrow> string \<Rightarrow> string \<Rightarrow> 32 word \<Rightarrow> child \<Rightarrow> world \<times> nat" where
  "z_stream_new w cls name umbrella_flags input =
     (w\<lparr>w_streams := w_streams w @ [Some \<lparr>st_class = cls, st_ref = 1, st_name = name, st_timeout = -2,
        st_umb_state = umbrella_flags, st_umb_flags = umbrella_flags, st_ungot = [],
        st_struct_ref = z_refcount_set 0 1, st_parent = None, st_child = None, st_depth = 0,
        st_source = None, st_recvd = 0, st_sent = 0, st_read = no_callback, st_pri = no_callback,
        st_write = no_callback, st_input = input,
        st_accept = [], st_written = []\<rparr>]\<rparr>, length (w_streams w))"

subsection \<open>References\<close>

definition z_stream_ref :: "world \<Rightarrow> nat option \<Rightarrow> world result" where
  "z_stream_ref w p =
     (case p of None \<Rightarrow> Inr w
      | Some a \<Rightarrow> rbind (get_st w a) (\<lambda>s. rbind (z_refcount_inc (st_ref s)) (\<lambda>n.
          Inr (put_st a (s\<lparr>st_ref := n\<rparr>) w))))"

text \<open>\<open>z_pktbuf_unref\<close> on a packet of the store.\<close>

definition ungot_unref :: "world \<Rightarrow> nat \<Rightarrow> world result" where
  "ungot_unref w p =
     (case slot (w_pkts w) p of
        None \<Rightarrow> Inl Bad_access
      | Some (n, d) \<Rightarrow> rbind (z_refcount_dec n) (\<lambda>(n', zero).
          Inr (w\<lparr>w_pkts := (w_pkts w)[p := if zero then None else Some (n', d)]\<rparr>)))"

fun unref_pkts :: "world \<Rightarrow> nat list \<Rightarrow> world result" where
  "unref_pkts w [] = Inr w"
| "unref_pkts w (p # ps) = rbind (ungot_unref w p) (\<lambda>w'. unref_pkts w' ps)"

text \<open>One of the three parts of \<open>z_stream_drop_callbacks\<close>.\<close>

definition drop_callback :: "callback \<Rightarrow> world \<Rightarrow> world" where
  "drop_callback c w = (if cb_data c \<noteq> None then notify (cb_notify c) (cb_data c) w else w)"

definition dropped :: "callback \<Rightarrow> callback" where
  "dropped c = c\<lparr>cb_data := None, cb_fn := None\<rparr>"

definition drop_all :: "zstream \<Rightarrow> zstream" where
  "drop_all s = s\<lparr>st_read := dropped (st_read s), st_write := dropped (st_write s),
     st_pri := dropped (st_pri s)\<rparr>"

definition z_stream_drop_callbacks :: "world \<Rightarrow> nat \<Rightarrow> world result" where
  "z_stream_drop_callbacks w a =
     rbind (get_st w a) (\<lambda>s.
       Inr (put_st a (drop_all s)
         (drop_callback (st_pri s) (drop_callback (st_write s) (drop_callback (st_read s) w)))))"

definition z_stream_free_method :: "world \<Rightarrow> nat \<Rightarrow> world result" where
  "z_stream_free_method w a =
     rbind (get_st w a) (\<lambda>s. rbind (g_assert (st_child s = None)) (\<lambda>_.
     rbind (unref_pkts w (st_ungot s)) (\<lambda>w1. rbind (z_stream_drop_callbacks w1 a) (\<lambda>w2.
       Inr (w2\<lparr>w_streams := (w_streams w2)[a := None]\<rparr>)))))"

definition z_stream_unref :: "world \<Rightarrow> nat option \<Rightarrow> world result" where
  "z_stream_unref w p =
     (case p of None \<Rightarrow> Inr w
      | Some a \<Rightarrow> rbind (get_st w a) (\<lambda>s. rbind (z_refcount_dec (st_ref s)) (\<lambda>(n, zero).
          let w1 = put_st a (s\<lparr>st_ref := n\<rparr>) w
          in if zero then z_stream_free_method w1 a else Inr w1)))"

definition z_stream_struct_ref :: "world \<Rightarrow> nat \<Rightarrow> world result" where
  "z_stream_struct_ref w a =
     rbind (get_st w a) (\<lambda>s. rbind (z_refcount_inc (st_struct_ref s)) (\<lambda>n.
       Inr (put_st a (s\<lparr>st_struct_ref := n\<rparr>) w)))"

text \<open>The part of \<open>z_stream_set_child_method\<close> that unlinks the child, up to the first unref; the
  child and its former parent are returned.\<close>

definition child_unlink :: "world \<Rightarrow> nat \<Rightarrow> nat \<Rightarrow> (world \<times> nat option) result" where
  "child_unlink w self c =
     rbind (get_st w c) (\<lambda>s. rbind (g_assert (st_parent s = Some self)) (\<lambda>_.
     rbind (z_stream_drop_callbacks (put_st c (s\<lparr>st_umb_state := st_umb_flags s\<rparr>) w) c) (\<lambda>w1.
     rbind (get_st w1 c) (\<lambda>s1.
     rbind (upd_st (put_st c (s1\<lparr>st_parent := None\<rparr>) w1) self (\<lambda>s. s\<lparr>st_child := None\<rparr>)) (\<lambda>w2.
       Inr (w2, st_parent s1))))))"

text \<open>\<open>z_stream_struct_unref\<close>: the counter first, then, with the last reference, the child. It calls
  \<open>z_stream_set_child (self, NULL)\<close>, which calls it again for the child.\<close>

definition struct_dec :: "world \<Rightarrow> nat \<Rightarrow> (world \<times> nat option) result" where
  "struct_dec w self =
     rbind (get_st w self) (\<lambda>s. rbind (z_refcount_dec (st_struct_ref s)) (\<lambda>(n, zero).
       Inr (put_st self (s\<lparr>st_struct_ref := n\<rparr>) w, if zero then st_child s else None)))"

text \<open>The number of links in the store, which every unlinking makes smaller.\<close>

definition links :: "world \<Rightarrow> nat" where
  "links w = length (filter (\<lambda>x. case x of None \<Rightarrow> False | Some s \<Rightarrow> st_child s \<noteq> None) (w_streams w))"

lemma get_st_Inr: "get_st w a = Inr s \<longleftrightarrow> slot (w_streams w) a = Some s"
  by (auto simp: get_st_def split: option.splits)

lemma get_put: "get_st w a = Inr s0 \<Longrightarrow> get_st (put_st a s w) b = (if b = a then Inr s else get_st w b)"
  by (auto simp: get_st_def put_st_def slot_update dest!: slot_Some split: option.splits)

lemma get_put_other [simp]: "b \<noteq> a \<Longrightarrow> get_st (put_st a s w) b = get_st w b"
  by (simp add: get_st_def put_st_def slot_update)

lemma get_notify [simp]: "get_st (notify f d w) a = get_st w a" "get_st (drop_callback c w) a = get_st w a"
  by (simp_all add: get_st_def notify_def drop_callback_def split: option.splits)

lemma w_pkts_put [simp]: "w_pkts (put_st a s w) = w_pkts w" "w_dying (put_st a s w) = w_dying w"
  "w_notified (put_st a s w) = w_notified w"
  by (simp_all add: put_st_def)

definition linked :: "zstream option \<Rightarrow> bool" where
  "linked x = (case x of None \<Rightarrow> False | Some s \<Rightarrow> st_child s \<noteq> None)"

lemma links_alt: "links w = length (filter linked (w_streams w))"
  by (simp add: links_def linked_def[abs_def])

lemma links_put:
  assumes "get_st w a = Inr s0"
  shows "links (put_st a s w) + of_bool (st_child s0 \<noteq> None) = links w + of_bool (st_child s \<noteq> None)"
proof -
  have a: "a < length (w_streams w)" "w_streams w ! a = Some s0"
    using assms slot_Some[of "w_streams w" a s0] by (auto simp: get_st_Inr)
  have w: "w_streams (put_st a s w) = (w_streams w)[a := Some s]" by (simp add: put_st_def)
  have "linked (Some s0) = (st_child s0 \<noteq> None)" "linked (Some s) = (st_child s \<noteq> None)"
    by (simp_all add: linked_def)
  then show ?thesis using filter_update[OF a(1), of linked "Some s"] a(2)
    by (simp only: links_alt w)
qed

lemma links_put_same: "get_st w a = Inr s0 \<Longrightarrow> st_child s = st_child s0 \<Longrightarrow> links (put_st a s w) = links w"
  using links_put[of w a s0 s] by simp

lemma links_notify [simp]: "links (notify f d w) = links w" "links (drop_callback c w) = links w"
  by (simp_all add: links_def notify_def drop_callback_def split: option.splits)

lemma drop_all_sel [simp]: "st_child (drop_all s) = st_child s" "st_parent (drop_all s) = st_parent s"
  "st_ref (drop_all s) = st_ref s" "st_struct_ref (drop_all s) = st_struct_ref s"
  "st_ungot (drop_all s) = st_ungot s" "st_source (drop_all s) = st_source s"
  "st_umb_flags (drop_all s) = st_umb_flags s" "st_umb_state (drop_all s) = st_umb_state s"
  by (simp_all add: drop_all_def)

lemma struct_dec_links:
  assumes "struct_dec w self = Inr (w1, Some c)"
  shows "links w1 = links w" "\<exists>s. get_st w1 self = Inr s \<and> st_child s = Some c"
  using assms by (auto simp: struct_dec_def rbind_eq_Inr links_put_same get_put split: if_splits)

lemma ref_links:
  assumes "z_stream_ref w p = Inr w'"
  shows "links w' = links w" "get_st w a = Inr s \<Longrightarrow> \<exists>s'. get_st w' a = Inr s' \<and> st_child s' = st_child s"
  using assms by (auto simp: z_stream_ref_def rbind_eq_Inr links_put_same get_put split: option.splits)

lemma unlink_links:
  assumes "child_unlink w self c = Inr (w', p)" "get_st w self = Inr s" "st_child s \<noteq> None"
  shows "links w' < links w"
proof -
  obtain sc where sc: "get_st w c = Inr sc" "st_parent sc = Some self"
    using assms(1) by (auto simp: child_unlink_def rbind_eq_Inr)
  define w1 where "w1 = put_st c (sc\<lparr>st_umb_state := st_umb_flags sc\<rparr>) w"
  define sc' where "sc' = drop_all (sc\<lparr>st_umb_state := st_umb_flags sc\<rparr>)"
  obtain w2 where w2: "z_stream_drop_callbacks w1 c = Inr w2" "links w2 = links w"
    "get_st w2 c = Inr sc'" "\<And>b. b \<noteq> c \<Longrightarrow> get_st w2 b = get_st w b"
    using sc by (auto simp: z_stream_drop_callbacks_def w1_def get_put links_put_same sc'_def)
  define w3 where "w3 = put_st c (sc'\<lparr>st_parent := None\<rparr>) w2"
  have l3: "links w3 = links w" using w2 by (simp add: w3_def links_put_same)
  obtain s3 where s3: "get_st w3 self = Inr s3" "st_child s3 \<noteq> None"
  proof (cases "self = c")
    case True
    then show ?thesis using that[of "sc'\<lparr>st_parent := None\<rparr>"] w2(3) assms(2,3) sc(1) by (simp add: w3_def get_put sc'_def)
  next
    case False
    then show ?thesis using that[of s] w2(4) assms(2,3) by (simp add: w3_def)
  qed
  have "w' = put_st self (s3\<lparr>st_child := None\<rparr>) w3"
    using assms(1) sc w2 s3 by (simp add: child_unlink_def w1_def[symmetric] w3_def[symmetric] upd_st_def)
  then show ?thesis using links_put[OF s3(1), of "s3\<lparr>st_child := None\<rparr>"] s3(2) l3 by simp
qed

function z_stream_struct_unref :: "world \<Rightarrow> nat \<Rightarrow> world result" where
  "z_stream_struct_unref w self =
     rbind (struct_dec w self) (\<lambda>(w1, child).
       case child of None \<Rightarrow> Inr w1
       | Some c \<Rightarrow>
         rbind (z_stream_ref w1 child) (\<lambda>w2.
         rbind (child_unlink w2 self c) (\<lambda>(w3, parent).
         rbind (z_stream_struct_unref w3 c) (\<lambda>w4.
         rbind (z_stream_unref w4 (Some c)) (\<lambda>w5.
         rbind (z_stream_unref w5 parent) (\<lambda>w6.
           z_stream_unref w6 (Some c)))))))"
  by pat_completeness auto
termination
proof (relation "measure (\<lambda>(w, a). links w)", simp)
  fix w self y w1 child c w2 z w3 parent
  assume "struct_dec w self = Inr y" "(w1, child) = y" "child = Some c" "z_stream_ref w1 child = Inr w2"
    "child_unlink w2 self c = Inr z" "(w3, parent) = z"
  then show "((w3, c), w, self) \<in> measure (\<lambda>(w, a). links w)"
    using struct_dec_links[of w self w1 c] ref_links(1)[of w1 "Some c" w2] ref_links(2)[of w1 "Some c" w2 self]
      unlink_links[of w2 self c w3 parent] by fastforce
qed

declare z_stream_struct_unref.simps [simp del]

subsection \<open>The stack\<close>

text \<open>The streams reached from \<open>a\<close> by \<open>child\<close>; more steps than there are objects come from a cycle.\<close>

fun stack_of :: "nat \<Rightarrow> world \<Rightarrow> nat \<Rightarrow> nat list result" where
  "stack_of 0 w a = Inl Endless_loop"
| "stack_of (Suc n) w a =
     rbind (get_st w a) (\<lambda>s. case st_child s of
         None \<Rightarrow> Inr [a]
       | Some c \<Rightarrow> rbind (stack_of n w c) (\<lambda>as. Inr (a # as)))"

abbreviation stack :: "world \<Rightarrow> nat \<Rightarrow> nat list result" where
  "stack w a \<equiv> stack_of (length (w_streams w)) w a"

fun upd_all :: "world \<Rightarrow> nat list \<Rightarrow> (zstream \<Rightarrow> zstream) \<Rightarrow> world result" where
  "upd_all w [] f = Inr w"
| "upd_all w (a # as) f = rbind (upd_st w a f) (\<lambda>w'. upd_all w' as f)"

definition z_stream_set_name :: "world \<Rightarrow> nat \<Rightarrow> string \<Rightarrow> world result" where
  "z_stream_set_name w a name = rbind (stack w a) (\<lambda>as. upd_all w as (\<lambda>s. s\<lparr>st_name := name\<rparr>))"

text \<open>The part of \<open>z_stream_set_child_method\<close> that links the new child.\<close>

definition child_link :: "world \<Rightarrow> nat \<Rightarrow> nat \<Rightarrow> world result" where
  "child_link w self new_child =
     rbind (get_st w new_child) (\<lambda>nc. rbind (g_assert (st_parent nc = None)) (\<lambda>_.
     rbind (upd_st w self (\<lambda>s. s\<lparr>st_depth := st_depth nc + 1\<rparr>)) (\<lambda>w1.
     rbind (z_stream_set_name w1 self (st_name nc)) (\<lambda>w2.
     rbind (z_stream_ref w2 (Some self)) (\<lambda>w3.
     rbind (upd_st w3 new_child (\<lambda>s. s\<lparr>st_parent := Some self\<rparr>)) (\<lambda>w4.
     rbind (z_stream_ref w4 (Some new_child)) (\<lambda>w5.
     rbind (upd_st w5 self (\<lambda>s. s\<lparr>st_child := Some new_child\<rparr>)) (\<lambda>w6.
     rbind (z_stream_struct_ref w6 new_child) (\<lambda>w7.
     rbind (upd_st w7 self (\<lambda>s. s\<lparr>st_timeout := st_timeout nc\<rparr>)) (\<lambda>w8.
     rbind (get_st w8 self) (\<lambda>s.
     rbind (stack w8 self) (\<lambda>as.
       upd_all w8 (tl as) (\<lambda>t. t\<lparr>st_umb_state := st_umb_state t AND NOT (st_umb_flags s)\<rparr>)))))))))))))"

definition z_stream_set_child_method :: "world \<Rightarrow> nat \<Rightarrow> nat option \<Rightarrow> world result" where
  "z_stream_set_child_method w self new_child =
     rbind (get_st w self) (\<lambda>s.
     rbind (case st_child s of None \<Rightarrow> Inr w
            | Some c \<Rightarrow>
              rbind (child_unlink w self c) (\<lambda>(w1, parent).
              rbind (z_stream_struct_unref w1 c) (\<lambda>w2.
              rbind (z_stream_unref w2 (Some c)) (\<lambda>w3. z_stream_unref w3 parent)))) (\<lambda>w4.
       case new_child of None \<Rightarrow> Inr w4 | Some n \<Rightarrow> child_link w4 self n))"

definition z_stream_push :: "world \<Rightarrow> nat \<Rightarrow> nat \<Rightarrow> (world \<times> nat) result" where
  "z_stream_push w self new_top =
     rbind (z_stream_set_child_method w new_top (Some self)) (\<lambda>w1.
     rbind (z_stream_unref w1 (Some self)) (\<lambda>w2. Inr (w2, new_top)))"

definition z_stream_pop :: "world \<Rightarrow> nat \<Rightarrow> (world \<times> nat option) result" where
  "z_stream_pop w self =
     rbind (get_st w self) (\<lambda>s.
     rbind (z_stream_ref w (st_child s)) (\<lambda>w1.
       case st_child s of None \<Rightarrow> Inr (w1, None)
       | Some new_top \<Rightarrow>
         rbind (upd_st w1 self (\<lambda>s. s\<lparr>st_umb_state := st_umb_flags s\<rparr>)) (\<lambda>w2.
         rbind (z_stream_set_child_method w2 self None) (\<lambda>w3.
         rbind (upd_st w3 new_top (\<lambda>s. s\<lparr>st_umb_state := st_umb_flags s\<rparr>)) (\<lambda>w4.
         rbind (z_stream_unref w4 (Some self)) (\<lambda>w5. Inr (w5, Some new_top)))))))"

fun search :: "world \<Rightarrow> 32 word \<Rightarrow> string \<Rightarrow> nat list \<Rightarrow> nat option result" where
  "search w direction cls [] = Inr None"
| "search w direction cls (p # ps) =
     rbind (get_st w p) (\<lambda>s.
       if st_class s = cls then Inr (Some p)
       else if st_umb_flags s AND direction = direction then Inr None
       else search w direction cls ps)"

definition z_stream_search_stack :: "world \<Rightarrow> nat \<Rightarrow> 32 word \<Rightarrow> string \<Rightarrow> nat option result" where
  "z_stream_search_stack w self direction cls = rbind (stack w self) (search w direction cls)"

subsection \<open>Sources and closing\<close>

text \<open>\<open>z_stream_attach_source_method\<close> on the streams of a stack; the source takes a reference.\<close>

definition z_stream_source_new :: "world \<Rightarrow> nat \<Rightarrow> (world \<times> source) result" where
  "z_stream_source_new w stream =
     rbind (z_stream_ref w (Some stream)) (\<lambda>w1. Inr (w1, \<lparr>src_active = True, src_in_call = False\<rparr>))"

fun z_stream_attach_source_method :: "nat \<Rightarrow> world \<Rightarrow> nat \<Rightarrow> world result" where
  "z_stream_attach_source_method 0 w self = Inl Endless_loop"
| "z_stream_attach_source_method (Suc n) w self =
     rbind (get_st w self) (\<lambda>s. rbind (g_assert (st_source s = None)) (\<lambda>_.
     rbind (z_stream_ref w (Some self)) (\<lambda>w1.
     rbind (z_stream_struct_ref w1 self) (\<lambda>w2.
     rbind (case st_child s of None \<Rightarrow> Inr w2 | Some c \<Rightarrow> z_stream_attach_source_method n w2 c) (\<lambda>w3.
     rbind (z_stream_source_new w3 self) (\<lambda>(w4, src).
     rbind (upd_st w4 self (\<lambda>s. s\<lparr>st_source := Some src\<rparr>)) (\<lambda>w5.
       z_stream_unref w5 (Some self))))))))"

text \<open>
  Destroying a source finalizes it at once, which drops its stream, unless its callback is running:
  then the main loop finalizes it after the callback.
\<close>

definition z_stream_source_finalize :: "world \<Rightarrow> nat \<Rightarrow> world result" where
  "z_stream_source_finalize w stream = z_stream_unref w (Some stream)"

definition source_destroy :: "world \<Rightarrow> nat \<Rightarrow> source \<Rightarrow> world result" where
  "source_destroy w stream src =
     (if src_in_call src then Inr (w\<lparr>w_dying := w_dying w @ [stream]\<rparr>) else z_stream_source_finalize w stream)"

fun z_stream_detach_source_method :: "nat \<Rightarrow> world \<Rightarrow> nat \<Rightarrow> world result" where
  "z_stream_detach_source_method 0 w self = Inl Endless_loop"
| "z_stream_detach_source_method (Suc n) w self =
     rbind (get_st w self) (\<lambda>s.
     rbind (case st_source s of None \<Rightarrow> Inr w
            | Some src \<Rightarrow> source_destroy (put_st self (s\<lparr>st_source := None\<rparr>) w) self src) (\<lambda>w1.
     rbind (get_st w1 self) (\<lambda>s1.
     rbind (case st_child s1 of None \<Rightarrow> Inr w1 | Some c \<Rightarrow> z_stream_detach_source_method n w1 c) (\<lambda>w2.
       if st_source s \<noteq> None then z_stream_struct_unref w2 self else Inr w2))))"

fun z_stream_close_method :: "nat \<Rightarrow> world \<Rightarrow> nat \<Rightarrow> (world \<times> io_status) result" where
  "z_stream_close_method 0 w self = Inl Endless_loop"
| "z_stream_close_method (Suc n) w self =
     rbind (get_st w self) (\<lambda>s.
     rbind (case st_child s of None \<Rightarrow> Inr (w, IO_NORMAL) | Some c \<Rightarrow> z_stream_close_method n w c) (\<lambda>(w1, res).
     rbind (z_stream_struct_unref w1 self) (\<lambda>w2. Inr (w2, res))))"

definition z_stream_close :: "world \<Rightarrow> nat \<Rightarrow> (world \<times> io_status) result" where
  "z_stream_close w self = z_stream_close_method (length (w_streams w)) w self"

definition z_stream_attach_source :: "world \<Rightarrow> nat \<Rightarrow> world result" where
  "z_stream_attach_source w self = z_stream_attach_source_method (length (w_streams w)) w self"

definition z_stream_detach_source :: "world \<Rightarrow> nat \<Rightarrow> world result" where
  "z_stream_detach_source w self = z_stream_detach_source_method (length (w_streams w)) w self"

definition z_stream_destroy :: "world \<Rightarrow> nat \<Rightarrow> world result" where
  "z_stream_destroy w self = z_stream_struct_unref w self"

text \<open>
  \<open>z_stream_source_grab_ref\<close>: every source from the stream up to the top must be alive and, but for
  the one we were called from, idle; the top of the stack gets a structure reference.
\<close>

fun grab_ref :: "nat \<Rightarrow> world \<Rightarrow> nat \<Rightarrow> bool \<Rightarrow> (world \<times> nat option) result" where
  "grab_ref 0 w p in_call = Inl Endless_loop"
| "grab_ref (Suc n) w p in_call =
     rbind (get_st w p) (\<lambda>s.
       case st_source s of None \<Rightarrow> Inr (w, None)
       | Some src \<Rightarrow>
         if \<not> src_active src \<or> \<not> in_call \<and> src_in_call src then Inr (w, None)
         else case st_parent s of
             None \<Rightarrow> rbind (z_stream_struct_ref w p) (\<lambda>w1. Inr (w1, Some p))
           | Some q \<Rightarrow> grab_ref n w q False)"

definition z_stream_source_grab_ref :: "world \<Rightarrow> nat \<Rightarrow> bool \<Rightarrow> (world \<times> nat option) result" where
  "z_stream_source_grab_ref w stream in_call = grab_ref (length (w_streams w)) w stream in_call"

text \<open>\<open>watch\<close> stands for the \<open>watch_prepare\<close> or \<open>watch_check\<close> method of the class.\<close>

definition source_poll :: "(world \<Rightarrow> nat \<Rightarrow> (world \<times> bool) result) \<Rightarrow> world \<Rightarrow> nat \<Rightarrow> (world \<times> bool) result" where
  "source_poll watch w stream =
     rbind (z_stream_source_grab_ref w stream False) (\<lambda>(w1, top).
       case top of None \<Rightarrow> Inr (w1, False)
       | Some t \<Rightarrow>
         rbind (get_st w1 stream) (\<lambda>s.
         rbind (if cb_want (st_read s) \<noteq> 0 \<and> st_ungot s \<noteq> [] then Inr (w1, True) else watch w1 stream) (\<lambda>(w2, ret).
         rbind (z_stream_struct_unref w2 t) (\<lambda>w3. Inr (w3, ret)))))"

definition z_stream_source_prepare ::
    "(world \<Rightarrow> nat \<Rightarrow> (world \<times> bool) result) \<Rightarrow> world \<Rightarrow> nat \<Rightarrow> (world \<times> bool) result" where
  "z_stream_source_prepare watch_prepare w stream = source_poll watch_prepare w stream"

definition z_stream_source_check ::
    "(world \<Rightarrow> nat \<Rightarrow> (world \<times> bool) result) \<Rightarrow> world \<Rightarrow> nat \<Rightarrow> (world \<times> bool) result" where
  "z_stream_source_check watch_check w stream = source_poll watch_check w stream"

text \<open>\<open>read_cb\<close> is the read callback of the user, \<open>watch_dispatch\<close> the method of the class.\<close>

definition z_stream_source_dispatch ::
    "(world \<Rightarrow> nat \<Rightarrow> (world \<times> bool) result) \<Rightarrow> (world \<Rightarrow> nat \<Rightarrow> (world \<times> bool) result) \<Rightarrow>
     world \<Rightarrow> nat \<Rightarrow> (world \<times> bool) result" where
  "z_stream_source_dispatch read_cb watch_dispatch w stream =
     rbind (z_stream_source_grab_ref w stream True) (\<lambda>(w1, top).
       case top of None \<Rightarrow> Inr (w1, True)
       | Some t \<Rightarrow>
         rbind (get_st w1 stream) (\<lambda>s.
         rbind (if cb_want (st_read s) \<noteq> 0 \<and> st_ungot s \<noteq> [] then read_cb w1 stream
                else watch_dispatch w1 stream) (\<lambda>(w2, ret).
         rbind (if ret then Inr w2
                else rbind (z_stream_ref w2 (Some t)) (\<lambda>w3. rbind (z_stream_detach_source w3 t) (\<lambda>w4.
                  z_stream_unref w4 (Some t)))) (\<lambda>w5.
         rbind (z_stream_struct_unref w5 t) (\<lambda>w6. Inr (w6, ret))))))"

end
