(* ===== verification/Stream_Stack.thy ===== *)
theory Stream_Stack
  imports Stream
begin

section \<open>Stacks of streams: building and tearing down\<close>

text \<open>
  The documentation of \<open>src/stream.c\<close> says which references a stack of streams holds and in which
  orders it may be closed, detached and dropped. Here a stack is described by the list of its
  addresses (\<open>chain\<close>, \<open>stack_ok\<close>), and the operations are shown to keep that description and, at
  the end, to free every stream of the stack exactly once.
\<close>

subsection \<open>What an operation leaves alone\<close>

definition frame :: "nat set \<Rightarrow> world \<Rightarrow> world \<Rightarrow> bool" where
  "frame A w w' \<longleftrightarrow> (\<forall>b. b \<notin> A \<longrightarrow> get_st w' b = get_st w b) \<and> length (w_streams w') = length (w_streams w)
     \<and> w_pkts w' = w_pkts w \<and> w_dying w' = w_dying w"

lemma frame_refl [simp]: "frame A w w"
  by (simp add: frame_def)

lemma frame_trans: "frame A w w1 \<Longrightarrow> frame B w1 w2 \<Longrightarrow> A \<subseteq> C \<Longrightarrow> B \<subseteq> C \<Longrightarrow> frame C w w2"
  unfolding frame_def by (metis subsetD)

lemma frame_get: "frame A w w' \<Longrightarrow> b \<notin> A \<Longrightarrow> get_st w' b = get_st w b"
  by (simp add: frame_def)

lemma frame_put: "a \<in> A \<Longrightarrow> frame A w (put_st a s w)"
  by (auto simp: frame_def put_st_def get_st_def slot_update)

lemma frame_notify: "frame A w (notify f d w)" "frame A w (drop_callback c w)"
  by (auto simp: frame_def notify_def drop_callback_def get_st_def split: option.splits)

subsection \<open>Effects of the single calls\<close>

lemma ref_ok:
  "get_st w a = Inr s \<Longrightarrow> count_ok (st_ref s) \<Longrightarrow>
   z_stream_ref w (Some a) = Inr (put_st a (s\<lparr>st_ref := st_ref s + 1\<rparr>) w)"
  by (simp add: z_stream_ref_def)

lemma struct_ref_ok:
  "get_st w a = Inr s \<Longrightarrow> count_ok (st_struct_ref s) \<Longrightarrow>
   z_stream_struct_ref w a = Inr (put_st a (s\<lparr>st_struct_ref := st_struct_ref s + 1\<rparr>) w)"
  by (simp add: z_stream_struct_ref_def)

lemma unref_more:
  "get_st w a = Inr s \<Longrightarrow> count_ok (st_ref s) \<Longrightarrow> st_ref s \<noteq> 1 \<Longrightarrow>
   z_stream_unref w (Some a) = Inr (put_st a (s\<lparr>st_ref := st_ref s - 1\<rparr>) w)"
  by (simp add: z_stream_unref_def)

lemma drop_callbacks_ok:
  assumes "get_st w a = Inr s"
  shows "\<exists>w'. z_stream_drop_callbacks w a = Inr w' \<and> get_st w' a = Inr (drop_all s) \<and> frame {a} w w'"
proof -
  let ?w = "drop_callback (st_pri s) (drop_callback (st_write s) (drop_callback (st_read s) w))"
  have fr: "frame {a} w ?w"
    by (rule frame_trans[OF frame_notify(2)], rule frame_trans[OF frame_notify(2) frame_notify(2)]) auto
  have "get_st ?w a = Inr s" using assms by simp
  then have "get_st (put_st a (drop_all s) ?w) a = Inr (drop_all s)" by (simp add: get_put)
  moreover have "frame {a} w (put_st a (drop_all s) ?w)"
    by (rule frame_trans[OF fr frame_put]) auto
  ultimately show ?thesis using assms by (simp add: z_stream_drop_callbacks_def)
qed

lemma unref_last:
  assumes "get_st w a = Inr s" "st_ref s = 1" "st_child s = None" "st_ungot s = []"
  shows "\<exists>w'. z_stream_unref w (Some a) = Inr w' \<and> get_st w' a = Inl Bad_access \<and> frame {a} w w'"
proof -
  let ?s = "s\<lparr>st_ref := 0\<rparr>" and ?w = "put_st a (s\<lparr>st_ref := 0\<rparr>) w"
  have g: "get_st ?w a = Inr ?s" using assms(1) by (simp add: get_put)
  obtain w1 where w1: "z_stream_drop_callbacks ?w a = Inr w1" "frame {a} ?w w1"
    using drop_callbacks_ok[OF g] by auto
  let ?w' = "w1\<lparr>w_streams := (w_streams w1)[a := None]\<rparr>"
  have "frame {a} w1 ?w'" "get_st ?w' a = Inl Bad_access"
    by (auto simp: frame_def get_st_def slot_def)
  moreover have "frame {a} w w1" by (rule frame_trans[OF frame_put w1(2)]) auto
  ultimately have "frame {a} w ?w'" "get_st ?w' a = Inl Bad_access"
    using frame_trans[of "{a}" w w1 "{a}" ?w' "{a}"] by simp_all
  then show ?thesis using assms g w1 by (simp add: z_stream_unref_def z_stream_free_method_def)
qed

lemma struct_unref_more:
  "get_st w a = Inr s \<Longrightarrow> count_ok (st_struct_ref s) \<Longrightarrow> st_struct_ref s \<noteq> 1 \<or> st_child s = None \<Longrightarrow>
   z_stream_struct_unref w a = Inr (put_st a (s\<lparr>st_struct_ref := st_struct_ref s - 1\<rparr>) w)"
  by (subst z_stream_struct_unref.simps) (auto simp: struct_dec_def)

lemma child_unlink_ok:
  assumes "get_st w c = Inr sc" "st_parent sc = Some a" "get_st w a = Inr sa" "a \<noteq> c"
  shows "\<exists>w'. child_unlink w a c = Inr (w', Some a) \<and> get_st w' a = Inr (sa\<lparr>st_child := None\<rparr>)
     \<and> get_st w' c = Inr ((drop_all (sc\<lparr>st_umb_state := st_umb_flags sc\<rparr>))\<lparr>st_parent := None\<rparr>)
     \<and> frame {a, c} w w'"
proof -
  let ?sc = "sc\<lparr>st_umb_state := st_umb_flags sc\<rparr>"
  let ?w1 = "put_st c ?sc w"
  have "get_st ?w1 c = Inr ?sc" using assms(1) by (simp add: get_put)
  then obtain w2 where w2: "z_stream_drop_callbacks ?w1 c = Inr w2" "get_st w2 c = Inr (drop_all ?sc)"
    "frame {c} ?w1 w2" using drop_callbacks_ok by blast
  let ?w3 = "put_st c ((drop_all ?sc)\<lparr>st_parent := None\<rparr>) w2"
  have a: "get_st ?w3 a = Inr sa" using assms(3,4) frame_get[OF w2(3), of a] by simp
  let ?w4 = "put_st a (sa\<lparr>st_child := None\<rparr>) ?w3"
  have c: "get_st ?w3 c = Inr ((drop_all ?sc)\<lparr>st_parent := None\<rparr>)" using w2(2) by (simp add: get_put)
  have "frame {a, c} w ?w4"
  proof -
    have "frame {c} w w2" by (rule frame_trans[OF frame_put w2(3)]) auto
    then have "frame {c} w ?w3" by (rule frame_trans[OF _ frame_put]) auto
    then show ?thesis by (rule frame_trans[OF _ frame_put]) auto
  qed
  moreover have "child_unlink w a c = Inr (?w4, Some a)"
    using assms w2 a by (simp add: child_unlink_def upd_st_def)
  moreover have "get_st ?w4 a = Inr (sa\<lparr>st_child := None\<rparr>)" using a by (simp add: get_put)
  moreover have "get_st ?w4 c = get_st ?w3 c" using assms(4) by simp
  ultimately show ?thesis using c by (metis (no_types, lifting))
qed

subsection \<open>Stacks\<close>

fun first :: "nat list \<Rightarrow> nat option" where
  "first [] = None"
| "first (a # as) = Some a"

definition node_ok :: "zstream \<Rightarrow> int \<Rightarrow> int \<Rightarrow> source option \<Rightarrow> nat option \<Rightarrow> nat option \<Rightarrow> bool" where
  "node_ok s sr r src p c \<longleftrightarrow> st_parent s = p \<and> st_child s = c \<and> st_struct_ref s = sr \<and> st_ref s = r
     \<and> st_source s = src \<and> st_ungot s = []"

text \<open>
  \<open>chain w sr r src p as\<close>: the streams \<open>as\<close> are linked under the parent \<open>p\<close>, each with \<open>sr\<close>
  structure references, \<open>r\<close> references from above and from its source, one more from its child,
  and the source \<open>src\<close>.
\<close>

fun chain :: "world \<Rightarrow> int \<Rightarrow> int \<Rightarrow> source option \<Rightarrow> nat option \<Rightarrow> nat list \<Rightarrow> bool" where
  "chain w sr r src p [] \<longleftrightarrow> True"
| "chain w sr r src p (a # as) \<longleftrightarrow>
     (\<exists>s. get_st w a = Inr s \<and> node_ok s sr (r + of_bool (as \<noteq> [])) src p (first as))
     \<and> chain w sr r src (Some a) as"

lemma chain_frame: "frame A w w' \<Longrightarrow> A \<inter> set as = {} \<Longrightarrow> chain w' sr r src p as = chain w sr r src p as"
  by (induction as arbitrary: p) (auto simp: frame_def)

lemma count_ok_small: "0 < n \<Longrightarrow> n \<le> 100 \<Longrightarrow> count_ok n"
  by (simp add: count_ok_def MAX_REF_def)

text \<open>When the last structure reference of a stream goes, everything below it is freed.\<close>

lemma struct_unref_frees:
  assumes "chain w 1 1 None (Some a) as" "distinct (a # as)" "get_st w a = Inr s" "st_struct_ref s = 1"
    "st_child s = first as" "of_bool (as \<noteq> []) < st_ref s" "st_ref s < MAX_REF"
  shows "\<exists>w' s'. z_stream_struct_unref w a = Inr w' \<and> get_st w' a = Inr s' \<and> st_struct_ref s' = 0
     \<and> st_child s' = None \<and> st_ref s' = st_ref s - of_bool (as \<noteq> []) \<and> st_ungot s' = st_ungot s
     \<and> st_parent s' = st_parent s \<and> st_source s' = st_source s
     \<and> (\<forall>b \<in> set as. get_st w' b = Inl Bad_access) \<and> frame (set (a # as)) w w'"
  using assms
proof (induction as arbitrary: w a s)
  case Nil
  let ?w = "put_st a (s\<lparr>st_struct_ref := 0\<rparr>) w"
  have "z_stream_struct_unref w a = Inr ?w" using struct_unref_more[OF Nil.prems(3)] Nil.prems(4,5) by simp
  moreover have "get_st ?w a = Inr (s\<lparr>st_struct_ref := 0\<rparr>)" using Nil.prems(3) by (simp add: get_put)
  ultimately show ?case using Nil.prems(5) frame_put[of a "{a}"] by simp
next
  case (Cons c cs)
  obtain sc where sc: "get_st w c = Inr sc" "node_ok sc 1 (1 + of_bool (cs \<noteq> [])) None (Some a) (first cs)"
    using Cons.prems(1) by auto
  note nc = sc(2)[unfolded node_ok_def]
  have ac: "a \<noteq> c" "c \<notin> set cs" "a \<notin> set cs" "distinct (c # cs)" using Cons.prems(2) by auto
  define w1 where "w1 = put_st a (s\<lparr>st_struct_ref := 0\<rparr>) w"
  have w1: "struct_dec w a = Inr (w1, Some c)" "get_st w1 a = Inr (s\<lparr>st_struct_ref := 0\<rparr>)" "get_st w1 c = Inr sc"
    using Cons.prems(3-5) sc ac by (simp_all add: struct_dec_def w1_def get_put)
  define sc2 where "sc2 = sc\<lparr>st_ref := st_ref sc + 1\<rparr>"
  define w2 where "w2 = put_st c sc2 w1"
  have "count_ok (st_ref sc)" using nc by (intro count_ok_small) auto
  then have w2: "z_stream_ref w1 (Some c) = Inr w2" "get_st w2 c = Inr sc2"
    "get_st w2 a = Inr (s\<lparr>st_struct_ref := 0\<rparr>)"
    using ref_ok[OF w1(3)] w1 ac by (simp_all add: w2_def sc2_def get_put)
  obtain w3 where w3: "child_unlink w2 a c = Inr (w3, Some a)"
    "get_st w3 a = Inr (s\<lparr>st_struct_ref := 0, st_child := None\<rparr>)"
    "get_st w3 c = Inr ((drop_all (sc2\<lparr>st_umb_state := st_umb_flags sc2\<rparr>))\<lparr>st_parent := None\<rparr>)"
    "frame {a, c} w2 w3"
    using child_unlink_ok[OF w2(2) _ w2(3) ac(1)] nc by (auto simp: sc2_def)
  have f3: "frame {a, c} w w3"
  proof -
    have "frame {a, c} w w1" unfolding w1_def by (rule frame_put) simp
    then have "frame {a, c} w w2" unfolding w2_def by (rule frame_trans[OF _ frame_put]) auto
    then show ?thesis by (rule frame_trans[OF _ w3(4)]) auto
  qed
  have ch: "chain w3 1 1 None (Some c) cs" using Cons.prems(1) ac chain_frame[OF f3, of cs] by auto
  have small: "of_bool (cs \<noteq> []) < (524286 :: int)" by (cases cs) auto
  obtain w4 s4 where w4: "z_stream_struct_unref w3 c = Inr w4" "get_st w4 c = Inr s4" "st_child s4 = None"
    "st_ref s4 = 2" "st_ungot s4 = []" "\<forall>b \<in> set cs. get_st w4 b = Inl Bad_access" "frame (set (c # cs)) w3 w4"
    using Cons.IH[OF ch ac(4) w3(3)] nc small by (auto simp: sc2_def MAX_REF_def)
  define w5 where "w5 = put_st c (s4\<lparr>st_ref := 1\<rparr>) w4"
  have w5: "z_stream_unref w4 (Some c) = Inr w5" "get_st w5 c = Inr (s4\<lparr>st_ref := 1\<rparr>)" "frame {c} w4 w5"
    using unref_more[OF w4(2)] w4(2,4) frame_put[of c "{c}"] by (simp_all add: w5_def get_put count_ok_small)
  define sa where "sa = s\<lparr>st_struct_ref := 0, st_child := None\<rparr>"
  have a5: "get_st w5 a = Inr sa"
    using frame_get[OF w4(7), of a] frame_get[OF w5(3), of a] w3(2) ac by (simp add: sa_def)
  define w6 where "w6 = put_st a (sa\<lparr>st_ref := st_ref sa - 1\<rparr>) w5"
  have w6: "z_stream_unref w5 (Some a) = Inr w6" "get_st w6 a = Inr (sa\<lparr>st_ref := st_ref sa - 1\<rparr>)" "frame {a} w5 w6"
    "get_st w6 c = Inr (s4\<lparr>st_ref := 1\<rparr>)"
    using unref_more[OF a5] a5 Cons.prems(6,7) w5(2) ac frame_put[of a "{a}"]
    by (simp_all add: w6_def get_put sa_def count_ok_def)
  obtain w7 where w7: "z_stream_unref w6 (Some c) = Inr w7" "get_st w7 c = Inl Bad_access" "frame {c} w6 w7"
    using unref_last[OF w6(4)] w4(3,5) by auto
  let ?A = "set (a # c # cs)"
  have "frame ?A w w4" by (rule frame_trans[OF f3 w4(7)]) auto
  then have "frame ?A w w5" by (rule frame_trans[OF _ w5(3)]) auto
  then have "frame ?A w w6" by (rule frame_trans[OF _ w6(3)]) auto
  then have fr: "frame ?A w w7" by (rule frame_trans[OF _ w7(3)]) auto
  have "z_stream_struct_unref w a = Inr w7"
    by (subst z_stream_struct_unref.simps) (simp add: w1(1) w2(1) w3(1) w4(1) w5(1) w6(1) w7(1))
  moreover have "get_st w7 a = Inr (sa\<lparr>st_ref := st_ref sa - 1\<rparr>)" using frame_get[OF w7(3)] w6(2) ac by simp
  moreover have "get_st w7 b = Inl Bad_access" if "b \<in> set (c # cs)" for b
  proof (cases "b = c")
    case False
    then have b: "b \<in> set cs" "b \<noteq> a" using that ac by auto
    then show ?thesis using w4(6) frame_get[OF w5(3)] frame_get[OF w6(3)] frame_get[OF w7(3)] False by simp
  qed (use w7(2) in simp)
  ultimately show ?case using fr by (auto simp: sa_def)
qed

subsection \<open>Building a stack\<close>

text \<open>
  A stack with the top \<open>a\<close>: \<open>sr1\<close> structure references of the top and \<open>sr\<close> of the others, \<open>r\<close>
  references to each from above and from its source. \<open>stack_ok\<close> is the documented state of a
  stack in the hands of the application, without or with sources.
\<close>

definition stack_at :: "world \<Rightarrow> int \<Rightarrow> int \<Rightarrow> int \<Rightarrow> source option \<Rightarrow> nat \<Rightarrow> nat list \<Rightarrow> bool" where
  "stack_at w sr1 sr r src a as \<longleftrightarrow> distinct (a # as)
     \<and> (\<exists>s. get_st w a = Inr s \<and> node_ok s sr1 (r + of_bool (as \<noteq> [])) src None (first as))
     \<and> chain w sr r src (Some a) as"

abbreviation idle_source :: source where
  "idle_source \<equiv> \<lparr>src_active = True, src_in_call = False\<rparr>"

abbreviation stack_ok :: "world \<Rightarrow> nat \<Rightarrow> nat list \<Rightarrow> bool" where
  "stack_ok w a as \<equiv> stack_at w 1 2 1 None a as"

abbreviation attached_ok :: "world \<Rightarrow> nat \<Rightarrow> nat list \<Rightarrow> bool" where
  "attached_ok w a as \<equiv> stack_at w 2 3 2 (Some idle_source) a as"

lemma chain_live: "chain w sr r src p as \<Longrightarrow> b \<in> set as \<Longrightarrow> b < length (w_streams w)"
  by (induction as arbitrary: p) (auto simp: get_st_Inr dest: slot_Some)

lemma live_length:
  assumes "distinct as" "\<And>b. b \<in> set as \<Longrightarrow> b < length (w_streams w)"
  shows "length as \<le> length (w_streams w)"
proof -
  have "set as \<subseteq> {..<length (w_streams w)}" using assms(2) by auto
  then have "card (set as) \<le> card {..<length (w_streams w)}" by (intro card_mono) auto
  then show ?thesis using distinct_card[OF assms(1)] by simp
qed

lemma stack_at_length: "stack_at w sr1 sr r src a as \<Longrightarrow> length (a # as) \<le> length (w_streams w)"
  by (rule live_length) (auto simp: stack_at_def get_st_Inr dest: chain_live slot_Some)

lemma stack_of_chain: "chain w sr r src p (c # cs) \<Longrightarrow> length (c # cs) \<le> n \<Longrightarrow> stack_of n w c = Inr (c # cs)"
proof (induction cs arbitrary: c p n)
  case Nil
  then show ?case by (cases n) (auto simp: node_ok_def)
next
  case (Cons d ds)
  then obtain m where "n = Suc m" by (cases n) auto
  then show ?case using Cons by (auto simp: node_ok_def)
qed

text \<open>A change of fields that a stack does not depend on, on all its streams.\<close>

lemma upd_all_effect:
  assumes "\<And>b. b \<in> set as \<Longrightarrow> \<exists>s. get_st w b = Inr s" "distinct as"
  shows "\<exists>w'. upd_all w as f = Inr w' \<and> frame (set as) w w' \<and> w_notified w' = w_notified w
     \<and> (\<forall>b \<in> set as. \<forall>s. get_st w b = Inr s \<longrightarrow> get_st w' b = Inr (f s))"
  using assms
proof (induction as arbitrary: w)
  case (Cons a as)
  obtain s where s: "get_st w a = Inr s" using Cons.prems(1)[of a] by auto
  let ?w = "put_st a (f s) w"
  have "\<exists>s. get_st ?w b = Inr s" if "b \<in> set as" for b
    using Cons.prems that by (cases "b = a") auto
  then obtain w' where w': "upd_all ?w as f = Inr w'" "frame (set as) ?w w'" "w_notified w' = w_notified ?w"
    "\<forall>b \<in> set as. \<forall>s. get_st ?w b = Inr s \<longrightarrow> get_st w' b = Inr (f s)"
    using Cons.IH[of ?w] Cons.prems(2) by auto
  have "frame (set (a # as)) w w'" by (rule frame_trans[OF frame_put w'(2)]) auto
  moreover have "upd_all w (a # as) f = Inr w'" using s w'(1) by (simp add: upd_st_def)
  moreover have "get_st w' b = Inr (f t)" if b: "b \<in> set (a # as)" "get_st w b = Inr t" for b t
  proof (cases "b = a")
    case True
    then have "get_st w' a = get_st ?w a" using frame_get[OF w'(2)] Cons.prems(2) by simp
    then show ?thesis using True b s by (simp add: get_put)
  next
    case False
    then show ?thesis using b w'(4) by simp
  qed
  ultimately show ?case using w'(3) by auto
qed simp

lemma chain_same_fields:
  assumes "chain w sr r src p as" "\<And>sr r src p c s. node_ok (f s) sr r src p c = node_ok s sr r src p c"
    "\<And>b s. b \<in> set as \<Longrightarrow> get_st w b = Inr s \<Longrightarrow> get_st w' b = Inr (f s)"
  shows "chain w' sr r src p as"
  using assms(1,3)
proof (induction as arbitrary: p)
  case (Cons a as)
  obtain s where s: "get_st w a = Inr s" "node_ok s sr (r + of_bool (as \<noteq> [])) src p (first as)"
    "chain w sr r src (Some a) as" using Cons.prems(1) by auto
  have "get_st w' a = Inr (f s)" using Cons.prems(2) s(1) by simp
  moreover have "chain w' sr r src (Some a) as" using Cons.IH[OF s(3)] Cons.prems(2) by simp
  ultimately show ?case using s(2) assms(2) by auto
qed simp

lemma chain_all_live: "chain w sr r src p as \<Longrightarrow> b \<in> set as \<Longrightarrow> \<exists>s. get_st w b = Inr s"
  by (induction as arbitrary: p) auto

lemma stack_of_top:
  assumes "get_st w a = Inr s" "st_child s = first as" "chain w sr r src (Some a) as" "length (a # as) \<le> n"
  shows "stack_of n w a = Inr (a # as)"
proof -
  obtain m where m: "n = Suc m" using assms(4) by (cases n) auto
  show ?thesis
  proof (cases as)
    case Nil
    then show ?thesis using assms m by simp
  next
    case (Cons c cs)
    then show ?thesis using assms m stack_of_chain[of w sr r src "Some a" c cs m] by simp
  qed
qed

lemma child_link_prefix:
  assumes a: "get_st w a = Inr sa" "st_parent sa = None" "count_ok (st_ref sa)" "count_ok (st_struct_ref sa)"
    and b: "get_st w b = Inr sb" "st_child sb = None" "count_ok (st_ref sb)" and ab: "a \<noteq> b"
  defines "sb' \<equiv> sb\<lparr>st_depth := st_depth sa + 1, st_name := st_name sa, st_ref := st_ref sb + 1,
      st_child := Some a, st_timeout := st_timeout sa\<rparr>"
    and "sa' \<equiv> sa\<lparr>st_parent := Some b, st_ref := st_ref sa + 1, st_struct_ref := st_struct_ref sa + 1\<rparr>"
  shows "\<exists>w'. get_st w' b = Inr sb' \<and> get_st w' a = Inr sa' \<and> frame {a, b} w w' \<and> w_notified w' = w_notified w
     \<and> child_link w b a = rbind (stack w' b) (\<lambda>as.
         upd_all w' (tl as) (\<lambda>t. t\<lparr>st_umb_state := st_umb_state t AND NOT (st_umb_flags sb)\<rparr>))"
proof -
  have len: "length (w_streams (put_st x s v)) = length (w_streams v)" for x s v by (simp add: put_st_def)
  have "0 < length (w_streams w)" using b(1) slot_Some[of "w_streams w" b sb] by (auto simp: get_st_Inr)
  then obtain n where n: "length (w_streams w) = Suc n" by (cases "length (w_streams w)") auto
  let ?b1 = "sb\<lparr>st_depth := st_depth sa + 1\<rparr>"
  let ?b2 = "?b1\<lparr>st_name := st_name sa\<rparr>"
  let ?b3 = "?b2\<lparr>st_ref := st_ref sb + 1\<rparr>"
  let ?w1 = "put_st b ?b1 w"
  let ?w2 = "put_st b ?b2 ?w1"
  let ?w3 = "put_st b ?b3 ?w2"
  let ?a1 = "sa\<lparr>st_parent := Some b\<rparr>"
  let ?a2 = "?a1\<lparr>st_ref := st_ref sa + 1\<rparr>"
  let ?w4 = "put_st a ?a1 ?w3"
  let ?w5 = "put_st a ?a2 ?w4"
  let ?w6 = "put_st b (?b3\<lparr>st_child := Some a\<rparr>) ?w5"
  let ?w7 = "put_st a (?a2\<lparr>st_struct_ref := st_struct_ref sa + 1\<rparr>) ?w6"
  let ?w8 = "put_st b (?b3\<lparr>st_child := Some a, st_timeout := st_timeout sa\<rparr>) ?w7"
  note ba = ab ab[symmetric]
  have g1: "get_st ?w1 b = Inr ?b1" "get_st ?w1 a = Inr sa" using a b ba by (simp_all add: get_put)
  have g2: "get_st ?w2 b = Inr ?b2" "get_st ?w2 a = Inr sa" using g1 ba by (simp_all add: get_put)
  have g3: "get_st ?w3 b = Inr ?b3" "get_st ?w3 a = Inr sa" using g2 ba by (simp_all add: get_put)
  have g4: "get_st ?w4 a = Inr ?a1" "get_st ?w4 b = Inr ?b3" using g3 ba by (simp_all add: get_put)
  have g5: "get_st ?w5 a = Inr ?a2" "get_st ?w5 b = Inr ?b3" using g4 ba by (simp_all add: get_put)
  have g6: "get_st ?w6 a = Inr ?a2" "get_st ?w6 b = Inr (?b3\<lparr>st_child := Some a\<rparr>)"
    using g5 ba by (simp_all add: get_put)
  have g7: "get_st ?w7 a = Inr (?a2\<lparr>st_struct_ref := st_struct_ref sa + 1\<rparr>)"
    "get_st ?w7 b = Inr (?b3\<lparr>st_child := Some a\<rparr>)" using g6 ba by (simp_all add: get_put)
  have g8: "get_st ?w8 b = Inr sb'" "get_st ?w8 a = Inr sa'"
    using g7 ba by (simp_all add: get_put sb'_def sa'_def)
  have nm: "z_stream_set_name ?w1 b (st_name sa) = Inr ?w2"
    using g1 b(2) by (simp add: z_stream_set_name_def len n upd_st_def)
  have r1: "z_stream_ref ?w2 (Some b) = Inr ?w3" using ref_ok[OF g2(1)] b(3) by simp
  have r2: "z_stream_ref ?w4 (Some a) = Inr ?w5" using ref_ok[OF g4(1)] a(3) by simp
  have r3: "z_stream_struct_ref ?w6 a = Inr ?w7" using struct_ref_ok[OF g6(1)] a(4) by simp
  have u1: "upd_st w b (\<lambda>s. s\<lparr>st_depth := st_depth sa + 1\<rparr>) = Inr ?w1" using b(1) by (simp add: upd_st_def)
  have u2: "upd_st ?w3 a (\<lambda>s. s\<lparr>st_parent := Some b\<rparr>) = Inr ?w4" using g3 by (simp add: upd_st_def)
  have u3: "upd_st ?w5 b (\<lambda>s. s\<lparr>st_child := Some a\<rparr>) = Inr ?w6" using g5 by (simp add: upd_st_def)
  have u4: "upd_st ?w7 b (\<lambda>s. s\<lparr>st_timeout := st_timeout sa\<rparr>) = Inr ?w8" using g7 by (simp add: upd_st_def)
  have "child_link w b a = rbind (stack ?w8 b) (\<lambda>as.
      upd_all ?w8 (tl as) (\<lambda>t. t\<lparr>st_umb_state := st_umb_state t AND NOT (st_umb_flags sb')\<rparr>))"
    unfolding child_link_def a(1) by (simp add: a(2) u1 nm r1 u2 r2 u3 r3 u4 g8(1))
  moreover have "st_umb_flags sb' = st_umb_flags sb" by (simp add: sb'_def)
  moreover have "frame {a, b} w ?w8"
    by (intro frame_trans[OF _ frame_put, of "{a, b}" _ _ _ "{a, b}"] frame_put) auto
  ultimately show ?thesis using g8 by (intro exI[of _ ?w8]) simp
qed

text \<open>The fields of a stream that the umbrella calculation works on.\<close>

definition umb :: "world \<Rightarrow> nat \<Rightarrow> 32 word \<times> 32 word" where
  "umb w a = (case get_st w a of Inl e \<Rightarrow> (0, 0) | Inr s \<Rightarrow> (st_umb_flags s, st_umb_state s))"

lemma push_stack:
  assumes st: "stack_ok w a as" and top: "stack_ok w b []" and fresh: "b \<notin> set (a # as)"
  shows "\<exists>w'. z_stream_push w a b = Inr (w', b) \<and> stack_ok w' b (a # as) \<and> frame (set (b # a # as)) w w'
     \<and> w_notified w' = w_notified w \<and> umb w' b = umb w b
     \<and> (\<forall>c \<in> set (a # as). umb w' c = (fst (umb w c), snd (umb w c) AND NOT (fst (umb w b))))"
proof -
  obtain sa where sa: "get_st w a = Inr sa" "node_ok sa 1 (1 + of_bool (as \<noteq> [])) None None (first as)"
    and ch: "chain w 2 1 None (Some a) as" and dist: "distinct (a # as)"
    using st by (auto simp: stack_at_def)
  obtain sb where sb: "get_st w b = Inr sb" "node_ok sb 1 1 None None None"
    using top by (auto simp: stack_at_def)
  note na = sa(2)[unfolded node_ok_def] and nb = sb(2)[unfolded node_ok_def]
  have ab: "a \<noteq> b" "b \<notin> set as" "a \<notin> set as" using fresh dist by auto
  let ?g = "\<lambda>t. t\<lparr>st_umb_state := st_umb_state t AND NOT (st_umb_flags sb)\<rparr>"
  define sb' where "sb' = sb\<lparr>st_depth := st_depth sa + 1, st_name := st_name sa, st_ref := st_ref sb + 1,
      st_child := Some a, st_timeout := st_timeout sa\<rparr>"
  define sa' where "sa' = sa\<lparr>st_parent := Some b, st_ref := st_ref sa + 1, st_struct_ref := st_struct_ref sa + 1\<rparr>"
  have cnt: "count_ok (st_ref sa)" "count_ok (st_struct_ref sa)" "count_ok (st_ref sb)"
    using na nb by (auto intro!: count_ok_small)
  obtain w1 where w1: "get_st w1 b = Inr sb'" "get_st w1 a = Inr sa'" "frame {a, b} w w1" "w_notified w1 = w_notified w"
    "child_link w b a = rbind (stack w1 b) (\<lambda>as. upd_all w1 (tl as) ?g)"
    using child_link_prefix[OF sa(1) _ cnt(1,2) sb(1) _ cnt(3) ab(1)] na nb unfolding sa'_def sb'_def by auto
  have ch1: "chain w1 2 1 None (Some a) as" using ch chain_frame[OF w1(3)] ab by auto
  have live: "\<exists>s. get_st w1 c = Inr s" if "c \<in> set (a # as)" for c
    using chain_all_live[OF ch1, of c] w1(2) that by auto
  have "length (b # a # as) \<le> length (w_streams w1)"
  proof (rule live_length)
    show "c < length (w_streams w1)" if "c \<in> set (b # a # as)" for c
      using live[of c] w1(1) that slot_Some[of "w_streams w1" c] by (auto simp: get_st_Inr)
  qed (use ab dist in auto)
  then obtain n where n: "length (w_streams w1) = Suc n" "length (a # as) \<le> n"
    by (cases "length (w_streams w1)") auto
  have "stack_of n w1 a = Inr (a # as)"
    using stack_of_top[OF w1(2) _ ch1 n(2)] na by (simp add: sa'_def)
  then have "stack w1 b = Inr (b # a # as)" unfolding n(1) using w1(1) by (simp add: sb'_def)
  then have lnk: "child_link w b a = upd_all w1 (a # as) ?g" using w1(5) by simp
  obtain w2 where w2: "upd_all w1 (a # as) ?g = Inr w2" "frame (set (a # as)) w1 w2" "w_notified w2 = w_notified w1"
    "\<forall>c \<in> set (a # as). \<forall>s. get_st w1 c = Inr s \<longrightarrow> get_st w2 c = Inr (?g s)"
    using upd_all_effect[of "a # as" w1 ?g, OF live dist] by blast
  have a2: "get_st w2 a = Inr (?g sa')" using w2(4) w1(2) by simp
  have b2: "get_st w2 b = Inr sb'" using frame_get[OF w2(2), of b] w1(1) ab by simp
  have ch2: "chain w2 2 1 None (Some a) as"
    by (rule chain_same_fields[OF ch1, of ?g]) (use w2(4) in \<open>auto simp: node_ok_def\<close>)
  have "st_ref (?g sa') \<noteq> 1" "count_ok (st_ref (?g sa'))" using na by (auto simp: sa'_def intro!: count_ok_small)
  from unref_more[OF a2 this(2,1)]
  obtain w3 where w3: "z_stream_unref w2 (Some a) = Inr w3" "w3 = put_st a ((?g sa')\<lparr>st_ref := st_ref sa\<rparr>) w2"
    by (simp add: sa'_def)
  have a3: "get_st w3 a = Inr ((?g sa')\<lparr>st_ref := st_ref sa\<rparr>)" "frame {a} w2 w3" "get_st w3 b = Inr sb'"
    using a2 b2 w3(2) frame_put[of a "{a}"] ab by (simp_all add: get_put)
  have "chain w3 2 1 None (Some a) as" using ch2 chain_frame[OF a3(2)] ab by auto
  then have "stack_ok w3 b (a # as)"
    using a3 na nb dist ab unfolding stack_at_def by (simp add: node_ok_def sa'_def sb'_def)
  moreover have "z_stream_push w a b = Inr (w3, b)"
    using sb(1) nb lnk w2(1) w3(1) by (simp add: z_stream_push_def z_stream_set_child_method_def)
  moreover have "frame (set (b # a # as)) w w3"
    by (rule frame_trans[OF frame_trans[OF w1(3) w2(2), of "set (b # a # as)"] a3(2)]) auto
  moreover have "umb w3 b = umb w b" using a3(3) sb(1) by (simp add: umb_def sb'_def)
  moreover have "umb w3 c = (fst (umb w c), snd (umb w c) AND NOT (fst (umb w b)))" if c: "c \<in> set (a # as)" for c
  proof (cases "c = a")
    case True
    then show ?thesis using a3(1) sa(1) sb(1) by (simp add: umb_def sa'_def)
  next
    case False
    obtain s where s: "get_st w1 c = Inr s" using live c by blast
    have "c \<noteq> b" using c ab by auto
    then have "get_st w c = Inr s" using frame_get[OF w1(3), of c] s False by simp
    moreover have "get_st w3 c = Inr (?g s)" using frame_get[OF a3(2), of c] w2(4) c s False by simp
    ultimately show ?thesis using sb(1) by (simp add: umb_def)
  qed
  moreover have "w_notified w3 = w_notified w" using w3(2) w2(3) w1(4) by simp
  ultimately show ?thesis by blast
qed

lemma pop_stack:
  assumes "stack_ok w b (a # as)"
  shows "\<exists>w'. z_stream_pop w b = Inr (w', Some a) \<and> stack_ok w' a as \<and> get_st w' b = Inl Bad_access
     \<and> frame (set (b # a # as)) w w' \<and> umb w' a = (fst (umb w a), fst (umb w a))
     \<and> (\<forall>c \<in> set as. get_st w' c = get_st w c)"
proof -
  obtain sb where sb: "get_st w b = Inr sb" "node_ok sb 1 2 None None (Some a)"
    and ch: "chain w 2 1 None (Some b) (a # as)" and dist: "distinct (b # a # as)"
    using assms by (auto simp: stack_at_def)
  obtain sa where sa: "get_st w a = Inr sa" "node_ok sa 2 (1 + of_bool (as \<noteq> [])) None (Some b) (first as)"
    and ch': "chain w 2 1 None (Some a) as" using ch by auto
  note na = sa(2)[unfolded node_ok_def] and nb = sb(2)[unfolded node_ok_def]
  have ab: "a \<noteq> b" "b \<noteq> a" "b \<notin> set as" "a \<notin> set as" using dist by auto
  define sa1 where "sa1 = sa\<lparr>st_ref := st_ref sa + 1\<rparr>"
  define sb1 where "sb1 = sb\<lparr>st_umb_state := st_umb_flags sb\<rparr>"
  define w1 where "w1 = put_st a sa1 w"
  define w2 where "w2 = put_st b sb1 w1"
  have cnt: "count_ok (st_ref sa)" using na by (auto intro!: count_ok_small)
  have r1: "z_stream_ref w (Some a) = Inr w1" using ref_ok[OF sa(1) cnt] by (simp add: w1_def sa1_def)
  have g2: "get_st w2 a = Inr sa1" "get_st w2 b = Inr sb1" "upd_st w1 b (\<lambda>s. s\<lparr>st_umb_state := st_umb_flags s\<rparr>) = Inr w2"
    using sa(1) sb(1) ab by (simp_all add: w1_def w2_def get_put upd_st_def sb1_def)
  obtain w3 where w3: "child_unlink w2 b a = Inr (w3, Some b)" "get_st w3 b = Inr (sb1\<lparr>st_child := None\<rparr>)"
    "get_st w3 a = Inr ((drop_all (sa1\<lparr>st_umb_state := st_umb_flags sa1\<rparr>))\<lparr>st_parent := None\<rparr>)" "frame {b, a} w2 w3"
    using child_unlink_ok[OF g2(1) _ g2(2) ab(2)] na by (auto simp: sa1_def)
  define sa3 where "sa3 = (drop_all (sa1\<lparr>st_umb_state := st_umb_flags sa1\<rparr>))\<lparr>st_parent := None\<rparr>"
  define sa4 where "sa4 = sa3\<lparr>st_struct_ref := 1\<rparr>"
  define sa5 where "sa5 = sa4\<lparr>st_ref := st_ref sa\<rparr>"
  define w4 where "w4 = put_st a sa4 w3"
  define w5 where "w5 = put_st a sa5 w4"
  have f3: "st_struct_ref sa3 = 2" "st_ref sa3 = st_ref sa + 1" "count_ok (st_ref sa + 1)" "st_ref sa + 1 \<noteq> 1"
    using na by (auto simp: sa3_def sa1_def intro!: count_ok_small)
  have s4: "z_stream_struct_unref w3 a = Inr w4"
    using struct_unref_more[OF w3(3)] f3(1) by (simp add: w4_def sa4_def sa3_def count_ok_small)
  have g4: "get_st w4 a = Inr sa4" "get_st w4 b = Inr (sb1\<lparr>st_child := None\<rparr>)"
    using w3(2,3) ab by (simp_all add: w4_def sa3_def get_put)
  have s5: "z_stream_unref w4 (Some a) = Inr w5"
    using unref_more[OF g4(1)] f3 by (simp add: w5_def sa5_def sa4_def)
  define sb6 where "sb6 = sb1\<lparr>st_child := None, st_ref := 1\<rparr>"
  define w6 where "w6 = put_st b sb6 w5"
  have g5: "get_st w5 a = Inr sa5" "get_st w5 b = Inr (sb1\<lparr>st_child := None\<rparr>)"
    using g4 ab by (simp_all add: w5_def get_put)
  have s6: "z_stream_unref w5 (Some b) = Inr w6"
    using unref_more[OF g5(2)] nb by (simp add: w6_def sb6_def sb1_def count_ok_small)
  define sa7 where "sa7 = sa5\<lparr>st_umb_state := st_umb_flags sa5\<rparr>"
  define w7 where "w7 = put_st a sa7 w6"
  have g6: "get_st w6 a = Inr sa5" "get_st w6 b = Inr sb6" using g5 ab by (simp_all add: w6_def get_put)
  have g7: "get_st w7 a = Inr sa7" "get_st w7 b = Inr sb6" using g6 ab by (simp_all add: w7_def get_put)
  obtain w8 where w8: "z_stream_unref w7 (Some b) = Inr w8" "get_st w8 b = Inl Bad_access" "frame {b} w7 w8"
    using unref_last[OF g7(2)] nb by (auto simp: sb6_def sb1_def)
  have "z_stream_set_child_method w2 b None = Inr w6"
    using g2(2) nb w3(1) s4 s5 s6 by (simp add: z_stream_set_child_method_def sb1_def)
  then have pop: "z_stream_pop w b = Inr (w8, Some a)"
    using sb(1) nb r1 g2(3) g6(1) w8(1) by (simp add: z_stream_pop_def upd_st_def w7_def sa7_def)
  have fr: "frame {a, b} w w8"
  proof -
    have "frame {a, b} w w2" unfolding w1_def w2_def by (intro frame_trans[OF frame_put frame_put, of _ "{a, b}" _ _ "{a, b}"]) auto
    moreover have "frame {a, b} w3 w7" unfolding w4_def w5_def w6_def w7_def
      by (intro frame_trans[OF _ frame_put, of "{a, b}" _ _ _ "{a, b}"] frame_put) auto
    ultimately have "frame {a, b} w w7"
      using frame_trans[OF frame_trans[OF \<open>frame {a, b} w w2\<close> w3(4), of "{a, b}"], of "{a, b}" w7 "{a, b}"] by auto
    then show ?thesis by (rule frame_trans[OF _ w8(3)]) auto
  qed
  have a8: "get_st w8 a = Inr sa7" using frame_get[OF w8(3), of a] g7(1) ab by simp
  have n7: "node_ok sa7 1 (1 + of_bool (as \<noteq> [])) None None (first as)"
    using na by (simp add: node_ok_def sa7_def sa5_def sa4_def sa3_def sa1_def)
  have "chain w8 2 1 None (Some a) as" using ch' chain_frame[OF fr] ab by auto
  then have "stack_ok w8 a as" using a8 n7 ab dist unfolding stack_at_def by auto
  moreover have "umb w8 a = (fst (umb w a), fst (umb w a))"
    using a8 sa(1) by (simp add: umb_def sa7_def sa5_def sa4_def sa3_def sa1_def)
  moreover have "frame (set (b # a # as)) w w8" by (rule frame_trans[OF fr frame_refl]) auto
  moreover have "get_st w8 c = get_st w c" if "c \<in> set as" for c using that ab frame_get[OF fr, of c] by auto
  ultimately show ?thesis using pop w8(2) by blast
qed

lemma pop_last: "stack_ok w a [] \<Longrightarrow> z_stream_pop w a = Inr (w, None)"
  by (auto simp: stack_at_def node_ok_def z_stream_pop_def z_stream_ref_def)

subsection \<open>Attaching, detaching and closing\<close>

lemma chain_cons_put:
  assumes "chain w sr r src (Some c) cs" "get_st w c = Inr s0" "c \<notin> set cs"
    "node_ok s sr (r + of_bool (cs \<noteq> [])) src p (first cs)"
  shows "chain (put_st c s w) sr r src p (c # cs)"
proof -
  have "chain (put_st c s w) sr r src (Some c) cs" using assms(1,3) chain_frame[OF frame_put[of c "{c}"]] by auto
  then show ?thesis using assms(2,4) by (simp add: get_put)
qed

text \<open>The recursive calls on the child, if there is one.\<close>

definition below :: "(nat \<Rightarrow> world result) \<Rightarrow> world \<Rightarrow> nat option \<Rightarrow> world result" where
  "below f w c = (case c of None \<Rightarrow> Inr w | Some c \<Rightarrow> f c)"

lemma below_simps [simp]: "below f w None = Inr w" "below f w (Some c) = f c"
  by (simp_all add: below_def)

lemma attach_node:
  assumes s: "get_st w c = Inr s" "st_source s = None" "st_child s = first cs" and "c \<notin> set cs"
    and cnt: "0 < st_ref s" "st_ref s < 100" "0 < st_struct_ref s" "st_struct_ref s < 100"
  defines "w2 \<equiv> put_st c (s\<lparr>st_ref := st_ref s + 1, st_struct_ref := st_struct_ref s + 1\<rparr>)
      (put_st c (s\<lparr>st_ref := st_ref s + 1\<rparr>) w)"
  assumes sub: "below (z_stream_attach_source_method m w2) w2 (first cs) = Inr w3" "frame (set cs) w2 w3"
  shows "\<exists>w'. z_stream_attach_source_method (Suc m) w c = Inr w' \<and> frame {c} w3 w' \<and> get_st w' c
     = Inr (s\<lparr>st_ref := st_ref s + 1, st_struct_ref := st_struct_ref s + 1, st_source := Some idle_source\<rparr>)"
proof -
  let ?s2 = "s\<lparr>st_ref := st_ref s + 1, st_struct_ref := st_struct_ref s + 1\<rparr>"
  let ?s4 = "?s2\<lparr>st_ref := st_ref s + 2\<rparr>"
  let ?s5 = "?s4\<lparr>st_source := Some idle_source\<rparr>"
  let ?s6 = "?s5\<lparr>st_ref := st_ref s + 1\<rparr>"
  let ?w1 = "put_st c (s\<lparr>st_ref := st_ref s + 1\<rparr>) w"
  have ok: "count_ok (st_ref s)" "count_ok (st_struct_ref s)" "count_ok (st_ref s + 1)" "count_ok (st_ref s + 2)"
    using cnt by (auto simp: count_ok_def MAX_REF_def)
  have g1: "get_st ?w1 c = Inr (s\<lparr>st_ref := st_ref s + 1\<rparr>)" "get_st w2 c = Inr ?s2"
    using s(1) by (simp_all add: w2_def get_put)
  have g3: "get_st w3 c = Inr ?s2" using frame_get[OF sub(2), of c] g1 assms(4) by simp
  let ?w4 = "put_st c ?s4 w3"
  let ?w5 = "put_st c ?s5 ?w4"
  have g5: "get_st ?w4 c = Inr ?s4" "get_st ?w5 c = Inr ?s5" using g3 by (simp_all add: get_put)
  have "z_stream_ref w (Some c) = Inr ?w1" using ref_ok[OF s(1) ok(1)] .
  moreover have "z_stream_struct_ref ?w1 c = Inr w2" using struct_ref_ok[OF g1(1)] ok(2) by (simp add: w2_def)
  moreover have "z_stream_source_new w3 c = Inr (?w4, idle_source)"
    using ref_ok[OF g3] ok(3) by (simp add: z_stream_source_new_def add.commute)
  moreover have "upd_st ?w4 c (\<lambda>s. s\<lparr>st_source := Some idle_source\<rparr>) = Inr ?w5" using g5 by (simp add: upd_st_def)
  moreover have "z_stream_unref ?w5 (Some c) = Inr (put_st c ?s6 ?w5)"
    using unref_more[OF g5(2)] ok(4) cnt(1) by (simp add: add.commute)
  ultimately have "z_stream_attach_source_method (Suc m) w c = Inr (put_st c ?s6 ?w5)"
    using s(1) s(2) sub(1) by (simp add: s(3) below_def cong: option.case_cong)
  moreover have "frame {c} w3 (put_st c ?s6 ?w5)"
    by (intro frame_trans[OF _ frame_put, of "{c}" _ _ _ "{c}"] frame_put) auto
  moreover have "get_st (put_st c ?s6 ?w5) c = Inr ?s6" using g5 by (simp add: get_put)
  ultimately show ?thesis by auto
qed

lemma attach_chain:
  assumes "chain w sr r None p cs" "distinct cs" "length cs \<le> n" "0 < sr" "sr < 90" "0 < r" "r < 90"
  shows "\<exists>w'. below (z_stream_attach_source_method n w) w (first cs) = Inr w' \<and> frame (set cs) w w'
     \<and> chain w' (sr + 1) (r + 1) (Some idle_source) p cs"
  using assms
proof (induction cs arbitrary: w p n)
  case (Cons c cs)
  obtain s m where s: "get_st w c = Inr s" "node_ok s sr (r + of_bool (cs \<noteq> [])) None p (first cs)" and m: "n = Suc m"
    using Cons.prems(1,3) by (cases n) auto
  note ns = s(2)[unfolded node_ok_def]
  let ?w2 = "put_st c (s\<lparr>st_ref := st_ref s + 1, st_struct_ref := st_struct_ref s + 1\<rparr>)
      (put_st c (s\<lparr>st_ref := st_ref s + 1\<rparr>) w)"
  have f2: "frame {c} w ?w2" by (rule frame_trans[OF frame_put frame_put]) auto
  have "chain ?w2 sr r None (Some c) cs" using Cons.prems(1,2) chain_frame[OF f2, of cs] by auto
  then obtain w3 where w3: "below (z_stream_attach_source_method m ?w2) ?w2 (first cs) = Inr w3"
    "frame (set cs) ?w2 w3" "chain w3 (sr + 1) (r + 1) (Some idle_source) (Some c) cs"
    using Cons.IH[of ?w2 "Some c" m] Cons.prems m by auto
  have cnt: "0 < st_ref s" "st_ref s < 100" "0 < st_struct_ref s" "st_struct_ref s < 100"
    using ns Cons.prems by auto
  obtain w' where w': "z_stream_attach_source_method (Suc m) w c = Inr w'" "frame {c} w3 w'" "get_st w' c
     = Inr (s\<lparr>st_ref := st_ref s + 1, st_struct_ref := st_struct_ref s + 1, st_source := Some idle_source\<rparr>)"
    using attach_node[OF s(1) _ _ _ cnt w3(1,2)] ns Cons.prems(2) by auto
  have "chain w' (sr + 1) (r + 1) (Some idle_source) (Some c) cs"
    using w3(3) chain_frame[OF w'(2), of cs] Cons.prems(2) by auto
  then have "chain w' (sr + 1) (r + 1) (Some idle_source) p (c # cs)" using w'(3) ns by (auto simp: node_ok_def)
  moreover have "frame (set (c # cs)) w w'"
    by (rule frame_trans[OF frame_trans[OF f2 w3(2), of "set (c # cs)"] w'(2)]) auto
  ultimately show ?case using w'(1) m by auto
qed simp

lemma close_chain:
  assumes "chain w (sr + 1) r src p cs" "distinct cs" "length cs \<le> n" "0 < sr" "sr < 90"
  shows "\<exists>w'. (case first cs of None \<Rightarrow> Inr (w, IO_NORMAL) | Some c \<Rightarrow> z_stream_close_method n w c) = Inr (w', IO_NORMAL)
     \<and> frame (set cs) w w' \<and> chain w' sr r src p cs"
  using assms
proof (induction cs arbitrary: w p n)
  case (Cons c cs)
  obtain s m where s: "get_st w c = Inr s" "node_ok s (sr + 1) (r + of_bool (cs \<noteq> [])) src p (first cs)" and m: "n = Suc m"
    using Cons.prems(1,3) by (cases n) auto
  note ns = s(2)[unfolded node_ok_def]
  obtain w1 where w1: "(case first cs of None \<Rightarrow> Inr (w, IO_NORMAL) | Some c \<Rightarrow> z_stream_close_method m w c) = Inr (w1, IO_NORMAL)"
    "frame (set cs) w w1" "chain w1 sr r src (Some c) cs"
    using Cons.IH[of w "Some c" m] Cons.prems m by auto
  have g1: "get_st w1 c = Inr s" using frame_get[OF w1(2), of c] s(1) Cons.prems(2) by simp
  let ?w = "put_st c (s\<lparr>st_struct_ref := sr\<rparr>) w1"
  have "z_stream_struct_unref w1 c = Inr ?w"
    using struct_unref_more[OF g1] ns Cons.prems(4,5) by (simp add: count_ok_small)
  then have "z_stream_close_method n w c = Inr (?w, IO_NORMAL)" using s(1) ns m w1(1) by simp
  moreover have "chain ?w sr r src p (c # cs)"
    by (rule chain_cons_put[OF w1(3) g1]) (use ns Cons.prems(2) in \<open>auto simp: node_ok_def\<close>)
  moreover have "frame (set (c # cs)) w ?w" by (rule frame_trans[OF w1(2) frame_put[of c "{c}"]]) auto
  ultimately show ?case by auto
qed simp

text \<open>Detaching a node up to, but not including, the drop of its structure reference.\<close>

lemma detach_node:
  assumes s: "get_st w c = Inr s" "st_source s = Some idle_source" "st_child s = first cs" "1 < st_ref s" "st_ref s < 100"
  defines "w1 \<equiv> put_st c (s\<lparr>st_source := None, st_ref := st_ref s - 1\<rparr>) (put_st c (s\<lparr>st_source := None\<rparr>) w)"
  shows "z_stream_detach_source_method (Suc m) w c
     = rbind (below (z_stream_detach_source_method m w1) w1 (first cs)) (\<lambda>w2. z_stream_struct_unref w2 c)"
    and "get_st w1 c = Inr (s\<lparr>st_source := None, st_ref := st_ref s - 1\<rparr>)" "frame {c} w w1"
proof -
  let ?w = "put_st c (s\<lparr>st_source := None\<rparr>) w"
  have g: "get_st ?w c = Inr (s\<lparr>st_source := None\<rparr>)" using s(1) by (simp add: get_put)
  then show g1: "get_st w1 c = Inr (s\<lparr>st_source := None, st_ref := st_ref s - 1\<rparr>)" by (simp add: w1_def get_put)
  show "frame {c} w w1" unfolding w1_def by (rule frame_trans[OF frame_put frame_put]) auto
  have "source_destroy ?w c idle_source = Inr w1"
    using unref_more[OF g] s(4,5)
    by (simp add: source_destroy_def z_stream_source_finalize_def w1_def count_ok_small)
  then show "z_stream_detach_source_method (Suc m) w c
     = rbind (below (z_stream_detach_source_method m w1) w1 (first cs)) (\<lambda>w2. z_stream_struct_unref w2 c)"
    using s(1-3) g1 by (simp add: below_def cong: option.case_cong)
qed

lemma detach_chain:
  assumes "chain w (sr + 1) (r + 1) (Some idle_source) p cs" "distinct cs" "length cs \<le> n" "0 < sr" "sr < 90" "0 < r" "r < 90"
  shows "\<exists>w'. below (z_stream_detach_source_method n w) w (first cs) = Inr w' \<and> frame (set cs) w w'
     \<and> chain w' sr r None p cs"
  using assms
proof (induction cs arbitrary: w p n)
  case (Cons c cs)
  obtain s m where s: "get_st w c = Inr s" "node_ok s (sr + 1) (r + 1 + of_bool (cs \<noteq> [])) (Some idle_source) p (first cs)"
    and m: "n = Suc m" using Cons.prems(1,3) by (cases n) auto
  note ns = s(2)[unfolded node_ok_def]
  let ?s1 = "s\<lparr>st_source := None, st_ref := st_ref s - 1\<rparr>"
  let ?w1 = "put_st c ?s1 (put_st c (s\<lparr>st_source := None\<rparr>) w)"
  have "1 < st_ref s" "st_ref s < 100" using ns Cons.prems by auto
  then have dn: "z_stream_detach_source_method (Suc m) w c
      = rbind (below (z_stream_detach_source_method m ?w1) ?w1 (first cs)) (\<lambda>w2. z_stream_struct_unref w2 c)"
    "get_st ?w1 c = Inr ?s1" "frame {c} w ?w1"
    using detach_node[OF s(1)] ns by simp_all
  have "chain ?w1 (sr + 1) (r + 1) (Some idle_source) (Some c) cs"
    using Cons.prems(1,2) chain_frame[of "{c}" w ?w1 cs] dn(3) ns by auto
  then obtain w2 where w2: "below (z_stream_detach_source_method m ?w1) ?w1 (first cs) = Inr w2"
    "frame (set cs) ?w1 w2" "chain w2 sr r None (Some c) cs"
    using Cons.IH[of ?w1 "Some c" m] Cons.prems m by auto
  have g2: "get_st w2 c = Inr ?s1" using frame_get[OF w2(2), of c] dn(2) ns Cons.prems(2) by simp
  let ?w = "put_st c (?s1\<lparr>st_struct_ref := sr\<rparr>) w2"
  have "z_stream_struct_unref w2 c = Inr ?w"
    using struct_unref_more[OF g2] ns Cons.prems(4,5) by (simp add: count_ok_small)
  then have "z_stream_detach_source_method n w c = Inr ?w" using dn(1) ns w2(1) m by simp
  moreover have "chain ?w sr r None p (c # cs)"
    by (rule chain_cons_put[OF w2(3) g2]) (use ns Cons.prems(2) in \<open>auto simp: node_ok_def\<close>)
  moreover have "frame (set (c # cs)) w ?w"
    by (rule frame_trans[OF frame_trans[OF dn(3) w2(2), of "set (c # cs)"] frame_put[of c "{c}"]]) (use ns in auto)
  ultimately show ?case by auto
qed simp

subsection \<open>The life of a stack\<close>

text \<open>What is left of a stack once its structure is gone: the top alone, held by the application.\<close>

definition only_top :: "world \<Rightarrow> nat \<Rightarrow> nat list \<Rightarrow> bool" where
  "only_top w a as \<longleftrightarrow> (\<exists>s. get_st w a = Inr s \<and> node_ok s 0 1 None None None)
     \<and> (\<forall>b \<in> set as. get_st w b = Inl Bad_access)"

lemma attach_stack:
  assumes "stack_ok w a as"
  shows "\<exists>w'. z_stream_attach_source w a = Inr w' \<and> attached_ok w' a as \<and> frame (set (a # as)) w w'"
proof -
  obtain s where s: "get_st w a = Inr s" "node_ok s 1 (1 + of_bool (as \<noteq> [])) None None (first as)"
    and ch: "chain w 2 1 None (Some a) as" and dist: "distinct (a # as)" using assms by (auto simp: stack_at_def)
  note ns = s(2)[unfolded node_ok_def]
  obtain m where m: "length (w_streams w) = Suc m" "length as \<le> m"
    using stack_at_length[OF assms] by (cases "length (w_streams w)") auto
  let ?w2 = "put_st a (s\<lparr>st_ref := st_ref s + 1, st_struct_ref := st_struct_ref s + 1\<rparr>)
      (put_st a (s\<lparr>st_ref := st_ref s + 1\<rparr>) w)"
  have f2: "frame {a} w ?w2" by (rule frame_trans[OF frame_put frame_put]) auto
  have "chain ?w2 2 1 None (Some a) as" using ch dist chain_frame[OF f2, of as] by auto
  then obtain w3 where w3: "below (z_stream_attach_source_method m ?w2) ?w2 (first as) = Inr w3"
    "frame (set as) ?w2 w3" "chain w3 3 2 (Some idle_source) (Some a) as"
    using attach_chain[of ?w2 2 1 "Some a" as m] dist m by auto
  have cnt: "0 < st_ref s" "st_ref s < 100" "0 < st_struct_ref s" "st_struct_ref s < 100" using ns by auto
  obtain w' where w': "z_stream_attach_source_method (Suc m) w a = Inr w'" "frame {a} w3 w'" "get_st w' a
     = Inr (s\<lparr>st_ref := st_ref s + 1, st_struct_ref := st_struct_ref s + 1, st_source := Some idle_source\<rparr>)"
    using attach_node[OF s(1) _ _ _ cnt w3(1,2)] ns dist by auto
  have "chain w' 3 2 (Some idle_source) (Some a) as" using w3(3) chain_frame[OF w'(2), of as] dist by auto
  then have "attached_ok w' a as" using w'(3) ns dist unfolding stack_at_def by (auto simp: node_ok_def)
  moreover have "frame (set (a # as)) w w'"
    by (rule frame_trans[OF frame_trans[OF f2 w3(2), of "set (a # as)"] w'(2)]) auto
  ultimately show ?thesis using w'(1) m(1) by (auto simp: z_stream_attach_source_def)
qed

lemma detach_prefix:
  assumes "stack_at w sr1 (sr + 1) 2 (Some idle_source) a as" "0 < sr" "sr < 90"
  shows "\<exists>w2 s. z_stream_detach_source w a = z_stream_struct_unref w2 a \<and> get_st w2 a = Inr s
     \<and> node_ok s sr1 (1 + of_bool (as \<noteq> [])) None None (first as) \<and> chain w2 sr 1 None (Some a) as
     \<and> frame (set (a # as)) w w2"
proof -
  obtain s where s: "get_st w a = Inr s" "node_ok s sr1 (2 + of_bool (as \<noteq> [])) (Some idle_source) None (first as)"
    and ch: "chain w (sr + 1) 2 (Some idle_source) (Some a) as" and dist: "distinct (a # as)"
    using assms(1) by (auto simp: stack_at_def)
  note ns = s(2)[unfolded node_ok_def]
  obtain m where m: "length (w_streams w) = Suc m" "length as \<le> m"
    using stack_at_length[OF assms(1)] by (cases "length (w_streams w)") auto
  let ?s1 = "s\<lparr>st_source := None, st_ref := st_ref s - 1\<rparr>"
  let ?w1 = "put_st a ?s1 (put_st a (s\<lparr>st_source := None\<rparr>) w)"
  have dn: "z_stream_detach_source_method (Suc m) w a
      = rbind (below (z_stream_detach_source_method m ?w1) ?w1 (first as)) (\<lambda>w2. z_stream_struct_unref w2 a)"
    "get_st ?w1 a = Inr ?s1" "frame {a} w ?w1"
    using detach_node[OF s(1)] ns by simp_all
  have "chain ?w1 (sr + 1) (1 + 1) (Some idle_source) (Some a) as" using ch dist chain_frame[OF dn(3), of as] by auto
  then obtain w2 where w2: "below (z_stream_detach_source_method m ?w1) ?w1 (first as) = Inr w2"
    "frame (set as) ?w1 w2" "chain w2 sr 1 None (Some a) as"
    using detach_chain[of ?w1 sr 1 "Some a" as m] dist m assms(2,3) by auto
  have "get_st w2 a = Inr ?s1" using frame_get[OF w2(2), of a] dn(2) dist by simp
  moreover have "node_ok ?s1 sr1 (1 + of_bool (as \<noteq> [])) None None (first as)" using ns by (simp add: node_ok_def)
  moreover have "frame (set (a # as)) w w2" by (rule frame_trans[OF dn(3) w2(2)]) auto
  moreover have "z_stream_detach_source w a = z_stream_struct_unref w2 a"
    using dn(1) w2(1) m(1) by (simp add: z_stream_detach_source_def)
  ultimately show ?thesis using w2(3) by blast
qed

lemma struct_unref_top:
  assumes "get_st w a = Inr s" "node_ok s 1 (1 + of_bool (as \<noteq> [])) None None (first as)"
    "chain w 1 1 None (Some a) as" "distinct (a # as)"
  shows "\<exists>w'. z_stream_struct_unref w a = Inr w' \<and> only_top w' a as \<and> frame (set (a # as)) w w'"
  using struct_unref_frees[OF assms(3,4,1)] assms(2)
  by (auto simp: only_top_def node_ok_def MAX_REF_def of_bool_def split: if_splits)

lemma close_prefix:
  assumes "stack_at w sr1 (sr + 1) r src a as" "0 < sr" "sr < 90"
  shows "\<exists>w1. z_stream_close w a = rbind (z_stream_struct_unref w1 a) (\<lambda>w2. Inr (w2, IO_NORMAL))
     \<and> get_st w1 a = get_st w a \<and> chain w1 sr r src (Some a) as \<and> frame (set as) w w1"
proof -
  obtain s where s: "get_st w a = Inr s" "st_child s = first as"
    and ch: "chain w (sr + 1) r src (Some a) as" and dist: "distinct (a # as)"
    using assms(1) by (auto simp: stack_at_def node_ok_def)
  obtain m where m: "length (w_streams w) = Suc m" "length as \<le> m"
    using stack_at_length[OF assms(1)] by (cases "length (w_streams w)") auto
  obtain w1 where w1: "(case first as of None \<Rightarrow> Inr (w, IO_NORMAL) | Some c \<Rightarrow> z_stream_close_method m w c)
      = Inr (w1, IO_NORMAL)" "frame (set as) w w1" "chain w1 sr r src (Some a) as"
    using close_chain[OF ch _ m(2) assms(2,3)] dist by auto
  have "get_st w1 a = get_st w a" using frame_get[OF w1(2), of a] dist by simp
  then show ?thesis using w1 s m(1) by (intro exI[of _ w1]) (simp add: z_stream_close_def)
qed

lemma close_detached:
  assumes "stack_ok w a as"
  shows "\<exists>w'. z_stream_close w a = Inr (w', IO_NORMAL) \<and> only_top w' a as \<and> frame (set (a # as)) w w'"
proof -
  obtain s where s: "get_st w a = Inr s" "node_ok s 1 (1 + of_bool (as \<noteq> [])) None None (first as)" "distinct (a # as)"
    using assms by (auto simp: stack_at_def)
  obtain w1 where w1: "z_stream_close w a = rbind (z_stream_struct_unref w1 a) (\<lambda>w2. Inr (w2, IO_NORMAL))"
    "get_st w1 a = get_st w a" "chain w1 1 1 None (Some a) as" "frame (set as) w w1"
    using close_prefix[of w 1 1 1 None a as] assms by auto
  have "get_st w1 a = Inr s" using w1(2) s(1) by simp
  from struct_unref_top[OF this s(2) w1(3) s(3)] obtain w2 where
    w2: "z_stream_struct_unref w1 a = Inr w2" "only_top w2 a as" "frame (set (a # as)) w1 w2" by blast
  have "frame (set (a # as)) w w2" by (rule frame_trans[OF w1(4) w2(3)]) auto
  then show ?thesis using w1(1) w2 by simp
qed

lemma detach_open:
  assumes "attached_ok w a as"
  shows "\<exists>w'. z_stream_detach_source w a = Inr w' \<and> stack_ok w' a as \<and> frame (set (a # as)) w w'"
proof -
  obtain w2 s where w2: "z_stream_detach_source w a = z_stream_struct_unref w2 a" "get_st w2 a = Inr s"
    "node_ok s 2 (1 + of_bool (as \<noteq> [])) None None (first as)" "chain w2 2 1 None (Some a) as" "frame (set (a # as)) w w2"
    using detach_prefix[of w 2 2 a as] assms by auto
  have dist: "distinct (a # as)" using assms by (simp add: stack_at_def)
  let ?w = "put_st a (s\<lparr>st_struct_ref := 1\<rparr>) w2"
  have "z_stream_struct_unref w2 a = Inr ?w"
    using struct_unref_more[OF w2(2)] w2(3) by (simp add: node_ok_def count_ok_small)
  moreover have "chain ?w 2 1 None (Some a) as"
    using w2(4) chain_frame[OF frame_put[of a "{a}"], of as] dist by auto
  moreover have "get_st ?w a = Inr (s\<lparr>st_struct_ref := 1\<rparr>)" using w2(2) by (simp add: get_put)
  moreover have "frame (set (a # as)) w ?w" by (rule frame_trans[OF w2(5) frame_put[of a "{a}"]]) auto
  ultimately show ?thesis using w2(1,3) dist unfolding stack_at_def by (auto simp: node_ok_def)
qed

lemma close_attached:
  assumes "attached_ok w a as"
  shows "\<exists>w'. z_stream_close w a = Inr (w', IO_NORMAL) \<and> stack_at w' 1 2 2 (Some idle_source) a as
     \<and> frame (set (a # as)) w w'"
proof -
  obtain s where s: "get_st w a = Inr s" "node_ok s 2 (2 + of_bool (as \<noteq> [])) (Some idle_source) None (first as)"
    "distinct (a # as)" using assms by (auto simp: stack_at_def)
  obtain w1 where w1: "z_stream_close w a = rbind (z_stream_struct_unref w1 a) (\<lambda>w2. Inr (w2, IO_NORMAL))"
    "get_st w1 a = get_st w a" "chain w1 2 2 (Some idle_source) (Some a) as" "frame (set as) w w1"
    using close_prefix[of w 2 2 2 "Some idle_source" a as] assms by auto
  let ?w = "put_st a (s\<lparr>st_struct_ref := 1\<rparr>) w1"
  have g1: "get_st w1 a = Inr s" using w1(2) s(1) by simp
  have "z_stream_struct_unref w1 a = Inr ?w"
    using struct_unref_more[OF g1] s(2) by (simp add: node_ok_def count_ok_small)
  moreover have "chain ?w 2 2 (Some idle_source) (Some a) as"
    using w1(3) chain_frame[OF frame_put[of a "{a}"], of as] s(3) by auto
  moreover have "get_st ?w a = Inr (s\<lparr>st_struct_ref := 1\<rparr>)" using g1 by (simp add: get_put)
  moreover have "frame (set (a # as)) w ?w" by (rule frame_trans[OF w1(4) frame_put[of a "{a}"]]) auto
  ultimately show ?thesis using w1(1) s unfolding stack_at_def by (auto simp: node_ok_def)
qed

lemma detach_closed:
  assumes "stack_at w 1 2 2 (Some idle_source) a as"
  shows "\<exists>w'. z_stream_detach_source w a = Inr w' \<and> only_top w' a as \<and> frame (set (a # as)) w w'"
proof -
  obtain w2 s where w2: "z_stream_detach_source w a = z_stream_struct_unref w2 a" "get_st w2 a = Inr s"
    "node_ok s 1 (1 + of_bool (as \<noteq> [])) None None (first as)" "chain w2 1 1 None (Some a) as" "frame (set (a # as)) w w2"
    using detach_prefix[of w 1 1 a as] assms by auto
  have "distinct (a # as)" using assms by (simp add: stack_at_def)
  from struct_unref_top[OF w2(2,3,4) this] obtain w3 where
    w3: "z_stream_struct_unref w2 a = Inr w3" "only_top w3 a as" "frame (set (a # as)) w2 w3" by blast
  have "frame (set (a # as)) w w3" by (rule frame_trans[OF w2(5) w3(3)]) auto
  then show ?thesis using w2(1) w3 by simp
qed

lemma drop_top:
  assumes "only_top w a as" "a \<notin> set as"
  shows "\<exists>w'. z_stream_unref w (Some a) = Inr w' \<and> (\<forall>b \<in> set (a # as). get_st w' b = Inl Bad_access) \<and> frame {a} w w'"
proof -
  obtain s where s: "get_st w a = Inr s" "node_ok s 0 1 None None None" using assms by (auto simp: only_top_def)
  obtain w' where w': "z_stream_unref w (Some a) = Inr w'" "get_st w' a = Inl Bad_access" "frame {a} w w'"
    using unref_last[OF s(1)] s(2) by (auto simp: node_ok_def)
  have "get_st w' b = Inl Bad_access" if "b \<in> set as" for b
    using frame_get[OF w'(3), of b] that assms by (auto simp: only_top_def)
  then show ?thesis using w' by auto
qed

subsection \<open>Umbrellas\<close>

text \<open>
  The umbrella state that \<open>src/zorp/stream.h\<close> describes: a stream shows the directions it asked
  for, less those that a stream above it covers.
\<close>

fun umb_ok :: "world \<Rightarrow> 32 word \<Rightarrow> nat list \<Rightarrow> bool" where
  "umb_ok w cover [] \<longleftrightarrow> True"
| "umb_ok w cover (a # as) \<longleftrightarrow>
     snd (umb w a) = fst (umb w a) AND NOT cover \<and> umb_ok w (cover OR fst (umb w a)) as"

lemma umb_ok_covered:
  "umb_ok w cover as \<Longrightarrow> (\<forall>c \<in> set as. umb w' c = (fst (umb w c), snd (umb w c) AND NOT f)) \<Longrightarrow>
   umb_ok w' (f OR cover) as"
proof (induction as arbitrary: cover)
  case (Cons a as)
  then show ?case by (simp add: or.assoc and.assoc and.commute and.left_commute)
qed simp

lemma push_umb_ok:
  assumes "stack_ok w a as" "stack_ok w b []" "b \<notin> set (a # as)"
    and "umb_ok w 0 (a # as)" "umb_ok w 0 [b]"
  shows "\<exists>w'. z_stream_push w a b = Inr (w', b) \<and> umb_ok w' 0 (b # a # as) \<and> stack_ok w' b (a # as)
     \<and> frame (set (b # a # as)) w w' \<and> (\<forall>c \<in> set (b # a # as). fst (umb w' c) = fst (umb w c))"
proof -
  obtain w' where w': "z_stream_push w a b = Inr (w', b)" "umb w' b = umb w b" "stack_ok w' b (a # as)"
    "frame (set (b # a # as)) w w'"
    "\<forall>c \<in> set (a # as). umb w' c = (fst (umb w c), snd (umb w c) AND NOT (fst (umb w b)))"
    using push_stack[OF assms(1-3)] by blast
  have "umb_ok w' (fst (umb w b) OR 0) (a # as)" by (rule umb_ok_covered[OF assms(4) w'(5)])
  then show ?thesis using w' assms(5) by (intro exI[of _ w']) auto
qed

subsection \<open>Properties\<close>


text \<open>Two new streams, and the stack of both.\<close>

definition fresh_pair :: world where
  "fresh_pair = fst (z_stream_new (fst (z_stream_new \<lparr>w_streams = [], w_pkts = [], w_notified = [], w_dying = []\<rparr>
     ''ZStreamFD'' ''fd'' (G_IO_IN OR G_IO_OUT) [])) ''ZStreamLine'' ''line'' G_IO_IN [])"

lemma fresh_pair_ok: "stack_ok fresh_pair 0 []" "stack_ok fresh_pair 1 []"
  by (simp_all add: fresh_pair_def z_stream_new_def stack_at_def get_st_def slot_def node_ok_def z_refcount_set_def)



definition line_on_fd :: world where
  "line_on_fd = (case z_stream_push fresh_pair 0 1 of Inl e \<Rightarrow> fresh_pair | Inr (w, t) \<Rightarrow> w)"

lemma line_on_fd_ok: "stack_ok line_on_fd 1 [0]"
  using push_stack[OF fresh_pair_ok] by (auto simp: line_on_fd_def)


text \<open>Pushing keeps the umbrella state right on the whole stack: with the new stream on top, every
  stream still shows exactly the directions it asked for that no stream above it covers.\<close>

theorem push_umbrella:
  assumes "stack_ok w a as" "stack_ok w b []" "b \<notin> set (a # as)"
    and "umb_ok w 0 (a # as)" "umb_ok w 0 [b]"
  shows "\<exists>w'. z_stream_push w a b = Inr (w', b) \<and> umb_ok w' 0 (b # a # as)"
  using push_umb_ok[OF assms] by blast

theorem push_umbrella_witness:
  "\<exists>w'. z_stream_push fresh_pair 0 1 = Inr (w', 1) \<and> umb_ok w' 0 [1, 0]"
proof -
  have "umb_ok fresh_pair 0 [0]" "umb_ok fresh_pair 0 [1]"
    by (simp_all add: fresh_pair_def z_stream_new_def umb_def get_st_def slot_def)
  then show ?thesis using push_umbrella[OF fresh_pair_ok] by simp
qed

text \<open>Popping does not restore the umbrella state below the new top. When the popped stream covered
  a direction of the second stream below it that the new top does not cover, that stream stays
  hidden after the pop, although nothing covers it any more.\<close>

theorem pop_umbrella_stale:
  assumes "stack_ok w b (a # c # as)" "umb_ok w 0 (b # a # c # as)"
    and "fst (umb w c) AND fst (umb w b) AND NOT (fst (umb w a)) \<noteq> 0"
  shows "\<exists>w'. z_stream_pop w b = Inr (w', Some a) \<and> \<not> umb_ok w' 0 (a # c # as)"
proof -
  obtain w' where w': "z_stream_pop w b = Inr (w', Some a)" "umb w' a = (fst (umb w a), fst (umb w a))"
    "get_st w' c = get_st w c" using pop_stack[OF assms(1)] by auto
  let ?fa = "fst (umb w a)" and ?fb = "fst (umb w b)" and ?fc = "fst (umb w c)"
  have c: "umb w' c = umb w c" using w'(3) by (simp add: umb_def)
  have st: "snd (umb w c) = ?fc AND NOT (?fb OR ?fa)" using assms(2) by simp
  have "?fc AND NOT (?fb OR ?fa) \<noteq> ?fc AND NOT ?fa"
  proof
    assume eq: "?fc AND NOT (?fb OR ?fa) = ?fc AND NOT ?fa"
    have "?fc AND ?fb AND NOT ?fa = (?fc AND NOT ?fa) AND ?fb" by (simp add: ac_simps)
    also have "\<dots> = (?fc AND NOT (?fb OR ?fa)) AND ?fb" by (simp only: eq)
    also have "\<dots> = 0" by (rule bit_word_eqI) (auto simp: bit_simps)
    finally show False using assms(3) by simp
  qed
  then show ?thesis using w'(1,2) c st by auto
qed

definition fresh_three :: world where
  "fresh_three = fst (z_stream_new fresh_pair ''ZStreamSsl'' ''ssl'' (G_IO_IN OR G_IO_OUT) [])"

lemma fresh_three_ok: "stack_ok fresh_three 0 []" "stack_ok fresh_three 1 []" "stack_ok fresh_three 2 []"
  "umb_ok fresh_three 0 [0]" "umb_ok fresh_three 0 [1]" "umb_ok fresh_three 0 [2]"
  by (simp_all add: fresh_three_def fresh_pair_def z_stream_new_def stack_at_def get_st_def slot_def node_ok_def
      z_refcount_set_def umb_def numeral_2_eq_2)

lemma fresh_three_umb: "umb fresh_three 0 = (5, 5)" "umb fresh_three 1 = (1, 1)" "umb fresh_three 2 = (5, 5)"
  by (simp_all add: fresh_three_def fresh_pair_def z_stream_new_def get_st_def slot_def umb_def G_IO_IN_def
      G_IO_OUT_def nth_append)

theorem pop_umbrella_stale_witness:
  "\<exists>w1 w2 w3. z_stream_push fresh_three 0 1 = Inr (w1, 1) \<and> z_stream_push w1 1 2 = Inr (w2, 2)
     \<and> z_stream_pop w2 2 = Inr (w3, Some 1) \<and> \<not> umb_ok w3 0 [1, 0]"
proof -
  note f = fresh_three_ok
  obtain w1 where w1: "z_stream_push fresh_three 0 1 = Inr (w1, 1)" "umb_ok w1 0 [1, 0]" "stack_ok w1 1 [0]"
    "frame (set [1, 0]) fresh_three w1" "\<forall>c \<in> set [1, 0]. fst (umb w1 c) = fst (umb fresh_three c)"
    using push_umb_ok[OF f(1,2) _ f(4,5)] by auto
  have g: "get_st w1 2 = get_st fresh_three 2" using frame_get[OF w1(4), of 2] by simp
  then have t: "stack_ok w1 2 []" "umb_ok w1 0 [2]" "umb w1 2 = umb fresh_three 2"
    using f(3,6) by (simp_all add: stack_at_def umb_def)
  obtain w2 where w2: "z_stream_push w1 1 2 = Inr (w2, 2)" "umb_ok w2 0 [2, 1, 0]" "stack_ok w2 2 [1, 0]"
    "\<forall>c \<in> set [2, 1, 0]. fst (umb w2 c) = fst (umb w1 c)"
    using push_umb_ok[OF w1(3) t(1) _ w1(2) t(2)] by auto
  have "fst (umb w2 0) AND fst (umb w2 2) AND NOT (fst (umb w2 1)) \<noteq> 0" using fresh_three_umb w2(4) w1(5) t(3) by simp
  then show ?thesis using pop_umbrella_stale[OF w2(3,2)] w1(1) w2(1) by blast
qed

end
