(* ===== verification/Byte_Source.thy ===== *)
theory Byte_Source
  imports Zorp_Prelude
begin

section \<open>Sources of bytes\<close>

text \<open>
  The contract of a read function: a call delivers a prefix of what is still to come, at most as
  much as was asked for, and reports the end of the input only when nothing is left. A client of
  the contract may cut its reads as it likes: the bytes come out in order and none is lost. The
  scripts of reads and the stream base class provide it.
\<close>

type_synonym 's reader = "nat \<Rightarrow> 's \<Rightarrow> ('s \<times> io_status \<times> bytes) result"

text \<open>A sequence of reads of the given sizes and the bytes they return.\<close>

fun reads :: "'s reader \<Rightarrow> nat list \<Rightarrow> 's \<Rightarrow> ('s \<times> bytes) result" where
  "reads rd [] s = Inr (s, [])"
| "reads rd (n # ns) s =
     rbind (rd n s) (\<lambda>(s1, st, d). rbind (reads rd ns s1) (\<lambda>(s2, d2). Inr (s2, d @ d2)))"

locale byte_source =
  fixes inv :: "'s \<Rightarrow> bool"
    and avail :: "'s \<Rightarrow> bytes"
    and read :: "'s reader"
  assumes read_law: "inv s \<Longrightarrow> 0 < n \<Longrightarrow>
      \<exists>s' st d. read n s = Inr (s', st, d) \<and> inv s' \<and> avail s = d @ avail s' \<and> length d \<le> n
        \<and> (st = IO_NORMAL \<or> st = IO_EOF \<and> avail s = [])"
begin

lemma read_cases:
  assumes "inv s" "0 < n"
  obtains (more) s' d where "read n s = Inr (s', IO_NORMAL, d)" "inv s'" "avail s = d @ avail s'" "length d \<le> n"
    | (finished) s' where "read n s = Inr (s', IO_EOF, [])" "inv s'" "avail s = []" "avail s' = []"
  using read_law[OF assms] by auto

lemma reads_in_order:
  "inv s \<Longrightarrow> \<forall>n \<in> set ns. 0 < n \<Longrightarrow>
   \<exists>s' d. reads read ns s = Inr (s', d) \<and> avail s = d @ avail s' \<and> inv s' \<and> length d \<le> sum_list ns"
proof (induction ns arbitrary: s)
  case (Cons n ns)
  obtain s1 st d where r: "read n s = Inr (s1, st, d)" "inv s1" "avail s = d @ avail s1" "length d \<le> n"
    using read_law[OF Cons.prems(1), of n] Cons.prems(2) by auto
  obtain s2 e where "reads read ns s1 = Inr (s2, e)" "avail s1 = e @ avail s2" "inv s2" "length e \<le> sum_list ns"
    using Cons.IH[OF r(2)] Cons.prems(2) by auto
  then show ?case using r by (intro exI[of _ s2] exI[of _ "d @ e"]) simp
qed simp

end

text \<open>A script without pauses and errors.\<close>

definition steady :: "child \<Rightarrow> bool" where
  "steady es \<longleftrightarrow> Again \<notin> set es \<and> Broken \<notin> set es"

lemma child_read_law:
  assumes "steady es" "0 < n"
  shows "\<exists>es' st d. child_read n es = (es', st, d) \<and> steady es' \<and> child_input es = d @ child_input es'
     \<and> length d \<le> n \<and> (st = IO_NORMAL \<or> st = IO_EOF \<and> es = [] \<and> es' = [] \<and> d = [])"
  using assms by (cases "(n, es)" rule: child_read.cases) (auto simp: steady_def)

interpretation script: byte_source steady child_input "\<lambda>n es. Inr (child_read n es)"
proof
  fix es :: child and n :: nat
  assume "steady es" "0 < n"
  from child_read_law[OF this] show "\<exists>es' st d. Inr (child_read n es) = (Inr (es', st, d) :: _ result) \<and> steady es'
      \<and> child_input es = d @ child_input es' \<and> length d \<le> n \<and> (st = IO_NORMAL \<or> st = IO_EOF \<and> child_input es = [])"
    by auto
qed

end
