(* ===== verification/Stream_IO.thy ===== *)
theory Stream_IO
  imports Stream Byte_Source
begin

section \<open>Input, output, control and contexts of streams\<close>

text \<open>
  The rest of \<open>src/stream.c\<close>: reading with data that was pushed back, writing, the chunk functions
  that loop until all is read or written, control messages, callbacks, and saving and restoring
  the callback context.
\<close>

subsection \<open>Reading and writing\<close>

definition count_in :: "world \<Rightarrow> nat \<Rightarrow> io_status \<Rightarrow> bytes \<Rightarrow> (world \<times> io_status \<times> bytes) result" where
  "count_in w self res d =
     (if res = IO_NORMAL
      then rbind (upd_st w self (\<lambda>s. s\<lparr>st_recvd := addz (st_recvd s) (length d)\<rparr>)) (\<lambda>w'. Inr (w', res, d))
      else Inr (w, res, []))"

definition z_stream_read :: "world \<Rightarrow> nat \<Rightarrow> nat \<Rightarrow> (world \<times> io_status \<times> bytes) result" where
  "z_stream_read w self count =
     rbind (get_st w self) (\<lambda>s.
       case st_ungot s of
         p # ps \<Rightarrow>
           (case slot (w_pkts w) p of
              None \<Rightarrow> Inl Bad_access
            | Some (n, d) \<Rightarrow>
                if count \<ge> length d
                then rbind (ungot_unref (put_st self (s\<lparr>st_ungot := ps\<rparr>) w) p) (\<lambda>w1. count_in w1 self IO_NORMAL d)
                else count_in (w\<lparr>w_pkts := (w_pkts w)[p := Some (n, drop count d)]\<rparr>) self IO_NORMAL (take count d))
       | [] \<Rightarrow>
           let (es, rc, d) = child_read count (st_input s)
           in count_in (put_st self (s\<lparr>st_input := es\<rparr>) w) self rc d)"

text \<open>The write method of the class, by its script.\<close>

fun script_write :: "write_event list \<Rightarrow> nat \<Rightarrow> write_event list \<times> io_status \<times> nat" where
  "script_write [] n = ([], IO_NORMAL, n)"
| "script_write (Accept k # es) n = (es, IO_NORMAL, min k n)"
| "script_write (Write_again # es) n = (es, IO_AGAIN, 0)"
| "script_write (Write_broken # es) n = (es, IO_ERROR, 0)"

definition z_stream_write :: "world \<Rightarrow> nat \<Rightarrow> bytes \<Rightarrow> (world \<times> io_status \<times> nat) result" where
  "z_stream_write w self data =
     rbind (get_st w self) (\<lambda>s.
       let (es, rc, n) = script_write (st_accept s) (length data);
           s1 = s\<lparr>st_accept := es, st_written := st_written s @ take n data\<rparr>;
           s2 = (if rc = IO_NORMAL then s1\<lparr>st_sent := addz (st_sent s1) n\<rparr> else s1)
       in Inr (put_st self s2 w, rc, n))"

lemma get_pkts [simp]: "get_st (w\<lparr>w_pkts := ps\<rparr>) a = get_st w a"
  by (simp add: get_st_def)

lemma count_in_NORMAL:
  "get_st w a = Inr s \<Longrightarrow> count_in w a IO_NORMAL d
     = Inr (put_st a (s\<lparr>st_recvd := addz (st_recvd s) (length d)\<rparr>) w, IO_NORMAL, d)"
  by (simp add: count_in_def upd_st_def)

text \<open>What is still to be read, for the termination of the loops.\<close>

definition read_left :: "world \<Rightarrow> nat \<Rightarrow> nat" where
  "read_left w a = (case get_st w a of Inl e \<Rightarrow> 0 | Inr s \<Rightarrow> length (st_ungot s) + child_size (st_input s))"

definition write_left :: "world \<Rightarrow> nat \<Rightarrow> nat" where
  "write_left w a = (case get_st w a of Inl e \<Rightarrow> 0 | Inr s \<Rightarrow> length (st_accept s))"

lemma child_read_NORMAL:
  "child_read n es = (es', IO_NORMAL, d) \<Longrightarrow> 0 < n \<Longrightarrow> child_size es' < child_size es \<and> length d \<le> n"
  by (cases "(n, es)" rule: child_read.cases) (auto simp: child_size_def split: if_splits)

lemma read_progress:
  assumes "z_stream_read w a n = Inr (w', IO_NORMAL, d)" "0 < n"
  shows "read_left w' a + (n - length d) < read_left w a + n \<and> length d \<le> n"
proof -
  obtain s where s: "get_st w a = Inr s" using assms(1) by (auto simp: z_stream_read_def rbind_eq_Inr)
  show ?thesis
  proof (cases "st_ungot s")
    case Nil
    obtain es rc e where cr: "child_read n (st_input s) = (es, rc, e)" by (metis prod.exhaust)
    let ?w = "put_st a (s\<lparr>st_input := es\<rparr>) w"
    have g: "get_st ?w a = Inr (s\<lparr>st_input := es\<rparr>)" using s by (simp add: get_put)
    have c: "count_in ?w a rc e = Inr (w', IO_NORMAL, d)" using assms(1) s Nil cr by (simp add: z_stream_read_def)
    then have rc: "rc = IO_NORMAL" by (auto simp: count_in_def split: if_splits)
    then have "d = e" "w' = put_st a (s\<lparr>st_input := es, st_recvd := addz (st_recvd s) (length e)\<rparr>) ?w"
      using c count_in_NORMAL[OF g, of e] by auto
    then have "get_st w' a = Inr (s\<lparr>st_input := es, st_recvd := addz (st_recvd s) (length e)\<rparr>)" "d = e"
      using g by (simp_all add: get_put)
    then show ?thesis using child_read_NORMAL[of n "st_input s" es d] cr rc assms(2) s by (auto simp: read_left_def)
  next
    case (Cons p ps)
    obtain k e where pk: "slot (w_pkts w) p = Some (k, e)"
      using assms(1) s Cons by (auto simp: z_stream_read_def split: option.splits)
    show ?thesis
    proof (cases "n \<ge> length e")
      case True
      let ?w = "put_st a (s\<lparr>st_ungot := ps\<rparr>) w"
      obtain w1 where w1: "ungot_unref ?w p = Inr w1" "count_in w1 a IO_NORMAL e = Inr (w', IO_NORMAL, d)"
        using assms(1) s Cons pk True by (auto simp: z_stream_read_def rbind_eq_Inr)
      have "get_st w1 a = get_st ?w a"
        using w1(1) by (auto simp: ungot_unref_def rbind_eq_Inr split: option.splits)
      then have "get_st w1 a = Inr (s\<lparr>st_ungot := ps\<rparr>)" using s by (simp add: get_put)
      with count_in_NORMAL[OF this, of e] w1(2)
      have "d = e" "read_left w' a < read_left w a" using s Cons by (auto simp: read_left_def get_put)
      then show ?thesis using True by auto
    next
      case False
      let ?w = "w\<lparr>w_pkts := (w_pkts w)[p := Some (k, drop n e)]\<rparr>"
      have c: "count_in ?w a IO_NORMAL (take n e) = Inr (w', IO_NORMAL, d)"
        using assms(1) s Cons pk False by (simp add: z_stream_read_def)
      have g: "get_st ?w a = Inr s" using s by simp
      have "d = take n e" "read_left w' a = read_left w a" using c count_in_NORMAL[OF g] g s
        by (auto simp: read_left_def get_put)
      then show ?thesis using False assms(2) by simp
    qed
  qed
qed

lemma write_progress:
  assumes "z_stream_write w a d = Inr (w', IO_NORMAL, n)" "d \<noteq> []"
  shows "write_left w' a + length (drop n d) < write_left w a + length d \<and> n \<le> length d"
proof -
  obtain s where s: "get_st w a = Inr s" using assms(1) by (auto simp: z_stream_write_def rbind_eq_Inr)
  obtain es rc k where sw: "script_write (st_accept s) (length d) = (es, rc, k)" by (metis prod.exhaust)
  have "rc = IO_NORMAL" "k = n" "write_left w' a = length es" using assms(1) s sw
    by (auto simp: z_stream_write_def write_left_def get_put Let_def split: if_splits)
  then show ?thesis using sw assms(2) s
    by (cases "(st_accept s, length d)" rule: script_write.cases) (auto simp: write_left_def)
qed

function read_loop :: "world \<Rightarrow> nat \<Rightarrow> nat \<Rightarrow> (world \<times> io_status \<times> bytes) result" where
  "read_loop w self len =
     (if len = 0 then Inr (w, IO_NORMAL, [])
      else rbind (z_stream_read w self len) (\<lambda>(w1, status, d).
        if status = IO_NORMAL
        then rbind (read_loop w1 self (len - length d)) (\<lambda>(w2, status2, d2). Inr (w2, status2, d @ d2))
        else Inr (w1, status, [])))"
  by pat_completeness auto
termination
  by (relation "measure (\<lambda>(w, a, n). read_left w a + n)") (auto dest!: read_progress)

function write_loop :: "world \<Rightarrow> nat \<Rightarrow> bytes \<Rightarrow> (world \<times> io_status \<times> nat) result" where
  "write_loop w self data =
     (if data = [] then Inr (w, IO_NORMAL, 0)
      else rbind (z_stream_write w self data) (\<lambda>(w1, status, n).
        if status = IO_NORMAL
        then rbind (write_loop w1 self (drop n data)) (\<lambda>(w2, status2, n2). Inr (w2, status2, n + n2))
        else Inr (w1, status, 0)))"
  by pat_completeness auto
termination
  by (relation "measure (\<lambda>(w, a, d). write_left w a + length d)") (auto dest!: write_progress)

declare read_loop.simps [simp del] write_loop.simps [simp del]

definition z_stream_read_chunk :: "world \<Rightarrow> nat \<Rightarrow> nat \<Rightarrow> (world \<times> io_status \<times> bytes) result" where
  "z_stream_read_chunk w self len =
     rbind (read_loop w self len) (\<lambda>(w1, status, d).
     rbind (g_assert (status \<noteq> IO_AGAIN)) (\<lambda>_.
       Inr (w1, if status = IO_EOF \<and> d \<noteq> [] then IO_NORMAL else status, d)))"

definition z_stream_write_chunk :: "world \<Rightarrow> nat \<Rightarrow> bytes \<Rightarrow> (world \<times> io_status \<times> nat) result" where
  "z_stream_write_chunk w self data =
     rbind (write_loop w self data) (\<lambda>(w1, status, n).
     rbind (g_assert (status \<noteq> IO_AGAIN)) (\<lambda>_. Inr (w1, status, n)))"

subsection \<open>Pushing data back\<close>

fun unget_all :: "world \<Rightarrow> nat list \<Rightarrow> nat \<Rightarrow> world result" where
  "unget_all w [] pack = Inr w"
| "unget_all w (p # ps) pack =
     rbind (get_st w p) (\<lambda>s.
       unget_all (if st_umb_flags s AND G_IO_IN \<noteq> 0 then put_st p (s\<lparr>st_ungot := pack # st_ungot s\<rparr>) w else w) ps pack)"

definition z_stream_unget_packet_method :: "world \<Rightarrow> nat \<Rightarrow> nat \<Rightarrow> (world \<times> bool) result" where
  "z_stream_unget_packet_method w self pack =
     rbind (stack w self) (\<lambda>ps. rbind (unget_all w ps pack) (\<lambda>w'. Inr (w', True)))"

definition z_stream_unget :: "world \<Rightarrow> nat \<Rightarrow> bytes \<Rightarrow> (world \<times> bool) result" where
  "z_stream_unget w self data =
     (let pack = length (w_pkts w);
          w1 = w\<lparr>w_pkts := w_pkts w @ [Some (1, data)]\<rparr>
      in rbind (z_stream_unget_packet_method w1 self pack) (\<lambda>(w2, ok).
        if ok then Inr (w2, True) else rbind (ungot_unref w2 pack) (\<lambda>w3. Inr (w3, False))))"

subsection \<open>Streams as sources of bytes\<close>

definition pkt_data :: "world \<Rightarrow> nat \<Rightarrow> bytes" where
  "pkt_data w p = (case slot (w_pkts w) p of None \<Rightarrow> [] | Some (n, d) \<Rightarrow> d)"

text \<open>The packets pushed back are owned by the stream alone, and the input does not fail.\<close>

definition source_ok :: "nat \<Rightarrow> world \<Rightarrow> bool" where
  "source_ok a w \<longleftrightarrow> (\<exists>s. get_st w a = Inr s \<and> distinct (st_ungot s)
     \<and> (\<forall>p \<in> set (st_ungot s). \<exists>d. slot (w_pkts w) p = Some (1, d)) \<and> steady (st_input s))"

definition to_read :: "nat \<Rightarrow> world \<Rightarrow> bytes" where
  "to_read a w = (case get_st w a of Inl e \<Rightarrow> []
     | Inr s \<Rightarrow> concat (map (pkt_data w) (st_ungot s)) @ child_input (st_input s))"

lemma pkt_data_update: "p \<noteq> q \<Longrightarrow> pkt_data (w\<lparr>w_pkts := (w_pkts w)[p := x]\<rparr>) q = pkt_data w q"
  by (simp add: pkt_data_def slot_update)

lemma pkt_data_put [simp]: "pkt_data (put_st a s w) = pkt_data w"
  by (simp add: pkt_data_def fun_eq_iff)

lemma map_pkt_data_update:
  "p \<notin> set qs \<Longrightarrow> map (pkt_data (w\<lparr>w_pkts := (w_pkts w)[p := x]\<rparr>)) qs = map (pkt_data w) qs"
  by (rule map_cong[OF refl], rule pkt_data_update) auto

lemma read_source:
  assumes "source_ok a w" "0 < n"
  shows "\<exists>w' st d. z_stream_read w a n = Inr (w', st, d) \<and> source_ok a w' \<and> to_read a w = d @ to_read a w'
     \<and> length d \<le> n \<and> (st = IO_NORMAL \<or> st = IO_EOF \<and> to_read a w = [])"
proof -
  obtain s where s: "get_st w a = Inr s" "distinct (st_ungot s)" "steady (st_input s)"
    "\<forall>p \<in> set (st_ungot s). \<exists>d. slot (w_pkts w) p = Some (1, d)" using assms(1) by (auto simp: source_ok_def)
  have counted: "get_st (put_st a (t\<lparr>st_recvd := r\<rparr>) v) a = Inr (t\<lparr>st_recvd := r\<rparr>)"
    if "get_st v a = Inr t" for v t r using that by (simp add: get_put)
  show ?thesis
  proof (cases "st_ungot s")
    case Nil
    obtain es st d where cr: "child_read n (st_input s) = (es, st, d)" "steady es"
      "child_input (st_input s) = d @ child_input es" "length d \<le> n"
      "st = IO_NORMAL \<or> st = IO_EOF \<and> st_input s = [] \<and> es = [] \<and> d = []"
      using child_read_law[OF s(3) assms(2)] by auto
    let ?s = "s\<lparr>st_input := es\<rparr>" and ?w = "put_st a (s\<lparr>st_input := es\<rparr>) w"
    have g: "get_st ?w a = Inr ?s" using s(1) by (simp add: get_put)
    have rd: "z_stream_read w a n = count_in ?w a st d" using s(1) Nil cr(1) by (simp add: z_stream_read_def)
    show ?thesis
    proof (cases "st = IO_NORMAL")
      case True
      let ?w' = "put_st a (?s\<lparr>st_recvd := addz (st_recvd s) (length d)\<rparr>) ?w"
      have "z_stream_read w a n = Inr (?w', IO_NORMAL, d)" using rd True count_in_NORMAL[OF g] by simp
      moreover have "source_ok a ?w'" "to_read a w = d @ to_read a ?w'"
        using counted[OF g] s Nil cr by (simp_all add: source_ok_def to_read_def)
      ultimately show ?thesis using cr(4) by blast
    next
      case False
      then have "z_stream_read w a n = Inr (?w, IO_EOF, [])" using rd cr(5) by (auto simp: count_in_def)
      moreover have "source_ok a ?w" "to_read a w = [] @ to_read a ?w" "to_read a w = []"
        using g s Nil cr False by (simp_all add: source_ok_def to_read_def)
      ultimately show ?thesis by (metis le0 list.size(3))
    qed
  next
    case (Cons p ps)
    obtain e where e: "slot (w_pkts w) p = Some (1, e)" using s(4) Cons by auto
    have len: "p < length (w_pkts w)" using slot_Some[OF e] by simp
    have pd: "pkt_data w p = e" using e by (simp add: pkt_data_def)
    have p: "p \<notin> set ps" "distinct ps" using s(2) Cons by auto
    show ?thesis
    proof (cases "n \<ge> length e")
      case True
      let ?s = "s\<lparr>st_ungot := ps\<rparr>" and ?v = "put_st a (s\<lparr>st_ungot := ps\<rparr>) w"
      let ?w = "?v\<lparr>w_pkts := (w_pkts ?v)[p := None]\<rparr>"
      have "ungot_unref ?v p = Inr ?w" using e by (simp add: ungot_unref_def)
      moreover have g: "get_st ?w a = Inr ?s" using s(1) by (simp add: get_put)
      let ?w' = "put_st a (?s\<lparr>st_recvd := addz (st_recvd s) (length e)\<rparr>) ?w"
      have "count_in ?w a IO_NORMAL e = Inr (?w', IO_NORMAL, e)" using count_in_NORMAL[OF g] by simp
      ultimately have "z_stream_read w a n = Inr (?w', IO_NORMAL, e)"
        using s(1) Cons e True by (simp add: z_stream_read_def)
      moreover have "slot (w_pkts ?w') q = slot (w_pkts w) q" if "q \<in> set ps" for q
        using that p(1) by (auto simp: slot_update)
      then have "source_ok a ?w'" using counted[OF g] s(3,4) Cons p(2) by (simp add: source_ok_def)
      moreover have "to_read a w = e @ to_read a ?w'"
        using counted[OF g] s(1) Cons pd p(1) map_pkt_data_update[of p ps ?v None]
        by (simp add: to_read_def cong: map_cong)
      ultimately show ?thesis using True by blast
    next
      case False
      let ?w = "w\<lparr>w_pkts := (w_pkts w)[p := Some (1, drop n e)]\<rparr>"
      let ?w' = "put_st a (s\<lparr>st_recvd := addz (st_recvd s) (length (take n e))\<rparr>) ?w"
      have g: "get_st ?w a = Inr s" using s(1) by simp
      have "z_stream_read w a n = Inr (?w', IO_NORMAL, take n e)"
        using s(1) Cons e False count_in_NORMAL[OF g] by (simp add: z_stream_read_def)
      moreover have "\<exists>d. slot (w_pkts ?w') q = Some (1, d)" if "q \<in> set (p # ps)" for q
        using that s(4) Cons len by (auto simp: slot_update)
      then have "source_ok a ?w'" using counted[OF g] s(2,3) Cons by (simp add: source_ok_def)
      moreover have "pkt_data ?w p = drop n e" using len by (simp add: pkt_data_def slot_update)
      then have "to_read a w = take n e @ to_read a ?w'"
        using counted[OF g] s(1) Cons pd p(1) map_pkt_data_update[of p ps w "Some (1, drop n e)"]
        by (simp add: to_read_def cong: map_cong)
      ultimately show ?thesis using False by (metis length_take min.cobounded2)
    qed
  qed
qed

interpretation stream: byte_source "source_ok a" "to_read a" "\<lambda>n w. z_stream_read w a n" for a
  by unfold_locales (rule read_source)

lemma read_loop_exact:
  "source_ok a w \<Longrightarrow>
   \<exists>w' st. read_loop w a n = Inr (w', st, take n (to_read a w)) \<and> source_ok a w' \<and> to_read a w' = drop n (to_read a w)
     \<and> st = (if n \<le> length (to_read a w) then IO_NORMAL else IO_EOF)"
proof (induction w a n rule: read_loop.induct)
  case (1 w a n)
  show ?case
  proof (cases "n = 0")
    case True
    then show ?thesis using 1(2) by (subst read_loop.simps) simp
  next
    case False
    then have n: "0 < n" by simp
    from 1(2) n show ?thesis
    proof (cases rule: stream.read_cases)
      case (more w1 d)
      have "\<exists>w' st. read_loop w1 a (n - length d) = Inr (w', st, take (n - length d) (to_read a w1)) \<and> source_ok a w'
          \<and> to_read a w' = drop (n - length d) (to_read a w1)
          \<and> st = (if n - length d \<le> length (to_read a w1) then IO_NORMAL else IO_EOF)"
        by (rule 1(1)[OF False more(1) refl refl refl more(2)])
      then show ?thesis using more False by (subst read_loop.simps) auto
    next
      case (finished w1)
      then show ?thesis using False by (subst read_loop.simps) auto
    qed
  qed
qed

lemma unget_all_hidden:
  "\<forall>b \<in> set as. \<exists>s. get_st w b = Inr s \<and> st_umb_flags s AND G_IO_IN = 0 \<Longrightarrow> unget_all w as p = Inr w"
  by (induction as) auto

lemma unget_source:
  assumes "source_ok a w" "stack w a = Inr (a # as)" "get_st w a = Inr s" "st_umb_flags s AND G_IO_IN \<noteq> 0"
    "\<forall>b \<in> set as. b \<noteq> a \<and> (\<exists>t. get_st w b = Inr t \<and> st_umb_flags t AND G_IO_IN = 0)"
  shows "\<exists>w1. z_stream_unget w a d = Inr (w1, True) \<and> source_ok a w1 \<and> to_read a w1 = d @ to_read a w"
proof -
  let ?p = "length (w_pkts w)"
  let ?v = "w\<lparr>w_pkts := w_pkts w @ [Some (1, d)]\<rparr>"
  let ?s = "s\<lparr>st_ungot := ?p # st_ungot s\<rparr>"
  let ?w1 = "put_st a ?s ?v"
  have st: "stack_of n ?v b = stack_of n w b" for n b by (induction n arbitrary: b) (simp_all cong: option.case_cong)
  have "unget_all ?w1 as ?p = Inr ?w1" using assms(5) by (intro unget_all_hidden) auto
  then have "unget_all ?v (a # as) ?p = Inr ?w1" using assms(3,4) by simp
  then have un: "z_stream_unget w a d = Inr (?w1, True)"
    using assms(2) st by (simp add: z_stream_unget_def z_stream_unget_packet_method_def Let_def)
  have g: "get_st ?w1 a = Inr ?s" using assms(3) by (simp add: get_put)
  have s: "distinct (st_ungot s)" "steady (st_input s)" "\<forall>p \<in> set (st_ungot s). \<exists>d. slot (w_pkts w) p = Some (1, d)"
    using assms(1,3) by (auto simp: source_ok_def)
  have old: "slot (w_pkts ?w1) q = slot (w_pkts w) q" "q < ?p" if q: "q \<in> set (st_ungot s)" for q
  proof -
    obtain e where "slot (w_pkts w) q = Some (1, e)" using s(3) q by auto
    from slot_Some[OF this] show "q < ?p" "slot (w_pkts ?w1) q = slot (w_pkts w) q"
      by (simp_all add: slot_def nth_append)
  qed
  have new: "slot (w_pkts ?w1) ?p = Some (1, d)" by (simp add: slot_def)
  have "\<forall>p \<in> set (st_ungot ?s). \<exists>e. slot (w_pkts ?w1) p = Some (1, e)" using new s(3) old(1) by simp
  moreover have "distinct (st_ungot ?s)" using s(1) old(2) by auto
  ultimately have "source_ok a ?w1" using g s(2) by (simp add: source_ok_def)
  moreover have "map (pkt_data ?w1) (st_ungot s) = map (pkt_data w) (st_ungot s)"
    unfolding pkt_data_def using old(1) by (intro map_cong) auto
  then have "to_read a ?w1 = d @ to_read a w"
    using g assms(3) new by (simp add: to_read_def pkt_data_def cong: map_cong)
  ultimately show ?thesis using un by blast
qed

lemma write_loop_all:
  "get_st w a = Inr s \<Longrightarrow> \<forall>e \<in> set (st_accept s). \<exists>k. e = Accept k \<Longrightarrow>
   \<exists>w' s'. write_loop w a d = Inr (w', IO_NORMAL, length d) \<and> get_st w' a = Inr s' \<and> st_written s' = st_written s @ d"
proof (induction w a d arbitrary: s rule: write_loop.induct)
  case (1 w a d)
  show ?case
  proof (cases "d = []")
    case True
    then show ?thesis using 1(2) by (subst write_loop.simps) simp
  next
    case False
    obtain es n where sw: "script_write (st_accept s) (length d) = (es, IO_NORMAL, n)" "n \<le> length d"
      "set es \<subseteq> set (st_accept s)"
      using 1(3) by (cases "(st_accept s, length d)" rule: script_write.cases) auto
    let ?s = "s\<lparr>st_accept := es, st_written := st_written s @ take n d, st_sent := addz (st_sent s) n\<rparr>"
    let ?w = "put_st a ?s w"
    have wr: "z_stream_write w a d = Inr (?w, IO_NORMAL, n)" using 1(2) sw(1) by (simp add: z_stream_write_def Let_def)
    have g: "get_st ?w a = Inr ?s" using 1(2) by (simp add: get_put)
    have "\<forall>e \<in> set (st_accept ?s). \<exists>k. e = Accept k" using 1(3) sw(3) by auto
    from 1(1)[OF False wr refl refl refl g this] obtain w' s' where
      "write_loop ?w a (drop n d) = Inr (w', IO_NORMAL, length (drop n d))" "get_st w' a = Inr s'"
      "st_written s' = st_written ?s @ drop n d" by blast
    then show ?thesis using False wr sw(2) by (subst write_loop.simps) auto
  qed
qed

subsection \<open>Properties\<close>

text \<open>C17: What is pushed back is read first, and nothing is lost: on a stack where only the top reads for
  the user, after \<open>z_stream_unget\<close> of any data, \<open>z_stream_read_chunk\<close> returns that data followed by
  the bytes that were to be read before, as many as asked for or as there are, whatever pieces
  they arrive in, and leaves the rest to be read.\<close>

theorem unget_then_read_chunk:
  assumes "source_ok a w" "stack w a = Inr (a # as)" "get_st w a = Inr s" "st_umb_flags s AND G_IO_IN \<noteq> 0"
    "\<forall>b \<in> set as. b \<noteq> a \<and> (\<exists>t. get_st w b = Inr t \<and> st_umb_flags t AND G_IO_IN = 0)"
  shows "\<exists>w1 w2. z_stream_unget w a d = Inr (w1, True)
     \<and> z_stream_read_chunk w1 a (length d + n) = Inr (w2,
          if n > 0 \<and> d = [] \<and> to_read a w = [] then IO_EOF else IO_NORMAL, d @ take n (to_read a w))
     \<and> to_read a w2 = drop n (to_read a w)"
proof -
  obtain w1 where w1: "z_stream_unget w a d = Inr (w1, True)" "source_ok a w1" "to_read a w1 = d @ to_read a w"
    using unget_source[OF assms] by blast
  obtain w2 st where w2: "read_loop w1 a (length d + n) = Inr (w2, st, take (length d + n) (to_read a w1))"
    "to_read a w2 = drop (length d + n) (to_read a w1)"
    "st = (if length d + n \<le> length (to_read a w1) then IO_NORMAL else IO_EOF)"
    using read_loop_exact[OF w1(2)] by blast
  have "z_stream_read_chunk w1 a (length d + n)
      = Inr (w2, if n > 0 \<and> d = [] \<and> to_read a w = [] then IO_EOF else IO_NORMAL, d @ take n (to_read a w))"
    using w2(1,3) w1(3) by (auto simp: z_stream_read_chunk_def)
  moreover have "to_read a w2 = drop n (to_read a w)" using w2(2) w1(3) by simp
  ultimately show ?thesis using w1(1) by blast
qed

definition fed_stream :: world where
  "fed_stream = fst (z_stream_new \<lparr>w_streams = [], w_pkts = [], w_notified = [], w_dying = []\<rparr>
     ''ZStreamFD'' ''fd'' (G_IO_IN OR G_IO_OUT) [Data [1, 2], Data [3]])"

theorem unget_then_read_chunk_witness:
  "\<exists>w1 w2. z_stream_unget fed_stream 0 [8, 9] = Inr (w1, True)
     \<and> z_stream_read_chunk w1 0 (length [8 :: byte, 9] + 2) = Inr (w2, IO_NORMAL, [8, 9, 1, 2]) \<and> to_read 0 w2 = [3]"
proof -
  obtain s where s: "get_st fed_stream 0 = Inr s" "st_child s = None" "st_ungot s = []"
    "st_input s = [Data [1, 2], Data [3]]" "st_umb_flags s = G_IO_IN OR G_IO_OUT"
    by (auto simp: fed_stream_def z_stream_new_def get_st_def slot_def)
  have "length (w_streams fed_stream) = 1" by (simp add: fed_stream_def z_stream_new_def)
  then have "stack fed_stream 0 = Inr [0]" using s(1,2) by simp
  moreover have "source_ok 0 fed_stream" "to_read 0 fed_stream = [1, 2, 3]" "st_umb_flags s AND G_IO_IN \<noteq> 0"
    using s by (simp_all add: source_ok_def to_read_def steady_def G_IO_IN_def G_IO_OUT_def)
  ultimately show ?thesis
    using unget_then_read_chunk[of 0 fed_stream "[]" s "[8, 9]" 2] s(1) by simp
qed

text \<open>A packet pushed back is freed twice when the stack has two readers. \<open>z_stream_unget\<close> puts the
  one packet, with its one reference, on every stream of the stack that reads for the user:
  reading it from the upper stream frees it, and the next read of the lower stream uses the freed
  packet.\<close>

theorem unget_shared_packet:
  assumes "get_st w a = Inr s" "st_child s = Some b" "st_ungot s = []" "st_umb_flags s AND G_IO_IN \<noteq> 0"
    and "get_st w b = Inr t" "st_child t = None" "st_umb_flags t AND G_IO_IN \<noteq> 0" "a \<noteq> b"
  shows "\<exists>w1 w2. z_stream_unget w a d = Inr (w1, True) \<and> z_stream_read w1 a (length d) = Inr (w2, IO_NORMAL, d)
     \<and> z_stream_read w2 b n = Inl Bad_access"
proof -
  let ?p = "length (w_pkts w)"
  let ?v = "w\<lparr>w_pkts := w_pkts w @ [Some (1, d)]\<rparr>"
  let ?s = "s\<lparr>st_ungot := [?p]\<rparr>" and ?t = "t\<lparr>st_ungot := ?p # st_ungot t\<rparr>"
  let ?w1 = "put_st b ?t (put_st a ?s ?v)"
  have "b < length (w_streams w)" "a < length (w_streams w)"
    using assms(1,5) slot_Some[of "w_streams w"] by (auto simp: get_st_Inr)
  then obtain n where n: "length (w_streams w) = Suc (Suc n)"
    using assms(8) by (cases "length (w_streams w)"; cases "length (w_streams w) - 1") auto
  have "stack ?v a = Inr [a, b]" using assms n by simp
  then have un: "z_stream_unget w a d = Inr (?w1, True)"
    using assms by (simp add: z_stream_unget_def z_stream_unget_packet_method_def Let_def get_put)
  have g: "get_st ?w1 a = Inr ?s" "get_st ?w1 b = Inr ?t" "slot (w_pkts ?w1) ?p = Some (1, d)"
    using assms(1,5,8) by (simp_all add: get_put slot_def)
  let ?w2 = "put_st a (s\<lparr>st_ungot := []\<rparr>) ?w1"
  let ?w3 = "?w2\<lparr>w_pkts := (w_pkts ?w2)[?p := None]\<rparr>"
  have g3: "get_st ?w3 a = Inr (s\<lparr>st_ungot := []\<rparr>)" using g(1) by (simp add: get_put)
  have "ungot_unref ?w2 ?p = Inr ?w3" using g(3) by (simp add: ungot_unref_def)
  then have rd: "z_stream_read ?w1 a (length d) = Inr (put_st a (s\<lparr>st_ungot := [], st_recvd := addz (st_recvd s) (length d)\<rparr>) ?w3,
      IO_NORMAL, d)"
    using g count_in_NORMAL[OF g3, of d] by (simp add: z_stream_read_def)
  have "get_st ?w3 b = Inr ?t" using g(2) assms(8) by simp
  then have "z_stream_read (put_st a (s\<lparr>st_ungot := [], st_recvd := addz (st_recvd s) (length d)\<rparr>) ?w3) b n = Inl Bad_access" for n
    using assms(8) by (simp add: z_stream_read_def slot_def)
  then show ?thesis using un rd by blast
qed

definition two_readers :: world where
  "two_readers =
     (let (w, b) = z_stream_new fed_stream ''ZStreamLine'' ''line'' G_IO_IN []
      in case get_st w b of Inl e \<Rightarrow> w | Inr s \<Rightarrow> put_st b (s\<lparr>st_child := Some 0\<rparr>) w)"

theorem unget_shared_packet_witness:
  "\<exists>w1 w2. z_stream_unget two_readers 1 [7] = Inr (w1, True) \<and> z_stream_read w1 1 (length [7 :: byte]) = Inr (w2, IO_NORMAL, [7])
     \<and> z_stream_read w2 0 5 = Inl Bad_access"
proof -
  obtain s where s: "get_st two_readers 1 = Inr s" "st_child s = Some 0" "st_ungot s = []" "st_umb_flags s = 1"
    by (auto simp: two_readers_def fed_stream_def z_stream_new_def get_st_def slot_def put_st_def G_IO_IN_def)
  obtain t where t: "get_st two_readers 0 = Inr t" "st_child t = None" "st_umb_flags t = 5"
    by (auto simp: two_readers_def fed_stream_def z_stream_new_def get_st_def slot_def put_st_def G_IO_IN_def G_IO_OUT_def)
  show ?thesis using unget_shared_packet[OF s(1-3) _ t(1,2), of "[7]" 5] s(4) t(3) by (simp add: G_IO_IN_def)
qed

text \<open>The chunk functions finish what they started or stop the process. Writing a chunk to a stream
  that takes a part of it in every call writes all of it, in order, and says so. But when the
  stream answers that it would block, as a stream in non-blocking mode does, both functions fail
  their assertion and abort.\<close>

theorem chunk_all_or_abort:
  assumes "get_st w a = Inr s" "st_ungot s = []" "0 < n" "d \<noteq> []"
  shows "((\<forall>e \<in> set (st_accept s). \<exists>k. e = Accept k) \<longrightarrow>
      (\<exists>w' s'. z_stream_write_chunk w a d = Inr (w', IO_NORMAL, length d) \<and> get_st w' a = Inr s'
         \<and> st_written s' = st_written s @ d))
    \<and> ((\<exists>es. st_accept s = Write_again # es) \<longrightarrow> z_stream_write_chunk w a d = Inl Assert_failed)
    \<and> ((\<exists>es. st_input s = Again # es) \<longrightarrow> z_stream_read_chunk w a n = Inl Assert_failed)"
proof (intro conjI)
  show "(\<forall>e \<in> set (st_accept s). \<exists>k. e = Accept k) \<longrightarrow>
      (\<exists>w' s'. z_stream_write_chunk w a d = Inr (w', IO_NORMAL, length d) \<and> get_st w' a = Inr s'
         \<and> st_written s' = st_written s @ d)"
    using write_loop_all[OF assms(1), of d] by (auto simp: z_stream_write_chunk_def)
  show "(\<exists>es. st_accept s = Write_again # es) \<longrightarrow> z_stream_write_chunk w a d = Inl Assert_failed"
    using assms by (auto simp: z_stream_write_chunk_def z_stream_write_def Let_def write_loop.simps[of w])
  show "(\<exists>es. st_input s = Again # es) \<longrightarrow> z_stream_read_chunk w a n = Inl Assert_failed"
    using assms by (auto simp: z_stream_read_chunk_def z_stream_read_def count_in_def read_loop.simps[of w])
qed

definition slow_stream :: world where
  "slow_stream =
     (let (w, b) = z_stream_new \<lparr>w_streams = [], w_pkts = [], w_notified = [], w_dying = []\<rparr>
        ''ZStreamFD'' ''fd'' G_IO_OUT [Again]
      in case get_st w b of Inl e \<Rightarrow> w | Inr s \<Rightarrow> put_st b (s\<lparr>st_accept := [Accept 1, Accept 0, Accept 2]\<rparr>) w)"

theorem chunk_all_or_abort_witness:
  "(\<exists>w' s'. z_stream_write_chunk slow_stream 0 [4, 5, 6, 7] = Inr (w', IO_NORMAL, length [4 :: byte, 5, 6, 7])
      \<and> get_st w' 0 = Inr s' \<and> st_written s' = [4, 5, 6, 7])
   \<and> z_stream_read_chunk slow_stream 0 1 = Inl Assert_failed"
proof -
  obtain s where s: "get_st slow_stream 0 = Inr s" "st_ungot s = []" "st_input s = [Again]" "st_written s = []"
    "st_accept s = [Accept 1, Accept 0, Accept 2]"
    by (auto simp: slow_stream_def z_stream_new_def get_st_def slot_def put_st_def)
  have "[4, 5, 6, 7 :: byte] \<noteq> []" "0 < (1 :: nat)" by simp_all
  from chunk_all_or_abort[OF s(1,2) this(2,1)] show ?thesis unfolding s by auto
qed

end
