(* ===== verification/Stream_Control.thy ===== *)
theory Stream_Control
  imports Stream
begin

section \<open>Control messages and contexts of streams\<close>

text \<open>
  \<open>z_stream_ctrl_method\<close> with the functions that send its messages, and the saving and restoring of
  the callback context. The value passed with a message is a four byte cell (\<open>gboolean\<close>, \<open>gint\<close>) or
  a \<open>ZStreamSetCb\<close>; the test of \<open>vlen\<close> is a test of which it is. A \<open>GDestroyNotify\<close> is called
  through \<open>notify\<close>, which records the call.
\<close>

subsection \<open>Messages\<close>

definition ZST_CTRL_MSG :: "nat \<Rightarrow> nat" where "ZST_CTRL_MSG x = x mod 0x10000"
definition ZST_CTRL_MSG_FORWARD :: nat where "ZST_CTRL_MSG_FORWARD = 0x80000000"
definition ZST_CTRL_GET_FD :: nat where "ZST_CTRL_GET_FD = 0x01"
definition ZST_CTRL_SET_COND_READ :: nat where "ZST_CTRL_SET_COND_READ = 0x02"
definition ZST_CTRL_SET_COND_WRITE :: nat where "ZST_CTRL_SET_COND_WRITE = 0x03"
definition ZST_CTRL_SET_COND_PRI :: nat where "ZST_CTRL_SET_COND_PRI = 0x04"
definition ZST_CTRL_SET_CALLBACK_READ :: nat where "ZST_CTRL_SET_CALLBACK_READ = 0x06"
definition ZST_CTRL_SET_CALLBACK_WRITE :: nat where "ZST_CTRL_SET_CALLBACK_WRITE = 0x07"
definition ZST_CTRL_SET_CALLBACK_PRI :: nat where "ZST_CTRL_SET_CALLBACK_PRI = 0x08"
definition ZST_CTRL_SET_TIMEOUT_BLOCK :: nat where "ZST_CTRL_SET_TIMEOUT_BLOCK = 0x0A"
definition ZST_CTRL_GET_COND_READ :: nat where "ZST_CTRL_GET_COND_READ = 0x0C"
definition ZST_CTRL_GET_COND_WRITE :: nat where "ZST_CTRL_GET_COND_WRITE = 0x0D"
definition ZST_CTRL_GET_COND_PRI :: nat where "ZST_CTRL_GET_COND_PRI = 0x0E"
definition ZST_CTRL_GET_CALLBACK_READ :: nat where "ZST_CTRL_GET_CALLBACK_READ = 0x10"
definition ZST_CTRL_GET_CALLBACK_WRITE :: nat where "ZST_CTRL_GET_CALLBACK_WRITE = 0x11"
definition ZST_CTRL_GET_CALLBACK_PRI :: nat where "ZST_CTRL_GET_CALLBACK_PRI = 0x12"
definition ZST_CTRL_SET_NONBLOCK :: nat where "ZST_CTRL_SET_NONBLOCK = 0x14"
definition ZST_CTRL_GET_NONBLOCK :: nat where "ZST_CTRL_GET_NONBLOCK = 0x15"

lemmas ctrl_defs = ZST_CTRL_MSG_def ZST_CTRL_MSG_FORWARD_def ZST_CTRL_GET_FD_def ZST_CTRL_SET_COND_READ_def
  ZST_CTRL_SET_COND_WRITE_def ZST_CTRL_SET_COND_PRI_def ZST_CTRL_SET_CALLBACK_READ_def
  ZST_CTRL_SET_CALLBACK_WRITE_def ZST_CTRL_SET_CALLBACK_PRI_def ZST_CTRL_SET_TIMEOUT_BLOCK_def
  ZST_CTRL_GET_COND_READ_def ZST_CTRL_GET_COND_WRITE_def ZST_CTRL_GET_COND_PRI_def
  ZST_CTRL_GET_CALLBACK_READ_def ZST_CTRL_GET_CALLBACK_WRITE_def ZST_CTRL_GET_CALLBACK_PRI_def
  ZST_CTRL_SET_NONBLOCK_def ZST_CTRL_GET_NONBLOCK_def

record zstream_set_cb =
  scb_cb :: "nat option"
  scb_data :: "nat option"
  scb_notify :: "nat option"

datatype ctrl_value = Cell int | Set_cb zstream_set_cb

text \<open>The answer of a message that the stream handles itself; \<open>None\<close> is the default branch.\<close>

type_synonym ctrl_answer = "(world \<times> ctrl_value \<times> bool) option"

datatype channel = Read_ch | Write_ch | Pri_ch

fun chan :: "channel \<Rightarrow> zstream \<Rightarrow> callback" where
  "chan Read_ch s = st_read s"
| "chan Write_ch s = st_write s"
| "chan Pri_ch s = st_pri s"

fun set_chan :: "channel \<Rightarrow> callback \<Rightarrow> zstream \<Rightarrow> zstream" where
  "set_chan Read_ch c s = s\<lparr>st_read := c\<rparr>"
| "set_chan Write_ch c s = s\<lparr>st_write := c\<rparr>"
| "set_chan Pri_ch c s = s\<lparr>st_pri := c\<rparr>"

definition ctrl_get_cond :: "channel \<Rightarrow> world \<Rightarrow> zstream \<Rightarrow> ctrl_value \<Rightarrow> ctrl_answer" where
  "ctrl_get_cond ch w s v = (case v of Cell i \<Rightarrow> Some (w, Cell (cb_want (chan ch s)), True) | _ \<Rightarrow> Some (w, v, False))"

definition ctrl_set_cond :: "channel \<Rightarrow> world \<Rightarrow> nat \<Rightarrow> zstream \<Rightarrow> ctrl_value \<Rightarrow> ctrl_answer" where
  "ctrl_set_cond ch w a s v =
     (case v of Cell i \<Rightarrow> Some (put_st a (set_chan ch ((chan ch s)\<lparr>cb_want := i\<rparr>) s) w, v, True) | _ \<Rightarrow> Some (w, v, False))"

definition ctrl_get_callback :: "channel \<Rightarrow> world \<Rightarrow> zstream \<Rightarrow> ctrl_value \<Rightarrow> ctrl_answer" where
  "ctrl_get_callback ch w s v =
     (case v of
        Set_cb c \<Rightarrow> Some (w, Set_cb \<lparr>scb_cb = cb_fn (chan ch s), scb_data = cb_data (chan ch s),
          scb_notify = cb_notify (chan ch s)\<rparr>, True)
      | _ \<Rightarrow> Some (w, v, False))"

definition ctrl_set_callback :: "channel \<Rightarrow> world \<Rightarrow> nat \<Rightarrow> zstream \<Rightarrow> ctrl_value \<Rightarrow> ctrl_answer" where
  "ctrl_set_callback ch w a s v =
     (case v of
        Set_cb c \<Rightarrow>
          let old = chan ch s;
              w1 = notify (cb_notify old) (cb_data old) w;
              new = old\<lparr>cb_fn := scb_cb c, cb_data := scb_data c, cb_notify := scb_notify c\<rparr>
          in Some (put_st a (set_chan ch new s) w1, v, True)
      | _ \<Rightarrow> Some (w, v, False))"

definition ctrl_switch :: "world \<Rightarrow> nat \<Rightarrow> zstream \<Rightarrow> nat \<Rightarrow> ctrl_value \<Rightarrow> ctrl_answer" where
  "ctrl_switch w a s msg v =
     (if msg = ZST_CTRL_GET_COND_READ then ctrl_get_cond Read_ch w s v
      else if msg = ZST_CTRL_SET_COND_READ then ctrl_set_cond Read_ch w a s v
      else if msg = ZST_CTRL_GET_COND_WRITE then ctrl_get_cond Write_ch w s v
      else if msg = ZST_CTRL_SET_COND_WRITE then ctrl_set_cond Write_ch w a s v
      else if msg = ZST_CTRL_GET_COND_PRI then ctrl_get_cond Pri_ch w s v
      else if msg = ZST_CTRL_SET_COND_PRI then ctrl_set_cond Pri_ch w a s v
      else if msg = ZST_CTRL_GET_CALLBACK_READ then ctrl_get_callback Read_ch w s v
      else if msg = ZST_CTRL_SET_CALLBACK_READ then ctrl_set_callback Read_ch w a s v
      else if msg = ZST_CTRL_GET_CALLBACK_WRITE then ctrl_get_callback Write_ch w s v
      else if msg = ZST_CTRL_SET_CALLBACK_WRITE then ctrl_set_callback Write_ch w a s v
      else if msg = ZST_CTRL_GET_CALLBACK_PRI then ctrl_get_callback Pri_ch w s v
      else if msg = ZST_CTRL_SET_CALLBACK_PRI then ctrl_set_callback Pri_ch w a s v
      else if msg = ZST_CTRL_SET_TIMEOUT_BLOCK
      then (case v of Cell i \<Rightarrow> Some (put_st a (s\<lparr>st_timeout := i\<rparr>) w, v, True) | _ \<Rightarrow> Some (w, v, False))
      else None)"

fun z_stream_ctrl_method :: "nat \<Rightarrow> world \<Rightarrow> nat \<Rightarrow> nat \<Rightarrow> ctrl_value \<Rightarrow> (world \<times> ctrl_value \<times> bool) result" where
  "z_stream_ctrl_method 0 w a function v = Inl Endless_loop"
| "z_stream_ctrl_method (Suc n) w a function v =
     rbind (get_st w a) (\<lambda>s.
       case ctrl_switch w a s (ZST_CTRL_MSG function) v of
         None \<Rightarrow> (case st_child s of None \<Rightarrow> Inr (w, v, False) | Some c \<Rightarrow> z_stream_ctrl_method n w c function v)
       | Some (w1, v1, res) \<Rightarrow>
           if res \<and> function div ZST_CTRL_MSG_FORWARD mod 2 = 1
           then (case st_child s of None \<Rightarrow> Inr (w1, v1, res) | Some c \<Rightarrow> z_stream_ctrl_method n w1 c function v1)
           else Inr (w1, v1, res))"

definition z_stream_ctrl :: "world \<Rightarrow> nat \<Rightarrow> nat \<Rightarrow> ctrl_value \<Rightarrow> (world \<times> ctrl_value \<times> bool) result" where
  "z_stream_ctrl w a function v = z_stream_ctrl_method (length (w_streams w)) w a function v"

definition z_stream_set_cond :: "world \<Rightarrow> nat \<Rightarrow> 32 word \<Rightarrow> int \<Rightarrow> (world \<times> bool) result" where
  "z_stream_set_cond w s type value =
     (let send = (\<lambda>function. rbind (z_stream_ctrl w s function (Cell value)) (\<lambda>(w1, v, ret). Inr (w1, ret)))
      in if type = G_IO_IN then send ZST_CTRL_SET_COND_READ
         else if type = G_IO_OUT then send ZST_CTRL_SET_COND_WRITE
         else if type = G_IO_PRI then send ZST_CTRL_SET_COND_PRI
         else Inr (w, False))"

definition z_stream_set_callback ::
    "world \<Rightarrow> nat \<Rightarrow> 32 word \<Rightarrow> nat option \<Rightarrow> nat option \<Rightarrow> nat option \<Rightarrow> (world \<times> bool) result" where
  "z_stream_set_callback w s type cb user_data notify_fn =
     (let arg = Set_cb \<lparr>scb_cb = cb, scb_data = user_data, scb_notify = notify_fn\<rparr>;
          send = (\<lambda>function. rbind (z_stream_ctrl w s function arg) (\<lambda>(w1, v, ret). Inr (w1, ret)))
      in if type = G_IO_IN then send ZST_CTRL_SET_CALLBACK_READ
         else if type = G_IO_OUT then send ZST_CTRL_SET_CALLBACK_WRITE
         else if type = G_IO_PRI then send ZST_CTRL_SET_CALLBACK_PRI
         else Inr (w, False))"

text \<open>\<open>junk\<close> is the uninitialised variable, which a stack with no class that knows the message leaves alone.\<close>

definition z_stream_get_nonblock :: "world \<Rightarrow> nat \<Rightarrow> int \<Rightarrow> (world \<times> int) result" where
  "z_stream_get_nonblock w self junk =
     rbind (z_stream_ctrl w self ZST_CTRL_GET_NONBLOCK (Cell junk)) (\<lambda>(w1, v, ret).
       Inr (w1, case v of Cell i \<Rightarrow> i | _ \<Rightarrow> junk))"

definition z_stream_set_nonblock :: "world \<Rightarrow> nat \<Rightarrow> int \<Rightarrow> (world \<times> bool) result" where
  "z_stream_set_nonblock w self nonblock =
     rbind (z_stream_ctrl w self ZST_CTRL_SET_NONBLOCK (Cell nonblock)) (\<lambda>(w1, v, ret). Inr (w1, ret))"

definition z_stream_get_fd :: "world \<Rightarrow> nat \<Rightarrow> (world \<times> int) result" where
  "z_stream_get_fd w s =
     rbind (z_stream_ctrl w s ZST_CTRL_GET_FD (Cell (-1))) (\<lambda>(w1, v, ret).
       Inr (w1, if ret then (case v of Cell i \<Rightarrow> i | _ \<Rightarrow> -1) else -1))"

subsection \<open>Contexts\<close>

text \<open>The extra data of derived classes is not part of the base class context, whose size is zero.\<close>

record zstream_context =
  ctx_restored :: bool
  ctx_read :: callback
  ctx_pri :: callback
  ctx_write :: callback
  ctx_timeout :: int
  ctx_nonblocking :: int

definition z_stream_save_context :: "world \<Rightarrow> nat \<Rightarrow> int \<Rightarrow> (world \<times> zstream_context) result" where
  "z_stream_save_context w self junk =
     rbind (get_st w self) (\<lambda>s.
     rbind (z_stream_get_nonblock w self junk) (\<lambda>(w1, nonblock).
     rbind (upd_st w1 self (\<lambda>s. s\<lparr>st_read := no_callback, st_pri := no_callback, st_write := no_callback\<rparr>)) (\<lambda>w2.
       Inr (w2, \<lparr>ctx_restored = False, ctx_read = st_read s, ctx_pri = st_pri s, ctx_write = st_write s,
                 ctx_timeout = st_timeout s, ctx_nonblocking = nonblock\<rparr>))))"

definition z_stream_restore_context ::
    "world \<Rightarrow> nat \<Rightarrow> zstream_context \<Rightarrow> (world \<times> zstream_context \<times> bool) result" where
  "z_stream_restore_context w self ctx =
     (if ctx_restored ctx then Inr (w, ctx, False)
      else
       rbind (z_stream_drop_callbacks w self) (\<lambda>w1.
       rbind (upd_st w1 self (\<lambda>s. s\<lparr>st_read := ctx_read ctx, st_pri := ctx_pri ctx, st_write := ctx_write ctx,
                 st_timeout := ctx_timeout ctx\<rparr>)) (\<lambda>w2.
       rbind (z_stream_set_nonblock w2 self (ctx_nonblocking ctx)) (\<lambda>(w3, ok).
         Inr (w3, ctx\<lparr>ctx_restored := True\<rparr>, True)))))"

definition z_stream_context_destroy :: "world \<Rightarrow> zstream_context \<Rightarrow> world \<times> zstream_context" where
  "z_stream_context_destroy w ctx =
     (if ctx_restored ctx then (w, ctx)
      else (drop_callback (ctx_pri ctx) (drop_callback (ctx_write ctx) (drop_callback (ctx_read ctx) w)),
            ctx\<lparr>ctx_restored := True\<rparr>))"

subsection \<open>What a message reaches\<close>

lemma stack_of_put:
  assumes "get_st w a = Inr s" "st_child s' = st_child s"
  shows "stack_of n (put_st a s' w) b = stack_of n w b"
proof (induction n arbitrary: b)
  case (Suc n)
  show ?case using assms Suc by (cases "b = a") (simp_all add: get_put cong: option.case_cong)
qed simp

lemma length_put [simp]: "length (w_streams (put_st a s w)) = length (w_streams w)"
  by (simp add: put_st_def)

text \<open>A message that no class of the stack knows changes nothing.\<close>

lemma ctrl_unknown:
  "stack_of n w a = Inr as \<Longrightarrow> (\<And>a s. ctrl_switch w a s (ZST_CTRL_MSG f) v = None) \<Longrightarrow>
   z_stream_ctrl_method n w a f v = Inr (w, v, False)"
proof (induction n arbitrary: a as)
  case (Suc n)
  obtain s where s: "get_st w a = Inr s" using Suc.prems(1) by (auto simp: rbind_eq_Inr)
  show ?case
  proof (cases "st_child s")
    case None
    then show ?thesis using s Suc.prems(2) by simp
  next
    case (Some c)
    then obtain cs where "stack_of n w c = Inr cs" using Suc.prems(1) s by (auto simp: rbind_eq_Inr)
    then show ?thesis using s Some Suc.IH Suc.prems(2) by simp
  qed
qed simp

lemma nonblock_unknown:
  assumes "stack w a = Inr as"
  shows "z_stream_get_nonblock w a j = Inr (w, j)" "z_stream_set_nonblock w a j = Inr (w, False)"
  using ctrl_unknown[OF assms, of ZST_CTRL_GET_NONBLOCK "Cell j"] ctrl_unknown[OF assms, of ZST_CTRL_SET_NONBLOCK "Cell j"]
  by (simp_all add: z_stream_get_nonblock_def z_stream_set_nonblock_def z_stream_ctrl_def ctrl_switch_def ctrl_defs)

text \<open>The notification that a callback owes when it is dropped.\<close>

definition owed :: "callback \<Rightarrow> (nat \<times> nat option) list" where
  "owed c = (case (cb_data c, cb_notify c) of (Some d, Some f) \<Rightarrow> [(f, Some d)] | _ \<Rightarrow> [])"

lemma drop_callback_owed: "w_notified (drop_callback c w) = w_notified w @ owed c"
  by (auto simp: drop_callback_def notify_def owed_def split: option.splits)

lemma streams_drop [simp]: "w_streams (drop_callback c w) = w_streams w"
  by (simp add: drop_callback_def notify_def split: option.splits)

lemma stack_of_drop [simp]: "stack_of n (drop_callback c w) b = stack_of n w b"
  by (induction n arbitrary: b) (simp_all cong: option.case_cong)

subsection \<open>Properties\<close>

text \<open>A saved context is given back exactly once. Saving the context of a stream takes its callbacks
  away without a notification; restoring it, whatever callbacks were installed in between, drops
  those with one notification each and puts the saved ones and the timeout back; destroying it
  instead notifies the owner of each saved callback once; and a context already restored is left
  alone by both.\<close>

theorem context_given_back_once:
  assumes "get_st w a = Inr s" "stack w a = Inr as"
  shows "\<exists>w1 ctx. z_stream_save_context w a junk = Inr (w1, ctx) \<and> w_notified w1 = w_notified w
     \<and> get_st w1 a = Inr (s\<lparr>st_read := no_callback, st_pri := no_callback, st_write := no_callback\<rparr>)
     \<and> (\<forall>w2 s2 as2. get_st w2 a = Inr s2 \<and> stack w2 a = Inr as2 \<longrightarrow>
         (\<exists>w3. z_stream_restore_context w2 a ctx = Inr (w3, ctx\<lparr>ctx_restored := True\<rparr>, True)
            \<and> get_st w3 a = Inr (s2\<lparr>st_read := st_read s, st_pri := st_pri s, st_write := st_write s, st_timeout := st_timeout s\<rparr>)
            \<and> w_notified w3 = w_notified w2 @ owed (st_read s2) @ owed (st_write s2) @ owed (st_pri s2)))
     \<and> (\<forall>w2. w_notified (fst (z_stream_context_destroy w2 ctx))
            = w_notified w2 @ owed (st_read s) @ owed (st_write s) @ owed (st_pri s))
     \<and> (\<forall>w2. z_stream_context_destroy w2 (ctx\<lparr>ctx_restored := True\<rparr>) = (w2, ctx\<lparr>ctx_restored := True\<rparr>)
            \<and> z_stream_restore_context w2 a (ctx\<lparr>ctx_restored := True\<rparr>) = Inr (w2, ctx\<lparr>ctx_restored := True\<rparr>, False))"
proof -
  let ?s1 = "s\<lparr>st_read := no_callback, st_pri := no_callback, st_write := no_callback\<rparr>"
  let ?ctx = "\<lparr>ctx_restored = False, ctx_read = st_read s, ctx_pri = st_pri s, ctx_write = st_write s,
      ctx_timeout = st_timeout s, ctx_nonblocking = junk\<rparr>"
  have save: "z_stream_save_context w a junk = Inr (put_st a ?s1 w, ?ctx)"
    using assms nonblock_unknown[OF assms(2)] by (simp add: z_stream_save_context_def upd_st_def)
  have "\<exists>w3. z_stream_restore_context w2 a ?ctx = Inr (w3, ?ctx\<lparr>ctx_restored := True\<rparr>, True)
      \<and> get_st w3 a = Inr (s2\<lparr>st_read := st_read s, st_pri := st_pri s, st_write := st_write s, st_timeout := st_timeout s\<rparr>)
      \<and> w_notified w3 = w_notified w2 @ owed (st_read s2) @ owed (st_write s2) @ owed (st_pri s2)"
    if g: "get_st w2 a = Inr s2" and st: "stack w2 a = Inr as2" for w2 s2 as2
  proof -
    let ?d = "drop_callback (st_pri s2) (drop_callback (st_write s2) (drop_callback (st_read s2) w2))"
    let ?w = "put_st a (drop_all s2) ?d"
    let ?s3 = "(drop_all s2)\<lparr>st_read := st_read s, st_pri := st_pri s, st_write := st_write s, st_timeout := st_timeout s\<rparr>"
    let ?w3 = "put_st a ?s3 ?w"
    have dd: "get_st ?d a = Inr s2" using g by simp
    have gw: "get_st ?w a = Inr (drop_all s2)" "get_st ?w3 a = Inr ?s3" using dd by (simp_all add: get_put)
    have "stack ?w3 a = Inr as2" using st stack_of_put[OF gw(1), of ?s3] stack_of_put[OF dd, of "drop_all s2"] by simp
    from nonblock_unknown(2)[OF this, of junk]
    have "z_stream_restore_context w2 a ?ctx = Inr (?w3, ?ctx\<lparr>ctx_restored := True\<rparr>, True)"
      using g gw(1) by (simp add: z_stream_restore_context_def z_stream_drop_callbacks_def upd_st_def)
    moreover have "?s3 = s2\<lparr>st_read := st_read s, st_pri := st_pri s, st_write := st_write s, st_timeout := st_timeout s\<rparr>"
      by (simp add: drop_all_def)
    moreover have "w_notified ?w3 = w_notified w2 @ owed (st_read s2) @ owed (st_write s2) @ owed (st_pri s2)"
      by (simp add: drop_callback_owed)
    ultimately show ?thesis using gw(2) by metis
  qed
  moreover have "get_st (put_st a ?s1 w) a = Inr ?s1" using assms(1) by (simp add: get_put)
  ultimately show ?thesis
    by (intro exI[of _ "put_st a ?s1 w"] exI[of _ ?ctx])
       (simp add: save z_stream_context_destroy_def z_stream_restore_context_def drop_callback_owed)
qed

definition watched_stream :: world where
  "watched_stream =
     (let (w, b) = z_stream_new \<lparr>w_streams = [], w_pkts = [], w_notified = [], w_dying = []\<rparr> ''ZStreamFD'' ''fd'' G_IO_IN []
      in case z_stream_set_callback w b G_IO_IN (Some 10) (Some 20) (Some 30) of Inl e \<Rightarrow> w | Inr (w1, ok) \<Rightarrow> w1)"

lemma watched_stream_get:
  obtains s where "get_st watched_stream 0 = Inr s" "stack watched_stream 0 = Inr [0]"
    "st_read s = \<lparr>cb_want = 0, cb_fn = Some 10, cb_data = Some 20, cb_notify = Some 30\<rparr>"
    "st_write s = no_callback" "st_pri s = no_callback" "st_child s = None"
  by (simp add: watched_stream_def z_stream_set_callback_def z_stream_ctrl_def z_stream_new_def ctrl_switch_def ctrl_defs
      ctrl_set_callback_def get_st_def put_st_def slot_def no_callback_def notify_def Let_def)

theorem context_given_back_once_witness:
  "\<exists>w1 ctx w2. z_stream_save_context watched_stream 0 1 = Inr (w1, ctx)
     \<and> z_stream_restore_context w1 0 ctx = Inr (w2, ctx\<lparr>ctx_restored := True\<rparr>, True) \<and> w_notified w2 = w_notified w1
     \<and> w_notified (fst (z_stream_context_destroy w1 ctx)) = w_notified w1 @ [(30, Some 20)]"
proof -
  obtain s where s: "get_st watched_stream 0 = Inr s" "stack watched_stream 0 = Inr [0]"
    "st_read s = \<lparr>cb_want = 0, cb_fn = Some 10, cb_data = Some 20, cb_notify = Some 30\<rparr>"
    "st_write s = no_callback" "st_pri s = no_callback" "st_child s = None" by (rule watched_stream_get)
  obtain w1 ctx where c: "z_stream_save_context watched_stream 0 1 = Inr (w1, ctx)"
    "get_st w1 0 = Inr (s\<lparr>st_read := no_callback, st_pri := no_callback, st_write := no_callback\<rparr>)"
    "\<forall>w2 s2 as2. get_st w2 0 = Inr s2 \<and> stack w2 0 = Inr as2 \<longrightarrow>
       (\<exists>w3. z_stream_restore_context w2 0 ctx = Inr (w3, ctx\<lparr>ctx_restored := True\<rparr>, True)
          \<and> w_notified w3 = w_notified w2 @ owed (st_read s2) @ owed (st_write s2) @ owed (st_pri s2))"
    "\<forall>w2. w_notified (fst (z_stream_context_destroy w2 ctx))
       = w_notified w2 @ owed (st_read s) @ owed (st_write s) @ owed (st_pri s)"
    using context_given_back_once[OF s(1,2), of 1] by blast
  have "w_streams w1 \<noteq> []" using c(2) by (auto simp: get_st_def slot_def)
  then have "stack w1 0 = Inr [0]" using c(2) s(6) by (cases "w_streams w1") auto
  then show ?thesis using c(1) c(3)[rule_format, of w1, OF conjI, OF c(2)] c(4) s(3-5)
    by (fastforce simp: owed_def no_callback_def)
qed

text \<open>Dropping the callbacks of a stream leaves their notifiers behind: the next \<open>z_stream_set_callback\<close>
  calls the notifier of the dropped callback once more, with a NULL pointer.\<close>

theorem stale_notifier_called:
  assumes "get_st w a = Inr s" "cb_notify (st_read s) = Some f"
  shows "\<exists>w1 w2. z_stream_drop_callbacks w a = Inr w1
     \<and> z_stream_set_callback w1 a G_IO_IN cb d n = Inr (w2, True) \<and> w_notified w2 = w_notified w1 @ [(f, None)]"
proof -
  let ?d = "drop_callback (st_pri s) (drop_callback (st_write s) (drop_callback (st_read s) w))"
  let ?w = "put_st a (drop_all s) ?d"
  have "a < length (w_streams w)" using assms(1) slot_Some[of "w_streams w" a] by (simp add: get_st_Inr)
  then obtain m where m: "length (w_streams w) = Suc m" by (cases "length (w_streams w)") auto
  have drp: "z_stream_drop_callbacks w a = Inr ?w" using assms(1) by (simp add: z_stream_drop_callbacks_def)
  have g: "get_st ?w a = Inr (drop_all s)" using assms(1) by (simp add: get_put)
  let ?v = "notify (Some f) None ?w"
  obtain t where "z_stream_set_callback ?w a G_IO_IN cb d n = Inr (put_st a t ?v, True)"
    using g m assms(2)
    by (simp add: z_stream_set_callback_def z_stream_ctrl_def ctrl_switch_def ctrl_defs ctrl_set_callback_def
        drop_all_def dropped_def Let_def)
  moreover have "w_notified (put_st a t ?v) = w_notified ?w @ [(f, None)]" by (simp add: notify_def)
  ultimately show ?thesis using drp by blast
qed

theorem stale_notifier_called_witness:
  "\<exists>w1 w2. z_stream_drop_callbacks watched_stream 0 = Inr w1
     \<and> z_stream_set_callback w1 0 G_IO_IN (Some 1) (Some 2) None = Inr (w2, True)
     \<and> w_notified w2 = w_notified w1 @ [(30, None)]"
proof -
  obtain s where "get_st watched_stream 0 = Inr s"
    "st_read s = \<lparr>cb_want = 0, cb_fn = Some 10, cb_data = Some 20, cb_notify = Some 30\<rparr>" by (rule watched_stream_get)
  then show ?thesis using stale_notifier_called[of watched_stream 0 s 30] by simp
qed

end
