(* ===== verification/Blob.thy ===== *)
theory Blob
  imports Refcount
begin

section \<open>Blob storage\<close>

text \<open>
  \<open>src/blob.c\<close>: byte arrays that live in memory or, swapped out, in a file, under the limits of a
  blob system whose management thread answers the allocation requests that could not be granted at
  once. The record \<open>zblob\<close> holds the structure together with the contents of its file; the store
  \<open>bw_store\<close> is a list of slots, where a freed blob leaves an empty one. A blob operation that has to
  wait for the management thread stops with the request queued (\<open>Parked\<close> in its result) and is
  continued by a second definition once the thread has replied. The system calls on the file
  consume the script \<open>bw_io\<close>: a call may be interrupted, transfer less than asked for, or fail; when
  the script is used up every call transfers all it can. Sizes are \<open>gint64\<close> (integers), the usage
  counters \<open>gsize\<close> (with wrap-around).
\<close>

subsection \<open>The state\<close>

datatype blob_req = Thread_kill | Mem_freed | Request nat

datatype sys_event = Xfer nat | Eintr | Fail

record blob_system =
  bs_ref :: int
  bs_disk_max :: nat
  bs_disk_used :: nat
  bs_mem_max :: nat
  bs_mem_used :: nat
  bs_lowat :: nat
  bs_hiwat :: nat
  bs_noswap_max :: nat
  bs_blobs :: "nat list"
  bs_queue :: "blob_req list"
  bs_waiting :: "nat list"
  bs_active :: bool

record blob_stat =
  bt_req_rd :: nat
  bt_req_wr :: nat
  bt_swap_count :: nat
  bt_alloc_count :: nat
  bt_total_rd :: nat
  bt_total_wr :: nat
  bt_last_accessed :: int

record zblob =
  bl_ref :: int
  bl_size :: int
  bl_alloc_size :: int
  bl_is_in_file :: bool
  bl_file :: bytes
  bl_data :: bytes
  bl_locked :: bool
  bl_stat :: blob_stat
  bl_replied :: bool
  bl_mapped :: "(int \<times> nat) option"
  bl_alloc_req :: int
  bl_approved :: bool
  bl_storage_locked :: bool

record bworld =
  bw_sys :: blob_system
  bw_store :: "zblob option list"
  bw_io :: "sys_event list"
  bw_now :: int

definition get_bl :: "bworld \<Rightarrow> nat \<Rightarrow> zblob result" where
  "get_bl w b = (case slot (bw_store w) b of None \<Rightarrow> Inl Bad_access | Some s \<Rightarrow> Inr s)"

definition put_bl :: "nat \<Rightarrow> zblob \<Rightarrow> bworld \<Rightarrow> bworld" where
  "put_bl b s w = w\<lparr>bw_store := (bw_store w)[b := Some s]\<rparr>"

definition upd_sys :: "(blob_system \<Rightarrow> blob_system) \<Rightarrow> bworld \<Rightarrow> bworld" where
  "upd_sys f w = w\<lparr>bw_sys := f (bw_sys w)\<rparr>"

definition push_req :: "blob_req \<Rightarrow> bworld \<Rightarrow> bworld" where
  "push_req r w = upd_sys (\<lambda>s. s\<lparr>bs_queue := bs_queue s @ [r]\<rparr>) w"

text \<open>The counters, changed by a signed amount.\<close>

definition mem_add :: "int \<Rightarrow> bworld \<Rightarrow> bworld" where
  "mem_add n w = upd_sys (\<lambda>s. s\<lparr>bs_mem_used := addz (bs_mem_used s) (ssize_to_size n)\<rparr>) w"

definition disk_add :: "int \<Rightarrow> bworld \<Rightarrow> bworld" where
  "disk_add n w = upd_sys (\<lambda>s. s\<lparr>bs_disk_used := addz (bs_disk_used s) (ssize_to_size n)\<rparr>) w"

subsection \<open>Files\<close>

definition zeros :: "nat \<Rightarrow> bytes" where
  "zeros n = replicate n 0"

definition ftruncate :: "nat \<Rightarrow> bytes \<Rightarrow> bytes" where
  "ftruncate n f = take n f @ zeros (n - length f)"

definition pwrite :: "nat \<Rightarrow> bytes \<Rightarrow> bytes \<Rightarrow> bytes" where
  "pwrite pos d f = (if d = [] then f else overwrite pos d (ftruncate (max (length f) (pos + length d)) f))"

text \<open>
  The loops around \<open>write\<close>: the file position moves on, the source pointer does not. The result is
  the rest of the script, the value of the last \<open>write\<close> (\<open>written\<close> when there was none) and the file.
\<close>

fun write_all :: "sys_event list \<Rightarrow> nat \<Rightarrow> bytes \<Rightarrow> nat \<Rightarrow> int \<Rightarrow> bytes \<Rightarrow> (sys_event list \<times> int \<times> bytes) result" where
  "write_all [] pos data remain written file =
     Inr ([], if remain = 0 then written else int remain, pwrite pos (take remain data) file)"
| "write_all (e # es) pos data remain written file =
     (if remain = 0 then Inr (e # es, written, file)
      else case e of
        Xfer k \<Rightarrow> let n = min k remain
          in write_all es (pos + n) data (remain - n) (int n) (pwrite pos (take n data) file)
      | Eintr \<Rightarrow> write_all es pos data remain (-1) file
      | Fail \<Rightarrow> Inl Assert_failed)"

text \<open>
  The loops around \<open>read\<close>, which also read to the start of the buffer each time. At the end of the
  file \<open>read\<close> returns 0: \<open>z_blob_system_swap_in\<close> leaves the loop (\<open>stop\<close>), \<open>z_blob_get_copy\<close> does not.
\<close>

fun read_all :: "bool \<Rightarrow> sys_event list \<Rightarrow> nat \<Rightarrow> nat \<Rightarrow> int \<Rightarrow> bytes \<Rightarrow> bytes \<Rightarrow> (sys_event list \<times> int \<times> bytes) result" where
  "read_all stop [] pos remain rd buf file =
     (if remain = 0 then Inr ([], rd, buf)
      else let n = min remain (length file - pos)
        in if n = remain then Inr ([], int n, overwrite 0 (chunk pos n file) buf)
           else if stop then Inr ([], 0, overwrite 0 (chunk pos n file) buf)
           else Inl Endless_loop)"
| "read_all stop (e # es) pos remain rd buf file =
     (if remain = 0 then Inr (e # es, rd, buf)
      else case e of
        Xfer k \<Rightarrow> let n = min (min k remain) (length file - pos)
          in if n = 0 \<and> stop then Inr (es, 0, buf)
             else read_all stop es (pos + n) (remain - n) (int n) (overwrite 0 (chunk pos n file) buf) file
      | Eintr \<Rightarrow> read_all stop es pos remain (-1) buf file
      | Fail \<Rightarrow> Inl Assert_failed)"

subsection \<open>Swapping and allocation\<close>

definition touch :: "bworld \<Rightarrow> (blob_stat \<Rightarrow> blob_stat) \<Rightarrow> zblob \<Rightarrow> zblob" where
  "touch w f s = s\<lparr>bl_stat := (f (bl_stat s))\<lparr>bt_last_accessed := bw_now w\<rparr>\<rparr>"

definition z_blob_swap_out :: "bworld \<Rightarrow> nat \<Rightarrow> bworld result" where
  "z_blob_swap_out w b =
     rbind (get_bl w b) (\<lambda>s.
       if \<not> bl_storage_locked s \<and> \<not> bl_is_in_file s
       then rbind (write_all (bw_io w) 0 (bl_data s) (nat (bl_size s)) 0 (bl_file s)) (\<lambda>(io, n, file).
         let s1 = touch w (\<lambda>t. t\<lparr>bt_swap_count := bt_swap_count t + 1\<rparr>)
               (s\<lparr>bl_is_in_file := True, bl_data := [], bl_file := file\<rparr>)
         in Inr (disk_add (bl_alloc_size s) (mem_add (- bl_alloc_size s) (put_bl b s1 (w\<lparr>bw_io := io\<rparr>)))))
       else Inr w)"

definition z_blob_signal_ready :: "bworld \<Rightarrow> nat \<Rightarrow> bworld result" where
  "z_blob_signal_ready w b = rbind (get_bl w b) (\<lambda>s. Inr (put_bl b (s\<lparr>bl_replied := True\<rparr>) w))"

definition z_blob_check_alloc :: "bworld \<Rightarrow> nat \<Rightarrow> (bworld \<times> bool) result" where
  "z_blob_check_alloc w b =
     rbind (get_bl w b) (\<lambda>s.
       let mem_available = subz (bs_mem_max (bw_sys w)) (bs_mem_used (bw_sys w));
           disk_available = subz (bs_disk_max (bw_sys w)) (bs_disk_used (bw_sys w));
           req_total = ssize_to_size (bl_alloc_size s + bl_alloc_req s)
       in rbind (if bl_is_in_file s then Inr (disk_add (bl_alloc_req s) w, True)
                 else if bl_alloc_req s < 0 \<or> ssize_to_size (bl_alloc_req s) \<le> mem_available
                 then Inr (mem_add (bl_alloc_req s) w, True)
                 else if \<not> bl_storage_locked s \<and> req_total \<le> disk_available
                 then rbind (z_blob_swap_out w b) (\<lambda>w1. Inr (disk_add (bl_alloc_req s) w1, True))
                 else Inr (w, False)) (\<lambda>(w2, success).
          Inr (if bl_alloc_req s < 0 then push_req Mem_freed w2 else w2, success)))"

text \<open>The two loops of \<open>z_blob_alloc\<close> that look for the new allocation size.\<close>

function shrink_below :: "int \<Rightarrow> int \<Rightarrow> int" where
  "shrink_below n req = (if n > req \<and> req \<ge> 0 then shrink_below (n div 2) req else n)"
  by pat_completeness auto
termination by (relation "measure (\<lambda>(n, req). nat n)") auto

function grow_above :: "int \<Rightarrow> int \<Rightarrow> int result" where
  "grow_above n req =
     (if n < req
      then if n \<le> 0 then Inl Endless_loop
           else if 2 * n \<ge> 2 ^ 63 then Inl Int_overflow else grow_above (2 * n) req
      else Inr n)"
  by pat_completeness auto
termination by (relation "measure (\<lambda>(n, req). nat (req - n))") auto

declare shrink_below.simps [simp del] grow_above.simps [simp del]

definition alloc_target :: "zblob \<Rightarrow> int \<Rightarrow> int result" where
  "alloc_target s req_size =
     (if bl_alloc_size s \<le> 0 \<or> bl_is_in_file s then Inr req_size
      else grow_above (shrink_below (bl_alloc_size s) req_size) req_size)"

text \<open>After the request was granted.\<close>

definition alloc_apply :: "bworld \<Rightarrow> nat \<Rightarrow> int \<Rightarrow> bworld result" where
  "alloc_apply w b req_alloc_size =
     rbind (get_bl w b) (\<lambda>s.
       let s1 = (if bl_is_in_file s then s\<lparr>bl_file := ftruncate (nat req_alloc_size) (bl_file s)\<rparr>
                 else s\<lparr>bl_data := ftruncate (nat req_alloc_size) (bl_data s)\<rparr>);
           s2 = s1\<lparr>bl_alloc_size := req_alloc_size,
                   bl_size := if bl_size s > req_alloc_size then req_alloc_size else bl_size s\<rparr>
       in Inr (put_bl b (touch w (\<lambda>t. t\<lparr>bt_alloc_count := bt_alloc_count t + 1\<rparr>) s2) w))"

text \<open>\<open>Waits\<close> and \<open>Parked\<close> hold the local variable \<open>req_alloc_size\<close> of the caller that waits.\<close>

datatype alloc_state = Granted | Waits int

datatype 'a outcome = Done 'a | Parked int

definition z_blob_alloc :: "bworld \<Rightarrow> nat \<Rightarrow> int \<Rightarrow> (bworld \<times> alloc_state) result" where
  "z_blob_alloc w b req_size =
     rbind (get_bl w b) (\<lambda>s. rbind (g_assert (req_size \<ge> 0)) (\<lambda>_.
     rbind (alloc_target s req_size) (\<lambda>req_alloc_size.
       if req_alloc_size = bl_alloc_size s then Inr (w, Granted)
       else
         rbind (z_blob_check_alloc (put_bl b (s\<lparr>bl_alloc_req := req_alloc_size - bl_alloc_size s\<rparr>) w) b) (\<lambda>(w1, granted).
           if granted then rbind (alloc_apply w1 b req_alloc_size) (\<lambda>w2. Inr (w2, Granted))
           else rbind (get_bl w1 b) (\<lambda>s1.
             Inr (push_req (Request b) (put_bl b (s1\<lparr>bl_approved := False, bl_replied := False\<rparr>) w1),
                  Waits req_alloc_size))))))"

text \<open>The rest of \<open>z_blob_alloc\<close> when the management thread has replied.\<close>

definition alloc_woken :: "bworld \<Rightarrow> nat \<Rightarrow> int \<Rightarrow> bworld result" where
  "alloc_woken w b req_alloc_size =
     rbind (get_bl w b) (\<lambda>s. rbind (g_assert (bl_approved s)) (\<lambda>_. alloc_apply w b req_alloc_size))"

subsection \<open>The management thread\<close>

text \<open>The choice of the blob to swap in: the first of those with the greatest factor.\<close>

definition dec_factor :: "int \<Rightarrow> zblob \<Rightarrow> int" where
  "dec_factor now s =
     (let elapsed = now - bt_last_accessed (bl_stat s)
      in if elapsed > 0 then int (bt_req_rd (bl_stat s) + bt_req_wr (bl_stat s)) div elapsed else 0)"

definition swappable :: "int \<Rightarrow> zblob \<Rightarrow> bool" where
  "swappable space s \<longleftrightarrow> \<not> bl_locked s \<and> \<not> bl_storage_locked s \<and> bl_is_in_file s \<and> bl_alloc_size s \<le> space"

fun best_blob :: "bworld \<Rightarrow> int \<Rightarrow> nat list \<Rightarrow> (int \<times> nat) option \<Rightarrow> (int \<times> nat) option result" where
  "best_blob w space [] best = Inr best"
| "best_blob w space (b # bs) best =
     rbind (get_bl w b) (\<lambda>s.
       let f = dec_factor (bw_now w) s
       in best_blob w space bs
            (if swappable space s \<and> f > (case best of None \<Rightarrow> -1 | Some (g, c) \<Rightarrow> g) then Some (f, b) else best))"

definition swap_in_one :: "bworld \<Rightarrow> nat \<Rightarrow> bworld result" where
  "swap_in_one w b =
     rbind (get_bl w b) (\<lambda>s.
     rbind (read_all True (bw_io w) 0 (nat (bl_size s)) 0 (zeros (nat (bl_alloc_size s))) (bl_file s)) (\<lambda>(io, rd, buf).
       let s1 = touch w id (s\<lparr>bl_data := buf, bl_is_in_file := False, bl_file := []\<rparr>)
       in Inr (mem_add (bl_alloc_size s) (disk_add (- bl_alloc_size s) (put_bl b s1 (w\<lparr>bw_io := io\<rparr>))))))"

definition swap_space :: "bworld \<Rightarrow> int" where
  "swap_space w = size_to_ssize (subz (bs_hiwat (bw_sys w)) (bs_mem_used (bw_sys w)))"

definition in_files :: "bworld \<Rightarrow> nat" where
  "in_files w = length (filter (\<lambda>x. case x of None \<Rightarrow> False | Some s \<Rightarrow> bl_is_in_file s) (bw_store w))"

lemma get_bl_Inr: "get_bl w b = Inr s \<longleftrightarrow> slot (bw_store w) b = Some s"
  by (auto simp: get_bl_def split: option.splits)

lemma get_put_bl: "get_bl w b = Inr s0 \<Longrightarrow> get_bl (put_bl b s w) c = (if c = b then Inr s else get_bl w c)"
  by (auto simp: get_bl_def put_bl_def slot_update dest!: slot_Some split: option.splits)

lemma get_bl_other [simp]: "c \<noteq> b \<Longrightarrow> get_bl (put_bl b s w) c = get_bl w c"
  by (simp add: get_bl_def put_bl_def slot_update)

lemma get_bl_sys [simp]:
  "get_bl (upd_sys f w) b = get_bl w b" "get_bl (mem_add n w) b = get_bl w b" "get_bl (disk_add n w) b = get_bl w b"
  "get_bl (push_req r w) b = get_bl w b" "get_bl (w\<lparr>bw_io := io\<rparr>) b = get_bl w b"
  by (simp_all add: get_bl_def upd_sys_def mem_add_def disk_add_def push_req_def)

lemma store_sys [simp]:
  "bw_store (upd_sys f w) = bw_store w" "bw_store (mem_add n w) = bw_store w" "bw_store (disk_add n w) = bw_store w"
  "bw_store (push_req r w) = bw_store w" "bw_store (put_bl b s w) = (bw_store w)[b := Some s]"
  by (simp_all add: upd_sys_def mem_add_def disk_add_def push_req_def put_bl_def)

lemma in_files_sys [simp]:
  "in_files (mem_add n w) = in_files w" "in_files (disk_add n w) = in_files w" "in_files (w\<lparr>bw_io := io\<rparr>) = in_files w"
  by (simp_all add: in_files_def upd_sys_def mem_add_def disk_add_def)

lemma best_blob_swappable:
  assumes "best_blob w space bs best = Inr (Some (g, c))"
  shows "best = Some (g, c) \<or> (\<exists>s. get_bl w c = Inr s \<and> swappable space s \<and> c \<in> set bs)"
  using assms
proof (induction w space bs best rule: best_blob.induct)
  case (2 w space b bs best)
  obtain s where s: "get_bl w b = Inr s" using 2(2) by (auto simp: rbind_eq_Inr)
  let ?best = "if swappable space s \<and> dec_factor (bw_now w) s > (case best of None \<Rightarrow> -1 | Some (g, c) \<Rightarrow> g)
      then Some (dec_factor (bw_now w) s, b) else best"
  have "best_blob w space bs ?best = Inr (Some (g, c))" using 2(2) s by (simp add: Let_def)
  from 2(1)[OF s refl this] show ?case using s by (auto split: if_splits)
qed simp

lemma swap_in_one_progress:
  assumes "swap_in_one w b = Inr w'" "get_bl w b = Inr s" "bl_is_in_file s"
  shows "in_files w' < in_files w"
proof -
  obtain io rd buf where r: "read_all True (bw_io w) 0 (nat (bl_size s)) 0 (zeros (nat (bl_alloc_size s))) (bl_file s)
      = Inr (io, rd, buf)" using assms(1,2) by (auto simp: swap_in_one_def rbind_eq_Inr)
  let ?P = "\<lambda>x. case x of None \<Rightarrow> False | Some s \<Rightarrow> bl_is_in_file s"
  have b: "b < length (bw_store w)" "bw_store w ! b = Some s"
    using slot_Some[of "bw_store w" b s] assms(2) by (simp_all add: get_bl_Inr)
  obtain t where "w' = mem_add (bl_alloc_size s) (disk_add (- bl_alloc_size s) (put_bl b t (w\<lparr>bw_io := io\<rparr>)))"
    "\<not> bl_is_in_file t" using assms(1,2) r by (auto simp: swap_in_one_def touch_def)
  then have "in_files w' = length (filter ?P ((bw_store w)[b := Some t]))" "\<not> ?P (Some t)"
    by (simp_all add: in_files_def)
  then show ?thesis using filter_update[OF b(1), of ?P "Some t"] b(2) assms(3) by (simp add: in_files_def)
qed

function swap_in_loop :: "bworld \<Rightarrow> bworld result" where
  "swap_in_loop w =
     rbind (best_blob w (swap_space w) (bs_blobs (bw_sys w)) None) (\<lambda>best.
       case best of None \<Rightarrow> Inr w | Some (f, b) \<Rightarrow> rbind (swap_in_one w b) swap_in_loop)"
  by pat_completeness auto
termination
proof (relation "measure in_files", simp)
  fix w best p f b w'
  assume "best_blob w (swap_space w) (bs_blobs (bw_sys w)) None = Inr best" "best = Some p" "(f, b) = p"
    "swap_in_one w b = Inr w'"
  then show "(w', w) \<in> measure in_files"
    using best_blob_swappable[of w "swap_space w" "bs_blobs (bw_sys w)" None f b] swap_in_one_progress[of w b w']
    by (auto simp: swappable_def)
qed

declare swap_in_loop.simps [simp del]

definition z_blob_system_swap_in :: "bworld \<Rightarrow> bworld result" where
  "z_blob_system_swap_in w =
     (if bs_mem_used (bw_sys w) \<ge> bs_lowat (bw_sys w) \<or> bs_disk_used (bw_sys w) < bs_hiwat (bw_sys w)
      then Inr w else swap_in_loop w)"

text \<open>The waiting list after memory was freed: what is granted leaves the list.\<close>

definition recheck :: "bworld \<Rightarrow> nat \<Rightarrow> (bworld \<times> bool) result" where
  "recheck w b =
     rbind (z_blob_check_alloc w b) (\<lambda>(w1, ok).
     rbind (get_bl w1 b) (\<lambda>s. Inr (put_bl b (s\<lparr>bl_approved := ok\<rparr>) w1, ok)))"

fun serve_waiting :: "bworld \<Rightarrow> nat list \<Rightarrow> (bworld \<times> nat list) result" where
  "serve_waiting w [] = Inr (w, [])"
| "serve_waiting w (b # bs) =
     rbind (recheck w b) (\<lambda>(w1, ok).
     rbind (if ok then z_blob_signal_ready w1 b else Inr w1) (\<lambda>w2.
     rbind (serve_waiting w2 bs) (\<lambda>(w3, left). Inr (w3, if ok then left else b # left))))"

text \<open>
  One message of \<open>z_blob_system_threadproc\<close>; \<open>None\<close> when there is none, and \<open>False\<close> when the thread
  ends. The periodic usage report only logs.
\<close>

definition z_blob_system_threadproc :: "bworld \<Rightarrow> (bworld \<times> bool) option result" where
  "z_blob_system_threadproc w =
     (case bs_queue (bw_sys w) of
        [] \<Rightarrow> Inr None
      | r # rs \<Rightarrow>
        let w1 = upd_sys (\<lambda>s. s\<lparr>bs_queue := rs\<rparr>) w
        in case r of
          Thread_kill \<Rightarrow> Inr (Some (w1, False))
        | Mem_freed \<Rightarrow>
            rbind (serve_waiting w1 (bs_waiting (bw_sys w1))) (\<lambda>(w2, left).
            rbind (z_blob_system_swap_in (upd_sys (\<lambda>s. s\<lparr>bs_waiting := left\<rparr>) w2)) (\<lambda>w3. Inr (Some (w3, True))))
        | Request b \<Rightarrow>
            rbind (recheck w1 b) (\<lambda>(w2, ok).
              if ok then rbind (z_blob_signal_ready w2 b) (\<lambda>w3. Inr (Some (w3, True)))
              else Inr (Some (upd_sys (\<lambda>s. s\<lparr>bs_waiting := bs_waiting s @ [b]\<rparr>) w2, True))))"

subsection \<open>Blobs\<close>

definition z_blob_statistic_init :: "int \<Rightarrow> blob_stat" where
  "z_blob_statistic_init now = \<lparr>bt_req_rd = 0, bt_req_wr = 0, bt_swap_count = 0, bt_alloc_count = 0,
     bt_total_rd = 0, bt_total_wr = 0, bt_last_accessed = now\<rparr>"

text \<open>The limits, cut as in \<open>z_blob_system_new\<close>; the thread starts with an empty queue.\<close>

definition z_blob_system_new :: "nat \<Rightarrow> nat \<Rightarrow> nat \<Rightarrow> nat \<Rightarrow> nat \<Rightarrow> blob_system" where
  "z_blob_system_new dmax mmax low hiw nosw =
     \<lparr>bs_ref = z_refcount_set 0 1, bs_disk_max = dmax, bs_disk_used = 0, bs_mem_max = mmax, bs_mem_used = 0,
      bs_lowat = if mmax \<le> low then subz mmax 1 else low, bs_hiwat = if mmax \<le> hiw then subz mmax 1 else hiw,
      bs_noswap_max = nosw, bs_blobs = [], bs_queue = [], bs_waiting = [], bs_active = True\<rparr>"

text \<open>\<open>mkstemp_ok\<close>: whether the file could be made. The blob is at the end of the store.\<close>

definition z_blob_new :: "bworld \<Rightarrow> bool \<Rightarrow> nat \<Rightarrow> (bworld \<times> nat option \<times> alloc_state) result" where
  "z_blob_new w mkstemp_ok initial_size =
     (if \<not> bs_active (bw_sys w) \<or> \<not> mkstemp_ok then Inr (w, None, Granted)
      else
        let b = length (bw_store w);
            s = \<lparr>bl_ref = z_refcount_set 0 1, bl_size = 0, bl_alloc_size = 0, bl_is_in_file = False, bl_file = [],
                 bl_data = [], bl_locked = False, bl_stat = z_blob_statistic_init (bw_now w), bl_replied = False,
                 bl_mapped = None, bl_alloc_req = 0, bl_approved = False, bl_storage_locked = False\<rparr>;
            w1 = upd_sys (\<lambda>y. y\<lparr>bs_blobs := bs_blobs y @ [b]\<rparr>) (w\<lparr>bw_store := bw_store w @ [Some s]\<rparr>)
        in if initial_size > 0
           then rbind (z_blob_alloc w1 b (int initial_size)) (\<lambda>(w2, st). Inr (w2, Some b, st))
           else Inr (w1, Some b, Granted))"

definition z_blob_ref :: "bworld \<Rightarrow> nat \<Rightarrow> bworld result" where
  "z_blob_ref w b = rbind (get_bl w b) (\<lambda>s. rbind (z_refcount_inc (bl_ref s)) (\<lambda>n. Inr (put_bl b (s\<lparr>bl_ref := n\<rparr>) w)))"

definition z_blob_unref :: "bworld \<Rightarrow> nat \<Rightarrow> bworld result" where
  "z_blob_unref w b =
     rbind (get_bl w b) (\<lambda>s. rbind (z_refcount_dec (bl_ref s)) (\<lambda>(n, zero).
       if \<not> zero then Inr (put_bl b (s\<lparr>bl_ref := n\<rparr>) w)
       else
         let w1 = upd_sys (\<lambda>y. y\<lparr>bs_blobs := remove1 b (bs_blobs y)\<rparr>)
                    (put_bl b (s\<lparr>bl_ref := n, bl_alloc_req := - bl_alloc_size s\<rparr>) w)
         in rbind (z_blob_check_alloc w1 b) (\<lambda>(w2, ok). Inr (w2\<lparr>bw_store := (bw_store w2)[b := None]\<rparr>))))"

text \<open>A blocking wait for a lock that nobody gives back does not end.\<close>

definition z_blob_lock :: "bworld \<Rightarrow> nat \<Rightarrow> int \<Rightarrow> (bworld \<times> bool) result" where
  "z_blob_lock w b timeout =
     rbind (get_bl w b) (\<lambda>s.
       if \<not> bl_locked s then Inr (put_bl b (s\<lparr>bl_locked := True\<rparr>) w, True)
       else if timeout < 0 then Inl Endless_loop else Inr (w, False))"

definition z_blob_unlock :: "bworld \<Rightarrow> nat \<Rightarrow> bworld result" where
  "z_blob_unlock w b = rbind (get_bl w b) (\<lambda>s. Inr (put_bl b (s\<lparr>bl_locked := False\<rparr>) w))"

definition z_blob_truncate :: "bworld \<Rightarrow> nat \<Rightarrow> int \<Rightarrow> int \<Rightarrow> (bworld \<times> bool outcome) result" where
  "z_blob_truncate w b pos timeout =
     rbind (g_assert (pos \<ge> 0)) (\<lambda>_. rbind (z_blob_lock w b timeout) (\<lambda>(w1, ok).
       if \<not> ok then Inr (w1, Done False)
       else rbind (z_blob_alloc w1 b pos) (\<lambda>(w2, st).
         case st of
           Granted \<Rightarrow> rbind (z_blob_unlock w2 b) (\<lambda>w3. Inr (w3, Done True))
         | Waits m \<Rightarrow> Inr (w2, Parked m))))"

text \<open>A \<open>z_blob_truncate\<close> that waited, after the reply.\<close>

definition truncate_woken :: "bworld \<Rightarrow> nat \<Rightarrow> int \<Rightarrow> (bworld \<times> bool) result" where
  "truncate_woken w b req_alloc_size =
     rbind (alloc_woken w b req_alloc_size) (\<lambda>w1. rbind (z_blob_unlock w1 b) (\<lambda>w2. Inr (w2, True)))"

text \<open>\<open>z_blob_add_copy\<close> with the space allocated; the value is \<open>written\<close> as a \<open>gsize\<close>.\<close>

definition add_copy_rest :: "bworld \<Rightarrow> nat \<Rightarrow> int \<Rightarrow> bytes \<Rightarrow> (bworld \<times> nat) result" where
  "add_copy_rest w b pos data =
     rbind (get_bl w b) (\<lambda>s.
     rbind (if bl_is_in_file s
            then rbind (write_all (bw_io w) (nat pos) data (length data) 0 (bl_file s)) (\<lambda>(io, written, file).
              Inr (w\<lparr>bw_io := io\<rparr>, s\<lparr>bl_file := file\<rparr>, written))
            else if nat pos + length data \<le> length (bl_data s)
            then Inr (w, s\<lparr>bl_data := overwrite (nat pos) data (bl_data s)\<rparr>, int (length data))
            else Inl Bad_access) (\<lambda>(w1, s1, written).
       let s2 = (if bl_size s1 < pos + written then s1\<lparr>bl_size := pos + written\<rparr> else s1);
           s3 = touch w (\<lambda>t. t\<lparr>bt_req_wr := bt_req_wr t + 1, bt_total_wr := addz (bt_total_wr t) (ssize_to_size written)\<rparr>) s2
       in rbind (z_blob_unlock (put_bl b s3 w1) b) (\<lambda>w2. Inr (w2, ssize_to_size written))))"

definition z_blob_add_copy :: "bworld \<Rightarrow> nat \<Rightarrow> int \<Rightarrow> bytes \<Rightarrow> int \<Rightarrow> (bworld \<times> nat outcome) result" where
  "z_blob_add_copy w b pos data timeout =
     rbind (g_assert (pos \<ge> 0)) (\<lambda>_. rbind (z_blob_lock w b timeout) (\<lambda>(w1, ok).
       if \<not> ok then Inr (w1, Done 0)
       else rbind (get_bl w1 b) (\<lambda>s.
         if bl_alloc_size s < pos + int (length data)
         then rbind (z_blob_alloc w1 b (pos + int (length data))) (\<lambda>(w2, st).
           case st of
             Granted \<Rightarrow> rbind (add_copy_rest w2 b pos data) (\<lambda>(w3, n). Inr (w3, Done n))
           | Waits m \<Rightarrow> Inr (w2, Parked m))
         else rbind (add_copy_rest w1 b pos data) (\<lambda>(w2, n). Inr (w2, Done n)))))"

text \<open>A \<open>z_blob_add_copy\<close> that waited, after the reply.\<close>

definition add_copy_woken :: "bworld \<Rightarrow> nat \<Rightarrow> int \<Rightarrow> int \<Rightarrow> bytes \<Rightarrow> (bworld \<times> nat) result" where
  "add_copy_woken w b req_alloc_size pos data =
     rbind (alloc_woken w b req_alloc_size) (\<lambda>w1. add_copy_rest w1 b pos data)"

text \<open>The value returned and the buffer, whose former contents are \<open>buf\<close>.\<close>

definition z_blob_get_copy :: "bworld \<Rightarrow> nat \<Rightarrow> int \<Rightarrow> bytes \<Rightarrow> int \<Rightarrow> (bworld \<times> nat \<times> bytes) result" where
  "z_blob_get_copy w b pos buf timeout =
     rbind (g_assert (pos \<ge> 0)) (\<lambda>_. rbind (get_bl w b) (\<lambda>s0.
       if \<not> pos < bl_size s0 then Inr (w, 0, buf)
       else
         let n = min (length buf) (nat (bl_size s0 - pos))
         in rbind (z_blob_lock w b timeout) (\<lambda>(w1, ok).
           if \<not> ok then Inr (w1, 0, buf)
           else rbind (get_bl w1 b) (\<lambda>s.
             rbind (if bl_is_in_file s then read_all False (bw_io w1) (nat pos) n 0 buf (bl_file s)
                    else if nat pos + n \<le> length (bl_data s)
                    then Inr (bw_io w1, int n, overwrite 0 (chunk (nat pos) n (bl_data s)) buf)
                    else Inl Bad_access) (\<lambda>(io, rd, buf').
               let s1 = touch w (\<lambda>t. t\<lparr>bt_req_rd := bt_req_rd t + 1, bt_total_rd := addz (bt_total_rd t) (ssize_to_size rd)\<rparr>) s
               in rbind (z_blob_unlock (put_bl b s1 (w1\<lparr>bw_io := io\<rparr>)) b) (\<lambda>w2. Inr (w2, ssize_to_size rd, buf')))))))"

text \<open>
  \<open>own_ok\<close>: whether the change of owner and mode that was asked for worked (true when none was). The result is whether the
  file name is returned, with the lock then held. \<open>z_blob_release_file\<close> finds the file as its user left it.
\<close>

definition z_blob_get_file :: "bworld \<Rightarrow> nat \<Rightarrow> bool \<Rightarrow> int \<Rightarrow> (bworld \<times> bool) result" where
  "z_blob_get_file w b own_ok timeout =
     rbind (z_blob_lock w b timeout) (\<lambda>(w1, ok).
       if \<not> ok then Inr (w1, False)
       else rbind (get_bl w1 b) (\<lambda>s.
         if \<not> bl_is_in_file s \<and> bl_storage_locked s then rbind (z_blob_unlock w1 b) (\<lambda>w2. Inr (w2, False))
         else rbind (if bl_is_in_file s then Inr w1 else z_blob_swap_out w1 b) (\<lambda>w2.
           if own_ok then Inr (w2, True) else rbind (z_blob_unlock w2 b) (\<lambda>w3. Inr (w3, False)))))"

definition z_blob_release_file :: "bworld \<Rightarrow> nat \<Rightarrow> bytes \<Rightarrow> bworld result" where
  "z_blob_release_file w b file =
     rbind (get_bl w b) (\<lambda>s.
       z_blob_unlock (put_bl b (s\<lparr>bl_file := file, bl_size := int (length file), bl_alloc_size := int (length file)\<rparr>) w) b)"

text \<open>The pointer of \<open>z_blob_get_ptr\<close> is the position and length it maps; \<open>mmap_ok\<close>: whether a file could be mapped.\<close>

definition z_blob_get_ptr :: "bworld \<Rightarrow> nat \<Rightarrow> int \<Rightarrow> nat \<Rightarrow> bool \<Rightarrow> int \<Rightarrow> (bworld \<times> (int \<times> nat) option) result" where
  "z_blob_get_ptr w b pos req_datalen mmap_ok timeout =
     rbind (get_bl w b) (\<lambda>s. rbind (g_assert (bl_mapped s = None \<and> pos \<ge> 0)) (\<lambda>_.
       if \<not> (pos < bl_size s \<and> bl_size s > 0) then Inr (w, None)
       else rbind (z_blob_lock w b timeout) (\<lambda>(w1, ok).
         if \<not> ok then Inr (w1, None)
         else rbind (get_bl w1 b) (\<lambda>s1.
           let n = (if bl_size s1 < pos + int req_datalen then nat (bl_size s1 - pos) else req_datalen);
               p = (if bl_is_in_file s1 \<and> \<not> mmap_ok then None else Some (pos, n));
               w2 = put_bl b (s1\<lparr>bl_mapped := p\<rparr>) w1
           in if p = None then rbind (z_blob_unlock w2 b) (\<lambda>w3. Inr (w3, None)) else Inr (w2, p)))))"

definition z_blob_free_ptr :: "bworld \<Rightarrow> nat \<Rightarrow> int \<times> nat \<Rightarrow> bworld result" where
  "z_blob_free_ptr w b p =
     rbind (get_bl w b) (\<lambda>s. rbind (g_assert (bl_mapped s = Some p \<and> snd p > 0)) (\<lambda>_.
       z_blob_unlock (put_bl b (s\<lparr>bl_mapped := None\<rparr>) w) b))"

definition z_blob_storage_lock :: "bworld \<Rightarrow> nat \<Rightarrow> bool \<Rightarrow> bworld result" where
  "z_blob_storage_lock w b st = rbind (get_bl w b) (\<lambda>s. Inr (put_bl b (s\<lparr>bl_storage_locked := st\<rparr>) w))"

subsection \<open>The end of a blob system\<close>

definition z_blob_system_ref :: "bworld \<Rightarrow> bworld result" where
  "z_blob_system_ref w = rbind (z_refcount_inc (bs_ref (bw_sys w))) (\<lambda>n. Inr (upd_sys (\<lambda>y. y\<lparr>bs_ref := n\<rparr>) w))"

text \<open>The management thread until it takes its end message, which is behind \<open>n\<close> others in the queue.\<close>

primrec thread_join :: "nat \<Rightarrow> bworld \<Rightarrow> bworld result" where
  "thread_join 0 w = Inr w"
| "thread_join (Suc n) w =
     rbind (z_blob_system_threadproc w) (\<lambda>r.
       case r of None \<Rightarrow> Inr w | Some (w1, go_on) \<Rightarrow> if go_on then thread_join n w1 else Inr w1)"

fun deny_waiting :: "bworld \<Rightarrow> nat list \<Rightarrow> bworld result" where
  "deny_waiting w [] = Inr w"
| "deny_waiting w (b # bs) =
     rbind (get_bl w b) (\<lambda>s. rbind (z_blob_signal_ready (put_bl b (s\<lparr>bl_approved := False\<rparr>) w) b) (\<lambda>w1.
       deny_waiting (upd_sys (\<lambda>y. y\<lparr>bs_waiting := bs\<rparr>) w1) bs))"

fun unref_blobs :: "bworld \<Rightarrow> nat list \<Rightarrow> bworld result" where
  "unref_blobs w [] = Inr w"
| "unref_blobs w (b # bs) = rbind (z_blob_unref w b) (\<lambda>w1. unref_blobs w1 bs)"

definition z_blob_system_unref :: "bworld \<Rightarrow> bworld result" where
  "z_blob_system_unref w =
     rbind (z_refcount_dec (bs_ref (bw_sys w))) (\<lambda>(n, zero).
       let w0 = upd_sys (\<lambda>y. y\<lparr>bs_ref := n\<rparr>) w
       in if \<not> zero then Inr w0
          else rbind (thread_join (Suc (length (bs_queue (bw_sys w))))
                 (push_req Thread_kill (upd_sys (\<lambda>y. y\<lparr>bs_active := False\<rparr>) w0))) (\<lambda>w1.
               rbind (deny_waiting w1 (bs_waiting (bw_sys w1))) (\<lambda>w2.
               unref_blobs w2 (bs_blobs (bw_sys w2)))))"

end
