(* ===== verification/Blob_Contents.thy ===== *)
theory Blob_Contents
  imports Blob
begin

section \<open>The contents of blobs\<close>

text \<open>
  A blob is meant to be an array of bytes that grows when it is written past its end, wherever it
  is stored. Here the operations are shown to implement that array when every system call on the
  file transfers all it was asked to, and what goes wrong when one does not.
\<close>

subsection \<open>Byte arrays with a tail of zeros\<close>

lemma length_zeros [simp]: "length (zeros n) = n"
  by (simp add: zeros_def)

lemma zeros_0 [simp]: "zeros 0 = []"
  by (simp add: zeros_def)

lemma zeros_plus: "zeros (m + n) = zeros m @ zeros n"
  by (simp add: zeros_def replicate_add)

lemma take_zeros: "take m (zeros n) = zeros (min m n)"
  by (simp add: zeros_def)

lemma drop_zeros: "drop m (zeros n) = zeros (n - m)"
  by (simp add: zeros_def)

lemma length_ftruncate [simp]: "length (ftruncate n f) = n"
  by (simp add: ftruncate_def)

text \<open>\<open>padded n f\<close>: the array is \<open>n\<close> bytes and zeros after them.\<close>

definition padded :: "nat \<Rightarrow> bytes \<Rightarrow> bool" where
  "padded n f \<longleftrightarrow> n \<le> length f \<and> drop n f = zeros (length f - n)"

lemma padded_ftruncate:
  assumes "padded n f" "n \<le> m"
  shows "ftruncate m f = take n f @ zeros (m - n)"
proof -
  have f: "f = take n f @ zeros (length f - n)" using assms by (metis append_take_drop_id padded_def)
  have n: "length (take n f) = n" using assms by (simp add: padded_def)
  have "take m f = take n f @ zeros (min (m - n) (length f - n))"
    by (subst f) (use n assms(2) in \<open>simp add: take_zeros\<close>)
  moreover have "min (m - n) (length f - n) + (m - length f) = m - n" using assms by (auto simp: padded_def)
  then have "zeros (min (m - n) (length f - n)) @ zeros (m - length f) = zeros (m - n)"
    by (metis zeros_plus)
  ultimately show ?thesis by (simp add: ftruncate_def)
qed

lemma padded_take: "padded n f \<Longrightarrow> n \<le> m \<Longrightarrow> m \<le> length f \<Longrightarrow> take m f = ftruncate m (take n f)"
proof -
  assume p: "padded n f" "n \<le> m" "m \<le> length f"
  have "ftruncate m f = take m f" using p(3) by (simp add: ftruncate_def)
  moreover have "ftruncate m f = take n f @ zeros (m - n)" by (rule padded_ftruncate[OF p(1,2)])
  moreover have "ftruncate m (take n f) = take n f @ zeros (m - n)" using p by (simp add: ftruncate_def padded_def)
  ultimately show ?thesis by simp
qed

lemma padded_ftruncate_padded: "padded n f \<Longrightarrow> n \<le> m \<Longrightarrow> padded n (ftruncate m f) \<and> take n (ftruncate m f) = take n f"
  using padded_ftruncate[of n f m] by (simp add: padded_def)

lemma ftruncate_short: "m \<le> length f \<Longrightarrow> ftruncate m f = take m f"
  by (simp add: ftruncate_def)

lemma padded_full [simp]: "padded (length f) f"
  by (simp add: padded_def)

text \<open>The array after a write: extended with zeros up to the position, then overwritten.\<close>

definition spliced :: "nat \<Rightarrow> bytes \<Rightarrow> bytes \<Rightarrow> bytes" where
  "spliced pos d c = overwrite pos d (ftruncate (max (length c) (pos + length d)) c)"

lemma length_spliced [simp]: "length (spliced pos d c) = max (length c) (pos + length d)"
  by (simp add: spliced_def)

lemma chunk_spliced: "chunk pos (length d) (spliced pos d c) = d"
  by (simp add: spliced_def)

lemma padded_overwrite:
  assumes "padded n f" "pos + length d \<le> length f"
  shows "padded (max n (pos + length d)) (overwrite pos d f)"
    and "take (max n (pos + length d)) (overwrite pos d f) = spliced pos d (take n f)"
proof -
  let ?m = "max n (pos + length d)"
  have len: "length (take n f) = n" "?m \<le> length f" using assms by (simp_all add: padded_def)
  have dr: "drop ?m f = zeros (length f - ?m)"
  proof -
    have "drop ?m f = drop (?m - n) (drop n f)" by simp
    also have "\<dots> = zeros (length f - n - (?m - n))" using assms(1) by (simp only: padded_def drop_zeros)
    finally show ?thesis by simp
  qed
  have ov: "overwrite pos d f = overwrite pos d (take ?m f) @ drop ?m f"
    using len assms(2) overwrite_append[of pos d "take ?m f" "drop ?m f"] by simp
  have lo: "length (overwrite pos d (take ?m f)) = ?m" using len by simp
  show "padded ?m (overwrite pos d f)"
    unfolding padded_def using assms len(2) lo dr by (simp add: ov)
  have "take ?m f = ftruncate ?m (take n f)" using padded_take[OF assms(1) _ len(2)] by simp
  then show "take ?m (overwrite pos d f) = spliced pos d (take n f)"
    using ov lo len(1) by (simp add: spliced_def)
qed

lemma padded_pwrite:
  assumes "padded n f" "d \<noteq> []"
  shows "padded (max n (pos + length d)) (pwrite pos d f)"
    and "take (max n (pos + length d)) (pwrite pos d f) = spliced pos d (take n f)"
proof -
  let ?f = "ftruncate (max (length f) (pos + length d)) f"
  have n: "n \<le> max (length f) (pos + length d)" using assms(1) by (auto simp: padded_def)
  have p: "padded n ?f" "take n ?f = take n f" using padded_ftruncate_padded[OF assms(1) n] by simp_all
  show "padded (max n (pos + length d)) (pwrite pos d f)"
    using padded_overwrite(1)[OF p(1), of pos d] assms(2) by (simp add: pwrite_def)
  show "take (max n (pos + length d)) (pwrite pos d f) = spliced pos d (take n f)"
    using padded_overwrite(2)[OF p(1), of pos d] assms(2) p(2) by (simp add: pwrite_def)
qed

subsection \<open>The invariant of a blob\<close>

definition blob_store :: "zblob \<Rightarrow> bytes" where
  "blob_store s = (if bl_is_in_file s then bl_file s else bl_data s)"

definition contents :: "zblob \<Rightarrow> bytes" where
  "contents s = take (nat (bl_size s)) (blob_store s)"

definition blob_inv :: "zblob \<Rightarrow> bool" where
  "blob_inv s \<longleftrightarrow> 0 \<le> bl_size s \<and> bl_size s \<le> bl_alloc_size s \<and> padded (nat (bl_size s)) (blob_store s)
     \<and> (if bl_is_in_file s then bl_data s = []
        else bl_file s = [] \<and> length (bl_data s) = nat (bl_alloc_size s))"

lemma contents_length: "blob_inv s \<Longrightarrow> length (contents s) = nat (bl_size s)"
  by (simp add: blob_inv_def contents_def padded_def)

lemma inv_fields:
  "bl_size t = bl_size s \<Longrightarrow> bl_alloc_size t = bl_alloc_size s \<Longrightarrow> bl_is_in_file t = bl_is_in_file s \<Longrightarrow>
   bl_file t = bl_file s \<Longrightarrow> bl_data t = bl_data s \<Longrightarrow> blob_inv t = blob_inv s \<and> contents t = contents s"
  by (simp add: blob_inv_def contents_def blob_store_def)

subsection \<open>Swapping and allocating keep the contents\<close>

definition same_blob :: "zblob \<Rightarrow> zblob \<Rightarrow> bool" where
  "same_blob s s' \<longleftrightarrow> blob_inv s' \<and> contents s' = contents s \<and> bl_size s' = bl_size s
     \<and> bl_alloc_size s' = bl_alloc_size s \<and> bl_alloc_req s' = bl_alloc_req s \<and> bl_locked s' = bl_locked s
     \<and> bl_ref s' = bl_ref s"

definition others_same :: "nat \<Rightarrow> bworld \<Rightarrow> bworld \<Rightarrow> bool" where
  "others_same b w w' \<longleftrightarrow> (\<forall>c. c \<noteq> b \<longrightarrow> get_bl w' c = get_bl w c) \<and> bw_io w' = bw_io w"

lemma others_same_refl [simp]: "others_same b w w"
  by (simp add: others_same_def)

lemma others_same_trans: "others_same b w w1 \<Longrightarrow> others_same b w1 w2 \<Longrightarrow> others_same b w w2"
  by (simp add: others_same_def)

lemma io_simps [simp]:
  "bw_io (mem_add n w) = bw_io w" "bw_io (disk_add n w) = bw_io w" "bw_io (push_req r w) = bw_io w"
  "bw_io (put_bl b s w) = bw_io w" "bw_io (upd_sys f w) = bw_io w"
  by (simp_all add: mem_add_def disk_add_def upd_sys_def push_req_def put_bl_def)

lemma others_same_simps [simp]:
  "others_same b w (mem_add n w') = others_same b w w'" "others_same b w (disk_add n w') = others_same b w w'"
  "others_same b w (push_req r w') = others_same b w w'" "others_same b w (put_bl b s w') = others_same b w w'"
  "others_same b w (upd_sys f w') = others_same b w w'"
  by (simp_all add: others_same_def)

lemma same_blob_refl: "blob_inv s \<Longrightarrow> same_blob s s"
  by (simp add: same_blob_def)

lemma swap_out_contents:
  assumes "get_bl w b = Inr s" "blob_inv s" "bw_io w = []"
  shows "\<exists>w' s'. z_blob_swap_out w b = Inr w' \<and> get_bl w' b = Inr s' \<and> same_blob s s' \<and> others_same b w w'"
proof (cases "\<not> bl_storage_locked s \<and> \<not> bl_is_in_file s")
  case True
  let ?c = "take (nat (bl_size s)) (bl_data s)"
  let ?s = "touch w (\<lambda>t. t\<lparr>bt_swap_count := bt_swap_count t + 1\<rparr>) (s\<lparr>bl_is_in_file := True, bl_data := [], bl_file := ?c\<rparr>)"
  have len: "length ?c = nat (bl_size s)" "bl_file s = []" "?c = contents s"
    using assms(2) True by (auto simp: blob_inv_def padded_def blob_store_def contents_def)
  have "pwrite 0 ?c [] = ?c" by (auto simp: pwrite_def overwrite_def ftruncate_def)
  then have "write_all (bw_io w) 0 (bl_data s) (nat (bl_size s)) 0 (bl_file s)
      = Inr ([], if nat (bl_size s) = 0 then 0 else int (nat (bl_size s)), ?c)" using assms(3) len(2) by simp
  then have "z_blob_swap_out w b = Inr (disk_add (bl_alloc_size s) (mem_add (- bl_alloc_size s) (put_bl b ?s (w\<lparr>bw_io := []\<rparr>))))"
    using assms(1) True by (simp add: z_blob_swap_out_def Let_def)
  moreover have "w\<lparr>bw_io := []\<rparr> = w" using assms(3) by simp
  moreover have "contents ?s = ?c" using len(1) by (simp add: contents_def blob_store_def touch_def)
  moreover have "blob_inv ?s"
    using assms(2) True len padded_full[of ?c] unfolding len(1) by (simp add: blob_inv_def blob_store_def touch_def)
  ultimately show ?thesis using assms(1) len(3) by (simp add: same_blob_def get_put_bl touch_def)
next
  case False
  then show ?thesis using assms same_blob_refl by (auto simp: z_blob_swap_out_def)
qed

lemma check_alloc_contents:
  assumes "get_bl w b = Inr s" "blob_inv s" "bw_io w = []"
  shows "\<exists>w' ok s'. z_blob_check_alloc w b = Inr (w', ok) \<and> get_bl w' b = Inr s' \<and> same_blob s s' \<and> others_same b w w'"
proof -
  obtain w1 s1 where w1: "z_blob_swap_out w b = Inr w1" "get_bl w1 b = Inr s1" "same_blob s s1" "others_same b w w1"
    using swap_out_contents[OF assms] by blast
  show ?thesis using assms(1) w1 same_blob_refl[OF assms(2)] by (auto simp: z_blob_check_alloc_def Let_def)
qed

lemma alloc_apply_contents:
  assumes "get_bl w b = Inr s" "blob_inv s" "0 \<le> n"
  shows "\<exists>w' s'. alloc_apply w b n = Inr w' \<and> get_bl w' b = Inr s' \<and> blob_inv s' \<and> bl_alloc_size s' = n
     \<and> bl_size s' = min (bl_size s) n \<and> contents s' = take (nat n) (contents s) \<and> bl_locked s' = bl_locked s
     \<and> bl_is_in_file s' = bl_is_in_file s \<and> others_same b w w'"
proof -
  let ?k = "min (bl_size s) n" and ?f = "ftruncate (nat n) (blob_store s)"
  let ?t = "if bl_is_in_file s then s\<lparr>bl_file := ?f\<rparr> else s\<lparr>bl_data := ?f\<rparr>"
  let ?s = "touch w (\<lambda>t. t\<lparr>bt_alloc_count := bt_alloc_count t + 1\<rparr>) (?t\<lparr>bl_alloc_size := n, bl_size := ?k\<rparr>)"
  have ap: "alloc_apply w b n = Inr (put_bl b ?s w)"
    using assms(1) by (auto simp: alloc_apply_def Let_def blob_store_def min_def)
  have st: "blob_store ?s = ?f" by (simp add: blob_store_def touch_def)
  have p: "padded (nat (bl_size s)) (blob_store s)" "0 \<le> bl_size s" using assms(2) by (simp_all add: blob_inv_def)
  have pd: "padded (nat ?k) ?f \<and> take (nat ?k) ?f = take (nat n) (contents s)"
  proof (cases "bl_size s \<le> n")
    case True
    then have "nat (bl_size s) \<le> nat n" by simp
    moreover have "take (nat n) (contents s) = contents s"
      using calculation contents_length[OF assms(2)] by simp
    ultimately show ?thesis using padded_ftruncate_padded[OF p(1)] True by (simp add: contents_def min_def)
  next
    case False
    then have nn: "nat n \<le> nat (bl_size s)" by simp
    then have "nat n \<le> length (blob_store s)" using p by (auto simp: padded_def)
    moreover have "padded (nat n) ?f" using padded_full[of ?f] unfolding length_ftruncate .
    ultimately show ?thesis using False nn
      by (simp add: ftruncate_short contents_def min_def)
  qed
  have "blob_inv ?s" using pd st assms(2,3) p(2) unfolding blob_inv_def by (auto simp: touch_def)
  moreover have "contents ?s = take (nat n) (contents s)" using pd st by (simp add: contents_def touch_def)
  moreover have "get_bl (put_bl b ?s w) b = Inr ?s" using assms(1) by (simp add: get_put_bl)
  ultimately show ?thesis using ap by (intro exI[of _ "put_bl b ?s w"] exI[of _ ?s]) (simp add: touch_def)
qed

subsection \<open>The size of an allocation\<close>

lemma shrink_below_pos: "0 < n \<Longrightarrow> 0 < req \<Longrightarrow> 0 < shrink_below n req \<and> shrink_below n req \<le> max req n
    \<and> (n \<le> req \<longrightarrow> shrink_below n req = n) \<and> (req < n \<longrightarrow> shrink_below n req \<le> req)"
proof (induction n req rule: shrink_below.induct)
  case (1 n req)
  show ?case
  proof (cases "n > req")
    case True
    then have "0 < n div 2" "n div 2 \<le> n" using 1(3) by simp_all
    then show ?thesis using 1(1)[OF _ _ 1(3)] True 1(3) by (subst (1 2 3 4) shrink_below.simps) auto
  next
    case False
    then show ?thesis using 1(2) by (subst (1 2 3 4) shrink_below.simps) auto
  qed
qed

lemma shrink_below_0: "0 \<le> n \<Longrightarrow> shrink_below n 0 = 0"
proof (induction n "0 :: int" rule: shrink_below.induct)
  case (1 n)
  then show ?case by (subst shrink_below.simps) auto
qed

lemma grow_above_bounds:
  "0 < n \<Longrightarrow> n \<le> req \<Longrightarrow> req < 2 ^ 62 \<Longrightarrow> \<exists>m. grow_above n req = Inr m \<and> req \<le> m \<and> (m < 2 * req \<or> m = req)"
proof (induction n req rule: grow_above.induct)
  case (1 n req)
  show ?case
  proof (cases "n < req")
    case True
    then have ov: "\<not> 2 * n \<ge> 2 ^ 63" using 1(4) by simp
    show ?thesis
    proof (cases "2 * n \<le> req")
      case le: True
      obtain m where "grow_above (2 * n) req = Inr m" "req \<le> m" "m < 2 * req \<or> m = req"
        using 1(1)[OF True _ ov] 1(2,4) le by auto
      then show ?thesis using True 1(2) ov by (subst grow_above.simps) auto
    next
      case False
      then have "grow_above (2 * n) req = Inr (2 * n)" by (subst grow_above.simps) simp
      then show ?thesis using True 1(2) ov False by (subst grow_above.simps) auto
    qed
  next
    case False
    then have "grow_above n req = Inr n" by (subst grow_above.simps) simp
    then show ?thesis using False 1(3) by simp
  qed
qed

lemma alloc_target_bounds:
  assumes "0 \<le> req" "req < 2 ^ 62"
  shows "\<exists>m. alloc_target s req = Inr m \<and> req \<le> m \<and> (m < 2 * req \<or> m = req)"
proof (cases "bl_alloc_size s \<le> 0 \<or> bl_is_in_file s")
  case True
  then show ?thesis by (simp add: alloc_target_def)
next
  case a: False
  show ?thesis
  proof (cases "req = 0")
    case True
    have "grow_above 0 0 = Inr 0" by (subst grow_above.simps) simp
    then show ?thesis using a True shrink_below_0[of "bl_alloc_size s"] by (simp add: alloc_target_def)
  next
    case False
    then have "0 < shrink_below (bl_alloc_size s) req" "shrink_below (bl_alloc_size s) req \<le> req"
      using shrink_below_pos[of "bl_alloc_size s" req] a assms(1) by fastforce+
    from grow_above_bounds[OF this assms(2)] show ?thesis using a by (simp add: alloc_target_def)
  qed
qed

subsection \<open>Writing and reading\<close>

lemma queue_push [simp]: "bs_queue (bw_sys (push_req r w)) = bs_queue (bw_sys w) @ [r]"
  by (simp add: push_req_def upd_sys_def)

lemma put_put_bl [simp]: "put_bl b s (put_bl b t w) = put_bl b s w"
  by (simp add: put_bl_def)

lemma put_bl_io: "bw_io w = io \<Longrightarrow> (put_bl b s w)\<lparr>bw_io := io\<rparr> = put_bl b s w"
  by (auto simp: put_bl_def)

lemma same_io: "bw_io w = io \<Longrightarrow> w\<lparr>bw_io := io\<rparr> = w"
  by auto

lemma alloc_contents:
  assumes "get_bl w b = Inr s" "blob_inv s" "bw_io w = []" "0 \<le> n" "n < 2 ^ 62"
  shows "\<exists>w' st s'. z_blob_alloc w b n = Inr (w', st) \<and> get_bl w' b = Inr s' \<and> blob_inv s' \<and> bl_locked s' = bl_locked s
     \<and> others_same b w w'
     \<and> (st = Granted \<longrightarrow> n \<le> bl_alloc_size s' \<and> (bl_alloc_size s' < 2 * n \<or> bl_alloc_size s' = n) \<and> (bl_size s \<le> n \<longrightarrow> contents s' = contents s \<and> bl_size s' = bl_size s))
     \<and> (\<forall>m. st = Waits m \<longrightarrow> contents s' = contents s \<and> n \<le> m \<and> (m < 2 * n \<or> m = n) \<and> last (bs_queue (bw_sys w')) = Request b)"
proof -
  obtain m where m: "alloc_target s n = Inr m" "n \<le> m" "m < 2 * n \<or> m = n" using alloc_target_bounds[OF assms(4,5)] by blast
  let ?s = "s\<lparr>bl_alloc_req := m - bl_alloc_size s\<rparr>"
  let ?w = "put_bl b ?s w"
  show ?thesis
  proof (cases "m = bl_alloc_size s")
    case True
    then show ?thesis using assms m by (simp add: z_blob_alloc_def)
  next
    case False
    have s: "get_bl ?w b = Inr ?s" "blob_inv ?s" "contents ?s = contents s" "bw_io ?w = []"
      using assms(1-3) inv_fields[of ?s s] by (simp_all add: get_put_bl)
    obtain w1 ok s1 where w1: "z_blob_check_alloc ?w b = Inr (w1, ok)" "get_bl w1 b = Inr s1" "same_blob ?s s1" "others_same b ?w w1"
      using check_alloc_contents[OF s(1,2,4)] by blast
    note b1 = w1(3)[unfolded same_blob_def]
    have o1: "others_same b w w1" using w1(4) by (simp add: others_same_def)
    have m0: "0 \<le> m" using assms(4) m(2) by simp
    show ?thesis
    proof (cases ok)
      case True
      obtain w2 s2 where w2: "alloc_apply w1 b m = Inr w2" "get_bl w2 b = Inr s2" "blob_inv s2" "bl_alloc_size s2 = m"
        "bl_size s2 = min (bl_size s1) m" "contents s2 = take (nat m) (contents s1)" "bl_locked s2 = bl_locked s1" "others_same b w1 w2"
        using alloc_apply_contents[OF w1(2) _ m0] b1 by blast
      have "contents s2 = contents s \<and> bl_size s2 = bl_size s" if "bl_size s \<le> n"
        using that w2(5,6) b1 s(3) m(2) contents_length[OF assms(2)] by simp
      then show ?thesis using assms(1,4) m False w1(1) True w2 b1 others_same_trans[OF o1 w2(8)]
        by (simp add: z_blob_alloc_def g_assert_def)
    next
      case False
      let ?s1 = "s1\<lparr>bl_approved := False, bl_replied := False\<rparr>"
      have "blob_inv ?s1" "contents ?s1 = contents s" using inv_fields[of ?s1 s1] b1 s(3) by simp_all
      then show ?thesis using assms(1,4) m \<open>m \<noteq> bl_alloc_size s\<close> w1(1,2) False b1 o1
        by (simp add: z_blob_alloc_def g_assert_def get_put_bl)
    qed
  qed
qed

lemma add_copy_rest_contents:
  assumes "get_bl w b = Inr s" "blob_inv s" "bw_io w = []" "0 \<le> pos" "d \<noteq> []" "pos + int (length d) \<le> bl_alloc_size s"
    "pos + int (length d) < 2 ^ 62"
  shows "\<exists>w' s'. add_copy_rest w b pos d = Inr (w', length d) \<and> get_bl w' b = Inr s' \<and> blob_inv s'
     \<and> \<not> bl_locked s' \<and> contents s' = spliced (nat pos) d (contents s) \<and> others_same b w w'"
proof -
  let ?m = "max (nat (bl_size s)) (nat pos + length d)"
  let ?f = "if bl_is_in_file s then pwrite (nat pos) d (bl_file s) else overwrite (nat pos) d (bl_data s)"
  let ?k = "if bl_size s < pos + int (length d) then pos + int (length d) else bl_size s"
  let ?t = "\<lambda>t. t\<lparr>bt_req_wr := bt_req_wr t + 1, bt_total_wr := addz (bt_total_wr t) (ssize_to_size (int (length d)))\<rparr>"
  let ?s1 = "if bl_is_in_file s then s\<lparr>bl_file := ?f\<rparr> else s\<lparr>bl_data := ?f\<rparr>"
  let ?s = "(touch w ?t (?s1\<lparr>bl_size := ?k\<rparr>))\<lparr>bl_locked := False\<rparr>"
  have p: "padded (nat (bl_size s)) (blob_store s)" "0 \<le> bl_size s" "bl_size s \<le> bl_alloc_size s"
    using assms(2) by (simp_all add: blob_inv_def)
  have room: "nat pos + length d \<le> length (bl_data s)" if "\<not> bl_is_in_file s"
    using that assms(2,4,6) by (auto simp: blob_inv_def)
  have k: "nat ?k = ?m" using assms(4) p(2) by (auto simp: max_def)
  have pd: "padded ?m ?f \<and> take ?m ?f = spliced (nat pos) d (contents s)"
    using padded_pwrite[OF p(1) assms(5), of "nat pos"] padded_overwrite[OF p(1), of "nat pos" d] room
    by (auto simp: blob_store_def contents_def)
  have st: "blob_store ?s = ?f" "bl_size ?s = ?k" "bl_alloc_size ?s = bl_alloc_size s" "bl_is_in_file ?s = bl_is_in_file s"
    by (simp_all add: blob_store_def touch_def)
  have "blob_inv ?s" using pd k p assms(2,4,6) unfolding blob_inv_def st by (auto simp: touch_def)
  moreover have "contents ?s = spliced (nat pos) d (contents s)" using pd k unfolding contents_def st by simp
  moreover have "ssize_to_size (int (length d)) = length d" using assms(4,7) by (simp add: ssize_to_size_def)
  moreover have "add_copy_rest w b pos d = Inr (put_bl b ?s w, ssize_to_size (int (length d)))"
    using assms(1,3,5) room by (cases "bl_is_in_file s")
      (auto simp: add_copy_rest_def z_blob_unlock_def get_put_bl Let_def same_io touch_def)
  ultimately show ?thesis using assms(1) by (intro exI[of _ "put_bl b ?s w"] exI[of _ ?s]) (simp add: get_put_bl)
qed

lemma lock_free: "get_bl w b = Inr s \<Longrightarrow> \<not> bl_locked s \<Longrightarrow> z_blob_lock w b t = Inr (put_bl b (s\<lparr>bl_locked := True\<rparr>) w, True)"
  by (simp add: z_blob_lock_def)

lemma add_copy_contents:
  assumes "get_bl w b = Inr s" "blob_inv s" "bw_io w = []" "\<not> bl_locked s" "0 \<le> pos" "d \<noteq> []"
    "pos + int (length d) < 2 ^ 62"
  shows "\<exists>w' r s'. z_blob_add_copy w b pos d t = Inr (w', r) \<and> get_bl w' b = Inr s' \<and> blob_inv s' \<and> others_same b w w'
     \<and> (r = Done (length d) \<and> \<not> bl_locked s' \<and> contents s' = spliced (nat pos) d (contents s)
        \<or> (\<exists>m. r = Parked m) \<and> bl_locked s' \<and> contents s' = contents s \<and> last (bs_queue (bw_sys w')) = Request b)"
proof -
  let ?s = "s\<lparr>bl_locked := True\<rparr>" and ?n = "pos + int (length d)"
  let ?w = "put_bl b ?s w"
  have s: "get_bl ?w b = Inr ?s" "blob_inv ?s" "contents ?s = contents s" "bw_io ?w = []" "others_same b w ?w"
    using assms(1-3) inv_fields[of ?s s] by (simp_all add: get_put_bl)
  show ?thesis
  proof (cases "bl_alloc_size s < ?n")
    case False
    obtain w' s' where "add_copy_rest ?w b pos d = Inr (w', length d)" "get_bl w' b = Inr s'" "blob_inv s'"
      "\<not> bl_locked s'" "contents s' = spliced (nat pos) d (contents s)" "others_same b ?w w'"
      using add_copy_rest_contents[OF s(1,2,4) assms(5,6) _ assms(7)] False s(3) by auto
    then show ?thesis using assms(1,4,5) False s(1) others_same_trans[OF s(5)]
      by (simp add: z_blob_add_copy_def g_assert_def lock_free)
  next
    case True
    have sz: "bl_size ?s \<le> ?n" "0 \<le> ?n" using assms(2,5) True by (simp_all add: blob_inv_def)
    obtain w1 st s1 where w1: "z_blob_alloc ?w b ?n = Inr (w1, st)" "get_bl w1 b = Inr s1" "blob_inv s1"
      "bl_locked s1" "others_same b ?w w1"
      "st = Granted \<longrightarrow> ?n \<le> bl_alloc_size s1 \<and> contents s1 = contents s"
      "\<forall>m. st = Waits m \<longrightarrow> contents s1 = contents s \<and> last (bs_queue (bw_sys w1)) = Request b"
      using alloc_contents[OF s(1,2,4) sz(2) assms(7)] s(3) sz(1) by auto
    have io: "bw_io w1 = []" and o1: "others_same b w w1" using w1(5) s(4,5) by (auto simp: others_same_def)
    show ?thesis
    proof (cases st)
      case Granted
      obtain w' s' where "add_copy_rest w1 b pos d = Inr (w', length d)" "get_bl w' b = Inr s'" "blob_inv s'"
        "\<not> bl_locked s'" "contents s' = spliced (nat pos) d (contents s)" "others_same b w1 w'"
        using add_copy_rest_contents[OF w1(2,3) io assms(5,6) _ assms(7)] Granted w1(6) by auto
      then show ?thesis using assms(1,4,5) True s(1) w1(1) Granted others_same_trans[OF o1]
        by (simp add: z_blob_add_copy_def g_assert_def lock_free)
    next
      case (Waits m)
      then show ?thesis using assms(1,4,5) True s(1) w1 o1
        by (simp add: z_blob_add_copy_def g_assert_def lock_free)
    qed
  qed
qed

lemma get_copy_contents:
  assumes "get_bl w b = Inr s" "blob_inv s" "bw_io w = []" "\<not> bl_locked s" "0 \<le> pos" "length buf < 2 ^ 62"
  shows "\<exists>w' s' n. z_blob_get_copy w b pos buf t = Inr (w', n, overwrite 0 (chunk (nat pos) n (contents s)) buf)
     \<and> n = min (length buf) (length (contents s) - nat pos) \<and> get_bl w' b = Inr s' \<and> blob_inv s' \<and> contents s' = contents s
     \<and> \<not> bl_locked s' \<and> others_same b w w'"
proof (cases "pos < bl_size s")
  case False
  then have "length (contents s) - nat pos = 0" using contents_length[OF assms(2)] assms(5) by simp
  then show ?thesis using False assms by (simp add: z_blob_get_copy_def g_assert_def overwrite_def chunk_def)
next
  case True
  define n where "n = min (length buf) (nat (bl_size s - pos))"
  have p: "padded (nat (bl_size s)) (blob_store s)" "nat (bl_size s) \<le> length (blob_store s)" "0 \<le> bl_size s"
    using assms(2) by (simp_all add: blob_inv_def padded_def)
  have len: "length (contents s) - nat pos = nat (bl_size s - pos)"
    using contents_length[OF assms(2)] assms(5) by (simp add: nat_diff_distrib)
  have fit: "nat pos + n \<le> nat (bl_size s)" using True assms(5) by (auto simp: n_def min_def)
  have ck: "chunk (nat pos) n (blob_store s) = chunk (nat pos) n (contents s)"
    using fit by (simp add: chunk_def contents_def drop_take)
  have le: "nat pos + n \<le> length (blob_store s)" using fit p(2) by simp
  have n64: "ssize_to_size (int n) = n" using assms(6) by (simp add: n_def ssize_to_size_def)
  let ?t = "\<lambda>t. t\<lparr>bt_req_rd := bt_req_rd t + 1, bt_total_rd := addz (bt_total_rd t) (ssize_to_size (int n))\<rparr>"
  let ?s = "(touch w ?t s)\<lparr>bl_locked := False\<rparr>"
  have rd: "read_all False [] (nat pos) n 0 buf (bl_file s) = Inr ([], int n, overwrite 0 (chunk (nat pos) n (contents s)) buf)"
    if "bl_is_in_file s"
    using that le ck by (auto simp: blob_store_def chunk_def overwrite_def min_def Let_def)
  have "z_blob_get_copy w b pos buf t = Inr (put_bl b ?s w, n, overwrite 0 (chunk (nat pos) n (contents s)) buf)"
    using assms(1,3-5) True rd le ck n64
    by (cases "bl_is_in_file s")
      (simp_all add: z_blob_get_copy_def g_assert_def lock_free z_blob_unlock_def get_put_bl Let_def put_bl_io touch_def blob_store_def
        del: read_all.simps flip: n_def)
  moreover have "blob_inv ?s" "contents ?s = contents s" using inv_fields[of ?s s] assms(2) by (simp_all add: touch_def)
  ultimately show ?thesis using assms(1) len
    by (intro exI[of _ "put_bl b ?s w"] exI[of _ ?s] exI[of _ n]) (simp add: get_put_bl n_def)
qed

end
