(* ===== verification/Blob_Accounting.thy ===== *)
theory Blob_Accounting
  imports Blob_Contents
begin

section \<open>The accounting of the blob system\<close>

text \<open>
  The counters \<open>mem_used\<close> and \<open>disk_used\<close> against the blobs that exist. \<open>accounted g w\<close> says that they are
  the sums of the allocated sizes of the blobs in memory and in files, where \<open>g b\<close> is what was granted to
  blob \<open>b\<close> and not yet allocated, and that the memory stays below its limit. A caller of
  \<open>z_blob_add_copy\<close> or \<open>z_blob_truncate\<close> that waits for the management thread is kept in a map of parked
  callers; the step relation \<open>blob_step\<close> interleaves the operations, the messages of the thread and the
  continuation of the callers it replied to.
\<close>

subsection \<open>The counters and the blobs\<close>

definition mem_share :: "(nat \<Rightarrow> int) \<Rightarrow> bworld \<Rightarrow> nat \<Rightarrow> int" where
  "mem_share g w b = (case slot (bw_store w) b of None \<Rightarrow> 0 | Some s \<Rightarrow> if bl_is_in_file s then 0 else bl_alloc_size s + g b)"

definition disk_share :: "(nat \<Rightarrow> int) \<Rightarrow> bworld \<Rightarrow> nat \<Rightarrow> int" where
  "disk_share g w b = (case slot (bw_store w) b of None \<Rightarrow> 0 | Some s \<Rightarrow> if bl_is_in_file s then bl_alloc_size s + g b else 0)"

definition mem_sum :: "(nat \<Rightarrow> int) \<Rightarrow> bworld \<Rightarrow> int" where
  "mem_sum g w = (\<Sum>b < length (bw_store w). mem_share g w b)"

definition disk_sum :: "(nat \<Rightarrow> int) \<Rightarrow> bworld \<Rightarrow> int" where
  "disk_sum g w = (\<Sum>b < length (bw_store w). disk_share g w b)"

definition accounted :: "(nat \<Rightarrow> int) \<Rightarrow> bworld \<Rightarrow> bool" where
  "accounted g w \<longleftrightarrow> int (bs_mem_used (bw_sys w)) = mem_sum g w \<and> bs_mem_used (bw_sys w) \<le> bs_mem_max (bw_sys w)
     \<and> bs_mem_max (bw_sys w) < 2 ^ 63 \<and> bs_hiwat (bw_sys w) \<le> bs_mem_max (bw_sys w)
     \<and> int (bs_disk_used (bw_sys w)) = disk_sum g w mod 2 ^ 64
     \<and> (\<forall>b s. get_bl w b = Inr s \<longrightarrow> 0 \<le> bl_alloc_size s \<and> 0 \<le> bl_alloc_size s + g b)"

definition same_limits :: "bworld \<Rightarrow> bworld \<Rightarrow> bool" where
  "same_limits w w' \<longleftrightarrow> bs_mem_max (bw_sys w') = bs_mem_max (bw_sys w) \<and> bs_hiwat (bw_sys w') = bs_hiwat (bw_sys w)"

lemma sum_change:
  fixes f g :: "nat \<Rightarrow> int"
  assumes "b < n" "\<And>c. c \<noteq> b \<Longrightarrow> f c = g c"
  shows "(\<Sum>c<n. f c) = (\<Sum>c<n. g c) - g b + f b"
  using assms by (simp add: sum.remove[of "{..<n}" b])

text \<open>One blob changes, the counters move by what its shares move.\<close>

lemma accounted_change:
  assumes acc: "accounted g w" and b: "get_bl w b = Inr s"
    and o: "\<And>c. c \<noteq> b \<Longrightarrow> get_bl w' c = get_bl w c \<and> g' c = g c" and len: "length (bw_store w') = length (bw_store w)"
    and lim: "same_limits w w'"
    and m: "int (bs_mem_used (bw_sys w')) = int (bs_mem_used (bw_sys w)) + (mem_share g' w' b - mem_share g w b)"
    and d: "int (bs_disk_used (bw_sys w')) = (int (bs_disk_used (bw_sys w)) + (disk_share g' w' b - disk_share g w b)) mod 2 ^ 64"
    and le: "bs_mem_used (bw_sys w') \<le> bs_mem_max (bw_sys w)"
    and ok: "\<And>s'. get_bl w' b = Inr s' \<Longrightarrow> 0 \<le> bl_alloc_size s' \<and> 0 \<le> bl_alloc_size s' + g' b"
  shows "accounted g' w'"
proof -
  have bl: "b < length (bw_store w)" using b by (auto simp: get_bl_Inr dest: slot_Some)
  have sl: "slot (bw_store w') c = slot (bw_store w) c \<and> g' c = g c" if "c \<noteq> b" for c
    using o[OF that] by (auto simp: get_bl_def split: option.splits)
  have "mem_sum g' w' = mem_sum g w - mem_share g w b + mem_share g' w' b"
    unfolding mem_sum_def len by (rule sum_change[OF bl]) (auto simp: mem_share_def sl split: option.split)
  moreover have "disk_sum g' w' = disk_sum g w - disk_share g w b + disk_share g' w' b"
    unfolding disk_sum_def len by (rule sum_change[OF bl]) (auto simp: disk_share_def sl split: option.split)
  moreover have "(disk_sum g w mod 2 ^ 64 + (disk_share g' w' b - disk_share g w b)) mod 2 ^ 64
      = (disk_sum g w - disk_share g w b + disk_share g' w' b) mod 2 ^ 64"
    unfolding mod_add_left_eq by (rule arg_cong[of _ _ "\<lambda>x. x mod 2 ^ 64"]) simp
  moreover have "0 \<le> bl_alloc_size s' \<and> 0 \<le> bl_alloc_size s' + g' c" if "get_bl w' c = Inr s'" for c s'
    using that ok o acc unfolding accounted_def by (cases "c = b") auto
  ultimately show ?thesis using acc m d le lim unfolding accounted_def same_limits_def by auto
qed

lemma accounted_frame:
  assumes "accounted g w" "length (bw_store w') = length (bw_store w)" "same_limits w w'"
    "bs_mem_used (bw_sys w') = bs_mem_used (bw_sys w)" "bs_disk_used (bw_sys w') = bs_disk_used (bw_sys w)"
    "\<And>c. (case slot (bw_store w') c of None \<Rightarrow> None | Some s \<Rightarrow> Some (bl_is_in_file s, bl_alloc_size s))
       = (case slot (bw_store w) c of None \<Rightarrow> None | Some s \<Rightarrow> Some (bl_is_in_file s, bl_alloc_size s))"
  shows "accounted g w'"
proof -
  have "mem_share g w' c = mem_share g w c" "disk_share g w' c = disk_share g w c" for c
    using assms(6)[of c] by (auto simp: mem_share_def disk_share_def split: option.splits)
  moreover have "\<exists>t. get_bl w c = Inr t \<and> bl_alloc_size t = bl_alloc_size s" if "get_bl w' c = Inr s" for c s
    using assms(6)[of c] that by (auto simp: get_bl_def split: option.splits)
  ultimately show ?thesis using assms(1-5) unfolding accounted_def mem_sum_def disk_sum_def same_limits_def by fastforce
qed

lemma mem_share_le:
  assumes "accounted g w" "get_bl w b = Inr s"
  shows "mem_share g w b \<le> int (bs_mem_used (bw_sys w))" and "0 \<le> mem_share g w b"
proof -
  have nn: "0 \<le> mem_share g w c" for c
    using assms(1) by (auto simp: accounted_def mem_share_def get_bl_Inr split: option.splits)
  have "b < length (bw_store w)" using assms(2) by (auto simp: get_bl_Inr dest: slot_Some)
  then have "mem_share g w b \<le> mem_sum g w" unfolding mem_sum_def by (intro member_le_sum) (auto simp: nn)
  then show "mem_share g w b \<le> int (bs_mem_used (bw_sys w))" using assms(1) by (simp add: accounted_def)
  show "0 \<le> mem_share g w b" by (rule nn)
qed

subsection \<open>Swapping and allocation\<close>

lemma used_simps [simp]:
  "bs_mem_used (bw_sys (put_bl b s w)) = bs_mem_used (bw_sys w)" "bs_disk_used (bw_sys (put_bl b s w)) = bs_disk_used (bw_sys w)"
  "bs_mem_used (bw_sys (disk_add n w)) = bs_mem_used (bw_sys w)" "bs_disk_used (bw_sys (mem_add n w)) = bs_disk_used (bw_sys w)"
  "bs_mem_used (bw_sys (push_req r w)) = bs_mem_used (bw_sys w)" "bs_disk_used (bw_sys (push_req r w)) = bs_disk_used (bw_sys w)"
  "int (bs_mem_used (bw_sys (mem_add n w))) = (int (bs_mem_used (bw_sys w)) + n) mod 2 ^ 64"
  "int (bs_disk_used (bw_sys (disk_add n w))) = (int (bs_disk_used (bw_sys w)) + n) mod 2 ^ 64"
  using int_addz_ssize by (simp_all add: put_bl_def mem_add_def disk_add_def push_req_def upd_sys_def)

lemma queue_simps [simp]:
  "bs_queue (bw_sys (put_bl b s w)) = bs_queue (bw_sys w)" "bs_waiting (bw_sys (put_bl b s w)) = bs_waiting (bw_sys w)"
  "bs_queue (bw_sys (mem_add n w)) = bs_queue (bw_sys w)" "bs_waiting (bw_sys (mem_add n w)) = bs_waiting (bw_sys w)"
  "bs_queue (bw_sys (disk_add n w)) = bs_queue (bw_sys w)" "bs_waiting (bw_sys (disk_add n w)) = bs_waiting (bw_sys w)"
  "bs_waiting (bw_sys (push_req r w)) = bs_waiting (bw_sys w)"
  by (simp_all add: put_bl_def mem_add_def disk_add_def push_req_def upd_sys_def)

lemma same_limits_simps [simp]:
  "same_limits w w" "same_limits w (put_bl b s w') = same_limits w w'" "same_limits w (mem_add n w') = same_limits w w'"
  "same_limits w (disk_add n w') = same_limits w w'" "same_limits w (push_req r w') = same_limits w w'"
  "same_limits w (w'\<lparr>bw_io := io\<rparr>) = same_limits w w'" "same_limits w (w'\<lparr>bw_store := st\<rparr>) = same_limits w w'"
  by (simp_all add: same_limits_def put_bl_def mem_add_def disk_add_def push_req_def upd_sys_def)

lemma same_limits_trans: "same_limits w w1 \<Longrightarrow> same_limits w1 w2 \<Longrightarrow> same_limits w w2"
  by (simp add: same_limits_def)

lemma share_put [simp]:
  assumes "get_bl w b = Inr s"
  shows "mem_share g (put_bl b s' w) b = (if bl_is_in_file s' then 0 else bl_alloc_size s' + g b)"
    and "disk_share g (put_bl b s' w) b = (if bl_is_in_file s' then bl_alloc_size s' + g b else 0)"
    and "mem_share g w b = (if bl_is_in_file s then 0 else bl_alloc_size s + g b)"
    and "disk_share g w b = (if bl_is_in_file s then bl_alloc_size s + g b else 0)"
  using assms by (auto simp: mem_share_def disk_share_def slot_update get_bl_Inr dest: slot_Some)

lemma share_sys [simp]:
  "mem_share g (mem_add n w) b = mem_share g w b" "mem_share g (disk_add n w) b = mem_share g w b"
  "mem_share g (push_req r w) b = mem_share g w b" "mem_share g (w\<lparr>bw_io := io\<rparr>) b = mem_share g w b"
  "disk_share g (mem_add n w) b = disk_share g w b" "disk_share g (disk_add n w) b = disk_share g w b"
  "disk_share g (push_req r w) b = disk_share g w b" "disk_share g (w\<lparr>bw_io := io\<rparr>) b = disk_share g w b"
  by (simp_all add: mem_share_def disk_share_def)

lemma accounted_io [simp]: "accounted g (w\<lparr>bw_io := io\<rparr>) = accounted g w"
  by (simp add: accounted_def mem_sum_def disk_sum_def)

lemma accounted_push [simp]: "accounted g (push_req r w) = accounted g w"
  by (simp add: accounted_def mem_sum_def disk_sum_def) (simp add: push_req_def upd_sys_def)

text \<open>A blob may change in everything but its place and its size.\<close>

lemma accounted_put:
  "accounted g w \<Longrightarrow> get_bl w b = Inr s \<Longrightarrow> bl_is_in_file s' = bl_is_in_file s \<Longrightarrow> bl_alloc_size s' = bl_alloc_size s \<Longrightarrow>
   accounted g (put_bl b s' w)"
  by (rule accounted_frame[of g w]) (auto simp: slot_update get_bl_Inr dest: slot_Some)

lemma used_bounds:
  assumes "accounted g w" "get_bl w b = Inr s"
  shows "int (bs_mem_used (bw_sys w)) \<le> int (bs_mem_max (bw_sys w))" "int (bs_mem_max (bw_sys w)) < 2 ^ 63"
    "0 \<le> bl_alloc_size s" "0 \<le> bl_alloc_size s + g b"
    "\<not> bl_is_in_file s \<Longrightarrow> bl_alloc_size s + g b \<le> int (bs_mem_used (bw_sys w))"
  using assms mem_share_le[OF assms] by (auto simp: accounted_def)

text \<open>What an operation on a blob leaves alone: the other blobs, the requests, the limits and the state of the caller.\<close>

fun queue_reqs :: "blob_req list \<Rightarrow> nat list" where
  "queue_reqs [] = []"
| "queue_reqs (Request b # q) = b # queue_reqs q"
| "queue_reqs (Thread_kill # q) = queue_reqs q"
| "queue_reqs (Mem_freed # q) = queue_reqs q"

lemma queue_reqs_append [simp]: "queue_reqs (p @ q) = queue_reqs p @ queue_reqs q"
  by (induction p rule: queue_reqs.induct) simp_all

definition book :: "zblob \<Rightarrow> bool \<times> bool \<times> bool \<times> int" where
  "book s = (bl_locked s, bl_approved s, bl_replied s, bl_alloc_req s)"

definition sys_same :: "bworld \<Rightarrow> bworld \<Rightarrow> bool" where
  "sys_same w w' \<longleftrightarrow> same_limits w w' \<and> length (bw_store w') = length (bw_store w)
     \<and> bs_waiting (bw_sys w') = bs_waiting (bw_sys w) \<and> queue_reqs (bs_queue (bw_sys w')) = queue_reqs (bs_queue (bw_sys w))"

definition keeps :: "nat \<Rightarrow> bworld \<Rightarrow> bworld \<Rightarrow> bool" where
  "keeps b w w' \<longleftrightarrow> sys_same w w' \<and> (\<forall>c. c \<noteq> b \<longrightarrow> get_bl w' c = get_bl w c)
     \<and> (\<forall>s. get_bl w b = Inr s \<longrightarrow> (\<exists>s'. get_bl w' b = Inr s' \<and> book s' = book s))"

lemma keeps_refl [simp]: "keeps b w w"
  by (simp add: keeps_def sys_same_def)

lemma keeps_trans: "keeps b w w1 \<Longrightarrow> keeps b w1 w2 \<Longrightarrow> keeps b w w2"
  unfolding keeps_def sys_same_def by (auto intro: same_limits_trans)

lemma keeps_sys [simp]:
  "keeps b w (mem_add n w') = keeps b w w'" "keeps b w (disk_add n w') = keeps b w w'"
  "keeps b w (push_req Mem_freed w') = keeps b w w'" "keeps b w (w'\<lparr>bw_io := io\<rparr>) = keeps b w w'"
  by (simp_all add: keeps_def sys_same_def)

lemma keeps_put: "get_bl w b = Inr s \<Longrightarrow> book s' = book s \<Longrightarrow> keeps b w (put_bl b s' w)"
  by (simp add: keeps_def sys_same_def get_put_bl)

lemma disk_mem_add: "disk_add d (mem_add m w) = mem_add m (disk_add d w)"
  by (simp add: disk_add_def mem_add_def upd_sys_def)

lemma mem_add_0 [simp]: "bs_mem_used (bw_sys w) < 2 ^ 64 \<Longrightarrow> mem_add 0 w = w"
  by (simp add: mem_add_def upd_sys_def ssize_to_size_def addz_def)

lemma disk_add_0 [simp]: "bs_disk_used (bw_sys w) < 2 ^ 64 \<Longrightarrow> disk_add 0 w = w"
  by (simp add: disk_add_def upd_sys_def ssize_to_size_def addz_def)

lemma accounted_disk: "accounted g w \<Longrightarrow> bs_disk_used (bw_sys w) < 2 ^ 64" "accounted g w \<Longrightarrow> bs_mem_used (bw_sys w) < 2 ^ 64"
proof -
  assume a: "accounted g w"
  have "int (bs_disk_used (bw_sys w)) < 2 ^ 64" using a unfolding accounted_def by simp
  then show "bs_disk_used (bw_sys w) < 2 ^ 64" by simp
  show "bs_mem_used (bw_sys w) < 2 ^ 64" using a unfolding accounted_def by simp
qed

lemma accounted_move:
  assumes "accounted g w" "get_bl w b = Inr s" "\<And>c. c \<noteq> b \<Longrightarrow> g' c = g c"
    "m = (if bl_is_in_file s' then 0 else bl_alloc_size s' + g' b) - (if bl_is_in_file s then 0 else bl_alloc_size s + g b)"
    "d = (if bl_is_in_file s' then bl_alloc_size s' + g' b else 0) - (if bl_is_in_file s then bl_alloc_size s + g b else 0)"
    "0 \<le> int (bs_mem_used (bw_sys w)) + m" "int (bs_mem_used (bw_sys w)) + m \<le> int (bs_mem_max (bw_sys w))"
    "0 \<le> bl_alloc_size s'" "0 \<le> bl_alloc_size s' + g' b"
  shows "accounted g' (mem_add m (disk_add d (put_bl b s' w)))"
proof (rule accounted_change[OF assms(1,2)])
  let ?w = "mem_add m (disk_add d (put_bl b s' w))"
  have "int (bs_mem_max (bw_sys w)) < 2 ^ 63" using used_bounds[OF assms(1,2)] by blast
  then have "(int (bs_mem_used (bw_sys w)) + m) mod 2 ^ 64 = int (bs_mem_used (bw_sys w)) + m"
    using assms(6,7) by (intro mod_pos_pos_trivial) simp_all
  then have u: "int (bs_mem_used (bw_sys ?w)) = int (bs_mem_used (bw_sys w)) + m"
    unfolding used_simps .
  show "int (bs_mem_used (bw_sys ?w)) = int (bs_mem_used (bw_sys w)) + (mem_share g' ?w b - mem_share g w b)"
    unfolding u share_sys share_put[OF assms(2)] using assms(4) by (simp only:)
  show "int (bs_disk_used (bw_sys ?w)) = (int (bs_disk_used (bw_sys w)) + (disk_share g' ?w b - disk_share g w b)) mod 2 ^ 64"
    unfolding used_simps share_sys share_put[OF assms(2)] assms(5) by simp
  show "bs_mem_used (bw_sys ?w) \<le> bs_mem_max (bw_sys w)" using u assms(7) by linarith
qed (use assms(2,3,8,9) in \<open>auto simp: get_put_bl\<close>)

lemma swap_out_accounted:
  assumes "accounted g w" "get_bl w b = Inr s" "g b = 0" "z_blob_swap_out w b = Inr w'"
  shows "accounted g w' \<and> keeps b w w' \<and> (\<exists>s'. get_bl w' b = Inr s' \<and> bl_alloc_size s' = bl_alloc_size s
    \<and> bl_is_in_file s' = (bl_is_in_file s \<or> \<not> bl_storage_locked s))"
proof (cases "\<not> bl_storage_locked s \<and> \<not> bl_is_in_file s")
  case True
  obtain io n fl where "write_all (bw_io w) 0 (bl_data s) (nat (bl_size s)) 0 (bl_file s) = Inr (io, n, fl)"
    using assms(2,4) True by (auto simp: z_blob_swap_out_def rbind_eq_Inr)
  then obtain s1 where w': "w' = disk_add (bl_alloc_size s) (mem_add (- bl_alloc_size s) (put_bl b s1 (w\<lparr>bw_io := io\<rparr>)))"
    "bl_is_in_file s1" "bl_alloc_size s1 = bl_alloc_size s" "book s1 = book s"
    using assms(2,4) True by (auto simp: z_blob_swap_out_def touch_def book_def)
  let ?w = "w\<lparr>bw_io := io\<rparr>"
  have b: "get_bl ?w b = Inr s" "accounted g ?w" using assms(1,2) by simp_all
  note ub = used_bounds[OF b(2,1)]
  have "accounted g w'" unfolding w'(1) disk_mem_add
    by (rule accounted_move[OF b(2,1)]) (use True assms(3) w'(2,3) ub in simp_all)
  moreover have "keeps b w w'" using keeps_trans[of b w ?w] keeps_put[OF b(1) w'(4)] w'(1) by simp
  ultimately show ?thesis using True w' b by (auto simp: get_put_bl)
next
  case False
  then show ?thesis using assms by (auto simp: z_blob_swap_out_def)
qed

lemma put_same: "get_bl w b = Inr s \<Longrightarrow> put_bl b s w = w"
proof -
  assume "get_bl w b = Inr s"
  then have "(bw_store w)[b := Some s] = bw_store w" using list_update_id[of "bw_store w" b]
    by (metis get_bl_Inr slot_Some)
  then show ?thesis by (simp add: put_bl_def)
qed

lemma check_alloc_accounted:
  assumes "accounted g w" "get_bl w b = Inr s" "g b = 0" "z_blob_check_alloc w b = Inr (w', ok)"
    "0 \<le> bl_alloc_size s + bl_alloc_req s" "bl_alloc_req s < 2 ^ 63"
  shows "accounted (g(b := if ok then bl_alloc_req s else 0)) w' \<and> keeps b w w'
    \<and> (\<exists>s'. get_bl w' b = Inr s' \<and> bl_alloc_size s' = bl_alloc_size s)
    \<and> (bl_alloc_req s < 0 \<longrightarrow> ok)"
proof -
  let ?g = "g(b := bl_alloc_req s)" and ?p = "\<lambda>w. if bl_alloc_req s < 0 then push_req Mem_freed w else w"
  let ?fit = "bl_alloc_req s < 0 \<or> ssize_to_size (bl_alloc_req s) \<le> subz (bs_mem_max (bw_sys w)) (bs_mem_used (bw_sys w))"
  note ub = used_bounds[OF assms(1,2)]
  have id: "put_bl b s w = w" by (rule put_same[OF assms(2)])
  have g0: "g(b := 0) = g" using assms(3) by auto
  show ?thesis
  proof (cases "bl_is_in_file s")
    case True
    have w': "w' = ?p (disk_add (bl_alloc_req s) w)" "ok" using assms(2,4) True by (auto simp: z_blob_check_alloc_def)
    have "accounted ?g (mem_add 0 (disk_add (bl_alloc_req s) (put_bl b s w)))"
      by (rule accounted_move[OF assms(1,2)]) (use True assms(3,5) ub in simp_all)
    then have "accounted ?g (disk_add (bl_alloc_req s) w)" using accounted_disk(2)[OF assms(1)] id by simp
    then show ?thesis using w' assms(2) by simp
  next
    case mem: False
    show ?thesis
    proof (cases ?fit)
      case True
      have w': "w' = ?p (mem_add (bl_alloc_req s) w)" "ok" using assms(2,4) True mem by (auto simp: z_blob_check_alloc_def)
      have fit: "int (bs_mem_used (bw_sys w)) + bl_alloc_req s \<le> int (bs_mem_max (bw_sys w))"
      proof (cases "bl_alloc_req s < 0")
        case False
        then have "subz (bs_mem_max (bw_sys w)) (bs_mem_used (bw_sys w)) = bs_mem_max (bw_sys w) - bs_mem_used (bw_sys w)"
          "ssize_to_size (bl_alloc_req s) = nat (bl_alloc_req s)" using ub(1,2) assms(6) by (simp_all add: subz_le ssize_to_size_nonneg)
        then show ?thesis using True False ub(1) by auto
      qed (use ub(1) in simp)
      have "accounted ?g (mem_add (bl_alloc_req s) (disk_add 0 (put_bl b s w)))"
        by (rule accounted_move[OF assms(1,2)]) (use mem assms(3,5) ub fit in simp_all)
      then have "accounted ?g (mem_add (bl_alloc_req s) w)" using accounted_disk(1)[OF assms(1)] id by simp
      then show ?thesis using w' assms(2) by simp
    next
      case False
      show ?thesis
      proof (cases "\<not> bl_storage_locked s \<and> ssize_to_size (bl_alloc_size s + bl_alloc_req s) \<le> subz (bs_disk_max (bw_sys w)) (bs_disk_used (bw_sys w))")
        case True
        obtain w1 where w1: "z_blob_swap_out w b = Inr w1" "w' = disk_add (bl_alloc_req s) w1" "ok"
          using assms(2,4) True mem False by (auto simp: z_blob_check_alloc_def rbind_eq_Inr)
        from swap_out_accounted[OF assms(1-3) w1(1)] True obtain s1 where s1: "accounted g w1" "keeps b w w1" "get_bl w1 b = Inr s1"
          "bl_alloc_size s1 = bl_alloc_size s" "bl_is_in_file s1" by auto
        have id: "put_bl b s1 w1 = w1" by (rule put_same[OF s1(3)])
        have "accounted ?g (mem_add 0 (disk_add (bl_alloc_req s) (put_bl b s1 w1)))"
          by (rule accounted_move[OF s1(1,3)]) (use s1(4,5) assms(3,5) used_bounds[OF s1(1,3)] in simp_all)
        then have "accounted ?g (disk_add (bl_alloc_req s) w1)" using accounted_disk(2)[OF s1(1)] id by simp
        then show ?thesis using w1(2,3) s1 False by simp
      next
        case disk: False
        have "w' = w" "\<not> ok" using assms(2,4) mem False disk by (auto simp: z_blob_check_alloc_def)
        then show ?thesis using assms(1,2) g0 False by simp
      qed
    qed
  qed
qed

lemma alloc_apply_accounted:
  assumes "accounted g w" "get_bl w b = Inr s" "g b = n - bl_alloc_size s" "alloc_apply w b n = Inr w'" "0 \<le> n"
  shows "accounted (g(b := 0)) w' \<and> keeps b w w' \<and> (\<exists>s'. get_bl w' b = Inr s' \<and> bl_alloc_size s' = n)"
proof -
  obtain s' where s': "w' = put_bl b s' w" "bl_is_in_file s' = bl_is_in_file s" "bl_alloc_size s' = n" "book s' = book s"
    using assms(2,4) by (auto simp: alloc_apply_def touch_def Let_def book_def)
  have "accounted (g(b := 0)) (mem_add 0 (disk_add 0 (put_bl b s' w)))"
    by (rule accounted_move[OF assms(1,2)]) (use s' assms(3,5) used_bounds[OF assms(1,2)] in simp_all)
  then have "accounted (g(b := 0)) w'" using accounted_disk[OF assms(1)] s'(1) by simp
  then show ?thesis using s' assms(2) keeps_put by (auto simp: get_put_bl)
qed

subsection \<open>Callers that wait\<close>

text \<open>A caller that waits: its \<open>req_alloc_size\<close>, and the rest of a \<open>z_blob_add_copy\<close> if it is one.\<close>

type_synonym parked = "int \<times> (int \<times> bytes) option"

definition grant :: "(nat \<rightharpoonup> parked) \<Rightarrow> bworld \<Rightarrow> nat \<Rightarrow> int" where
  "grant P w b = (if P b = None then 0 else
     case get_bl w b of Inl f \<Rightarrow> 0 | Inr s \<Rightarrow> if bl_replied s then bl_alloc_req s else 0)"

definition parked_ok :: "int \<Rightarrow> zblob \<Rightarrow> bool" where
  "parked_ok m s \<longleftrightarrow> bl_locked s \<and> bl_alloc_req s = m - bl_alloc_size s \<and> 0 < bl_alloc_req s \<and> m < 2 ^ 63
     \<and> bl_approved s = bl_replied s"

text \<open>\<open>R\<close> are the requests not yet answered.\<close>

definition sys_inv :: "(nat \<rightharpoonup> parked) \<Rightarrow> nat list \<Rightarrow> bworld \<Rightarrow> bool" where
  "sys_inv P R w \<longleftrightarrow> accounted (grant P w) w \<and> distinct R \<and> (\<forall>b \<in> set R. P b \<noteq> None)
     \<and> (\<forall>b m k. P b = Some (m, k) \<longrightarrow> (\<exists>s. get_bl w b = Inr s \<and> parked_ok m s \<and> (b \<in> set R \<longleftrightarrow> \<not> bl_replied s)))"

definition pending_reqs :: "bworld \<Rightarrow> nat list" where
  "pending_reqs w = queue_reqs (bs_queue (bw_sys w)) @ bs_waiting (bw_sys w)"

lemma sys_inv_perm: "sys_inv P R w \<Longrightarrow> set R' = set R \<Longrightarrow> distinct R' \<Longrightarrow> sys_inv P R' w"
  unfolding sys_inv_def by simp

lemma sys_inv_parked:
  "sys_inv P R w \<Longrightarrow> P b = Some (m, k) \<Longrightarrow> \<exists>s. get_bl w b = Inr s \<and> parked_ok m s \<and> (b \<in> set R \<longleftrightarrow> \<not> bl_replied s)"
  unfolding sys_inv_def by blast

lemma sys_inv_frame:
  assumes "sys_inv P R w" "\<And>c. P c \<noteq> None \<Longrightarrow> get_bl w' c = get_bl w c" "accounted (grant P w) w'"
  shows "sys_inv P R w'"
proof -
  have "grant P w' = grant P w" using assms(2) by (auto simp: grant_def fun_eq_iff)
  then show ?thesis using assms unfolding sys_inv_def by auto
qed

lemma sys_inv_accounted: "sys_inv P R w \<Longrightarrow> accounted (grant P w) w"
  by (simp add: sys_inv_def)

lemma grant_free [simp]: "P b = None \<Longrightarrow> grant P w b = 0"
  by (simp add: grant_def)

lemma sys_inv_keeps:
  assumes "sys_inv P R w" "keeps b w w'" "P b = None" "accounted (grant P w) w'"
  shows "sys_inv P R w'"
proof (rule sys_inv_frame[OF assms(1) _ assms(4)])
  fix c assume "P c \<noteq> None"
  then have "c \<noteq> b" using assms(3) by auto
  then show "get_bl w' c = get_bl w c" using assms(2) by (simp add: keeps_def)
qed

text \<open>An operation of a blob nobody waits for may change all but its place and size.\<close>

lemma sys_inv_put:
  assumes "sys_inv P R w" "P b = None" "get_bl w b = Inr s" "bl_is_in_file s' = bl_is_in_file s" "bl_alloc_size s' = bl_alloc_size s"
  shows "sys_inv P R (put_bl b s' w)"
proof (rule sys_inv_frame[OF assms(1)])
  show "accounted (grant P w) (put_bl b s' w)" by (rule accounted_put[OF sys_inv_accounted[OF assms(1)] assms(3-5)])
  fix c assume "P c \<noteq> None"
  then have "c \<noteq> b" using assms(2) by auto
  then show "get_bl (put_bl b s' w) c = get_bl w c" by simp
qed

lemma locked_unparked: "sys_inv P R w \<Longrightarrow> get_bl w b = Inr s \<Longrightarrow> \<not> bl_locked s \<Longrightarrow> P b = None"
  using sys_inv_parked by (cases "P b") (fastforce simp: parked_ok_def)+

text \<open>The part of the state that an operation on \<open>b\<close> leaves alone when it may change the caller's state.\<close>

definition others_keep :: "nat \<Rightarrow> bworld \<Rightarrow> bworld \<Rightarrow> bool" where
  "others_keep b w w' \<longleftrightarrow> sys_same w w' \<and> (\<forall>c. c \<noteq> b \<longrightarrow> get_bl w' c = get_bl w c)"

lemma others_keep_simps [simp]:
  "others_keep b w w" "others_keep b w (put_bl b s w') = others_keep b w w'"
  by (simp_all add: others_keep_def sys_same_def)

lemma others_keep_trans: "others_keep b w w1 \<Longrightarrow> others_keep b w1 w2 \<Longrightarrow> others_keep b w w2"
  unfolding others_keep_def sys_same_def by (auto intro: same_limits_trans)

lemma keeps_others: "keeps b w w' \<Longrightarrow> others_keep b w w'"
  by (simp add: keeps_def others_keep_def)

lemma alloc_granted_inv:
  assumes "sys_inv P R w" "P b = None" "get_bl w b = Inr s" "0 \<le> n" "n < 2 ^ 62" "z_blob_alloc w b n = Inr (w', Granted)"
  shows "sys_inv P R w' \<and> others_keep b w w' \<and> (\<exists>s'. get_bl w' b = Inr s' \<and> bl_locked s' = bl_locked s)"
proof -
  obtain m where m: "alloc_target s n = Inr m" "n \<le> m" "m < 2 * n \<or> m = n" using alloc_target_bounds[OF assms(4,5)] by blast
  let ?s = "s\<lparr>bl_alloc_req := m - bl_alloc_size s\<rparr>"
  let ?w = "put_bl b ?s w"
  show ?thesis
  proof (cases "m = bl_alloc_size s")
    case True
    then show ?thesis using assms m by (simp add: z_blob_alloc_def)
  next
    case False
    then obtain w1 where w1: "z_blob_check_alloc ?w b = Inr (w1, True)" "alloc_apply w1 b m = Inr w'"
      using assms(3,6) m by (auto simp: z_blob_alloc_def rbind_eq_Inr split: if_splits)
    have i: "sys_inv P R ?w" "get_bl ?w b = Inr ?s" using sys_inv_put[OF assms(1-3)] assms(3) by (simp_all add: get_put_bl)
    note acc = sys_inv_accounted[OF i(1)]
    have g0: "grant P ?w b = 0" using assms(2) by simp
    have a0: "0 \<le> bl_alloc_size s" using used_bounds[OF acc i(2)] by simp
    obtain s1 where s1: "accounted ((grant P ?w)(b := m - bl_alloc_size s)) w1" "keeps b ?w w1" "get_bl w1 b = Inr s1"
      "bl_alloc_size s1 = bl_alloc_size s"
      using check_alloc_accounted[OF acc i(2) g0 w1(1)] m a0 assms(4,5) by auto
    have "accounted ((grant P ?w)(b := 0)) w'" and k: "keeps b w1 w'"
      using alloc_apply_accounted[OF s1(1,3) _ w1(2)] s1(4) m assms(4) by auto
    moreover have "(grant P ?w)(b := 0) = grant P ?w" using g0 by auto
    ultimately have "sys_inv P R w'" using sys_inv_keeps[OF i(1) keeps_trans[OF s1(2) k] assms(2)] by simp
    moreover have "keeps b ?w w'" by (rule keeps_trans[OF s1(2) k])
    ultimately show ?thesis using i(2) others_keep_trans[of b w ?w] keeps_others by (fastforce simp: keeps_def book_def)
  qed
qed

lemma alloc_waits_inv:
  assumes "sys_inv P R w" "P b = None" "get_bl w b = Inr s" "0 \<le> n" "n < 2 ^ 62" "z_blob_alloc w b n = Inr (w', Waits m')" "bl_locked s"
  shows "sys_inv (P(b \<mapsto> (m', k))) (b # R) w' \<and> bs_waiting (bw_sys w') = bs_waiting (bw_sys w)
    \<and> queue_reqs (bs_queue (bw_sys w')) = queue_reqs (bs_queue (bw_sys w)) @ [b]"
proof -
  obtain m where m: "alloc_target s n = Inr m" "n \<le> m" "m < 2 * n \<or> m = n" using alloc_target_bounds[OF assms(4,5)] by blast
  let ?s = "s\<lparr>bl_alloc_req := m - bl_alloc_size s\<rparr>"
  let ?w = "put_bl b ?s w"
  obtain w1 s1 where w1: "z_blob_check_alloc ?w b = Inr (w1, False)" "get_bl w1 b = Inr s1" "m' = m" "m \<noteq> bl_alloc_size s"
    "w' = push_req (Request b) (put_bl b (s1\<lparr>bl_approved := False, bl_replied := False\<rparr>) w1)"
    using assms(3,6) m by (auto simp: z_blob_alloc_def rbind_eq_Inr split: if_splits)
  have i: "sys_inv P R ?w" "get_bl ?w b = Inr ?s" using sys_inv_put[OF assms(1-3)] assms(3) by (simp_all add: get_put_bl)
  note acc = sys_inv_accounted[OF i(1)]
  have g0: "grant P ?w b = 0" "(grant P ?w)(b := 0) = grant P ?w" using assms(2) by auto
  have a0: "0 \<le> bl_alloc_size s" using used_bounds[OF acc i(2)] by simp
  have s1: "accounted (grant P ?w) w1" "keeps b ?w w1" "bl_alloc_size s1 = bl_alloc_size s" "\<not> m < bl_alloc_size s"
    using check_alloc_accounted[OF acc i(2) g0(1) w1(1)] m a0 assms(4,5) w1(2) g0(2) by auto
  have bk: "bl_locked s1" "bl_alloc_req s1 = m - bl_alloc_size s"
    using s1(2) i(2) w1(2) assms(7) by (auto simp: keeps_def book_def)
  let ?s1 = "s1\<lparr>bl_approved := False, bl_replied := False\<rparr>"
  have i1: "sys_inv P R (put_bl b ?s1 w1)"
    using sys_inv_put[OF sys_inv_keeps[OF i(1) s1(2) assms(2) s1(1)] assms(2) w1(2)] by simp
  have b': "get_bl w' b = Inr ?s1" "\<And>c. get_bl w' c = get_bl (put_bl b ?s1 w1) c" using w1(2,5) by (simp_all add: get_put_bl)
  have ok: "parked_ok m ?s1" using bk s1(3,4) w1(4) m assms(5) by (auto simp: parked_ok_def)
  have gr: "grant (P(b \<mapsto> (m', k))) w' = grant P (put_bl b ?s1 w1)"
    using b' assms(2) by (auto simp: grant_def fun_eq_iff)
  have "accounted (grant P (put_bl b ?s1 w1)) w'" using sys_inv_accounted[OF i1] w1(5) by simp
  moreover have "b \<notin> set R" using i1 assms(2) by (auto simp: sys_inv_def)
  ultimately have "sys_inv (P(b \<mapsto> (m', k))) (b # R) w'"
    unfolding sys_inv_def gr
  proof (intro conjI allI impI)
    fix c n j assume c: "(P(b \<mapsto> (m', k))) c = Some (n, j)"
    show "\<exists>s. get_bl w' c = Inr s \<and> parked_ok n s \<and> (c \<in> set (b # R)) = (\<not> bl_replied s)"
      using c sys_inv_parked[OF i1, of c n j] b' ok w1(3) by (cases "c = b") auto
  qed (use i1 in \<open>auto simp: sys_inv_def\<close>)
  moreover have "others_keep b w w1" using others_keep_trans[of b w ?w w1] keeps_others[OF s1(2)] by simp
  ultimately show ?thesis using w1(5) by (simp add: others_keep_def sys_same_def)
qed

subsection \<open>The messages of the management thread\<close>

lemma sys_same_refl [simp]: "sys_same w w"
  by (simp add: sys_same_def)

lemma sys_same_trans: "sys_same w w1 \<Longrightarrow> sys_same w1 w2 \<Longrightarrow> sys_same w w2"
  unfolding sys_same_def by (auto intro: same_limits_trans)

lemma sys_same_put [simp]: "sys_same w (put_bl b s w') = sys_same w w'"
  by (simp add: sys_same_def)

text \<open>A request that is examined again: granted, it leaves the list and the caller may go on.\<close>

lemma recheck_inv:
  assumes "sys_inv P (b # R) w" "recheck w b = Inr (w1, ok)"
  shows "sys_same w w1" and "\<not> ok \<Longrightarrow> sys_inv P (b # R) w1"
    and "ok \<Longrightarrow> z_blob_signal_ready w1 b = Inr w2 \<Longrightarrow> sys_inv P R w2 \<and> sys_same w w2"
proof -
  obtain m k where pb: "P b = Some (m, k)" using assms(1) by (auto simp: sys_inv_def)
  obtain s where s: "get_bl w b = Inr s" "parked_ok m s" "\<not> bl_replied s" using sys_inv_parked[OF assms(1) pb] by auto
  note acc = sys_inv_accounted[OF assms(1)]
  have g0: "grant P w b = 0" using s by (simp add: grant_def)
  have rq: "0 \<le> bl_alloc_size s + bl_alloc_req s" "bl_alloc_req s < 2 ^ 63"
    using s(2) used_bounds[OF acc s(1)] unfolding parked_ok_def by linarith+
  obtain w0 s0 where w0: "z_blob_check_alloc w b = Inr (w0, ok)" "get_bl w0 b = Inr s0" "w1 = put_bl b (s0\<lparr>bl_approved := ok\<rparr>) w0"
    using assms(2) by (auto simp: recheck_def rbind_eq_Inr)
  let ?g = "(grant P w)(b := if ok then bl_alloc_req s else 0)"
  have c: "accounted ?g w0" "keeps b w w0" "bl_alloc_size s0 = bl_alloc_size s"
    using check_alloc_accounted[OF acc s(1) g0 w0(1) rq] w0(2) by auto
  have bk: "book s0 = book s" using c(2) s(1) w0(2) by (auto simp: keeps_def)
  show same: "sys_same w w1" using c(2) w0(3) by (simp add: keeps_def)
  have fr: "sys_inv P R' w'" if w': "w' = put_bl b s' w0" "bl_is_in_file s' = bl_is_in_file s0" "bl_alloc_size s' = bl_alloc_size s0"
    and s': "bl_locked s'" "bl_alloc_req s' = bl_alloc_req s" "bl_approved s' = ok" "bl_replied s' = ok"
    and R': "R' = (if ok then R else b # R)" for s' w' R'
  proof -
    have o: "get_bl w' c = (if c = b then Inr s' else get_bl w c)" for c using c(2) w0(2) w'(1) by (simp add: get_put_bl keeps_def)
    have "grant P w' = ?g" using pb s'(2,4) o by (auto simp: grant_def fun_eq_iff)
    then have "accounted (grant P w') w'" using accounted_put[OF c(1) w0(2) w'(2,3)] w'(1) by simp
    moreover have "parked_ok m s'" using s(2) s' w'(3) c(3) by (simp add: parked_ok_def)
    moreover have "distinct (b # R)" "\<forall>b\<in>set (b # R). P b \<noteq> None" using assms(1) by (simp_all add: sys_inv_def)
    ultimately show ?thesis unfolding sys_inv_def
    proof (intro conjI allI impI)
      fix c n j assume pc: "P c = Some (n, j)"
      show "\<exists>s. get_bl w' c = Inr s \<and> parked_ok n s \<and> (c \<in> set R') = (\<not> bl_replied s)"
        using sys_inv_parked[OF assms(1) pc] pc pb o \<open>parked_ok m s'\<close> \<open>distinct (b # R)\<close> s'(4) R' by (cases "c = b") auto
    qed (use R' in auto)
  qed
  have b0: "bl_locked s0" "bl_alloc_req s0 = bl_alloc_req s" "\<not> bl_replied s0" using bk s(2,3) by (simp_all add: book_def parked_ok_def)
  show "sys_inv P (b # R) w1" if "\<not> ok" using that b0 fr[OF w0(3), of "b # R"] by simp
  show "sys_inv P R w2 \<and> sys_same w w2" if "ok" "z_blob_signal_ready w1 b = Inr w2"
  proof -
    have w2: "w2 = put_bl b (s0\<lparr>bl_approved := True, bl_replied := True\<rparr>) w0"
      using that w0(2,3) by (auto simp: z_blob_signal_ready_def get_put_bl)
    then show ?thesis using that(1) b0 same w0(3) fr[OF w2, of R] by simp
  qed
qed

lemma serve_waiting_inv:
  assumes "sys_inv P (bs @ R) w" "serve_waiting w bs = Inr (w', left)"
  shows "sys_inv P (left @ R) w' \<and> sys_same w w'"
  using assms
proof (induction bs arbitrary: w w' left R)
  case (Cons b bs)
  have i: "sys_inv P (b # bs @ R) w" using Cons(2) by simp
  obtain w1 ok w2 l where w1: "recheck w b = Inr (w1, ok)" "(if ok then z_blob_signal_ready w1 b else Inr w1) = Inr w2"
    "serve_waiting w2 bs = Inr (w', l)" "left = (if ok then l else b # l)"
    using Cons(3) by (auto simp: rbind_eq_Inr)
  note r = recheck_inv[OF i w1(1)]
  show ?case
  proof (cases ok)
    case True
    then have "sys_inv P (bs @ R) w2 \<and> sys_same w w2" using r(3) w1(2) by simp
    then have "sys_inv P (bs @ R) w2" "sys_same w w2" by simp_all
    then show ?thesis using Cons(1)[OF _ w1(3)] True w1(4) sys_same_trans[of w w2 w'] by simp
  next
    case False
    then have i2: "sys_inv P (b # bs @ R) w2" and e2: "sys_same w w2" using r(1,2) w1(2) by simp_all
    have "sys_inv P (bs @ b # R) w2" by (rule sys_inv_perm[OF i2]) (use i2 in \<open>auto simp: sys_inv_def\<close>)
    then have i3: "sys_inv P (l @ b # R) w'" and e3: "sys_same w2 w'" using Cons(1)[OF _ w1(3)] by blast+
    have "sys_inv P (b # l @ R) w'" by (rule sys_inv_perm[OF i3]) (use i3 in \<open>auto simp: sys_inv_def\<close>)
    then show ?thesis using False w1(4) sys_same_trans[OF e2 e3] by simp
  qed
qed simp

lemma swap_in_one_inv:
  assumes "sys_inv P R w" "get_bl w b = Inr s" "swappable (swap_space w) s" "swap_in_one w b = Inr w'"
  shows "sys_inv P R w' \<and> sys_same w w'"
proof -
  have pb: "P b = None" using locked_unparked[OF assms(1,2)] assms(3) by (simp add: swappable_def)
  have f: "bl_is_in_file s" "bl_alloc_size s \<le> swap_space w" using assms(3) by (simp_all add: swappable_def)
  obtain io s1 where w': "w' = mem_add (bl_alloc_size s) (disk_add (- bl_alloc_size s) (put_bl b s1 (w\<lparr>bw_io := io\<rparr>)))"
    "\<not> bl_is_in_file s1" "bl_alloc_size s1 = bl_alloc_size s" "book s1 = book s"
    using assms(2,4) by (auto simp: swap_in_one_def rbind_eq_Inr touch_def Let_def book_def)
  let ?w = "w\<lparr>bw_io := io\<rparr>"
  have a: "accounted (grant P w) ?w" "get_bl ?w b = Inr s" using sys_inv_accounted[OF assms(1)] assms(2) by simp_all
  note ub = used_bounds[OF a]
  have hi: "bs_hiwat (bw_sys w) \<le> bs_mem_max (bw_sys w)" using a(1) by (simp add: accounted_def)
  have "int (bs_mem_used (bw_sys w)) + bl_alloc_size s \<le> int (bs_mem_max (bw_sys w))"
  proof (cases "bs_mem_used (bw_sys w) \<le> bs_hiwat (bw_sys w)")
    case True
    then have "swap_space w = int (bs_hiwat (bw_sys w)) - int (bs_mem_used (bw_sys w))"
      using hi ub(1,2) by (simp add: swap_space_def subz_le size_to_ssize_small)
    then show ?thesis using f(2) hi by simp
  next
    case False
    then have "subz (bs_hiwat (bw_sys w)) (bs_mem_used (bw_sys w)) = bs_hiwat (bw_sys w) + size_limit - bs_mem_used (bw_sys w)"
      using ub(1,2) by (intro subz_wraps) simp_all
    then have "swap_space w < 0" using False hi ub(1,2) by (simp add: swap_space_def size_to_ssize_def)
    then show ?thesis using f(2) ub(3) by simp
  qed
  then have "accounted (grant P w) w'" unfolding w'(1)
    by (intro accounted_move[OF a]) (use f(1) pb w'(2,3) ub in simp_all)
  moreover have "keeps b w w'" using keeps_trans[of b w ?w] keeps_put[OF a(2) w'(4)] w'(1) by simp
  ultimately show ?thesis using sys_inv_keeps[OF assms(1) _ pb] by (simp add: keeps_def)
qed

lemma swap_in_inv:
  assumes "sys_inv P R w" "z_blob_system_swap_in w = Inr w'"
  shows "sys_inv P R w' \<and> sys_same w w'"
proof -
  have "sys_inv P R w' \<and> sys_same w w'" if "sys_inv P R w" "swap_in_loop w = Inr w'" for w w'
    using that
  proof (induction w rule: swap_in_loop.induct)
    case (1 w)
    obtain best where best: "best_blob w (swap_space w) (bs_blobs (bw_sys w)) None = Inr best"
      using 1(3) by (subst (asm) swap_in_loop.simps) (auto simp: rbind_eq_Inr)
    show ?case
    proof (cases best)
      case None
      then show ?thesis using 1(2,3) best by (subst (asm) (1) swap_in_loop.simps) simp
    next
      case (Some p)
      obtain f b where p: "p = (f, b)" by (cases p)
      obtain w1 where w1: "swap_in_one w b = Inr w1" "swap_in_loop w1 = Inr w'"
        using 1(3) best Some p by (subst (asm) swap_in_loop.simps) (auto simp: rbind_eq_Inr)
      obtain s where s: "get_bl w b = Inr s" "swappable (swap_space w) s"
        using best_blob_swappable[of w "swap_space w" "bs_blobs (bw_sys w)" None f b] best Some p by auto
      from swap_in_one_inv[OF 1(2) s w1(1)] have i: "sys_inv P R w1" "sys_same w w1" by simp_all
      show ?thesis using 1(1)[OF best Some p[symmetric] w1(1) i(1) w1(2)] sys_same_trans[OF i(2)] by simp
    qed
  qed
  then show ?thesis using assms by (auto simp: z_blob_system_swap_in_def split: if_splits)
qed

definition acct_fields :: "blob_system \<Rightarrow> nat \<times> nat \<times> nat \<times> nat" where
  "acct_fields y = (bs_mem_used y, bs_disk_used y, bs_mem_max y, bs_hiwat y)"

lemma accounted_upd: "acct_fields (f (bw_sys w)) = acct_fields (bw_sys w) \<Longrightarrow> accounted g (upd_sys f w) = accounted g w"
  by (simp add: accounted_def mem_sum_def disk_sum_def mem_share_def disk_share_def acct_fields_def) (simp add: upd_sys_def)

lemma grant_upd [simp]: "grant P (upd_sys f w) = grant P w"
  by (simp add: grant_def fun_eq_iff)

lemma sys_inv_upd: "acct_fields (f (bw_sys w)) = acct_fields (bw_sys w) \<Longrightarrow> sys_inv P R (upd_sys f w) = sys_inv P R w"
  using accounted_upd[of f w] grant_upd[of P f w] by (simp add: sys_inv_def)

lemma thread_inv:
  assumes "sys_inv P (pending_reqs w) w" "z_blob_system_threadproc w = Inr (Some (w', c))"
  shows "sys_inv P (pending_reqs w') w'"
proof -
  obtain r rs where q: "bs_queue (bw_sys w) = r # rs"
    using assms(2) by (cases "bs_queue (bw_sys w)") (auto simp: z_blob_system_threadproc_def)
  let ?w = "upd_sys (\<lambda>s. s\<lparr>bs_queue := rs\<rparr>) w"
  have i: "sys_inv P (pending_reqs w) ?w" using assms(1) sys_inv_upd[of "\<lambda>s. s\<lparr>bs_queue := rs\<rparr>" w] by (simp add: acct_fields_def)
  have pq: "pending_reqs ?w = queue_reqs rs @ bs_waiting (bw_sys w)" "bs_waiting (bw_sys ?w) = bs_waiting (bw_sys w)"
    "bs_queue (bw_sys ?w) = rs" by (simp_all add: pending_reqs_def upd_sys_def)
  show ?thesis
  proof (cases r)
    case Thread_kill
    then show ?thesis using assms(2) i q pq by (auto simp: z_blob_system_threadproc_def pending_reqs_def)
  next
    case Mem_freed
    let ?W = "\<lambda>left. upd_sys (\<lambda>s. s\<lparr>bs_waiting := left\<rparr>)"
    obtain w2 left where w2: "serve_waiting ?w (bs_waiting (bw_sys w)) = Inr (w2, left)" "z_blob_system_swap_in (?W left w2) = Inr w'"
      using assms(2) q Mem_freed pq(2) by (auto simp: z_blob_system_threadproc_def rbind_eq_Inr)
    have "sys_inv P (bs_waiting (bw_sys w) @ queue_reqs rs) ?w"
      by (rule sys_inv_perm[OF i]) (use i q Mem_freed in \<open>auto simp: pending_reqs_def sys_inv_def\<close>)
    from serve_waiting_inv[OF this w2(1)] have s2: "sys_inv P (left @ queue_reqs rs) w2" "sys_same ?w w2" by simp_all
    have "sys_inv P (left @ queue_reqs rs) (?W left w2)"
      using s2(1) sys_inv_upd[of "\<lambda>s. s\<lparr>bs_waiting := left\<rparr>" w2] by (simp add: acct_fields_def)
    from swap_in_inv[OF this w2(2)] have s3: "sys_inv P (left @ queue_reqs rs) w'" "sys_same (?W left w2) w'" by simp_all
    have "pending_reqs w' = queue_reqs rs @ left"
      using s2(2) s3(2) pq(3) by (simp add: pending_reqs_def sys_same_def upd_sys_def)
    moreover have "distinct (left @ queue_reqs rs)" using s3(1) by (simp add: sys_inv_def)
    ultimately show ?thesis using sys_inv_perm[OF s3(1), of "queue_reqs rs @ left"] by auto
  next
    case (Request b)
    have pr: "pending_reqs w = b # queue_reqs rs @ bs_waiting (bw_sys w)" using q Request by (simp add: pending_reqs_def)
    obtain w2 ok where w2: "recheck ?w b = Inr (w2, ok)"
      "if ok then z_blob_signal_ready w2 b = Inr w' else w' = upd_sys (\<lambda>s. s\<lparr>bs_waiting := bs_waiting s @ [b]\<rparr>) w2"
      using assms(2) q Request by (auto simp: z_blob_system_threadproc_def rbind_eq_Inr split: if_splits)
    note r = recheck_inv[OF i[unfolded pr] w2(1)]
    have sw: "pending_reqs w3 = queue_reqs rs @ bs_waiting (bw_sys w)" "bs_waiting (bw_sys w3) = bs_waiting (bw_sys w)"
      "queue_reqs (bs_queue (bw_sys w3)) = queue_reqs rs" if "sys_same ?w w3" for w3
      using that pq by (simp_all add: pending_reqs_def sys_same_def)
    show ?thesis
    proof (cases ok)
      case True
      then have "sys_inv P (queue_reqs rs @ bs_waiting (bw_sys w)) w'" "sys_same ?w w'" using r(3) w2(2) by simp_all
      then show ?thesis using sw(1) by simp
    next
      case False
      let ?f = "\<lambda>s. s\<lparr>bs_waiting := bs_waiting s @ [b]\<rparr>"
      have i2: "sys_inv P (b # queue_reqs rs @ bs_waiting (bw_sys w)) w'"
        using r(2) False w2(2) sys_inv_upd[of ?f w2] by (simp add: acct_fields_def)
      have "pending_reqs w' = queue_reqs rs @ bs_waiting (bw_sys w) @ [b]"
        using w2(2) False sw(2,3)[OF r(1)] by (simp add: pending_reqs_def upd_sys_def)
      moreover have "distinct (b # queue_reqs rs @ bs_waiting (bw_sys w))" using i2 by (simp add: sys_inv_def)
      ultimately show ?thesis using sys_inv_perm[OF i2, of "queue_reqs rs @ bs_waiting (bw_sys w) @ [b]"] by auto
    qed
  qed
qed

subsection \<open>The interleaving\<close>

text \<open>
  The steps of a program that uses blobs, one operation, one message of the thread, or the return of one
  waiting caller at a time; the time and the outcomes of the system calls may change in between. The
  creation of a blob is a step when its first allocation need not wait. \<open>z_blob_release_file\<close> is one when
  the user of the file left its size alone.
\<close>

inductive blob_step :: "bworld \<times> (nat \<rightharpoonup> parked) \<Rightarrow> bworld \<times> (nat \<rightharpoonup> parked) \<Rightarrow> bool" where
  env: "blob_step (w, P) (w\<lparr>bw_io := io, bw_now := t\<rparr>, P)"
| create: "z_blob_new w ok n = Inr (w', r, Granted) \<Longrightarrow> n < 2 ^ 62 \<Longrightarrow> blob_step (w, P) (w', P)"
| reference: "z_blob_ref w b = Inr w' \<Longrightarrow> blob_step (w, P) (w', P)"
| unref: "z_blob_unref w b = Inr w' \<Longrightarrow> P b = None \<Longrightarrow> blob_step (w, P) (w', P)"
| add: "z_blob_add_copy w b pos d t = Inr (w', Done n) \<Longrightarrow> pos + int (length d) < 2 ^ 62 \<Longrightarrow> blob_step (w, P) (w', P)"
| add_parks: "z_blob_add_copy w b pos d t = Inr (w', Parked m) \<Longrightarrow> pos + int (length d) < 2 ^ 62 \<Longrightarrow>
    blob_step (w, P) (w', P(b \<mapsto> (m, Some (pos, d))))"
| add_woken: "P b = Some (m, Some (pos, d)) \<Longrightarrow> get_bl w b = Inr s \<Longrightarrow> bl_replied s \<Longrightarrow>
    add_copy_woken w b m pos d = Inr (w', n) \<Longrightarrow> blob_step (w, P) (w', P(b := None))"
| trunc: "z_blob_truncate w b pos t = Inr (w', Done r) \<Longrightarrow> pos < 2 ^ 62 \<Longrightarrow> blob_step (w, P) (w', P)"
| trunc_parks: "z_blob_truncate w b pos t = Inr (w', Parked m) \<Longrightarrow> pos < 2 ^ 62 \<Longrightarrow> blob_step (w, P) (w', P(b \<mapsto> (m, None)))"
| trunc_woken: "P b = Some (m, None) \<Longrightarrow> get_bl w b = Inr s \<Longrightarrow> bl_replied s \<Longrightarrow>
    truncate_woken w b m = Inr (w', r) \<Longrightarrow> blob_step (w, P) (w', P(b := None))"
| read_copy: "z_blob_get_copy w b pos buf t = Inr (w', n, buf') \<Longrightarrow> blob_step (w, P) (w', P)"
| get_ptr: "z_blob_get_ptr w b pos k mm t = Inr (w', p) \<Longrightarrow> blob_step (w, P) (w', P)"
| free_ptr: "z_blob_free_ptr w b p = Inr w' \<Longrightarrow> P b = None \<Longrightarrow> blob_step (w, P) (w', P)"
| get_file: "z_blob_get_file w b own t = Inr (w', ok) \<Longrightarrow> blob_step (w, P) (w', P)"
| release: "z_blob_release_file w b fl = Inr w' \<Longrightarrow> P b = None \<Longrightarrow> get_bl w b = Inr s \<Longrightarrow>
    int (length fl) = bl_alloc_size s \<Longrightarrow> blob_step (w, P) (w', P)"
| storage: "z_blob_storage_lock w b st = Inr w' \<Longrightarrow> blob_step (w, P) (w', P)"
| thread: "z_blob_system_threadproc w = Inr (Some (w', c)) \<Longrightarrow> blob_step (w, P) (w', P)"

abbreviation good :: "(nat \<rightharpoonup> parked) \<Rightarrow> bworld \<Rightarrow> bool" where
  "good P w \<equiv> sys_inv P (pending_reqs w) w"

text \<open>Changes that keep the place, the size and, where a caller waits, its state.\<close>

lemma sys_inv_put':
  assumes "sys_inv P R w" "get_bl w b = Inr s" "bl_is_in_file s' = bl_is_in_file s" "bl_alloc_size s' = bl_alloc_size s" "book s' = book s"
  shows "sys_inv P R (put_bl b s' w)"
proof -
  let ?w = "put_bl b s' w"
  have g: "grant P ?w = grant P w" using assms(2,5) by (auto simp: grant_def fun_eq_iff get_put_bl book_def)
  have "accounted (grant P w) ?w" by (rule accounted_put[OF sys_inv_accounted[OF assms(1)] assms(2-4)])
  moreover have "\<exists>s. get_bl ?w c = Inr s \<and> parked_ok n s \<and> (c \<in> set R) = (\<not> bl_replied s)" if "P c = Some (n, j)" for c n j
    using sys_inv_parked[OF assms(1) that] assms(2-5) by (cases "c = b") (auto simp: get_put_bl parked_ok_def book_def)
  ultimately show ?thesis using assms(1) unfolding sys_inv_def g by auto
qed

lemma pending_put [simp]: "pending_reqs (put_bl b s w) = pending_reqs w"
  by (simp add: pending_reqs_def)

lemma pending_same: "sys_same w w' \<Longrightarrow> pending_reqs w' = pending_reqs w"
  by (simp add: pending_reqs_def sys_same_def)

lemma unlock_inv: "good P w \<Longrightarrow> P b = None \<Longrightarrow> z_blob_unlock w b = Inr w' \<Longrightarrow> good P w'"
  by (auto simp: z_blob_unlock_def rbind_eq_Inr sys_inv_put)

lemma get_bl_now [simp]: "get_bl (w\<lparr>bw_now := t\<rparr>) b = get_bl w b"
  by (simp add: get_bl_def)

lemma grant_env [simp]: "grant P (w\<lparr>bw_io := io\<rparr>) = grant P w" "grant P (w\<lparr>bw_now := t\<rparr>) = grant P w"
  by (simp_all add: grant_def fun_eq_iff)

lemma good_env [simp]: "good P (w\<lparr>bw_io := io\<rparr>) = good P w" "good P (w\<lparr>bw_now := t\<rparr>) = good P w"
  by (simp_all add: sys_inv_def pending_reqs_def accounted_def mem_sum_def disk_sum_def mem_share_def disk_share_def)

lemma add_copy_rest_inv:
  assumes "good P w" "P b = None" "add_copy_rest w b pos d = Inr (w', n)"
  shows "good P w'"
proof -
  obtain s where s: "get_bl w b = Inr s" using assms(3) by (auto simp: add_copy_rest_def rbind_eq_Inr)
  obtain io s1 where s1: "w' = put_bl b s1 (w\<lparr>bw_io := io\<rparr>)" "bl_is_in_file s1 = bl_is_in_file s" "bl_alloc_size s1 = bl_alloc_size s"
  proof (cases "bl_is_in_file s")
    case True
    then show ?thesis using assms(3) s that
      by (auto simp: add_copy_rest_def rbind_eq_Inr z_blob_unlock_def get_put_bl touch_def Let_def)
  next
    case False
    then have "\<exists>s1. w' = put_bl b s1 w \<and> bl_is_in_file s1 = bl_is_in_file s \<and> bl_alloc_size s1 = bl_alloc_size s"
      using assms(3) s by (auto simp: add_copy_rest_def rbind_eq_Inr z_blob_unlock_def get_put_bl touch_def Let_def split: if_splits)
    then show ?thesis using that[of _ "bw_io w"] by auto
  qed
  let ?w = "w\<lparr>bw_io := io\<rparr>"
  have "good P ?w" using assms(1) by simp
  from sys_inv_put[OF this assms(2), of s s1] s s1 show ?thesis by simp
qed

lemma lock_inv:
  assumes "good P w" "z_blob_lock w b t = Inr (w', True)"
  shows "good P w' \<and> P b = None \<and> (\<exists>s. get_bl w' b = Inr s \<and> bl_locked s)"
proof -
  obtain s where s: "get_bl w b = Inr s" "\<not> bl_locked s" "w' = put_bl b (s\<lparr>bl_locked := True\<rparr>) w"
    using assms(2) by (auto simp: z_blob_lock_def rbind_eq_Inr split: if_splits)
  then have "P b = None" using locked_unparked[OF assms(1)] by blast
  then show ?thesis using s sys_inv_put[OF assms(1)] by (simp add: get_put_bl)
qed

lemma lock_failed: "z_blob_lock w b t = Inr (w', False) \<Longrightarrow> w' = w"
  by (auto simp: z_blob_lock_def rbind_eq_Inr split: if_splits)

lemma alloc_step:
  assumes "good P w" "P b = None" "get_bl w b = Inr s" "bl_locked s" "0 \<le> n" "n < 2 ^ 62" "z_blob_alloc w b n = Inr (w', st)"
  shows "st = Granted \<Longrightarrow> good P w'" and "st = Waits m \<Longrightarrow> good (P(b \<mapsto> (m, k))) w'"
proof -
  show "good P w'" if "st = Granted"
    using alloc_granted_inv[OF assms(1-3,5,6)] assms(7) that pending_same by (auto simp: others_keep_def)
  show "good (P(b \<mapsto> (m, k))) w'" if "st = Waits m"
  proof -
    have i: "sys_inv (P(b \<mapsto> (m, k))) (b # pending_reqs w) w'"
      and q: "pending_reqs w' = queue_reqs (bs_queue (bw_sys w)) @ [b] @ bs_waiting (bw_sys w)"
      using alloc_waits_inv[OF assms(1-3,5,6) _ assms(4), of w' m k] assms(7) that by (auto simp: pending_reqs_def)
    have d: "distinct (b # pending_reqs w)" using i by (simp add: sys_inv_def)
    show ?thesis
    proof (rule sys_inv_perm[OF i])
      show "set (pending_reqs w') = set (b # pending_reqs w)" unfolding q by (auto simp: pending_reqs_def)
      show "distinct (pending_reqs w')" unfolding q using d by (auto simp: pending_reqs_def)
    qed
  qed
qed

lemma add_copy_inv:
  assumes "good P w" "pos + int (length d) < 2 ^ 62" "z_blob_add_copy w b pos d t = Inr (w', r)"
  shows "r = Done n \<Longrightarrow> good P w'" and "r = Parked m \<Longrightarrow> good (P(b \<mapsto> (m, k))) w'"
proof -
  have p0: "0 \<le> pos" using assms(3) by (auto simp: z_blob_add_copy_def rbind_eq_Inr g_assert_def split: if_splits)
  obtain w1 ok where l: "z_blob_lock w b t = Inr (w1, ok)" using assms(3) by (auto simp: z_blob_add_copy_def rbind_eq_Inr)
  have res: "(r = Done n \<longrightarrow> good P w') \<and> (r = Parked m \<longrightarrow> good (P(b \<mapsto> (m, k))) w')"
  proof (cases ok)
    case False
    then show ?thesis using assms(1,3) l lock_failed[of w b t w1] p0 by (auto simp: z_blob_add_copy_def g_assert_def)
  next
    case True
    obtain s where i: "good P w1" "P b = None" "get_bl w1 b = Inr s" "bl_locked s" using lock_inv[OF assms(1), of b t w1] l True by auto
    show ?thesis
    proof (cases "bl_alloc_size s < pos + int (length d)")
      case lt: True
      obtain w2 st where a: "z_blob_alloc w1 b (pos + int (length d)) = Inr (w2, st)"
        using assms(3) l True i(3) lt p0 by (auto simp: z_blob_add_copy_def g_assert_def rbind_eq_Inr)
      note st = alloc_step[OF i _ assms(2) a]
      show ?thesis
      proof (cases st)
        case Granted
        then obtain j where "add_copy_rest w2 b pos d = Inr (w', j)" "r = Done j"
          using assms(3) l True i(3) lt p0 a by (auto simp: z_blob_add_copy_def g_assert_def rbind_eq_Inr)
        then show ?thesis using st(1) Granted p0 add_copy_rest_inv[of P w2 b] i(2) by auto
      next
        case (Waits x)
        then have "r = Parked x" "w' = w2"
          using assms(3) l True i(3) lt p0 a by (auto simp: z_blob_add_copy_def g_assert_def rbind_eq_Inr)
        then show ?thesis using st(2) Waits p0 by auto
      qed
    next
      case False
      then obtain j where "add_copy_rest w1 b pos d = Inr (w', j)" "r = Done j"
        using assms(3) l True i(3) p0 by (auto simp: z_blob_add_copy_def g_assert_def rbind_eq_Inr)
      then show ?thesis using add_copy_rest_inv[OF i(1,2)] by auto
    qed
  qed
  then show "r = Done n \<Longrightarrow> good P w'" "r = Parked m \<Longrightarrow> good (P(b \<mapsto> (m, k))) w'" by simp_all
qed

lemma truncate_inv:
  assumes "good P w" "pos < 2 ^ 62" "z_blob_truncate w b pos t = Inr (w', r)"
  shows "r = Done x \<Longrightarrow> good P w'" and "r = Parked m \<Longrightarrow> good (P(b \<mapsto> (m, k))) w'"
proof -
  have p0: "0 \<le> pos" using assms(3) by (auto simp: z_blob_truncate_def rbind_eq_Inr g_assert_def split: if_splits)
  obtain w1 ok where l: "z_blob_lock w b t = Inr (w1, ok)" using assms(3) by (auto simp: z_blob_truncate_def rbind_eq_Inr)
  have res: "(r = Done x \<longrightarrow> good P w') \<and> (r = Parked m \<longrightarrow> good (P(b \<mapsto> (m, k))) w')"
  proof (cases ok)
    case False
    then show ?thesis using assms(1,3) l lock_failed[of w b t w1] p0 by (auto simp: z_blob_truncate_def g_assert_def)
  next
    case True
    obtain s where i: "good P w1" "P b = None" "get_bl w1 b = Inr s" "bl_locked s" using lock_inv[OF assms(1), of b t w1] l True by auto
    obtain w2 st where a: "z_blob_alloc w1 b pos = Inr (w2, st)"
      using assms(3) l True p0 by (auto simp: z_blob_truncate_def g_assert_def rbind_eq_Inr)
    note st = alloc_step[OF i p0 assms(2) a]
    show ?thesis
    proof (cases st)
      case Granted
      then have "z_blob_unlock w2 b = Inr w'" "r = Done True"
        using assms(3) l True p0 a by (auto simp: z_blob_truncate_def g_assert_def rbind_eq_Inr)
      then show ?thesis using st(1) Granted unlock_inv[of P w2 b w'] i(2) by auto
    next
      case (Waits y)
      then have "r = Parked y" "w' = w2" using assms(3) l True p0 a by (auto simp: z_blob_truncate_def g_assert_def rbind_eq_Inr)
      then show ?thesis using st(2) Waits by auto
    qed
  qed
  then show "r = Done x \<Longrightarrow> good P w'" "r = Parked m \<Longrightarrow> good (P(b \<mapsto> (m, k))) w'" by simp_all
qed

text \<open>A caller that was replied to allocates what was granted, and waits no longer.\<close>

lemma woken_inv:
  assumes "good P w" "P b = Some (m, k)" "get_bl w b = Inr s" "bl_replied s" "alloc_woken w b m = Inr w'"
  shows "good (P(b := None)) w'"
proof -
  have s: "parked_ok m s" "b \<notin> set (pending_reqs w)" using sys_inv_parked[OF assms(1,2)] assms(3,4) by auto
  note acc = sys_inv_accounted[OF assms(1)]
  have gb: "grant P w b = m - bl_alloc_size s" using assms(2-4) s(1) by (simp add: grant_def parked_ok_def)
  have ap: "alloc_apply w b m = Inr w'" using assms(3,5) by (auto simp: alloc_woken_def rbind_eq_Inr g_assert_def split: if_splits)
  have m0: "0 \<le> m" using s(1) used_bounds[OF acc assms(3)] by (simp add: parked_ok_def)
  have a: "accounted ((grant P w)(b := 0)) w'" "keeps b w w'" using alloc_apply_accounted[OF acc assms(3) gb ap m0] by simp_all
  have o: "get_bl w' c = get_bl w c" if "c \<noteq> b" for c using a(2) that by (simp add: keeps_def)
  have "grant (P(b := None)) w' = (grant P w)(b := 0)" using o by (auto simp: grant_def fun_eq_iff)
  moreover have "pending_reqs w' = pending_reqs w" using a(2) pending_same by (simp add: keeps_def)
  moreover have "\<exists>s. get_bl w' c = Inr s \<and> parked_ok n s \<and> (c \<in> set (pending_reqs w)) = (\<not> bl_replied s)"
    if "(P(b := None)) c = Some (n, j)" for c n j using that sys_inv_parked[OF assms(1)] o by (cases "c = b") auto
  ultimately show ?thesis using a(1) assms(1) s(2) unfolding sys_inv_def by auto
qed

lemma release_inv:
  assumes "good P w" "P b = None" "z_blob_unref w b = Inr w'"
  shows "good P w'"
proof -
  obtain s n zero where s: "get_bl w b = Inr s" "z_refcount_dec (bl_ref s) = Inr (n, zero)"
    using assms(3) by (auto simp: z_blob_unref_def rbind_eq_Inr)
  show ?thesis
  proof (cases zero)
    case False
    then show ?thesis using assms s sys_inv_put'[OF assms(1) s(1)] by (auto simp: z_blob_unref_def book_def)
  next
    case True
    let ?f = "\<lambda>y. y\<lparr>bs_blobs := remove1 b (bs_blobs y)\<rparr>"
    let ?s = "s\<lparr>bl_ref := n, bl_alloc_req := - bl_alloc_size s\<rparr>"
    let ?w = "upd_sys ?f (put_bl b ?s w)"
    obtain w2 ok where w2: "z_blob_check_alloc ?w b = Inr (w2, ok)" "w' = w2\<lparr>bw_store := (bw_store w2)[b := None]\<rparr>"
      using assms(3) s True by (auto simp: z_blob_unref_def rbind_eq_Inr)
    have "good P (put_bl b ?s w)" using sys_inv_put[OF assms(1,2) s(1)] by simp
    then have i: "sys_inv P (pending_reqs w) ?w" "get_bl ?w b = Inr ?s"
      using s(1) sys_inv_upd[of ?f "put_bl b ?s w"] by (simp_all add: acct_fields_def get_put_bl)
    note acc = sys_inv_accounted[OF i(1)]
    have g0: "grant P ?w b = 0" using assms(2) by simp
    have "0 \<le> bl_alloc_size s" using used_bounds[OF acc i(2)] by simp
    then obtain s2 where c: "accounted ((grant P ?w)(b := - bl_alloc_size s)) w2" "keeps b ?w w2" "get_bl w2 b = Inr s2"
      "bl_alloc_size s2 = bl_alloc_size s"
      using check_alloc_accounted[OF acc i(2) g0 w2(1)] by (cases ok) auto
    have b: "b < length (bw_store w2)" using c(3) by (auto simp: get_bl_Inr dest: slot_Some)
    have o: "get_bl w' x = (if x = b then Inl Bad_access else get_bl ?w x)" for x
      using c(2) b w2(2) by (auto simp: get_bl_def slot_update keeps_def split: option.splits)
    have "accounted (grant P ?w) w'"
    proof (rule accounted_change[OF c(1,3)])
      show "\<And>x. x \<noteq> b \<Longrightarrow> get_bl w' x = get_bl w2 x \<and> grant P ?w x = ((grant P ?w)(b := - bl_alloc_size s)) x"
        using o c(2) by (simp add: keeps_def)
      have sh: "mem_share g w' b = 0" "disk_share g w' b = 0" for g using b w2(2) by (simp_all add: mem_share_def disk_share_def slot_update)
      show "int (bs_disk_used (bw_sys w')) = (int (bs_disk_used (bw_sys w2)) + (disk_share (grant P ?w) w' b -
          disk_share ((grant P ?w)(b := - bl_alloc_size s)) w2 b)) mod 2 ^ 64"
        using sh c(3,4) w2(2) accounted_disk[OF c(1)] by simp
    qed (use o b w2(2) c used_bounds[OF c(1,3)] in \<open>auto simp: mem_share_def slot_update get_bl_Inr\<close>)
    moreover have "grant P ?w = grant P w'" using o assms(2) by (auto simp: grant_def fun_eq_iff)
    moreover have "pending_reqs w' = pending_reqs w" using c(2) w2(2) by (simp add: pending_reqs_def keeps_def sys_same_def upd_sys_def)
    moreover have "get_bl w' x = get_bl ?w x" if "P x \<noteq> None" for x using o[of x] that assms(2) by auto
    ultimately show ?thesis using sys_inv_frame[OF i(1), of w'] by simp
  qed
qed

lemma create_inv:
  assumes "good P w" "n < 2 ^ 62" "z_blob_new w mk n = Inr (w', r, Granted)"
  shows "good P w'"
proof (cases "\<not> bs_active (bw_sys w) \<or> \<not> mk")
  case True
  then show ?thesis using assms(1,3) by (auto simp: z_blob_new_def)
next
  case False
  let ?b = "length (bw_store w)" and ?f = "\<lambda>y. y\<lparr>bs_blobs := bs_blobs y @ [length (bw_store w)]\<rparr>"
  let ?s = "\<lparr>bl_ref = z_refcount_set 0 1, bl_size = 0, bl_alloc_size = 0, bl_is_in_file = False, bl_file = [],
     bl_data = [], bl_locked = False, bl_stat = z_blob_statistic_init (bw_now w), bl_replied = False,
     bl_mapped = None, bl_alloc_req = 0, bl_approved = False, bl_storage_locked = False\<rparr>"
  let ?v = "w\<lparr>bw_store := bw_store w @ [Some ?s]\<rparr>"
  have g: "get_bl ?v c = (if c = ?b then Inr ?s else get_bl w c)" for c
    by (auto simp: get_bl_def slot_def nth_append split: option.splits)
  have pb: "P ?b = None"
  proof (cases "P ?b")
    case (Some p)
    then obtain s where "get_bl w ?b = Inr s" using sys_inv_parked[OF assms(1), of ?b "fst p" "snd p"] by auto
    then show ?thesis by (auto simp: get_bl_Inr dest: slot_Some)
  qed
  have sh: "mem_share (grant P w) ?v c = (if c < ?b then mem_share (grant P w) w c else 0)"
    "disk_share (grant P w) ?v c = (if c < ?b then disk_share (grant P w) w c else 0)" if "c \<le> ?b" for c
    using that pb by (auto simp: mem_share_def disk_share_def slot_def nth_append)
  have "mem_sum (grant P w) ?v = mem_sum (grant P w) w" "disk_sum (grant P w) ?v = disk_sum (grant P w) w"
    unfolding mem_sum_def disk_sum_def using sh by simp_all
  then have "accounted (grant P w) ?v" using sys_inv_accounted[OF assms(1)] g pb unfolding accounted_def by auto
  moreover have "get_bl ?v c = get_bl w c" if "P c \<noteq> None" for c using that pb g by auto
  ultimately have "sys_inv P (pending_reqs w) ?v" using sys_inv_frame[OF assms(1)] by blast
  then have i: "sys_inv P (pending_reqs w) (upd_sys ?f ?v)" using sys_inv_upd[of ?f ?v] by (simp add: acct_fields_def)
  have p: "pending_reqs (upd_sys ?f ?v) = pending_reqs w" by (simp add: pending_reqs_def upd_sys_def)
  show ?thesis
  proof (cases "n > 0")
    case False
    then show ?thesis using assms(3) i p \<open>\<not> (\<not> bs_active (bw_sys w) \<or> \<not> mk)\<close> by (auto simp: z_blob_new_def Let_def)
  next
    case True
    then have a: "z_blob_alloc (upd_sys ?f ?v) ?b (int n) = Inr (w', Granted)"
      using assms(3) False by (auto simp: z_blob_new_def Let_def rbind_eq_Inr)
    have "get_bl (upd_sys ?f ?v) ?b = Inr ?s" using g by simp
    from alloc_granted_inv[OF i pb this _ _ a] assms(2) show ?thesis
      using p pending_same by (auto simp: others_keep_def)
  qed
qed

lemma get_copy_inv:
  assumes "good P w" "z_blob_get_copy w b pos buf t = Inr (w', n, buf')"
  shows "good P w'"
proof -
  obtain s0 where s0: "get_bl w b = Inr s0" "0 \<le> pos" using assms(2) by (auto simp: z_blob_get_copy_def rbind_eq_Inr g_assert_def split: if_splits)
  show ?thesis
  proof (cases "pos < bl_size s0")
    case False
    then show ?thesis using assms s0 by (auto simp: z_blob_get_copy_def)
  next
    case lt: True
    obtain w1 ok where l: "z_blob_lock w b t = Inr (w1, ok)" using assms(2) s0 lt by (auto simp: z_blob_get_copy_def rbind_eq_Inr Let_def)
    show ?thesis
    proof (cases ok)
      case False
      then show ?thesis using assms l lt s0 lock_failed[of w b t w1] by (auto simp: z_blob_get_copy_def Let_def)
    next
      case True
      obtain s where i: "good P w1" "P b = None" "get_bl w1 b = Inr s" using lock_inv[OF assms(1), of b t w1] l True by auto
      obtain io s1 where s1: "z_blob_unlock (put_bl b s1 (w1\<lparr>bw_io := io\<rparr>)) b = Inr w'" "bl_is_in_file s1 = bl_is_in_file s"
        "bl_alloc_size s1 = bl_alloc_size s"
        using assms(2) l lt s0 True i(3) by (auto simp: z_blob_get_copy_def Let_def rbind_eq_Inr touch_def)
      have "good P (w1\<lparr>bw_io := io\<rparr>)" using i(1) by simp
      from sys_inv_put[OF this i(2), of s s1] have "good P (put_bl b s1 (w1\<lparr>bw_io := io\<rparr>))" using i(3) s1(2,3) by simp
      then show ?thesis using unlock_inv[of P _ b w'] i(2) s1(1) by blast
    qed
  qed
qed

lemma get_ptr_inv:
  assumes "good P w" "z_blob_get_ptr w b pos k mm t = Inr (w', p)"
  shows "good P w'"
proof -
  obtain s0 where s0: "get_bl w b = Inr s0" "bl_mapped s0 = None" "0 \<le> pos"
    using assms(2) by (auto simp: z_blob_get_ptr_def rbind_eq_Inr g_assert_def split: if_splits)
  show ?thesis
  proof (cases "pos < bl_size s0 \<and> bl_size s0 > 0")
    case False
    then show ?thesis using assms s0 by (auto simp: z_blob_get_ptr_def)
  next
    case lt: True
    obtain w1 ok where l: "z_blob_lock w b t = Inr (w1, ok)" using assms(2) s0 lt by (auto simp: z_blob_get_ptr_def rbind_eq_Inr)
    show ?thesis
    proof (cases ok)
      case False
      then show ?thesis using assms l lt s0 lock_failed[of w b t w1] by (auto simp: z_blob_get_ptr_def)
    next
      case True
      obtain s where i: "good P w1" "P b = None" "get_bl w1 b = Inr s" using lock_inv[OF assms(1), of b t w1] l True by auto
      have g: "good P (put_bl b (s\<lparr>bl_mapped := q\<rparr>) w1)" for q using sys_inv_put[OF i] by simp
      obtain q where "w' = put_bl b (s\<lparr>bl_mapped := q\<rparr>) w1 \<or> z_blob_unlock (put_bl b (s\<lparr>bl_mapped := q\<rparr>) w1) b = Inr w'"
        using assms(2) l lt s0 True i(3) by (auto simp: z_blob_get_ptr_def Let_def rbind_eq_Inr split: if_splits)
      then show ?thesis using g[of q] unlock_inv[OF g i(2)] by auto
    qed
  qed
qed

lemma get_file_inv:
  assumes "good P w" "z_blob_get_file w b own t = Inr (w', r)"
  shows "good P w'"
proof -
  obtain w1 ok where l: "z_blob_lock w b t = Inr (w1, ok)" using assms(2) by (auto simp: z_blob_get_file_def rbind_eq_Inr)
  show ?thesis
  proof (cases ok)
    case False
    then show ?thesis using assms l lock_failed[of w b t w1] by (auto simp: z_blob_get_file_def)
  next
    case True
    obtain s where i: "good P w1" "P b = None" "get_bl w1 b = Inr s" using lock_inv[OF assms(1), of b t w1] l True by auto
    consider "z_blob_unlock w1 b = Inr w'"
      | w2 where "w2 = w1 \<or> z_blob_swap_out w1 b = Inr w2" "w' = w2 \<or> z_blob_unlock w2 b = Inr w'"
      using assms(2) l True i(3) by (auto simp: z_blob_get_file_def rbind_eq_Inr split: if_splits)
    then show ?thesis
    proof cases
      case 2
      have "good P w2" if "z_blob_swap_out w1 b = Inr w2"
      proof -
        have "accounted (grant P w1) w2" "keeps b w1 w2"
          using swap_out_accounted[OF sys_inv_accounted[OF i(1)] i(3) _ that] i(2) by simp_all
        then show ?thesis using sys_inv_keeps[OF i(1) _ i(2), of w2] pending_same[of w1 w2] by (simp add: keeps_def)
      qed
      then show ?thesis using 2 i(1,2) unlock_inv[of P w2 b w'] by blast
    qed (use i unlock_inv[of P w1 b w'] in auto)
  qed
qed

lemma blob_step_inv:
  assumes "blob_step (w, P) (w', P')" "good P w"
  shows "good P' w'"
  using assms
proof (cases rule: blob_step.cases)
  case (add_woken b m pos d s n)
  obtain w1 where w1: "alloc_woken w b m = Inr w1" "add_copy_rest w1 b pos d = Inr (w', n)"
    using add_woken(5) by (auto simp: add_copy_woken_def rbind_eq_Inr)
  then show ?thesis using woken_inv[OF assms(2) add_woken(2-4) w1(1)] add_copy_rest_inv[of "P(b := None)" w1 b] add_woken(1) by simp
next
  case (trunc_woken b m s r)
  obtain w1 where w1: "alloc_woken w b m = Inr w1" "z_blob_unlock w1 b = Inr w'"
    using trunc_woken(5) by (auto simp: truncate_woken_def rbind_eq_Inr)
  then show ?thesis using woken_inv[OF assms(2) trunc_woken(2-4) w1(1)] unlock_inv[of "P(b := None)" w1 b] trunc_woken(1) by simp
next
  case (free_ptr b p)
  then obtain s where s: "get_bl w b = Inr s" "z_blob_unlock (put_bl b (s\<lparr>bl_mapped := None\<rparr>) w) b = Inr w'"
    by (auto simp: z_blob_free_ptr_def rbind_eq_Inr)
  have "good P (put_bl b (s\<lparr>bl_mapped := None\<rparr>) w)" using sys_inv_put[OF assms(2) free_ptr(3) s(1)] by simp
  from unlock_inv[OF this free_ptr(3) s(2)] free_ptr(1) show ?thesis by simp
next
  case (release b fl s)
  let ?s = "s\<lparr>bl_file := fl, bl_size := int (length fl), bl_alloc_size := int (length fl)\<rparr>"
  have "good P (put_bl b ?s w)" using sys_inv_put[OF assms(2) release(3,4), of ?s] release(5) by simp
  then show ?thesis using unlock_inv[of P "put_bl b ?s w" b] release by (simp add: z_blob_release_file_def)
next
  case (storage b st)
  then show ?thesis using assms(2) by (auto simp: z_blob_storage_lock_def rbind_eq_Inr book_def intro!: sys_inv_put')
next
  case (reference b)
  then show ?thesis using assms(2) by (auto simp: z_blob_ref_def rbind_eq_Inr book_def intro!: sys_inv_put')
next
  case (env io t)
  then show ?thesis using assms(2) by simp
next
  case (create mk n r)
  show ?thesis using create_inv[OF assms(2) create(3,2)] create(1) by simp
next
  case (unref b)
  show ?thesis using release_inv[OF assms(2) unref(3,2)] unref(1) by simp
next
  case (add b pos d t n)
  show ?thesis using add_copy_inv(1)[OF assms(2) add(3,2) refl] add(1) by simp
next
  case (add_parks b pos d t m)
  show ?thesis using add_copy_inv(2)[OF assms(2) add_parks(3,2) refl] add_parks(1) by simp
next
  case (trunc b pos t r)
  show ?thesis using truncate_inv(1)[OF assms(2) trunc(3,2) refl] trunc(1) by simp
next
  case (trunc_parks b pos t m)
  show ?thesis using truncate_inv(2)[OF assms(2) trunc_parks(3,2) refl] trunc_parks(1) by simp
next
  case (read_copy b pos buf t n buf')
  show ?thesis using get_copy_inv[OF assms(2) read_copy(2)] read_copy(1) by simp
next
  case (get_ptr b pos k mm t p)
  show ?thesis using get_ptr_inv[OF assms(2) get_ptr(2)] get_ptr(1) by simp
next
  case (get_file b own t ok)
  show ?thesis using get_file_inv[OF assms(2) get_file(2)] get_file(1) by simp
next
  case (thread c)
  show ?thesis using thread_inv[OF assms(2) thread(2)] thread(1) by simp
qed

definition blob_start :: "nat \<Rightarrow> nat \<Rightarrow> nat \<Rightarrow> nat \<Rightarrow> nat \<Rightarrow> bworld" where
  "blob_start dmax mmax low hiw nosw =
     \<lparr>bw_sys = z_blob_system_new dmax mmax low hiw nosw, bw_store = [], bw_io = [], bw_now = 0\<rparr>"

abbreviation blob_run :: "nat \<Rightarrow> nat \<Rightarrow> nat \<Rightarrow> nat \<Rightarrow> nat \<Rightarrow> bworld \<Rightarrow> (nat \<rightharpoonup> parked) \<Rightarrow> bool" where
  "blob_run dmax mmax low hiw nosw w P \<equiv> blob_step\<^sup>*\<^sup>* (blob_start dmax mmax low hiw nosw, Map.empty) (w, P)"

lemma start_good: "0 < mmax \<Longrightarrow> mmax < 2 ^ 63 \<Longrightarrow> good Map.empty (blob_start dmax mmax low hiw nosw)"
  by (auto simp: blob_start_def z_blob_system_new_def sys_inv_def accounted_def mem_sum_def disk_sum_def pending_reqs_def
    get_bl_Inr slot_def subz_le split: if_splits)

lemma run_good:
  assumes "blob_run dmax mmax low hiw nosw w P" "0 < mmax" "mmax < 2 ^ 63"
  shows "good P w"
proof -
  have "good (snd c) (fst c)" if "blob_step\<^sup>*\<^sup>* (blob_start dmax mmax low hiw nosw, Map.empty) c" for c
    using that
  proof (induction rule: rtranclp_induct)
    case base
    show ?case using start_good[OF assms(2,3)] by simp
  next
    case (step y z)
    then show ?case using blob_step_inv[of "fst y" "snd y" "fst z" "snd z"] by simp
  qed
  from this[OF assms(1)] show ?thesis by simp
qed

lemma grants_nonneg: "sys_inv P R w \<Longrightarrow> 0 \<le> grant P w b"
  using sys_inv_parked[of P R w b] by (cases "P b") (auto simp: grant_def parked_ok_def)

lemma mem_sum_mono: "(\<And>b. g b \<le> h b) \<Longrightarrow> mem_sum g w \<le> mem_sum h w"
  unfolding mem_sum_def by (rule sum_mono) (auto simp: mem_share_def split: option.split)

end
