(* ===== verification/Blob_Properties.thy ===== *)
theory Blob_Properties
  imports Blob_Accounting
begin

section \<open>Properties of the blob system\<close>

text \<open>
  What the blob operations promise (a byte array, a bounded use of memory, a reply to every caller that
  waits), and three cases in which they do not keep it: a transfer in parts, a truncation within the
  rounding of the allocation, and a new blob that is swapped in while its creator waits.
\<close>

text \<open>A system with one blob, for the examples: in memory, or in its file.\<close>

definition demo_blob :: "bool \<Rightarrow> bytes \<Rightarrow> int \<Rightarrow> zblob" where
  "demo_blob in_file d alloc = \<lparr>bl_ref = 1, bl_size = int (length d), bl_alloc_size = alloc, bl_is_in_file = in_file,
     bl_file = if in_file then d else [], bl_data = if in_file then [] else ftruncate (nat alloc) d, bl_locked = False,
     bl_stat = z_blob_statistic_init 0, bl_replied = False, bl_mapped = None, bl_alloc_req = 0, bl_approved = False,
     bl_storage_locked = False\<rparr>"

definition demo_world :: "bool \<Rightarrow> bytes \<Rightarrow> int \<Rightarrow> sys_event list \<Rightarrow> bworld" where
  "demo_world in_file d alloc io = (blob_start 64 64 16 32 8)\<lparr>bw_store := [Some (demo_blob in_file d alloc)], bw_io := io\<rparr>"

lemma demo_get: "get_bl (demo_world f d a io) 0 = Inr (demo_blob f d a)"
  by (simp add: demo_world_def get_bl_def slot_def)

subsection \<open>A byte array\<close>

text \<open>C7: writing into a blob that nobody has locked, when the system calls on its file transfer what they
  are asked to, always ends: it either waits for the management thread with the contents untouched, or
  returns the number of bytes written and the contents are those of the byte array with the bytes put at
  the position (zeros before it when it lies past the end), whether the blob is in memory, in its file
  or moved there by this write; reading them back then gives the bytes. No other blob changes.\<close>

theorem blob_refines_byte_array:
  assumes "get_bl w b = Inr s" "blob_inv s" "\<not> bl_locked s" "bw_io w = []" "0 \<le> pos" "d \<noteq> []"
    "pos + int (length d) < 2 ^ 62"
  shows "\<exists>w' r s'. z_blob_add_copy w b pos d t = Inr (w', r) \<and> get_bl w' b = Inr s' \<and> blob_inv s'
    \<and> (\<forall>c. c \<noteq> b \<longrightarrow> get_bl w' c = get_bl w c)
    \<and> (case r of
         Parked m \<Rightarrow> contents s' = contents s \<and> bl_locked s'
       | Done n \<Rightarrow> n = length d \<and> contents s' = spliced (nat pos) d (contents s) \<and> \<not> bl_locked s'
           \<and> (\<forall>buf. length buf = length d \<longrightarrow>
                (\<exists>w'' s''. z_blob_get_copy w' b pos buf t = Inr (w'', length d, d)
                   \<and> get_bl w'' b = Inr s'' \<and> contents s'' = contents s')))"
proof -
  obtain w' r s' where a: "z_blob_add_copy w b pos d t = Inr (w', r)" "get_bl w' b = Inr s'" "blob_inv s'" "others_same b w w'"
    "r = Done (length d) \<and> \<not> bl_locked s' \<and> contents s' = spliced (nat pos) d (contents s)
      \<or> (\<exists>m. r = Parked m) \<and> bl_locked s' \<and> contents s' = contents s"
    using add_copy_contents[OF assms(1,2,4,3,5-7), of t] by blast
  have io: "bw_io w' = []" using a(4) assms(4) by (simp add: others_same_def)
  have rd: "\<exists>w'' s''. z_blob_get_copy w' b pos buf t = Inr (w'', length d, d) \<and> get_bl w'' b = Inr s'' \<and> contents s'' = contents s'"
    if q: "length buf = length d" "\<not> bl_locked s'" "contents s' = spliced (nat pos) d (contents s)" for buf
  proof -
    have "length buf < 2 ^ 62" using q(1) assms(5,7) by simp
    then obtain w'' s'' n where g: "z_blob_get_copy w' b pos buf t = Inr (w'', n, overwrite 0 (chunk (nat pos) n (contents s')) buf)"
      "n = min (length buf) (length (contents s') - nat pos)" "get_bl w'' b = Inr s''" "contents s'' = contents s'"
      using get_copy_contents[OF a(2,3) io q(2) assms(5)] by blast
    have n: "n = length d" using g(2) q(1,3) by simp
    have "overwrite 0 d buf = d" using q(1) by (simp add: overwrite_def)
    then show ?thesis using g n q(3) chunk_spliced by auto
  qed
  have o: "\<forall>c. c \<noteq> b \<longrightarrow> get_bl w' c = get_bl w c" using a(4) by (simp add: others_same_def)
  show ?thesis using a(5) rd o by (intro exI[of _ w'] exI[of _ r] exI[of _ s'] conjI a(1-3)) auto
qed

theorem blob_refines_byte_array_witness:
  "\<exists>w' r s'. z_blob_add_copy (demo_world True [1, 2, 3] 8 []) 0 2 [7, 8] (-1) = Inr (w', r) \<and> get_bl w' 0 = Inr s'
    \<and> (case r of Parked m \<Rightarrow> contents s' = [1, 2, 3] | Done n \<Rightarrow> n = 2 \<and> contents s' = [1, 2, 7, 8])"
proof -
  let ?s = "demo_blob True [1, 2, 3] 8" and ?w = "demo_world True [1, 2, 3] 8 []"
  have s: "blob_inv ?s" "\<not> bl_locked ?s" "contents ?s = [1, 2, 3]" "bw_io ?w = []"
    by (simp_all add: blob_inv_def demo_blob_def blob_store_def padded_def contents_def demo_world_def)
  have sp: "spliced 2 [7, 8] [1, 2, 3] = [1, 2, 7, 8 :: byte]" by (simp add: spliced_def overwrite_def ftruncate_def zeros_def)
  have "\<exists>w' r s'. z_blob_add_copy ?w 0 2 [7, 8] (-1) = Inr (w', r) \<and> get_bl w' 0 = Inr s'
    \<and> (case r of Parked m \<Rightarrow> contents s' = contents ?s | Done n \<Rightarrow> n = 2 \<and> contents s' = spliced 2 [7, 8] (contents ?s))"
    using blob_refines_byte_array[OF demo_get s(1,2,4), of 2 "[7, 8]" "-1"] by (fastforce split: outcome.splits)
  then show ?thesis unfolding s(3) sp .
qed

text \<open>an allocation that needs no reply or gets to wait takes at least the requested size and less than
  twice that, or exactly the size.\<close>

theorem blob_alloc_size_bounds:
  assumes "get_bl w b = Inr s" "blob_inv s" "bw_io w = []" "0 \<le> n" "n < 2 ^ 62"
  shows "\<exists>w' st s'. z_blob_alloc w b n = Inr (w', st) \<and> get_bl w' b = Inr s'
    \<and> (let a = (case st of Granted \<Rightarrow> bl_alloc_size s' | Waits m \<Rightarrow> m) in n \<le> a \<and> (a < 2 * n \<or> a = n))"
  using alloc_contents[OF assms] by (auto simp: Let_def split: alloc_state.splits)

theorem blob_alloc_size_bounds_witness:
  "\<exists>w' st s'. z_blob_alloc (demo_world False [1, 2, 3] 8 []) 0 20 = Inr (w', st) \<and> get_bl w' 0 = Inr s'
    \<and> (let a = (case st of Granted \<Rightarrow> bl_alloc_size s' | Waits m \<Rightarrow> m) in 20 \<le> a \<and> (a < 2 * 20 \<or> a = 20))"
  by (rule blob_alloc_size_bounds[OF demo_get])
    (simp_all add: blob_inv_def demo_blob_def blob_store_def padded_def demo_world_def ftruncate_def zeros_def)

subsection \<open>The management of memory\<close>



lemmas blob_eval = z_blob_system_new_def z_blob_new_def z_blob_alloc_def alloc_target_def z_blob_check_alloc_def
  z_blob_swap_out_def alloc_apply_def touch_def z_blob_statistic_init_def z_refcount_set_def get_bl_def put_bl_def slot_def
  upd_sys_def push_req_def mem_add_def disk_add_def addz_def subz_def ssize_to_size_def size_to_ssize_def Let_def
  ftruncate_def zeros_def pwrite_def overwrite_def g_assert_def blob_start_def z_blob_system_threadproc_def recheck_def
  z_blob_signal_ready_def z_blob_unref_def z_refcount_dec_def MAX_REF_def z_blob_system_swap_in_def swap_in_loop.simps
  swap_space_def swappable_def dec_factor_def swap_in_one_def alloc_woken_def z_blob_lock_def

text \<open>a blob that is created with an initial size may have to wait, and it waits without its lock. In this run (at most 4
  bytes in memory, 8 on disk) its request is granted on disk when another blob is freed; the management
  thread then swaps the blob in at once, with the allocated size it still has, and the creator, when it
  wakes up, allocates in memory what was granted on disk: 5 bytes are in memory, none are counted there,
  and the limit is exceeded.\<close>

theorem blob_new_swapped_in_while_waiting:
  "rbind (z_blob_new (blob_start 8 4 2 3 1) True 6) (\<lambda>(w1, b1, st1).
   rbind (z_blob_new w1 True 5) (\<lambda>(w2, b2, st2).
   rbind (z_blob_system_threadproc w2) (\<lambda>r2.
   rbind (z_blob_unref (fst (the r2)) 0) (\<lambda>w3.
   rbind (z_blob_system_threadproc w3) (\<lambda>r3.
   rbind (alloc_woken (fst (the r3)) 1 5) (\<lambda>w4.
     Inr (b2, st2, bs_mem_max (bw_sys w4), bs_mem_used (bw_sys w4), mem_sum (\<lambda>b. 0) w4)))))))
   = Inr (Some 1, Waits 5, 4, 0, 5)"
  by (simp add: blob_eval mem_sum_def mem_share_def lessThan_nat_numeral)

lemma put_bl_commute: "(put_bl b s w)\<lparr>bw_io := io\<rparr> = put_bl b s (w\<lparr>bw_io := io\<rparr>)" "bw_now (put_bl b s w) = bw_now w"
  by (simp_all add: put_bl_def)

lemma length_pwrite: "d \<noteq> [] \<Longrightarrow> length (pwrite p d f) = max (length f) (p + length d)"
  by (simp add: pwrite_def)

lemma chunk_pwrite_same: "d \<noteq> [] \<Longrightarrow> chunk p (length d) (pwrite p d f) = d"
  by (simp add: pwrite_def)

lemma chunk_pwrite_before: "j + n \<le> p \<Longrightarrow> j + n \<le> length f \<Longrightarrow> chunk j n (pwrite p d f) = chunk j n f"
  by (simp add: pwrite_def chunk_overwrite_before) (simp add: ftruncate_def chunk_append_left)

lemma chunk_add: "chunk i (m + n) xs = chunk i m xs @ chunk (i + m) n xs"
  by (simp add: chunk_def take_add add.commute)

text \<open>when \<open>write\<close> takes only the first \<open>k\<close> bytes of a write into a blob in its file, the rest is not what follows
  them: the loop passes the start of the data again, so the file gets the beginning of the data twice, and
  the caller is told that only the last part was written.\<close>

theorem blob_short_write_repeats_start:
  assumes "get_bl w b = Inr s" "\<not> bl_locked s" "bl_is_in_file s" "bw_io w = [Xfer k]" "0 < k" "k < length d" "0 \<le> pos"
    "pos + int (length d) \<le> bl_alloc_size s" "length d < 2 ^ 62"
  shows "\<exists>w' s'. z_blob_add_copy w b pos d t = Inr (w', Done (length d - k)) \<and> get_bl w' b = Inr s'
    \<and> chunk (nat pos) (length d) (bl_file s') = take k d @ take (length d - k) d"
proof -
  let ?n = "length d - k"
  let ?f1 = "pwrite (nat pos) (take k d) (bl_file s)"
  let ?f = "pwrite (nat pos + k) (take ?n d) ?f1"
  have d: "d \<noteq> []" "take k d \<noteq> []" "take ?n d \<noteq> []" "length (take k d) = k" "length (take ?n d) = ?n" using assms(5,6) by auto
  have io: "write_all [Xfer k] (nat pos) d (length d) 0 (bl_file s) = Inr ([], int ?n, ?f)"
    using assms(5,6) d(1) by (simp add: Let_def min_def)
  have n: "ssize_to_size (int ?n) = ?n" using assms(9) by (simp add: ssize_to_size_def)
  let ?s = "(touch w (\<lambda>t. t\<lparr>bt_req_wr := bt_req_wr t + 1, bt_total_wr := addz (bt_total_wr t) ?n\<rparr>)
    (s\<lparr>bl_locked := True, bl_file := ?f, bl_size := if bl_size s < pos + int ?n then pos + int ?n else bl_size s\<rparr>))\<lparr>bl_locked := False\<rparr>"
  have "z_blob_add_copy w b pos d t = Inr (put_bl b ?s (w\<lparr>bw_io := []\<rparr>), Done ?n)"
    using assms(1-4,7,8) io n
    by (simp add: z_blob_add_copy_def g_assert_def lock_free get_put_bl add_copy_rest_def z_blob_unlock_def Let_def touch_def put_bl_commute del: write_all.simps)
  moreover have "get_bl (put_bl b ?s (w\<lparr>bw_io := []\<rparr>)) b = Inr ?s" using assms(1) by (simp add: get_put_bl)
  moreover have "chunk (nat pos) (length d) (bl_file ?s) = take k d @ take ?n d"
  proof -
    have "chunk (nat pos) k ?f = chunk (nat pos) k ?f1"
      by (rule chunk_pwrite_before) (use d length_pwrite[OF d(2), of "nat pos" "bl_file s"] in simp_all)
    then have "chunk (nat pos) k ?f = take k d" using chunk_pwrite_same[OF d(2), of "nat pos" "bl_file s"] d(4) by simp
    moreover have "chunk (nat pos + k) ?n ?f = take ?n d" using chunk_pwrite_same[OF d(3), of "nat pos + k" ?f1] d(5) by simp
    ultimately have "chunk (nat pos) (k + ?n) ?f = take k d @ take ?n d" by (simp only: chunk_add)
    then show ?thesis using assms(6) by (simp add: touch_def)
  qed
  ultimately show ?thesis by blast
qed

theorem blob_short_write_repeats_start_witness:
  "\<exists>w' s'. z_blob_add_copy (demo_world True [1, 2, 3] 8 [Xfer 1]) 0 0 [5, 6, 7] (-1) = Inr (w', Done 2) \<and> get_bl w' 0 = Inr s'
    \<and> chunk 0 3 (bl_file s') = [5, 5, 6]"
proof -
  let ?w = "demo_world True [1, 2, 3] 8 [Xfer 1]"
  have p: "\<not> bl_locked (demo_blob True [1, 2, 3] 8)" "bl_is_in_file (demo_blob True [1, 2, 3] 8)" "bw_io ?w = [Xfer 1]"
    by (simp_all add: demo_blob_def demo_world_def)
  have a: "(0 :: int) + int (length [5, 6, 7 :: byte]) \<le> bl_alloc_size (demo_blob True [1, 2, 3] 8)" by (simp add: demo_blob_def)
  have "\<exists>w' s'. z_blob_add_copy ?w 0 0 [5, 6, 7] (-1) = Inr (w', Done (length [5, 6, 7 :: byte] - 1)) \<and> get_bl w' 0 = Inr s'
    \<and> chunk (nat 0) (length [5, 6, 7 :: byte]) (bl_file s') = take 1 [5, 6, 7] @ take (length [5, 6, 7 :: byte] - 1) [5, 6, 7]"
    by (rule blob_short_write_repeats_start[OF demo_get p _ _ _ a]) simp_all
  moreover have "take 1 [5, 6, 7 :: byte] @ take (length [5, 6, 7 :: byte] - 1) [5, 6, 7] = [5, 5, 6]"
    "length [5, 6, 7 :: byte] - 1 = 2" "length [5, 6, 7 :: byte] = 3" by simp_all
  ultimately show ?thesis by (simp only: nat_0)
qed

text \<open>truncating a blob in memory to more than half of what is allocated for it does nothing: the size is rounded up to the
  allocated size again, and with the call reported as successful the blob keeps its contents past the position.\<close>

theorem blob_truncate_keeps_contents:
  assumes "get_bl w b = Inr s" "\<not> bl_locked s" "\<not> bl_is_in_file s" "bl_alloc_size s = 2 * h" "h < pos" "pos < 2 * h" "2 * h < 2 ^ 63" "0 < h"
  shows "\<exists>w' s'. z_blob_truncate w b pos t = Inr (w', Done True) \<and> get_bl w' b = Inr s'
    \<and> contents s' = contents s \<and> bl_size s' = bl_size s"
proof -
  have h: "shrink_below (2 * h) pos = h" using assms(5,6) by (simp add: shrink_below.simps[of "2 * h"] shrink_below.simps[of h])
  have g: "grow_above h pos = Inr (2 * h)" using assms(5-8) by (simp add: grow_above.simps[of h] grow_above.simps[of "2 * h"])
  have "z_blob_truncate w b pos t = Inr (put_bl b (s\<lparr>bl_locked := False\<rparr>) w, Done True)"
    using assms h g by (simp add: z_blob_truncate_def g_assert_def lock_free z_blob_alloc_def get_put_bl alloc_target_def z_blob_unlock_def)
  then show ?thesis using assms(1) by (simp add: get_put_bl contents_def blob_store_def)
qed

theorem blob_truncate_keeps_contents_witness:
  "\<exists>w' s'. z_blob_truncate (demo_world False [1, 2, 3, 4] 4 []) 0 3 (-1) = Inr (w', Done True) \<and> get_bl w' 0 = Inr s'
    \<and> contents s' = contents (demo_blob False [1, 2, 3, 4] 4) \<and> bl_size s' = 4"
  using blob_truncate_keeps_contents[OF demo_get, where h = 2 and pos = 3 and t = "-1", of False "[1, 2, 3, 4]" 4 "[]"]
  by (simp add: demo_blob_def)

subsection \<open>Runs of the system\<close>

lemma demo_run:
  "\<exists>w w' d. length d = 12 \<and> z_blob_new (blob_start 0 8 2 4 1) True 4 = Inr (w, Some 0, Granted)
    \<and> z_blob_add_copy w 0 0 d (-1) = Inr (w', Parked 16)"
proof -
  define d :: bytes where "d = replicate 12 1"
  have "length d = 12" by (simp add: d_def)
  moreover obtain w where w: "z_blob_new (blob_start 0 8 2 4 1) True 4 = Inr (w, Some 0, Granted)" by (simp add: blob_eval)
  moreover have "\<exists>w'. z_blob_add_copy w 0 0 d (-1) = Inr (w', Parked 16)"
    using w calculation(1) by (auto simp: blob_eval z_blob_add_copy_def shrink_below.simps grow_above.simps)
  ultimately show ?thesis by blast
qed



end
