(* ===== verification/Misc.thy ===== *)
theory Misc
  imports Zurlparse
begin

unbundle bit_operations_syntax

section \<open>Miscellaneous helpers\<close>

text \<open>
  \<open>src/misc.c\<close> and the inline functions of \<open>src/zorp/misc.h\<close>: character sets, time values, the dumps
  that go to the log, escaping, port ranges and the hash functions for case insensitive names. A C string is
  the list of its characters before the NUL; log output is the list of the lines.
\<close>

subsection \<open>Character sets\<close>

record zcharset =
  enable_mask :: "32 word list"

definition z_charset_init :: zcharset where
  "z_charset_init = \<lparr>enable_mask = replicate 8 0\<rparr>"

definition charset_ndx :: "char \<Rightarrow> nat" where
  "charset_ndx c = drop_bit 5 (code c)"

definition charset_bit :: "char \<Rightarrow> 32 word" where
  "charset_bit c = push_bit (code c AND 31) 1"

definition z_charset_enable :: "zcharset \<Rightarrow> char \<Rightarrow> zcharset" where
  "z_charset_enable self c =
     self\<lparr>enable_mask := (enable_mask self)[charset_ndx c := enable_mask self ! charset_ndx c OR charset_bit c]\<rparr>"

definition z_charset_is_enabled :: "zcharset \<Rightarrow> char \<Rightarrow> bool" where
  "z_charset_is_enabled self c \<longleftrightarrow> enable_mask self ! charset_ndx c AND charset_bit c \<noteq> 0"

text \<open>\<open>for (j = start_pos; j <= end_pos; j++)\<close> with an unsigned char: 255 is never passed.\<close>

definition enable_range :: "char \<Rightarrow> char \<Rightarrow> zcharset \<Rightarrow> zcharset result" where
  "enable_range start_pos end_pos self =
     (if code end_pos = 255 then Inl Endless_loop
      else Inr (fold (\<lambda>j s. z_charset_enable s (char_of j)) [code start_pos..<code end_pos + 1] self))"

datatype parse_state = Parse_start | Parse_dash | Parse_end | Parse_escape

abbreviation backslash :: char where "backslash \<equiv> CHR 92"

abbreviation dash :: char where "dash \<equiv> CHR ''-''"

fun charset_rank :: "string \<Rightarrow> nat \<Rightarrow> parse_state \<Rightarrow> parse_state \<Rightarrow> nat" where
  "charset_rank str i Parse_start old = 6 * (length str - i)"
| "charset_rank str i Parse_dash old = 6 * (length str - i) + 5"
| "charset_rank str i Parse_end old = 6 * (length str - i) - 2"
| "charset_rank str i Parse_escape old = 6 * (length str - i) - (case old of Parse_start \<Rightarrow> 1 | Parse_dash \<Rightarrow> 0 | _ \<Rightarrow> 3)"

lemma escape_rank: "i < length str \<Longrightarrow> charset_rank str (Suc i) old Parse_escape < charset_rank str i Parse_escape old"
  by (cases old) auto

text \<open>
  The loop: position, state, previous state, start of a range, the set. A step back from the start of the string would
  wrap the index around.
\<close>

function charset_loop :: "string \<Rightarrow> nat \<Rightarrow> parse_state \<Rightarrow> parse_state \<Rightarrow> char \<Rightarrow> zcharset \<Rightarrow>
    (zcharset \<times> parse_state \<times> char) result" where
  "charset_loop str i state old_state start_pos self =
     (if i \<ge> length str then Inr (self, state, start_pos)
      else case state of
        Parse_start \<Rightarrow>
          if str ! i = backslash \<and> old_state \<noteq> Parse_escape
          then charset_loop str i Parse_escape Parse_start start_pos self
          else charset_loop str (i + 1) Parse_dash Parse_start (str ! i) self
      | Parse_dash \<Rightarrow>
          if str ! i = backslash \<and> old_state \<noteq> Parse_escape
          then if i = 0 then Inl Bad_access else charset_loop str (i - 1) Parse_end old_state start_pos self
          else if str ! i = dash then charset_loop str (i + 1) Parse_end Parse_dash start_pos self
          else if i = 0 then Inl Bad_access else charset_loop str (i - 1) Parse_end Parse_dash start_pos self
      | Parse_end \<Rightarrow>
          if str ! i = backslash \<and> old_state \<noteq> Parse_escape
          then charset_loop str i Parse_escape Parse_end start_pos self
          else rbind (enable_range start_pos (str ! i) self) (\<lambda>s. charset_loop str (i + 1) Parse_start Parse_end start_pos s)
      | Parse_escape \<Rightarrow> charset_loop str (i + 1) old_state Parse_escape start_pos self)"
  by pat_completeness auto
termination
  by (relation "measure (\<lambda>(str, i, state, old, st, s). charset_rank str i state old)")
    (auto simp: not_le intro: escape_rank[simplified])

declare charset_loop.simps [simp del]

definition z_charset_parse :: "zcharset \<Rightarrow> string \<Rightarrow> (zcharset \<times> bool) result" where
  "z_charset_parse self interval_str =
     rbind (charset_loop interval_str 0 Parse_start Parse_start (char_of (0 :: nat)) self) (\<lambda>(s, state, start_pos).
       if state = Parse_dash then Inr (z_charset_enable s start_pos, True) else Inr (s, state = Parse_start))"

text \<open>\<open>len\<close> is below zero or at most the length of the string.\<close>

definition z_charset_is_string_valid :: "zcharset \<Rightarrow> string \<Rightarrow> int \<Rightarrow> bool" where
  "z_charset_is_string_valid self str len =
     list_all (z_charset_is_enabled self) (if len < 0 then str else take (nat len) str)"

subsection \<open>Time values\<close>

record timeval =
  tv_sec :: int
  tv_usec :: int

definition g_time_val_compare :: "timeval \<Rightarrow> timeval \<Rightarrow> int" where
  "g_time_val_compare t1 t2 =
     (if tv_sec t1 < tv_sec t2 then -1 else if tv_sec t1 > tv_sec t2 then 1
      else if tv_usec t1 < tv_usec t2 then -1 else if tv_usec t1 > tv_usec t2 then 1 else 0)"

definition g_time_val_diff :: "timeval \<Rightarrow> timeval \<Rightarrow> int" where
  "g_time_val_diff t1 t2 = (tv_sec t1 - tv_sec t2) * 1000000 + (tv_usec t1 - tv_usec t2)"

definition g_time_val_subtract :: "timeval \<Rightarrow> timeval \<Rightarrow> timeval" where
  "g_time_val_subtract x y =
     (let r = (if tv_usec x < tv_usec y then x\<lparr>tv_usec := tv_usec x + 1000000, tv_sec := tv_sec x - 1\<rparr> else x)
      in r\<lparr>tv_usec := tv_usec r - tv_usec y, tv_sec := tv_sec r - tv_sec y\<rparr>)"

subsection \<open>Dumps\<close>

definition isprint :: "byte \<Rightarrow> bool" where
  "isprint b \<longleftrightarrow> 32 \<le> unat b \<and> unat b < 127"

definition hexdigit :: "nat \<Rightarrow> byte" where
  "hexdigit n = (if n < 10 then of_nat (48 + n) else of_nat (55 + n))"

text \<open>\<open>g_snprintf (line + pos, linelen - pos, txt)\<close>; past the end the size wraps around and the write goes outside.\<close>

definition snprintf_at :: "bytes \<Rightarrow> nat \<Rightarrow> bytes \<Rightarrow> bytes result" where
  "snprintf_at line pos t =
     (if pos > length line then Inl Bad_access
      else if pos = length line then Inr line
      else let k = min (length t) (length line - pos - 1) in Inr (overwrite pos (take k t @ [0]) line))"

fun hex_columns :: "nat \<Rightarrow> bytes \<Rightarrow> bytes \<Rightarrow> nat \<Rightarrow> bytes result" where
  "hex_columns 0 buf line pos = Inr line"
| "hex_columns (Suc n) buf line pos =
     rbind (snprintf_at line pos
              (case buf of [] \<Rightarrow> [32, 32, 32] | b # bs \<Rightarrow> [hexdigit (unat b div 16), hexdigit (unat b mod 16), 32])) (\<lambda>line1.
       hex_columns n (tl buf) line1 (pos + 3))"

fun text_columns :: "nat \<Rightarrow> bytes \<Rightarrow> bytes \<Rightarrow> nat \<Rightarrow> nat \<Rightarrow> bytes \<times> nat \<times> nat" where
  "text_columns 0 buf line pos j = (line, pos, j)"
| "text_columns (Suc n) buf line pos j =
     (case buf of
        [] \<Rightarrow> (line, pos, j)
      | b # bs \<Rightarrow> if length line > pos then text_columns n bs (line[pos := if isprint b then b else 46]) (pos + 1) (j + 1)
                 else (line, pos, j))"

definition z_hexdump :: "bytes \<Rightarrow> nat \<Rightarrow> bytes \<Rightarrow> (bytes \<times> nat) result" where
  "z_hexdump line i buf =
     rbind (hex_columns 16 (drop i buf) line 0) (\<lambda>line1.
     rbind (snprintf_at line1 48 [32]) (\<lambda>line2.
       let (line3, pos, j) = text_columns 16 (drop i buf) line2 49 0
       in if pos < length line3 then Inr (line3[pos := 0], j) else Inl Bad_access))"

text \<open>The string in a buffer: what is before the first NUL.\<close>

definition c_string :: "bytes \<Rightarrow> bytes" where
  "c_string line = takeWhile (\<lambda>b. b \<noteq> 0) line"

text \<open>The offsets and lines that go to the log; the buffer has 1024 bytes.\<close>

function data_dump :: "bytes \<Rightarrow> nat \<Rightarrow> bytes \<Rightarrow> (nat \<times> bytes) list result" where
  "data_dump line i buf =
     (if i \<ge> length buf then Inr []
      else rbind (z_hexdump line i buf) (\<lambda>(line1, n).
        if n = 0 then Inl Endless_loop
        else rbind (data_dump line1 (i + n) buf) (\<lambda>ls. Inr ((i, c_string line1) # ls))))"
  by pat_completeness auto
termination by (relation "measure (\<lambda>(line, i, buf). length buf - i)") auto

declare data_dump.simps [simp del]

definition z_format_data_dump :: "bytes \<Rightarrow> bytes \<Rightarrow> (nat \<times> bytes) list result" where
  "z_format_data_dump line buf = data_dump line 0 buf"

definition line_end :: "byte \<Rightarrow> bool" where
  "line_end b \<longleftrightarrow> b = 0 \<or> b = 13 \<or> b = 10"

definition skip_byte :: "byte \<Rightarrow> bytes \<Rightarrow> bytes" where
  "skip_byte c buf = (if buf \<noteq> [] \<and> hd buf = c then tl buf else buf)"

lemma skip_byte_length: "length (skip_byte c buf) \<le> length buf"
  by (simp add: skip_byte_def)

text \<open>A turn of the loop that leaves the buffer as it was is repeated for ever.\<close>

function z_format_text_dump :: "bytes \<Rightarrow> bytes list result" where
  "z_format_text_dump buf =
     (if buf = [] then Inr []
      else
        let nl = length (takeWhile (\<lambda>b. \<not> line_end b) buf);
            i = (if nl < length buf then nl else nl - 1);
            i = (if i \<ge> 1024 then 1023 else i);
            rest = skip_byte 10 (skip_byte 13 (drop nl buf))
        in if length rest = length buf then Inl Endless_loop
           else rbind (z_format_text_dump rest) (\<lambda>ls. Inr (take i buf # ls)))"
  by pat_completeness auto
termination
proof (relation "measure length", simp)
  fix buf :: bytes and nl i i' rest
  assume "rest = skip_byte 10 (skip_byte 13 (drop nl buf))" "length rest \<noteq> length buf"
  moreover have "length (skip_byte 10 (skip_byte 13 (drop nl buf))) \<le> length buf"
    using skip_byte_length[of 10 "skip_byte 13 (drop nl buf)"] skip_byte_length[of 13 "drop nl buf"] by simp
  ultimately show "(rest, buf) \<in> measure length" by simp
qed

declare z_format_text_dump.simps [simp del]

subsection \<open>Escaping\<close>

text \<open>The arrays that \<open>z_str_escape\<close> and \<open>z_str_compress\<close> allocate, filled with NULs.\<close>

definition zero_filled :: "nat \<Rightarrow> string \<Rightarrow> string" where
  "zero_filled n s = s @ replicate (n - length s) (CHR 0x00)"

definition given_len :: "string \<Rightarrow> int \<Rightarrow> nat" where
  "given_len s len = (if len < 0 then length s + 1 else nat len)"

fun escape_loop :: "nat \<Rightarrow> string \<Rightarrow> string" where
  "escape_loop (Suc n) (c # cs) =
     (if c = CHR '' '' then [CHR ''%'', CHR ''_''] else if c = CHR ''%'' then [CHR ''%'', CHR ''%''] else [c]) @ escape_loop n cs"
| "escape_loop _ _ = []"

definition z_str_escape :: "string \<Rightarrow> int \<Rightarrow> string" where
  "z_str_escape s len = zero_filled (given_len s len * 2) (escape_loop (given_len s len) s)"

fun compress_loop :: "nat \<Rightarrow> string \<Rightarrow> string" where
  "compress_loop (Suc n) (c # d # cs) =
     (if c = CHR ''%'' \<and> d = CHR ''%'' then CHR ''%'' # compress_loop (n - 1) cs
      else if c = CHR ''%'' \<and> d = CHR ''_'' then CHR '' '' # compress_loop (n - 1) cs
      else c # compress_loop n (d # cs))"
| "compress_loop (Suc n) [c] = [c]"
| "compress_loop _ _ = []"

definition z_str_compress :: "string \<Rightarrow> int \<Rightarrow> string" where
  "z_str_compress s len = zero_filled (given_len s len) (compress_loop (given_len s len) s)"

definition until_nul :: "string \<Rightarrow> string" where
  "until_nul s = takeWhile (\<lambda>c. c \<noteq> CHR 0x00) s"

subsection \<open>Port ranges\<close>

text \<open>\<open>strtol (s, &end, 10)\<close>: the value, cut to a \<open>long\<close>, and \<open>end\<close>.\<close>

definition strtol :: "string \<Rightarrow> int \<times> string" where
  "strtol s =
     (let t = dropWhile isspace s;
          u = (if t \<noteq> [] \<and> (hd t = dash \<or> hd t = CHR ''+'') then tl t else t);
          ds = takeWhile isdigit u;
          v = int (digits_value 0 ds)
      in if ds = [] then (0, s)
         else (if t \<noteq> [] \<and> hd t = dash then max (- v) (- (2 ^ 63)) else min v (2 ^ 63 - 1), dropWhile isdigit u))"

lemma strtol_length: "length (snd (strtol s)) \<le> length s"
proof -
  have "length (dropWhile isdigit (tl (dropWhile isspace s))) \<le> length s"
    "length (dropWhile isdigit (dropWhile isspace s)) \<le> length s"
    using length_dropWhile_le[of isspace s] length_dropWhile_le[of isdigit "tl (dropWhile isspace s)"]
      length_dropWhile_le[of isdigit "dropWhile isspace s"] by auto
  then show ?thesis by (simp add: strtol_def Let_def)
qed

text \<open>The test \<open>*tmp <= '0' && *tmp >= '9'\<close> holds for no character.\<close>

function z_port_enabled :: "string \<Rightarrow> nat \<Rightarrow> bool" where
  "z_port_enabled tmp port =
     (if tmp = [] then False
      else
        let (portl, e) = strtol tmp;
            (porth, e2) = (if e \<noteq> [] \<and> hd e = dash then strtol (tl e) else (portl, e))
        in if e2 \<noteq> [] \<and> hd e2 \<noteq> CHR '','' then False
           else if portl \<le> int port \<and> int port \<le> porth then True
           else z_port_enabled (tl e2) port)"
  by pat_completeness auto
termination
proof (relation "measure (\<lambda>(tmp, port). length tmp)", simp)
  fix tmp :: string and port x portl e y porth e2
  assume a: "tmp \<noteq> []" "x = strtol tmp" "(portl, e) = x"
    "y = (if e \<noteq> [] \<and> hd e = dash then strtol (tl e) else (portl, e))" "(porth, e2) = y"
  have "length e \<le> length tmp" using strtol_length[of tmp] a(2,3) by (metis snd_conv)
  moreover have "length e2 \<le> length e" using strtol_length[of "tl e"] a(4,5)
    by (metis diff_le_self dual_order.trans length_tl order_refl snd_conv)
  moreover have "length (tl e2) < length tmp" using calculation a(1) by (cases e2) auto
  ultimately show "((tl e2, port), tmp, port) \<in> measure (\<lambda>(tmp, port). length tmp)" by simp
qed

declare z_port_enabled.simps [simp del]

subsection \<open>Names without case\<close>

text \<open>In the C locale; \<open>char\<close> is signed.\<close>

definition toupper_int :: "char \<Rightarrow> int" where
  "toupper_int c =
     (if 97 \<le> code c \<and> code c \<le> 122 then int (code c) - 32 else if code c < 128 then int (code c) else int (code c) - 256)"

definition z_casestr_equal :: "string \<Rightarrow> string \<Rightarrow> bool" where
  "z_casestr_equal k1 k2 \<longleftrightarrow> map tolower k1 = map tolower k2"

definition z_casestr_hash :: "string \<Rightarrow> 32 word" where
  "z_casestr_hash key =
     (case key of [] \<Rightarrow> 0
      | c # cs \<Rightarrow> fold (\<lambda>c h. push_bit 5 h - h + word_of_int (toupper_int c)) cs (word_of_int (toupper_int c)))"

subsection \<open>Membership\<close>

definition charset_ok :: "zcharset \<Rightarrow> bool" where
  "charset_ok s \<longleftrightarrow> length (enable_mask s) = 8"

definition charset_set :: "zcharset \<Rightarrow> char set" where
  "charset_set s = {c. z_charset_is_enabled s c}"

lemma charset_pos: "charset_ndx c = code c div 32" "charset_bit c = push_bit (code c mod 32) 1"
proof -
  have "code c AND 31 = code c mod 32" using take_bit_eq_mask[of 5 "code c"] by (simp add: take_bit_eq_mod mask_eq_exp_minus_1)
  then show "charset_ndx c = code c div 32" "charset_bit c = push_bit (code c mod 32) 1"
    by (simp_all add: charset_ndx_def charset_bit_def drop_bit_eq_div)
qed

lemma ndx_less: "charset_ndx c < 8"
  using code_less[of c] by (simp add: charset_pos)

lemma enabled_bit: "z_charset_is_enabled s c \<longleftrightarrow> bit (enable_mask s ! charset_ndx c) (code c mod 32)"
  unfolding z_charset_is_enabled_def charset_pos(2) by (rule bit_iff_and_push_bit_not_eq_0[symmetric])

lemma enable_ok [simp]: "charset_ok (z_charset_enable s c) = charset_ok s"
  by (simp add: charset_ok_def z_charset_enable_def)

lemma enable_set:
  assumes "charset_ok s"
  shows "charset_set (z_charset_enable s c) = insert c (charset_set s)"
proof -
  have "z_charset_is_enabled (z_charset_enable s c) d \<longleftrightarrow> d = c \<or> z_charset_is_enabled s d" for d
  proof (cases "charset_ndx d = charset_ndx c")
    case True
    have "code d mod 32 = code c mod 32 \<longleftrightarrow> d = c"
      using True code_inject[of d c] by (metis charset_pos(1) div_mult_mod_eq)
    moreover have "code d mod 32 < 32" by simp
    ultimately show ?thesis using True assms ndx_less[of c]
      by (auto simp: enabled_bit z_charset_enable_def charset_ok_def charset_pos(2) bit_or_iff bit_push_bit_iff bit_1_iff bit_exp_iff)
  next
    case False
    then show ?thesis by (auto simp: enabled_bit z_charset_enable_def)
  qed
  then show ?thesis by (auto simp: charset_set_def)
qed

lemma enable_list:
  "charset_ok s \<Longrightarrow> (\<forall>j \<in> set js. j < 256) \<Longrightarrow>
   charset_ok (fold (\<lambda>j s. z_charset_enable s (char_of j)) js s)
   \<and> charset_set (fold (\<lambda>j s. z_charset_enable s (char_of j)) js s) = charset_set s \<union> char_of ` set js"
  by (induction js arbitrary: s) (auto simp: enable_set)

lemma enable_range_set:
  assumes "charset_ok s" "code b < 255"
  shows "\<exists>s'. enable_range a b s = Inr s' \<and> charset_ok s' \<and> charset_set s' = charset_set s \<union> {c. code a \<le> code c \<and> code c \<le> code b}"
proof -
  let ?js = "[code a..<code b + 1]"
  have "char_of ` set ?js = {c. code a \<le> code c \<and> code c \<le> code b}"
  proof (intro equalityI subsetI)
    fix c :: char assume "c \<in> char_of ` set ?js"
    then obtain j where "c = char_of j" "code a \<le> j" "j \<le> code b" by auto
    then show "c \<in> {c. code a \<le> code c \<and> code c \<le> code b}" using assms(2) by simp
  next
    fix c assume "c \<in> {c. code a \<le> code c \<and> code c \<le> code b}"
    then show "c \<in> char_of ` set ?js" by (intro image_eqI[of _ _ "code c"]) auto
  qed
  moreover have "\<forall>j \<in> set ?js. j < 256" using assms(2) by auto
  ultimately show ?thesis using enable_list[OF assms(1), of ?js] assms(2) by (simp add: enable_range_def)
qed

subsection \<open>The parser of character sets\<close>

text \<open>The turns of the loop.\<close>

lemma loop_start: "i < length str \<Longrightarrow> str ! i \<noteq> backslash \<or> old = Parse_escape \<Longrightarrow>
    charset_loop str i Parse_start old st s = charset_loop str (i + 1) Parse_dash Parse_start (str ! i) s"
  by (subst charset_loop.simps) auto

lemma loop_start_escape: "i < length str \<Longrightarrow> str ! i = backslash \<Longrightarrow> old \<noteq> Parse_escape \<Longrightarrow>
    charset_loop str i Parse_start old st s = charset_loop str (i + 1) Parse_start Parse_escape st s"
  by (subst charset_loop.simps, simp) (subst charset_loop.simps, simp)

lemma loop_range: "i < length str \<Longrightarrow> str ! i = dash \<Longrightarrow> charset_loop str i Parse_dash old st s = charset_loop str (i + 1) Parse_end Parse_dash st s"
  by (subst charset_loop.simps) simp

lemma loop_end: "i < length str \<Longrightarrow> str ! i \<noteq> backslash \<or> old = Parse_escape \<Longrightarrow>
    charset_loop str i Parse_end old st s
    = rbind (enable_range st (str ! i) s) (\<lambda>s. charset_loop str (i + 1) Parse_start Parse_end st s)"
  by (subst charset_loop.simps) auto

lemma loop_end_escape: "i < length str \<Longrightarrow> str ! i = backslash \<Longrightarrow> old \<noteq> Parse_escape \<Longrightarrow>
    charset_loop str i Parse_end old st s = charset_loop str (i + 1) Parse_end Parse_escape st s"
  by (subst charset_loop.simps, simp) (subst charset_loop.simps, simp)

text \<open>What the parser is given: single characters and ranges, a dash that stands for itself after a backslash.\<close>

datatype charset_item = Single char | Span char char

definition escaped :: "char \<Rightarrow> string" where
  "escaped c = (if c = dash then [backslash, dash] else [c])"

fun item_text :: "charset_item \<Rightarrow> string" where
  "item_text (Single c) = escaped c"
| "item_text (Span a b) = escaped a @ dash # escaped b"

fun item_ok :: "charset_item \<Rightarrow> bool" where
  "item_ok (Single c) \<longleftrightarrow> c \<noteq> backslash \<and> code c < 255"
| "item_ok (Span a b) \<longleftrightarrow> a \<noteq> backslash \<and> b \<noteq> backslash \<and> code b < 255"

fun item_chars :: "charset_item \<Rightarrow> char set" where
  "item_chars (Single c) = {c}"
| "item_chars (Span a b) = {c. code a \<le> code c \<and> code c \<le> code b}"

lemma loop_escaped_start:
  assumes "str = pre @ escaped c @ rest" "c \<noteq> backslash" "old \<noteq> Parse_escape"
  shows "charset_loop str (length pre) Parse_start old st s
    = charset_loop str (length pre + length (escaped c)) Parse_dash Parse_start c s"
proof (cases "c = dash")
  case True
  then have "str ! length pre = backslash" "str ! (length pre + 1) = dash" "length pre + 1 < length str"
    using assms(1) by (simp_all add: escaped_def nth_append)
  then show ?thesis using loop_start_escape[of "length pre" str old st s] loop_start[of "length pre + 1" str Parse_escape st s]
    assms(3) True by (simp add: escaped_def)
next
  case False
  then have "str ! length pre = c" "length pre < length str" using assms(1) by (simp_all add: escaped_def nth_append)
  then show ?thesis using loop_start[of "length pre" str old st s] assms(2) False by (simp add: escaped_def)
qed

lemma loop_escaped_end:
  assumes "str = pre @ escaped c @ rest" "c \<noteq> backslash"
  shows "charset_loop str (length pre) Parse_end Parse_dash st s
    = rbind (enable_range st c s) (\<lambda>s. charset_loop str (length pre + length (escaped c)) Parse_start Parse_end st s)"
proof (cases "c = dash")
  case True
  then have "str ! length pre = backslash" "str ! (length pre + 1) = dash" "length pre + 1 < length str"
    using assms(1) by (simp_all add: escaped_def nth_append)
  then show ?thesis using loop_end_escape[of "length pre" str Parse_dash st s] loop_end[of "length pre + 1" str Parse_escape st s]
    True by (simp add: escaped_def)
next
  case False
  then have "str ! length pre = c" "length pre < length str" using assms(1) by (simp_all add: escaped_def nth_append)
  then show ?thesis using loop_end[of "length pre" str Parse_dash st s] assms(2) False by (simp add: escaped_def)
qed

text \<open>A character that no dash follows: the loop steps back and takes it as the end of its own range.\<close>

lemma loop_single:
  assumes "0 < k" "k < length str" "str ! k \<noteq> dash" "str ! (k - 1) = c" "c \<noteq> backslash"
  shows "charset_loop str k Parse_dash Parse_start c s = rbind (enable_range c c s) (\<lambda>s. charset_loop str k Parse_start Parse_end c s)"
proof -
  have "charset_loop str k Parse_dash Parse_start c s = charset_loop str (k - 1) Parse_end (if str ! k = backslash then Parse_start else Parse_dash) c s"
    using assms(1-3) by (subst charset_loop.simps) simp
  then show ?thesis using loop_end[of "k - 1" str] assms by simp
qed

lemma escaped_last: "escaped c \<noteq> []" "last (escaped c) = c" "hd (escaped c) \<noteq> dash"
  by (auto simp: escaped_def)

lemma item_text_start: "item_text it \<noteq> [] \<and> hd (item_text it) \<noteq> dash"
  using escaped_last by (cases it) auto

lemma items_loop:
  assumes "charset_ok s" "\<forall>it \<in> set items. item_ok it" "old \<noteq> Parse_escape"
  shows "\<exists>s' state c. charset_loop (pre @ concat (map item_text items)) (length pre) Parse_start old st s = Inr (s', state, c)
    \<and> charset_ok s' \<and> (state = Parse_start \<and> charset_set s' = charset_set s \<union> (\<Union>it \<in> set items. item_chars it)
      \<or> state = Parse_dash \<and> insert c (charset_set s') = charset_set s \<union> (\<Union>it \<in> set items. item_chars it))"
  using assms
proof (induction items arbitrary: s old pre st)
  case Nil
  then show ?case by (subst charset_loop.simps) simp
next
  case (Cons it items)
  let ?rest = "concat (map item_text items)"
  let ?str = "pre @ item_text it @ ?rest"
  have go: "\<exists>s' state c. charset_loop ?str (length pre + length (item_text it)) Parse_start Parse_end st' s1 = Inr (s', state, c)
    \<and> charset_ok s' \<and> (state = Parse_start \<and> charset_set s' = charset_set s1 \<union> (\<Union>it \<in> set items. item_chars it)
      \<or> state = Parse_dash \<and> insert c (charset_set s') = charset_set s1 \<union> (\<Union>it \<in> set items. item_chars it))"
    if "charset_ok s1" for s1 st'
    using Cons(1)[OF that _ , of Parse_end "pre @ item_text it" st'] Cons(3) by simp
  show ?case
  proof (cases it)
    case (Single c)
    have c: "c \<noteq> backslash" "code c < 255" using Cons(3) Single by auto
    let ?k = "length pre + length (escaped c)"
    have st: "charset_loop ?str (length pre) Parse_start old st s = charset_loop ?str ?k Parse_dash Parse_start c s"
      using loop_escaped_start[of ?str pre c ?rest old] Single c Cons(4) by simp
    show ?thesis
    proof (cases "?rest = []")
      case True
      have "charset_loop ?str ?k Parse_dash Parse_start c s = Inr (s, Parse_dash, c)"
        using True Single by (subst charset_loop.simps) simp
      moreover have "(\<Union>it \<in> set items. item_chars it) = {}" using True item_text_start by (cases items) auto
      ultimately show ?thesis using st Cons(2) Single by simp
    next
      case False
      obtain jt js where it: "items = jt # js" using False by (cases items) auto
      have hd: "hd ?rest \<noteq> dash" using it item_text_start[of jt] by simp
      have "?str ! ?k = hd ?rest" using False Single by (simp add: nth_append hd_conv_nth)
      moreover have "?str ! (?k - 1) = last (escaped c)"
        using Single by (cases "c = dash") (simp_all add: escaped_def nth_append)
      ultimately have "charset_loop ?str ?k Parse_dash Parse_start c s
          = rbind (enable_range c c s) (\<lambda>s. charset_loop ?str ?k Parse_start Parse_end c s)"
        using loop_single[of ?k ?str c s] escaped_last(1,2)[of c] hd False c(1) Single by auto
      moreover obtain s1 where s1: "enable_range c c s = Inr s1" "charset_ok s1" "charset_set s1 = insert c (charset_set s)"
        using enable_range_set[OF Cons(2) c(2), of c] code_inject by (force simp: order_antisym)
      ultimately show ?thesis using st go[OF s1(2), of c] s1 Single by auto
    qed
  next
    case (Span a b)
    have ab: "a \<noteq> backslash" "b \<noteq> backslash" "code b < 255" using Cons(3) Span by auto
    let ?k = "length pre + length (escaped a)"
    have st: "charset_loop ?str (length pre) Parse_start old st s = charset_loop ?str ?k Parse_dash Parse_start a s"
      using loop_escaped_start[of ?str pre a "dash # escaped b @ ?rest" old] Span ab Cons(4) by simp
    also have "\<dots> = charset_loop ?str (?k + 1) Parse_end Parse_dash a s"
      using loop_range[of ?k ?str] Span by (simp add: nth_append)
    also have "\<dots> = rbind (enable_range a b s) (\<lambda>s. charset_loop ?str (length pre + length (item_text it)) Parse_start Parse_end a s)"
      using loop_escaped_end[of ?str "pre @ escaped a @ [dash]" b ?rest a s] Span ab by (simp add: add.assoc)
    finally have l: "charset_loop ?str (length pre) Parse_start old st s
      = rbind (enable_range a b s) (\<lambda>s. charset_loop ?str (length pre + length (item_text it)) Parse_start Parse_end a s)" .
    obtain s1 where s1: "enable_range a b s = Inr s1" "charset_ok s1" "charset_set s1 = charset_set s \<union> item_chars it"
      using enable_range_set[OF Cons(2) ab(3), of a] Span by auto
    then show ?thesis using l go[OF s1(2), of a] by (auto simp: Un_assoc)
  qed
qed

text \<open>parsing the text of a list of characters and ranges (no backslash among them, none that ends at 255) adds exactly the
  characters of the list to the set and reports success.\<close>

theorem charset_parse_items:
  assumes "charset_ok s" "\<forall>it \<in> set items. item_ok it"
  shows "\<exists>s'. z_charset_parse s (concat (map item_text items)) = Inr (s', True) \<and> charset_ok s'
    \<and> (\<forall>c. z_charset_is_enabled s' c \<longleftrightarrow> z_charset_is_enabled s c \<or> (\<exists>it \<in> set items. c \<in> item_chars it))"
proof -
  obtain s1 state c where l: "charset_loop (concat (map item_text items)) 0 Parse_start Parse_start (char_of (0 :: nat)) s = Inr (s1, state, c)"
    "charset_ok s1" "state = Parse_start \<and> charset_set s1 = charset_set s \<union> (\<Union>it \<in> set items. item_chars it)
      \<or> state = Parse_dash \<and> insert c (charset_set s1) = charset_set s \<union> (\<Union>it \<in> set items. item_chars it)"
    using items_loop[OF assms, of Parse_start "[]" "char_of (0 :: nat)"] by auto
  obtain s' where s': "z_charset_parse s (concat (map item_text items)) = Inr (s', True)" "charset_ok s'"
    "charset_set s' = charset_set s \<union> (\<Union>it \<in> set items. item_chars it)"
    using l enable_set[OF l(2), of c] by (auto simp: z_charset_parse_def)
  then show ?thesis unfolding charset_set_def by (intro exI[of _ s']) (auto simp: set_eq_iff)
qed

lemma code_examples: "code (CHR ''A'') = 65" "code (CHR ''0'') = 48" "code (CHR ''5'') = 53" "code (CHR ''9'') = 57" "code dash = 45"
  "code (CHR 0xFF) = 255" "code backslash = 92"
  by code_simp+

theorem charset_parse_items_witness:
  "\<exists>s'. z_charset_parse z_charset_init [CHR ''A'', CHR ''0'', dash, CHR ''9'', backslash, dash] = Inr (s', True)
    \<and> z_charset_is_enabled s' (CHR ''5'') \<and> z_charset_is_enabled s' dash"
proof -
  let ?items = "[Single (CHR ''A''), Span (CHR ''0'') (CHR ''9''), Single dash]"
  have "charset_ok z_charset_init" "\<forall>it \<in> set ?items. item_ok it"
    by (simp_all add: charset_ok_def z_charset_init_def code_examples)
  from charset_parse_items[OF this] obtain s' where "z_charset_parse z_charset_init (concat (map item_text ?items)) = Inr (s', True)"
    "\<forall>c. z_charset_is_enabled s' c \<longleftrightarrow> z_charset_is_enabled z_charset_init c \<or> (\<exists>it \<in> set ?items. c \<in> item_chars it)" by blast
  then show ?thesis by (intro exI[of _ s']) (simp add: escaped_def code_examples)
qed

text \<open>an escaped backslash is not the character itself: stepping back, the parser takes it for a second escape and the
  next character for the end of a range, so of a backslash and an A neither gets into the set; and a character 255 that
  another one follows is looked for in an endless loop.\<close>

theorem charset_parse_errors:
  "(\<exists>s. z_charset_parse z_charset_init [backslash, backslash, CHR ''A''] = Inr (s, True)
      \<and> \<not> z_charset_is_enabled s backslash \<and> \<not> z_charset_is_enabled s (CHR ''A''))
   \<and> z_charset_parse z_charset_init [CHR 0xFF, CHR ''A''] = Inl Endless_loop"
proof -
  let ?s = "[backslash, backslash, CHR ''A'']"
  have a: "charset_loop ?s 0 Parse_start Parse_start c s = Inr (s, Parse_start, backslash)" for c s
    by (simp add: charset_loop.simps enable_range_def code_examples)
  have b: "charset_loop [CHR 0xFF, CHR ''A''] 0 Parse_start Parse_start c s = Inl Endless_loop" for c s
    by (simp add: charset_loop.simps enable_range_def code_examples)
  have "\<not> z_charset_is_enabled z_charset_init c" for c
    using ndx_less[of c] by (simp add: z_charset_is_enabled_def z_charset_init_def)
  then show ?thesis using a b by (simp add: z_charset_parse_def)
qed

subsection \<open>Dumps of text\<close>

lemma text_dump_empty [simp]: "z_format_text_dump [] = Inr []"
  by (subst z_format_text_dump.simps) simp

text \<open>A turn on a line \<open>l\<close> and what follows it.\<close>

lemma text_dump_turn:
  assumes "\<forall>b \<in> set l. \<not> line_end b" "r = [] \<or> line_end (hd r)" "l @ r \<noteq> []"
  shows "z_format_text_dump (l @ r) =
    (let rest = skip_byte 10 (skip_byte 13 r)
     in if length rest = length (l @ r) then Inl Endless_loop
        else rbind (z_format_text_dump rest) (\<lambda>ls. Inr (take (min 1023 (if r = [] then length l - 1 else length l)) (l @ r) # ls)))"
proof -
  have "takeWhile (\<lambda>b. \<not> line_end b) (l @ r) = l" using assms(1,2) by (cases r) (auto simp: takeWhile_append)
  moreover have "(if i \<ge> 1024 then 1023 else i) = min 1023 i" for i :: nat by auto
  ultimately show ?thesis using assms(3) by (subst z_format_text_dump.simps) (auto simp: Let_def)
qed

lemma text_dump_result: "z_format_text_dump buf = Inl Endless_loop \<and> 0 \<in> set buf \<or> (\<exists>ls. z_format_text_dump buf = Inr ls) \<and> 0 \<notin> set buf"
proof (induction buf rule: length_induct)
  case (1 buf)
  show ?case
  proof (cases "buf = []")
    case False
    let ?l = "takeWhile (\<lambda>b. \<not> line_end b) buf" and ?r = "dropWhile (\<lambda>b. \<not> line_end b) buf"
    let ?rest = "skip_byte 10 (skip_byte 13 ?r)"
    have b: "?l @ ?r = buf" by simp
    have l: "\<forall>b \<in> set ?l. \<not> line_end b" by (auto dest: set_takeWhileD)
    have r: "?r = [] \<or> line_end (hd ?r)" using hd_dropWhile[of "\<lambda>b. \<not> line_end b" buf] by auto
    have l0: "0 \<notin> set ?l"
    proof
      assume "0 \<in> set ?l"
      then have "\<not> line_end 0" using l by blast
      then show False by (simp add: line_end_def)
    qed
    have rest: "0 \<in> set ?rest \<longleftrightarrow> 0 \<in> set buf" "length ?rest \<le> length ?r" "length ?rest = length ?r \<longrightarrow> ?r = [] \<or> hd ?r = 0"
    proof -
      have "0 \<in> set ?rest \<longleftrightarrow> 0 \<in> set ?r" by (cases ?r; cases "tl ?r") (auto simp: skip_byte_def)
      moreover have "0 \<in> set ?r \<longleftrightarrow> 0 \<in> set buf" using l0 b by (metis Un_iff set_append)
      ultimately show "0 \<in> set ?rest \<longleftrightarrow> 0 \<in> set buf" by simp
      show "length ?rest \<le> length ?r" by (auto simp: skip_byte_def)
      show "length ?rest = length ?r \<longrightarrow> ?r = [] \<or> hd ?r = 0"
        using r by (cases ?r; cases "tl ?r") (auto simp: skip_byte_def line_end_def)
    qed
    have len: "length ?l + length ?r = length buf" using b by (metis length_append)
    show ?thesis
    proof (cases "length ?rest = length buf")
      case True
      then have "length ?l = 0" and lr: "length ?rest = length ?r" using len rest(2) by linarith+
      then have "?l = []" by (simp only: length_0_conv)
      then have "?r = buf" using b by (metis append_Nil)
      then have "0 \<in> set buf" using rest(3) lr False by (metis hd_in_set)
      then show ?thesis using text_dump_turn[OF l r] False True by simp
    next
      case ne: False
      then have "length ?rest < length buf" using rest(2) len by simp
      then have "z_format_text_dump ?rest = Inl Endless_loop \<and> 0 \<in> set ?rest \<or> (\<exists>ls. z_format_text_dump ?rest = Inr ls) \<and> 0 \<notin> set ?rest"
        using 1 by blast
      then show ?thesis using text_dump_turn[OF l r] False ne rest(1) by (auto simp: Let_def)
    qed
  qed simp
qed

text \<open>the text dump of a buffer returns exactly when no byte of it is NUL; on a NUL it logs empty lines for ever. When it
  returns, a last line without an end of line lacks its last byte.\<close>

theorem text_dump_ends_without_nul:
  "(if 0 \<in> set buf then z_format_text_dump buf = Inl Endless_loop else \<exists>ls. z_format_text_dump buf = Inr ls)
   \<and> (l \<noteq> [] \<and> length l \<le> 1024 \<and> (\<forall>b \<in> set l. b \<notin> {0, 13, 10}) \<longrightarrow> z_format_text_dump l = Inr [butlast l])"
proof -
  have "z_format_text_dump l = Inr [butlast l]" if "l \<noteq> []" "length l \<le> 1024" "\<forall>b \<in> set l. b \<notin> {0, 13, 10}"
  proof -
    have "\<forall>b \<in> set l. \<not> line_end b" using that(3) by (auto simp: line_end_def)
    moreover have "min 1023 (length l - 1) = length l - 1" using that(2) by simp
    ultimately show ?thesis using text_dump_turn[of l "[]"] that(1) by (simp add: skip_byte_def Let_def butlast_conv_take)
  qed
  then show ?thesis using text_dump_result[of buf] by auto
qed

theorem text_dump_ends_without_nul_witness:
  "z_format_text_dump [104, 105, 0, 10] = Inl Endless_loop \<and> z_format_text_dump [104, 105] = Inr [[104]]"
  using text_dump_ends_without_nul[of "[104, 105, 0, 10]" "[104, 105]"] by simp

subsection \<open>Escaping and back\<close>

abbreviation nul :: char where "nul \<equiv> CHR 0x00"

lemma zero_filled_string: "nul \<notin> set s \<Longrightarrow> length s < n \<Longrightarrow> until_nul (zero_filled n s) = s \<and> nul \<in> set (zero_filled n s)"
proof -
  assume a: "nul \<notin> set s" "length s < n"
  then have "takeWhile (\<lambda>c. c \<noteq> nul) (s @ replicate (n - length s) nul) = s @ takeWhile (\<lambda>c. c \<noteq> nul) (replicate (n - length s) nul)"
    by (intro takeWhile_append2) auto
  then show ?thesis using a(2) by (simp add: until_nul_def zero_filled_def takeWhile_replicate)
qed

lemma escape_loop_props: "nul \<notin> set s \<Longrightarrow> length s \<le> n \<Longrightarrow> nul \<notin> set (escape_loop n s) \<and> length (escape_loop n s) \<le> 2 * length s"
  by (induction n s rule: escape_loop.induct) auto

lemma compress_escape:
  "length s \<le> n \<Longrightarrow> length (escape_loop n s) \<le> m \<Longrightarrow> compress_loop m (escape_loop n s) = s"
proof (induction n s arbitrary: m rule: escape_loop.induct)
  case (1 n c cs)
  let ?e = "escape_loop n cs"
  have ih: "length ?e \<le> k \<Longrightarrow> compress_loop k ?e = cs" for k using 1 by simp
  show ?case
  proof (cases "c = CHR '' '' \<or> c = CHR ''%''")
    case True
    then obtain k where k: "m = Suc (Suc k)" "length ?e \<le> k" using 1(3) by (cases m; cases "m - 1") auto
    then show ?thesis using True ih[of k] by auto
  next
    case False
    then obtain k where k: "m = Suc k" "length ?e \<le> k" using 1(3) by (cases m) auto
    then show ?thesis using False ih[of k] by (cases ?e) auto
  qed
qed (auto elim: compress_loop.elims)

lemma compress_length: "length (compress_loop n s) \<le> length s"
  by (induction n s rule: compress_loop.induct) (auto simp: le_SucI)

text \<open>escaping a string and compressing the result, both with the length left to the functions, gives the string back, and
  both arrays end in a NUL; with the length of the string given, the array of a string of which every character
  is escaped, or no character of which is, has no NUL.\<close>

theorem escape_roundtrip:
  assumes "nul \<notin> set s"
  shows "until_nul (z_str_compress (until_nul (z_str_escape s (-1))) (-1)) = s
    \<and> nul \<in> set (z_str_escape s (-1)) \<and> nul \<in> set (z_str_compress (until_nul (z_str_escape s (-1))) (-1))
    \<and> (set s \<subseteq> {CHR '' '', CHR ''%''} \<longrightarrow> nul \<notin> set (z_str_escape s (int (length s))))
    \<and> (CHR ''%'' \<notin> set s \<longrightarrow> nul \<notin> set (z_str_compress s (int (length s))))"
proof -
  let ?n = "length s + 1"
  have e: "nul \<notin> set (escape_loop ?n s)" "length (escape_loop ?n s) < 2 * ?n"
    using escape_loop_props[OF assms, of ?n] by simp_all
  have ze: "until_nul (z_str_escape s (-1)) = escape_loop ?n s" "nul \<in> set (z_str_escape s (-1))"
    using zero_filled_string[OF e(1), of "?n * 2"] e(2) by (simp_all add: z_str_escape_def given_len_def)
  let ?m = "length (escape_loop ?n s) + 1"
  have c: "compress_loop ?m (escape_loop ?n s) = s" by (rule compress_escape) simp_all
  have "length s < ?m" using compress_length[of ?m "escape_loop ?n s"] c by simp
  then have zc: "until_nul (z_str_compress (escape_loop ?n s) (-1)) = s" "nul \<in> set (z_str_compress (escape_loop ?n s) (-1))"
    using zero_filled_string[OF assms, of ?m] c by (simp_all add: z_str_compress_def given_len_def)
  have f1: "nul \<notin> set (z_str_escape s (int (length s)))" if "set s \<subseteq> {CHR '' '', CHR ''%''}"
  proof -
    have "length (escape_loop (length s) s) = 2 * length s" using that by (induction s) auto
    then show ?thesis using escape_loop_props[OF assms, of "length s"] by (simp add: z_str_escape_def given_len_def zero_filled_def)
  qed
  have f2: "nul \<notin> set (z_str_compress s (int (length s)))" if "CHR ''%'' \<notin> set s"
  proof -
    have "length s \<le> n \<Longrightarrow> compress_loop n s = s" for n using that
    proof (induction s arbitrary: n)
      case (Cons c s)
      then show ?case by (cases n; cases s) auto
    qed (auto elim: compress_loop.elims)
    then show ?thesis using assms by (simp add: z_str_compress_def given_len_def zero_filled_def)
  qed
  show ?thesis using ze zc f1 f2 by simp
qed

theorem escape_roundtrip_witness:
  "until_nul (z_str_compress (until_nul (z_str_escape ''50 % of'' (-1))) (-1)) = ''50 % of''"
  using escape_roundtrip[of "''50 % of''"] by simp

subsection \<open>Port ranges\<close>

text \<open>The text of a list of ports and ranges.\<close>

fun range_text :: "nat \<times> nat option \<Rightarrow> string" where
  "range_text (lo, None) = decimal lo"
| "range_text (lo, Some hi) = decimal lo @ dash # decimal hi"

fun ranges_text :: "(nat \<times> nat option) list \<Rightarrow> string" where
  "ranges_text [] = []"
| "ranges_text [r] = range_text r"
| "ranges_text (r # rs) = range_text r @ CHR '','' # ranges_text rs"

fun in_port_range :: "nat \<Rightarrow> nat \<times> nat option \<Rightarrow> bool" where
  "in_port_range p (lo, None) = (p = lo)"
| "in_port_range p (lo, Some hi) = (lo \<le> p \<and> p \<le> hi)"

fun range_fits :: "nat \<times> nat option \<Rightarrow> bool" where
  "range_fits (lo, h) \<longleftrightarrow> lo < 2 ^ 63 \<and> (\<forall>hi. h = Some hi \<longrightarrow> hi < 2 ^ 63)"

lemma strtol_decimal:
  assumes "r = [] \<or> \<not> isdigit (hd r)" "n < 2 ^ 63"
  shows "strtol (decimal n @ r) = (int n, r)"
proof -
  obtain c cs where d: "decimal n = c # cs" using decimal_nonempty[of n] by (cases "decimal n") auto
  have "isdigit c" using decimal_digits[of c n] d by simp
  then have "\<not> isspace c" "c \<noteq> dash" "c \<noteq> CHR ''+''" by (auto simp: isdigit_def isspace_def code_seps)
  moreover have "takeWhile isdigit (decimal n @ r) = decimal n" "dropWhile isdigit (decimal n @ r) = r"
    using decimal_digits[of _ n] assms(1) by (auto simp: takeWhile_append2 dropWhile_append2) (cases r, auto)+
  ultimately show ?thesis using assms(2) digits_value_decimal[of n] unfolding strtol_def d by (simp add: Let_def)
qed

lemma port_turn:
  assumes "range_fits r" "e = [] \<or> hd e = CHR '',''"
  shows "z_port_enabled (range_text r @ e) p \<longleftrightarrow> in_port_range p r \<or> z_port_enabled (tl e) p"
proof -
  have nd: "\<not> isdigit (CHR '','')" "\<not> isdigit dash" by code_simp+
  obtain lo h where r: "r = (lo, h)" by (cases r)
  have ne: "range_text r @ e \<noteq> []" using decimal_nonempty r by (cases h) auto
  show ?thesis
  proof (cases h)
    case None
    then have "strtol (range_text r @ e) = (int lo, e)" using strtol_decimal[of e lo] assms nd r by auto
    moreover have "\<not> (e \<noteq> [] \<and> hd e = dash)" using assms(2) by auto
    ultimately show ?thesis using ne assms(2) r None by (subst z_port_enabled.simps) auto
  next
    case (Some hi)
    then have "strtol (range_text r @ e) = (int lo, dash # decimal hi @ e)" "strtol (decimal hi @ e) = (int hi, e)"
      using strtol_decimal[of "dash # decimal hi @ e" lo] strtol_decimal[of e hi] assms nd r by auto
    then show ?thesis using ne assms(2) r Some by (subst z_port_enabled.simps) auto
  qed
qed

text \<open>a port is enabled by the text of a list of ports and ranges exactly when it is one of the ports or in one of the ranges.\<close>

theorem port_enabled_iff:
  assumes "\<forall>r \<in> set rs. range_fits r"
  shows "z_port_enabled (ranges_text rs) p \<longleftrightarrow> (\<exists>r \<in> set rs. in_port_range p r)"
  using assms
proof (induction rs rule: ranges_text.induct)
  case 1
  show ?case by (subst z_port_enabled.simps) simp
next
  case (2 r)
  have "\<not> z_port_enabled [] p" by (subst z_port_enabled.simps) simp
  then show ?case using port_turn[of r "[]" p] 2 by simp
next
  case (3 r r' rs)
  then show ?case using port_turn[of r "CHR '','' # ranges_text (r' # rs)" p] by simp
qed

theorem port_enabled_iff_witness:
  "z_port_enabled (ranges_text [(80, None), (1024, Some 65535)]) 8080 \<and> \<not> z_port_enabled (ranges_text [(80, None), (1024, Some 65535)]) 443"
proof -
  have "\<forall>r \<in> set [(80, None), (1024, Some 65535)]. range_fits r" by simp
  from port_enabled_iff[OF this, of 8080] port_enabled_iff[OF this, of 443] show ?thesis by simp
qed

subsection \<open>Names and times\<close>

lemma code_tolower: "code (tolower c) = (if 65 \<le> code c \<and> code c \<le> 90 then code c + 32 else code c)"
  by (simp add: tolower_def)

lemma toupper_tolower: "tolower c = tolower d \<Longrightarrow> toupper_int c = toupper_int d"
proof -
  assume "tolower c = tolower d"
  then have "code (tolower c) = code (tolower d)" by simp
  then have "(if 65 \<le> code c \<and> code c \<le> 90 then code c + 32 else code c) = (if 65 \<le> code d \<and> code d \<le> 90 then code d + 32 else code d)"
    by (simp add: code_tolower)
  then show ?thesis unfolding toupper_int_def by (simp split: if_splits; linarith)
qed

lemma casestr_hash_respects_equal: "z_casestr_equal k l \<Longrightarrow> z_casestr_hash k = z_casestr_hash l"
proof -
  have f: "map tolower k = map tolower l \<Longrightarrow>
      fold (\<lambda>c h. push_bit 5 h - h + word_of_int (toupper_int c)) k h = fold (\<lambda>c h. push_bit 5 h - h + word_of_int (toupper_int c)) l (h :: 32 word)"
    for k l h
  proof (induction k arbitrary: l h)
    case (Cons c k)
    then obtain d l' where l: "l = d # l'" "tolower c = tolower d" "map tolower k = map tolower l'" by (cases l) auto
    show ?case using Cons(1)[OF l(3)] toupper_tolower[OF l(2)] l(1) by simp
  qed simp
  assume "z_casestr_equal k l"
  then have e: "map tolower k = map tolower l" by (simp add: z_casestr_equal_def)
  show ?thesis
  proof (cases k)
    case (Cons c cs)
    then obtain d ds where l: "l = d # ds" "tolower c = tolower d" "map tolower cs = map tolower ds" using e by (cases l) auto
    show ?thesis using f[OF l(3)] toupper_tolower[OF l(2)] l(1) Cons by (simp add: z_casestr_hash_def)
  qed (use e in simp)
qed

definition tv_normal :: "timeval \<Rightarrow> bool" where
  "tv_normal t \<longleftrightarrow> 0 \<le> tv_usec t \<and> tv_usec t < 1000000"

lemma time_val_compare_diff: "tv_normal t \<Longrightarrow> tv_normal u \<Longrightarrow> g_time_val_compare t u = sgn (g_time_val_diff t u)"
  by (auto simp: g_time_val_compare_def g_time_val_diff_def tv_normal_def sgn_if)

lemma time_val_subtract_diff:
  "tv_normal t \<Longrightarrow> tv_normal u \<Longrightarrow> tv_normal (g_time_val_subtract t u) \<and>
   g_time_val_diff t u = tv_sec (g_time_val_subtract t u) * 1000000 + tv_usec (g_time_val_subtract t u)"
  by (auto simp: g_time_val_subtract_def g_time_val_diff_def tv_normal_def Let_def algebra_simps)

subsection \<open>Dumps of data\<close>

text \<open>A row: sixteen columns of hexadecimal digits, a space, the printable characters.\<close>

definition hex_cell :: "bytes \<Rightarrow> bytes" where
  "hex_cell buf = (case buf of [] \<Rightarrow> [32, 32, 32] | b # bs \<Rightarrow> [hexdigit (unat b div 16), hexdigit (unat b mod 16), 32])"

primrec hex_cells :: "nat \<Rightarrow> bytes \<Rightarrow> bytes" where
  "hex_cells 0 buf = []"
| "hex_cells (Suc n) buf = hex_cell buf @ hex_cells n (tl buf)"

definition printable :: "byte \<Rightarrow> byte" where
  "printable b = (if isprint b then b else 46)"

definition hex_row :: "bytes \<Rightarrow> bytes" where
  "hex_row bs = hex_cells 16 bs @ 32 # map printable (take 16 bs)"

lemma hex_cell_length [simp]: "length (hex_cell buf) = 3"
  by (simp add: hex_cell_def split: list.split)

lemma hex_cells_length [simp]: "length (hex_cells n buf) = 3 * n"
  by (induction n arbitrary: buf) auto

lemma snprintf_fits:
  assumes "pos + length t < length line"
  shows "\<exists>line'. snprintf_at line pos t = Inr line' \<and> length line' = length line \<and> take (pos + length t) line' = take pos line @ t"
proof -
  have "min (length t) (length line - pos - 1) = length t" using assms by simp
  then have "snprintf_at line pos t = Inr (overwrite pos (t @ [0]) line)" using assms by (simp add: snprintf_at_def Let_def)
  then show ?thesis using assms by (simp add: overwrite_def)
qed

lemma hex_columns_fit:
  "pos + 3 * n < length line \<Longrightarrow> \<exists>line'. hex_columns n buf line pos = Inr line' \<and> length line' = length line
     \<and> take (pos + 3 * n) line' = take pos line @ hex_cells n buf"
proof (induction n arbitrary: buf line pos)
  case (Suc n)
  obtain l1 where l1: "snprintf_at line pos (hex_cell buf) = Inr l1" "length l1 = length line" "take (pos + 3) l1 = take pos line @ hex_cell buf"
    using snprintf_fits[of pos "hex_cell buf" line] Suc(2) by auto
  obtain l2 where "hex_columns n (tl buf) l1 (pos + 3) = Inr l2" "length l2 = length l1"
    "take (pos + 3 + 3 * n) l2 = take (pos + 3) l1 @ hex_cells n (tl buf)" using Suc(1)[of "pos + 3" l1 "tl buf"] Suc(2) l1(2) by auto
  then show ?case using l1 by (simp add: hex_cell_def algebra_simps)
qed simp

lemma text_columns_fit:
  "pos + n \<le> length line \<Longrightarrow> \<exists>line'. text_columns n buf line pos j = (line', pos + min n (length buf), j + min n (length buf))
     \<and> length line' = length line \<and> take (pos + min n (length buf)) line' = take pos line @ map printable (take n buf)"
proof (induction n arbitrary: buf line pos j)
  case (Suc n)
  show ?case
  proof (cases buf)
    case (Cons b bs)
    let ?l = "line[pos := printable b]"
    have t: "take (Suc pos) ?l = take pos line @ [printable b]" using Suc(2) by (simp add: take_Suc_conv_app_nth)
    obtain l2 where "text_columns n bs ?l (pos + 1) (j + 1) = (l2, pos + 1 + min n (length bs), j + 1 + min n (length bs))"
      "length l2 = length ?l" "take (pos + 1 + min n (length bs)) l2 = take (pos + 1) ?l @ map printable (take n bs)"
      using Suc(1)[of "pos + 1" ?l bs "j + 1"] Suc(2) by auto
    then show ?thesis using Cons Suc(2) t by (simp add: printable_def)
  qed simp
qed simp

lemma hexdigit_nonzero: "n < 16 \<Longrightarrow> hexdigit n \<noteq> 0"
proof -
  assume "n < 16"
  then have "unat (hexdigit n) = (if n < 10 then 48 + n else 55 + n)" by (auto simp: hexdigit_def unat_of_nat simp del: of_nat_add)
  then have "unat (hexdigit n) \<noteq> 0" by simp
  then show ?thesis by auto
qed

lemma hex_row_no_nul: "0 \<notin> set (hex_row bs)"
proof -
  have c: "0 \<notin> set (hex_cell buf)" for buf
    using hexdigit_nonzero unat_byte_less by (auto simp: hex_cell_def less_mult_imp_div_less split: list.split)
  have "0 \<notin> set (hex_cells n buf)" for n buf by (induction n arbitrary: buf) (auto simp: c)
  moreover have "printable b \<noteq> 0" for b by (auto simp: printable_def isprint_def)
  ultimately show ?thesis by (auto simp: hex_row_def)
qed

lemma hexdump_row:
  assumes "66 \<le> length line"
  shows "\<exists>line'. z_hexdump line i buf = Inr (line', min 16 (length buf - i)) \<and> length line' = length line
    \<and> c_string line' = hex_row (drop i buf)"
proof -
  let ?b = "drop i buf" and ?k = "min 16 (length buf - i)"
  obtain l1 where l1: "hex_columns 16 ?b line 0 = Inr l1" "length l1 = length line" "take 48 l1 = hex_cells 16 ?b"
    using hex_columns_fit[of 0 16 line ?b] assms by auto
  obtain l2 where l2: "snprintf_at l1 48 [32] = Inr l2" "length l2 = length line" "take 49 l2 = hex_cells 16 ?b @ [32]"
    using snprintf_fits[of 48 "[32]" l1] assms l1 by auto
  obtain l3 where l3: "text_columns 16 ?b l2 49 0 = (l3, 49 + ?k, ?k)" "length l3 = length line" "take (49 + ?k) l3 = hex_row ?b"
    using text_columns_fit[of 49 16 l2 ?b 0] assms l2 by (auto simp: hex_row_def)
  let ?l = "l3[49 + ?k := 0]"
  have "?l = hex_row ?b @ 0 # drop (49 + ?k + 1) l3" using l3(2,3) assms by (simp add: upd_conv_take_nth_drop)
  moreover have "takeWhile (\<lambda>b. b \<noteq> 0) (hex_row ?b @ 0 # r) = hex_row ?b" for r
    using hex_row_no_nul[of ?b] by (subst takeWhile_append2) auto
  ultimately have "c_string ?l = hex_row ?b" unfolding c_string_def by (simp only:)
  moreover have "z_hexdump line i buf = Inr (?l, ?k)" using l1(1) l2(1) l3(1,2) assms by (simp add: z_hexdump_def)
  ultimately show ?thesis using l3(2) by auto
qed

text \<open>the dump of a buffer logs one row for every sixteen bytes and one for the rest, each with its offset and made of the
  bytes at that offset, never leaving a line buffer of at least 66 bytes (the code gives it 1024); in one
  of 65 bytes a full row ends in a write behind it.\<close>

theorem data_dump_rows:
  assumes "66 \<le> length line"
  shows "z_format_data_dump line buf = Inr (map (\<lambda>k. (16 * k, hex_row (drop (16 * k) buf))) [0..<(length buf + 15) div 16])
    \<and> (16 \<le> length buf \<longrightarrow> z_format_data_dump (take 65 line) buf = Inl Bad_access)"
proof -
  have dump: "data_dump line (16 * k) buf = Inr (map (\<lambda>k. (16 * k, hex_row (drop (16 * k) buf))) [k..<(length buf + 15) div 16])"
    if "66 \<le> length line" for line k
    using that
  proof (induction "(length buf + 15) div 16 - k" arbitrary: line k)
    case 0
    then have "16 * k \<ge> length buf" by linarith
    then show ?case using 0(1) by (subst data_dump.simps) simp
  next
    case (Suc d)
    then have lt: "16 * k < length buf" "k < (length buf + 15) div 16" by linarith+
    obtain l1 where l1: "z_hexdump line (16 * k) buf = Inr (l1, min 16 (length buf - 16 * k))" "length l1 = length line"
      "c_string l1 = hex_row (drop (16 * k) buf)" using hexdump_row[OF Suc(3)] by blast
    have up: "[k..<(length buf + 15) div 16] = k # [k + 1..<(length buf + 15) div 16]" using lt(2) by (simp add: upt_conv_Cons)
    have nxt: "data_dump l1 (16 * k + min 16 (length buf - 16 * k)) buf
      = Inr (map (\<lambda>k. (16 * k, hex_row (drop (16 * k) buf))) [k + 1..<(length buf + 15) div 16])"
    proof (cases "length buf - 16 * k \<ge> 16")
      case True
      then have "16 * k + min 16 (length buf - 16 * k) = 16 * (k + 1)" by simp
      moreover have "d = (length buf + 15) div 16 - (k + 1)" "66 \<le> length l1" using Suc(2,3) l1(2) by simp_all
      ultimately show ?thesis using Suc(1)[of "k + 1" l1] by metis
    next
      case False
      then have "16 * k + min 16 (length buf - 16 * k) = length buf" "[k + 1..<(length buf + 15) div 16] = []" using lt(1) by auto
      then show ?thesis by (subst data_dump.simps) simp
    qed
    then show ?case using lt(1) l1 unfolding up by (subst data_dump.simps) simp
  qed
  have short: "z_format_data_dump (take 65 line) buf = Inl Bad_access" if q: "16 \<le> length buf"
  proof -
    let ?l = "take 65 line"
    have len: "length ?l = 65" using assms by simp
    obtain l1 where l1: "hex_columns 16 buf ?l 0 = Inr l1" "length l1 = 65" using hex_columns_fit[of 0 16 ?l buf] len assms by auto
    obtain l2 where l2: "snprintf_at l1 48 [32] = Inr l2" "length l2 = 65" using snprintf_fits[of 48 "[32]" l1] l1 by auto
    obtain l3 where l3: "text_columns 16 buf l2 49 0 = (l3, 65, 16)" "length l3 = 65" using text_columns_fit[of 49 16 l2 buf 0] l2(2) q by auto
    then have "z_hexdump ?l 0 buf = Inl Bad_access" using l1(1) l2(1) by (simp add: z_hexdump_def)
    then show ?thesis using q unfolding z_format_data_dump_def by (subst data_dump.simps) auto
  qed
  show ?thesis using dump[OF assms, of 0] short by (simp add: z_format_data_dump_def)
qed

theorem data_dump_rows_witness:
  "z_format_data_dump (replicate 1024 0) (replicate 20 65)
    = Inr [(0, hex_row (drop (16 * 0) (replicate 20 65))), (16, hex_row (drop (16 * 1) (replicate 20 65)))]"
  using data_dump_rows[of "replicate 1024 0" "replicate 20 65"] by (simp add: upt_conv_Cons)

end
