(* ===== verification/Zobject.thy ===== *)
theory Zobject
  imports Refcount
begin

section \<open>The object system\<close>

text \<open>
  \<open>src/zobject.c\<close> and the inline functions of \<open>src/zorp/zobject.h\<close>: class descriptors with a table of methods in
  which NULL entries are taken from the parent class when the class is first instantiated, instances with
  a reference counter, and the checks of compatibility. A class is a position in the list of descriptors, a
  method an identifier, an object a position in the store. Walking up a chain of parents longer than the
  number of classes means that it has a cycle.
\<close>

record zclass =
  zc_isa :: "nat option"
  zc_resolved :: bool
  zc_super :: "nat option"
  zc_name :: string
  zc_size :: nat
  zc_methods :: "nat option list"

record zobject =
  ob_ref :: int
  ob_isa :: nat

text \<open>The descriptor at position 0 is \<open>ZClass__class\<close>; \<open>ow_freed\<close> lists the calls of free methods.\<close>

record oworld =
  ow_classes :: "zclass list"
  ow_objects :: "zobject option list"
  ow_freed :: "(nat option \<times> nat) list"

definition get_cl :: "oworld \<Rightarrow> nat \<Rightarrow> zclass result" where
  "get_cl w c = (if c < length (ow_classes w) then Inr (ow_classes w ! c) else Inl Bad_access)"

definition put_cl :: "nat \<Rightarrow> zclass \<Rightarrow> oworld \<Rightarrow> oworld" where
  "put_cl c k w = w\<lparr>ow_classes := (ow_classes w)[c := k]\<rparr>"

definition get_ob :: "oworld \<Rightarrow> nat \<Rightarrow> zobject result" where
  "get_ob w a = (case slot (ow_objects w) a of None \<Rightarrow> Inl Bad_access | Some x \<Rightarrow> Inr x)"

subsection \<open>Compatibility\<close>

text \<open>\<open>while (p && p != class) p = p->super_class\<close>\<close>

fun subclass_walk :: "nat \<Rightarrow> oworld \<Rightarrow> nat \<Rightarrow> nat option \<Rightarrow> bool result" where
  "subclass_walk n w class None = Inr False"
| "subclass_walk 0 w class (Some p) = (if p = class then Inr True else Inl Endless_loop)"
| "subclass_walk (Suc n) w class (Some p) =
     (if p = class then Inr True else rbind (get_cl w p) (\<lambda>k. subclass_walk n w class (zc_super k)))"

definition z_object_is_subclass :: "oworld \<Rightarrow> nat \<Rightarrow> nat \<Rightarrow> bool result" where
  "z_object_is_subclass w class subclass = subclass_walk (length (ow_classes w)) w class (Some subclass)"

definition z_object_is_compatible :: "oworld \<Rightarrow> nat option \<Rightarrow> nat \<Rightarrow> bool result" where
  "z_object_is_compatible w self class =
     (case self of None \<Rightarrow> Inr False | Some a \<Rightarrow> rbind (get_ob w a) (\<lambda>x. z_object_is_subclass w class (ob_isa x)))"

definition z_object_is_instance :: "oworld \<Rightarrow> nat option \<Rightarrow> nat \<Rightarrow> bool result" where
  "z_object_is_instance w self class =
     (case self of None \<Rightarrow> Inr False | Some a \<Rightarrow> rbind (get_ob w a) (\<lambda>x. Inr (ob_isa x = class)))"

text \<open>The version with debugging; the other one returns its argument.\<close>

definition z_object_check_compatible :: "oworld \<Rightarrow> nat option \<Rightarrow> nat \<Rightarrow> nat option result" where
  "z_object_check_compatible w self class =
     (case self of None \<Rightarrow> Inr None
      | Some a \<Rightarrow> rbind (z_object_is_compatible w self class) (\<lambda>ok. rbind (g_assert ok) (\<lambda>_. Inr self)))"

subsection \<open>Instances\<close>

text \<open>The loop over the methods of the parent; the table of the class may be too short for them.\<close>

fun inherit_methods :: "nat option list \<Rightarrow> nat option list \<Rightarrow> nat option list result" where
  "inherit_methods [] own = Inr own"
| "inherit_methods (m # ms) [] = Inl Bad_access"
| "inherit_methods (m # ms) (x # own) =
     rbind (inherit_methods ms own) (\<lambda>r. Inr ((if x = None then m else x) # r))"

fun resolve_funcs :: "nat \<Rightarrow> oworld \<Rightarrow> nat \<Rightarrow> oworld result" where
  "resolve_funcs 0 w c = Inl Endless_loop"
| "resolve_funcs (Suc n) w c =
     rbind (get_cl w c) (\<lambda>k.
       if zc_resolved k then Inr w
       else case zc_super k of
         None \<Rightarrow> Inr (put_cl c (k\<lparr>zc_resolved := True\<rparr>) w)
       | Some p \<Rightarrow>
           rbind (resolve_funcs n w p) (\<lambda>w1.
           rbind (get_cl w1 p) (\<lambda>kp.
           rbind (inherit_methods (zc_methods kp) (zc_methods k)) (\<lambda>ms.
             Inr (put_cl c (k\<lparr>zc_methods := ms, zc_resolved := True\<rparr>) w1)))))"

definition z_object_resolve_funcs :: "oworld \<Rightarrow> nat \<Rightarrow> oworld result" where
  "z_object_resolve_funcs w class = resolve_funcs (length (ow_classes w) + 1) w class"

definition z_object_new :: "oworld \<Rightarrow> nat \<Rightarrow> (oworld \<times> nat) result" where
  "z_object_new w class =
     rbind (get_cl w class) (\<lambda>k.
       let w1 = (if zc_isa k = None then put_cl class (k\<lparr>zc_isa := Some 0\<rparr>) w else w)
       in rbind (if \<not> zc_resolved k then z_object_resolve_funcs w1 class else Inr w1) (\<lambda>w2.
            Inr (w2\<lparr>ow_objects := ow_objects w2 @ [Some \<lparr>ob_ref = z_refcount_set 0 1, ob_isa = class\<rparr>]\<rparr>,
                 length (ow_objects w2))))"

definition z_object_new_compatible :: "oworld \<Rightarrow> nat \<Rightarrow> nat \<Rightarrow> (oworld \<times> nat) result" where
  "z_object_new_compatible w class base =
     rbind (z_object_is_subclass w base class) (\<lambda>ok. if ok then z_object_new w class else Inl Assert_failed)"

definition z_object_ref :: "oworld \<Rightarrow> nat option \<Rightarrow> (oworld \<times> nat option) result" where
  "z_object_ref w self =
     (case self of None \<Rightarrow> Inr (w, None)
      | Some a \<Rightarrow> rbind (get_ob w a) (\<lambda>x. rbind (z_refcount_inc (ob_ref x)) (\<lambda>n.
          Inr (w\<lparr>ow_objects := (ow_objects w)[a := Some (x\<lparr>ob_ref := n\<rparr>)]\<rparr>, self))))"

text \<open>The free method is the first of the table; \<open>zobject\<close> is the position of \<open>ZObject__class\<close>.\<close>

definition z_object_unref :: "nat \<Rightarrow> oworld \<Rightarrow> nat option \<Rightarrow> oworld result" where
  "z_object_unref zobject w self =
     (case self of None \<Rightarrow> Inr w
      | Some a \<Rightarrow> rbind (get_ob w a) (\<lambda>x. rbind (z_refcount_dec (ob_ref x)) (\<lambda>(n, zero).
          let w1 = w\<lparr>ow_objects := (ow_objects w)[a := Some (x\<lparr>ob_ref := n\<rparr>)]\<rparr>
          in if \<not> zero then Inr w1
             else rbind (z_object_check_compatible w1 self zobject) (\<lambda>_.
                  rbind (get_cl w1 (ob_isa x)) (\<lambda>k.
                    case zc_methods k of
                      [] \<Rightarrow> Inl Bad_access
                    | m # ms \<Rightarrow> if m = None then Inl Bad_access
                        else Inr (w1\<lparr>ow_objects := (ow_objects w1)[a := None], ow_freed := ow_freed w1 @ [(m, a)]\<rparr>))))))"

subsection \<open>Class hierarchies\<close>

text \<open>
  The descriptors are numbered so that a parent comes before its children; a derived class has a slot for every
  method of its parent.
\<close>

abbreviation cls :: "oworld \<Rightarrow> nat \<Rightarrow> zclass" where
  "cls w c \<equiv> ow_classes w ! c"

abbreviation classes :: "oworld \<Rightarrow> nat" where
  "classes w \<equiv> length (ow_classes w)"

definition hierarchy :: "oworld \<Rightarrow> bool" where
  "hierarchy w \<longleftrightarrow> (\<forall>c < classes w. \<forall>p. zc_super (cls w c) = Some p \<longrightarrow>
     p < c \<and> length (zc_methods (cls w p)) \<le> length (zc_methods (cls w c)))"

definition parent :: "oworld \<Rightarrow> nat \<Rightarrow> nat \<Rightarrow> bool" where
  "parent w c p \<longleftrightarrow> c < classes w \<and> zc_super (cls w c) = Some p"

lemma parent_less: "hierarchy w \<Longrightarrow> parent w c p \<Longrightarrow> p < c"
  by (simp add: hierarchy_def parent_def)

lemma ancestor_step: "(parent w)\<^sup>*\<^sup>* c d \<longleftrightarrow> c = d \<or> (\<exists>p. parent w c p \<and> (parent w)\<^sup>*\<^sup>* p d)"
  by (metis converse_rtranclpE converse_rtranclp_into_rtranclp rtranclp.rtrancl_refl)

lemma subclass_walk_ancestor:
  "hierarchy w \<Longrightarrow> p < n \<Longrightarrow> p < classes w \<Longrightarrow> subclass_walk n w d (Some p) = Inr ((parent w)\<^sup>*\<^sup>* p d)"
proof (induction p arbitrary: n rule: less_induct)
  case (less p)
  obtain m where n: "n = Suc m" using less(3) by (cases n) auto
  show ?case
  proof (cases "p = d")
    case False
    show ?thesis
    proof (cases "zc_super (cls w p)")
      case None
      then have "\<not> (parent w)\<^sup>*\<^sup>* p d" using False by (subst ancestor_step) (simp add: parent_def)
      then show ?thesis using n False None less(4) by (simp add: get_cl_def)
    next
      case (Some q)
      then have q: "parent w p q" "q < p" using less(2,4) parent_less[of w p q] by (simp_all add: parent_def)
      have "(parent w)\<^sup>*\<^sup>* p d \<longleftrightarrow> (parent w)\<^sup>*\<^sup>* q d" using False q(1) Some by (subst ancestor_step) (auto simp: parent_def)
      then show ?thesis using n False Some less(1)[OF q(2) less(2), of m] q(2) less(3,4) by (simp add: get_cl_def)
    qed
  qed (use n in simp)
qed

lemma is_subclass_ancestor:
  "hierarchy w \<Longrightarrow> c < classes w \<Longrightarrow> z_object_is_subclass w d c = Inr ((parent w)\<^sup>*\<^sup>* c d)"
  by (simp add: z_object_is_subclass_def subclass_walk_ancestor)

subsection \<open>Inheritance\<close>

text \<open>The method of a class by its declaration: its own, else the one of its parent, as long as that has the slot.\<close>

function inherited :: "oworld \<Rightarrow> nat \<Rightarrow> nat \<Rightarrow> nat option" where
  "inherited w c i =
     (if i < length (zc_methods (cls w c))
      then case zc_methods (cls w c) ! i of
          Some m \<Rightarrow> Some m
        | None \<Rightarrow> (case zc_super (cls w c) of None \<Rightarrow> None | Some p \<Rightarrow> if p < c then inherited w p i else None)
      else None)"
  by pat_completeness auto
termination by (relation "measure (\<lambda>(w, c, i). c)") auto

declare inherited.simps [simp del]

lemma inherit_methods_nth:
  "length ms \<le> length own \<Longrightarrow> \<exists>r. inherit_methods ms own = Inr r \<and> length r = length own
     \<and> (\<forall>i < length own. r ! i = (if i < length ms \<and> own ! i = None then ms ! i else own ! i))"
proof (induction ms own rule: inherit_methods.induct)
  case (3 m ms x own)
  then obtain r where "inherit_methods ms own = Inr r" "length r = length own"
    "\<forall>i < length own. r ! i = (if i < length ms \<and> own ! i = None then ms ! i else own ! i)" by auto
  then show ?case by (auto simp: nth_Cons split: nat.split)
qed auto

definition same_shape :: "oworld \<Rightarrow> oworld \<Rightarrow> bool" where
  "same_shape v w \<longleftrightarrow> classes w = classes v \<and> (\<forall>c < classes v. zc_super (cls w c) = zc_super (cls v c)
     \<and> length (zc_methods (cls w c)) = length (zc_methods (cls v c)))"

text \<open>The tables against the declarations in \<open>v\<close>: complete where they are resolved, as declared elsewhere.\<close>

definition consistent :: "oworld \<Rightarrow> oworld \<Rightarrow> bool" where
  "consistent v w \<longleftrightarrow> same_shape v w \<and> (\<forall>c < classes v.
     if zc_resolved (cls w c) then zc_methods (cls w c) = map (inherited v c) [0..<length (zc_methods (cls v c))]
     else zc_methods (cls w c) = zc_methods (cls v c))"

lemma same_shape_hierarchy:
  assumes "hierarchy v" "same_shape v w"
  shows "hierarchy w" and "parent w = parent v"
proof -
  show "hierarchy w" unfolding hierarchy_def
  proof (intro allI impI)
    fix c p assume c: "c < classes w" "zc_super (cls w c) = Some p"
    then have "p < c" "length (zc_methods (cls v p)) \<le> length (zc_methods (cls v c))" using assms by (auto simp: hierarchy_def same_shape_def)
    then show "p < c \<and> length (zc_methods (cls w p)) \<le> length (zc_methods (cls w c))" using assms(2) c(1) by (simp add: same_shape_def)
  qed
  show "parent w = parent v" using assms(2) by (auto simp: fun_eq_iff parent_def same_shape_def)
qed

lemma get_cl_simps [simp]: "c < classes w \<Longrightarrow> get_cl w c = Inr (cls w c)" "classes (put_cl c k w) = classes w"
  "c < classes w \<Longrightarrow> cls (put_cl c k w) d = (if d = c then k else cls w d)"
  by (simp_all add: get_cl_def put_cl_def nth_list_update)

lemma objects_put [simp]: "ow_objects (put_cl c k w) = ow_objects w"
  by (simp add: put_cl_def)

lemma consistent_put:
  assumes "consistent v w" "c < classes v" "zc_super k = zc_super (cls v c)" "zc_resolved k"
    "zc_methods k = map (inherited v c) [0..<length (zc_methods (cls v c))]"
  shows "consistent v (put_cl c k w)"
  using assms by (auto simp: consistent_def same_shape_def)

lemma inherited_table:
  assumes "hierarchy v" "c < classes v" "zc_super (cls v c) = Some p"
    "inherit_methods (map (inherited v p) [0..<length (zc_methods (cls v p))]) (zc_methods (cls v c)) = Inr ms"
  shows "ms = map (inherited v c) [0..<length (zc_methods (cls v c))]"
proof -
  have le: "length (zc_methods (cls v p)) \<le> length (zc_methods (cls v c))" "p < c" using assms(1-3) by (auto simp: hierarchy_def)
  obtain r where r: "ms = r" "length r = length (zc_methods (cls v c))"
    "\<forall>i < length (zc_methods (cls v c)). r ! i = (if i < length (zc_methods (cls v p)) \<and> zc_methods (cls v c) ! i = None
       then inherited v p i else zc_methods (cls v c) ! i)"
    using inherit_methods_nth[of "map (inherited v p) [0..<length (zc_methods (cls v p))]" "zc_methods (cls v c)"] le assms(4) by auto
  have "r ! i = inherited v c i" if i: "i < length (zc_methods (cls v c))" for i
  proof (cases "zc_methods (cls v c) ! i")
    case None
    have "inherited v c i = inherited v p i" using None i assms(3) le(2) by (subst inherited.simps) simp
    moreover have "inherited v p i = None" if "\<not> i < length (zc_methods (cls v p))" using that by (subst inherited.simps) simp
    ultimately show ?thesis using r(3) i None by auto
  next
    case (Some m)
    then show ?thesis using r(3) i by (subst inherited.simps) simp
  qed
  then show ?thesis using r(1,2) by (intro nth_equalityI) simp_all
qed

lemma resolve_consistent:
  "hierarchy v \<Longrightarrow> consistent v w \<Longrightarrow> c < classes v \<Longrightarrow> c < n \<Longrightarrow>
   \<exists>w'. resolve_funcs n w c = Inr w' \<and> consistent v w' \<and> zc_resolved (cls w' c) \<and> ow_objects w' = ow_objects w
     \<and> (\<forall>d \<ge> c. d \<noteq> c \<longrightarrow> cls w' d = cls w d) \<and> (\<forall>d. zc_resolved (cls w d) \<longrightarrow> zc_resolved (cls w' d))"
proof (induction c arbitrary: n w rule: less_induct)
  case (less c)
  obtain m where n: "n = Suc m" using less(5) by (cases n) auto
  have sh: "classes w = classes v" "zc_super (cls w c) = zc_super (cls v c)" using less(3,4) by (auto simp: consistent_def same_shape_def)
  show ?case
  proof (cases "zc_resolved (cls w c)")
    case True
    then show ?thesis using less(3,4) n sh(1) by simp
  next
    case nr: False
    then have own: "zc_methods (cls w c) = zc_methods (cls v c)" using less(3,4) by (auto simp: consistent_def)
    show ?thesis
    proof (cases "zc_super (cls v c)")
      case None
      let ?k = "(cls w c)\<lparr>zc_resolved := True\<rparr>"
      have "inherited v c i = zc_methods (cls v c) ! i" if "i < length (zc_methods (cls v c))" for i
        using that None by (subst inherited.simps) (simp split: option.split)
      then have "zc_methods (cls v c) = map (inherited v c) [0..<length (zc_methods (cls v c))]" by (intro nth_equalityI) simp_all
      then have "consistent v (put_cl c ?k w)" using consistent_put[OF less(3,4), of ?k] sh(2) own by simp
      then show ?thesis using n nr None sh less(4) by simp
    next
      case (Some p)
      have p: "p < c" "p < classes v" using less(2,4) Some by (auto simp: hierarchy_def)
      obtain w1 where w1: "resolve_funcs m w p = Inr w1" "consistent v w1" "zc_resolved (cls w1 p)" "ow_objects w1 = ow_objects w"
        "\<forall>d \<ge> p. d \<noteq> p \<longrightarrow> cls w1 d = cls w d" "\<forall>d. zc_resolved (cls w d) \<longrightarrow> zc_resolved (cls w1 d)"
        using less(1)[OF p(1) less(2,3) p(2), of m] p(1) less(5) n by auto
      have c1: "cls w1 c = cls w c" "classes w1 = classes v" using w1(2,5) p(1) by (auto simp: consistent_def same_shape_def)
      have pm: "zc_methods (cls w1 p) = map (inherited v p) [0..<length (zc_methods (cls v p))]"
        using w1(2,3) p(2) by (auto simp: consistent_def)
      have "length (zc_methods (cls v p)) \<le> length (zc_methods (cls v c))" using less(2,4) Some by (auto simp: hierarchy_def)
      then obtain ms where ms: "inherit_methods (zc_methods (cls w1 p)) (zc_methods (cls v c)) = Inr ms"
        using inherit_methods_nth[of "zc_methods (cls w1 p)" "zc_methods (cls v c)"] pm by auto
      let ?k = "(cls w c)\<lparr>zc_methods := ms, zc_resolved := True\<rparr>"
      have "ms = map (inherited v c) [0..<length (zc_methods (cls v c))]" using inherited_table[OF less(2,4) Some] ms pm by simp
      then have "consistent v (put_cl c ?k w1)" using consistent_put[OF w1(2) less(4), of ?k] sh(2) by simp
      moreover have "resolve_funcs n w c = Inr (put_cl c ?k w1)"
        using n nr Some sh less(4) w1(1) p(2) c1 ms own by simp
      ultimately show ?thesis using w1 c1 p(1) less(4) by simp
    qed
  qed
qed

lemma new_consistent:
  assumes "hierarchy v" "consistent v w" "c < classes v"
  shows "\<exists>w'. z_object_new w c = Inr (w', length (ow_objects w)) \<and> consistent v w' \<and> zc_resolved (cls w' c)
    \<and> ow_objects w' = ow_objects w @ [Some \<lparr>ob_ref = 1, ob_isa = c\<rparr>] \<and> (\<forall>d. zc_resolved (cls w d) \<longrightarrow> zc_resolved (cls w' d))"
proof -
  have len: "classes w = classes v" using assms(2) by (simp add: consistent_def same_shape_def)
  let ?w = "if zc_isa (cls w c) = None then put_cl c ((cls w c)\<lparr>zc_isa := Some 0\<rparr>) w else w"
  have fields: "zc_resolved (cls ?w d) = zc_resolved (cls w d)" "zc_super (cls ?w d) = zc_super (cls w d)"
    "zc_methods (cls ?w d) = zc_methods (cls w d)" "classes ?w = classes v" "ow_objects ?w = ow_objects w" for d
    using assms(3) len by auto
  have cw: "consistent v ?w" using assms(2) len unfolding consistent_def same_shape_def fields by simp
  obtain w2 where w2: "(if \<not> zc_resolved (cls w c) then z_object_resolve_funcs ?w c else Inr ?w) = Inr w2" "consistent v w2"
    "zc_resolved (cls w2 c)" "ow_objects w2 = ow_objects w" "\<forall>d. zc_resolved (cls w d) \<longrightarrow> zc_resolved (cls w2 d)"
  proof (cases "zc_resolved (cls w c)")
    case True
    then show ?thesis using that[of ?w] cw fields by simp
  next
    case False
    obtain w2 where "resolve_funcs (classes ?w + 1) ?w c = Inr w2" "consistent v w2" "zc_resolved (cls w2 c)" "ow_objects w2 = ow_objects ?w"
      "\<forall>d. zc_resolved (cls ?w d) \<longrightarrow> zc_resolved (cls w2 d)"
      using resolve_consistent[OF assms(1) cw assms(3), of "classes ?w + 1"] assms(3) fields(4) by auto
    then show ?thesis using that[of w2] False fields unfolding z_object_resolve_funcs_def by simp
  qed
  let ?w' = "w2\<lparr>ow_objects := ow_objects w2 @ [Some \<lparr>ob_ref = z_refcount_set 0 1, ob_isa = c\<rparr>]\<rparr>"
  have "z_object_new w c = Inr (?w', length (ow_objects w2))" using w2(1) assms(3) len unfolding z_object_new_def Let_def by (simp add: get_cl_def)
  moreover have "consistent v ?w'" using w2(2) by (simp add: consistent_def same_shape_def)
  ultimately show ?thesis using w2 by (simp add: z_refcount_set_def)
qed

text \<open>The instances of a list of classes, made one after the other.\<close>

fun new_all :: "oworld \<Rightarrow> nat list \<Rightarrow> oworld result" where
  "new_all w [] = Inr w"
| "new_all w (c # cs) = rbind (z_object_new w c) (\<lambda>(w1, a). new_all w1 cs)"

definition fresh_classes :: "oworld \<Rightarrow> bool" where
  "fresh_classes v \<longleftrightarrow> hierarchy v \<and> (\<forall>c < classes v. \<not> zc_resolved (cls v c))"

lemma fresh_consistent: "fresh_classes v \<Longrightarrow> consistent v v"
  by (simp add: fresh_classes_def consistent_def same_shape_def)

lemma new_all_consistent:
  assumes "hierarchy v" "consistent v w" "\<forall>c \<in> set cs. c < classes v"
  shows "\<exists>w'. new_all w cs = Inr w' \<and> consistent v w' \<and> (\<forall>c \<in> set cs. zc_resolved (cls w' c))
    \<and> (\<forall>d. zc_resolved (cls w d) \<longrightarrow> zc_resolved (cls w' d))
    \<and> ow_objects w' = ow_objects w @ map (\<lambda>c. Some \<lparr>ob_ref = 1, ob_isa = c\<rparr>) cs"
  using assms(2,3)
proof (induction cs arbitrary: w)
  case (Cons c cs)
  obtain w1 where w1: "z_object_new w c = Inr (w1, length (ow_objects w))" "consistent v w1" "zc_resolved (cls w1 c)"
    "ow_objects w1 = ow_objects w @ [Some \<lparr>ob_ref = 1, ob_isa = c\<rparr>]" "\<forall>d. zc_resolved (cls w d) \<longrightarrow> zc_resolved (cls w1 d)"
    using new_consistent[OF assms(1) Cons(2), of c] Cons(3) by auto
  obtain w' where "new_all w1 cs = Inr w'" "consistent v w'" "\<forall>c \<in> set cs. zc_resolved (cls w' c)"
    "\<forall>d. zc_resolved (cls w1 d) \<longrightarrow> zc_resolved (cls w' d)" "ow_objects w' = ow_objects w1 @ map (\<lambda>c. Some \<lparr>ob_ref = 1, ob_isa = c\<rparr>) cs"
    using Cons(1)[OF w1(2)] Cons(3) by auto
  then show ?case using w1 by auto
qed auto

subsection \<open>Properties\<close>

text \<open>C16: instances of any classes of a hierarchy can be made in any order, and from then on the method table of each class is
  the one its declaration means: in every slot the method of the class itself or of the nearest ancestor
  that has one, however many classes were resolved before it. Every instance has its class.\<close>

theorem method_tables_inherit:
  assumes "fresh_classes v" "\<forall>c \<in> set cs. c < classes v" "ow_objects v = []"
  shows "\<exists>w. new_all v cs = Inr w
    \<and> (\<forall>c \<in> set cs. zc_methods (cls w c) = map (inherited v c) [0..<length (zc_methods (cls v c))])
    \<and> map (map_option ob_isa) (ow_objects w) = map Some cs"
proof -
  obtain w where w: "new_all v cs = Inr w" "consistent v w" "\<forall>c \<in> set cs. zc_resolved (cls w c)"
    "ow_objects w = map (\<lambda>c. Some \<lparr>ob_ref = 1, ob_isa = c\<rparr>) cs"
    using new_all_consistent[OF _ fresh_consistent[OF assms(1)] assms(2)] assms(1,3) by (auto simp: fresh_classes_def)
  then show ?thesis using assms(2) by (auto simp: consistent_def)
qed

definition demo_classes :: oworld where
  "demo_classes = \<lparr>ow_classes =
     [\<lparr>zc_isa = None, zc_resolved = False, zc_super = None, zc_name = ''ZClass'', zc_size = 48, zc_methods = []\<rparr>,
      \<lparr>zc_isa = None, zc_resolved = False, zc_super = None, zc_name = ''ZObject'', zc_size = 16, zc_methods = [Some 1]\<rparr>,
      \<lparr>zc_isa = None, zc_resolved = False, zc_super = Some 1, zc_name = ''ZStream'', zc_size = 64, zc_methods = [Some 2, Some 3, None]\<rparr>,
      \<lparr>zc_isa = None, zc_resolved = False, zc_super = Some 2, zc_name = ''ZStreamFD'', zc_size = 80, zc_methods = [None, Some 4, Some 5]\<rparr>],
     ow_objects = [], ow_freed = []\<rparr>"

lemma demo_fresh: "fresh_classes demo_classes" "classes demo_classes = 4" "ow_objects demo_classes = []"
  unfolding fresh_classes_def hierarchy_def demo_classes_def by (auto simp: less_Suc_eq)

theorem method_tables_inherit_witness:
  "\<exists>w. new_all demo_classes [3, 2] = Inr w \<and> zc_methods (cls w 3) = [Some 2, Some 4, Some 5]"
proof -
  have "\<forall>c \<in> set [3, 2]. c < classes demo_classes" by (simp add: demo_fresh)
  from method_tables_inherit[OF demo_fresh(1) this demo_fresh(3)] obtain w where w: "new_all demo_classes [3, 2] = Inr w"
    "zc_methods (cls w 3) = map (inherited demo_classes 3) [0..<length (zc_methods (cls demo_classes 3))]" by auto
  have "map (inherited demo_classes 3) [0..<length (zc_methods (cls demo_classes 3))] = [Some 2, Some 4, Some 5]"
    by (simp add: demo_classes_def inherited.simps upt_rec)
  then show ?thesis using w by auto
qed

text \<open>C36: an instance that was made with a required base class passes the check of compatibility with exactly the classes it is
  derived from, the base among them; asking for a class that is not derived from the base aborts.\<close>

theorem new_compatible_typed:
  assumes "fresh_classes v" "\<forall>c \<in> set cs. c < classes v" "new_all v cs = Inr w" "c < classes v"
  shows "if (parent v)\<^sup>*\<^sup>* c base
    then \<exists>w' a. z_object_new_compatible w c base = Inr (w', a)
      \<and> (\<forall>d. z_object_is_compatible w' (Some a) d = Inr ((parent v)\<^sup>*\<^sup>* c d))
      \<and> z_object_check_compatible w' (Some a) base = Inr (Some a) \<and> z_object_is_instance w' (Some a) c = Inr True
    else z_object_new_compatible w c base = Inl Assert_failed"
proof -
  have h: "hierarchy v" using assms(1) by (simp add: fresh_classes_def)
  have w: "consistent v w" using new_all_consistent[OF h fresh_consistent[OF assms(1)] assms(2)] assms(3) by auto
  have cl: "hierarchy u" "parent u = parent v" "c < classes u" if "consistent v u" for u
    using that same_shape_hierarchy[OF h, of u] assms(4) by (auto simp: consistent_def same_shape_def)
  have sub: "z_object_is_subclass w base c = Inr ((parent v)\<^sup>*\<^sup>* c base)"
    using is_subclass_ancestor[OF cl(1,3)[OF w]] cl(2)[OF w] by simp
  show ?thesis
  proof (cases "(parent v)\<^sup>*\<^sup>* c base")
    case True
    obtain w' where w': "z_object_new w c = Inr (w', length (ow_objects w))" "consistent v w'"
      "ow_objects w' = ow_objects w @ [Some \<lparr>ob_ref = 1, ob_isa = c\<rparr>]" using new_consistent[OF h w assms(4)] by auto
    let ?a = "length (ow_objects w)"
    have ob: "get_ob w' ?a = Inr \<lparr>ob_ref = 1, ob_isa = c\<rparr>" using w'(3) by (simp add: get_ob_def slot_def nth_append)
    have "z_object_is_compatible w' (Some ?a) d = Inr ((parent v)\<^sup>*\<^sup>* c d)" for d
      using ob is_subclass_ancestor[OF cl(1,3)[OF w'(2)], of d] cl(2)[OF w'(2)] by (simp add: z_object_is_compatible_def)
    then show ?thesis using True sub w'(1) ob
      by (simp add: z_object_new_compatible_def z_object_check_compatible_def z_object_is_instance_def g_assert_def)
  next
    case False
    then show ?thesis using sub by (simp add: z_object_new_compatible_def)
  qed
qed

theorem new_compatible_typed_witness:
  "\<exists>w' a. z_object_new_compatible demo_classes 3 2 = Inr (w', a) \<and> z_object_is_compatible w' (Some a) 1 = Inr True
    \<and> z_object_new_compatible demo_classes 1 2 = Inl Assert_failed"
proof -
  have p: "parent demo_classes 3 2" "parent demo_classes 2 1" "\<not> (parent demo_classes)\<^sup>*\<^sup>* 1 2"
    by (simp add: parent_def demo_classes_def, simp add: parent_def demo_classes_def, subst ancestor_step, simp add: parent_def demo_classes_def)
  then have a: "(parent demo_classes)\<^sup>*\<^sup>* 3 2" "(parent demo_classes)\<^sup>*\<^sup>* 3 1" by (auto intro: rtranclp_trans)
  have n: "new_all demo_classes [] = Inr demo_classes" by simp
  show ?thesis using new_compatible_typed[OF demo_fresh(1) _ n, of 3 2] new_compatible_typed[OF demo_fresh(1) _ n, of 1 2]
    p(3) a demo_fresh(2) by auto
qed

subsection \<open>Objects as a reference counted class\<close>

definition object_ref :: "nat \<Rightarrow> oworld \<Rightarrow> oworld result" where
  "object_ref a w = rbind (z_object_ref w (Some a)) (\<lambda>(w1, self). Inr w1)"

definition object_unref :: "nat \<Rightarrow> nat \<Rightarrow> oworld \<Rightarrow> (oworld + oworld) result" where
  "object_unref zobject a w =
     rbind (z_object_unref zobject w (Some a)) (\<lambda>w1. Inr (if slot (ow_objects w1) a = None then Inr w1 else Inl w1))"

definition object_count :: "nat \<Rightarrow> oworld \<Rightarrow> int" where
  "object_count a w = (case slot (ow_objects w) a of None \<Rightarrow> 0 | Some x \<Rightarrow> ob_ref x)"

text \<open>The world \<open>v\<close> with another count in the object \<open>a\<close>, whose class \<open>c\<close> has the free method \<open>m\<close>.\<close>

definition live_object :: "oworld \<Rightarrow> nat \<Rightarrow> nat \<Rightarrow> nat \<Rightarrow> nat \<Rightarrow> oworld \<Rightarrow> bool" where
  "live_object v zobject a c m w \<longleftrightarrow> hierarchy v \<and> c < classes v \<and> (parent v)\<^sup>*\<^sup>* c zobject
     \<and> (\<exists>ms. zc_methods (cls v c) = Some m # ms) \<and> ow_classes w = ow_classes v \<and> ow_freed w = ow_freed v
     \<and> (\<exists>x. slot (ow_objects w) a = Some x \<and> ob_isa x = c) \<and> (\<forall>b. b \<noteq> a \<longrightarrow> slot (ow_objects w) b = slot (ow_objects v) b)"

definition object_gone :: "oworld \<Rightarrow> nat \<Rightarrow> nat \<Rightarrow> oworld \<Rightarrow> bool" where
  "object_gone v a m w \<longleftrightarrow> slot (ow_objects w) a = None \<and> ow_freed w = ow_freed v @ [(Some m, a)]
     \<and> ow_classes w = ow_classes v \<and> (\<forall>b. b \<noteq> a \<longrightarrow> slot (ow_objects w) b = slot (ow_objects v) b)"

lemma live_object_D:
  assumes "live_object v zobject a c m w"
  obtains x ms where "slot (ow_objects w) a = Some x" "ob_isa x = c" "get_ob w a = Inr x" "object_count a w = ob_ref x"
    "a < length (ow_objects w)" "zc_methods (cls v c) = Some m # ms"
proof -
  obtain x ms where x: "slot (ow_objects w) a = Some x" "ob_isa x = c" "zc_methods (cls v c) = Some m # ms" using assms by (auto simp: live_object_def)
  show ?thesis using that[OF x(1,2) _ _ _ x(3)] x slot_Some[OF x(1)] by (simp add: get_ob_def object_count_def)
qed

lemma object_recount:
  assumes "live_object v zobject a c m w" "slot (ow_objects w) a = Some x"
  shows "live_object v zobject a c m (w\<lparr>ow_objects := (ow_objects w)[a := Some (x\<lparr>ob_ref := n\<rparr>)]\<rparr>)"
    and "object_count a (w\<lparr>ow_objects := (ow_objects w)[a := Some (x\<lparr>ob_ref := n\<rparr>)]\<rparr>) = n"
  using assms slot_Some[OF assms(2)] by (auto simp: live_object_def object_count_def slot_update)

lemma live_compatible:
  assumes "live_object v zobject a c m w" "get_ob w a = Inr x" "ob_isa x = c"
  shows "z_object_check_compatible w (Some a) zobject = Inr (Some a)"
proof -
  have w: "hierarchy w" "c < classes w" "(parent w)\<^sup>*\<^sup>* c zobject"
    using assms(1) same_shape_hierarchy[of v w] by (auto simp: live_object_def same_shape_def)
  then show ?thesis using is_subclass_ancestor[OF w(1,2), of zobject] assms(2,3)
    by (simp add: z_object_check_compatible_def z_object_is_compatible_def g_assert_def)
qed

interpretation obj: refcounted "live_object v zobject a c m" "object_count a" "object_ref a" "object_unref zobject a" "object_gone v a m"
  for v zobject a c m
proof
  fix w assume w: "live_object v zobject a c m w"
  obtain x ms where x: "slot (ow_objects w) a = Some x" "ob_isa x = c" "get_ob w a = Inr x" "object_count a w = ob_ref x"
    "a < length (ow_objects w)" "zc_methods (cls v c) = Some m # ms" using live_object_D[OF w] .
  let ?w = "\<lambda>n. w\<lparr>ow_objects := (ow_objects w)[a := Some (x\<lparr>ob_ref := n\<rparr>)]\<rparr>"
  note re = object_recount[OF w x(1)]
  show "\<exists>s'. object_ref a w = Inr s' \<and> object_count a s' = object_count a w + 1 \<and> live_object v zobject a c m s'"
    if "count_ok (object_count a w)"
    using that x(3,4) re[of "ob_ref x + 1"] by (simp add: object_ref_def z_object_ref_def)
  show "object_ref a w = Inl Assert_failed" if "\<not> count_ok (object_count a w)"
    using that x(3,4) by (simp add: object_ref_def z_object_ref_def)
  show "\<exists>s'. object_unref zobject a w = Inr (Inl s') \<and> object_count a s' = object_count a w - 1 \<and> live_object v zobject a c m s'"
    if "count_ok (object_count a w)" "object_count a w \<noteq> 1"
    using that x(3,4,5) re[of "ob_ref x - 1"] by (simp add: object_unref_def z_object_unref_def slot_update)
  show "object_unref zobject a w = Inl Assert_failed" if "\<not> count_ok (object_count a w)"
    using that x(3,4) by (simp add: object_unref_def z_object_unref_def)
  show "\<exists>d. object_unref zobject a w = Inr (Inr d) \<and> object_gone v a m d" if one: "object_count a w = 1"
  proof -
    have g: "get_ob (?w 0) a = Inr (x\<lparr>ob_ref := 0\<rparr>)" using x(5) by (simp add: get_ob_def slot_update)
    have chk: "z_object_check_compatible (?w 0) (Some a) zobject = Inr (Some a)"
      using live_compatible[OF re(1) g] x(2) by simp
    have cl: "get_cl (?w 0) c = Inr (cls v c)" using w by (simp add: live_object_def get_cl_def)
    let ?d = "(?w 0)\<lparr>ow_objects := (ow_objects w)[a := None], ow_freed := ow_freed w @ [(Some m, a)]\<rparr>"
    have "z_object_unref zobject w (Some a) = Inr ?d"
      using one x chk cl by (simp add: z_object_unref_def)
    moreover have "object_gone v a m ?d" using w x(5) by (simp add: object_gone_def live_object_def slot_update)
    ultimately show ?thesis by (simp add: object_unref_def object_gone_def)
  qed
qed

text \<open>an instance of a class derived from \<open>ZObject\<close> lives through every sequence of calls that keeps a reference, and the call
  that drops the last one calls the free method that its class has or inherits, once, and removes that
  object and no other.\<close>

theorem object_freed_by_its_class:
  assumes "fresh_classes v" "\<forall>c \<in> set cs. c < classes v" "ow_objects v = []" "new_all v cs = Inr w" "a < length cs"
    "(parent v)\<^sup>*\<^sup>* (cs ! a) zobject" "inherited v (cs ! a) 0 = Some m" "stays_alive 1 ops" "balance ops = 0"
  shows "(\<exists>w'. run_refs (object_ref a) (object_unref zobject a) ops w = Inr (Inl w') \<and> object_count a w' = 1)
    \<and> (\<exists>d. run_refs (object_ref a) (object_unref zobject a) (ops @ Drop_ref # rest) w = Inr (Inr (d, rest))
         \<and> ow_freed d = ow_freed w @ [(Some m, a)] \<and> slot (ow_objects d) a = None
         \<and> (\<forall>b. b \<noteq> a \<longrightarrow> slot (ow_objects d) b = slot (ow_objects w) b))"
proof -
  let ?c = "cs ! a"
  have h: "hierarchy v" and c: "?c < classes v" using assms(1,2,5) by (auto simp: fresh_classes_def)
  obtain cw: "consistent v w" and r: "zc_resolved (cls w ?c)" and ob: "ow_objects w = map (\<lambda>c. Some \<lparr>ob_ref = 1, ob_isa = c\<rparr>) cs"
    using new_all_consistent[OF h fresh_consistent[OF assms(1)] assms(2)] assms(3,4,5) by auto
  have i0: "0 < length (zc_methods (cls v ?c))" using assms(7) by (subst (asm) inherited.simps) (auto split: if_splits)
  have "zc_methods (cls w ?c) = map (inherited v ?c) [0..<length (zc_methods (cls v ?c))]" using cw r c by (auto simp: consistent_def)
  then have "\<exists>ms. zc_methods (cls w ?c) = Some m # ms" using i0 assms(7) by (simp add: upt_conv_Cons)
  moreover have "hierarchy w" "parent w = parent v" "?c < classes w"
    using cw same_shape_hierarchy[OF h, of w] c by (auto simp: consistent_def same_shape_def)
  ultimately have live: "live_object w zobject a ?c m w" using assms(5,6) ob by (simp add: live_object_def slot_def)
  have one: "object_count a w = 1" using ob assms(5) by (simp add: object_count_def slot_def)
  show ?thesis using obj.run_alive[OF live, of ops] obj.run_freed[OF live, of ops rest] assms(8,9) one by (auto simp: object_gone_def)
qed

theorem object_freed_by_its_class_witness:
  "\<exists>w d. new_all demo_classes [3, 1] = Inr w
    \<and> run_refs (object_ref 0) (object_unref 1 0) ([Take_ref, Drop_ref] @ Drop_ref # []) w = Inr (Inr (d, []))
    \<and> ow_freed d = ow_freed w @ [(Some 2, 0)]"
proof -
  have cs: "\<forall>c \<in> set [3, 1]. c < classes demo_classes" by (simp add: demo_fresh)
  obtain w where w: "new_all demo_classes [3, 1] = Inr w"
    using new_all_consistent[OF _ fresh_consistent[OF demo_fresh(1)] cs] demo_fresh(1) by (auto simp: fresh_classes_def)
  have p: "parent demo_classes 3 2" "parent demo_classes 2 1" by (simp_all add: parent_def demo_classes_def)
  then have a: "(parent demo_classes)\<^sup>*\<^sup>* ([3, 1] ! 0) 1" by (auto intro: rtranclp_trans)
  have i: "inherited demo_classes ([3, 1] ! 0) 0 = Some 2" by (simp add: demo_classes_def inherited.simps)
  have s: "stays_alive 1 [Take_ref, Drop_ref]" "balance [Take_ref, Drop_ref] = 0" by (simp_all add: count_ok_def MAX_REF_def)
  show ?thesis using object_freed_by_its_class[OF demo_fresh(1) cs demo_fresh(3) w _ a i s] w by auto
qed

end
