(* ===== verification/Logspec.thy ===== *)
theory Logspec
  imports Zurlparse
begin

section \<open>Log specifications\<close>

text \<open>
  The part of \<open>src/log.c\<close> that parses a log specification, such as \<open>core.*:5,http.debug:8\<close>, and
  finds the verbosity level of a message tag: \<open>z_log_spec_glob_match\<close>, \<open>z_log_spec_eval\<close>,
  \<open>z_log_spec_init\<close> and \<open>z_log_spec_destroy\<close>. Matching is shown to be the comparison of the parts
  between the dots, and parsing to be the inverse of printing.
\<close>

record log_spec_item =
  li_pattern :: string
  li_verbose_level :: int

record log_spec =
  ls_items :: "log_spec_item list"
  ls_verbose_level :: int

abbreviation dot :: char where "dot \<equiv> CHR ''.''"

text \<open>The condition on the parts \<open>glob[0 .. len1)\<close> and \<open>tag[0 .. len2)\<close> under which the function returns \<open>FALSE\<close>.\<close>

definition part_differs :: "string \<Rightarrow> string \<Rightarrow> bool" where
  "part_differs g t \<longleftrightarrow> (length g \<noteq> 1 \<or> take 1 g \<noteq> ''*'') \<and> (length g \<noteq> length t \<or> g \<noteq> take (length g) t)"

lemma tl_dropWhile_less: "dropWhile P s \<noteq> [] \<Longrightarrow> length (tl (dropWhile P s)) < length s"
  using length_dropWhile_le[of P s] by (cases "dropWhile P s") auto

text \<open>\<open>p1\<close> and \<open>p2\<close> are the strings that \<open>strchr\<close> finds, empty for \<open>NULL\<close>.\<close>

function z_log_spec_glob_match :: "string \<Rightarrow> string \<Rightarrow> bool" where
  "z_log_spec_glob_match glob tag =
     (let g = takeWhile (\<lambda>c. c \<noteq> dot) glob; p1 = dropWhile (\<lambda>c. c \<noteq> dot) glob;
          t = takeWhile (\<lambda>c. c \<noteq> dot) tag; p2 = dropWhile (\<lambda>c. c \<noteq> dot) tag
      in if part_differs g t then False
         else if p1 \<noteq> [] \<and> p2 \<noteq> [] then z_log_spec_glob_match (tl p1) (tl p2)
         else length p1 \<le> length p2)"
  by pat_completeness auto
termination
proof (relation "measure (\<lambda>(glob, tag). length glob)", simp)
  fix glob tag g p1 t p2 :: string
  assume "p1 = dropWhile (\<lambda>c. c \<noteq> dot) glob" "p1 \<noteq> [] \<and> p2 \<noteq> []"
  then show "((tl p1, tl p2), glob, tag) \<in> measure (\<lambda>(glob, tag). length glob)"
    using tl_dropWhile_less[of "\<lambda>c. c \<noteq> dot" glob] by auto
qed

declare z_log_spec_glob_match.simps [simp del]

definition z_log_spec_eval :: "log_spec \<Rightarrow> string \<Rightarrow> int" where
  "z_log_spec_eval self tag =
     (case find (\<lambda>lsi. z_log_spec_glob_match (li_pattern lsi) tag) (ls_items self) of
        Some lsi \<Rightarrow> li_verbose_level lsi
      | None \<Rightarrow> ls_verbose_level self)"

definition z_log_spec_destroy :: "log_spec \<Rightarrow> log_spec" where
  "z_log_spec_destroy self = self\<lparr>ls_items := []\<rparr>"

definition isalnum :: "char \<Rightarrow> bool" where
  "isalnum c \<longleftrightarrow> isdigit c \<or> 65 \<le> code c \<and> code c \<le> 90 \<or> 97 \<le> code c \<and> code c \<le> 122"

definition glob_char :: "char \<Rightarrow> bool" where
  "glob_char c \<longleftrightarrow> isalnum c \<or> c = dot \<or> c = CHR ''*''"

lemma strtoul_length: "length (snd (strtoul s)) \<le> length s"
proof -
  have "length (dropWhile isdigit (tl (dropWhile isspace s))) \<le> length s"
    "length (dropWhile isdigit (dropWhile isspace s)) \<le> length s"
    using length_dropWhile_le[of isspace s] length_dropWhile_le[of isdigit "tl (dropWhile isspace s)"]
      length_dropWhile_le[of isdigit "dropWhile isspace s"] by auto
  then show ?thesis by (simp add: strtoul_def Let_def)
qed

text \<open>
  The loop of \<open>z_log_spec_init\<close>: the items that were put in front of the list so far and, when the text is at
  its end, the reversed list; \<open>None\<close> is the jump to \<open>invalid_logspec\<close>. The \<open>unsigned long\<close> of
  \<open>strtoul\<close> is cut to a \<open>gint\<close>.
\<close>

function spec_loop :: "string \<Rightarrow> log_spec_item list \<Rightarrow> log_spec_item list option" where
  "spec_loop src items =
     (if src = [] then Some (rev items)
      else
        let src1 = dropWhile (\<lambda>c. c = CHR '','' \<or> c = CHR '' '') src;
            glob = takeWhile glob_char src1;
            src2 = dropWhile glob_char src1
        in if src2 = [] \<or> hd src2 \<noteq> CHR '':'' then None
           else let (n, end) = strtoul (tl src2)
             in spec_loop (dropWhile (\<lambda>c. c \<noteq> CHR '','') end)
                  (\<lparr>li_pattern = glob, li_verbose_level = size_to_int n\<rparr> # items))"
  by pat_completeness auto
termination
proof (relation "measure (\<lambda>(src, items). length src)", simp)
  fix src src1 glob src2 :: string and items :: "log_spec_item list" and x n and e :: string
  assume a: "src \<noteq> []" "src1 = dropWhile (\<lambda>c. c = CHR '','' \<or> c = CHR '' '') src" "src2 = dropWhile glob_char src1"
    "\<not> (src2 = [] \<or> hd src2 \<noteq> CHR '':'')" "x = strtoul (tl src2)" "(n, e) = x"
  have "length e \<le> length (tl src2)" using strtoul_length[of "tl src2"] a(5,6) by (metis snd_conv)
  moreover have "length src2 \<le> length src"
    unfolding a(2,3) using length_dropWhile_le le_trans by blast
  moreover have "length (tl src2) < length src2" using a(4) by (cases src2) auto
  ultimately show "((dropWhile (\<lambda>c. c \<noteq> CHR '','') e, \<lparr>li_pattern = glob, li_verbose_level = size_to_int n\<rparr> # items), src, items)
    \<in> measure (\<lambda>(src, items). length src)"
    using length_dropWhile_le[of "\<lambda>c. c \<noteq> CHR '',''" e] by simp
qed

declare spec_loop.simps [simp del]

definition z_log_spec_init :: "string option \<Rightarrow> int \<Rightarrow> log_spec \<times> bool" where
  "z_log_spec_init logspec_str default_verbosity =
     (case spec_loop (case logspec_str of Some s \<Rightarrow> s | None \<Rightarrow> []) [] of
        Some items \<Rightarrow> (\<lparr>ls_items = items, ls_verbose_level = default_verbosity\<rparr>, True)
      | None \<Rightarrow> (z_log_spec_destroy \<lparr>ls_items = [], ls_verbose_level = default_verbosity\<rparr>, False))"

subsection \<open>Matching is comparison part by part\<close>

function parts :: "string \<Rightarrow> string list" where
  "parts s =
     (let p = dropWhile (\<lambda>c. c \<noteq> dot) s
      in takeWhile (\<lambda>c. c \<noteq> dot) s # (if p = [] then [] else parts (tl p)))"
  by pat_completeness auto
termination
proof (relation "measure length", simp)
  fix s p :: string
  assume "p = dropWhile (\<lambda>c. c \<noteq> dot) s" "p \<noteq> []"
  then show "(tl p, s) \<in> measure length" using tl_dropWhile_less[of "\<lambda>c. c \<noteq> dot" s] by auto
qed

declare parts.simps [simp del]

fun parts_match :: "string list \<Rightarrow> string list \<Rightarrow> bool" where
  "parts_match [] ts = True"
| "parts_match (g # gs) [] = False"
| "parts_match (g # gs) (t # ts) \<longleftrightarrow> (g = ''*'' \<or> g = t) \<and> parts_match gs ts"

lemma part_differs_iff: "part_differs g t \<longleftrightarrow> g \<noteq> ''*'' \<and> g \<noteq> t"
  unfolding part_differs_def by (cases g) auto

text \<open>A pattern matches a tag exactly when each of its parts between dots is a star or the part of the tag in the same place;
  the tag may have more parts than the pattern.\<close>

lemma glob_match_by_parts: "z_log_spec_glob_match glob tag \<longleftrightarrow> parts_match (parts glob) (parts tag)"
proof (induction glob tag rule: z_log_spec_glob_match.induct)
  case (1 glob tag)
  let ?p1 = "dropWhile (\<lambda>c. c \<noteq> dot) glob" and ?p2 = "dropWhile (\<lambda>c. c \<noteq> dot) tag"
  have l: "\<not> parts_match (parts s) []" for s by (subst parts.simps) (simp add: Let_def)
  note s = z_log_spec_glob_match.simps[of glob tag] parts.simps[of glob] parts.simps[of tag]
  consider "?p1 = []" | "?p1 \<noteq> []" "?p2 = []" | "?p1 \<noteq> []" "?p2 \<noteq> []" by blast
  then show ?case
  proof cases
    case 1
    then show ?thesis unfolding s Let_def 1 by (simp add: part_differs_iff)
  next
    case 2
    then show ?thesis unfolding s Let_def by (simp add: part_differs_iff l del: dropWhile_eq_Nil_conv)
  next
    case 3
    then show ?thesis using "1.IH"[OF refl refl refl refl] unfolding s Let_def
      by (simp add: part_differs_iff del: dropWhile_eq_Nil_conv)
  qed
qed

subsection \<open>Parsing undoes printing\<close>

definition spec_item_text :: "string \<times> nat \<Rightarrow> string" where
  "spec_item_text = (\<lambda>(g, n). g @ CHR '':'' # decimal n)"

fun spec_text :: "(string \<times> nat) list \<Rightarrow> string" where
  "spec_text [] = []"
| "spec_text [i] = spec_item_text i"
| "spec_text (i # is) = spec_item_text i @ CHR '','' # spec_text is"

definition item_fits :: "string \<times> nat \<Rightarrow> bool" where
  "item_fits = (\<lambda>(g, n). list_all glob_char g \<and> n < 2 ^ 31)"

definition spec_item :: "string \<times> nat \<Rightarrow> log_spec_item" where
  "spec_item = (\<lambda>(g, n). \<lparr>li_pattern = g, li_verbose_level = int n\<rparr>)"

lemma glob_char_facts: "\<not> glob_char (CHR '':'')" "\<not> glob_char (CHR '','')" "\<not> glob_char (CHR '' '')" "\<not> isdigit (CHR '','')"
  by (simp_all add: glob_char_def isalnum_def isdigit_def code_def)

lemma glob_text_start:
  assumes "list_all glob_char g"
  shows "dropWhile (\<lambda>c. c = CHR '','' \<or> c = CHR '' '') (g @ CHR '':'' # r) = g @ CHR '':'' # r"
  using assms glob_char_facts by (cases g) auto

lemma glob_text_split:
  assumes "list_all glob_char g"
  shows "takeWhile glob_char (g @ CHR '':'' # r) = g" "dropWhile glob_char (g @ CHR '':'' # r) = CHR '':'' # r"
  using assms glob_char_facts by (induction g) auto

lemma spec_loop_item:
  assumes "item_fits i" "r = [] \<or> hd r = CHR '',''" "sep = [] \<or> sep = '',''"
  shows "spec_loop (sep @ spec_item_text i @ r) items = spec_loop r (spec_item i # items)"
proof -
  obtain g n where i: "i = (g, n)" by fastforce
  have g: "list_all glob_char g" and n: "n < 2 ^ 31" using assms(1) by (simp_all add: item_fits_def i)
  have d: "dropWhile (\<lambda>c. c = CHR '','' \<or> c = CHR '' '') (sep @ g @ CHR '':'' # decimal n @ r) = g @ CHR '':'' # decimal n @ r"
    using assms(3) glob_text_start[OF g] by auto
  have nd: "r = [] \<or> \<not> isdigit (hd r)" using assms(2) glob_char_facts by auto
  have s: "strtoul (decimal n @ r) = (n, r)" using nd n by (intro strtoul_decimal) auto
  have t: "dropWhile (\<lambda>c. c \<noteq> CHR '','') r = r" using assms(2) by (cases r) auto
  have e: "sep @ spec_item_text i @ r = sep @ g @ CHR '':'' # decimal n @ r" by (simp add: i spec_item_text_def)
  show ?thesis using n unfolding e spec_loop.simps[of "sep @ g @ CHR '':'' # decimal n @ r"] Let_def d glob_text_split[OF g]
    by (simp add: s t spec_item_def size_to_int_small i)
qed

lemma spec_loop_text:
  assumes "list_all item_fits is" "is \<noteq> []" "sep = [] \<or> sep = '',''" "r = [] \<or> hd r = CHR '',''"
  shows "spec_loop (sep @ spec_text is @ r) items = spec_loop r (rev (map spec_item is) @ items)"
  using assms
proof (induction "is" arbitrary: sep items rule: spec_text.induct)
  case (2 i)
  then show ?case using spec_loop_item[of i r sep items] by simp
next
  case (3 i j "is")
  have "spec_loop (sep @ spec_text (i # j # is) @ r) items = spec_loop (sep @ spec_item_text i @ ('','' @ spec_text (j # is) @ r)) items"
    by simp
  also have "\<dots> = spec_loop ('','' @ spec_text (j # is) @ r) (spec_item i # items)" using 3(2,4) by (intro spec_loop_item) auto
  also have "\<dots> = spec_loop r (rev (map spec_item (i # j # is)) @ items)" using 3(1)[of "'',''" "spec_item i # items"] 3(2,5) by simp
  finally show ?case .
qed simp

lemma spec_text_nonempty: "is \<noteq> [] \<Longrightarrow> spec_text is \<noteq> []"
  by (induction "is" rule: spec_text.induct) (auto simp: spec_item_text_def split: prod.splits)

lemma spec_init_text:
  assumes "list_all item_fits is"
  shows "z_log_spec_init (Some (spec_text is)) v = (\<lparr>ls_items = map spec_item is, ls_verbose_level = v\<rparr>, True)"
  using spec_loop_text[OF assms, of "[]" "[]" "[]"] spec_loop.simps[of "[]"]
  by (cases "is = []") (simp_all add: z_log_spec_init_def rev_map)

lemma spec_init_separator_at_end:
  assumes "list_all item_fits is" "is \<noteq> []"
  shows "z_log_spec_init (Some (spec_text is @ '','')) v = (\<lparr>ls_items = [], ls_verbose_level = v\<rparr>, False)"
  using spec_loop_text[OF assms, of "[]" "'',''" "[]"] spec_loop.simps[of "'',''" "rev (map spec_item is)"]
  by (simp add: z_log_spec_init_def z_log_spec_destroy_def)

text \<open>parsing the text of a list of patterns and levels succeeds, and the level of a tag is then that of the first pattern whose parts
  all are stars or the same as those of the tag, and the default level when there is none. The same
  text with a comma after it is refused and leaves a specification without items.\<close>

theorem logspec_levels:
  assumes "list_all item_fits is"
  shows "(\<exists>spec. z_log_spec_init (Some (spec_text is)) v = (spec, True)
      \<and> (\<forall>tag. z_log_spec_eval spec tag =
            (case find (\<lambda>(g, n). parts_match (parts g) (parts tag)) is of Some (g, n) \<Rightarrow> int n | None \<Rightarrow> v)))
    \<and> (is \<noteq> [] \<longrightarrow> z_log_spec_init (Some (spec_text is @ '','')) v = (\<lparr>ls_items = [], ls_verbose_level = v\<rparr>, False))"
proof -
  have f: "find (\<lambda>lsi. z_log_spec_glob_match (li_pattern lsi) tag) (map spec_item is)
    = map_option spec_item (find (\<lambda>(g, n). parts_match (parts g) (parts tag)) is)" for tag
    by (induction "is") (auto simp: spec_item_def glob_match_by_parts)
  have l: "li_verbose_level (spec_item i) = (case i of (g, n) \<Rightarrow> int n)" for i by (simp add: spec_item_def split: prod.splits)
  have "z_log_spec_eval \<lparr>ls_items = map spec_item is, ls_verbose_level = v\<rparr> tag =
      (case find (\<lambda>(g, n). parts_match (parts g) (parts tag)) is of Some (g, n) \<Rightarrow> int n | None \<Rightarrow> v)" for tag
    by (cases "find (\<lambda>(g, n). parts_match (parts g) (parts tag)) is") (simp_all add: z_log_spec_eval_def f l)
  then show ?thesis using spec_init_text[OF assms, of v] spec_init_separator_at_end[OF assms, of v] by auto
qed

theorem logspec_levels_witness:
  "\<exists>spec. z_log_spec_init (Some (spec_text [(''core.*.x'', 5), (''core'', 2)])) 3 = (spec, True)
    \<and> z_log_spec_eval spec ''core.a.x.y'' = 5 \<and> z_log_spec_eval spec ''core.a'' = 2 \<and> z_log_spec_eval spec ''http'' = 3"
proof -
  have a: "list_all item_fits [(''core.*.x'', 5), (''core'', 2)]"
    by (simp add: item_fits_def glob_char_def isalnum_def isdigit_def code_def)
  show ?thesis using logspec_levels[OF a, of 3] by (auto simp: parts.simps)
qed

end
