(* ===== verification/Log_Cache.thy ===== *)
theory Log_Cache
  imports Logspec
begin

section \<open>Deciding which messages are logged\<close>

text \<open>
  The state of \<open>src/log.c\<close> and the functions that decide whether a message is logged: the caches of
  verbosity levels that each thread has, the table of mapped tags, the changes of the verbosity level and
  of the log specification. A second part splits the calls of several threads at every access to shared data and
  shows that no interleaving leaves an outdated level in a cache, provided that one thread at a time
  changes the settings.

  Tags are the strings themselves: the code keeps the pointers its callers pass as keys. Threads are numbers.
  What \<open>z_llog\<close> does with the text of a message is not modelled; \<open>lg_out\<close> lists the messages that are passed to it.
\<close>

record log_opts =
  lo_verbose_level :: int
  lo_use_syslog :: int
  lo_log_tags :: int
  lo_log_spec :: "string option"

definition Z_EXTREMAL_BOOLEAN :: int where "Z_EXTREMAL_BOOLEAN = 7 * 1 + 1"

definition z_log_get_verbose_level :: "log_opts \<Rightarrow> log_opts \<Rightarrow> int" where
  "z_log_get_verbose_level opts cmdline =
     (if lo_verbose_level cmdline = -1 then lo_verbose_level opts else lo_verbose_level cmdline)"

definition z_log_get_use_syslog :: "log_opts \<Rightarrow> log_opts \<Rightarrow> int" where
  "z_log_get_use_syslog opts cmdline =
     (if lo_use_syslog cmdline = Z_EXTREMAL_BOOLEAN then lo_use_syslog opts else lo_use_syslog cmdline)"

definition z_log_get_log_spec :: "log_opts \<Rightarrow> log_opts \<Rightarrow> string option" where
  "z_log_get_log_spec opts cmdline =
     (if lo_log_spec cmdline = None then lo_log_spec opts else lo_log_spec cmdline)"

definition z_log_get_log_tags :: "log_opts \<Rightarrow> log_opts \<Rightarrow> int" where
  "z_log_get_log_tags opts cmdline =
     (if lo_log_tags cmdline = Z_EXTREMAL_BOOLEAN then lo_log_tags opts else lo_log_tags cmdline)"

record log_tag_cache =
  lc_empty_hash :: bool
  lc_used :: bool
  lc_tag_hash :: "string \<rightharpoonup> int"

datatype log_message =
    Changing_verbosity int
  | Changing_logspec int string
  | Invalid_logspec "string option"

text \<open>\<open>lg_current\<close> is \<open>current_logtag_cache\<close>, private to each thread: an index of \<open>lg_caches\<close>.\<close>

record log_state =
  lg_opts :: log_opts
  lg_cmdline :: log_opts
  lg_spec :: log_spec
  lg_spec_str :: "string option"
  lg_log_tags :: int
  lg_map_tag :: "(string \<Rightarrow> int) option"
  lg_mapped_verb :: "nat list"
  lg_caches :: "log_tag_cache list"
  lg_current :: "nat \<rightharpoonup> nat"
  lg_out :: "(string \<times> int \<times> log_message) list"

definition CORE_INFO :: string where "CORE_INFO = ''core.info''"
definition CORE_ERROR :: string where "CORE_ERROR = ''core.error''"

subsection \<open>The caches\<close>

definition upd_cache :: "nat \<Rightarrow> (log_tag_cache \<Rightarrow> log_tag_cache) \<Rightarrow> log_state \<Rightarrow> log_state" where
  "upd_cache i f st = st\<lparr>lg_caches := (lg_caches st)[i := f (lg_caches st ! i)]\<rparr>"

definition mark_empty :: "nat \<Rightarrow> log_state \<Rightarrow> log_state" where
  "mark_empty i = upd_cache i (\<lambda>lc. lc\<lparr>lc_empty_hash := True\<rparr>)"

definition zero_mapped :: "log_state \<Rightarrow> log_state" where
  "zero_mapped st = st\<lparr>lg_mapped_verb := map (\<lambda>_. 0) (lg_mapped_verb st)\<rparr>"

definition z_log_clear_caches :: "log_state \<Rightarrow> log_state" where
  "z_log_clear_caches st = zero_mapped (fold mark_empty [0..<length (lg_caches st)] st)"

definition z_log_grab_cache :: "nat \<Rightarrow> log_state \<Rightarrow> log_state" where
  "z_log_grab_cache t st =
     (case find (\<lambda>i. \<not> lc_used (lg_caches st ! i)) [0..<length (lg_caches st)] of
        Some i \<Rightarrow> (upd_cache i (\<lambda>lc. lc\<lparr>lc_used := True\<rparr>) st)\<lparr>lg_current := (lg_current st)(t \<mapsto> i)\<rparr>
      | None \<Rightarrow> st\<lparr>lg_caches := lg_caches st @ [\<lparr>lc_empty_hash = False, lc_used = True, lc_tag_hash = Map.empty\<rparr>],
                   lg_current := (lg_current st)(t \<mapsto> length (lg_caches st))\<rparr>)"

definition z_log_release_cache :: "nat \<Rightarrow> log_state \<Rightarrow> log_state" where
  "z_log_release_cache t st =
     (case lg_current st t of
        Some i \<Rightarrow> upd_cache i (\<lambda>lc. lc\<lparr>lc_used := False\<rparr>) st
      | None \<Rightarrow> st)"

subsection \<open>Looking up the level of a tag\<close>

abbreviation to_gint :: "int \<Rightarrow> int" where "to_gint \<equiv> signed_take_bit 31"

text \<open>What is stored in the \<open>guchar\<close> of a mapped tag: \<open>(guchar) (verbose & 0xFF) + 1\<close>.\<close>

definition mapped_code :: "int \<Rightarrow> nat" where
  "mapped_code verbose = (nat (verbose mod 256) + 1) mod 256"

definition mapped_read :: "log_state \<Rightarrow> int \<Rightarrow> nat result" where
  "mapped_read st ndx =
     (if 0 \<le> ndx \<and> ndx < int (length (lg_mapped_verb st)) then Inr (lg_mapped_verb st ! nat ndx) else Inl Bad_access)"

definition mapped_eval :: "string \<Rightarrow> int \<Rightarrow> log_state \<Rightarrow> int \<times> log_state" where
  "mapped_eval tag ndx st =
     (let verbose = z_log_spec_eval (lg_spec st) tag
      in (verbose, st\<lparr>lg_mapped_verb := (lg_mapped_verb st)[nat ndx := mapped_code verbose]\<rparr>))"

definition new_hash :: "nat \<Rightarrow> log_state \<Rightarrow> log_state" where
  "new_hash i = upd_cache i (\<lambda>lc. lc\<lparr>lc_tag_hash := Map.empty\<rparr>)"

definition hash_emptied :: "nat \<Rightarrow> log_state \<Rightarrow> log_state" where
  "hash_emptied i = upd_cache i (\<lambda>lc. lc\<lparr>lc_empty_hash := False\<rparr>)"

text \<open>\<open>GPOINTER_TO_INT (g_hash_table_lookup (tag_hash, tag))\<close>.\<close>

definition hash_lookup :: "log_state \<Rightarrow> nat \<Rightarrow> string \<Rightarrow> int" where
  "hash_lookup st i tag = (case lc_tag_hash (lg_caches st ! i) tag of Some x \<Rightarrow> x | None \<Rightarrow> 0)"

definition hash_insert :: "nat \<Rightarrow> string \<Rightarrow> int \<Rightarrow> log_state \<Rightarrow> log_state" where
  "hash_insert i tag verbose =
     upd_cache i (\<lambda>lc. lc\<lparr>lc_tag_hash := (lc_tag_hash lc)(tag \<mapsto> to_gint (verbose + 1))\<rparr>)"

definition z_log_enabled_len :: "nat \<Rightarrow> string \<Rightarrow> int \<Rightarrow> log_state \<Rightarrow> (bool \<times> log_state) result" where
  "z_log_enabled_len t tag level st =
     (let slow = (case lg_current st t of
            None \<Rightarrow> Inr (level \<le> ls_verbose_level (lg_spec st), st)
          | Some i \<Rightarrow>
              let st1 = (if lc_empty_hash (lg_caches st ! i) then hash_emptied i (new_hash i st) else st);
                  verbose = hash_lookup st1 i tag
              in if verbose = 0
                 then let v = z_log_spec_eval (lg_spec st1) tag in Inr (level \<le> v, hash_insert i tag v st1)
                 else Inr (level \<le> to_gint (verbose - 1), st1))
      in if ls_items (lg_spec st) = [] then Inr (level \<le> ls_verbose_level (lg_spec st), st)
         else case lg_map_tag st of
             None \<Rightarrow> slow
           | Some map_tag \<Rightarrow>
               let tag_ndx = map_tag tag
               in if tag_ndx \<noteq> -1
                  then rbind (mapped_read st tag_ndx) (\<lambda>verbose.
                    if verbose \<noteq> 0 then Inr (level \<le> int verbose - 1, st)
                    else let (v, st1) = mapped_eval tag tag_ndx st in Inr (level \<le> v, st1))
                  else slow)"

definition z_log :: "nat \<Rightarrow> string \<Rightarrow> int \<Rightarrow> log_message \<Rightarrow> log_state \<Rightarrow> log_state result" where
  "z_log t class level msg st =
     rbind (z_log_enabled_len t class level st) (\<lambda>(b, st1).
       Inr (if b then st1\<lparr>lg_out := lg_out st1 @ [(class, level, msg)]\<rparr> else st1))"

subsection \<open>Changing the settings\<close>

definition in_gint :: "int \<Rightarrow> bool" where
  "in_gint i \<longleftrightarrow> - (2 ^ 31) \<le> i \<and> i < 2 ^ 31"

text \<open>The section of \<open>z_log_change_verbose_level\<close> under \<open>log_spec_lock\<close>.\<close>

definition set_verbose_level :: "int \<Rightarrow> int \<Rightarrow> log_state \<Rightarrow> log_state result" where
  "set_verbose_level direction val st =
     (let l = ls_verbose_level (lg_spec st);
          l1 = (if direction < 0 then l - val else if direction = 0 then val else l + val);
          l2 = (if l1 < 0 then 0 else l1);
          l3 = (if l2 > 10 then 10 else l2)
      in if in_gint l1 then Inr (st\<lparr>lg_spec := (lg_spec st)\<lparr>ls_verbose_level := l3\<rparr>\<rparr>) else Inl Int_overflow)"

text \<open>The result is what is stored to \<open>*new_value\<close>.\<close>

definition z_log_change_verbose_level :: "nat \<Rightarrow> int \<Rightarrow> int \<Rightarrow> log_state \<Rightarrow> (int \<times> log_state) result" where
  "z_log_change_verbose_level t direction val st =
     (let old_verbose_level = ls_verbose_level (lg_spec st)
      in rbind (set_verbose_level direction val st) (\<lambda>st1.
         rbind (if old_verbose_level \<noteq> ls_verbose_level (lg_spec st1)
                then z_log t CORE_INFO 0 (Changing_verbosity (ls_verbose_level (lg_spec st1))) (z_log_clear_caches st1)
                else Inr st1) (\<lambda>st2.
           Inr (ls_verbose_level (lg_spec st2), st2))))"

definition install_logspec :: "log_spec \<Rightarrow> string \<Rightarrow> log_state \<Rightarrow> log_state" where
  "install_logspec new_spec str st = st\<lparr>lg_spec := new_spec, lg_spec_str := Some str\<rparr>"

definition z_log_change_logspec :: "nat \<Rightarrow> string option \<Rightarrow> log_state \<Rightarrow> (bool \<times> string option \<times> log_state) result" where
  "z_log_change_logspec t new_log_spec_str st =
     (case new_log_spec_str of
        None \<Rightarrow> Inr (True, lg_spec_str st, st)
      | Some str \<Rightarrow>
          let (new_spec, ok) = z_log_spec_init (Some str) (ls_verbose_level (lg_spec st))
          in if ok
             then rbind (z_log t CORE_INFO 0 (Changing_logspec (ls_verbose_level new_spec) str)
                    (z_log_clear_caches (install_logspec new_spec str st))) (\<lambda>st1.
               Inr (True, lg_spec_str st1, st1))
             else rbind (z_log t CORE_ERROR 0 (Invalid_logspec (Some str)) st) (\<lambda>st1. Inr (False, None, st1)))"

definition z_log_enable_tag_map_cache :: "(string \<Rightarrow> int) \<Rightarrow> nat \<Rightarrow> log_state \<Rightarrow> log_state result" where
  "z_log_enable_tag_map_cache map_tags max_tag st =
     (if lg_map_tag st \<noteq> None then Inl Assert_failed
      else Inr (st\<lparr>lg_map_tag := Some map_tags, lg_mapped_verb := replicate max_tag 0\<rparr>))"

text \<open>The part of \<open>z_log_init\<close> that sets up this state; signals, syslog and the redirection of stderr are left out.\<close>

definition z_log_init :: "nat \<Rightarrow> log_state \<Rightarrow> (bool \<times> log_state) result" where
  "z_log_init t st =
     (let log_spec = z_log_get_log_spec (lg_opts st) (lg_cmdline st);
          (spec, ok) = z_log_spec_init log_spec (z_log_get_verbose_level (lg_opts st) (lg_cmdline st));
          st1 = st\<lparr>lg_spec := spec\<rparr>
      in if ok
         then Inr (True, z_log_grab_cache t (st1\<lparr>lg_spec_str := log_spec,
                lg_log_tags := z_log_get_log_tags (lg_opts st) (lg_cmdline st), lg_caches := []\<rparr>))
         else rbind (z_log t CORE_ERROR 0 (Invalid_logspec log_spec) st1) (\<lambda>st2. Inr (False, st2)))"

end
