(* ===== verification/Log_Threads.thy ===== *)
theory Log_Threads
  imports Log_Cache
begin

section \<open>Threads that log while the settings change\<close>

text \<open>
  The calls of \<open>z_log_enabled_len\<close>, \<open>z_log_change_verbose_level\<close> and \<open>z_log_change_logspec\<close> split at their accesses to shared
  data: the flag of a cache is set by the thread that clears the caches while the owner of the cache looks up, evaluates and
  inserts. \<open>log_pc\<close> is where a thread is. Sections under \<open>log_spec_lock\<close> are one step; the loop of \<open>z_log_clear_caches\<close> makes
  a step for each cache, during which \<open>logtag_cache_lock\<close> keeps threads from starting and ending. With
  \<open>serial\<close>, a thread begins to change the settings only when no other is changing them.
\<close>

datatype log_pc =
    Idle
  | Map_miss string          \<comment> \<open>the mapped tag has no level yet\<close>
  | Emptied string           \<comment> \<open>the hash table is new, the flag is still set\<close>
  | Checked string           \<comment> \<open>past the test of the flag\<close>
  | Evaluated string int     \<comment> \<open>before the insertion\<close>
  | Level_read int int int   \<comment> \<open>\<open>old_verbose_level\<close> is read, the level is not yet changed\<close>
  | Spec_parsed log_spec string
  | Clearing nat             \<comment> \<open>the index of the next cache\<close>
  | Zeroing                  \<comment> \<open>before the \<open>memset\<close>\<close>

fun changing :: "log_pc \<Rightarrow> bool" where
  "changing (Level_read _ _ _) = True"
| "changing (Spec_parsed _ _) = True"
| "changing (Clearing _) = True"
| "changing Zeroing = True"
| "changing _ = False"

type_synonym log_system = "log_state \<times> (nat \<Rightarrow> log_pc)"

definition may_change :: "bool \<Rightarrow> (nat \<Rightarrow> log_pc) \<Rightarrow> bool" where
  "may_change serial pc \<longleftrightarrow> (serial \<longrightarrow> (\<forall>t. \<not> changing (pc t)))"

definition lock_free :: "(nat \<Rightarrow> log_pc) \<Rightarrow> bool" where
  "lock_free pc \<longleftrightarrow> (\<forall>t i. pc t \<noteq> Clearing i)"

definition not_mapped :: "log_state \<Rightarrow> string \<Rightarrow> bool" where
  "not_mapped st tag \<longleftrightarrow> (case lg_map_tag st of None \<Rightarrow> True | Some f \<Rightarrow> f tag = -1)"

inductive log_step :: "bool \<Rightarrow> log_system \<Rightarrow> log_system \<Rightarrow> bool" for serial where
  mapped_missed: "\<lbrakk>pc t = Idle; ls_items (lg_spec st) \<noteq> []; lg_map_tag st = Some f; f tag \<noteq> -1; mapped_read st (f tag) = Inr 0\<rbrakk>
    \<Longrightarrow> log_step serial (st, pc) (st, pc(t := Map_miss tag))"
| mapped_stored: "\<lbrakk>pc t = Map_miss tag; lg_map_tag st = Some f\<rbrakk>
    \<Longrightarrow> log_step serial (st, pc) (snd (mapped_eval tag (f tag) st), pc(t := Idle))"
| flag_set: "\<lbrakk>pc t = Idle; ls_items (lg_spec st) \<noteq> []; not_mapped st tag; lg_current st t = Some i; lc_empty_hash (lg_caches st ! i)\<rbrakk>
    \<Longrightarrow> log_step serial (st, pc) (new_hash i st, pc(t := Emptied tag))"
| flag_reset: "\<lbrakk>pc t = Emptied tag; lg_current st t = Some i\<rbrakk>
    \<Longrightarrow> log_step serial (st, pc) (hash_emptied i st, pc(t := Checked tag))"
| flag_clear: "\<lbrakk>pc t = Idle; ls_items (lg_spec st) \<noteq> []; not_mapped st tag; lg_current st t = Some i; \<not> lc_empty_hash (lg_caches st ! i)\<rbrakk>
    \<Longrightarrow> log_step serial (st, pc) (st, pc(t := Checked tag))"
| hash_hit: "\<lbrakk>pc t = Checked tag; lg_current st t = Some i; hash_lookup st i tag \<noteq> 0\<rbrakk>
    \<Longrightarrow> log_step serial (st, pc) (st, pc(t := Idle))"
| hash_miss: "\<lbrakk>pc t = Checked tag; lg_current st t = Some i; hash_lookup st i tag = 0\<rbrakk>
    \<Longrightarrow> log_step serial (st, pc) (st, pc(t := Evaluated tag (z_log_spec_eval (lg_spec st) tag)))"
| hash_stored: "\<lbrakk>pc t = Evaluated tag v; lg_current st t = Some i\<rbrakk>
    \<Longrightarrow> log_step serial (st, pc) (hash_insert i tag v st, pc(t := Idle))"
| level_read: "\<lbrakk>pc t = Idle; may_change serial pc\<rbrakk>
    \<Longrightarrow> log_step serial (st, pc) (st, pc(t := Level_read (ls_verbose_level (lg_spec st)) d v))"
| level_set: "\<lbrakk>pc t = Level_read old d v; set_verbose_level d v st = Inr st'\<rbrakk>
    \<Longrightarrow> log_step serial (st, pc) (st', pc(t := if old \<noteq> ls_verbose_level (lg_spec st') then Clearing 0 else Idle))"
| spec_parsed: "\<lbrakk>pc t = Idle; may_change serial pc; z_log_spec_init (Some str) (ls_verbose_level (lg_spec st)) = (sp, True)\<rbrakk>
    \<Longrightarrow> log_step serial (st, pc) (st, pc(t := Spec_parsed sp str))"
| spec_set: "pc t = Spec_parsed sp str
    \<Longrightarrow> log_step serial (st, pc) (install_logspec sp str st, pc(t := Clearing 0))"
| cache_marked: "\<lbrakk>pc t = Clearing i; i < length (lg_caches st)\<rbrakk>
    \<Longrightarrow> log_step serial (st, pc) (mark_empty i st, pc(t := Clearing (Suc i)))"
| caches_marked: "\<lbrakk>pc t = Clearing i; i = length (lg_caches st)\<rbrakk>
    \<Longrightarrow> log_step serial (st, pc) (st, pc(t := Zeroing))"
| mapped_zeroed: "pc t = Zeroing \<Longrightarrow> log_step serial (st, pc) (zero_mapped st, pc(t := Idle))"
| thread_started: "\<lbrakk>pc t = Idle; lg_current st t = None; lock_free pc\<rbrakk>
    \<Longrightarrow> log_step serial (st, pc) (z_log_grab_cache t st, pc)"
| thread_stopped: "\<lbrakk>pc t = Idle; lg_current st t = Some i; lock_free pc\<rbrakk>
    \<Longrightarrow> log_step serial (st, pc) ((z_log_release_cache t st)\<lparr>lg_current := (lg_current st)(t := None)\<rparr>, pc)"

subsection \<open>The invariant\<close>

definition level_entry :: "log_spec \<Rightarrow> string \<Rightarrow> int" where
  "level_entry sp tag = to_gint (z_log_spec_eval sp tag + 1)"

text \<open>A cache whose entries will not be used any more: a clearing thread has not come to it yet, or its flag is set.\<close>

definition doomed :: "log_system \<Rightarrow> nat \<Rightarrow> bool" where
  "doomed s i \<longleftrightarrow> (\<exists>t j. snd s t = Clearing j \<and> j \<le> i) \<or> lc_empty_hash (lg_caches (fst s) ! i)"

definition hash_current :: "log_system \<Rightarrow> bool" where
  "hash_current s \<longleftrightarrow> (\<forall>i < length (lg_caches (fst s)). doomed s i
     \<or> (\<forall>tag x. lc_tag_hash (lg_caches (fst s) ! i) tag = Some x \<longrightarrow> x = level_entry (lg_spec (fst s)) tag))"

definition mapped_current :: "log_system \<Rightarrow> bool" where
  "mapped_current s \<longleftrightarrow> (\<exists>t. snd s t = Zeroing \<or> (\<exists>j. snd s t = Clearing j))
     \<or> (\<forall>f tag. lg_map_tag (fst s) = Some f \<longrightarrow> f tag \<noteq> -1 \<longrightarrow>
          lg_mapped_verb (fst s) ! nat (f tag) \<in> {0, mapped_code (z_log_spec_eval (lg_spec (fst s)) tag)})"

definition owners_ok :: "log_state \<Rightarrow> bool" where
  "owners_ok st \<longleftrightarrow>
     (\<forall>t i. lg_current st t = Some i \<longrightarrow> i < length (lg_caches st) \<and> lc_used (lg_caches st ! i))
     \<and> (\<forall>t t' i. lg_current st t = Some i \<longrightarrow> lg_current st t' = Some i \<longrightarrow> t = t')"

fun pc_ok :: "log_system \<Rightarrow> nat \<Rightarrow> log_pc \<Rightarrow> bool" where
  "pc_ok s t (Emptied tag) \<longleftrightarrow> (\<exists>i. lg_current (fst s) t = Some i \<and> lc_tag_hash (lg_caches (fst s) ! i) = Map.empty)"
| "pc_ok s t (Checked tag) \<longleftrightarrow> (\<exists>i. lg_current (fst s) t = Some i)"
| "pc_ok s t (Evaluated tag v) \<longleftrightarrow>
     (\<exists>i. lg_current (fst s) t = Some i \<and> (doomed s i \<or> v = z_log_spec_eval (lg_spec (fst s)) tag))"
| "pc_ok s t (Map_miss tag) \<longleftrightarrow> (\<exists>f. lg_map_tag (fst s) = Some f \<and> f tag \<noteq> -1)"
| "pc_ok s t (Level_read old d v) \<longleftrightarrow> old = ls_verbose_level (lg_spec (fst s))"
| "pc_ok s t _ \<longleftrightarrow> True"

definition map_ok :: "log_state \<Rightarrow> bool" where
  "map_ok st \<longleftrightarrow> (\<forall>f. lg_map_tag st = Some f \<longrightarrow>
     (\<forall>tag. f tag = -1 \<or> 0 \<le> f tag \<and> f tag < int (length (lg_mapped_verb st)))
     \<and> (\<forall>tag tag'. f tag = f tag' \<longrightarrow> f tag \<noteq> -1 \<longrightarrow> tag = tag'))"

definition log_inv :: "log_system \<Rightarrow> bool" where
  "log_inv s \<longleftrightarrow> owners_ok (fst s) \<and> hash_current s \<and> mapped_current s \<and> map_ok (fst s)
     \<and> (\<forall>t. pc_ok s t (snd s t)) \<and> (\<forall>t t'. changing (snd s t) \<longrightarrow> changing (snd s t') \<longrightarrow> t = t')"

lemma upd_cache_simps [simp]:
  "length (lg_caches (upd_cache i f st)) = length (lg_caches st)"
  "lg_spec (upd_cache i f st) = lg_spec st" "lg_current (upd_cache i f st) = lg_current st"
  "lg_map_tag (upd_cache i f st) = lg_map_tag st" "lg_mapped_verb (upd_cache i f st) = lg_mapped_verb st"
  "i < length (lg_caches st) \<Longrightarrow> lg_caches (upd_cache i f st) ! j = (if j = i then f (lg_caches st ! i) else lg_caches st ! j)"
  by (auto simp: upd_cache_def nth_list_update)

lemma current_less: "owners_ok st \<Longrightarrow> lg_current st t = Some i \<Longrightarrow> i < length (lg_caches st)"
  by (simp add: owners_ok_def)

text \<open>A step of a thread that neither changes the settings nor the number of caches.\<close>

lemma doomed_upd:
  assumes "\<And>t' j. pc' t' = Clearing j \<longleftrightarrow> pc t' = Clearing j"
    "\<And>j. lc_empty_hash (lg_caches st' ! j) = lc_empty_hash (lg_caches st ! j)"
  shows "doomed (st', pc') j = doomed (st, pc) j"
  using assms by (simp add: doomed_def)

lemmas cache_ops = mark_empty_def new_hash_def hash_emptied_def hash_insert_def

lemma find_unused: "find P xs = Some x \<Longrightarrow> P x \<and> x \<in> set xs"
  by (auto simp: find_Some_iff)

lemma set_verbose_level_keeps:
  assumes "set_verbose_level d v st = Inr st'"
  shows "lg_caches st' = lg_caches st" "lg_current st' = lg_current st" "lg_map_tag st' = lg_map_tag st"
    "lg_mapped_verb st' = lg_mapped_verb st" "ls_items (lg_spec st') = ls_items (lg_spec st)"
    "lg_spec st' = (lg_spec st)\<lparr>ls_verbose_level := ls_verbose_level (lg_spec st')\<rparr>"
  using assms by (auto simp: set_verbose_level_def Let_def split: if_splits)

lemma set_verbose_level_same:
  assumes "set_verbose_level d v st = Inr st'" "ls_verbose_level (lg_spec st') = ls_verbose_level (lg_spec st)"
  shows "lg_spec st' = lg_spec st"
  using set_verbose_level_keeps(6)[OF assms(1)] assms(2) by (cases "lg_spec st") simp

lemma owners_step:
  assumes "log_step serial s s'" "owners_ok (fst s)"
  shows "owners_ok (fst s')"
  using assms(1)
proof (cases rule: log_step.cases)
  case (thread_started pc t st)
  let ?c = "lg_caches st"
  show ?thesis
  proof (cases "find (\<lambda>i. \<not> lc_used (?c ! i)) [0..<length ?c]")
    case None
    then show ?thesis using assms(2) thread_started by (auto simp: owners_ok_def z_log_grab_cache_def nth_append less_Suc_eq)
  next
    case (Some i)
    then have "\<not> lc_used (?c ! i)" "i < length ?c" using find_unused[OF Some] by auto
    then show ?thesis using assms(2) thread_started Some by (auto simp: owners_ok_def z_log_grab_cache_def)
  qed
next
  case (thread_stopped pc t st i)
  then show ?thesis using assms(2) by (auto simp: owners_ok_def z_log_release_cache_def split: if_splits)
next
  case (cache_marked pc t i st)
  then show ?thesis using assms(2) by (auto simp: owners_ok_def mark_empty_def)
next
  case (level_set pc t old d v st st')
  then show ?thesis using assms(2) set_verbose_level_keeps[OF level_set(4)] by (simp add: owners_ok_def)
qed (use assms(2) in \<open>auto simp: owners_ok_def cache_ops mapped_eval_def Let_def install_logspec_def zero_mapped_def\<close>)

lemma clearing_upd:
  assumes "\<forall>j. pc t \<noteq> Clearing j" "\<forall>j. x \<noteq> Clearing j"
  shows "(pc(t := x)) t' = Clearing j \<longleftrightarrow> pc t' = Clearing j"
  using assms by auto

lemma hash_current_frame:
  assumes "hash_current (st, pc)" "lg_caches st' = lg_caches st" "lg_spec st' = lg_spec st"
    "\<forall>j. pc t \<noteq> Clearing j" "\<forall>j. x \<noteq> Clearing j"
  shows "hash_current (st', pc(t := x))"
  using assms(1) unfolding hash_current_def doomed_def fst_conv snd_conv assms(2,3) clearing_upd[of pc t x, OF assms(4,5)] .

lemma hash_current_upd:
  assumes "hash_current (st, pc)" "i < length (lg_caches st)"
    "\<forall>j. pc t \<noteq> Clearing j" "\<forall>j. x \<noteq> Clearing j"
    "doomed (st, pc) i \<or> (\<forall>tag y. lc_tag_hash (lg_caches st ! i) tag = Some y \<longrightarrow> y = level_entry (lg_spec st) tag) \<Longrightarrow>
      (\<exists>t j. pc t = Clearing j \<and> j \<le> i) \<or> lc_empty_hash (f (lg_caches st ! i))
      \<or> (\<forall>tag y. lc_tag_hash (f (lg_caches st ! i)) tag = Some y \<longrightarrow> y = level_entry (lg_spec st) tag)"
  shows "hash_current (upd_cache i f st, pc(t := x))"
  using assms(1,2,5) unfolding hash_current_def doomed_def fst_conv snd_conv clearing_upd[of pc t x, OF assms(3,4)] by auto

lemma hash_current_all_doomed: "hash_current (st, pc(t := Clearing 0))"
  by (auto simp: hash_current_def doomed_def)

lemma doomed_marked:
  assumes "pc t = Clearing i" "i < length (lg_caches st)" "doomed (st, pc) k"
  shows "doomed (mark_empty i st, pc(t := Clearing (Suc i))) k"
proof (cases "k = i \<or> lc_empty_hash (lg_caches st ! k)")
  case True
  then show ?thesis using assms(2) by (auto simp: doomed_def mark_empty_def)
next
  case False
  then obtain t' j where j: "pc t' = Clearing j" "j \<le> k" using assms(3) by (auto simp: doomed_def)
  then have "\<exists>j'. (pc(t := Clearing (Suc i))) t' = Clearing j' \<and> j' \<le> k" using assms(1) False by (cases "t' = t") auto
  then show ?thesis unfolding doomed_def snd_conv by blast
qed

lemma doomed_zeroing:
  assumes "pc t = Clearing (length (lg_caches st))" "doomed (st, pc) k" "k < length (lg_caches st)"
  shows "doomed (st, pc(t := Zeroing)) k"
proof (cases "lc_empty_hash (lg_caches st ! k)")
  case False
  then obtain t' j where j: "pc t' = Clearing j" "j \<le> k" using assms(2) by (auto simp: doomed_def)
  then have "(pc(t := Zeroing)) t' = Clearing j" using assms(1,3) by auto
  then show ?thesis using j(2) unfolding doomed_def snd_conv by blast
qed (simp add: doomed_def)

lemma doomed_clearing: "doomed (st, pc(t := Clearing 0)) k"
  unfolding doomed_def snd_conv by (metis fun_upd_same le0)

lemma doomed_frame:
  assumes "doomed (st, pc) k" "lc_empty_hash (lg_caches st ! k) \<longrightarrow> lc_empty_hash (lg_caches st' ! k)" "\<forall>j. pc t \<noteq> Clearing j"
  shows "doomed (st', pc(t := x)) k"
  using assms unfolding doomed_def fst_conv snd_conv by (metis fun_upd_other)

lemma hash_step:
  assumes "log_step serial s s'" "owners_ok (fst s)" "hash_current s"
    "\<And>t. pc_ok s t (snd s t)"
  shows "hash_current s'"
  using assms(1)
proof (cases rule: log_step.cases)
  case (flag_set pc t st tag i)
  then show ?thesis using assms(2,3) current_less[of st t i] by (auto simp: new_hash_def intro!: hash_current_upd)
next
  case (flag_reset pc t tag st i)
  then show ?thesis using assms(2,3) assms(4)[of t] current_less[of st t i] by (auto simp: hash_emptied_def intro!: hash_current_upd)
next
  case (hash_stored pc t tag v st i)
  then show ?thesis using assms(2,3) assms(4)[of t] current_less[of st t i]
    by (auto simp: hash_insert_def level_entry_def doomed_def split: if_splits intro!: hash_current_upd)
next
  case (level_set pc t old d v st st')
  note k = set_verbose_level_keeps[OF level_set(4)]
  have "lg_spec st' = lg_spec st" if "old = ls_verbose_level (lg_spec st')"
    using set_verbose_level_same[OF level_set(4)] that assms(4)[of t] level_set by simp
  then show ?thesis using assms(3) level_set k hash_current_all_doomed[of st' pc t] by (auto intro!: hash_current_frame)
next
  case (spec_set pc t sp str st)
  then show ?thesis using hash_current_all_doomed by auto
next
  case (cache_marked pc t i st)
  have h: "lc_tag_hash (lg_caches (mark_empty i st) ! k) = lc_tag_hash (lg_caches st ! k)" for k
    using cache_marked(4) by (simp add: mark_empty_def)
  have "length (lg_caches (mark_empty i st)) = length (lg_caches st)" "lg_spec (mark_empty i st) = lg_spec st"
    by (simp_all add: mark_empty_def)
  then show ?thesis using assms(3) doomed_marked[of pc t i st] cache_marked unfolding hash_current_def by (auto simp: h)
next
  case (caches_marked pc t i st)
  then show ?thesis using assms(3) doomed_zeroing[of pc t st] unfolding caches_marked(1,2) hash_current_def by auto
next
  case (thread_started pc t st)
  let ?c = "lg_caches st"
  show ?thesis
  proof (cases "find (\<lambda>i. \<not> lc_used (?c ! i)) [0..<length ?c]")
    case None
    then show ?thesis using assms(3) thread_started by (auto simp: hash_current_def doomed_def z_log_grab_cache_def nth_append less_Suc_eq)
  next
    case (Some i)
    then have "i < length ?c" using find_unused[OF Some] by auto
    then show ?thesis using assms(3) thread_started Some by (auto simp: hash_current_def doomed_def z_log_grab_cache_def)
  qed
next
  case (thread_stopped pc t st i)
  then show ?thesis using assms(2,3) current_less[of st t i] by (auto simp: hash_current_def doomed_def z_log_release_cache_def)
qed (use assms(3) in \<open>auto simp: mapped_eval_def Let_def zero_mapped_def intro!: hash_current_frame\<close>)

text \<open>The clause of \<open>mapped_current\<close> on the table itself.\<close>

definition table_current :: "log_state \<Rightarrow> bool" where
  "table_current st \<longleftrightarrow> (\<forall>f tag. lg_map_tag st = Some f \<longrightarrow> f tag \<noteq> -1 \<longrightarrow>
     lg_mapped_verb st ! nat (f tag) \<in> {0, mapped_code (z_log_spec_eval (lg_spec st) tag)})"

fun table_doomed :: "log_pc \<Rightarrow> bool" where
  "table_doomed (Clearing j) = True"
| "table_doomed Zeroing = True"
| "table_doomed _ = False"

lemma mapped_current_iff: "mapped_current (st, pc) \<longleftrightarrow> (\<exists>t. table_doomed (pc t)) \<or> table_current st"
proof -
  have "table_doomed p \<longleftrightarrow> p = Zeroing \<or> (\<exists>j. p = Clearing j)" for p by (cases p) auto
  then show ?thesis by (simp add: mapped_current_def table_current_def)
qed

lemma mapped_current_frame:
  assumes "mapped_current (st, pc)" "lg_map_tag st' = lg_map_tag st" "lg_mapped_verb st' = lg_mapped_verb st" "lg_spec st' = lg_spec st"
    "table_doomed (pc t) = table_doomed x"
  shows "mapped_current (st', pc(t := x))"
  using assms unfolding mapped_current_iff table_current_def by (auto split: if_splits)

lemma mapped_current_doomed: "table_doomed x \<Longrightarrow> mapped_current (st, pc(t := x))"
  unfolding mapped_current_iff by (metis fun_upd_same)

lemma table_current_store:
  assumes "map_ok st" "table_current st" "lg_map_tag st = Some f" "f tag \<noteq> -1"
  shows "table_current (snd (mapped_eval tag (f tag) st))"
  unfolding table_current_def
proof (intro allI impI)
  fix g tag' assume g: "lg_map_tag (snd (mapped_eval tag (f tag) st)) = Some g" "g tag' \<noteq> -1"
  have gf: "g = f" using g assms(3) by (simp add: mapped_eval_def Let_def)
  have r: "0 \<le> f x \<and> f x < int (length (lg_mapped_verb st))" if "f x \<noteq> -1" for x using assms(1,3) that by (auto simp: map_ok_def)
  have n: "tag' = tag" if "nat (f tag') = nat (f tag)"
  proof -
    have "f tag' = f tag" using that r[of tag] r[of tag'] assms(4) g(2) gf by (simp add: nat_eq_iff2)
    then show ?thesis using assms(1,3,4) unfolding map_ok_def by metis
  qed
  show "lg_mapped_verb (snd (mapped_eval tag (f tag) st)) ! nat (g tag')
      \<in> {0, mapped_code (z_log_spec_eval (lg_spec (snd (mapped_eval tag (f tag) st))) tag')}"
  proof (cases "tag' = tag")
    case True
    then show ?thesis using r[OF assms(4)] by (simp add: gf mapped_eval_def Let_def nth_list_update nat_less_iff)
  next
    case False
    have "lg_mapped_verb st ! nat (f tag') \<in> {0, mapped_code (z_log_spec_eval (lg_spec st) tag')}"
      using assms(2,3) g(2) gf unfolding table_current_def by blast
    moreover have "nat (f tag) \<noteq> nat (f tag')" using False n by metis
    ultimately show ?thesis by (simp add: gf mapped_eval_def Let_def)
  qed
qed

lemma mapped_step:
  assumes "log_step serial s s'" "map_ok (fst s)" "mapped_current s" "\<And>t. pc_ok s t (snd s t)"
  shows "mapped_current s'"
  using assms(1)
proof (cases rule: log_step.cases)
  case (mapped_stored pc t tag st f)
  have "table_current st \<longrightarrow> table_current (snd (mapped_eval tag (f tag) st))"
    using table_current_store[of st f tag] assms(2) assms(4)[of t] mapped_stored by auto
  moreover have "(\<exists>t. table_doomed (pc t)) \<longrightarrow> (\<exists>t'. table_doomed ((pc(t := Idle)) t'))"
    using mapped_stored(3) by (metis fun_upd_apply table_doomed.simps(4))
  ultimately show ?thesis using assms(3) unfolding mapped_stored(1,2) mapped_current_iff by blast
next
  case (level_set pc t old d v st st')
  note k = set_verbose_level_keeps[OF level_set(4)]
  have "lg_spec st' = lg_spec st" if "old = ls_verbose_level (lg_spec st')"
    using set_verbose_level_same[OF level_set(4)] that assms(4)[of t] level_set by simp
  then show ?thesis using assms(3) level_set k by (cases "old = ls_verbose_level (lg_spec st')") (auto intro: mapped_current_frame mapped_current_doomed)
next
  case (spec_set pc t sp str st)
  then show ?thesis by (simp add: mapped_current_doomed)
next
  case (cache_marked pc t i st)
  then show ?thesis by (simp add: mapped_current_doomed)
next
  case (caches_marked pc t i st)
  then show ?thesis by (simp add: mapped_current_doomed)
next
  case (mapped_zeroed pc t st)
  have "table_current (zero_mapped st)" unfolding table_current_def
  proof (intro allI impI)
    fix f tag assume "lg_map_tag (zero_mapped st) = Some f" "f tag \<noteq> -1"
    then have "nat (f tag) < length (lg_mapped_verb st)" using assms(2) mapped_zeroed by (auto simp: map_ok_def zero_mapped_def)
    then show "lg_mapped_verb (zero_mapped st) ! nat (f tag) \<in> {0, mapped_code (z_log_spec_eval (lg_spec (zero_mapped st)) tag)}"
      by (simp add: zero_mapped_def)
  qed
  then show ?thesis using mapped_zeroed by (simp add: mapped_current_iff)
next
  case (thread_started pc t st)
  then show ?thesis using assms(3) by (auto simp: mapped_current_iff table_current_def z_log_grab_cache_def split: option.splits)
next
  case (thread_stopped pc t st i)
  then show ?thesis using assms(3) by (auto simp: mapped_current_iff table_current_def z_log_release_cache_def split: option.splits)
qed (use assms(3) in \<open>auto simp: cache_ops intro!: mapped_current_frame\<close>)

text \<open>What dooms a cache stays until its owner has emptied it.\<close>

lemma doomed_step:
  assumes "log_step serial s s'" "owners_ok (fst s)" "doomed s k" "k < length (lg_caches (fst s))"
    "\<forall>t tag. lg_current (fst s) t = Some k \<longrightarrow> snd s t \<noteq> Emptied tag"
  shows "doomed s' k"
  using assms(1)
proof (cases rule: log_step.cases)
  case (level_set pc t old d v st st')
  then show ?thesis using assms(3) set_verbose_level_keeps(1)[OF level_set(4)] doomed_clearing doomed_frame[of st pc k st' t Idle] by auto
next
  case (cache_marked pc t i st)
  then show ?thesis using assms(3) doomed_marked by simp
next
  case (caches_marked pc t i st)
  then show ?thesis using assms(3,4) doomed_zeroing by simp
next
  case (flag_reset pc t tag st i)
  then have "k \<noteq> i" using assms(5) by auto
  then show ?thesis using flag_reset assms(2,3) current_less[of st t i] by (auto simp: hash_emptied_def intro!: doomed_frame)
next
  case (thread_started pc t st)
  then have "lc_empty_hash (lg_caches st ! k) \<longrightarrow> lc_empty_hash (lg_caches (z_log_grab_cache t st) ! k)"
    using assms(4) by (auto simp: z_log_grab_cache_def nth_append split: option.splits dest!: find_unused)
  then show ?thesis using thread_started assms(3) by (auto simp: doomed_def)
next
  case (thread_stopped pc t st i)
  then show ?thesis using assms(2,3) current_less[of st t i] by (auto simp: doomed_def z_log_release_cache_def)
next
  case (spec_set pc t sp str st)
  then show ?thesis using doomed_clearing by simp
qed (use assms(2,3) current_less in \<open>auto simp: mapped_eval_def Let_def cache_ops zero_mapped_def intro!: doomed_frame\<close>)

lemma pc_ok_frame:
  assumes "pc_ok s u p" "lg_current (fst s') u = lg_current (fst s) u" "lg_map_tag (fst s') = lg_map_tag (fst s)"
    "\<forall>i. lg_current (fst s) u = Some i \<longrightarrow> lc_tag_hash (lg_caches (fst s') ! i) = lc_tag_hash (lg_caches (fst s) ! i)"
    "\<forall>i. lg_current (fst s) u = Some i \<longrightarrow> (\<exists>tag v. p = Evaluated tag v) \<longrightarrow> doomed s i \<longrightarrow> doomed s' i"
    "lg_spec (fst s') = lg_spec (fst s) \<or> (\<forall>k. doomed s' k) \<and> \<not> changing p"
  shows "pc_ok s' u p"
  using assms by (cases p) auto

text \<open>The thread that makes the step, and what the step leaves to the others.\<close>

lemma step_actor:
  assumes "log_step serial s s'" "owners_ok (fst s)" "\<And>t. pc_ok s t (snd s t)"
  shows "\<exists>t. pc_ok s' t (snd s' t) \<and> lg_map_tag (fst s') = lg_map_tag (fst s)
    \<and> (\<forall>u. u \<noteq> t \<longrightarrow> snd s' u = snd s u \<and> lg_current (fst s') u = lg_current (fst s) u
        \<and> (\<forall>i. lg_current (fst s) u = Some i \<longrightarrow> lc_tag_hash (lg_caches (fst s') ! i) = lc_tag_hash (lg_caches (fst s) ! i)))
    \<and> (lg_spec (fst s') = lg_spec (fst s) \<or> (\<forall>k. doomed s' k) \<and> changing (snd s t))
    \<and> (changing (snd s' t) \<longrightarrow> changing (snd s t) \<or> may_change serial (snd s))"
  using assms(1)
proof (cases rule: log_step.cases)
  case (level_set pc t old d v st st')
  note k = set_verbose_level_keeps[OF level_set(4)]
  have "lg_spec st' = lg_spec st" if "old = ls_verbose_level (lg_spec st')"
    using set_verbose_level_same[OF level_set(4)] that assms(3)[of t] level_set by simp
  then show ?thesis using level_set k doomed_clearing[of st' pc t] by (intro exI[of _ t]) auto
next
  case (spec_set pc t sp str st)
  then show ?thesis using doomed_clearing[of _ pc t] by (intro exI[of _ t]) (auto simp: install_logspec_def)
next
  case (thread_started pc t st)
  then show ?thesis using assms(2) by (intro exI[of _ t])
      (auto simp: z_log_grab_cache_def nth_append owners_ok_def split: option.splits dest!: find_unused)
next
  case (thread_stopped pc t st i)
  then show ?thesis using assms(2) current_less[of st t i] by (intro exI[of _ t]) (auto simp: z_log_release_cache_def)
next
  case (flag_set pc t st tag i)
  then show ?thesis using assms(2) current_less[of st t i]
    by (intro exI[of _ t]) (auto simp: cache_ops owners_ok_def)
next
  case (flag_reset pc t tag st i)
  then show ?thesis using assms(2) current_less[of st t i]
    by (intro exI[of _ t]) (auto simp: cache_ops)
next
  case (hash_stored pc t tag v st i)
  then show ?thesis using assms(2) current_less[of st t i]
    by (intro exI[of _ t]) (auto simp: cache_ops owners_ok_def)
next
  case (cache_marked pc t i st)
  then show ?thesis by (intro exI[of _ t]) (auto simp: cache_ops)
next
  case (mapped_zeroed pc t st)
  then show ?thesis by (intro exI[of _ t]) (auto simp: zero_mapped_def)
next
  case (mapped_missed pc t st f tag)
  then show ?thesis by (intro exI[of _ t]) auto
next
  case (mapped_stored pc t tag st f)
  then show ?thesis by (intro exI[of _ t]) (auto simp: mapped_eval_def Let_def)
next
  case (flag_clear pc t st tag i)
  then show ?thesis by (intro exI[of _ t]) auto
next
  case (hash_hit pc t tag st i)
  then show ?thesis by (intro exI[of _ t]) auto
next
  case (hash_miss pc t tag st i)
  then show ?thesis by (intro exI[of _ t]) auto
next
  case (level_read pc t st d v)
  then show ?thesis by (intro exI[of _ t]) auto
next
  case (spec_parsed pc t str st sp)
  then show ?thesis by (intro exI[of _ t]) auto
next
  case (caches_marked pc t i st)
  then show ?thesis by (intro exI[of _ t]) auto
qed

lemma log_inv_step:
  assumes "log_step True s s'" "log_inv s"
  shows "log_inv s'"
proof -
  have i: "owners_ok (fst s)" "hash_current s" "mapped_current s" "map_ok (fst s)" "\<And>t. pc_ok s t (snd s t)"
    and one: "\<And>t t'. changing (snd s t) \<Longrightarrow> changing (snd s t') \<Longrightarrow> t = t'" using assms(2) by (auto simp: log_inv_def)
  obtain t where t: "pc_ok s' t (snd s' t)" "lg_map_tag (fst s') = lg_map_tag (fst s)"
    "\<And>u. u \<noteq> t \<Longrightarrow> snd s' u = snd s u \<and> lg_current (fst s') u = lg_current (fst s) u
        \<and> (\<forall>i. lg_current (fst s) u = Some i \<longrightarrow> lc_tag_hash (lg_caches (fst s') ! i) = lc_tag_hash (lg_caches (fst s) ! i))"
    "lg_spec (fst s') = lg_spec (fst s) \<or> (\<forall>k. doomed s' k) \<and> changing (snd s t)"
    "changing (snd s' t) \<longrightarrow> changing (snd s t) \<or> may_change True (snd s)"
    using step_actor[OF assms(1) i(1,5)] by blast
  have pcs: "pc_ok s' u (snd s' u)" for u
  proof (cases "u = t")
    case False
    have "doomed s' k" if k: "lg_current (fst s) u = Some k" "snd s u = Evaluated tag v" "doomed s k" for k tag v
    proof (rule doomed_step[OF assms(1) i(1) k(3) current_less[OF i(1) k(1)]], intro allI impI)
      fix t' tag' assume "lg_current (fst s) t' = Some k"
      then have "t' = u" using i(1) k(1) unfolding owners_ok_def by blast
      then show "snd s t' \<noteq> Emptied tag'" using k(2) by simp
    qed
    moreover have "lg_spec (fst s') = lg_spec (fst s) \<or> (\<forall>k. doomed s' k) \<and> \<not> changing (snd s u)" using t(4) one False by blast
    ultimately show ?thesis using t(2) t(3)[OF False] by (auto intro!: pc_ok_frame[OF i(5)])
  qed (simp add: t(1))
  have "t1 = t2" if "changing (snd s' t1)" "changing (snd s' t2)" for t1 t2
    using that t(3)[of t1] t(3)[of t2] t(5) one unfolding may_change_def by metis
  moreover have "map_ok (fst s')"
  proof -
    have "length (lg_mapped_verb (fst s')) = length (lg_mapped_verb (fst s))"
      using assms(1) by (cases rule: log_step.cases)
        (auto simp: cache_ops mapped_eval_def Let_def install_logspec_def zero_mapped_def z_log_release_cache_def z_log_grab_cache_def
          set_verbose_level_def split: option.splits if_splits)
    then show ?thesis using i(4) t(2) by (simp add: map_ok_def)
  qed
  ultimately show ?thesis
    using owners_step[OF assms(1) i(1)] hash_step[OF assms(1) i(1,2,5)] mapped_step[OF assms(1) i(4,3,5)] pcs
    by (simp add: log_inv_def)
qed

subsection \<open>Whole calls\<close>

definition spec_levels :: "int \<Rightarrow> int \<Rightarrow> log_spec \<Rightarrow> bool" where
  "spec_levels lo hi sp \<longleftrightarrow> (\<forall>v \<in> insert (ls_verbose_level sp) (li_verbose_level ` set (ls_items sp)). lo \<le> v \<and> v \<le> hi)"

lemma spec_levels_eval:
  assumes "spec_levels lo hi sp"
  shows "lo \<le> z_log_spec_eval sp tag" "z_log_spec_eval sp tag \<le> hi"
  using assms by (auto simp: spec_levels_def z_log_spec_eval_def dest!: find_unused split: option.splits)

lemma gint_entry: "- (2 ^ 31) \<le> v \<Longrightarrow> v \<le> 2 ^ 31 - 1 \<Longrightarrow> to_gint (to_gint (v + 1) - 1) = v"
  using signed_take_bit_diff[of 31 "v + 1" "1 :: int"] by (simp add: signed_take_bit_int_eq_self)

lemma mapped_code_entry: "-1 \<le> v \<Longrightarrow> v \<le> 255 \<Longrightarrow> mapped_code v \<noteq> 0 \<Longrightarrow> int (mapped_code v) - 1 = v"
proof -
  assume a: "-1 \<le> v" "v \<le> 255" "mapped_code v \<noteq> 0"
  then have "v \<noteq> -1" "v \<noteq> 255" by (auto simp: mapped_code_def)
  then show ?thesis using a by (simp add: mapped_code_def)
qed

text \<open>A whole call of \<open>z_log_enabled_len\<close> is a run of steps of its thread.\<close>

lemma slow_path_steps:
  assumes "pc t = Idle" "ls_items (lg_spec st) \<noteq> []" "not_mapped st tag" "lg_current st t = Some i" "i < length (lg_caches st)"
    "st1 = (if lc_empty_hash (lg_caches st ! i) then hash_emptied i (new_hash i st) else st)"
  shows "(log_step serial)\<^sup>*\<^sup>* (st, pc) (st1, pc(t := Checked tag))"
proof (cases "lc_empty_hash (lg_caches st ! i)")
  case True
  have "log_step serial (st, pc) (new_hash i st, pc(t := Emptied tag))" using assms True by (intro log_step.flag_set) auto
  moreover have "log_step serial (new_hash i st, pc(t := Emptied tag)) (hash_emptied i (new_hash i st), (pc(t := Emptied tag))(t := Checked tag))"
    using assms(4) by (intro log_step.flag_reset) (auto simp: new_hash_def)
  ultimately show ?thesis using True assms(6) by auto
next
  case False
  then show ?thesis using assms log_step.flag_clear[of pc t st tag i serial] by auto
qed

lemma enabled_steps:
  assumes "pc t = Idle" "owners_ok st" "z_log_enabled_len t tag level st = Inr (b, st')"
  shows "(log_step serial)\<^sup>*\<^sup>* (st, pc) (st', pc)"
proof -
  have p: "pc(t := Idle) = pc" using assms(1) by auto
  consider (fast) "ls_items (lg_spec st) = []"
    | (mapped) f where "ls_items (lg_spec st) \<noteq> []" "lg_map_tag st = Some f" "f tag \<noteq> -1"
    | (slow) "ls_items (lg_spec st) \<noteq> []" "not_mapped st tag" unfolding not_mapped_def by (cases "lg_map_tag st") auto
  then show ?thesis
  proof cases
    case fast
    then show ?thesis using assms(3) by (simp add: z_log_enabled_len_def)
  next
    case mapped
    then obtain x where x: "mapped_read st (f tag) = Inr x" using assms(3) by (cases "mapped_read st (f tag)") (auto simp: z_log_enabled_len_def Let_def)
    show ?thesis
    proof (cases "x = 0")
      case True
      then have "log_step serial (st, pc) (st, pc(t := Map_miss tag))" using mapped x assms(1) by (intro log_step.mapped_missed) auto
      moreover have "log_step serial (st, pc(t := Map_miss tag)) (snd (mapped_eval tag (f tag) st), pc(t := Map_miss tag, t := Idle))"
        using mapped by (intro log_step.mapped_stored) auto
      ultimately show ?thesis using assms(3) mapped x True by (auto simp: z_log_enabled_len_def Let_def p split: prod.splits)
    qed (use assms(3) mapped x in \<open>simp add: z_log_enabled_len_def Let_def\<close>)
  next
    case slow
    show ?thesis
    proof (cases "lg_current st t")
      case None
      then show ?thesis using assms(3) slow by (auto simp: z_log_enabled_len_def not_mapped_def split: option.splits)
    next
      case (Some i)
      define st1 where "st1 = (if lc_empty_hash (lg_caches st ! i) then hash_emptied i (new_hash i st) else st)"
      have r: "z_log_enabled_len t tag level st =
          (let v = hash_lookup st1 i tag in if v = 0
             then Inr (level \<le> z_log_spec_eval (lg_spec st1) tag, hash_insert i tag (z_log_spec_eval (lg_spec st1) tag) st1)
             else Inr (level \<le> to_gint (v - 1), st1))"
        using slow Some unfolding z_log_enabled_len_def st1_def not_mapped_def by (auto simp: Let_def split: option.splits)
      have c: "lg_current st1 t = Some i" using Some by (simp add: st1_def cache_ops)
      have run: "(log_step serial)\<^sup>*\<^sup>* (st, pc) (st1, pc(t := Checked tag))"
        using slow_path_steps[of pc t, OF assms(1) slow Some current_less[OF assms(2) Some] st1_def] .
      show ?thesis
      proof (cases "hash_lookup st1 i tag = 0")
        case True
        let ?v = "z_log_spec_eval (lg_spec st1) tag"
        have "log_step serial (st1, pc(t := Checked tag)) (st1, pc(t := Checked tag, t := Evaluated tag ?v))"
          using True c by (intro log_step.hash_miss) auto
        moreover have "log_step serial (st1, pc(t := Checked tag, t := Evaluated tag ?v)) (hash_insert i tag ?v st1, pc(t := Checked tag, t := Evaluated tag ?v, t := Idle))"
          using c by (intro log_step.hash_stored) auto
        ultimately show ?thesis using run r True assms(3) p by (auto simp: Let_def)
      next
        case False
        have "log_step serial (st1, pc(t := Checked tag)) (st1, pc(t := Checked tag, t := Idle))"
          using False c by (intro log_step.hash_hit) auto
        then show ?thesis using run r False assms(3) p by (auto simp: Let_def)
      qed
    qed
  qed
qed

lemma enabled_current:
  assumes "log_inv (st, pc)" "\<forall>t. \<not> changing (pc t)" "lg_current st t = Some i"
    "spec_levels (- (2 ^ 31)) (2 ^ 31 - 1) (lg_spec st)" "lg_map_tag st \<noteq> None \<longrightarrow> spec_levels (-1) 255 (lg_spec st)"
  shows "\<exists>st'. z_log_enabled_len t tag level st = Inr (level \<le> z_log_spec_eval (lg_spec st) tag, st')"
proof -
  have inv: "owners_ok st" "hash_current (st, pc)" "mapped_current (st, pc)" "map_ok st" using assms(1) by (auto simp: log_inv_def)
  have il: "i < length (lg_caches st)" using current_less[OF inv(1) assms(3)] .
  have nc: "\<forall>t j. pc t \<noteq> Clearing j" "\<forall>t. \<not> table_doomed (pc t)" using assms(2) by (metis changing.simps(3), metis changing.simps(3,4) table_doomed.elims(2))
  let ?e = "z_log_spec_eval (lg_spec st) tag"
  consider (fast) "ls_items (lg_spec st) = []"
    | (mapped) f where "ls_items (lg_spec st) \<noteq> []" "lg_map_tag st = Some f" "f tag \<noteq> -1"
    | (slow) "ls_items (lg_spec st) \<noteq> []" "not_mapped st tag" unfolding not_mapped_def by (cases "lg_map_tag st") auto
  then show ?thesis
  proof cases
    case fast
    then show ?thesis by (simp add: z_log_enabled_len_def z_log_spec_eval_def)
  next
    case mapped
    have r: "0 \<le> f tag" "f tag < int (length (lg_mapped_verb st))" using inv(4) mapped by (auto simp: map_ok_def)
    have e: "lg_mapped_verb st ! nat (f tag) \<in> {0, mapped_code ?e}"
      using inv(3) nc(2) mapped unfolding mapped_current_iff table_current_def by blast
    have "int (mapped_code ?e) - 1 = ?e" if "mapped_code ?e \<noteq> 0"
      using mapped_code_entry[OF _ _ that] spec_levels_eval[of "-1" 255 "lg_spec st" tag] assms(5) mapped(2) by simp
    then show ?thesis using mapped r e by (auto simp: z_log_enabled_len_def mapped_read_def mapped_eval_def Let_def)
  next
    case slow
    define st1 where "st1 = (if lc_empty_hash (lg_caches st ! i) then hash_emptied i (new_hash i st) else st)"
    have r: "z_log_enabled_len t tag level st =
        (let v = hash_lookup st1 i tag in if v = 0
           then Inr (level \<le> z_log_spec_eval (lg_spec st1) tag, hash_insert i tag (z_log_spec_eval (lg_spec st1) tag) st1)
           else Inr (level \<le> to_gint (v - 1), st1))"
      using slow assms(3) unfolding z_log_enabled_len_def st1_def not_mapped_def by (auto simp: Let_def split: option.splits)
    have sp: "lg_spec st1 = lg_spec st" by (simp add: st1_def cache_ops)
    have "hash_lookup st1 i tag \<in> {0, level_entry (lg_spec st) tag}"
    proof (cases "lc_empty_hash (lg_caches st ! i)")
      case True
      then show ?thesis using il by (simp add: st1_def hash_lookup_def cache_ops)
    next
      case False
      then have "\<not> doomed (st, pc) i" using nc(1) by (simp add: doomed_def)
      then have "lc_tag_hash (lg_caches st ! i) tag = Some x \<Longrightarrow> x = level_entry (lg_spec st) tag" for x
        using inv(2) il unfolding hash_current_def by fastforce
      then show ?thesis using False by (auto simp: st1_def hash_lookup_def split: option.splits)
    qed
    moreover have "to_gint (level_entry (lg_spec st) tag - 1) = ?e"
      unfolding level_entry_def using spec_levels_eval[OF assms(4)] by (intro gint_entry)
    ultimately show ?thesis using r sp by (auto simp: Let_def)
  qed
qed

lemma log_inv_run: "(log_step True)\<^sup>*\<^sup>* s s' \<Longrightarrow> log_inv s \<Longrightarrow> log_inv s'"
  by (induction rule: rtranclp_induct) (auto intro: log_inv_step)

text \<open>The static data of the program before \<open>z_log_init\<close>.\<close>

definition log_boot :: "log_opts \<Rightarrow> log_opts \<Rightarrow> log_state" where
  "log_boot opts cmdline =
     \<lparr>lg_opts = opts, lg_cmdline = cmdline, lg_spec = \<lparr>ls_items = [], ls_verbose_level = 0\<rparr>, lg_spec_str = None, lg_log_tags = 0,
      lg_map_tag = None, lg_mapped_verb = [], lg_caches = [], lg_current = Map.empty, lg_out = []\<rparr>"

definition tag_ids :: "(string \<Rightarrow> int) \<Rightarrow> nat \<Rightarrow> bool" where
  "tag_ids f n \<longleftrightarrow> (\<forall>tag. f tag = -1 \<or> 0 \<le> f tag \<and> f tag < int n) \<and> (\<forall>tag tag'. f tag = f tag' \<longrightarrow> f tag \<noteq> -1 \<longrightarrow> tag = tag')"

text \<open>The program after its start, with or without a table of mapped tags.\<close>

definition log_started :: "log_state \<Rightarrow> bool" where
  "log_started st \<longleftrightarrow> (\<exists>m opts cmdline st0. z_log_init m (log_boot opts cmdline) = Inr (True, st0)
     \<and> (st = st0 \<or> (\<exists>f n. tag_ids f n \<and> z_log_enable_tag_map_cache f n st0 = Inr st)))"

lemma log_started_inv:
  assumes "log_started st"
  shows "log_inv (st, \<lambda>_. Idle)"
proof -
  obtain m opts cmdline st0 where i: "z_log_init m (log_boot opts cmdline) = Inr (True, st0)"
    and st: "st = st0 \<or> (\<exists>f n. tag_ids f n \<and> z_log_enable_tag_map_cache f n st0 = Inr st)" using assms unfolding log_started_def by blast
  have st0: "lg_current st0 = [m \<mapsto> 0]" "lg_caches st0 = [\<lparr>lc_empty_hash = False, lc_used = True, lc_tag_hash = Map.empty\<rparr>]"
    "lg_map_tag st0 = None"
    using i by (auto simp: z_log_init_def z_log_grab_cache_def log_boot_def Let_def rbind_eq_Inr split: prod.splits if_splits)
  have "lg_current st = [m \<mapsto> 0]" "lg_caches st = [\<lparr>lc_empty_hash = False, lc_used = True, lc_tag_hash = Map.empty\<rparr>]"
    "lg_map_tag st = None \<or> (\<exists>f n. lg_map_tag st = Some f \<and> tag_ids f n \<and> lg_mapped_verb st = replicate n 0)"
    using st st0 by (auto simp: z_log_enable_tag_map_cache_def)
  then show ?thesis
    by (auto simp: log_inv_def owners_ok_def hash_current_def mapped_current_iff table_current_def map_ok_def tag_ids_def
        split: if_splits)
qed

text \<open>C6: after any interleaving of the steps of threads that start, log, change the verbosity level or the log specification (one at a time) and
  end, whenever no change is under way, a call of \<open>z_log_enabled_len\<close> by a thread with a cache answers exactly by the
  level that the specification in force gives the tag, whatever was cached before, and is itself such a run of
  steps. The table of mapped tags keeps a byte for each level, so with it the levels have to be between -1 and 255.\<close>

theorem log_answers_current:
  assumes "log_started st0" "(log_step True)\<^sup>*\<^sup>* (st0, \<lambda>_. Idle) (st, pc)" "\<forall>t. \<not> changing (pc t)"
    "pc t = Idle" "lg_current st t = Some i" "spec_levels (- (2 ^ 31)) (2 ^ 31 - 1) (lg_spec st)"
    "lg_map_tag st \<noteq> None \<longrightarrow> spec_levels (-1) 255 (lg_spec st)"
  shows "\<exists>st'. z_log_enabled_len t tag level st = Inr (level \<le> z_log_spec_eval (lg_spec st) tag, st')
    \<and> (log_step True)\<^sup>*\<^sup>* (st, pc) (st', pc)"
proof -
  have inv: "log_inv (st, pc)" using log_inv_run[OF assms(2) log_started_inv[OF assms(1)]] .
  then obtain st' where "z_log_enabled_len t tag level st = Inr (level \<le> z_log_spec_eval (lg_spec st) tag, st')"
    using enabled_current[OF _ assms(3,5,6,7)] by blast
  then show ?thesis using enabled_steps[of pc t, OF assms(4)] inv by (auto simp: log_inv_def)
qed

definition demo_opts :: "string option \<Rightarrow> log_opts" where
  "demo_opts sp = \<lparr>lo_verbose_level = 3, lo_use_syslog = 0, lo_log_tags = 0, lo_log_spec = sp\<rparr>"

definition no_cmdline :: log_opts where
  "no_cmdline = \<lparr>lo_verbose_level = -1, lo_use_syslog = Z_EXTREMAL_BOOLEAN, lo_log_tags = Z_EXTREMAL_BOOLEAN, lo_log_spec = None\<rparr>"

definition demo_log :: log_state where
  "demo_log = \<lparr>lg_opts = demo_opts (Some ''a:1''), lg_cmdline = no_cmdline,
      lg_spec = \<lparr>ls_items = [\<lparr>li_pattern = ''a'', li_verbose_level = 1\<rparr>], ls_verbose_level = 3\<rparr>, lg_spec_str = Some ''a:1'', lg_log_tags = 0,
      lg_map_tag = None, lg_mapped_verb = [], lg_caches = [\<lparr>lc_empty_hash = False, lc_used = True, lc_tag_hash = Map.empty\<rparr>],
      lg_current = [0 \<mapsto> 0], lg_out = []\<rparr>"

lemma demo_log_started: "log_started demo_log"
proof -
  have one: "char_of (49 :: nat) = CHR ''1''" by code_simp
  have sp: "z_log_spec_init (Some ''a:1'') 3 = (lg_spec demo_log, True)"
    using spec_init_text[of "[(''a'', 1)]" 3]
    by (simp add: item_fits_def glob_char_def isalnum_def isdigit_def code_def spec_item_text_def spec_item_def decimal.simps demo_log_def one)
  have "z_log_init 0 (log_boot (demo_opts (Some ''a:1'')) no_cmdline) = Inr (True, demo_log)"
    using sp by (simp add: z_log_init_def log_boot_def demo_opts_def no_cmdline_def z_log_get_log_spec_def z_log_get_verbose_level_def
        z_log_get_log_tags_def Z_EXTREMAL_BOOLEAN_def z_log_grab_cache_def demo_log_def Let_def)
  then show ?thesis unfolding log_started_def by blast
qed

theorem log_answers_current_witness:
  "\<exists>st'. z_log_enabled_len 0 ''a.b'' 2 demo_log = Inr (2 \<le> z_log_spec_eval (lg_spec demo_log) ''a.b'', st')"
proof -
  have "spec_levels (- (2 ^ 31)) (2 ^ 31 - 1) (lg_spec demo_log)" by (simp add: spec_levels_def demo_log_def)
  then show ?thesis using log_answers_current[OF demo_log_started rtranclp.rtrancl_refl, of 0 0 "''a.b''" 2] by (auto simp: demo_log_def)
qed

text \<open>Two threads that change the verbosity level at the same time can leave the levels of a cache outdated: \<open>old_verbose_level\<close> is read
  before the lock is taken, and a thread that sets the level it had read clears no cache, though another
  thread had set and logged with a different level in between.\<close>

theorem log_change_race:
  "\<exists>st. (log_step False)\<^sup>*\<^sup>* (demo_log, \<lambda>_. Idle) (st, \<lambda>_. Idle) \<and> z_log_spec_eval (lg_spec st) ''b'' = 3
    \<and> z_log_enabled_len 0 ''b'' 4 st = Inr (True, st)"
proof -
  have m: "\<not> z_log_spec_glob_match ''a'' ''b''" by (simp add: z_log_spec_glob_match.simps part_differs_def)
  let ?five = "demo_log\<lparr>lg_spec := (lg_spec demo_log)\<lparr>ls_verbose_level := 5\<rparr>\<rparr>"
  let ?p1 = "(\<lambda>_ :: nat. Idle)(1 := Level_read 3 0 3)"
  let ?s4 = "mark_empty 0 ?five"
  let ?s8 = "hash_emptied 0 (new_hash 0 (zero_mapped ?s4))"
  let ?s9 = "hash_insert 0 ''b'' 5 ?s8"
  let ?s10 = "?s9\<lparr>lg_spec := (lg_spec ?s9)\<lparr>ls_verbose_level := 3\<rparr>\<rparr>"
  note defs = demo_log_def cache_ops upd_cache_def zero_mapped_def not_mapped_def hash_lookup_def z_log_spec_eval_def m may_change_def
  have idle: "?p1(2 := Idle) = ?p1" "?p1(0 := Idle) = ?p1" "?p1(1 := Idle) = (\<lambda>_. Idle)" by auto
  have "log_step False (demo_log, \<lambda>_. Idle) (demo_log, ?p1)"
    using log_step.level_read[of "\<lambda>_. Idle" 1 False demo_log 0 3] by (simp add: defs)
  moreover have "log_step False (demo_log, ?p1) (demo_log, ?p1(2 := Level_read 3 0 5))"
    using log_step.level_read[of ?p1 2 False demo_log 0 5] by (simp add: defs)
  moreover have "log_step False (demo_log, ?p1(2 := Level_read 3 0 5)) (?five, ?p1(2 := Clearing 0))"
    using log_step.level_set[of "?p1(2 := Level_read 3 0 5)" 2 3 0 5 demo_log ?five False] by (simp add: set_verbose_level_def in_gint_def defs)
  moreover have "log_step False (?five, ?p1(2 := Clearing 0)) (?s4, ?p1(2 := Clearing 1))"
    using log_step.cache_marked[of "?p1(2 := Clearing 0)" 2 0 ?five False] by (simp add: demo_log_def)
  moreover have "log_step False (?s4, ?p1(2 := Clearing 1)) (?s4, ?p1(2 := Zeroing))"
    using log_step.caches_marked[of "?p1(2 := Clearing 1)" 2 1 ?s4 False] by (simp add: defs)
  moreover have "log_step False (?s4, ?p1(2 := Zeroing)) (zero_mapped ?s4, ?p1)"
    using log_step.mapped_zeroed[of "?p1(2 := Zeroing)" 2 False ?s4] idle by simp
  moreover have "log_step False (zero_mapped ?s4, ?p1) (new_hash 0 (zero_mapped ?s4), ?p1(0 := Emptied ''b''))"
    using log_step.flag_set[of ?p1 0 "zero_mapped ?s4" "''b''" 0 False] by (simp add: defs)
  moreover have "log_step False (new_hash 0 (zero_mapped ?s4), ?p1(0 := Emptied ''b'')) (?s8, ?p1(0 := Checked ''b''))"
    using log_step.flag_reset[of "?p1(0 := Emptied ''b'')" 0 "''b''" "new_hash 0 (zero_mapped ?s4)" 0 False] by (simp add: defs)
  moreover have "log_step False (?s8, ?p1(0 := Checked ''b'')) (?s8, ?p1(0 := Evaluated ''b'' 5))"
    using log_step.hash_miss[of "?p1(0 := Checked ''b'')" 0 "''b''" ?s8 0 False] by (simp add: defs)
  moreover have "log_step False (?s8, ?p1(0 := Evaluated ''b'' 5)) (?s9, ?p1)"
    using log_step.hash_stored[of "?p1(0 := Evaluated ''b'' 5)" 0 "''b''" 5 ?s8 0 False] idle by (simp add: defs)
  moreover have "log_step False (?s9, ?p1) (?s10, \<lambda>_. Idle)"
    using log_step.level_set[of ?p1 1 3 0 3 ?s9 ?s10 False] idle by (simp add: set_verbose_level_def in_gint_def)
  ultimately have "(log_step False)\<^sup>*\<^sup>* (demo_log, \<lambda>_. Idle) (?s10, \<lambda>_. Idle)" by (meson converse_rtranclp_into_rtranclp r_into_rtranclp)
  moreover have "z_log_spec_eval (lg_spec ?s10) ''b'' = 3" by (simp add: defs)
  moreover have "z_log_enabled_len 0 ''b'' 4 ?s10 = Inr (True, ?s10)" by (simp add: z_log_enabled_len_def defs)
  ultimately show ?thesis by blast
qed

subsection \<open>Whole changes of the settings\<close>

lemma mark_fold:
  "j + k = length (lg_caches st) \<Longrightarrow> pc t = Clearing j \<Longrightarrow>
    (log_step serial)\<^sup>*\<^sup>* (st, pc) (fold mark_empty [j..<length (lg_caches st)] st, pc(t := Clearing (length (lg_caches st))))"
proof (induction k arbitrary: j st pc)
  case 0
  then show ?case by (auto simp: fun_upd_idem)
next
  case (Suc k)
  have l: "length (lg_caches (mark_empty j st)) = length (lg_caches st)" by (simp add: mark_empty_def)
  have "log_step serial (st, pc) (mark_empty j st, pc(t := Clearing (Suc j)))" using Suc by (intro log_step.cache_marked) auto
  moreover have "(log_step serial)\<^sup>*\<^sup>* (mark_empty j st, pc(t := Clearing (Suc j)))
      (fold mark_empty [Suc j..<length (lg_caches st)] (mark_empty j st), pc(t := Clearing (length (lg_caches st))))"
    using Suc.IH[of "Suc j" "mark_empty j st" "pc(t := Clearing (Suc j))"] Suc.prems l by (simp del: fun_upd_apply add: fun_upd_same)
  moreover have "fold mark_empty [j..<length (lg_caches st)] st = fold mark_empty [Suc j..<length (lg_caches st)] (mark_empty j st)"
    using Suc.prems by (simp add: upt_conv_Cons)
  ultimately show ?case by (simp only: converse_rtranclp_into_rtranclp)
qed

lemma fold_mark_length: "length (lg_caches (fold mark_empty is st)) = length (lg_caches st)"
  by (induction "is" arbitrary: st) (auto simp: mark_empty_def)

lemma clear_steps:
  assumes "pc t = Clearing 0"
  shows "(log_step serial)\<^sup>*\<^sup>* (st, pc) (z_log_clear_caches st, pc(t := Idle))"
proof -
  let ?n = "length (lg_caches st)" and ?st1 = "fold mark_empty [0..<length (lg_caches st)] st"
  have "(log_step serial)\<^sup>*\<^sup>* (st, pc) (?st1, pc(t := Clearing ?n))" using mark_fold[of 0 ?n st pc t] assms by simp
  also have "log_step serial (?st1, pc(t := Clearing ?n)) (?st1, pc(t := Clearing ?n, t := Zeroing))"
    by (intro log_step.caches_marked) (auto simp: fold_mark_length)
  also have "log_step serial (?st1, pc(t := Clearing ?n, t := Zeroing)) (zero_mapped ?st1, pc(t := Clearing ?n, t := Zeroing, t := Idle))"
    by (intro log_step.mapped_zeroed) auto
  finally show ?thesis by (simp add: z_log_clear_caches_def)
qed

lemma log_inv_out [simp]: "log_inv (st\<lparr>lg_out := out\<rparr>, pc) = log_inv (st, pc)"
proof -
  have d: "doomed (st\<lparr>lg_out := out\<rparr>, pc) i = doomed (st, pc) i" for i by (simp add: doomed_def)
  have "pc_ok (st\<lparr>lg_out := out\<rparr>, pc) t p = pc_ok (st, pc) t p" for t p by (cases p) (auto simp: d)
  then show ?thesis by (simp add: log_inv_def owners_ok_def hash_current_def mapped_current_iff table_current_def map_ok_def d)
qed

lemma enabled_keeps:
  assumes "z_log_enabled_len t tag level st = Inr (b, st')"
  shows "lg_spec st' = lg_spec st" "lg_current st' = lg_current st" "lg_map_tag st' = lg_map_tag st"
  using assms by (auto simp: z_log_enabled_len_def Let_def cache_ops mapped_eval_def rbind_eq_Inr split: if_splits option.splits)

lemma z_log_keeps:
  assumes "z_log t cl level msg st = Inr st'" "log_inv (st, pc)" "pc t = Idle"
  shows "log_inv (st', pc)" "lg_spec st' = lg_spec st" "lg_current st' = lg_current st" "lg_map_tag st' = lg_map_tag st"
proof -
  obtain b st1 where b: "z_log_enabled_len t cl level st = Inr (b, st1)"
    and st': "st' = (if b then st1\<lparr>lg_out := lg_out st1 @ [(cl, level, msg)]\<rparr> else st1)"
    using assms(1) by (auto simp: z_log_def rbind_eq_Inr)
  have "log_inv (st1, pc)"
    using enabled_steps[of pc t st cl level b st1 True] assms(2,3) b log_inv_run[of "(st, pc)" "(st1, pc)"] by (simp add: log_inv_def)
  then show "log_inv (st', pc)" using st' by simp
  show "lg_spec st' = lg_spec st" "lg_current st' = lg_current st" "lg_map_tag st' = lg_map_tag st"
    using enabled_keeps[OF b] st' by auto
qed

abbreviation idle :: "nat \<Rightarrow> log_pc" where "idle \<equiv> \<lambda>_. Idle"

lemma fold_mark_keeps:
  "lg_spec (fold mark_empty is st) = lg_spec st" "lg_current (fold mark_empty is st) = lg_current st"
  "lg_map_tag (fold mark_empty is st) = lg_map_tag st"
  by (induction "is" arbitrary: st) (auto simp: mark_empty_def)

lemma clear_keeps:
  "lg_spec (z_log_clear_caches st) = lg_spec st" "lg_current (z_log_clear_caches st) = lg_current st"
  "lg_map_tag (z_log_clear_caches st) = lg_map_tag st"
  by (auto simp: z_log_clear_caches_def zero_mapped_def fold_mark_keeps)

lemma change_logspec_inv:
  assumes "log_inv (st, idle)" "z_log_change_logspec t (Some str) st = Inr (True, v, st')"
  shows "log_inv (st', idle)" "z_log_spec_init (Some str) (ls_verbose_level (lg_spec st)) = (lg_spec st', True)"
    "lg_current st' = lg_current st" "lg_map_tag st' = lg_map_tag st"
proof -
  obtain sp ok where sp: "z_log_spec_init (Some str) (ls_verbose_level (lg_spec st)) = (sp, ok)" by fastforce
  then have ok: "ok" using assms(2) by (cases ok) (auto simp: z_log_change_logspec_def rbind_eq_Inr)
  let ?st1 = "install_logspec sp str st" and ?st2 = "z_log_clear_caches (install_logspec sp str st)"
  have z: "z_log t CORE_INFO 0 (Changing_logspec (ls_verbose_level sp) str) ?st2 = Inr st'"
    using assms(2) sp ok by (auto simp: z_log_change_logspec_def rbind_eq_Inr)
  have "log_step True (st, idle) (st, idle(t := Spec_parsed sp str))" using sp ok by (intro log_step.spec_parsed) (auto simp: may_change_def)
  moreover have "log_step True (st, idle(t := Spec_parsed sp str)) (?st1, idle(t := Spec_parsed sp str, t := Clearing 0))"
    by (intro log_step.spec_set) auto
  moreover have "(log_step True)\<^sup>*\<^sup>* (?st1, idle(t := Clearing 0)) (?st2, idle(t := Clearing 0, t := Idle))"
    by (intro clear_steps) auto
  ultimately have "(log_step True)\<^sup>*\<^sup>* (st, idle) (?st2, idle)" by (simp add: fun_upd_idem converse_rtranclp_into_rtranclp)
  then have "log_inv (?st2, idle)" using log_inv_run assms(1) by blast
  then show "log_inv (st', idle)" "z_log_spec_init (Some str) (ls_verbose_level (lg_spec st)) = (lg_spec st', True)"
    "lg_current st' = lg_current st" "lg_map_tag st' = lg_map_tag st"
    using z_log_keeps[OF z] sp ok by (simp_all add: clear_keeps install_logspec_def)
qed

lemma change_verbose_inv:
  assumes "log_inv (st, idle)" "z_log_change_verbose_level t d v st = Inr (n, st')"
  shows "log_inv (st', idle)" "lg_current st' = lg_current st" "lg_map_tag st' = lg_map_tag st"
    "ls_items (lg_spec st') = ls_items (lg_spec st)" "ls_verbose_level (lg_spec st') = n"
    "n = max 0 (min 10 (if d < 0 then ls_verbose_level (lg_spec st) - v else if d = 0 then v else ls_verbose_level (lg_spec st) + v))"
proof -
  let ?old = "ls_verbose_level (lg_spec st)"
  obtain st1 where st1: "set_verbose_level d v st = Inr st1" using assms(2) by (auto simp: z_log_change_verbose_level_def rbind_eq_Inr)
  let ?new = "ls_verbose_level (lg_spec st1)"
  note k = set_verbose_level_keeps[OF st1]
  have new: "?new = max 0 (min 10 (if d < 0 then ?old - v else if d = 0 then v else ?old + v))"
    using st1 by (auto simp: set_verbose_level_def Let_def split: if_splits)
  have r: "log_step True (st, idle) (st, idle(t := Level_read ?old d v))" by (intro log_step.level_read) (auto simp: may_change_def)
  have s: "log_step True (st, idle(t := Level_read ?old d v)) (st1, idle(t := if ?old \<noteq> ?new then Clearing 0 else Idle))"
    using log_step.level_set[of "idle(t := Level_read ?old d v)" t ?old d v st st1] st1 by simp
  have "log_inv (st', idle) \<and> lg_current st' = lg_current st \<and> lg_map_tag st' = lg_map_tag st \<and> lg_spec st' = lg_spec st1 \<and> n = ?new"
  proof (cases "?old = ?new")
    case True
    then have "st' = st1 \<and> n = ?new" using assms(2) st1 by (auto simp: z_log_change_verbose_level_def)
    moreover have "log_inv (st1, idle)" using log_inv_step[OF s log_inv_step[OF r assms(1)]] True by (simp add: fun_upd_idem)
    ultimately show ?thesis using k by simp
  next
    case False
    then have z: "z_log t CORE_INFO 0 (Changing_verbosity ?new) (z_log_clear_caches st1) = Inr st'" "n = ls_verbose_level (lg_spec st')"
      using assms(2) st1 by (auto simp: z_log_change_verbose_level_def rbind_eq_Inr)
    have "(log_step True)\<^sup>*\<^sup>* (st1, idle(t := Clearing 0)) (z_log_clear_caches st1, idle(t := Clearing 0, t := Idle))"
      by (intro clear_steps) auto
    then have "log_inv (z_log_clear_caches st1, idle)"
      using log_inv_run log_inv_step[OF s log_inv_step[OF r assms(1)]] False by (simp add: fun_upd_idem)
    then show ?thesis using z_log_keeps[OF z(1)] z(2) k by (simp add: clear_keeps)
  qed
  then show "log_inv (st', idle)" "lg_current st' = lg_current st" "lg_map_tag st' = lg_map_tag st"
    "ls_items (lg_spec st') = ls_items (lg_spec st)" "ls_verbose_level (lg_spec st') = n"
    "n = max 0 (min 10 (if d < 0 then ?old - v else if d = 0 then v else ?old + v))"
    using new k(5) by auto
qed

text \<open>a change of the verbosity level or of the log specification takes effect at once for every thread: the level is kept between 0 and 10, the
  text of the specification is what \<open>z_log_spec_init\<close> makes of it, and from then on every thread with a cache gets the
  answers of the new settings, whatever it had cached.\<close>

theorem log_change_applies:
  assumes "log_started st0" "(log_step True)\<^sup>*\<^sup>* (st0, idle) (st, idle)" "lg_current st u = Some i"
    "z_log_change_verbose_level t d v st = Inr (n, st1)" "z_log_change_logspec t' (Some str) st1 = Inr (True, sv, st2)"
    "\<forall>st' \<in> {st1, st2}. spec_levels (- (2 ^ 31)) (2 ^ 31 - 1) (lg_spec st') \<and> (lg_map_tag st \<noteq> None \<longrightarrow> spec_levels (-1) 255 (lg_spec st'))"
  shows "n = max 0 (min 10 (if d < 0 then ls_verbose_level (lg_spec st) - v else if d = 0 then v else ls_verbose_level (lg_spec st) + v))
    \<and> lg_spec st1 = (lg_spec st)\<lparr>ls_verbose_level := n\<rparr> \<and> z_log_spec_init (Some str) n = (lg_spec st2, True)
    \<and> (\<forall>st' \<in> {st1, st2}. \<exists>st''. z_log_enabled_len u tag level st' = Inr (level \<le> z_log_spec_eval (lg_spec st') tag, st''))"
proof -
  have inv: "log_inv (st, idle)" using log_inv_run[OF assms(2) log_started_inv[OF assms(1)]] .
  note v = change_verbose_inv[OF inv assms(4)]
  note s = change_logspec_inv[OF v(1) assms(5)]
  have "lg_spec st1 = (lg_spec st)\<lparr>ls_verbose_level := n\<rparr>" using v(4,5) by (cases "lg_spec st1"; cases "lg_spec st") simp
  moreover have "\<exists>st''. z_log_enabled_len u tag level st1 = Inr (level \<le> z_log_spec_eval (lg_spec st1) tag, st'')"
    using enabled_current[OF v(1), of u i] assms(3,6) v(2,3) by simp
  moreover have "\<exists>st''. z_log_enabled_len u tag level st2 = Inr (level \<le> z_log_spec_eval (lg_spec st2) tag, st'')"
    using enabled_current[OF s(1), of u i] assms(3,6) v(2,3) s(3,4) by simp
  ultimately show ?thesis using v(5,6) s(2) by simp
qed

theorem log_change_applies_witness:
  "\<exists>st1 st2 sv. z_log_change_verbose_level 0 1 20 demo_log = Inr (10, st1) \<and> z_log_change_logspec 0 (Some ''c:7'') st1 = Inr (True, sv, st2)
    \<and> (\<exists>st''. z_log_enabled_len 0 ''b'' 9 st2 = Inr (9 \<le> z_log_spec_eval (lg_spec st2) ''b'', st''))"
proof -
  have d: "char_of (55 :: nat) = CHR ''7''" by code_simp
  have m: "\<not> z_log_spec_glob_match ''a'' ''core.info''" by (simp add: z_log_spec_glob_match.simps part_differs_def)
  have m2: "\<not> z_log_spec_glob_match ''c'' ''core.info''" by (simp add: z_log_spec_glob_match.simps part_differs_def)
  have sp: "z_log_spec_init (Some ''c:7'') 10 = (\<lparr>ls_items = [\<lparr>li_pattern = ''c'', li_verbose_level = 7\<rparr>], ls_verbose_level = 10\<rparr>, True)"
    using spec_init_text[of "[(''c'', 7)]" 10]
    by (simp add: item_fits_def glob_char_def isalnum_def isdigit_def code_def spec_item_text_def spec_item_def decimal.simps d)
  note defs = z_log_clear_caches_def zero_mapped_def mark_empty_def upd_cache_def demo_log_def z_log_enabled_len_def hash_emptied_def new_hash_def
    hash_lookup_def z_log_spec_eval_def hash_insert_def CORE_INFO_def z_log_def m m2
  obtain st1 where a: "z_log_change_verbose_level 0 1 20 demo_log = Inr (10, st1)"
    by (simp add: z_log_change_verbose_level_def set_verbose_level_def in_gint_def defs)
  note inv = log_started_inv[OF demo_log_started]
  note v = change_verbose_inv[OF inv a]
  have l1: "lg_spec st1 = \<lparr>ls_items = [\<lparr>li_pattern = ''a'', li_verbose_level = 1\<rparr>], ls_verbose_level = 10\<rparr>"
    using v(4,5) by (cases "lg_spec st1") (simp add: demo_log_def)
  have b: "\<exists>sv st2. z_log_change_logspec 0 (Some ''c:7'') st1 = Inr (True, sv, st2)"
    using a by (auto simp: z_log_change_verbose_level_def set_verbose_level_def in_gint_def defs z_log_change_logspec_def sp install_logspec_def Let_def)
  then obtain sv st2 where b: "z_log_change_logspec 0 (Some ''c:7'') st1 = Inr (True, sv, st2)" by blast
  have l2: "lg_spec st2 = \<lparr>ls_items = [\<lparr>li_pattern = ''c'', li_verbose_level = 7\<rparr>], ls_verbose_level = 10\<rparr>"
    using change_logspec_inv(2)[OF v(1) b] sp by (simp add: l1)
  have "\<forall>st' \<in> {st1, st2}. spec_levels (- (2 ^ 31)) (2 ^ 31 - 1) (lg_spec st') \<and> (lg_map_tag demo_log \<noteq> None \<longrightarrow> spec_levels (-1) 255 (lg_spec st'))"
    by (simp add: l1 l2 spec_levels_def)
  then show ?thesis using log_change_applies[OF demo_log_started rtranclp.rtrancl_refl _ a b, of 0 0 "''b''" 9] a b by (auto simp: demo_log_def)
qed

end
