(* ===== verification/Log_Syslog.thy ===== *)
theory Log_Syslog
  imports Misc
begin

section \<open>Sending messages to syslog\<close>

text \<open>
  The syslog client of \<open>src/log.c\<close> (the one compiled with \<open>HAVE_BUGGY_SYSLOG_IN_LIBC\<close>) and the indentation of trace
  messages. The results of system calls come from a list in \<open>sl_os\<close>, one for each call in the order of the calls;
  \<open>sl_sent\<close> and \<open>sl_closed\<close> record what was written where and which descriptors were closed.
\<close>

datatype os_result =
    Os_ok int       \<comment> \<open>the value returned\<close>
  | Os_error bool   \<comment> \<open>-1; whether \<open>errno\<close> is \<open>EINTR\<close> or \<open>EAGAIN\<close>\<close>

record syslog_state =
  sl_fd :: int
  sl_os :: "os_result list"
  sl_closed :: "int list"
  sl_sent :: "(int \<times> bytes) list"

text \<open>The result of the next system call; after the end of the list calls fail for good.\<close>

definition os_call :: "syslog_state \<Rightarrow> os_result \<times> syslog_state" where
  "os_call st = (case sl_os st of [] \<Rightarrow> (Os_error False, st) | r # rs \<Rightarrow> (r, st\<lparr>sl_os := rs\<rparr>))"

definition close_fd :: "int \<Rightarrow> syslog_state \<Rightarrow> syslog_state" where
  "close_fd fd st = st\<lparr>sl_closed := sl_closed st @ [fd]\<rparr>"

fun fd_of :: "os_result \<Rightarrow> int" where
  "fd_of (Os_ok fd) = fd"
| "fd_of (Os_error _) = -1"

fun failed :: "os_result \<Rightarrow> bool" where
  "failed (Os_ok _) = False"
| "failed (Os_error _) = True"

definition z_open_syslog :: "syslog_state \<Rightarrow> bool \<times> syslog_state" where
  "z_open_syslog st =
     (let (r, st1) = os_call st;
          st2 = st1\<lparr>sl_fd := fd_of r\<rparr>
      in if sl_fd st2 = -1 then (False, st2)
         else let (c, st3) = os_call st2
           in if failed c
              then let st4 = close_fd (sl_fd st3) st3;
                       (r2, st5) = os_call st4;
                       st6 = st5\<lparr>sl_fd := fd_of r2\<rparr>;
                       (c2, st7) = os_call st6
                in if failed c2 then (False, (close_fd (sl_fd st7) st7)\<lparr>sl_fd := -1\<rparr>) else (True, st7)
              else (True, st3))"

definition z_close_syslog_internal :: "int \<Rightarrow> syslog_state \<Rightarrow> bool \<times> syslog_state" where
  "z_close_syslog_internal fd st = (if fd \<noteq> -1 then (True, close_fd fd st) else (False, st))"

definition z_close_syslog :: "syslog_state \<Rightarrow> bool \<times> syslog_state" where
  "z_close_syslog st = z_close_syslog_internal (sl_fd st) st"

text \<open>The size of the buffer of \<open>z_send_syslog\<close>. A string in it is the list of its characters.\<close>

abbreviation syslog_buf :: nat where "syslog_buf \<equiv> 8192"

fun syslog_escape :: "bytes \<Rightarrow> bytes \<Rightarrow> bytes result" where
  "syslog_escape buf [] = Inr buf"
| "syslog_escape buf (p # ps) =
     (if length buf < syslog_buf - 5
      then if 0x20 \<le> unat p \<and> unat p \<le> 0x7F
        then if length buf < syslog_buf then syslog_escape (buf @ [p]) ps else Inl Bad_access
        else if length buf + 5 \<le> syslog_buf
          then syslog_escape (buf @ [60, hexdigit (unat p div 16), hexdigit (unat p mod 16), 62]) ps else Inl Bad_access
      else Inr buf)"

text \<open>\<open>g_strlcat (buf, msg, n)\<close>: a string that already fills \<open>n\<close> bytes is left alone.\<close>

definition strlcat :: "bytes \<Rightarrow> bytes \<Rightarrow> nat \<Rightarrow> bytes" where
  "strlcat buf msg n = (if length buf \<ge> n then buf else take (n - 1) (buf @ msg))"

text \<open>The bytes to write; \<open>header\<close> is what the format \<open>"<%d>%s %s[%d]: "\<close> gives.\<close>

definition syslog_line :: "bool \<Rightarrow> bytes \<Rightarrow> bytes \<Rightarrow> bytes result" where
  "syslog_line escape header msg =
     (let buf = take (syslog_buf - 1) header
      in rbind (if escape then syslog_escape buf msg else Inr (strlcat buf msg (syslog_buf - 1))) (\<lambda>buf1.
         if length buf1 + 1 < syslog_buf then Inr (buf1 @ [10]) else Inl Bad_access))"

text \<open>A turn of the loop: \<open>sfd\<close> and \<open>rc\<close> (whether it is -1) before and after it.\<close>

definition send_attempt :: "bytes \<Rightarrow> int \<times> bool \<times> syslog_state \<Rightarrow> int \<times> bool \<times> syslog_state" where
  "send_attempt line = (\<lambda>(sfd, rc, st).
     let (rc1, again, st1) =
           (if sfd \<noteq> -1
            then case os_call st of
                (Os_ok n, st1) \<Rightarrow> (False, False, st1\<lparr>sl_sent := sl_sent st1 @ [(sfd, take (nat n) line)]\<rparr>)
              | (Os_error again, st1) \<Rightarrow> (True, again, st1)
            else (rc, False, st))
     in if sfd = -1 \<or> rc1 \<and> \<not> again
        then let st2 = (if sfd = sl_fd st1 then snd (z_close_syslog_internal sfd (snd (z_open_syslog st1))) else st1)
          in (sl_fd st2, rc1, st2)
        else (sfd, rc1, st1))"

definition z_send_syslog :: "bool \<Rightarrow> bytes \<Rightarrow> bytes \<Rightarrow> syslog_state \<Rightarrow> syslog_state result" where
  "z_send_syslog escape header msg st =
     rbind (syslog_line escape header msg) (\<lambda>line.
       let (sfd, rc, st1) = send_attempt line (sl_fd st, False, st)
       in if rc then let (sfd2, rc2, st2) = send_attempt line (sfd, rc, st1) in Inr st2 else Inr st1)"

subsection \<open>Indentation of trace messages\<close>

text \<open>The indentation of the thread before and after the call, and the number of spaces in the string that is returned.\<close>

definition z_log_trace_indent :: "int \<Rightarrow> int \<Rightarrow> int \<times> int" where
  "z_log_trace_indent dir current_indent =
     (if dir > 0 then (if current_indent < 128 - dir then current_indent + dir else current_indent, current_indent)
      else let c = (if current_indent \<ge> - dir then current_indent + dir else current_indent) in (c, c))"

lemma trace_indent_range:
  assumes "0 \<le> c" "c < 128" "z_log_trace_indent dir c = (c', n)"
  shows "0 \<le> c' \<and> c' < 128 \<and> 0 \<le> n \<and> n < 128"
  using assms by (auto simp: z_log_trace_indent_def Let_def split: if_splits)

subsection \<open>What is sent\<close>

definition escaped_byte :: "byte \<Rightarrow> bytes" where
  "escaped_byte p = (if 0x20 \<le> unat p \<and> unat p \<le> 0x7F then [p] else [60, hexdigit (unat p div 16), hexdigit (unat p mod 16), 62])"

lemma escaped_byte_length: "length (escaped_byte p) \<le> 4"
  by (simp add: escaped_byte_def)

lemma syslog_escape_Cons:
  "syslog_escape buf (p # ps) = (if length buf < syslog_buf - 5 then syslog_escape (buf @ escaped_byte p) ps else Inr buf)"
  by (simp add: escaped_byte_def)

declare syslog_escape.simps(2) [simp del]

text \<open>Either the whole message is escaped, or as many of its bytes as fit.\<close>

lemma syslog_escape_fits:
  assumes "length buf \<le> syslog_buf - 2"
  shows "\<exists>k \<le> length msg. syslog_escape buf msg = Inr (buf @ concat (map escaped_byte (take k msg)))
    \<and> length (buf @ concat (map escaped_byte (take k msg))) \<le> syslog_buf - 2
    \<and> (k < length msg \<longrightarrow> length (buf @ concat (map escaped_byte (take k msg))) \<ge> syslog_buf - 5)"
  using assms
proof (induction msg arbitrary: buf)
  case (Cons p ps)
  show ?case
  proof (cases "length buf < syslog_buf - 5")
    case True
    then have "length (buf @ escaped_byte p) \<le> syslog_buf - 2" using escaped_byte_length[of p] by simp
    from Cons.IH[OF this] obtain k where "k \<le> length ps" "syslog_escape (buf @ escaped_byte p) ps = Inr ((buf @ escaped_byte p) @ concat (map escaped_byte (take k ps)))"
      "length ((buf @ escaped_byte p) @ concat (map escaped_byte (take k ps))) \<le> syslog_buf - 2"
      "k < length ps \<longrightarrow> length ((buf @ escaped_byte p) @ concat (map escaped_byte (take k ps))) \<ge> syslog_buf - 5" by blast
    then show ?thesis using True by (intro exI[of _ "Suc k"]) (simp add: syslog_escape_Cons)
  next
    case False
    then show ?thesis using Cons.prems by (intro exI[of _ 0]) (simp add: syslog_escape_Cons)
  qed
qed simp

text \<open>with a header of at most 8190 bytes the line that is sent is the header, as much of the message as fits (escaped, cut between bytes, only
  when fewer than five bytes are left) and a newline, and the buffer is not left; a longer header makes the code write
  behind the buffer.\<close>

theorem syslog_line_bounds:
  "(length header \<le> 8190 \<longrightarrow>
      (\<exists>k \<le> length msg. syslog_line True header msg = Inr (header @ concat (map escaped_byte (take k msg)) @ [10])
         \<and> (k < length msg \<longrightarrow> 8187 \<le> length (header @ concat (map escaped_byte (take k msg)))))
      \<and> syslog_line False header msg = Inr (take 8190 (header @ msg) @ [10]))
    \<and> (\<forall>escape line. syslog_line escape header msg = Inr line \<longrightarrow> length line < syslog_buf)
    \<and> (length header > 8190 \<longrightarrow> syslog_line escape header msg = Inl Bad_access)"
proof (intro conjI impI allI)
  assume h: "length header \<le> 8190"
  then obtain k where "k \<le> length msg" "syslog_escape header msg = Inr (header @ concat (map escaped_byte (take k msg)))"
    "length (header @ concat (map escaped_byte (take k msg))) \<le> syslog_buf - 2"
    "k < length msg \<longrightarrow> length (header @ concat (map escaped_byte (take k msg))) \<ge> syslog_buf - 5"
    using syslog_escape_fits[of header msg] by auto
  then show "\<exists>k \<le> length msg. syslog_line True header msg = Inr (header @ concat (map escaped_byte (take k msg)) @ [10])
         \<and> (k < length msg \<longrightarrow> 8187 \<le> length (header @ concat (map escaped_byte (take k msg))))"
    using h by (intro exI[of _ k]) (simp add: syslog_line_def)
  show "syslog_line False header msg = Inr (take 8190 (header @ msg) @ [10])" using h by (simp add: syslog_line_def strlcat_def)
next
  fix escape line assume "syslog_line escape header msg = Inr line"
  then show "length line < syslog_buf" unfolding syslog_line_def Let_def rbind_eq_Inr by (auto split: if_splits)
next
  assume h: "length header > 8190"
  then have "length (take 8191 header) = 8191" by simp
  then have "syslog_escape (take 8191 header) msg = Inr (take 8191 header)" by (cases msg) (simp_all add: syslog_escape_Cons)
  then show "syslog_line escape header msg = Inl Bad_access" using h unfolding syslog_line_def Let_def by (simp add: strlcat_def)
qed

theorem syslog_line_bounds_witness:
  "length [60 :: byte, 49, 62] \<le> 8190 \<and> syslog_line False [60, 49, 62] [97, 98] = Inr [60, 49, 62, 97, 98, 10]
    \<and> length [60 :: byte, 49, 62, 97, 98, 10] < syslog_buf"
  using syslog_line_bounds[of "[60, 49, 62]" "[97, 98]" False] by simp

text \<open>A message is written once when the connection works, and once over a new connection when the old one is broken, which is then closed. When there
  is no connection, the connection is opened and the message is lost: \<open>rc\<close> is still 0 and ends the loop.\<close>

theorem syslog_delivery:
  assumes "syslog_line escape header msg = Inr line"
  shows "fd \<noteq> -1 \<Longrightarrow> z_send_syslog escape header msg (\<lparr>sl_fd = fd, sl_os = Os_ok n # os, sl_closed = cs, sl_sent = ss\<rparr>)
      = Inr \<lparr>sl_fd = fd, sl_os = os, sl_closed = cs, sl_sent = ss @ [(fd, take (nat n) line)]\<rparr>"
    and "fd \<noteq> -1 \<Longrightarrow> fd2 \<noteq> -1 \<Longrightarrow>
      z_send_syslog escape header msg \<lparr>sl_fd = fd, sl_os = Os_error False # Os_ok fd2 # Os_ok c # Os_ok n # os, sl_closed = cs, sl_sent = ss\<rparr>
      = Inr \<lparr>sl_fd = fd2, sl_os = os, sl_closed = cs @ [fd], sl_sent = ss @ [(fd2, take (nat n) line)]\<rparr>"
    and "fd2 \<noteq> -1 \<Longrightarrow> z_send_syslog escape header msg \<lparr>sl_fd = -1, sl_os = Os_ok fd2 # Os_ok c # os, sl_closed = cs, sl_sent = ss\<rparr>
      = Inr \<lparr>sl_fd = fd2, sl_os = os, sl_closed = cs, sl_sent = ss\<rparr>"
  using assms by (simp_all add: z_send_syslog_def send_attempt_def os_call_def z_open_syslog_def z_close_syslog_internal_def close_fd_def Let_def)

end
