(* ===== verification/Streambuf.thy ===== *)
theory Streambuf
  imports Stream_IO
begin

section \<open>Buffered streams\<close>

text \<open>
  \<open>src/streambuf.c\<close>: a stream that takes every write into a list of packets and passes them on to its child when the child
  is writable. The child's write method is a parameter \<open>wr\<close> of the operations: it returns the status, the number of bytes it
  took and the error, which may be \<open>NULL\<close>. The contract \<open>byte_sink\<close> of such a method is provided by \<open>z_stream_write\<close>
  of the stream base class. \<open>sb_log\<close> lists the sizes reported as too large; what a write adds to the data dump is not modelled.
\<close>

type_synonym ('s, 'e) writer = "bytes \<Rightarrow> 's \<Rightarrow> ('s \<times> io_status \<times> nat \<times> 'e option) result"

definition MAX_BUF_LEN :: nat where "MAX_BUF_LEN = 262144"

text \<open>What the stream sets on its child.\<close>

record child_control =
  cc_timeout :: int
  cc_nonblock :: bool
  cc_in :: bool
  cc_out :: bool
  cc_pri :: bool

record 'e zstream_buf =
  sb_immed_flush :: bool
  sb_threshold :: nat
  sb_pending_pos :: nat
  sb_flush_error :: "'e option"
  sb_current_size :: nat
  sb_buffers :: "bytes list"
  sb_timeout :: int
  sb_want_read :: bool
  sb_want_write :: bool
  sb_want_pri :: bool
  sb_user_data_read :: int
  sb_user_data_write :: int
  sb_child :: child_control
  sb_log :: "nat list"

definition z_stream_buf_space_avail_internal :: "'e zstream_buf \<Rightarrow> bool" where
  "z_stream_buf_space_avail_internal self \<longleftrightarrow> sb_current_size self < sb_threshold self"

definition z_stream_buf_space_avail :: "'e zstream_buf \<Rightarrow> bool" where
  "z_stream_buf_space_avail self \<longleftrightarrow> sb_flush_error self \<noteq> None \<or> z_stream_buf_space_avail_internal self"

text \<open>The loop of \<open>z_stream_buf_flush_internal\<close>; \<open>i\<close> is its counter.\<close>

fun flush_loop :: "('s, 'e) writer \<Rightarrow> nat \<Rightarrow> 'e zstream_buf \<Rightarrow> 's \<Rightarrow> ('e zstream_buf \<times> 's) result" where
  "flush_loop wr 0 self c = Inr (self, c)"
| "flush_loop wr (Suc i) self c =
     (case sb_buffers self of
        [] \<Rightarrow> Inr (self, c)
      | packet # rest \<Rightarrow>
          rbind (wr (drop (sb_pending_pos self) packet) c) (\<lambda>(c1, res, write_len, err).
            if res = IO_NORMAL
            then let pos = addz (sb_pending_pos self) write_len
              in if pos \<ge> length packet
                 then flush_loop wr i (self\<lparr>sb_current_size := subz (sb_current_size self) (length packet),
                        sb_pending_pos := 0, sb_buffers := rest\<rparr>) c1
                 else flush_loop wr i (self\<lparr>sb_pending_pos := pos\<rparr>) c1
            else if res \<noteq> IO_AGAIN then Inr (self\<lparr>sb_flush_error := err\<rparr>, c1)
            else Inr (self, c1)))"

definition z_stream_buf_flush_internal :: "('s, 'e) writer \<Rightarrow> 'e zstream_buf \<Rightarrow> 's \<Rightarrow> ('e zstream_buf \<times> 's) result" where
  "z_stream_buf_flush_internal wr self c = flush_loop wr 10 self c"

definition z_stream_buf_write_callback :: "('s, 'e) writer \<Rightarrow> 'e zstream_buf \<Rightarrow> 's \<Rightarrow> (bool \<times> 'e zstream_buf \<times> 's) result" where
  "z_stream_buf_write_callback wr self c = rbind (z_stream_buf_flush_internal wr self c) (\<lambda>r. Inr (True, r))"

definition z_stream_write_packet_internal :: "('s, 'e) writer \<Rightarrow> bytes \<Rightarrow> 'e zstream_buf \<Rightarrow> 's \<Rightarrow>
    (io_status \<times> 'e option \<times> 'e zstream_buf \<times> 's) result" where
  "z_stream_write_packet_internal wr packet self c =
     (let self1 = (if sb_current_size self > MAX_BUF_LEN then self\<lparr>sb_log := sb_log self @ [sb_current_size self]\<rparr> else self)
      in if sb_flush_error self1 \<noteq> None then Inr (IO_ERROR, sb_flush_error self1, self1, c)
         else let self2 = self1\<lparr>sb_buffers := sb_buffers self1 @ [packet],
                            sb_current_size := addz (sb_current_size self1) (length packet)\<rparr>
           in if sb_immed_flush self2
              then rbind (z_stream_buf_flush_internal wr self2 c) (\<lambda>r. Inr (IO_NORMAL, None, r))
              else Inr (IO_NORMAL, None, self2, c))"

text \<open>The results: status, \<open>*bytes_written\<close> when the status is normal, error.\<close>

definition z_stream_buf_write_method :: "('s, 'e) writer \<Rightarrow> bytes \<Rightarrow> 'e zstream_buf \<Rightarrow> 's \<Rightarrow>
    (io_status \<times> nat option \<times> 'e option \<times> 'e zstream_buf \<times> 's) result" where
  "z_stream_buf_write_method wr buf self c =
     (let self1 = self\<lparr>sb_child := (sb_child self)\<lparr>cc_timeout := sb_timeout self\<rparr>\<rparr>
      in rbind (z_stream_write_packet_internal wr buf self1 c) (\<lambda>(ret, err, self2, c2).
         if ret = IO_NORMAL then Inr (IO_NORMAL, Some (length buf), None, self2, c2) else Inr (ret, None, err, self2, c2)))"

definition z_stream_write_packet :: "('s, 'e) writer \<Rightarrow> bytes \<Rightarrow> 'e zstream_buf \<Rightarrow> 's \<Rightarrow>
    (io_status \<times> 'e option \<times> 'e zstream_buf \<times> 's) result" where
  "z_stream_write_packet wr packet self c = z_stream_write_packet_internal wr packet self c"

definition z_stream_write_buf :: "('s, 'e) writer \<Rightarrow> bytes \<Rightarrow> 'e zstream_buf \<Rightarrow> 's \<Rightarrow>
    (io_status \<times> 'e option \<times> 'e zstream_buf \<times> 's) result" where
  "z_stream_write_buf wr buf self c = z_stream_write_packet_internal wr buf self c"

text \<open>\<open>sd\<close> is \<open>z_stream_shutdown\<close> on the child; \<open>i\<close> is \<open>SHUT_RD\<close> (0), \<open>SHUT_WR\<close> (1) or \<open>SHUT_RDWR\<close> (2).\<close>

definition z_stream_buf_shutdown_method :: "('s, 'e) writer \<Rightarrow> (int \<Rightarrow> 's \<Rightarrow> ('s \<times> io_status) result) \<Rightarrow> int \<Rightarrow> 'e zstream_buf \<Rightarrow> 's \<Rightarrow>
    (io_status \<times> 'e zstream_buf \<times> 's) result" where
  "z_stream_buf_shutdown_method wr sd i self c =
     rbind (if i = 1 \<or> i = 2
            then z_stream_buf_flush_internal wr (self\<lparr>sb_child := (sb_child self)\<lparr>cc_timeout := sb_timeout self, cc_nonblock := False\<rparr>\<rparr>) c
            else Inr (self, c)) (\<lambda>(self1, c1).
       rbind (sd i c1) (\<lambda>(c2, res). Inr (res, self1, c2)))"

text \<open>\<open>rd\<close> is \<open>z_stream_read\<close> on the child.\<close>

definition z_stream_buf_read_method :: "'s reader \<Rightarrow> nat \<Rightarrow> 'e zstream_buf \<Rightarrow> 's \<Rightarrow> (io_status \<times> bytes \<times> 'e zstream_buf \<times> 's) result" where
  "z_stream_buf_read_method rd count self c =
     rbind (rd count c) (\<lambda>(c1, res, d). Inr (res, d, self\<lparr>sb_child := (sb_child self)\<lparr>cc_timeout := sb_timeout self\<rparr>\<rparr>, c1))"

definition z_stream_buf_watch_prepare :: "'e zstream_buf \<Rightarrow> bool \<times> 'e zstream_buf" where
  "z_stream_buf_watch_prepare self =
     (sb_want_write self \<and> z_stream_buf_space_avail_internal self,
      self\<lparr>sb_child := (sb_child self)\<lparr>cc_in := sb_want_read self, cc_pri := sb_want_pri self,
             cc_out := sb_current_size self \<noteq> 0 \<and> sb_flush_error self = None\<rparr>\<rparr>)"

definition z_stream_buf_watch_check :: "'e zstream_buf \<Rightarrow> bool" where
  "z_stream_buf_watch_check self \<longleftrightarrow> sb_want_write self \<and> z_stream_buf_space_avail_internal self"

text \<open>The argument of the write callback when it is called.\<close>

definition z_stream_buf_watch_dispatch :: "'e zstream_buf \<Rightarrow> int option" where
  "z_stream_buf_watch_dispatch self = (if sb_want_write self then Some (sb_user_data_read self) else None)"

text \<open>With \<open>z_stream_set_child\<close>: the timeout is that of the child, which becomes nonblocking.\<close>

definition z_stream_buf_new :: "child_control \<Rightarrow> nat \<Rightarrow> bool \<Rightarrow> 'e zstream_buf option" where
  "z_stream_buf_new child buf_threshold immed_flush =
     (if buf_threshold \<le> MAX_BUF_LEN
      then Some \<lparr>sb_immed_flush = immed_flush, sb_threshold = buf_threshold, sb_pending_pos = 0, sb_flush_error = None, sb_current_size = 0,
        sb_buffers = [], sb_timeout = cc_timeout child, sb_want_read = False, sb_want_write = False, sb_want_pri = False, sb_user_data_read = 0, sb_user_data_write = 0,
        sb_child = child\<lparr>cc_nonblock := True\<rparr>, sb_log = []\<rparr>
      else None)"

subsection \<open>The contract of a child\<close>

text \<open>A write takes a prefix of the data, or nothing when its status is not normal.\<close>

locale byte_sink =
  fixes inv :: "'s \<Rightarrow> bool"
    and written :: "'s \<Rightarrow> bytes"
    and put :: "('s, 'e) writer"
  assumes put_law: "inv s \<Longrightarrow> \<exists>s' st n e. put d s = Inr (s', st, n, e) \<and> inv s' \<and> n \<le> length d
      \<and> written s' = written s @ (if st = IO_NORMAL then take n d else [])"

subsection \<open>No byte is lost, repeated or out of order\<close>

definition sb_pending :: "'e zstream_buf \<Rightarrow> bytes" where
  "sb_pending self = drop (sb_pending_pos self) (concat (sb_buffers self))"

definition sb_ok :: "'e zstream_buf \<Rightarrow> bool" where
  "sb_ok self \<longleftrightarrow> sb_current_size self = length (concat (sb_buffers self)) \<and> sb_current_size self < size_limit
     \<and> (case sb_buffers self of [] \<Rightarrow> sb_pending_pos self = 0 | p # ps \<Rightarrow> sb_pending_pos self \<le> length p)"

datatype buf_op = Buf_write bytes | Buf_flush | Buf_poll | Buf_want_write bool

text \<open>A run of operations: the statuses of the writes, and the bytes of those that were accepted.\<close>

fun do_op :: "('s, 'e) writer \<Rightarrow> buf_op \<Rightarrow> 'e zstream_buf \<Rightarrow> 's \<Rightarrow> (io_status \<times> bytes \<times> 'e zstream_buf \<times> 's) result" where
  "do_op wr (Buf_write d) self c =
     rbind (z_stream_buf_write_method wr d self c) (\<lambda>(st, n, err, self1, c1). Inr (st, case n of Some k \<Rightarrow> take k d | None \<Rightarrow> [], self1, c1))"
| "do_op wr Buf_flush self c = rbind (z_stream_buf_write_callback wr self c) (\<lambda>(b, self1, c1). Inr (IO_NORMAL, [], self1, c1))"
| "do_op wr Buf_poll self c = Inr (IO_NORMAL, [], snd (z_stream_buf_watch_prepare self), c)"
| "do_op wr (Buf_want_write b) self c = Inr (IO_NORMAL, [], self\<lparr>sb_want_write := b\<rparr>, c)"

fun buf_ops :: "('s, 'e) writer \<Rightarrow> buf_op list \<Rightarrow> 'e zstream_buf \<Rightarrow> 's \<Rightarrow> (io_status list \<times> bytes \<times> 'e zstream_buf \<times> 's) result" where
  "buf_ops wr [] self c = Inr ([], [], self, c)"
| "buf_ops wr (op # ops) self c =
     rbind (do_op wr op self c) (\<lambda>(st, d, self1, c1).
     rbind (buf_ops wr ops self1 c1) (\<lambda>(sts, ds, self2, c2). Inr (st # sts, d @ ds, self2, c2)))"

fun op_bytes :: "buf_op \<Rightarrow> bytes" where
  "op_bytes (Buf_write d) = d"
| "op_bytes _ = []"

fun is_write :: "buf_op \<Rightarrow> bool" where
  "is_write (Buf_write d) = True"
| "is_write _ = False"

context byte_sink
begin

lemma flush_loop_correct:
  assumes "inv c" "sb_ok self"
  shows "\<exists>self' c'. flush_loop put i self c = Inr (self', c') \<and> inv c' \<and> sb_ok self'
    \<and> written c' @ sb_pending self' = written c @ sb_pending self
    \<and> sb_current_size self' \<le> sb_current_size self
    \<and> sb_immed_flush self' = sb_immed_flush self \<and> sb_threshold self' = sb_threshold self"
  using assms
proof (induction i arbitrary: self c)
  case (Suc i)
  show ?case
  proof (cases "sb_buffers self")
    case Nil
    then show ?thesis using Suc.prems by simp
  next
    case (Cons p ps)
    let ?k = "sb_pending_pos self"
    have k: "?k \<le> length p" and sz: "sb_current_size self = length p + length (concat ps)" "sb_current_size self < size_limit"
      using Suc.prems(2) Cons by (auto simp: sb_ok_def)
    obtain c1 st n e where w: "put (drop ?k p) c = Inr (c1, st, n, e)" "inv c1" "n \<le> length (drop ?k p)"
      "written c1 = written c @ (if st = IO_NORMAL then take n (drop ?k p) else [])"
      using put_law[OF Suc.prems(1)] by blast
    have nk: "?k + n \<le> length p" using w(3) k by simp
    then have pos: "addz ?k n = ?k + n" using sz by (intro addz_small) linarith
    have pend: "sb_pending self = drop ?k p @ concat ps" using Cons k by (simp add: sb_pending_def)
    consider (whole) "st = IO_NORMAL" "?k + n = length p" | (part) "st = IO_NORMAL" "?k + n < length p"
      | (stop) "st \<noteq> IO_NORMAL" using nk by linarith
    then show ?thesis
    proof cases
      case whole
      let ?s = "self\<lparr>sb_current_size := subz (sb_current_size self) (length p), sb_pending_pos := 0, sb_buffers := ps\<rparr>"
      have sub: "subz (sb_current_size self) (length p) = length (concat ps)" using sz subz_le[of "length p" "sb_current_size self"] by simp
      then have ok: "sb_ok ?s" using sz by (auto simp: sb_ok_def split: list.splits)
      have n: "take n (drop ?k p) = drop ?k p" using whole(2) by simp
      from Suc.IH[OF w(2) ok] obtain self' c' where "flush_loop put i ?s c1 = Inr (self', c')" "inv c'" "sb_ok self'"
        "written c' @ sb_pending self' = written c1 @ sb_pending ?s" "sb_current_size self' \<le> sb_current_size ?s"
        "sb_immed_flush self' = sb_immed_flush ?s" "sb_threshold self' = sb_threshold ?s" by blast
      then show ?thesis using whole w(1,4) pos pend sub sz(1) Cons n by (simp add: sb_pending_def)
    next
      case part
      let ?s = "self\<lparr>sb_pending_pos := ?k + n\<rparr>"
      have ok: "sb_ok ?s" using Suc.prems(2) Cons nk by (simp add: sb_ok_def)
      have e: "take n (drop ?k p) @ drop (?k + n) p = drop ?k p" by (metis add.commute append_take_drop_id drop_drop)
      from Suc.IH[OF w(2) ok] obtain self' c' where "flush_loop put i ?s c1 = Inr (self', c')" "inv c'" "sb_ok self'"
        "written c' @ sb_pending self' = written c1 @ sb_pending ?s" "sb_current_size self' \<le> sb_current_size ?s"
        "sb_immed_flush self' = sb_immed_flush ?s" "sb_threshold self' = sb_threshold ?s" by blast
      moreover have "sb_pending ?s = drop (?k + n) p @ concat ps" using Cons nk by (simp add: sb_pending_def)
      moreover have "written c1 @ drop (?k + n) p @ concat ps = written c @ sb_pending self"
        using part(1) w(4) e pend by (metis append.assoc)
      ultimately show ?thesis using part w(1) pos Cons by simp
    next
      case stop
      then show ?thesis using w Suc.prems(2) Cons by (cases "st = IO_AGAIN") (auto simp: sb_ok_def sb_pending_def)
    qed
  qed
qed simp

lemma flush_correct:
  assumes "inv c" "sb_ok self"
  obtains self' c' where "z_stream_buf_flush_internal put self c = Inr (self', c')" "inv c'" "sb_ok self'"
    "written c' @ sb_pending self' = written c @ sb_pending self" "sb_current_size self' \<le> sb_current_size self"
  using flush_loop_correct[OF assms, of 10] unfolding z_stream_buf_flush_internal_def by blast

lemma do_op_correct:
  assumes "inv c" "sb_ok self" "sb_current_size self + length (op_bytes op) < size_limit"
  shows "\<exists>st d self' c'. do_op put op self c = Inr (st, d, self', c') \<and> inv c' \<and> sb_ok self'
    \<and> written c' @ sb_pending self' = written c @ sb_pending self @ d
    \<and> sb_current_size self' \<le> sb_current_size self + length (op_bytes op)
    \<and> (if is_write op \<and> sb_flush_error self \<noteq> None then st = IO_ERROR \<and> d = [] else st = IO_NORMAL \<and> d = op_bytes op)"
proof (cases op)
  case (Buf_write d)
  let ?l = "if sb_current_size self > MAX_BUF_LEN then sb_log self @ [sb_current_size self] else sb_log self"
  let ?s1 = "self\<lparr>sb_child := (sb_child self)\<lparr>cc_timeout := sb_timeout self\<rparr>, sb_log := ?l\<rparr>"
  have s1: "(if sb_current_size self > MAX_BUF_LEN
      then (self\<lparr>sb_child := (sb_child self)\<lparr>cc_timeout := sb_timeout self\<rparr>\<rparr>)\<lparr>sb_log := sb_log self @ [sb_current_size self]\<rparr>
      else self\<lparr>sb_child := (sb_child self)\<lparr>cc_timeout := sb_timeout self\<rparr>\<rparr>) = ?s1" by simp
  show ?thesis
  proof (cases "sb_flush_error self")
    case (Some e)
    then show ?thesis using assms(1,2) Buf_write s1
      by (auto simp: z_stream_buf_write_method_def z_stream_write_packet_internal_def Let_def sb_ok_def sb_pending_def split: list.splits)
  next
    case None
    let ?s2 = "?s1\<lparr>sb_buffers := sb_buffers self @ [d], sb_current_size := addz (sb_current_size self) (length d)\<rparr>"
    have ad: "addz (sb_current_size self) (length d) = sb_current_size self + length d" using assms(3) Buf_write by (simp add: addz_small)
    have ok: "sb_ok ?s2" using assms(2,3) ad Buf_write by (auto simp: sb_ok_def split: list.splits)
    have "sb_pending_pos self \<le> length (concat (sb_buffers self))" using assms(2) by (auto simp: sb_ok_def split: list.splits)
    then have pend: "sb_pending ?s2 = sb_pending self @ d" by (simp add: sb_pending_def)
    obtain self' c' where f: "z_stream_buf_flush_internal put ?s2 c = Inr (self', c')" "inv c'" "sb_ok self'"
      "written c' @ sb_pending self' = written c @ sb_pending ?s2" "sb_current_size self' \<le> sb_current_size ?s2"
      using flush_correct[OF assms(1) ok] by blast
    have w: "z_stream_buf_write_method put d self c =
        (if sb_immed_flush self then Inr (IO_NORMAL, Some (length d), None, self', c') else Inr (IO_NORMAL, Some (length d), None, ?s2, c))"
      using None f(1) by (cases "sb_current_size self > MAX_BUF_LEN") (simp_all add: z_stream_buf_write_method_def z_stream_write_packet_internal_def Let_def)
    show ?thesis using None Buf_write w f(2-5) ok assms(1) pend ad by (cases "sb_immed_flush self") simp_all
  qed
next
  case Buf_flush
  obtain self' c' where "z_stream_buf_flush_internal put self c = Inr (self', c')" "inv c'" "sb_ok self'"
    "written c' @ sb_pending self' = written c @ sb_pending self" "sb_current_size self' \<le> sb_current_size self"
    using flush_correct[OF assms(1,2)] by blast
  then show ?thesis using Buf_flush by (simp add: z_stream_buf_write_callback_def)
next
  case Buf_poll
  then show ?thesis using assms by (auto simp: z_stream_buf_watch_prepare_def sb_ok_def sb_pending_def split: list.splits)
next
  case (Buf_want_write b)
  then show ?thesis using assms by (auto simp: sb_ok_def sb_pending_def split: list.splits)
qed

lemma buf_ops_correct:
  assumes "inv c" "sb_ok self" "sb_current_size self + length (concat (map op_bytes ops)) < size_limit"
  shows "\<exists>sts acc self' c'. buf_ops put ops self c = Inr (sts, acc, self', c') \<and> inv c' \<and> sb_ok self' \<and> length sts = length ops
    \<and> written c' @ sb_pending self' = written c @ sb_pending self @ acc
    \<and> acc = concat (map2 (\<lambda>op st. if st = IO_NORMAL then op_bytes op else []) ops sts)
    \<and> (\<forall>i < length ops. sts ! i = IO_NORMAL \<or> sts ! i = IO_ERROR \<and> is_write (ops ! i))"
  using assms
proof (induction ops arbitrary: self c)
  case (Cons op ops)
  obtain st d self1 c1 where o: "do_op put op self c = Inr (st, d, self1, c1)" "inv c1" "sb_ok self1"
    "written c1 @ sb_pending self1 = written c @ sb_pending self @ d" "sb_current_size self1 \<le> sb_current_size self + length (op_bytes op)"
    "if is_write op \<and> sb_flush_error self \<noteq> None then st = IO_ERROR \<and> d = [] else st = IO_NORMAL \<and> d = op_bytes op"
    using do_op_correct[OF Cons.prems(1,2), of op] Cons.prems(3) by auto
  have "sb_current_size self1 + length (concat (map op_bytes ops)) < size_limit" using o(5) Cons.prems(3) by simp
  from Cons.IH[OF o(2,3) this] obtain sts acc self' c' where r: "buf_ops put ops self1 c1 = Inr (sts, acc, self', c')" "inv c'" "sb_ok self'"
    "length sts = length ops" "written c' @ sb_pending self' = written c1 @ sb_pending self1 @ acc"
    "acc = concat (map2 (\<lambda>op st. if st = IO_NORMAL then op_bytes op else []) ops sts)"
    "\<forall>i < length ops. sts ! i = IO_NORMAL \<or> sts ! i = IO_ERROR \<and> is_write (ops ! i)" by blast
  have "written c' @ sb_pending self' = written c @ sb_pending self @ d @ acc" using r(5) o(4) by (metis append.assoc)
  moreover have "d = (if st = IO_NORMAL then op_bytes op else [])" "st = IO_NORMAL \<or> st = IO_ERROR \<and> is_write op" using o(6) by (auto split: if_splits)
  ultimately show ?case using o(1) r by (auto simp: nth_Cons split: nat.splits)
qed simp

end

text \<open>A child that gives an error whenever its status is an error.\<close>

locale reporting_sink = byte_sink +
  assumes error_law: "inv s \<Longrightarrow> put d s = Inr (s', st, n, e) \<Longrightarrow> st \<noteq> IO_NORMAL \<Longrightarrow> st \<noteq> IO_AGAIN \<Longrightarrow> e \<noteq> None"
begin

lemma flush_error_stays:
  "inv c \<Longrightarrow> flush_loop put i self c = Inr (self', c') \<Longrightarrow> sb_flush_error self \<noteq> None \<Longrightarrow> sb_flush_error self' \<noteq> None"
proof (induction i arbitrary: self c)
  case (Suc i)
  show ?case
  proof (cases "sb_buffers self")
    case (Cons p ps)
    obtain c1 st n e where w: "put (drop (sb_pending_pos self) p) c = Inr (c1, st, n, e)" "inv c1"
      using put_law[OF Suc.prems(1)] by blast
    show ?thesis using Suc.prems w Cons error_law[OF Suc.prems(1) w(1)] Suc.IH[OF w(2)]
      by (cases "st = IO_NORMAL"; cases "st = IO_AGAIN") (auto simp: Let_def split: if_splits)
  qed (use Suc.prems in simp)
qed simp

lemma do_op_error_stays:
  assumes "inv c" "do_op put op self c = Inr (st, d, self', c')" "sb_flush_error self \<noteq> None"
  shows "sb_flush_error self' \<noteq> None"
  using assms flush_error_stays[OF assms(1), of 10 self self' c']
  by (cases op) (auto simp: z_stream_buf_write_method_def z_stream_write_packet_internal_def Let_def rbind_eq_Inr
      z_stream_buf_write_callback_def z_stream_buf_flush_internal_def z_stream_buf_watch_prepare_def split: if_splits)

text \<open>Once a write was refused, all later ones are.\<close>

lemma refusals_last:
  assumes "inv c" "sb_ok self" "sb_current_size self + length (concat (map op_bytes ops)) < size_limit"
    "buf_ops put ops self c = Inr (sts, acc, self', c')" "sb_flush_error self \<noteq> None" "i < length ops" "is_write (ops ! i)"
  shows "sts ! i = IO_ERROR"
  using assms
proof (induction ops arbitrary: self c sts acc i)
  case (Cons op ops)
  obtain st d self1 c1 where o: "do_op put op self c = Inr (st, d, self1, c1)" "inv c1" "sb_ok self1"
    "sb_current_size self1 \<le> sb_current_size self + length (op_bytes op)"
    "if is_write op \<and> sb_flush_error self \<noteq> None then st = IO_ERROR \<and> d = [] else st = IO_NORMAL \<and> d = op_bytes op"
    using do_op_correct[OF Cons.prems(1,2), of op] Cons.prems(3) by auto
  obtain sts' acc' where r: "buf_ops put ops self1 c1 = Inr (sts', acc', self', c')" "sts = st # sts'"
    using Cons.prems(4) o(1) by (auto simp: rbind_eq_Inr)
  have "sb_current_size self1 + length (concat (map op_bytes ops)) < size_limit" using o(4) Cons.prems(3) by simp
  then show ?case using Cons.IH[OF o(2,3) _ r(1) do_op_error_stays[OF Cons.prems(1) o(1) Cons.prems(5)]] Cons.prems(5-7) o(5) r(2)
    by (cases i) auto
qed simp

lemma first_refusal_lasts:
  assumes "inv c" "sb_ok self" "sb_current_size self + length (concat (map op_bytes ops)) < size_limit"
    "buf_ops put ops self c = Inr (sts, acc, self', c')" "i < j" "j < length ops" "sts ! i = IO_ERROR" "is_write (ops ! j)"
  shows "sts ! j = IO_ERROR"
  using assms
proof (induction ops arbitrary: self c sts acc i j)
  case (Cons op ops)
  obtain st d self1 c1 where o: "do_op put op self c = Inr (st, d, self1, c1)" "inv c1" "sb_ok self1"
    "sb_current_size self1 \<le> sb_current_size self + length (op_bytes op)"
    "if is_write op \<and> sb_flush_error self \<noteq> None then st = IO_ERROR \<and> d = [] else st = IO_NORMAL \<and> d = op_bytes op"
    using do_op_correct[OF Cons.prems(1,2), of op] Cons.prems(3) by auto
  obtain sts' acc' where r: "buf_ops put ops self1 c1 = Inr (sts', acc', self', c')" "sts = st # sts'"
    using Cons.prems(4) o(1) by (auto simp: rbind_eq_Inr)
  have lim: "sb_current_size self1 + length (concat (map op_bytes ops)) < size_limit" using o(4) Cons.prems(3) by simp
  obtain j' where j: "j = Suc j'" "j' < length ops" using Cons.prems(5,6) by (cases j) auto
  show ?case
  proof (cases i)
    case 0
    then have "sb_flush_error self \<noteq> None" using Cons.prems(7) r(2) o(5) by (auto split: if_splits)
    then show ?thesis using refusals_last[OF o(2,3) lim r(1) do_op_error_stays[OF Cons.prems(1) o(1)] j(2)] Cons.prems(8) j r(2) by simp
  next
    case (Suc i')
    then show ?thesis using Cons.IH[OF o(2,3) lim r(1), of i' j'] Cons.prems(5-8) j r(2) by simp
  qed
qed simp

end

subsection \<open>A base stream as child\<close>

definition base_writer :: "nat \<Rightarrow> (world, unit) writer" where
  "base_writer a d w =
     rbind (z_stream_write w a d) (\<lambda>(w1, st, n). Inr (w1, st, n, if st = IO_ERROR then Some () else None))"

definition stream_live :: "nat \<Rightarrow> world \<Rightarrow> bool" where
  "stream_live a w \<longleftrightarrow> (\<exists>s. get_st w a = Inr s)"

definition stream_written :: "nat \<Rightarrow> world \<Rightarrow> bytes" where
  "stream_written a w = (case get_st w a of Inr s \<Rightarrow> st_written s | Inl e \<Rightarrow> [])"

lemma script_write_cases:
  "script_write es n = (es', st, k) \<Longrightarrow> k \<le> n \<and> st \<in> {IO_NORMAL, IO_AGAIN, IO_ERROR} \<and> (st \<noteq> IO_NORMAL \<longrightarrow> k = 0)"
  by (cases "(es, n)" rule: script_write.cases) auto

lemma base_writer_law:
  assumes "stream_live a w"
  shows "\<exists>w' st n e. base_writer a d w = Inr (w', st, n, e) \<and> stream_live a w' \<and> n \<le> length d
    \<and> stream_written a w' = stream_written a w @ (if st = IO_NORMAL then take n d else [])
    \<and> st \<in> {IO_NORMAL, IO_AGAIN, IO_ERROR} \<and> (e \<noteq> None \<longleftrightarrow> st = IO_ERROR)"
proof -
  obtain s where s: "get_st w a = Inr s" using assms by (auto simp: stream_live_def)
  obtain es st n where n: "script_write (st_accept s) (length d) = (es, st, n)" by (metis prod.exhaust)
  have k: "n \<le> length d" "st \<in> {IO_NORMAL, IO_AGAIN, IO_ERROR}" "st \<noteq> IO_NORMAL \<longrightarrow> n = 0" using script_write_cases[OF n] by auto
  define s2 where "s2 = (let s1 = s\<lparr>st_accept := es, st_written := st_written s @ take n d\<rparr> in
     if st = IO_NORMAL then s1\<lparr>st_sent := addz (st_sent s1) n\<rparr> else s1)"
  have wr: "st_written s2 = st_written s @ take n d" by (simp add: s2_def Let_def)
  have z: "z_stream_write w a d = Inr (put_st a s2 w, st, n)" using s n by (simp add: z_stream_write_def s2_def Let_def)
  have g: "get_st (put_st a s2 w) a = Inr s2" using get_put[OF s, of s2 a] by simp
  show ?thesis using z g s k wr by (cases "st = IO_NORMAL") (auto simp: base_writer_def stream_live_def stream_written_def)
qed

interpretation base_child: reporting_sink "stream_live a" "stream_written a" "base_writer a" for a
proof
  fix w d assume "stream_live a w"
  from base_writer_law[OF this, of d]
  show "\<exists>s' st n e. base_writer a d w = Inr (s', st, n, e) \<and> stream_live a s' \<and> n \<le> length d
      \<and> stream_written a s' = stream_written a w @ (if st = IO_NORMAL then take n d else [])" by blast
next
  fix w d w' st n e assume "stream_live a w" "base_writer a d w = Inr (w', st, n, e)" "st \<noteq> IO_NORMAL" "st \<noteq> IO_AGAIN"
  with base_writer_law[OF this(1), of d] show "e \<noteq> None" by auto
qed

lemma buf_new_ok: "z_stream_buf_new cc thr imm = Some self \<Longrightarrow> sb_ok self \<and> sb_pending self = [] \<and> sb_current_size self = 0"
  by (auto simp: z_stream_buf_new_def sb_ok_def sb_pending_def split: if_splits)

text \<open>C8: whatever a client and the poll loop do with a new buffered stream over a base stream, in whatever pieces the base stream takes its data and
  whenever it pauses or fails, what was written to the base stream and what is still buffered are together exactly the
  data of the accepted writes in their order; no write is accepted in part, and after one was refused all are. The size
  that is kept is that of the buffered packets.\<close>

theorem buf_delivers_in_order:
  assumes "z_stream_buf_new cc thr imm = Some self" "stream_live a w" "length (concat (map op_bytes ops)) < size_limit"
  shows "\<exists>sts self' w'. buf_ops (base_writer a) ops self w
        = Inr (sts, concat (map2 (\<lambda>op st. if st = IO_NORMAL then op_bytes op else []) ops sts), self', w')
      \<and> stream_written a w' @ sb_pending self'
          = stream_written a w @ concat (map2 (\<lambda>op st. if st = IO_NORMAL then op_bytes op else []) ops sts)
      \<and> sb_current_size self' = length (concat (sb_buffers self')) \<and> length sts = length ops
      \<and> (\<forall>i < length ops. sts ! i = IO_NORMAL \<or> sts ! i = IO_ERROR \<and> is_write (ops ! i))
      \<and> (\<forall>i j. i < j \<longrightarrow> j < length ops \<longrightarrow> sts ! i = IO_ERROR \<longrightarrow> is_write (ops ! j) \<longrightarrow> sts ! j = IO_ERROR)"
proof -
  have n: "sb_ok self" "sb_pending self = []" "sb_current_size self = 0" using buf_new_ok[OF assms(1)] by auto
  then have lim: "sb_current_size self + length (concat (map op_bytes ops)) < size_limit" using assms(3) by simp
  obtain sts acc self' w' where r: "buf_ops (base_writer a) ops self w = Inr (sts, acc, self', w')" "sb_ok self'" "length sts = length ops"
    "stream_written a w' @ sb_pending self' = stream_written a w @ sb_pending self @ acc"
    "acc = concat (map2 (\<lambda>op st. if st = IO_NORMAL then op_bytes op else []) ops sts)"
    "\<forall>i < length ops. sts ! i = IO_NORMAL \<or> sts ! i = IO_ERROR \<and> is_write (ops ! i)"
    using base_child.buf_ops_correct[OF assms(2) n(1) lim] by blast
  have "sts ! j = IO_ERROR" if "i < j" "j < length ops" "sts ! i = IO_ERROR" "is_write (ops ! j)" for i j
    using base_child.first_refusal_lasts[OF assms(2) n(1) lim r(1) that] .
  then show ?thesis using r n(2) by (intro exI[of _ sts] exI[of _ self'] exI[of _ w']) (simp add: sb_ok_def)
qed

theorem buf_delivers_in_order_witness:
  "\<exists>self sts self' w'. z_stream_buf_new \<lparr>cc_timeout = -2, cc_nonblock = False, cc_in = False, cc_out = False, cc_pri = False\<rparr> 100 True = Some self
    \<and> buf_ops (base_writer 0) [Buf_write [1, 2], Buf_poll, Buf_write [3], Buf_flush] self fed_stream
      = Inr (sts, concat (map2 (\<lambda>op st. if st = IO_NORMAL then op_bytes op else []) [Buf_write [1, 2], Buf_poll, Buf_write [3], Buf_flush] sts), self', w')
    \<and> length sts = 4"
proof -
  obtain self :: "unit zstream_buf" where n: "z_stream_buf_new \<lparr>cc_timeout = -2, cc_nonblock = False, cc_in = False, cc_out = False, cc_pri = False\<rparr> 100 True = Some self"
    by (simp add: z_stream_buf_new_def MAX_BUF_LEN_def)
  have "stream_live 0 fed_stream" by (simp add: stream_live_def fed_stream_def z_stream_new_def get_st_def slot_def)
  from buf_delivers_in_order[OF n this, of "[Buf_write [1, 2], Buf_poll, Buf_write [3], Buf_flush]"] n show ?thesis by auto
qed

subsection \<open>What the flushes leave behind\<close>

lemma base_writer_all:
  assumes "get_st w a = Inr s" "st_accept s = []"
  shows "\<exists>w' s'. base_writer a d w = Inr (w', IO_NORMAL, length d, None) \<and> get_st w' a = Inr s' \<and> st_accept s' = []
    \<and> st_written s' = st_written s @ d"
  using assms get_put[OF assms(1)] by (auto simp: base_writer_def z_stream_write_def Let_def)

lemma flush_loop_all:
  assumes "get_st w a = Inr s" "st_accept s = []" "sb_ok self" "sb_pending_pos self = 0"
  shows "\<exists>self' w' s'. flush_loop (base_writer a) n self w = Inr (self', w') \<and> get_st w' a = Inr s'
    \<and> st_written s' = st_written s @ concat (take n (sb_buffers self)) \<and> sb_buffers self' = drop n (sb_buffers self)
    \<and> sb_flush_error self' = sb_flush_error self"
  using assms
proof (induction n arbitrary: self w s)
  case (Suc n)
  show ?case
  proof (cases "sb_buffers self")
    case Nil
    then show ?thesis using Suc.prems by simp
  next
    case (Cons p ps)
    let ?s = "self\<lparr>sb_current_size := subz (sb_current_size self) (length p), sb_pending_pos := 0, sb_buffers := ps\<rparr>"
    obtain w1 s1 where w: "base_writer a p w = Inr (w1, IO_NORMAL, length p, None)" "get_st w1 a = Inr s1" "st_accept s1 = []"
      "st_written s1 = st_written s @ p" using base_writer_all[OF Suc.prems(1,2)] by blast
    have sz: "sb_current_size self = length p + length (concat ps)" "sb_current_size self < size_limit"
      using Suc.prems(3) Cons by (auto simp: sb_ok_def)
    have sub: "subz (sb_current_size self) (length p) = length (concat ps)" using sz subz_le[of "length p" "sb_current_size self"] by simp
    have ok: "sb_ok ?s" "sb_pending_pos ?s = 0" using sz sub by (auto simp: sb_ok_def split: list.splits)
    have "addz 0 (length p) = length p" using sz by (simp add: addz_small)
    then show ?thesis using Suc.IH[OF w(2,3) ok] w(1,4) Suc.prems(4) Cons by auto
  qed
qed simp

text \<open>a shutdown for writing flushes ten packets and no more: even when the base stream takes everything at once, the packets after the tenth are
  still buffered when the base stream is shut down. And a writer that waits for room after a flush failed on a full
  buffer waits for ever: polling neither reports it writable nor watches the child for output, though
  \<open>z_stream_buf_space_avail\<close> answers that it may write.\<close>

theorem buf_shutdown_ten_packets:
  assumes "get_st w a = Inr s" "st_accept s = []" "sb_ok self" "sb_pending_pos self = 0" "i \<in> {1, 2}"
  shows "(\<exists>self' w' s'. z_stream_buf_shutdown_method (base_writer a) sd i self w = rbind (sd i w') (\<lambda>(w2, res). Inr (res, self', w2))
      \<and> get_st w' a = Inr s' \<and> st_written s' = st_written s @ concat (take 10 (sb_buffers self))
      \<and> sb_buffers self' = drop 10 (sb_buffers self))
    \<and> (\<forall>b :: 'e zstream_buf. sb_flush_error b \<noteq> None \<longrightarrow> sb_current_size b \<ge> sb_threshold b \<longrightarrow>
         z_stream_buf_space_avail b \<and> fst (z_stream_buf_watch_prepare b) = False \<and> z_stream_buf_watch_check b = False
         \<and> cc_out (sb_child (snd (z_stream_buf_watch_prepare b))) = False)"
proof
  let ?s = "self\<lparr>sb_child := (sb_child self)\<lparr>cc_timeout := sb_timeout self, cc_nonblock := False\<rparr>\<rparr>"
  have ok: "sb_ok ?s" "sb_pending_pos ?s = 0" using assms(3,4) by (auto simp: sb_ok_def split: list.splits)
  obtain self' w' s' where "flush_loop (base_writer a) 10 ?s w = Inr (self', w')" "get_st w' a = Inr s'"
    "st_written s' = st_written s @ concat (take 10 (sb_buffers ?s))" "sb_buffers self' = drop 10 (sb_buffers ?s)"
    using flush_loop_all[OF assms(1,2) ok, of 10] by blast
  then show "\<exists>self' w' s'. z_stream_buf_shutdown_method (base_writer a) sd i self w = rbind (sd i w') (\<lambda>(w2, res). Inr (res, self', w2))
      \<and> get_st w' a = Inr s' \<and> st_written s' = st_written s @ concat (take 10 (sb_buffers self))
      \<and> sb_buffers self' = drop 10 (sb_buffers self)"
    using assms(5) by (intro exI[of _ self'] exI[of _ w'] exI[of _ s'])
      (simp add: z_stream_buf_shutdown_method_def z_stream_buf_flush_internal_def)
qed (auto simp: z_stream_buf_space_avail_def z_stream_buf_watch_prepare_def z_stream_buf_space_avail_internal_def z_stream_buf_watch_check_def)

definition full_buf :: "unit zstream_buf" where
  "full_buf = \<lparr>sb_immed_flush = False, sb_threshold = 10, sb_pending_pos = 0, sb_flush_error = None, sb_current_size = 11,
     sb_buffers = [[7], [7], [7], [7], [7], [7], [7], [7], [7], [7], [7]], sb_timeout = -2, sb_want_read = False, sb_want_write = True, sb_want_pri = False, sb_user_data_read = 0, sb_user_data_write = 0,
     sb_child = \<lparr>cc_timeout = -2, cc_nonblock = True, cc_in = False, cc_out = False, cc_pri = False\<rparr>, sb_log = []\<rparr>"

theorem buf_shutdown_ten_packets_witness:
  "\<exists>self' w' s'. z_stream_buf_shutdown_method (base_writer 0) (\<lambda>i c. Inr (c, IO_NORMAL)) 2 full_buf fed_stream = Inr (IO_NORMAL, self', w')
    \<and> get_st w' 0 = Inr s' \<and> sb_buffers self' = [[7]]"
proof -
  obtain s where s: "get_st fed_stream 0 = Inr s" "st_accept s = []" by (auto simp: fed_stream_def z_stream_new_def get_st_def slot_def)
  have ok: "sb_ok full_buf" "sb_pending_pos full_buf = 0" by (simp_all add: sb_ok_def full_buf_def)
  show ?thesis using buf_shutdown_ten_packets[OF s ok, of 2 "\<lambda>i c. Inr (c, IO_NORMAL)", where ?'e = unit]
    by (auto simp: full_buf_def)
qed

text \<open>A child that reports the end of the file without an error leaves no trace: the error that is stored is \<open>NULL\<close>.\<close>

theorem buf_eof_not_stored:
  assumes "wr (drop (sb_pending_pos self) p) c = Inr (c', IO_EOF, 0, None)" "sb_buffers self = p # ps" "sb_flush_error self = None"
  shows "z_stream_buf_flush_internal wr self c = Inr (self, c')"
  using assms by (simp add: z_stream_buf_flush_internal_def numeral_eq_Suc)

end
