(* ===== verification/Sockaddr.thy ===== *)
theory Sockaddr
  imports Refcount Zurlparse
begin

section \<open>Socket addresses and ports\<close>

text \<open>
  \<open>src/sockaddr.c\<close> and the port allocation of \<open>src/socket.c\<close>. An address is the record of its C structure; ports are kept as their
  values, not in network order. \<open>bind\<close> is a parameter, the answer of the system to each port during a call. The random bytes
  of \<open>z_random_sequence_get\<close> and the numbers of \<open>rand\<close> are arguments. Conversion of address texts (\<open>inet_aton\<close>,
  \<open>inet_pton\<close>, name lookup) is a parameter \<open>aton\<close>.
\<close>

datatype bind_answer = Bound | In_use | Refused

type_synonym bind_call = "nat \<Rightarrow> bind_answer"

record bind_flags =
  bf_loose :: bool
  bf_random :: bool

subsection \<open>Binding a socket\<close>

text \<open>The group of a port: \<open>port_min\<close>, \<open>port_max\<close>, \<open>port_mask\<close>.\<close>

definition port_group :: "nat \<Rightarrow> nat \<times> nat \<times> nat" where
  "port_group port = (if port < 512 then (1, 511, 0x01ff) else if port < 1024 then (512, 1023, 0x01ff) else (1024, 65535, 0xffff))"

text \<open>The \<open>do\<close> loop: random numbers are taken until one is in the group; no more numbers means that the loop goes on for ever.\<close>

fun random_port :: "nat \<times> nat \<times> nat \<Rightarrow> nat list \<Rightarrow> (nat \<times> nat list) result" where
  "random_port g [] = Inl Endless_loop"
| "random_port (port_min, port_max, port_mask) (r # rs) =
     (let port = (r mod (port_mask + 1) + port_min) mod 65536
      in if port < port_min \<or> port > port_max then random_port (port_min, port_max, port_mask) rs else Inr (port, rs))"

text \<open>The loop over random ports: whether one was bound, \<open>port\<close> and the port in \<open>sa\<close> afterwards.\<close>

fun random_bind :: "bind_call \<Rightarrow> nat \<times> nat \<times> nat \<Rightarrow> nat \<Rightarrow> nat \<Rightarrow> nat \<Rightarrow> nat list \<Rightarrow> (bool \<times> nat \<times> nat) result" where
  "random_bind bind g 0 port sin rs = Inr (False, port, sin)"
| "random_bind bind g (Suc random_limit) port sin rs =
     rbind (random_port g rs) (\<lambda>(port1, rs1).
       case bind port1 of
         Bound \<Rightarrow> Inr (True, port1, port1)
       | In_use \<Rightarrow> random_bind bind g random_limit port1 port1 rs1
       | Refused \<Rightarrow> Inr (False, port1, port1))"

text \<open>The loop over the ports one after the other: whether one was bound, and the port in \<open>sa\<close>; a \<open>guint16\<close> port wraps around.\<close>

fun seq_bind :: "bind_call \<Rightarrow> nat \<Rightarrow> nat \<Rightarrow> nat \<Rightarrow> nat \<Rightarrow> nat \<Rightarrow> bool \<times> nat" where
  "seq_bind bind port_min port_max 0 port sin = (False, sin)"
| "seq_bind bind port_min port_max (Suc n) port sin =
     (let port = (if port > port_max then port_min else port)
      in case bind port of
           Bound \<Rightarrow> (True, port)
         | In_use \<Rightarrow> seq_bind bind port_min port_max n ((port + 1) mod 65536) port
         | Refused \<Rightarrow> (False, port))"

text \<open>For an \<open>AF_INET\<close> address with the given port: whether the result is 0, and the port that is left in the address.\<close>

definition z_do_ll_bind :: "bind_call \<Rightarrow> bind_flags \<Rightarrow> nat list \<Rightarrow> nat \<Rightarrow> (bool \<times> nat) result" where
  "z_do_ll_bind bind flags rs sin_port =
     (if \<not> bf_loose flags \<or> sin_port = 0 then Inr (bind sin_port = Bound, sin_port)
      else if \<not> bf_random flags \<and> bind sin_port \<noteq> In_use then Inr (bind sin_port = Bound, sin_port)
      else
        let (port_min, port_max, port_mask) = port_group sin_port;
            port = (sin_port + 1) mod 65536;
            n = port_max - port_min + 1
        in rbind (if bf_random flags then random_bind bind (port_min, port_max, port_mask) (n div 8) port sin_port rs
                  else Inr (False, port, sin_port)) (\<lambda>(found, port, sin).
           if found then Inr (True, sin) else Inr (seq_bind bind port_min port_max n port sin)))"

subsection \<open>Addresses\<close>

datatype sa_kind = Inet | Inet_range | Inet6 | Unix

record zsockaddr =
  sa_refcnt :: int
  sa_funcs :: sa_kind
  sa_salen :: nat
  sin_addr :: "32 word"
  sin_port :: nat
  sin6_addr :: bytes
  sun_path :: string
  sr_min_port :: nat
  sr_max_port :: nat
  sr_last_port :: nat

definition sa_family :: "zsockaddr \<Rightarrow> nat" where
  "sa_family a = (case sa_funcs a of Inet \<Rightarrow> 2 | Inet_range \<Rightarrow> 2 | Inet6 \<Rightarrow> 10 | Unix \<Rightarrow> 1)"

definition zero_addr :: "sa_kind \<Rightarrow> zsockaddr" where
  "zero_addr k = \<lparr>sa_refcnt = 1, sa_funcs = k, sa_salen = 0, sin_addr = 0, sin_port = 0, sin6_addr = replicate 16 0, sun_path = [],
     sr_min_port = 0, sr_max_port = 0, sr_last_port = 0\<rparr>"

definition sizeof_sin :: nat where "sizeof_sin = 16"
definition sizeof_sin6 :: nat where "sizeof_sin6 = 28"
definition sizeof_sun_path :: nat where "sizeof_sun_path = 108"

definition z_sockaddr_inet_new :: "(string \<Rightarrow> 32 word option) \<Rightarrow> string \<Rightarrow> nat \<Rightarrow> zsockaddr option" where
  "z_sockaddr_inet_new aton ip port =
     (case aton ip of None \<Rightarrow> None
      | Some netaddr \<Rightarrow> Some ((zero_addr Inet)\<lparr>sa_salen := sizeof_sin, sin_addr := netaddr, sin_port := port\<rparr>))"

definition z_sockaddr_inet_new2 :: "32 word \<Rightarrow> nat \<Rightarrow> zsockaddr" where
  "z_sockaddr_inet_new2 addr port = (zero_addr Inet)\<lparr>sa_salen := sizeof_sin, sin_addr := addr, sin_port := port\<rparr>"

definition z_sockaddr_inet6_new2 :: "bytes \<Rightarrow> nat \<Rightarrow> zsockaddr" where
  "z_sockaddr_inet6_new2 addr port = (zero_addr Inet6)\<lparr>sa_salen := sizeof_sin6, sin6_addr := addr, sin_port := port\<rparr>"

definition z_sockaddr_inet_range_new_inaddr :: "nat \<Rightarrow> 32 word \<Rightarrow> nat \<Rightarrow> nat \<Rightarrow> zsockaddr" where
  "z_sockaddr_inet_range_new_inaddr rand addr min_port max_port =
     (zero_addr Inet_range)\<lparr>sa_salen := sizeof_sin, sin_addr := addr,
        sr_last_port := (if max_port > min_port then (rand mod (max_port - min_port) mod 65536 + min_port) mod 65536
                         else if max_port = min_port then min_port else 0),
        sr_min_port := min_port, sr_max_port := max_port\<rparr>"

definition z_sockaddr_inet_range_new :: "(string \<Rightarrow> 32 word option) \<Rightarrow> nat \<Rightarrow> string \<Rightarrow> nat \<Rightarrow> nat \<Rightarrow> zsockaddr option" where
  "z_sockaddr_inet_range_new aton rand ip min_port max_port =
     (case aton ip of None \<Rightarrow> None | Some netaddr \<Rightarrow> Some (z_sockaddr_inet_range_new_inaddr rand netaddr min_port max_port))"

definition z_sockaddr_unix_new :: "string option \<Rightarrow> zsockaddr" where
  "z_sockaddr_unix_new name =
     (case name of
        Some n \<Rightarrow> let path = take (sizeof_sun_path - 1) n in (zero_addr Unix)\<lparr>sun_path := path, sa_salen := 2 + length path + 1\<rparr>
      | None \<Rightarrow> (zero_addr Unix)\<lparr>sa_salen := 2\<rparr>)"

text \<open>What is in the memory of a \<open>struct sockaddr\<close> that the system filled in.\<close>

datatype raw_addr = Raw_inet "32 word" nat | Raw_inet6 bytes nat | Raw_unix string | Raw_other nat

text \<open>\<open>sunlen\<close> bytes are copied over the structure, which has 110; the rest stays zero.\<close>

definition z_sockaddr_unix_new2 :: "string \<Rightarrow> nat \<Rightarrow> zsockaddr result" where
  "z_sockaddr_unix_new2 path sunlen =
     (if sunlen > sizeof_sun_path + 2 then Inl Bad_access
      else Inr ((zero_addr Unix)\<lparr>sun_path := take (sunlen - 2) path, sa_salen := sizeof_sun_path + 2\<rparr>))"

definition z_sockaddr_new :: "raw_addr \<Rightarrow> nat \<Rightarrow> zsockaddr option result" where
  "z_sockaddr_new sa salen =
     (case sa of
        Raw_inet6 addr port \<Rightarrow> Inr (if salen \<ge> sizeof_sin6 then Some (z_sockaddr_inet6_new2 addr port) else None)
      | Raw_inet addr port \<Rightarrow> Inr (if salen = sizeof_sin then Some (z_sockaddr_inet_new2 addr port) else None)
      | Raw_unix path \<Rightarrow> rbind (z_sockaddr_unix_new2 path salen) (\<lambda>a. Inr (Some a))
      | Raw_other family \<Rightarrow> Inr None)"

definition z_sockaddr_inet_check :: "zsockaddr \<Rightarrow> bool" where
  "z_sockaddr_inet_check s \<longleftrightarrow> sa_funcs s = Inet \<or> sa_funcs s = Inet_range"

definition z_sockaddr_unix_check :: "zsockaddr \<Rightarrow> bool" where
  "z_sockaddr_unix_check s \<longleftrightarrow> sa_funcs s = Unix"

definition z_sockaddr_inet_set_port :: "zsockaddr \<Rightarrow> nat \<Rightarrow> zsockaddr result" where
  "z_sockaddr_inet_set_port s port = (if z_sockaddr_inet_check s then Inr (s\<lparr>sin_port := port\<rparr>) else Inl Assert_failed)"

definition z_sockaddr_inet_get_port :: "zsockaddr \<Rightarrow> nat result" where
  "z_sockaddr_inet_get_port s = (if z_sockaddr_inet_check s then Inr (sin_port s) else Inl Assert_failed)"

subsection \<open>Methods\<close>

definition z_sockaddr_inet_clone :: "zsockaddr \<Rightarrow> bool \<Rightarrow> zsockaddr" where
  "z_sockaddr_inet_clone addr wildcard = (let self = addr\<lparr>sa_refcnt := 1\<rparr> in if wildcard then self\<lparr>sin_port := 0\<rparr> else self)"

definition z_sockaddr_inet6_clone :: "zsockaddr \<Rightarrow> bool \<Rightarrow> zsockaddr" where
  "z_sockaddr_inet6_clone addr wildcard = (let self = addr\<lparr>sa_refcnt := 1\<rparr> in if wildcard then self\<lparr>sin_port := 0\<rparr> else self)"

definition z_sockaddr_unix_clone :: "zsockaddr \<Rightarrow> bool \<Rightarrow> zsockaddr" where
  "z_sockaddr_unix_clone addr wildcard_clone = addr\<lparr>sa_refcnt := 1\<rparr>"

definition z_sockaddr_inet_range_clone :: "nat \<Rightarrow> zsockaddr \<Rightarrow> bool \<Rightarrow> zsockaddr" where
  "z_sockaddr_inet_range_clone rand addr wildcard_clone =
     (let self = addr\<lparr>sa_refcnt := 1\<rparr>
      in if sr_max_port self > sr_min_port self
         then self\<lparr>sr_last_port := (rand mod 65536 mod (sr_max_port self - sr_min_port self) + sr_min_port self) mod 65536\<rparr>
         else if sr_max_port self = sr_min_port self then self\<lparr>sr_last_port := sr_min_port self\<rparr> else self)"

definition z_sockaddr_clone :: "nat \<Rightarrow> zsockaddr \<Rightarrow> bool \<Rightarrow> zsockaddr" where
  "z_sockaddr_clone rand a wildcard =
     (case sa_funcs a of
        Inet \<Rightarrow> z_sockaddr_inet_clone a wildcard
      | Inet_range \<Rightarrow> z_sockaddr_inet_range_clone rand a wildcard
      | Inet6 \<Rightarrow> z_sockaddr_inet6_clone a wildcard
      | Unix \<Rightarrow> z_sockaddr_unix_clone a wildcard)"

definition z_sockaddr_inet_equal :: "zsockaddr \<Rightarrow> zsockaddr \<Rightarrow> bool result" where
  "z_sockaddr_inet_equal self other =
     (if sa_family self \<noteq> 2 \<or> sa_family other \<noteq> 2 then Inl Assert_failed
      else Inr (sin_addr self = sin_addr other \<and> sin_port self = sin_port other))"

definition z_sockaddr_inet6_equal :: "zsockaddr \<Rightarrow> zsockaddr \<Rightarrow> bool result" where
  "z_sockaddr_inet6_equal self other =
     (if sa_family self \<noteq> 10 \<or> sa_family other \<noteq> 10 then Inl Assert_failed
      else Inr (sin6_addr self = sin6_addr other \<and> sin_port self = sin_port other))"

definition z_sockaddr_unix_equal :: "zsockaddr \<Rightarrow> zsockaddr \<Rightarrow> bool result" where
  "z_sockaddr_unix_equal self other =
     (if sa_family self \<noteq> 1 \<or> sa_family other \<noteq> 1 then Inl Assert_failed else Inr (sun_path self = sun_path other))"

definition z_sockaddr_equal :: "zsockaddr \<Rightarrow> zsockaddr \<Rightarrow> bool result" where
  "z_sockaddr_equal a b =
     (if sa_family a \<noteq> sa_family b then Inr False
      else case sa_funcs a of
          Inet \<Rightarrow> z_sockaddr_inet_equal a b | Inet_range \<Rightarrow> z_sockaddr_inet_equal a b
        | Inet6 \<Rightarrow> z_sockaddr_inet6_equal a b | Unix \<Rightarrow> z_sockaddr_unix_equal a b)"

text \<open>\<open>g_snprintf (text, n, \<dots>)\<close>: at most \<open>n - 1\<close> characters.\<close>

definition snprintf :: "nat \<Rightarrow> string \<Rightarrow> string" where
  "snprintf n t = take (n - 1) t"

definition z_inet_ntoa :: "nat \<Rightarrow> 32 word \<Rightarrow> string" where
  "z_inet_ntoa bufsize a =
     (let ip = unat a
      in snprintf bufsize (decimal (ip div 2 ^ 24 mod 256) @ ''.'' @ decimal (ip div 2 ^ 16 mod 256) @ ''.''
           @ decimal (ip div 2 ^ 8 mod 256) @ ''.'' @ decimal (ip mod 256)))"

definition z_sockaddr_inet_format :: "zsockaddr \<Rightarrow> nat \<Rightarrow> string" where
  "z_sockaddr_inet_format self n = snprintf n (''AF_INET('' @ z_inet_ntoa 32 (sin_addr self) @ '':'' @ decimal (sin_port self) @ '')'')"

definition z_sockaddr_unix_format :: "zsockaddr \<Rightarrow> nat \<Rightarrow> string" where
  "z_sockaddr_unix_format self n =
     snprintf n (''AF_UNIX('' @ (if sa_salen self > 2 \<and> sun_path self \<noteq> [] then sun_path self else ''anonymous'') @ '')'')"

text \<open>\<open>ntop\<close> stands for \<open>inet_ntop\<close>.\<close>

definition z_sockaddr_inet6_format :: "(bytes \<Rightarrow> string) \<Rightarrow> zsockaddr \<Rightarrow> nat \<Rightarrow> string" where
  "z_sockaddr_inet6_format ntop self n = snprintf n (''AF_INET6('' @ ntop (sin6_addr self) @ '':'' @ decimal (sin_port self) @ '')'')"

definition z_sockaddr_format :: "(bytes \<Rightarrow> string) \<Rightarrow> zsockaddr \<Rightarrow> nat \<Rightarrow> string" where
  "z_sockaddr_format ntop a n =
     (case sa_funcs a of
        Inet \<Rightarrow> z_sockaddr_inet_format a n | Inet_range \<Rightarrow> z_sockaddr_inet_format a n
      | Inet6 \<Rightarrow> z_sockaddr_inet6_format ntop a n | Unix \<Rightarrow> z_sockaddr_unix_format a n)"

subsection \<open>Binding an address of a port range\<close>

text \<open>
  A loop of \<open>z_sockaddr_inet_range_bind\<close>: the port that was bound, if any, and the port that is left in \<open>sin\<close>. \<open>ll_bind\<close> is
  \<open>z_ll_bind\<close> on a port. The counter is a \<open>guint16\<close>; when 65536 ports were tried the loop repeats itself.
\<close>

fun range_try :: "nat \<Rightarrow> (nat \<Rightarrow> (bool \<times> nat) result) \<Rightarrow> nat \<Rightarrow> nat \<Rightarrow> nat \<Rightarrow> (nat option \<times> nat) result" where
  "range_try 0 ll_bind port max_port sin = Inl Endless_loop"
| "range_try (Suc n) ll_bind port max_port sin =
     (if port \<le> max_port
      then rbind (ll_bind port) (\<lambda>(ok, sin1).
        if ok then Inr (Some port, sin1) else range_try n ll_bind ((port + 1) mod 65536) max_port sin1)
      else Inr (None, sin))"

text \<open>\<open>rs k port\<close> are the random numbers that the call for \<open>port\<close> in the first (1) and second (2) loop finds.\<close>

definition z_sockaddr_inet_range_bind :: "bind_call \<Rightarrow> bind_flags \<Rightarrow> (nat \<Rightarrow> nat \<Rightarrow> nat list) \<Rightarrow> zsockaddr \<Rightarrow> (io_status \<times> zsockaddr) result" where
  "z_sockaddr_inet_range_bind bind flags rs self =
     (let ll_bind = (\<lambda>k port. z_do_ll_bind bind flags (rs k port) port)
      in if sr_min_port self > sr_max_port self then Inr (IO_ERROR, self)
         else rbind (range_try 65537 (ll_bind 1) (sr_last_port self) (sr_max_port self) (sin_port self)) (\<lambda>(found, sin).
           case found of
             Some port \<Rightarrow> Inr (IO_NORMAL, self\<lparr>sin_port := sin, sr_last_port := (port + 1) mod 65536\<rparr>)
           | None \<Rightarrow>
               rbind (range_try 65537 (ll_bind 2) (sr_min_port self) (sr_max_port self) sin) (\<lambda>(found, sin).
                 case found of
                   Some port \<Rightarrow> Inr (IO_NORMAL, self\<lparr>sin_port := sin, sr_last_port := (port + 1) mod 65536\<rparr>)
                 | None \<Rightarrow> Inr (IO_ERROR, self\<lparr>sin_port := sin, sr_last_port := sr_min_port self\<rparr>))))"

text \<open>\<open>z_bind\<close> without the capabilities and \<open>sa_bind_prepare\<close>, whose result it ignores.\<close>

definition z_bind :: "bind_call \<Rightarrow> bind_flags \<Rightarrow> (nat \<Rightarrow> nat \<Rightarrow> nat list) \<Rightarrow> zsockaddr \<Rightarrow> (io_status \<times> zsockaddr) result" where
  "z_bind bind flags rs addr =
     (if sa_funcs addr = Inet_range then z_sockaddr_inet_range_bind bind flags rs addr
      else rbind (z_do_ll_bind bind (if sa_family addr = 2 then flags else flags\<lparr>bf_loose := False\<rparr>) (rs 0 0) (sin_port addr)) (\<lambda>(ok, sin).
        Inr (if ok then IO_NORMAL else IO_ERROR, addr\<lparr>sin_port := sin\<rparr>)))"

subsection \<open>Loose binding stays in the group\<close>

text \<open>The port that the loop tries after \<open>k\<close> others.\<close>

definition nth_port :: "nat \<Rightarrow> nat \<Rightarrow> nat \<Rightarrow> nat \<Rightarrow> nat" where
  "nth_port mn mx port k = mn + (port - mn + k) mod (mx - mn + 1)"

lemma nth_port_in: "mn \<le> mx \<Longrightarrow> mn \<le> nth_port mn mx port k \<and> nth_port mn mx port k \<le> mx"
  using mod_less_divisor[of "mx - mn + 1" "port - mn + k"] unfolding nth_port_def by linarith

lemma nth_port_step:
  assumes "mn \<le> port" "port \<le> mx + 1" "mn \<le> mx" "mx < 65535"
  shows "nth_port mn mx port 0 = (if port > mx then mn else port)"
    "mn \<le> (nth_port mn mx port 0 + 1) mod 65536" "(nth_port mn mx port 0 + 1) mod 65536 \<le> mx + 1"
    "nth_port mn mx ((nth_port mn mx port 0 + 1) mod 65536) k = nth_port mn mx port (Suc k)"
proof -
  show z: "nth_port mn mx port 0 = (if port > mx then mn else port)" using assms by (auto simp: nth_port_def le_Suc_eq Suc_diff_le)
  then have s: "(nth_port mn mx port 0 + 1) mod 65536 = nth_port mn mx port 0 + 1" using assms by simp
  show "mn \<le> (nth_port mn mx port 0 + 1) mod 65536" "(nth_port mn mx port 0 + 1) mod 65536 \<le> mx + 1" unfolding s using z assms by auto
  have "nth_port mn mx port 0 + 1 - mn + k = (port - mn) mod (mx - mn + 1) + Suc k" using assms by (simp add: nth_port_def)
  then have "(nth_port mn mx port 0 + 1 - mn + k) mod (mx - mn + 1) = (port - mn + Suc k) mod (mx - mn + 1)"
    by (simp only: mod_add_left_eq)
  then show "nth_port mn mx ((nth_port mn mx port 0 + 1) mod 65536) k = nth_port mn mx port (Suc k)" unfolding s
    by (simp add: nth_port_def)
qed

lemma nth_port_covers:
  assumes "mn \<le> q" "q \<le> mx" "mn \<le> port" "port \<le> mx + 1"
  shows "\<exists>k < mx - mn + 1. nth_port mn mx port k = q"
proof (cases "port - mn \<le> q - mn")
  case True
  then show ?thesis using assms by (intro exI[of _ "q - mn - (port - mn)"]) (auto simp: nth_port_def)
next
  case False
  let ?m = "mx - mn + 1"
  have "port - mn + (q - mn + ?m - (port - mn)) = q - mn + ?m" using assms by simp
  then have "(port - mn + (q - mn + ?m - (port - mn))) mod ?m = q - mn" using assms by (simp only: mod_add_self2) simp
  then show ?thesis using assms False by (intro exI[of _ "q - mn + ?m - (port - mn)"]) (auto simp: nth_port_def)
qed

lemma seq_bind_bound:
  assumes "mn \<le> port" "port \<le> mx + 1" "mn \<le> mx" "mx < 65535" "seq_bind bind mn mx n port sin = (True, p)"
  shows "bind p = Bound \<and> mn \<le> p \<and> p \<le> mx"
  using assms(1,2,5)
proof (induction n arbitrary: port sin)
  case (Suc n)
  note st = nth_port_step[OF Suc.prems(1,2) assms(3,4)]
  show ?case using Suc.prems Suc.IH[OF st(2,3)] st(1) assms(3) by (auto simp: Let_def split: bind_answer.splits if_splits)
qed simp

lemma seq_bind_finds:
  assumes "mn \<le> port" "port \<le> mx + 1" "mn \<le> mx" "mx < 65535" "\<forall>q. mn \<le> q \<and> q \<le> mx \<longrightarrow> bind q \<noteq> Refused"
    "k < n" "bind (nth_port mn mx port k) = Bound"
  shows "fst (seq_bind bind mn mx n port sin)"
  using assms(1,2,6,7)
proof (induction n arbitrary: port sin k)
  case (Suc n)
  note st = nth_port_step[OF Suc.prems(1,2) assms(3,4)]
  let ?p = "nth_port mn mx port 0"
  have nr: "bind ?p \<noteq> Refused" using assms(5) nth_port_in[OF assms(3)] by blast
  show ?case
  proof (cases "bind ?p")
    case In_use
    then obtain k' where "k = Suc k'" using Suc.prems(4) by (cases k) auto
    then have "fst (seq_bind bind mn mx n ((?p + 1) mod 65536) ?p)" using Suc.IH[OF st(2,3)] Suc.prems(3,4) st(4) by auto
    then show ?thesis using In_use st(1) by (simp add: Let_def)
  qed (use nr st(1) in \<open>auto simp: Let_def\<close>)
qed simp

lemma random_port_in:
  "random_port (mn, mx, msk) rs = Inr (p, rs') \<Longrightarrow> mn \<le> p \<and> p \<le> mx"
  by (induction rs) (auto simp: Let_def split: if_splits)

lemma random_bind_in:
  assumes "random_bind bind (mn, mx, msk) n port sin rs = Inr (found, port', sin')" "mn \<le> port" "port \<le> mx + 1"
  shows "mn \<le> port' \<and> port' \<le> mx + 1 \<and> (found \<longrightarrow> port' \<le> mx \<and> sin' = port' \<and> bind sin' = Bound)"
  using assms
proof (induction n arbitrary: port sin rs)
  case (Suc n)
  obtain p rs1 where p: "random_port (mn, mx, msk) rs = Inr (p, rs1)" using Suc.prems(1) by (auto simp: rbind_eq_Inr)
  then have "mn \<le> p" "p \<le> mx" using random_port_in by blast+
  then show ?case using Suc.prems(1) p Suc.IH[of p p rs1] by (auto split: bind_answer.splits)
qed auto

lemma low_group:
  assumes "0 < h" "h < 1024"
  obtains mn mx msk where "port_group h = (mn, mx, msk)" "mn \<le> h" "h \<le> mx" "mx < 65535" "0 < mn"
  using assms by (cases "h < 512") (auto simp: port_group_def)

text \<open>What the sequential search finds when it starts anywhere in the group.\<close>

lemma seq_bind_group:
  assumes "seq_bind bind mn mx (mx - mn + 1) port sin = (ok, p)" "mn \<le> port" "port \<le> mx + 1" "mn \<le> mx" "mx < 65535"
  shows "(ok \<longrightarrow> bind p = Bound \<and> p \<in> {mn..mx}) \<and> ((\<forall>q \<in> {mn..mx}. bind q \<noteq> Refused) \<and> (\<exists>q \<in> {mn..mx}. bind q = Bound) \<longrightarrow> ok)"
proof -
  have "ok" if q: "\<forall>q \<in> {mn..mx}. bind q \<noteq> Refused" "q \<in> {mn..mx}" "bind q = Bound" for q
  proof -
    obtain k where k: "k < mx - mn + 1" "nth_port mn mx port k = q" using nth_port_covers[of mn q mx port] q(2) assms(2,3) by auto
    then have "fst (seq_bind bind mn mx (mx - mn + 1) port sin)"
      using seq_bind_finds[OF assms(2-5) _ k(1), of bind sin] q by auto
    then show ok using assms(1) by simp
  qed
  then show ?thesis using seq_bind_bound[OF assms(2-5), of bind "mx - mn + 1" sin p] assms(1) by auto
qed

lemma loose_bind_low:
  assumes "0 < h" "h < 1024" "port_group h = (mn, mx, msk)" "mn \<le> h" "h \<le> mx" "mx < 65535"
    and r: "z_do_ll_bind bind \<lparr>bf_loose = True, bf_random = r\<rparr> rs h = Inr (ok, p)"
  shows "(ok \<longrightarrow> bind p = Bound \<and> p \<in> {mn..mx}) \<and> ((\<forall>q \<in> {mn..mx}. bind q \<noteq> Refused) \<and> (\<exists>q \<in> {mn..mx}. bind q = Bound) \<longrightarrow> ok)"
proof (cases "\<not> r \<and> bind h \<noteq> In_use")
  case True
  then show ?thesis using r assms(1-6) by (cases "bind h") (auto simp: z_do_ll_bind_def)
next
  case False
  define rb where "rb = (if r then random_bind bind (mn, mx, msk) ((mx - mn + 1) div 8) ((h + 1) mod 65536) h rs else Inr (False, (h + 1) mod 65536, h))"
  have pc: "mn \<le> (h + 1) mod 65536" "(h + 1) mod 65536 \<le> mx + 1" using assms(4-6) by auto
  have eq: "z_do_ll_bind bind \<lparr>bf_loose = True, bf_random = r\<rparr> rs h =
      rbind rb (\<lambda>(found, port, sin). if found then Inr (True, sin) else Inr (seq_bind bind mn mx (mx - mn + 1) port sin))"
    unfolding z_do_ll_bind_def rb_def assms(3) Let_def prod.case bind_flags.simps
    by (subst if_not_P, use assms(1) in simp, subst if_not_P, use False in simp, rule refl)
  then obtain found port sin where rb: "rb = Inr (found, port, sin)" using r by (cases rb) auto
  have pr: "mn \<le> port \<and> port \<le> mx + 1 \<and> (found \<longrightarrow> port \<le> mx \<and> sin = port \<and> bind sin = Bound)"
    using random_bind_in[OF _ pc] rb pc by (cases r) (auto simp: rb_def)
  show ?thesis
  proof (cases found)
    case True
    then show ?thesis using eq rb r pr by auto
  next
    case False
    then have "seq_bind bind mn mx (mx - mn + 1) port sin = (ok, p)" using eq rb r by simp
    then show ?thesis using pr assms(4-6) by (intro seq_bind_group[of bind mn mx port sin]) auto
  qed
qed

lemma seq_bind_wraps:
  assumes "1024 \<le> h" "h \<le> 65535" "\<forall>q \<in> {h..65535}. bind q = In_use" "bind 0 = Bound"
  shows "seq_bind bind 1024 65535 64512 ((h + 1) mod 65536) h = (True, 0)"
proof -
  have run: "seq_bind bind 1024 65535 n port sin = (True, 0)"
    if "k + port = 65535" "h < port" "k + 1 < n" for k n port sin
    using that
  proof (induction k arbitrary: n port sin)
    case 0
    then obtain n' where "n = Suc (Suc n')" by (metis add_0 add.commute less_imp_Suc_add plus_1_eq_Suc)
    then show ?case using 0 assms by (simp add: Let_def)
  next
    case (Suc k)
    then have "bind port = In_use" "port \<le> 65535" "(port + 1) mod 65536 = port + 1" using assms by auto
    then show ?case using Suc.prems Suc.IH[of "port + 1" "n - 1" port] by (cases n) (auto simp: Let_def)
  qed
  show ?thesis
  proof (cases "h = 65535")
    case True
    have "64512 = Suc 64511" by simp
    then show ?thesis using True assms by (simp only: seq_bind.simps) (simp add: Let_def)
  next
    case False
    moreover have "65534 - h + 1 < 64512" using assms(1) by linarith
    ultimately show ?thesis using assms run[of "65534 - h" "h + 1" 64512 h] by simp
  qed
qed

text \<open>with loose binding and a port below 1024 as hint, the port that is bound is one of the group of the hint (1 to 511, or 512 to 1023), randomly
  chosen or not, and one is bound whenever some port of the group is free and none is refused. From the group above,
  the search leaves its group: when all ports from the hint to 65535 are in use, the counter wraps and port 0 is bound next.\<close>

theorem loose_bind_group:
  "(0 < h \<and> h < 1024 \<longrightarrow> z_do_ll_bind bind \<lparr>bf_loose = True, bf_random = r\<rparr> rs h = Inr (ok, p) \<longrightarrow>
      (ok \<longrightarrow> bind p = Bound \<and> (if h < 512 then 1 \<le> p \<and> p \<le> 511 else 512 \<le> p \<and> p \<le> 1023))
      \<and> ((\<forall>q \<in> (if h < 512 then {1..511} else {512..1023}). bind q \<noteq> Refused)
          \<and> (\<exists>q \<in> (if h < 512 then {1..511} else {512..1023}). bind q = Bound) \<longrightarrow> ok))
    \<and> (1024 \<le> h \<and> h \<le> 65535 \<and> (\<forall>q \<in> {h..65535}. bind q = In_use) \<and> bind 0 = Bound \<longrightarrow>
        z_do_ll_bind bind \<lparr>bf_loose = True, bf_random = False\<rparr> rs h = Inr (True, 0))"
proof (intro conjI impI)
  assume h: "0 < h \<and> h < 1024" and r: "z_do_ll_bind bind \<lparr>bf_loose = True, bf_random = r\<rparr> rs h = Inr (ok, p)"
  let ?G = "if h < 512 then {1..511} else {512..1023} :: nat set"
  obtain mn mx msk where g: "port_group h = (mn, mx, msk)" "mn \<le> h" "h \<le> mx" "mx < 65535" "0 < mn" using low_group h by blast
  have G: "?G = {mn..mx}" using g(1) h by (auto simp: port_group_def split: if_splits)
  note main = loose_bind_low[OF conjunct1[OF h] conjunct2[OF h] g(1-4) r]
  show "bind p = Bound" "if h < 512 then 1 \<le> p \<and> p \<le> 511 else 512 \<le> p \<and> p \<le> 1023" if ok using main that G by (auto split: if_splits)
  show ok if "(\<forall>q \<in> ?G. bind q \<noteq> Refused) \<and> (\<exists>q \<in> ?G. bind q = Bound)" using main that unfolding G by blast
next
  assume h: "1024 \<le> h \<and> h \<le> 65535 \<and> (\<forall>q \<in> {h..65535}. bind q = In_use) \<and> bind 0 = Bound"
  then have "z_do_ll_bind bind \<lparr>bf_loose = True, bf_random = False\<rparr> rs h = Inr (seq_bind bind 1024 65535 64512 ((h + 1) mod 65536) h)"
    by (simp add: z_do_ll_bind_def port_group_def Let_def del: seq_bind.simps)
  then show "z_do_ll_bind bind \<lparr>bf_loose = True, bf_random = False\<rparr> rs h = Inr (True, 0)" using seq_bind_wraps[of h bind] h by simp
qed

theorem loose_bind_group_witness:
  "z_do_ll_bind (\<lambda>q. if q = 7 then Bound else In_use) \<lparr>bf_loose = True, bf_random = False\<rparr> [] 511 = Inr (True, 7)"
proof -
  let ?b = "\<lambda>q. if q = 7 then Bound else In_use"
  obtain ok p where r: "z_do_ll_bind ?b \<lparr>bf_loose = True, bf_random = False\<rparr> [] 511 = Inr (ok, p)"
    by (cases "seq_bind ?b 1 511 511 512 511") (auto simp: z_do_ll_bind_def port_group_def simp del: seq_bind.simps)
  have "ok" "?b p = Bound"
    using loose_bind_group[of 511 ?b False "[]" ok p] r by (auto split: if_splits)
  then show ?thesis using r by (auto split: if_splits)
qed

subsection \<open>Binding in a range\<close>

text \<open>The ranges for which the next port to try is in the range, or just behind it.\<close>

definition range_ok :: "zsockaddr \<Rightarrow> bool" where
  "range_ok a \<longleftrightarrow> sr_min_port a \<le> sr_last_port a \<and> sr_last_port a \<le> sr_max_port a + 1 \<and> sr_min_port a \<le> sr_max_port a
     \<and> sr_max_port a < 65535"

lemma range_try_find:
  assumes "\<not> bf_loose flags" "port \<le> mx + 1" "mx < 65535" "mx + 1 - port < n"
  shows "range_try n (\<lambda>port. z_do_ll_bind bind flags (rs port) port) port mx sin =
    Inr (case find (\<lambda>p. bind p = Bound) [port..<mx + 1] of Some p \<Rightarrow> (Some p, p) | None \<Rightarrow> (None, if port \<le> mx then mx else sin))"
  using assms(2,4)
proof (induction n arbitrary: port sin)
  case (Suc n)
  show ?case
  proof (cases "port \<le> mx")
    case True
    then have "[port..<mx + 1] = port # [port + 1..<mx + 1]" "(port + 1) mod 65536 = port + 1" using assms(3) by (auto simp: upt_conv_Cons)
    then show ?thesis using True assms(1) Suc.IH[of "port + 1" port] Suc.prems
      by (auto simp: z_do_ll_bind_def split: option.splits)
  qed (use Suc.prems in simp)
qed simp

lemma range_new_ok:
  assumes "mn \<le> mx" "mx < 65535"
  shows "range_ok (z_sockaddr_inet_range_new_inaddr rand addr mn mx)"
proof (cases "mn = mx")
  case False
  then have lt: "rand mod (mx - mn) < mx - mn" using assms by auto
  moreover have "rand mod (mx - mn) < 65536" "rand mod (mx - mn) + mn < 65536" "rand mod (mx - mn) + mn \<le> Suc mx" using lt assms by linarith+
  ultimately show ?thesis using assms by (simp add: range_ok_def z_sockaddr_inet_range_new_inaddr_def zero_addr_def)
qed (use assms in \<open>simp add: range_ok_def z_sockaddr_inet_range_new_inaddr_def zero_addr_def\<close>)

text \<open>C31: an address with a port range that ends below 65535 binds, without the loose flag, to the first free port of its range after the one it bound
  last, starting over at the lowest, and fails only when none of the range is free; the next search starts behind the
  port that was bound.\<close>

theorem range_bind_cyclic:
  assumes "range_ok a" "\<not> bf_loose flags"
  shows "\<exists>a'. z_sockaddr_inet_range_bind bind flags rs a =
       (case find (\<lambda>p. bind p = Bound) ([sr_last_port a..<sr_max_port a + 1] @ [sr_min_port a..<sr_max_port a + 1]) of
          Some p \<Rightarrow> Inr (IO_NORMAL, a\<lparr>sin_port := p, sr_last_port := p + 1\<rparr>)
        | None \<Rightarrow> Inr (IO_ERROR, a'))
      \<and> range_ok a' \<and> sr_last_port a' = sr_min_port a
      \<and> (\<forall>p. sr_min_port a \<le> p \<longrightarrow> p \<le> sr_max_port a \<longrightarrow> range_ok (a\<lparr>sin_port := p, sr_last_port := p + 1\<rparr>))"
proof -
  let ?l = "sr_last_port a" and ?mn = "sr_min_port a" and ?mx = "sr_max_port a" and ?P = "\<lambda>p. bind p = Bound"
  let ?s1 = "if ?l \<le> ?mx then ?mx else sin_port a"
  let ?a = "a\<lparr>sin_port := ?mx, sr_last_port := ?mn\<rparr>"
  have r: "?mn \<le> ?l" "?l \<le> ?mx + 1" "?mn \<le> ?mx" "?mx < 65535" using assms(1) by (auto simp: range_ok_def)
  have t1: "range_try 65537 (\<lambda>port. z_do_ll_bind bind flags (rs 1 port) port) ?l ?mx (sin_port a) =
      Inr (case find ?P [?l..<?mx + 1] of Some p \<Rightarrow> (Some p, p) | None \<Rightarrow> (None, ?s1))"
    using r by (intro range_try_find[OF assms(2)]) auto
  have t2: "range_try 65537 (\<lambda>port. z_do_ll_bind bind flags (rs 2 port) port) ?mn ?mx ?s1 =
      Inr (case find ?P [?mn..<?mx + 1] of Some p \<Rightarrow> (Some p, p) | None \<Rightarrow> (None, ?mx))"
    using r range_try_find[OF assms(2), of ?mn ?mx 65537 bind "rs 2" ?s1] by simp
  have small: "(p + 1) mod 65536 = p + 1" if "find ?P [k..<?mx + 1] = Some p" for p k
  proof -
    have "p \<in> set [k..<?mx + 1]" using that unfolding find_Some_iff by (metis nth_mem)
    then show ?thesis using r(4) by auto
  qed
  have fa: "find ?P (xs @ ys) = (case find ?P xs of Some p \<Rightarrow> Some p | None \<Rightarrow> find ?P ys)" for xs ys by (induction xs) auto
  have "z_sockaddr_inet_range_bind bind flags rs a =
      (case find ?P ([?l..<?mx + 1] @ [?mn..<?mx + 1]) of
          Some p \<Rightarrow> Inr (IO_NORMAL, a\<lparr>sin_port := p, sr_last_port := p + 1\<rparr>) | None \<Rightarrow> Inr (IO_ERROR, ?a))"
  proof (cases "find ?P [?l..<?mx + 1]")
    case (Some p)
    then show ?thesis unfolding z_sockaddr_inet_range_bind_def Let_def t1 fa using small[OF Some] r(3) by simp
  next
    case None
    show ?thesis
    proof (cases "find ?P [?mn..<?mx + 1]")
      case (Some p)
      then show ?thesis unfolding z_sockaddr_inet_range_bind_def Let_def t1 fa None option.case rbind_simps prod.case t2 using small[OF Some] r(3) by simp
    next
      case N: None
      then show ?thesis unfolding z_sockaddr_inet_range_bind_def Let_def t1 fa None option.case rbind_simps prod.case t2 using r(3) by simp
    qed
  qed
  moreover have "range_ok ?a" "sr_last_port ?a = ?mn" using r by (auto simp: range_ok_def)
  moreover have "range_ok (a\<lparr>sin_port := p, sr_last_port := p + 1\<rparr>)" if "?mn \<le> p" "p \<le> ?mx" for p using that r by (auto simp: range_ok_def)
  ultimately show ?thesis by blast
qed

theorem range_bind_cyclic_witness:
  "z_sockaddr_inet_range_bind (\<lambda>p. if p = 2001 then Bound else In_use) \<lparr>bf_loose = False, bf_random = False\<rparr> (\<lambda>k port. [])
     (z_sockaddr_inet_range_new_inaddr 5 0 2000 2003)
   = Inr (IO_NORMAL, (z_sockaddr_inet_range_new_inaddr 5 0 2000 2003)\<lparr>sin_port := 2001, sr_last_port := 2002\<rparr>)"
proof -
  let ?a = "z_sockaddr_inet_range_new_inaddr 5 0 2000 2003" and ?P = "\<lambda>p :: nat. (if p = 2001 then Bound else In_use) = Bound"
  have ok: "range_ok ?a" by (intro range_new_ok) auto
  have f: "sr_last_port ?a = 2002" "sr_min_port ?a = 2000" "sr_max_port ?a = 2003" by (simp_all add: z_sockaddr_inet_range_new_inaddr_def zero_addr_def)
  have "find ?P ([sr_last_port ?a..<sr_max_port ?a + 1] @ [sr_min_port ?a..<sr_max_port ?a + 1]) = Some 2001"
    unfolding f by (simp add: upt_rec)
  then show ?thesis using range_bind_cyclic[OF ok, of "\<lparr>bf_loose = False, bf_random = False\<rparr>" "\<lambda>p. if p = 2001 then Bound else In_use" "\<lambda>k port. []"] by auto
qed

text \<open>A range that ends at 65535 is left through the wrap-around of the counter: when no port up to 65535 is free, port 0 is bound.\<close>

theorem range_bind_leaves_range:
  assumes "sr_min_port a \<le> sr_last_port a" "sr_last_port a \<le> 65535" "sr_max_port a = 65535" "\<not> bf_loose flags"
    "\<forall>p \<in> {sr_last_port a..65535}. bind p \<noteq> Bound" "bind 0 = Bound"
  shows "z_sockaddr_inet_range_bind bind flags rs a = Inr (IO_NORMAL, a\<lparr>sin_port := 0, sr_last_port := 1\<rparr>)"
proof -
  have run: "range_try n (\<lambda>port. z_do_ll_bind bind flags (rs 1 port) port) port 65535 sin = Inr (Some 0, 0)"
    if "k + port = 65535" "sr_last_port a \<le> port" "k + 1 < n" for k n port sin
    using that
  proof (induction k arbitrary: n port sin)
    case 0
    then obtain n' where "n = Suc (Suc n')" by (metis add_0 add.commute less_imp_Suc_add plus_1_eq_Suc)
    then show ?case using 0 assms(4-6) by (simp add: z_do_ll_bind_def)
  next
    case (Suc k)
    then have "bind port \<noteq> Bound" "port \<le> 65535" "(port + 1) mod 65536 = port + 1" using assms(5) by auto
    then show ?case using Suc.prems Suc.IH[of "port + 1" "n - 1" port] assms(4) by (cases n) (auto simp: z_do_ll_bind_def)
  qed
  have "range_try 65537 (\<lambda>port. z_do_ll_bind bind flags (rs 1 port) port) (sr_last_port a) 65535 (sin_port a) = Inr (Some 0, 0)"
    using run[of "65535 - sr_last_port a" "sr_last_port a" 65537] assms(2) by simp
  then show ?thesis using assms(1-3) by (simp add: z_sockaddr_inet_range_bind_def Let_def del: range_try.simps)
qed

subsection \<open>Equality\<close>

lemma equal_total: "\<exists>b. z_sockaddr_equal a c = Inr b"
  by (cases "sa_funcs a"; cases "sa_funcs c")
    (auto simp: z_sockaddr_equal_def sa_family_def z_sockaddr_inet_equal_def z_sockaddr_inet6_equal_def z_sockaddr_unix_equal_def)

text \<open>Comparing addresses of the same family never aborts and is an equivalence; a clone without wildcard equals its original.\<close>

theorem sockaddr_equal_equivalence:
  "(\<exists>b. z_sockaddr_equal a c = Inr b) \<and> z_sockaddr_equal a a = Inr True \<and> z_sockaddr_equal a c = z_sockaddr_equal c a
    \<and> (z_sockaddr_equal a c = Inr True \<longrightarrow> z_sockaddr_equal c d = Inr True \<longrightarrow> z_sockaddr_equal a d = Inr True)
    \<and> z_sockaddr_equal (z_sockaddr_clone rand a False) a = Inr True"
  using equal_total[of a c]
  by (cases "sa_funcs a"; cases "sa_funcs c"; cases "sa_funcs d")
    (auto simp: z_sockaddr_equal_def sa_family_def z_sockaddr_inet_equal_def z_sockaddr_inet6_equal_def z_sockaddr_unix_equal_def
      z_sockaddr_clone_def z_sockaddr_inet_clone_def z_sockaddr_inet_range_clone_def z_sockaddr_inet6_clone_def z_sockaddr_unix_clone_def Let_def)

end
