(* ===== verification/Streamblob.thy ===== *)
theory Streamblob
  imports Blob_Properties
begin

section \<open>Streams over blobs\<close>

text \<open>
  \<open>src/streamblob.c\<close>: a stream that reads and writes a blob at its own position. The operations work on the stream and the
  world of the blobs (theory \<open>Blob\<close>); a write for which the blob has to wait for space is parked as the blob operation is.
  What two streams over one blob write and read is then what the blob holds.
\<close>

record zstream_blob =
  zb_blob :: nat
  zb_pos :: int
  zb_timeout :: int
  zb_want_read :: bool
  zb_want_write :: bool
  zb_cond_in :: bool
  zb_cond_out :: bool

definition z_stream_blob_new :: "bworld \<Rightarrow> nat \<Rightarrow> (zstream_blob \<times> bworld) result" where
  "z_stream_blob_new w b =
     rbind (z_blob_ref w b) (\<lambda>w1. Inr (\<lparr>zb_blob = b, zb_pos = 0, zb_timeout = -2, zb_want_read = False, zb_want_write = False,
       zb_cond_in = False, zb_cond_out = False\<rparr>, w1))"

definition z_stream_blob_free_method :: "zstream_blob \<Rightarrow> bworld \<Rightarrow> bworld result" where
  "z_stream_blob_free_method self w = z_blob_unref w (zb_blob self)"

text \<open>The former contents of the caller's buffer are \<open>buf\<close>; the results: status, \<open>*bytes_read\<close> and the buffer.\<close>

definition z_stream_blob_read_method :: "zstream_blob \<Rightarrow> bworld \<Rightarrow> bytes \<Rightarrow> (zstream_blob \<times> bworld \<times> io_status \<times> nat \<times> bytes) result" where
  "z_stream_blob_read_method self w buf =
     (if length buf = 0 then Inr (self, w, IO_NORMAL, 0, buf)
      else rbind (get_bl w (zb_blob self)) (\<lambda>s.
        if zb_pos self \<ge> bl_size s then Inr (self, w, IO_EOF, 0, buf)
        else rbind (z_blob_get_copy w (zb_blob self) (zb_pos self) buf (zb_timeout self)) (\<lambda>(w1, n, buf1).
          if n = 0 then Inr (self, w1, IO_ERROR, 0, buf1)
          else Inr (self\<lparr>zb_pos := zb_pos self + int n\<rparr>, w1, IO_NORMAL, n, buf1))))"

definition z_stream_blob_write_method :: "zstream_blob \<Rightarrow> bworld \<Rightarrow> bytes \<Rightarrow> (zstream_blob \<times> bworld \<times> (io_status \<times> nat) outcome) result" where
  "z_stream_blob_write_method self w buf =
     (if length buf = 0 then Inr (self, w, Done (IO_NORMAL, 0))
      else rbind (z_blob_add_copy w (zb_blob self) (zb_pos self) buf (zb_timeout self)) (\<lambda>(w1, r).
        case r of
          Parked m \<Rightarrow> Inr (self, w1, Parked m)
        | Done n \<Rightarrow> if n = 0 then Inr (self, w1, Done (IO_ERROR, 0))
                    else Inr (self\<lparr>zb_pos := zb_pos self + int n\<rparr>, w1, Done (IO_NORMAL, n))))"

text \<open>\<open>vlen\<close> is the size of the value, 4 for a \<open>gboolean\<close>; the result is the value to return, if any, and success.\<close>

datatype blob_ctrl = Set_nonblock bool | Get_nonblock

definition z_stream_blob_ctrl_method :: "zstream_blob \<Rightarrow> blob_ctrl \<Rightarrow> nat \<Rightarrow> zstream_blob \<times> bool option \<times> bool" where
  "z_stream_blob_ctrl_method self function vlen =
     (if vlen \<noteq> 4 then (self, None, False)
      else case function of
          Set_nonblock v \<Rightarrow> (self\<lparr>zb_timeout := if v then 0 else -1\<rparr>, None, True)
        | Get_nonblock \<Rightarrow> (self, Some (zb_timeout self = 0), True))"

definition z_stream_blob_watch_prepare :: "zstream_blob \<Rightarrow> zstream_blob \<times> bool" where
  "z_stream_blob_watch_prepare self =
     (self\<lparr>zb_cond_in := zb_want_read self, zb_cond_out := zb_want_write self\<rparr>, zb_want_read self \<or> zb_want_write self)"

definition z_stream_blob_watch_check :: "zstream_blob \<Rightarrow> zstream_blob \<times> bool" where
  "z_stream_blob_watch_check self = z_stream_blob_watch_prepare self"

datatype dispatched = Read_called | Write_called | No_read_callback | No_write_callback

text \<open>The callbacks are given by what they return, \<open>None\<close> when not set. The result: what was done, and \<open>rc\<close>.\<close>

definition z_stream_blob_watch_dispatch :: "zstream_blob \<Rightarrow> bool option \<Rightarrow> bool option \<Rightarrow> dispatched list \<times> bool" where
  "z_stream_blob_watch_dispatch self read_cb write_cb =
     (let (ev, rc) = (if zb_want_read self \<and> zb_cond_in self
                      then case read_cb of Some r \<Rightarrow> ([Read_called], r) | None \<Rightarrow> ([No_read_callback], True)
                      else ([], True))
      in if zb_want_write self \<and> zb_cond_out self \<and> rc
         then case write_cb of Some r \<Rightarrow> (ev @ [Write_called], rc \<and> r) | None \<Rightarrow> (ev @ [No_write_callback], rc)
         else (ev, rc))"

subsection \<open>Sequences of reads and writes\<close>

fun blob_writes :: "zstream_blob \<Rightarrow> bworld \<Rightarrow> bytes list \<Rightarrow> (zstream_blob \<times> bworld \<times> (io_status \<times> nat) outcome list) result" where
  "blob_writes self w [] = Inr (self, w, [])"
| "blob_writes self w (d # ds) =
     rbind (z_stream_blob_write_method self w d) (\<lambda>(self1, w1, r).
       case r of
         Parked m \<Rightarrow> Inr (self1, w1, [Parked m])
       | Done x \<Rightarrow> rbind (blob_writes self1 w1 ds) (\<lambda>(self2, w2, rs). Inr (self2, w2, Done x # rs)))"

fun blob_reads :: "zstream_blob \<Rightarrow> bworld \<Rightarrow> nat list \<Rightarrow> (zstream_blob \<times> bworld \<times> (io_status \<times> bytes) list) result" where
  "blob_reads self w [] = Inr (self, w, [])"
| "blob_reads self w (n # ns) =
     rbind (z_stream_blob_read_method self w (zeros n)) (\<lambda>(self1, w1, st, k, buf).
     rbind (blob_reads self1 w1 ns) (\<lambda>(self2, w2, rs). Inr (self2, w2, (st, take k buf) # rs)))"

definition blob_ready :: "bworld \<Rightarrow> nat \<Rightarrow> bytes \<Rightarrow> bool" where
  "blob_ready w b c \<longleftrightarrow> (\<exists>s. get_bl w b = Inr s \<and> blob_inv s \<and> \<not> bl_locked s \<and> bw_io w = [] \<and> contents s = c)"

lemma ftruncate_ftruncate: "length c \<le> m \<Longrightarrow> m \<le> n \<Longrightarrow> ftruncate n (ftruncate m c) = ftruncate n c"
  by (simp add: ftruncate_def zeros_def flip: replicate_add)

lemma ftruncate_overwrite:
  assumes "pos + length d \<le> length f" "length f \<le> n"
  shows "ftruncate n (overwrite pos d f) = overwrite pos d (ftruncate n f)"
proof -
  have l: "length (overwrite pos d f) = length f" using assms(1) by (simp add: overwrite_def)
  have "ftruncate n g = g @ zeros (n - length g)" if "length g \<le> n" for g using that by (simp add: ftruncate_def)
  then show ?thesis using assms l by (simp add: overwrite_def)
qed

lemma overwrite_overwrite:
  assumes "pos + length d + length e \<le> length f"
  shows "overwrite (pos + length d) e (overwrite pos d f) = overwrite pos (d @ e) f"
  using assms by (simp add: overwrite_def ac_simps)

lemma spliced_Nil: "pos \<le> length c \<Longrightarrow> spliced pos [] c = c"
  by (simp add: spliced_def ftruncate_def overwrite_def max_def)

lemma spliced_spliced:
  "spliced (pos + length d) e (spliced pos d c) = spliced pos (d @ e) c"
proof -
  let ?k = "max (length c) (pos + length d)" and ?n = "max (length c) (pos + length d + length e)"
  have n: "max ?k (pos + length d + length e) = ?n" by (simp add: max_def)
  have "spliced (pos + length d) e (spliced pos d c) = overwrite (pos + length d) e (ftruncate ?n (spliced pos d c))"
    unfolding spliced_def[of "pos + length d" e] length_spliced n ..
  also have "ftruncate ?n (spliced pos d c) = overwrite pos d (ftruncate ?n (ftruncate ?k c))"
    unfolding spliced_def by (rule ftruncate_overwrite) auto
  also have "ftruncate ?n (ftruncate ?k c) = ftruncate ?n c" by (rule ftruncate_ftruncate) auto
  also have "overwrite (pos + length d) e (overwrite pos d (ftruncate ?n c)) = overwrite pos (d @ e) (ftruncate ?n c)"
    by (rule overwrite_overwrite) simp
  finally show ?thesis by (simp add: spliced_def add.assoc)
qed

lemma blob_write_step:
  assumes "blob_ready w (zb_blob self) c" "0 \<le> zb_pos self" "zb_pos self + int (length d) < 2 ^ 62"
  shows "(\<exists>w1. z_stream_blob_write_method self w d = Inr (self\<lparr>zb_pos := zb_pos self + int (length d)\<rparr>, w1, Done (IO_NORMAL, length d))
       \<and> blob_ready w1 (zb_blob self) (if d = [] then c else spliced (nat (zb_pos self)) d c))
    \<or> (\<exists>w1 m s. z_stream_blob_write_method self w d = Inr (self, w1, Parked m) \<and> d \<noteq> []
       \<and> get_bl w1 (zb_blob self) = Inr s \<and> contents s = c)"
proof (cases "d = []")
  case True
  then show ?thesis using assms(1) by (simp add: z_stream_blob_write_method_def)
next
  case False
  obtain s where s: "get_bl w (zb_blob self) = Inr s" "blob_inv s" "\<not> bl_locked s" "bw_io w = []" "contents s = c"
    using assms(1) by (auto simp: blob_ready_def)
  obtain w' r s' where a: "z_blob_add_copy w (zb_blob self) (zb_pos self) d (zb_timeout self) = Inr (w', r)"
    "get_bl w' (zb_blob self) = Inr s'" "blob_inv s'" "others_same (zb_blob self) w w'"
    "r = Done (length d) \<and> \<not> bl_locked s' \<and> contents s' = spliced (nat (zb_pos self)) d (contents s)
      \<or> (\<exists>m. r = Parked m) \<and> bl_locked s' \<and> contents s' = contents s"
    using add_copy_contents[OF s(1,2,4,3) assms(2) False assms(3), of "zb_timeout self"] by blast
  have "bw_io w' = []" using a(4) s(4) by (simp add: others_same_def)
  then show ?thesis using a False s(5) by (auto simp: z_stream_blob_write_method_def blob_ready_def)
qed

lemma blob_read_step:
  assumes "blob_ready w (zb_blob self) c" "0 \<le> zb_pos self" "0 < n" "n < 2 ^ 62"
  shows "\<exists>self1 w1 st k buf. z_stream_blob_read_method self w (zeros n) = Inr (self1, w1, st, k, buf) \<and> blob_ready w1 (zb_blob self) c
    \<and> self1 = self\<lparr>zb_pos := zb_pos self + int k\<rparr> \<and> take k buf = take n (drop (nat (zb_pos self)) c) \<and> k = length (take n (drop (nat (zb_pos self)) c))
    \<and> st = (if zb_pos self < int (length c) then IO_NORMAL else IO_EOF)"
proof -
  obtain s where s: "get_bl w (zb_blob self) = Inr s" "blob_inv s" "\<not> bl_locked s" "bw_io w = []" "contents s = c"
    using assms(1) by (auto simp: blob_ready_def)
  have len: "length c = nat (bl_size s)" "0 \<le> bl_size s" using contents_length[OF s(2)] s(2,5) by (auto simp: blob_inv_def)
  show ?thesis
  proof (cases "zb_pos self < bl_size s")
    case False
    then show ?thesis using s assms len
      by (auto simp: z_stream_blob_read_method_def blob_ready_def)
  next
    case True
    have lim: "length (zeros n) < 2 ^ 62" using assms(4) by simp
    obtain w' s' k where g: "z_blob_get_copy w (zb_blob self) (zb_pos self) (zeros n) (zb_timeout self)
        = Inr (w', k, overwrite 0 (chunk (nat (zb_pos self)) k (contents s)) (zeros n))"
      "k = min (length (zeros n)) (length (contents s) - nat (zb_pos self))" "get_bl w' (zb_blob self) = Inr s'" "blob_inv s'"
      "contents s' = contents s" "\<not> bl_locked s'" "others_same (zb_blob self) w w'"
      using get_copy_contents[OF s(1,2,4,3) assms(2) lim, of "zb_timeout self"] by metis
    have io: "bw_io w' = []" using g(7) s(4) by (simp add: others_same_def)
    have k: "k = min n (length c - nat (zb_pos self))" using g(2) s(5) by simp
    have k0: "0 < k" using k True assms(2,3) len by (simp add: nat_less_iff)
    let ?ck = "chunk (nat (zb_pos self)) k c"
    have ck: "?ck = take n (drop (nat (zb_pos self)) c)" "length ?ck = k" using k by (auto simp: chunk_def min_def nat_le_iff)
    have "take k (overwrite 0 ?ck (zeros n)) = ?ck" using ck(2) k(1) by (simp add: overwrite_def)
    moreover have "z_stream_blob_read_method self w (zeros n) =
        Inr (self\<lparr>zb_pos := zb_pos self + int k\<rparr>, w', IO_NORMAL, k, overwrite 0 ?ck (zeros n))"
      using g(1) s(1,5) True k0 assms(3) by (simp add: z_stream_blob_read_method_def)
    moreover have "blob_ready w' (zb_blob self) c" using g(3-6) io s(5) by (auto simp: blob_ready_def)
    moreover have "zb_pos self < int (length c)" using True len by simp
    ultimately show ?thesis using ck by simp
  qed
qed

lemma blob_writes_contents:
  assumes "blob_ready w (zb_blob self) c" "0 \<le> zb_pos self" "zb_pos self + int (length (concat ds)) < 2 ^ 62" "nat (zb_pos self) \<le> length c"
  shows "\<exists>self' w' rs k s. blob_writes self w ds = Inr (self', w', rs) \<and> k \<le> length ds
    \<and> self' = self\<lparr>zb_pos := zb_pos self + int (length (concat (take k ds)))\<rparr>
    \<and> get_bl w' (zb_blob self) = Inr s \<and> contents s = spliced (nat (zb_pos self)) (concat (take k ds)) c
    \<and> (if k = length ds then rs = map (\<lambda>d. Done (IO_NORMAL, length d)) ds \<and> blob_ready w' (zb_blob self) (contents s)
       else \<exists>m. rs = map (\<lambda>d. Done (IO_NORMAL, length d)) (take k ds) @ [Parked m])"
  using assms
proof (induction ds arbitrary: self w c)
  case Nil
  then show ?case by (auto simp: blob_ready_def spliced_Nil)
next
  case (Cons d ds)
  let ?b = "zb_blob self" and ?p = "zb_pos self" and ?c1 = "spliced (nat (zb_pos self)) d c" and ?self1 = "self\<lparr>zb_pos := zb_pos self + int (length d)\<rparr>"
  have c1: "(if d = [] then c else ?c1) = ?c1" using spliced_Nil[OF Cons.prems(4)] by simp
  have "?p + int (length d) < 2 ^ 62" using Cons.prems(3) by simp
  from blob_write_step[OF Cons.prems(1,2) this] consider
      (full) w1 where "z_stream_blob_write_method self w d = Inr (?self1, w1, Done (IO_NORMAL, length d))" "blob_ready w1 ?b ?c1"
    | (parked) w1 m s where "z_stream_blob_write_method self w d = Inr (self, w1, Parked m)" "get_bl w1 ?b = Inr s" "contents s = c"
    unfolding c1 by blast
  then show ?case
  proof cases
    case full
    have np: "nat (zb_pos ?self1) = nat ?p + length d" using Cons.prems(2) by (simp add: nat_add_distrib)
    have pr: "blob_ready w1 (zb_blob ?self1) ?c1" "0 \<le> zb_pos ?self1" "zb_pos ?self1 + int (length (concat ds)) < 2 ^ 62" "nat (zb_pos ?self1) \<le> length ?c1"
      using full(2) Cons.prems(2-4) np by auto
    have b1: "zb_blob ?self1 = ?b" by simp
    obtain self' w' rs k s where r: "blob_writes ?self1 w1 ds = Inr (self', w', rs)" "k \<le> length ds"
      "self' = ?self1\<lparr>zb_pos := zb_pos ?self1 + int (length (concat (take k ds)))\<rparr>"
      "get_bl w' ?b = Inr s" "contents s = spliced (nat (zb_pos ?self1)) (concat (take k ds)) ?c1"
      "if k = length ds then rs = map (\<lambda>d. Done (IO_NORMAL, length d)) ds \<and> blob_ready w' ?b (contents s)
       else \<exists>m. rs = map (\<lambda>d. Done (IO_NORMAL, length d)) (take k ds) @ [Parked m]"
      using Cons.IH[OF pr] unfolding b1 by blast
    have "contents s = spliced (nat ?p) (concat (take (Suc k) (d # ds))) c" using r(5) spliced_spliced[of "nat ?p" d _ c] np by simp
    then show ?thesis using full(1) r(1-4,6)
      by (intro exI[of _ self'] exI[of _ w'] exI[of _ "Done (IO_NORMAL, length d) # rs"] exI[of _ "Suc k"] exI[of _ s]) (auto split: if_splits)
  next
    case parked
    then show ?thesis
      by (intro exI[of _ self] exI[of _ w1] exI[of _ "[Parked m]"] exI[of _ 0] exI[of _ s]) (simp add: spliced_Nil[OF Cons.prems(4)])
  qed
qed

lemma blob_reads_contents:
  assumes "blob_ready w (zb_blob self) c" "0 \<le> zb_pos self" "\<forall>n \<in> set ns. 0 < n \<and> n < 2 ^ 62"
  shows "\<exists>self' w' rs. blob_reads self w ns = Inr (self', w', rs) \<and> blob_ready w' (zb_blob self) c
    \<and> concat (map snd rs) = take (sum_list ns) (drop (nat (zb_pos self)) c)
    \<and> (\<forall>i < length ns. fst (rs ! i) = (if nat (zb_pos self) + sum_list (take i ns) < length c then IO_NORMAL else IO_EOF)) \<and> length rs = length ns"
  using assms
proof (induction ns arbitrary: self w)
  case (Cons n ns)
  let ?p = "nat (zb_pos self)"
  obtain self1 w1 st k buf where r: "z_stream_blob_read_method self w (zeros n) = Inr (self1, w1, st, k, buf)" "blob_ready w1 (zb_blob self) c"
    "self1 = self\<lparr>zb_pos := zb_pos self + int k\<rparr>" "take k buf = take n (drop ?p c)" "k = length (take n (drop ?p c))"
    "st = (if zb_pos self < int (length c) then IO_NORMAL else IO_EOF)"
    using blob_read_step[OF Cons.prems(1,2), of n] Cons.prems(3) by auto
  have p1: "nat (zb_pos self1) = ?p + k" using r(3) Cons.prems(2) by (simp add: nat_add_distrib)
  obtain self' w' rs where rs: "blob_reads self1 w1 ns = Inr (self', w', rs)" "blob_ready w' (zb_blob self) c"
    "concat (map snd rs) = take (sum_list ns) (drop (?p + k) c)" "length rs = length ns"
    "\<forall>i < length ns. fst (rs ! i) = (if ?p + k + sum_list (take i ns) < length c then IO_NORMAL else IO_EOF)"
    using Cons.IH[of w1 self1] r(2,3) Cons.prems(2,3) p1 by auto
  have "take n (drop ?p c) @ take (sum_list ns) (drop (?p + k) c) = take (n + sum_list ns) (drop ?p c)"
    using r(5) by (cases "n \<le> length c - ?p") (auto simp: take_add add.commute min_def)
  moreover have "fst (((st, take k buf) # rs) ! i) = (if ?p + sum_list (take i (n # ns)) < length c then IO_NORMAL else IO_EOF)"
    if i: "i < length (n # ns)" for i
  proof (cases i)
    case 0
    then show ?thesis using r(6) Cons.prems(2) by (auto simp: nat_less_iff)
  next
    case (Suc j)
    have "(?p + k + sum_list (take j ns) < length c) = (?p + n + sum_list (take j ns) < length c)" using r(5) by (auto simp: min_def)
    then show ?thesis using Suc i rs(5) by (auto simp: add.assoc)
  qed
  ultimately show ?case using r(1,4) rs(1,2,3,4) by (intro exI[of _ self'] exI[of _ w'] exI[of _ "(st, take k buf) # rs"]) simp
qed simp



end
