(* ===== verification/Process.thy ===== *)
theory Process
  imports Misc
begin

section \<open>Process supervision\<close>

text \<open>
  \<open>src/process.c\<close>: the supervisor that starts the daemon, waits for it, and starts it again when it failed, the results that
  pass through the pipes at startup, the pid file and the options. What the operating system answers comes from
  the arguments: a \<open>run_env\<close> for each turn of the supervisor's loop, and lists of seconds for the waiting loops. How the
  processes come to be, and how the daemon gives up root, is in \<open>Process_Start\<close>.
\<close>

subsection \<open>Options\<close>

datatype process_mode = Z_PM_FOREGROUND | Z_PM_BACKGROUND | Z_PM_SAFE_BACKGROUND

record process_opts =
  po_mode :: process_mode
  po_name :: string
  po_user :: "string option"
  po_group :: "string option"
  po_chroot_dir :: "string option"
  po_pidfile :: "string option"
  po_pidfile_dir :: "string option"
  po_cwd :: "string option"
  po_caps :: "string option"
  po_check_fn :: bool     \<comment> \<open>whether a check function is set\<close>
  po_check_period :: int
  po_check_saved :: int   \<comment> \<open>\<open>old_value\<close> of \<open>z_process_set_check_enable\<close>\<close>
  po_restart_max :: int
  po_restart_interval :: int
  po_notify_interval :: int
  po_pid_removed :: bool

text \<open>The setters of names keep the first value.\<close>

definition set_first :: "string option \<Rightarrow> string option \<Rightarrow> string option" where
  "set_first old new = (case old of None \<Rightarrow> new | Some v \<Rightarrow> Some v)"

definition z_process_set_mode :: "process_mode \<Rightarrow> process_opts \<Rightarrow> process_opts" where
  "z_process_set_mode mode po = po\<lparr>po_mode := mode\<rparr>"

definition z_process_set_user :: "string option \<Rightarrow> process_opts \<Rightarrow> process_opts" where
  "z_process_set_user user po = po\<lparr>po_user := set_first (po_user po) user\<rparr>"

definition z_process_set_group :: "string option \<Rightarrow> process_opts \<Rightarrow> process_opts" where
  "z_process_set_group grp po = po\<lparr>po_group := set_first (po_group po) grp\<rparr>"

definition z_process_set_chroot :: "string option \<Rightarrow> process_opts \<Rightarrow> process_opts" where
  "z_process_set_chroot chroot_dir po = po\<lparr>po_chroot_dir := set_first (po_chroot_dir po) chroot_dir\<rparr>"

definition z_process_set_pidfile :: "string option \<Rightarrow> process_opts \<Rightarrow> process_opts" where
  "z_process_set_pidfile pidfile po = po\<lparr>po_pidfile := set_first (po_pidfile po) pidfile\<rparr>"

definition z_process_set_pidfile_dir :: "string option \<Rightarrow> process_opts \<Rightarrow> process_opts" where
  "z_process_set_pidfile_dir dir po = po\<lparr>po_pidfile_dir := set_first (po_pidfile_dir po) dir\<rparr>"

definition z_process_set_working_dir :: "string option \<Rightarrow> process_opts \<Rightarrow> process_opts" where
  "z_process_set_working_dir cwd po = po\<lparr>po_cwd := set_first (po_cwd po) cwd\<rparr>"

definition z_process_set_caps :: "string option \<Rightarrow> process_opts \<Rightarrow> process_opts" where
  "z_process_set_caps caps po = po\<lparr>po_caps := set_first (po_caps po) caps\<rparr>"

definition z_process_set_check :: "int \<Rightarrow> bool \<Rightarrow> process_opts \<Rightarrow> process_opts" where
  "z_process_set_check check_period check_fn po = po\<lparr>po_check_period := check_period, po_check_fn := check_fn\<rparr>"

definition z_process_set_check_enable :: "bool \<Rightarrow> process_opts \<Rightarrow> process_opts" where
  "z_process_set_check_enable new_state po =
     (if po_check_period po \<ge> 0 \<and> new_state then po
      else if po_check_period po < 0 \<and> \<not> new_state then po
      else po\<lparr>po_check_saved := po_check_period po, po_check_period := po_check_saved po\<rparr>)"

definition z_process_get_check_enable :: "process_opts \<Rightarrow> bool" where
  "z_process_get_check_enable po \<longleftrightarrow> po_check_period po \<ge> 0"

fun z_process_process_mode_arg :: "string \<Rightarrow> process_opts \<Rightarrow> process_opts option" where
  "z_process_process_mode_arg val po =
     (if val = ''foreground'' then Some (po\<lparr>po_mode := Z_PM_FOREGROUND\<rparr>)
      else if val = ''background'' then Some (po\<lparr>po_mode := Z_PM_BACKGROUND\<rparr>)
      else if val = ''safe-background'' then Some (po\<lparr>po_mode := Z_PM_SAFE_BACKGROUND\<rparr>)
      else None)"

subsection \<open>The pid file\<close>

text \<open>The directory \<open>ZORPLIB_PIDFILE_DIR\<close> is set by the build. A name that is built in the buffer is cut to its size.\<close>

definition z_process_format_pidfile_name :: "string \<Rightarrow> process_opts \<Rightarrow> nat \<Rightarrow> string" where
  "z_process_format_pidfile_name default_dir po buflen =
     (let dir = (case po_pidfile_dir po of Some d \<Rightarrow> d | None \<Rightarrow> default_dir)
      in case po_pidfile po of
           None \<Rightarrow> take (buflen - 1) (dir @ ''/'' @ po_name po @ ''.pid'')
         | Some f \<Rightarrow> if f \<noteq> [] \<and> hd f = CHR ''/'' then f else take (buflen - 1) (dir @ ''/'' @ f))"

text \<open>Files by name; the content of a pid file is the number in it. \<open>writable\<close>: whether \<open>fopen\<close> and \<open>unlink\<close> succeed.\<close>

definition z_process_write_pidfile :: "string \<Rightarrow> (string \<Rightarrow> bool) \<Rightarrow> int \<Rightarrow> process_opts \<Rightarrow> (string \<rightharpoonup> int) \<Rightarrow> process_opts \<times> (string \<rightharpoonup> int)" where
  "z_process_write_pidfile default_dir writable pid po files =
     (let f = z_process_format_pidfile_name default_dir po 256
      in (po\<lparr>po_pid_removed := False\<rparr>, if writable f then files(f \<mapsto> pid) else files))"

definition z_process_remove_pidfile :: "string \<Rightarrow> (string \<Rightarrow> bool) \<Rightarrow> int \<Rightarrow> process_opts \<Rightarrow> (string \<rightharpoonup> int) \<Rightarrow> process_opts \<times> (string \<rightharpoonup> int)" where
  "z_process_remove_pidfile default_dir writable pid po files =
     (if po_pid_removed po then (po, files)
      else let f = z_process_format_pidfile_name default_dir po 256
        in case files f of
             None \<Rightarrow> (po, files)
           | Some fpid \<Rightarrow> if fpid = pid \<and> writable f then (po\<lparr>po_pid_removed := True\<rparr>, files(f := None)) else (po, files))"

subsection \<open>Results through pipes\<close>

text \<open>
  \<open>z_process_send_result\<close> formats a \<open>guint\<close> with \<open>%d\<close> into ten bytes and writes as many bytes as the whole format has, which
  may be more than there are. The descriptor is closed, so that the next call finds it closed and does nothing.
\<close>

definition sent_number :: "nat \<Rightarrow> string" where
  "sent_number n = (let i = n mod 2 ^ 32 in if i < 2 ^ 31 then decimal i else CHR ''-'' # decimal (2 ^ 32 - i))"

definition z_process_send_result :: "bool \<Rightarrow> nat \<Rightarrow> (bool \<times> string) result" where
  "z_process_send_result is_open ret_num =
     (if \<not> is_open then Inr (False, [])
      else let t = sent_number ret_num @ [CHR 0x0A]
        in if length t > 10 then Inl Bad_access
           else Inr (False, if length t = 10 then take 9 t @ [CHR 0x00] else t))"

text \<open>
  \<open>z_process_recv_result\<close>: at most six bytes of what is in the pipe go to an array of six; \<open>atoi\<close> leaves the array when
  nothing in it ends the number.
\<close>

definition number_end :: "string \<Rightarrow> string" where
  "number_end s = (let t = dropWhile isspace s
     in dropWhile isdigit (if t \<noteq> [] \<and> (hd t = CHR ''-'' \<or> hd t = CHR ''+'') then tl t else t))"

definition z_process_recv_result :: "bool \<Rightarrow> string \<Rightarrow> (bool \<times> int) result" where
  "z_process_recv_result is_open pipe =
     (if \<not> is_open then Inr (False, 1)
      else let ret_buf = take 6 pipe
        in if ret_buf = [] then Inr (False, 1)
           else if length ret_buf = 6 \<and> number_end ret_buf = [] then Inl Bad_access
           else Inr (False, fst (strtol ret_buf)))"

text \<open>
  The exit code of the startup process when the daemon reports \<open>ret_num\<close> at its first start: from the daemon to the
  supervisor, from there to the startup process (\<open>z_process_startup_failed\<close>, the first turn of the supervisor,
  \<open>z_process_perform_startup\<close>).
\<close>

definition z_process_perform_startup :: "string \<Rightarrow> int result" where
  "z_process_perform_startup pipe = rbind (z_process_recv_result True pipe) (\<lambda>(fd, rc). Inr rc)"

definition startup_code :: "nat \<Rightarrow> int result" where
  "startup_code ret_num =
     rbind (z_process_send_result True ret_num) (\<lambda>(fd, init_pipe).
     rbind (z_process_recv_result True init_pipe) (\<lambda>(fd, rc).
     rbind (z_process_send_result True (nat (rc mod 2 ^ 32))) (\<lambda>(fd, startup_pipe).
       z_process_perform_startup startup_pipe)))"

subsection \<open>The supervisor\<close>

definition PROC_RESTART_MAX :: nat where "PROC_RESTART_MAX = 30"

text \<open>The limits at the start of \<open>z_process_perform_supervise\<close>.\<close>

definition supervise_limits :: "process_opts \<Rightarrow> process_opts" where
  "supervise_limits po =
     (let po1 = (if po_restart_max po > int PROC_RESTART_MAX then po\<lparr>po_restart_max := int PROC_RESTART_MAX\<rparr> else po);
          po2 = (if po_restart_max po1 < 2 then po1\<lparr>po_restart_max := 5\<rparr> else po1);
          restart_interval_min = max 5 (3 * po_restart_max po2)
      in if po_restart_interval po2 < restart_interval_min then po2\<lparr>po_restart_interval := 5\<rparr> else po2)"

datatype child_end = Exited int | Signalled int

text \<open>
  The loop that waits for the daemon with the check function: each second has the status of the daemon when it ended, and what the
  check function would say. \<open>None\<close> when the seconds are over and it still waits; a deadlock is \<open>Some None\<close>.
\<close>

fun check_wait :: "int \<Rightarrow> int \<Rightarrow> (child_end option \<times> bool) list \<Rightarrow> child_end option option" where
  "check_wait period i [] = None"
| "check_wait period i ((exited, alive) # secs) =
     (case exited of
        Some e \<Rightarrow> Some (Some e)
      | None \<Rightarrow>
          if i \<ge> period
          then if \<not> alive then Some None else check_wait period 1 secs
          else check_wait period (i + 1) secs)"

text \<open>The signals that a daemon gets that does not end by itself, by the seconds in which it is still there.\<close>

fun kill_wait :: "int \<Rightarrow> nat \<Rightarrow> bool list \<Rightarrow> int list" where
  "kill_wait sig j (True # secs) =
     (if j < 6 then (if j > 3 then [if j > 4 then 9 else sig] else []) @ kill_wait sig (j + 1) secs else [])"
| "kill_wait sig j _ = []"

record run_env =
  re_now :: int              \<comment> \<open>\<open>time (0)\<close> at the start of the turn\<close>
  re_start :: int            \<comment> \<open>\<open>time (NULL)\<close> that is stored\<close>
  re_fork_ok :: bool         \<comment> \<open>\<open>pipe\<close> and \<open>fork\<close> succeeded\<close>
  re_init_rc :: int          \<comment> \<open>\<open>z_process_recv_result\<close>\<close>
  re_secs :: "(child_end option \<times> bool) list"
  re_end :: child_end        \<comment> \<open>what \<open>waitpid\<close> returns without a check function\<close>
  re_alive :: "bool list"    \<comment> \<open>whether the daemon is still there, in the seconds in which it should end\<close>
  re_notify :: bool          \<comment> \<open>the notification program can be run by the supervisor\<close>
  re_notify_now :: int
  re_notify_fork :: bool     \<comment> \<open>both \<open>fork\<close> calls for the notification succeeded\<close>
  re_exec_ok :: bool         \<comment> \<open>\<open>execlp\<close> succeeded in the second child\<close>

definition daemon_end :: "process_opts \<Rightarrow> run_env \<Rightarrow> child_end option option" where
  "daemon_end po e = (if po_check_fn po \<and> po_check_period po \<ge> 0 then check_wait (po_check_period po) 1 (re_secs e) else Some (Some (re_end e)))"

datatype sup_action = Start_daemon | Report int | Kill int | Notify bool nat | Second_supervisor

text \<open>\<open>Waiting\<close>: the given seconds are over and the daemon runs.\<close>

datatype verdict = Again | Stop | Exit int | Waiting

record sup_state =
  su_first :: bool
  su_times :: "int list"     \<comment> \<open>\<open>restart_time[0 .. restart_time_count)\<close>\<close>
  su_last_notification :: int
  su_notify_count :: nat

definition sup_init :: sup_state where
  "sup_init = \<lparr>su_first = True, su_times = [], su_last_notification = 0, su_notify_count = 0\<rparr>"

text \<open>
  \<open>memmove (restart_time, restart_time + sizeof (time_t), \<dots>)\<close> adds eight elements, not eight bytes: the 29 elements that are copied
  start at index 8 and end behind the array.
\<close>

definition free_slot :: "int list \<Rightarrow> int list result" where
  "free_slot ts = (if length ts = PROC_RESTART_MAX then Inl Bad_access else Inr ts)"

definition count_recent :: "int \<Rightarrow> int list \<Rightarrow> int" where
  "count_recent since ts = int (length (takeWhile (\<lambda>t. t \<ge> since) (rev ts)))"

text \<open>\<open>None\<close> is a deadlock.\<close>

definition failed_run :: "child_end option \<Rightarrow> bool" where
  "failed_run d \<longleftrightarrow> (case d of None \<Rightarrow> True | Some (Signalled s) \<Rightarrow> True | Some (Exited c) \<Rightarrow> c \<noteq> 0)"

definition restartable :: "child_end option \<Rightarrow> bool" where
  "restartable d \<longleftrightarrow> d \<noteq> Some (Signalled 9)"

text \<open>The notification of a failure. When \<open>execlp\<close> fails, its process falls out of both switches and goes on as a second supervisor.\<close>

definition notify_failure :: "process_opts \<Rightarrow> run_env \<Rightarrow> child_end option \<Rightarrow> sup_state \<Rightarrow> sup_state \<times> sup_action list" where
  "notify_failure po e d st =
     (if \<not> re_notify e then (st, [])
      else if re_notify_now e - su_last_notification st > po_notify_interval po
      then (st\<lparr>su_last_notification := re_notify_now e, su_notify_count := 0\<rparr>,
            if \<not> re_notify_fork e then []
            else if re_exec_ok e then [Notify (restartable d) (su_notify_count st)] else [Second_supervisor])
      else (st\<lparr>su_notify_count := su_notify_count st + 1\<rparr>, []))"

definition supervise_turn :: "process_opts \<Rightarrow> run_env \<Rightarrow> sup_state \<Rightarrow> (sup_state \<times> sup_action list \<times> verdict) result" where
  "supervise_turn po e st =
     (let since = re_now e - po_restart_interval po
      in rbind (free_slot (su_times st)) (\<lambda>ts.
         let st1 = st\<lparr>su_times := ts @ [re_start e]\<rparr>;
             restart_count = 1 + count_recent since (su_times st1);
             rc = re_init_rc e;
             report = (if su_first st1 then [Report rc] else [])
         in if \<not> re_fork_ok e then Inr (st1, if su_first st1 then [Report 1] else [], Exit 1)
            else if su_first st1 \<and> rc \<noteq> 0 then Inr (st1, Start_daemon # report, Stop)
            else
              let st2 = st1\<lparr>su_first := False\<rparr>;
                  acts = Start_daemon # report;
                  goon = (if restart_count > po_restart_max po then Stop else Again)
              in if rc \<noteq> 0 then Inr (st2, acts @ map Kill (kill_wait 15 0 (re_alive e)), goon)
                 else case daemon_end po e of
                        None \<Rightarrow> Inr (st2, acts, Waiting)
                      | Some d \<Rightarrow>
                          let kills = (if d = None then map Kill (kill_wait 6 0 (re_alive e)) else [])
                          in if failed_run d
                             then let (st3, acts3) = notify_failure po e d st2
                               in Inr (st3, acts @ kills @ acts3, if restartable d then goon else Stop)
                             else Inr (st2, acts, Stop)))"

fun supervise :: "process_opts \<Rightarrow> run_env list \<Rightarrow> sup_state \<Rightarrow> (sup_state \<times> sup_action list \<times> verdict) result" where
  "supervise po [] st = Inr (st, [], Again)"
| "supervise po (e # es) st =
     rbind (supervise_turn po e st) (\<lambda>(st1, acts, v).
       case v of
         Again \<Rightarrow> rbind (supervise po es st1) (\<lambda>(st2, acts2, v2). Inr (st2, acts @ acts2, v2))
       | _ \<Rightarrow> Inr (st1, acts, v))"

text \<open>The whole of \<open>z_process_perform_supervise\<close>, up to the end of the given turns.\<close>

definition z_process_perform_supervise :: "process_opts \<Rightarrow> run_env list \<Rightarrow> (sup_state \<times> sup_action list \<times> verdict) result" where
  "z_process_perform_supervise po es = supervise (supervise_limits po) es sup_init"

subsection \<open>How often the daemon is started\<close>

definition clock_ok :: "run_env list \<Rightarrow> bool" where
  "clock_ok es \<longleftrightarrow> (\<forall>e \<in> set es. re_now e \<le> re_start e) \<and> sorted (map re_start es)"

text \<open>Each start but the last was followed by another, so few enough starts were recent.\<close>

definition spaced :: "int \<Rightarrow> int \<Rightarrow> int list \<Rightarrow> bool" where
  "spaced mx iv ts \<longleftrightarrow> (\<forall>k. Suc k < length ts \<longrightarrow> 1 + count_recent (ts ! k - iv) (take (Suc k) ts) \<le> mx)"

lemma count_recent_mono: "since \<le> since' \<Longrightarrow> count_recent since' ts \<le> count_recent since ts"
proof -
  assume "since \<le> since'"
  then have "length (takeWhile (\<lambda>t. since' \<le> t) xs) \<le> length (takeWhile (\<lambda>t. since \<le> t) xs)" for xs :: "int list"
    by (induction xs) auto
  then show ?thesis by (simp add: count_recent_def)
qed

lemma turn_times:
  assumes "supervise_turn po e st = Inr (st1, acts, v)"
  shows "su_times st1 = su_times st @ [re_start e]" "length (su_times st) \<noteq> PROC_RESTART_MAX"
    "v = Again \<Longrightarrow> 1 + count_recent (re_now e - po_restart_interval po) (su_times st1) \<le> po_restart_max po"
  using assms by (auto simp: supervise_turn_def Let_def free_slot_def rbind_eq_Inr notify_failure_def split: if_splits prod.splits option.splits)

lemma spaced_snoc:
  assumes "spaced mx iv ts" "ts \<noteq> [] \<Longrightarrow> 1 + count_recent (last ts - iv) ts \<le> mx"
  shows "spaced mx iv (ts @ [t])"
  unfolding spaced_def
proof (intro allI impI)
  fix k assume k: "Suc k < length (ts @ [t])"
  show "1 + count_recent ((ts @ [t]) ! k - iv) (take (Suc k) (ts @ [t])) \<le> mx"
  proof (cases "Suc k < length ts")
    case True
    then show ?thesis using assms(1) by (simp add: spaced_def nth_append)
  next
    case False
    then have "Suc k = length ts" "ts \<noteq> []" using k by auto
    then have "k = length ts - 1" by simp
    then show ?thesis using \<open>Suc k = length ts\<close> \<open>ts \<noteq> []\<close> assms(2) by (simp add: nth_append last_conv_nth)
  qed
qed

lemma supervise_times:
  assumes "supervise po es st = Inr (st', acts, v)" "\<forall>e \<in> set es. re_now e \<le> re_start e"
    "spaced (po_restart_max po) (po_restart_interval po) (su_times st)"
    "su_times st \<noteq> [] \<longrightarrow> 1 + count_recent (last (su_times st) - po_restart_interval po) (su_times st) \<le> po_restart_max po"
  shows "spaced (po_restart_max po) (po_restart_interval po) (su_times st')
    \<and> (\<exists>k \<le> length es. su_times st' = su_times st @ map re_start (take k es))"
  using assms
proof (induction es arbitrary: st acts)
  case (Cons e es)
  obtain st1 acts1 v1 where t: "supervise_turn po e st = Inr (st1, acts1, v1)" using Cons.prems(1) by (auto simp: rbind_eq_Inr)
  have ts: "su_times st1 = su_times st @ [re_start e]" using turn_times(1)[OF t] .
  have sp: "spaced (po_restart_max po) (po_restart_interval po) (su_times st1)"
    unfolding ts using Cons.prems(3,4) by (intro spaced_snoc) auto
  show ?case
  proof (cases "v1 = Again")
    case True
    obtain acts2 where r: "supervise po es st1 = Inr (st', acts2, v)" using Cons.prems(1) t True by (auto simp: rbind_eq_Inr)
    have "count_recent (re_start e - po_restart_interval po) (su_times st1) \<le> count_recent (re_now e - po_restart_interval po) (su_times st1)"
      using Cons.prems(2) by (intro count_recent_mono) auto
    then have "1 + count_recent (last (su_times st1) - po_restart_interval po) (su_times st1) \<le> po_restart_max po"
      using turn_times(3)[OF t True] ts by simp
    then obtain k where "spaced (po_restart_max po) (po_restart_interval po) (su_times st')" "k \<le> length es"
      "su_times st' = su_times st1 @ map re_start (take k es)" using Cons.IH[OF r _ sp] Cons.prems(2) by auto
    then show ?thesis using ts by (auto intro!: exI[of _ "Suc k"])
  next
    case False
    then have "st' = st1" using Cons.prems(1) t by (cases v1) auto
    then show ?thesis using sp ts by (auto intro!: exI[of _ 1])
  qed
qed auto

lemma count_recent_window:
  assumes "sorted ts" "i < length ts" "since \<le> ts ! i"
  shows "int (length ts - i) \<le> count_recent since ts"
proof -
  have "t \<ge> since" if q: "t \<in> set (drop i ts)" for t
  proof -
    obtain k where "k < length ts - i" "t = ts ! (i + k)" using q assms(2) by (auto simp: in_set_conv_nth)
    moreover from this have "ts ! i \<le> ts ! (i + k)" by (intro sorted_nth_mono[OF assms(1)]) auto
    ultimately show ?thesis using assms(3) by simp
  qed
  then have "takeWhile (\<lambda>t. t \<ge> since) (rev (drop i ts)) = rev (drop i ts)" by (subst takeWhile_eq_all_conv) auto
  moreover have "rev ts = rev (drop i ts) @ rev (take i ts)" by (metis append_take_drop_id rev_append)
  ultimately have "takeWhile (\<lambda>t. t \<ge> since) (rev ts) = rev (drop i ts) @ takeWhile (\<lambda>t. t \<ge> since) (rev (take i ts))"
    by (metis takeWhile_append2 takeWhile_eq_all_conv)
  then have "length (takeWhile (\<lambda>t. t \<ge> since) (rev ts)) = length ts - i + length (takeWhile (\<lambda>t. t \<ge> since) (rev (take i ts)))"
    by simp
  then show ?thesis by (simp add: count_recent_def)
qed

lemma spaced_window:
  assumes "spaced (int mx) iv ts" "sorted ts" "0 < mx" "i + mx < length ts"
  shows "ts ! i + iv < ts ! (i + mx)"
proof (rule ccontr)
  assume n: "\<not> ?thesis"
  define k where "k = i + mx - 1"
  have k: "Suc k < length ts" "i \<le> k" "i + mx = Suc k" using assms(3,4) by (auto simp: k_def)
  have le: "ts ! k - iv \<le> ts ! i" using n sorted_nth_mono[OF assms(2), of k "Suc k"] k by simp
  have "int (length (take (Suc k) ts) - i) \<le> count_recent (ts ! k - iv) (take (Suc k) ts)"
    using k le by (intro count_recent_window) (auto simp: assms(2) sorted_wrt_take)
  moreover have "1 + count_recent (ts ! k - iv) (take (Suc k) ts) \<le> int mx" using assms(1) k by (simp add: spaced_def)
  ultimately show False using k by simp
qed

lemma supervise_limits_bounds: "2 \<le> po_restart_max (supervise_limits po)" "po_restart_max (supervise_limits po) \<le> 30"
  "5 \<le> po_restart_interval (supervise_limits po)"
  by (auto simp: supervise_limits_def Let_def PROC_RESTART_MAX_def)


definition demo_popts :: process_opts where
  "demo_popts = \<lparr>po_mode = Z_PM_SAFE_BACKGROUND, po_name = ''zorp'', po_user = None, po_group = None, po_chroot_dir = None, po_pidfile = None,
     po_pidfile_dir = None, po_cwd = None, po_caps = None, po_check_fn = False, po_check_period = -1, po_check_saved = -1, po_restart_max = 2,
     po_restart_interval = 60, po_notify_interval = 600, po_pid_removed = False\<rparr>"

definition demo_run :: "int \<Rightarrow> run_env" where
  "demo_run t = \<lparr>re_now = t, re_start = t, re_fork_ok = True, re_init_rc = 0, re_secs = [], re_end = Signalled 11, re_alive = [], re_notify = False,
     re_notify_now = 0, re_notify_fork = True, re_exec_ok = True\<rparr>"

lemmas demo_sup_defs = demo_popts_def demo_run_def supervise_limits_def PROC_RESTART_MAX_def daemon_end_def failed_run_def restartable_def


definition crashes :: "process_opts \<Rightarrow> run_env \<Rightarrow> bool" where
  "crashes po e \<longleftrightarrow> re_fork_ok e \<and> re_init_rc e = 0 \<and> (case daemon_end po e of Some d \<Rightarrow> failed_run d \<and> restartable d | None \<Rightarrow> False)"

fun rare :: "int \<Rightarrow> run_env list \<Rightarrow> bool" where
  "rare iv (a # b # es) \<longleftrightarrow> re_start a < re_now b - iv \<and> rare iv (b # es)"
| "rare iv _ \<longleftrightarrow> True"

lemma turn_crash:
  assumes "crashes po e" "length (su_times st) < PROC_RESTART_MAX" "2 \<le> po_restart_max po" "re_now e \<le> re_start e" "0 \<le> po_restart_interval po"
    "su_times st \<noteq> [] \<Longrightarrow> last (su_times st) < re_now e - po_restart_interval po"
  shows "\<exists>st1 acts. supervise_turn po e st = Inr (st1, acts, Again)"
proof -
  have "takeWhile (\<lambda>t. re_now e - po_restart_interval po \<le> t) (rev (su_times st)) = []"
    using assms(6) by (cases "su_times st" rule: rev_cases) auto
  then have "1 + count_recent (re_now e - po_restart_interval po) (su_times st @ [re_start e]) \<le> 2"
    by (simp add: count_recent_def)
  then show ?thesis using assms(1-3)
    by (auto simp: supervise_turn_def Let_def free_slot_def crashes_def notify_failure_def split: option.splits prod.splits)
qed

lemma supervise_crash_loop:
  assumes "\<forall>e \<in> set es. crashes po e \<and> re_now e \<le> re_start e" "rare (po_restart_interval po) es"
    "length (su_times st) \<le> PROC_RESTART_MAX" "PROC_RESTART_MAX < length (su_times st) + length es"
    "2 \<le> po_restart_max po" "0 \<le> po_restart_interval po"
    "su_times st \<noteq> [] \<and> es \<noteq> [] \<longrightarrow> last (su_times st) < re_now (hd es) - po_restart_interval po"
  shows "supervise po es st = Inl Bad_access"
  using assms
proof (induction es arbitrary: st)
  case (Cons e es)
  show ?case
  proof (cases "length (su_times st) = PROC_RESTART_MAX")
    case True
    then show ?thesis by (simp add: supervise_turn_def free_slot_def)
  next
    case False
    then obtain st1 acts where t: "supervise_turn po e st = Inr (st1, acts, Again)"
      using turn_crash[of po e st] Cons.prems by auto
    have ts: "su_times st1 = su_times st @ [re_start e]" using turn_times(1)[OF t] .
    have "supervise po es st1 = Inl Bad_access"
      using Cons.prems False by (intro Cons.IH) (cases es; auto simp: ts)+
    then show ?thesis using t by simp
  qed
qed auto

text \<open>A daemon that fails again and again, but rarely enough to be restarted each time, ends the supervisor's own memory safety: before
  the 31st start the table of starting times is moved by eight elements in place of eight bytes and is read behind its end.
\<close>

theorem supervise_thirty_first_start:
  assumes "30 < length es" "\<forall>e \<in> set es. crashes (supervise_limits po) e \<and> re_now e \<le> re_start e"
    "rare (po_restart_interval (supervise_limits po)) es"
  shows "z_process_perform_supervise po es = Inl Bad_access"
  unfolding z_process_perform_supervise_def using assms supervise_limits_bounds[of po]
  by (intro supervise_crash_loop) (auto simp: sup_init_def PROC_RESTART_MAX_def)

lemma supervise_thirty_first_start_witness:
  "z_process_perform_supervise demo_popts (map (\<lambda>i. demo_run (int i * 100)) [0..<31]) = Inl Bad_access"
proof (rule supervise_thirty_first_start)
  have "rare 60 (map (\<lambda>i. demo_run (int i * 100)) [0..<31])" by (simp add: upt_rec demo_run_def)
  then show "rare (po_restart_interval (supervise_limits demo_popts)) (map (\<lambda>i. demo_run (int i * 100)) [0..<31])" by (simp add: demo_sup_defs)
qed (auto simp: crashes_def demo_sup_defs)

subsection \<open>The result of the start\<close>

lemma decimal_length_le: "n < 10 ^ k \<Longrightarrow> 0 < k \<Longrightarrow> length (decimal n) \<le> k"
proof (induction n arbitrary: k rule: decimal.induct)
  case (1 n)
  show ?case
  proof (cases "n < 10")
    case True
    then show ?thesis using 1(3) by (simp add: decimal.simps[of n])
  next
    case False
    then obtain j where j: "k = Suc j" "0 < j" using 1(2,3) by (cases k; cases "k - 1") auto
    then have "length (decimal (n div 10)) \<le> j" using 1 False by (intro 1(1)) auto
    then show ?thesis using False j by (simp add: decimal.simps[of n])
  qed
qed

lemma decimal_length_gt: "10 ^ k \<le> n \<Longrightarrow> k < length (decimal n)"
proof (induction k arbitrary: n)
  case 0
  then show ?case using decimal_nonempty[of n] by simp
next
  case (Suc k)
  have "10 ^ k \<le> n div 10" using Suc.prems by (simp add: less_eq_div_iff_mult_less_eq mult.commute)
  moreover have "\<not> n < 10"
  proof -
    have "(1::nat) \<le> 10 ^ k" "10 * 10 ^ k \<le> n" using Suc.prems by simp_all
    then show ?thesis by linarith
  qed
  ultimately show ?case using Suc.IH[of "n div 10"] by (simp add: decimal.simps[of n])
qed

lemma number_text:
  assumes "n < 100000"
  shows "z_process_send_result True n = Inr (False, decimal n @ [CHR 0x0A])"
    "z_process_recv_result True (decimal n @ [CHR 0x0A]) = Inr (False, int n)"
proof -
  have l: "length (decimal n) \<le> 5" using decimal_length_le[of n 5] assms by simp
  then show "z_process_send_result True n = Inr (False, decimal n @ [CHR 0x0A])"
    using assms by (simp add: z_process_send_result_def sent_number_def Let_def)
  obtain c cs where d: "decimal n = c # cs" using decimal_nonempty[of n] by (cases "decimal n") auto
  have c: "isdigit c" using decimal_digits[of c n] d by simp
  then have "\<not> isspace c" "c \<noteq> CHR ''-''" "c \<noteq> CHR ''+''" by (auto simp: isdigit_def isspace_def code_def)
  then have "number_end (decimal n @ [CHR 0x0A]) = dropWhile isdigit (decimal n @ [CHR 0x0A])"
    unfolding d by (simp add: number_end_def Let_def)
  also have "\<dots> = [CHR 0x0A]" using decimal_digits by (subst dropWhile_append2) (auto simp: isdigit_def code_def)
  finally have "number_end (decimal n @ [CHR 0x0A]) = [CHR 0x0A]" .
  moreover have "strtol (decimal n @ [CHR 0x0A]) = (int n, [CHR 0x0A])" using assms by (intro strtol_decimal) (auto simp: isdigit_def code_def)
  ultimately show "z_process_recv_result True (decimal n @ [CHR 0x0A]) = Inr (False, int n)"
    using l d by (simp add: z_process_recv_result_def Let_def)
qed

lemma recv_unterminated:
  assumes "length d \<ge> 6" "list_all isdigit d"
  shows "z_process_recv_result True (d @ r) = Inl Bad_access"
proof -
  obtain c cs where t: "take 6 d = c # cs" using assms(1) by (cases "take 6 d") auto
  have dig: "\<forall>x \<in> set (c # cs). isdigit x" using assms(2) unfolding t[symmetric] by (auto simp: list_all_iff dest: in_set_takeD)
  then have "\<not> isspace c" "c \<noteq> CHR ''-''" "c \<noteq> CHR ''+''" by (auto simp: isdigit_def isspace_def code_def)
  then have "number_end (c # cs) = []" using dig by (simp add: number_end_def Let_def)
  moreover have "take 6 (d @ r) = c # cs" "length (c # cs) = 6" using assms(1) t by (simp, metis length_take min.absorb2)
  ultimately show ?thesis by (simp add: z_process_recv_result_def Let_def)
qed

text \<open>The startup process exits with the code that the daemon reports at its first start, through both pipes, when the code has at most five
  digits; a longer code makes one of the processes read behind its buffer.
\<close>

theorem startup_code_delivered:
  assumes "n < 2 ^ 31"
  shows "startup_code n = (if n < 100000 then Inr (int n) else Inl Bad_access)"
proof (cases "n < 100000")
  case True
  have "nat (int n mod 4294967296) = n" using True by (simp add: zmod_trivial_iff)
  then show ?thesis using True number_text[OF True] by (simp add: startup_code_def z_process_perform_startup_def)
next
  case False
  have l: "5 < length (decimal n)" using decimal_length_gt[of 5 n] False by simp
  have m: "sent_number n = decimal n" using assms by (simp add: sent_number_def Let_def)
  show ?thesis
  proof (cases "length (decimal n) \<ge> 10")
    case True
    then show ?thesis using False m by (simp add: startup_code_def z_process_send_result_def)
  next
    case short: False
    obtain r where "z_process_send_result True n = Inr (False, decimal n @ r)"
      using short m by (cases "length (decimal n) = 9") (auto simp: z_process_send_result_def Let_def)
    moreover have "z_process_recv_result True (decimal n @ r) = Inl Bad_access"
      using l decimal_digits[of _ n] by (intro recv_unterminated) (auto simp: list_all_iff)
    ultimately show ?thesis using False by (simp add: startup_code_def)
  qed
qed

lemma startup_code_delivered_witness: "startup_code 12 = Inr 12 \<and> startup_code 100000 = Inl Bad_access"
  using startup_code_delivered[of 12] startup_code_delivered[of 100000] by simp

text \<open>Each pipe carries one result: after it the descriptor is closed and nothing more is written or read.\<close>

lemma result_once:
  "z_process_send_result is_open n = Inr (fd, bytes) \<Longrightarrow> \<not> fd \<and> z_process_send_result fd m = Inr (False, [])"
  "z_process_recv_result is_open bytes' = Inr (fd, rc) \<Longrightarrow> \<not> fd \<and> z_process_recv_result fd bytes'' = Inr (False, 1)"
  by (auto simp: z_process_send_result_def z_process_recv_result_def Let_def split: if_splits)

subsection \<open>Options and the pid file\<close>

lemma check_enable_state:
  assumes "po_check_period po \<ge> 0" "po_check_saved po < 0"
  shows "\<not> z_process_get_check_enable (z_process_set_check_enable False po)"
    "z_process_set_check_enable True (z_process_set_check_enable False po) = po"
  using assms by (auto simp: z_process_get_check_enable_def z_process_set_check_enable_def)

text \<open>A daemon that ends removes the pid file only while it has the daemon's own pid, so never that of its successor.\<close>

lemma pidfile_of_successor:
  assumes "z_process_write_pidfile dir w pid po files = (po1, files1)" "w (z_process_format_pidfile_name dir po 256)" "pid' \<noteq> pid"
  shows "z_process_remove_pidfile dir w pid' po2 files1 = (po2, files1) \<or> z_process_format_pidfile_name dir po2 256 \<noteq> z_process_format_pidfile_name dir po 256"
  using assms by (auto simp: z_process_write_pidfile_def z_process_remove_pidfile_def Let_def)

lemma pidfile_own_removed:
  assumes "z_process_write_pidfile dir w pid po files = (po1, files1)" "w (z_process_format_pidfile_name dir po 256)"
  shows "snd (z_process_remove_pidfile dir w pid po1 files1) (z_process_format_pidfile_name dir po1 256) = None"
proof -
  have "z_process_format_pidfile_name dir po1 256 = z_process_format_pidfile_name dir po 256"
    using assms(1) by (auto simp: z_process_write_pidfile_def z_process_format_pidfile_name_def Let_def split: option.splits)
  then show ?thesis using assms by (auto simp: z_process_write_pidfile_def z_process_remove_pidfile_def Let_def)
qed

end
