(* ===== verification/Threads.thy ===== *)
theory Threads
  imports Misc
begin

section \<open>The thread pool\<close>

text \<open>
  \<open>src/thread.c\<close>: \<open>z_thread_new\<close> starts a thread for a job, or queues the job when \<open>max_threads\<close> threads run; a thread that
  has run its job takes the next one from the queue and ends when there is none. Calls interleave at the queue lock: each section
  under the lock is one step, so are the creation of a thread and the run of a job. A job is the number of the call of
  \<open>z_thread_new\<close> that it comes from; a thread has the number of the job it was created for. GLib's asynchronous queue is a list with its oldest element first and the
  count of its references.
\<close>

datatype job_state =
    Not_called
  | Counted          \<comment> \<open>\<open>num_threads\<close> was raised for it, the thread is not yet created\<close>
  | Create_failed    \<comment> \<open>before \<open>num_threads\<close> is lowered again\<close>
  | Given_up         \<comment> \<open>\<open>z_thread_new\<close> returned \<open>FALSE\<close>\<close>
  | Queued
  | Taken nat        \<comment> \<open>by a thread\<close>
  | Finished nat

datatype thread_state = No_thread | Busy nat | Between

datatype thread_event = Callback nat | Ran nat

record thread_pool =
  tp_max :: int
  tp_num :: int
  tp_queue :: "nat list"
  tp_refs :: int
  tp_jobs :: "nat \<Rightarrow> job_state"
  tp_threads :: "nat \<Rightarrow> thread_state"
  tp_start_callbacks :: "nat list"
  tp_stop_callbacks :: "nat list"
  tp_events :: "nat \<Rightarrow> thread_event list"   \<comment> \<open>what each thread did\<close>

subsection \<open>Operations\<close>

definition z_thread_register_start_callback :: "nat \<Rightarrow> thread_pool \<Rightarrow> thread_pool" where
  "z_thread_register_start_callback func s = s\<lparr>tp_start_callbacks := func # tp_start_callbacks s\<rparr>"

definition z_thread_register_stop_callback :: "nat \<Rightarrow> thread_pool \<Rightarrow> thread_pool" where
  "z_thread_register_stop_callback func s = s\<lparr>tp_stop_callbacks := func # tp_stop_callbacks s\<rparr>"

definition z_thread_set_max_threads :: "int \<Rightarrow> thread_pool \<Rightarrow> thread_pool" where
  "z_thread_set_max_threads mx s = s\<lparr>tp_max := mx\<rparr>"

fun z_thread_iterate_callbacks :: "nat list \<Rightarrow> thread_event list" where
  "z_thread_iterate_callbacks [] = []"
| "z_thread_iterate_callbacks (p # ps) = Callback p # z_thread_iterate_callbacks ps"

definition z_thread_func_core :: "nat \<Rightarrow> nat \<Rightarrow> thread_pool \<Rightarrow> thread_pool" where
  "z_thread_func_core t j s =
     s\<lparr>tp_events := (tp_events s)(t := tp_events s t @ z_thread_iterate_callbacks (tp_start_callbacks s) @ [Ran j]
         @ z_thread_iterate_callbacks (tp_stop_callbacks s)),
       tp_jobs := (tp_jobs s)(j := Finished t), tp_threads := (tp_threads s)(t := Between)\<rparr>"

text \<open>The section of \<open>z_thread_func\<close> under the lock.\<close>

definition take_next :: "nat \<Rightarrow> thread_pool \<Rightarrow> thread_pool" where
  "take_next t s =
     (case tp_queue s of
        [] \<Rightarrow> s\<lparr>tp_num := tp_num s - 1, tp_refs := tp_refs s - 1, tp_threads := (tp_threads s)(t := No_thread)\<rparr>
      | j # js \<Rightarrow> s\<lparr>tp_queue := js, tp_jobs := (tp_jobs s)(j := Taken t), tp_threads := (tp_threads s)(t := Busy j)\<rparr>)"

text \<open>\<open>z_thread_new\<close> up to the end of the section under the lock; what follows when a thread is to be created.\<close>

definition new_locked :: "nat \<Rightarrow> thread_pool \<Rightarrow> thread_pool" where
  "new_locked j s =
     (if tp_num s \<ge> tp_max s then s\<lparr>tp_queue := tp_queue s @ [j], tp_jobs := (tp_jobs s)(j := Queued)\<rparr>
      else s\<lparr>tp_num := tp_num s + 1, tp_refs := tp_refs s + 1, tp_jobs := (tp_jobs s)(j := Counted)\<rparr>)"

definition thread_created :: "nat \<Rightarrow> thread_pool \<Rightarrow> thread_pool" where
  "thread_created j s = s\<lparr>tp_jobs := (tp_jobs s)(j := Taken j), tp_threads := (tp_threads s)(j := Busy j)\<rparr>"

definition thread_not_created :: "nat \<Rightarrow> thread_pool \<Rightarrow> thread_pool" where
  "thread_not_created j s = s\<lparr>tp_jobs := (tp_jobs s)(j := Create_failed)\<rparr>"

definition creation_failed :: "nat \<Rightarrow> thread_pool \<Rightarrow> thread_pool" where
  "creation_failed j s = s\<lparr>tp_num := tp_num s - 1, tp_jobs := (tp_jobs s)(j := Given_up)\<rparr>"

definition z_thread_init :: "int \<Rightarrow> nat list \<Rightarrow> nat list \<Rightarrow> thread_pool" where
  "z_thread_init mx starts stops =
     \<lparr>tp_max = mx, tp_num = 0, tp_queue = [], tp_refs = 1, tp_jobs = (\<lambda>j. Not_called), tp_threads = (\<lambda>t. No_thread),
      tp_start_callbacks = starts, tp_stop_callbacks = stops, tp_events = (\<lambda>t. [])\<rparr>"

text \<open>The option for the stack size: the value that is stored, in bytes, and success. The product is cut to a \<open>gint\<close>.\<close>

definition z_thread_stack_size_arg :: "string \<Rightarrow> int \<times> bool" where
  "z_thread_stack_size_arg val =
     (let (n, end) = strtol val;
          size = signed_take_bit 31 (n * 1024)
      in if end \<noteq> [] then (size, False) else (if size > 256 * 1024 then 256 * 1024 else size, True))"

subsection \<open>Interleavings\<close>

text \<open>\<open>fails\<close> says whether the system may refuse to create a thread.\<close>

inductive pool_step :: "bool \<Rightarrow> thread_pool \<Rightarrow> thread_pool \<Rightarrow> bool" for fails where
  call: "tp_jobs s j = Not_called \<Longrightarrow> pool_step fails s (new_locked j s)"
| created: "tp_jobs s j = Counted \<Longrightarrow> pool_step fails s (thread_created j s)"
| refused: "\<lbrakk>fails; tp_jobs s j = Counted\<rbrakk> \<Longrightarrow> pool_step fails s (thread_not_created j s)"
| gave_up: "tp_jobs s j = Create_failed \<Longrightarrow> pool_step fails s (creation_failed j s)"
| ran: "tp_threads s t = Busy j \<Longrightarrow> pool_step fails s (z_thread_func_core t j s)"
| took: "tp_threads s t = Between \<Longrightarrow> pool_step fails s (take_next t s)"

abbreviation pool_steps :: "bool \<Rightarrow> thread_pool \<Rightarrow> thread_pool \<Rightarrow> bool" where
  "pool_steps fails \<equiv> (pool_step fails)\<^sup>*\<^sup>*"

subsection \<open>The invariant\<close>

text \<open>What \<open>num_threads\<close> counts.\<close>

definition counted :: "thread_pool \<Rightarrow> nat set" where
  "counted s = {j. tp_jobs s j = Counted \<or> tp_jobs s j = Create_failed \<or> tp_threads s j \<noteq> No_thread}"

definition called :: "thread_pool \<Rightarrow> nat set" where
  "called s = {j. tp_jobs s j \<noteq> Not_called}"

definition given_up :: "thread_pool \<Rightarrow> nat set" where
  "given_up s = {j. tp_jobs s j = Given_up}"

fun owned :: "job_state \<Rightarrow> bool" where
  "owned (Taken t) = True"
| "owned (Finished t) = True"
| "owned _ = False"

text \<open>Each job is in the place that its state says, and in no other.\<close>

definition places_ok :: "thread_pool \<Rightarrow> bool" where
  "places_ok s \<longleftrightarrow> distinct (tp_queue s) \<and> (\<forall>j. j \<in> set (tp_queue s) \<longleftrightarrow> tp_jobs s j = Queued)
     \<and> (\<forall>t j. tp_threads s t = Busy j \<longleftrightarrow> tp_jobs s j = Taken t)
     \<and> (\<forall>t. tp_threads s t \<noteq> No_thread \<longrightarrow> owned (tp_jobs s t))
     \<and> (\<forall>t j. count_list (tp_events s t) (Ran j) = (if tp_jobs s j = Finished t then 1 else 0))"

definition counts_ok :: "thread_pool \<Rightarrow> bool" where
  "counts_ok s \<longleftrightarrow> finite (called s) \<and> tp_num s = int (card (counted s)) \<and> tp_num s \<le> tp_max s
     \<and> tp_refs s = 1 + tp_num s + int (card (given_up s))"

lemma places_okD:
  assumes "places_ok s"
  shows "distinct (tp_queue s)" "j \<in> set (tp_queue s) \<longleftrightarrow> tp_jobs s j = Queued"
    "tp_threads s t = Busy j \<longleftrightarrow> tp_jobs s j = Taken t" "tp_threads s t \<noteq> No_thread \<Longrightarrow> owned (tp_jobs s t)"
    "count_list (tp_events s t) (Ran j) = (if tp_jobs s j = Finished t then 1 else 0)"
  using assms unfolding places_ok_def by blast+

lemma counted_called: "places_ok s \<Longrightarrow> counted s \<subseteq> called s"
  using places_okD(4)[of s] by (fastforce simp: counted_def called_def)

lemma count_callbacks [simp]: "count_list (z_thread_iterate_callbacks cs) (Ran j) = 0"
  by (induction cs) auto

lemmas pool_defs = new_locked_def thread_created_def thread_not_created_def creation_failed_def z_thread_func_core_def take_next_def

lemma places_step:
  assumes "pool_step fails s s'" "places_ok s"
  shows "places_ok s'"
proof -
  note p0 = places_okD[OF assms(2)]
  note p = p0(1,2,4,5) p0(3)[symmetric]
  have nt: "tp_threads s j = No_thread" if "\<not> owned (tp_jobs s j)" for j using p0(4)[of j] that by auto
  have nb: "tp_threads s t \<noteq> Busy j" if "\<not> owned (tp_jobs s j)" for j t using p0(3)[of t j] that by auto
  have nk: "tp_jobs s i \<noteq> Taken t" if "tp_threads s t \<noteq> Busy i" for t i using p0(3)[of t i] that by simp
  have nq: "j \<notin> set (tp_queue s)" if "tp_jobs s j \<noteq> Queued" for j using p0(2)[of j] that by simp
  from assms(1) show ?thesis
  proof (cases rule: pool_step.cases)
    case (call j)
    then show ?thesis using p nt[of j] nb[of j] nq[of j] by (auto simp: places_ok_def new_locked_def)
  next
    case (created j)
    then show ?thesis using p nt[of j] nb[of j] by (auto simp: places_ok_def thread_created_def)
  next
    case (refused j)
    then show ?thesis using p nt[of j] nb[of j] by (auto simp: places_ok_def thread_not_created_def)
  next
    case (gave_up j)
    then show ?thesis using p nt[of j] nb[of j] by (auto simp: places_ok_def creation_failed_def)
  next
    case (ran t j)
    have j: "tp_jobs s j = Taken t" "owned (tp_jobs s t)" using p0(3)[of t j] p0(4)[of t] ran by auto
    have "tp_jobs s j \<noteq> Queued" "tp_jobs s j \<noteq> Finished u" "u \<noteq> t \<Longrightarrow> tp_threads s u \<noteq> Busy j" for u
      using j(1) p0(3)[of u j] by auto
    then show ?thesis using p ran by (auto simp: places_ok_def z_thread_func_core_def)
  next
    case (took t)
    have o: "owned (tp_jobs s t)" using p0(4)[of t] took by auto
    show ?thesis
    proof (cases "tp_queue s")
      case Nil
      then show ?thesis using p took nk[of t] by (auto simp: places_ok_def take_next_def)
    next
      case (Cons j js)
      then have "tp_jobs s j = Queued" "tp_threads s j = No_thread" using p0(2)[of j] nt[of j] by auto
      then have "tp_jobs s j = Queued" using p0(2)[of j] by simp
      then have "tp_threads s j = No_thread" "tp_threads s u \<noteq> Busy j" "tp_jobs s j \<noteq> Finished u" for u using nt nb by auto
      then show ?thesis using p took Cons o by (auto simp: places_ok_def take_next_def)
    qed
  qed
qed

lemma finite_counted: "places_ok s \<Longrightarrow> finite (called s) \<Longrightarrow> finite (counted s)"
  using counted_called finite_subset by blast

lemma counted_positive: "places_ok s \<Longrightarrow> counts_ok s \<Longrightarrow> t \<in> counted s \<Longrightarrow> 0 < tp_num s"
  using finite_counted[of s] by (auto simp: counts_ok_def card_gt_0_iff)

lemma counts_step:
  assumes "pool_step fails s s'" "places_ok s" "counts_ok s"
  shows "counts_ok s'"
proof -
  have f: "finite (called s)" "finite (counted s)" "finite (given_up s)"
  proof -
    show "finite (called s)" using assms(3) by (simp add: counts_ok_def)
    then show "finite (counted s)" using assms(2) finite_counted by blast
    have "given_up s \<subseteq> called s" by (auto simp: given_up_def called_def)
    then show "finite (given_up s)" using \<open>finite (called s)\<close> finite_subset by blast
  qed
  have c: "tp_num s = int (card (counted s))" "tp_num s \<le> tp_max s" "tp_refs s = 1 + tp_num s + int (card (given_up s))"
    using assms(3) by (auto simp: counts_ok_def)
  have nt: "tp_threads s j = No_thread" if "\<not> owned (tp_jobs s j)" for j using places_okD(4)[OF assms(2), of j] that by auto
  show ?thesis
    using assms(1)
  proof (cases rule: pool_step.cases)
    case (call j)
    have s: "called s' = insert j (called s)" "given_up s' = given_up s" "tp_max s' = tp_max s"
      using call by (auto simp: new_locked_def called_def given_up_def)
    show ?thesis
    proof (cases "tp_num s \<ge> tp_max s")
      case True
      have "counted s' = counted s" using call nt[of j] True by (auto simp: new_locked_def counted_def)
      then show ?thesis using True call c f s by (simp add: counts_ok_def) (simp add: new_locked_def)
    next
      case False
      have "counted s' = insert j (counted s)" "j \<notin> counted s" using call nt[of j] False by (auto simp: new_locked_def counted_def)
      then have "card (counted s') = Suc (card (counted s))" using f by simp
      then show ?thesis using False call c f s by (simp add: counts_ok_def) (simp add: new_locked_def)
    qed
  next
    case (created j)
    have "called s' = called s" "given_up s' = given_up s" "counted s' = counted s" "tp_max s' = tp_max s" "tp_num s' = tp_num s" "tp_refs s' = tp_refs s"
      using created by (auto simp: thread_created_def called_def given_up_def counted_def)
    then show ?thesis using c f by (simp add: counts_ok_def)
  next
    case (refused j)
    have "called s' = called s" "given_up s' = given_up s" "counted s' = counted s" "tp_max s' = tp_max s" "tp_num s' = tp_num s" "tp_refs s' = tp_refs s"
      using refused by (auto simp: thread_not_created_def called_def given_up_def counted_def)
    then show ?thesis using c f by (simp add: counts_ok_def)
  next
    case (gave_up j)
    have ns: "tp_threads s j = No_thread" using nt[of j] gave_up by simp
    have s: "called s' = called s" "given_up s' = insert j (given_up s)" "j \<notin> given_up s" "j \<in> counted s"
      "tp_max s' = tp_max s" "tp_num s' = tp_num s - 1" "tp_refs s' = tp_refs s"
      using gave_up by (auto simp: creation_failed_def called_def given_up_def counted_def)
    have "counted s' = counted s - {j}" using gave_up(1) ns by (auto simp: creation_failed_def counted_def)
    then have "card (counted s) = Suc (card (counted s'))" using card.remove[OF f(2) s(4)] by simp
    moreover have "card (given_up s') = Suc (card (given_up s))" unfolding s(2) using f(3) s(3) by simp
    ultimately show ?thesis using c f s by (simp add: counts_ok_def)
  next
    case (ran t j)
    have "called s' = called s" "given_up s' = given_up s" "counted s' = counted s" "tp_max s' = tp_max s" "tp_num s' = tp_num s" "tp_refs s' = tp_refs s"
      using ran places_okD(3)[OF assms(2), of t j] by (auto simp: z_thread_func_core_def called_def given_up_def counted_def)
    then show ?thesis using c f by (simp add: counts_ok_def)
  next
    case (took t)
    show ?thesis
    proof (cases "tp_queue s")
      case Nil
      have ow: "owned (tp_jobs s t)" using places_okD(4)[OF assms(2), of t] took by simp
      have s: "called s' = called s" "given_up s' = given_up s" "counted s' = counted s - {t}" "t \<in> counted s"
        "tp_max s' = tp_max s" "tp_num s' = tp_num s - 1" "tp_refs s' = tp_refs s - 1"
        using took Nil ow by (auto simp: take_next_def called_def given_up_def counted_def)
      then have "card (counted s) = Suc (card (counted s'))" using card.remove[OF f(2) s(4)] by simp
      then show ?thesis using c f s by (simp add: counts_ok_def)
    next
      case (Cons j js)
      then have "tp_jobs s j = Queued" using places_okD(2)[OF assms(2), of j] by simp
      then have "called s' = called s" "given_up s' = given_up s" "counted s' = counted s" "tp_max s' = tp_max s" "tp_num s' = tp_num s" "tp_refs s' = tp_refs s"
        using took Cons by (auto simp: take_next_def called_def given_up_def counted_def)
      then show ?thesis using c f by (simp add: counts_ok_def)
    qed
  qed
qed

lemma pool_init_ok: "0 \<le> mx \<Longrightarrow> places_ok (z_thread_init mx starts stops) \<and> counts_ok (z_thread_init mx starts stops)"
  by (simp add: places_ok_def counts_ok_def z_thread_init_def counted_def called_def given_up_def)

lemma pool_inv:
  assumes "pool_steps fails (z_thread_init mx starts stops) s" "0 \<le> mx"
  shows "places_ok s \<and> counts_ok s"
  using assms(1) by induction (use pool_init_ok[OF assms(2)] places_step counts_step in auto)

text \<open>
  C10: However the calls of \<open>z_thread_new\<close> and the threads interleave, also when the system refuses threads: \<open>num_threads\<close> counts the threads that
  exist or are being created and never exceeds \<open>max_threads\<close>; no more jobs run at a time than that; every job that ran did so once, in one thread; and
  a job that was accepted is queued, counted, with a thread, or done.
\<close>

theorem pool_counts_threads:
  assumes "0 \<le> mx" "pool_steps fails (z_thread_init mx starts stops) s"
  shows "tp_num s = int (card (counted s)) \<and> tp_num s \<le> mx
    \<and> finite {j. \<exists>t. tp_threads s t = Busy j} \<and> int (card {j. \<exists>t. tp_threads s t = Busy j}) \<le> mx
    \<and> (\<forall>j t. count_list (tp_events s t) (Ran j) = (if tp_jobs s j = Finished t then 1 else 0))
    \<and> distinct (tp_queue s) \<and> (\<forall>j. j \<in> set (tp_queue s) \<longleftrightarrow> tp_jobs s j = Queued)
    \<and> (\<forall>t j. tp_threads s t = Busy j \<longleftrightarrow> tp_jobs s j = Taken t)"
proof -
  have mx: "tp_max s = mx" using assms(2)
    by induction (auto simp: z_thread_init_def pool_defs elim!: pool_step.cases split: list.splits)
  have i: "places_ok s" "counts_ok s" using pool_inv[OF assms(2,1)] by auto
  let ?B = "{t. \<exists>j. tp_threads s t = Busy j}" and ?J = "{j. \<exists>t. tp_threads s t = Busy j}"
  have f: "finite (counted s)" using i finite_counted by (auto simp: counts_ok_def)
  have "?B \<subseteq> counted s" by (auto simp: counted_def)
  then have B: "finite ?B" "card ?B \<le> card (counted s)" using f by (auto intro: finite_subset card_mono)
  have "?J \<subseteq> (\<lambda>t. case tp_threads s t of Busy j \<Rightarrow> j | _ \<Rightarrow> 0) ` ?B" by force
  then have "finite ?J" "card ?J \<le> card ?B" using B(1) by (auto intro: finite_surj surj_card_le)
  then show ?thesis using i B mx places_okD[OF i(1)] by (auto simp: counts_ok_def)
qed

text \<open>A run with one thread: two calls, of which the second is queued, then the thread takes both jobs.\<close>

definition demo_pool :: thread_pool where
  "demo_pool = take_next 0 (z_thread_func_core 0 0 (new_locked 1 (thread_created 0 (new_locked 0 (z_thread_init 1 [7] [8])))))"

lemmas demo_pool_defs = demo_pool_def pool_defs z_thread_init_def

lemma demo_pool_run: "pool_steps False (z_thread_init 1 [7] [8]) demo_pool"
proof -
  let ?s0 = "z_thread_init 1 [7] [8]"
  let ?s1 = "new_locked 0 ?s0" let ?s2 = "thread_created 0 ?s1" let ?s3 = "new_locked 1 ?s2" let ?s4 = "z_thread_func_core 0 0 ?s3"
  have a: "pool_step False ?s0 ?s1" by (rule pool_step.call) (simp add: z_thread_init_def)
  have b: "pool_step False ?s1 ?s2" by (rule pool_step.created) (simp add: demo_pool_defs)
  have c: "pool_step False ?s2 ?s3" by (rule pool_step.call) (simp add: demo_pool_defs)
  have d: "pool_step False ?s3 ?s4" by (rule pool_step.ran) (simp add: demo_pool_defs)
  have e: "pool_step False ?s4 demo_pool" unfolding demo_pool_def by (rule pool_step.took) (simp add: demo_pool_defs)
  note into = rtranclp.rtrancl_into_rtrancl[of "pool_step False" ?s0]
  show ?thesis by (rule into[OF into[OF into[OF into[OF into[OF rtranclp.rtrancl_refl a] b] c] d] e])
qed

lemma pool_counts_threads_witness:
  "tp_num demo_pool = 1 \<and> tp_threads demo_pool 0 = Busy 1 \<and> tp_jobs demo_pool 1 = Taken 0
    \<and> count_list (tp_events demo_pool 0) (Ran 0) = 1 \<and> tp_events demo_pool 0 = [Callback 7, Ran 0, Callback 8]"
proof -
  have "tp_threads demo_pool 0 = Busy 1" "tp_jobs demo_pool 0 = Finished 0" "tp_num demo_pool = 1" "tp_events demo_pool 0 = [Callback 7, Ran 0, Callback 8]"
    by (simp_all add: demo_pool_defs)
  then show ?thesis using pool_counts_threads[OF _ demo_pool_run] by simp
qed

subsection \<open>All jobs are done in the end\<close>

fun job_weight :: "job_state \<Rightarrow> nat" where
  "job_weight Counted = 4"
| "job_weight Create_failed = 1"
| "job_weight Queued = 3"
| "job_weight (Taken t) = 2"
| "job_weight _ = 0"

fun thread_weight :: "thread_state \<Rightarrow> nat" where
  "thread_weight Between = 1"
| "thread_weight _ = 0"

definition pool_weight :: "thread_pool \<Rightarrow> nat" where
  "pool_weight s = (\<Sum>j \<in> called s. job_weight (tp_jobs s j)) + (\<Sum>j \<in> called s. thread_weight (tp_threads s j))"

text \<open>The steps that are not new calls.\<close>

definition inner_step :: "bool \<Rightarrow> thread_pool \<Rightarrow> thread_pool \<Rightarrow> bool" where
  "inner_step fails s s' \<longleftrightarrow> pool_step fails s s' \<and> called s' = called s"

lemma sum_upd:
  assumes "finite A" "x \<in> A"
  shows "(\<Sum>i \<in> A. g ((f(x := v)) i)) + g (f x) = (\<Sum>i \<in> A. g (f i)) + (g v :: nat)"
proof -
  have "(\<Sum>i \<in> A - {x}. g ((f(x := v)) i)) = (\<Sum>i \<in> A - {x}. g (f i))" by (intro sum.cong) auto
  then show ?thesis using sum.remove[OF assms, of "\<lambda>i. g ((f(x := v)) i)"] sum.remove[OF assms, of "\<lambda>i. g (f i)"] by simp
qed

lemma inner_step_weight:
  assumes "inner_step fails s s'" "places_ok s" "finite (called s)"
  shows "pool_weight s' < pool_weight s"
proof -
  have st: "pool_step fails s s'" and c: "called s' = called s" using assms(1) by (auto simp: inner_step_def)
  note p = places_okD[OF assms(2)]
  have ct: "t \<in> called s" if "tp_threads s t \<noteq> No_thread" for t using counted_called[OF assms(2)] that by (auto simp: counted_def)
  note w = sum_upd[OF assms(3)]
  from st show ?thesis
  proof (cases rule: pool_step.cases)
    case (call j)
    then have "j \<in> called s'" "j \<notin> called s" by (auto simp: called_def new_locked_def)
    then show ?thesis using c by simp
  next
    case (created j)
    have "tp_threads s j = No_thread" using p(4)[of j] created by auto
    moreover have "j \<in> called s" using created by (simp add: called_def)
    ultimately show ?thesis using created w[of j job_weight "tp_jobs s" "Taken j"] w[of j thread_weight "tp_threads s" "Busy j"]
      unfolding pool_weight_def c by (simp add: thread_created_def)
  next
    case (refused j)
    then have "j \<in> called s" by (simp add: called_def)
    then show ?thesis using refused w[of j job_weight "tp_jobs s" Create_failed] unfolding pool_weight_def c
      by (simp add: thread_not_created_def)
  next
    case (gave_up j)
    then have "j \<in> called s" by (simp add: called_def)
    then show ?thesis using gave_up w[of j job_weight "tp_jobs s" Given_up] unfolding pool_weight_def c
      by (simp add: creation_failed_def)
  next
    case (ran t j)
    have j: "tp_jobs s j = Taken t" using p(3) ran by blast
    then have "j \<in> called s" "t \<in> called s" using ct[of t] ran by (auto simp: called_def)
    then show ?thesis using ran j w[of j job_weight "tp_jobs s" "Finished t"] w[of t thread_weight "tp_threads s" Between]
      unfolding pool_weight_def c by (simp add: z_thread_func_core_def)
  next
    case (took t)
    have t: "t \<in> called s" using ct[of t] took by simp
    show ?thesis
    proof (cases "tp_queue s")
      case Nil
      then show ?thesis using took t w[of t thread_weight "tp_threads s" No_thread] unfolding pool_weight_def c by (simp add: take_next_def)
    next
      case (Cons j js)
      then have "tp_jobs s j = Queued" using p(2)[of j] by simp
      moreover from this have "j \<in> called s" by (simp add: called_def)
      ultimately show ?thesis using took t Cons w[of j job_weight "tp_jobs s" "Taken t"] w[of t thread_weight "tp_threads s" "Busy j"]
        unfolding pool_weight_def c by (simp add: take_next_def)
    qed
  qed
qed

text \<open>Without failures, a job waits only while \<open>max_threads\<close> threads run.\<close>

definition queue_served :: "thread_pool \<Rightarrow> bool" where
  "queue_served s \<longleftrightarrow> (tp_queue s \<noteq> [] \<longrightarrow> tp_num s = tp_max s) \<and> (\<forall>j. tp_jobs s j \<noteq> Create_failed \<and> tp_jobs s j \<noteq> Given_up)"

lemma queue_served_step:
  assumes "pool_step False s s'" "queue_served s" "counts_ok s"
  shows "queue_served s'"
  using assms by (cases rule: pool_step.cases) (auto simp: queue_served_def pool_defs counts_ok_def split: list.splits)

lemma served_inv:
  assumes "pool_steps False (z_thread_init mx starts stops) s" "0 \<le> mx"
  shows "queue_served s \<and> places_ok s \<and> counts_ok s \<and> tp_max s = mx"
  using assms(1)
proof induction
  case base
  show ?case using pool_init_ok[OF assms(2)] by (simp add: queue_served_def z_thread_init_def)
next
  case (step s s')
  moreover have "tp_max s' = tp_max s" using step(2) by (auto simp: pool_defs elim!: pool_step.cases split: list.splits)
  ultimately show ?case using queue_served_step places_step counts_step by metis
qed

lemma inner_steps_pool: "(inner_step fails)\<^sup>*\<^sup>* s s' \<Longrightarrow> pool_steps fails s s' \<and> called s' = called s"
  by (induction rule: rtranclp_induct) (auto simp: inner_step_def)

lemma pool_at_rest:
  assumes "\<nexists>s'. inner_step False s s'" "queue_served s" "places_ok s" "counts_ok s" "0 < tp_max s"
  shows "tp_num s = 0 \<and> (\<forall>j \<in> called s. \<exists>t. tp_jobs s j = Finished t \<and> count_list (tp_events s t) (Ran j) = 1)"
proof -
  note p = places_okD[OF assms(3)]
  have stuck: "called s' \<noteq> called s" if "pool_step False s s'" for s' using assms(1) that by (auto simp: inner_step_def)
  have "tp_jobs s j \<noteq> Counted" for j
  proof
    assume j: "tp_jobs s j = Counted"
    then have "called (thread_created j s) = called s" by (auto simp: called_def thread_created_def)
    then show False using stuck pool_step.created[OF j] by blast
  qed
  moreover have b: "tp_threads s t \<noteq> Busy j" for t j
  proof
    assume j: "tp_threads s t = Busy j"
    then have "tp_jobs s j = Taken t" using p(3) by blast
    then have "called (z_thread_func_core t j s) = called s" by (auto simp: called_def z_thread_func_core_def)
    then show False using stuck pool_step.ran[OF j] by blast
  qed
  moreover have "tp_threads s t \<noteq> Between" for t
  proof
    assume t: "tp_threads s t = Between"
    have "called (take_next t s) = called s"
    proof (cases "tp_queue s")
      case (Cons j js)
      then have "tp_jobs s j = Queued" using p(2)[of j] by simp
      then show ?thesis using Cons by (auto simp: called_def take_next_def)
    qed (simp add: called_def take_next_def)
    then show False using stuck pool_step.took[OF t] by blast
  qed
  ultimately have "tp_jobs s j \<noteq> Counted" "tp_threads s j = No_thread" for j by (blast, cases "tp_threads s j") auto
  then have "counted s = {}" using assms(2) by (auto simp: counted_def queue_served_def)
  then have n: "tp_num s = 0" using assms(4) by (simp add: counts_ok_def)
  then have "tp_queue s = []" using assms(2,5) by (auto simp: queue_served_def)
  then have "tp_jobs s j \<noteq> Queued" for j using p(2)[of j] by simp
  moreover have "tp_jobs s j \<noteq> Taken t" for j t using p(3)[of t j] b by simp
  ultimately have "\<exists>t. tp_jobs s j = Finished t" if "j \<in> called s" for j
    using that assms(2) \<open>counted s = {}\<close> by (cases "tp_jobs s j") (auto simp: called_def queue_served_def counted_def)
  then show ?thesis using n p(5) by fastforce
qed

text \<open>
  C11: When the system does not refuse threads and \<open>max_threads\<close> is positive, the pool comes to rest after a number of steps that is bounded by
  the jobs that were accepted, in whatever order the steps are taken, and at rest every accepted job has run exactly once and no thread is left.
\<close>

theorem pool_drains:
  assumes "0 < mx" "pool_steps False (z_thread_init mx starts stops) s"
  shows "(\<forall>n s'. (inner_step False ^^ n) s s' \<longrightarrow> n \<le> pool_weight s)
    \<and> (\<forall>s'. (inner_step False)\<^sup>*\<^sup>* s s' \<longrightarrow> (\<nexists>s''. inner_step False s' s'') \<longrightarrow>
         tp_num s' = 0 \<and> (\<forall>j \<in> called s. \<exists>t. tp_jobs s' j = Finished t \<and> count_list (tp_events s' t) (Ran j) = 1))"
proof (intro conjI allI impI)
  fix n s' assume "(inner_step False ^^ n) s s'"
  then have "n + pool_weight s' \<le> pool_weight s"
  proof (induction n arbitrary: s')
    case (Suc n)
    then obtain u where u: "(inner_step False ^^ n) s u" "inner_step False u s'" by auto
    have "pool_steps False (z_thread_init mx starts stops) u"
      using inner_steps_pool[of False s u] u(1) assms(2) by (auto dest!: relpowp_imp_rtranclp)
    then have "places_ok u" "finite (called u)" using pool_inv[of False mx starts stops u] assms(1) by (auto simp: counts_ok_def)
    then show ?case using Suc.IH[OF u(1)] inner_step_weight[OF u(2)] by simp
  qed simp
  then show "n \<le> pool_weight s" by simp
next
  fix s' assume s': "(inner_step False)\<^sup>*\<^sup>* s s'" and rest: "\<nexists>s''. inner_step False s' s''"
  have "pool_steps False (z_thread_init mx starts stops) s'" "called s' = called s"
    using inner_steps_pool[OF s'] assms(2) by auto
  then show "tp_num s' = 0" "\<forall>j \<in> called s. \<exists>t. tp_jobs s' j = Finished t \<and> count_list (tp_events s' t) (Ran j) = 1"
    using pool_at_rest[OF rest] served_inv[of mx starts stops s'] assms(1) by auto
qed

lemma pool_drains_witness:
  "\<exists>s'. (inner_step False)\<^sup>*\<^sup>* demo_pool s' \<and> tp_num s' = 0 \<and> (\<forall>j \<in> {0, 1}. \<exists>t. tp_jobs s' j = Finished t \<and> count_list (tp_events s' t) (Ran j) = 1)"
proof -
  let ?u = "z_thread_func_core 0 1 demo_pool"
  let ?v = "take_next 0 ?u"
  have c: "called demo_pool = {0, 1}" "called ?u = {0, 1}" "called ?v = {0, 1}"
    by (auto simp: demo_pool_defs called_def split: if_splits)
  have "pool_step False demo_pool ?u" by (rule pool_step.ran) (simp add: demo_pool_defs)
  then have a: "inner_step False demo_pool ?u" using c by (simp add: inner_step_def)
  have "pool_step False ?u ?v" by (rule pool_step.took) (simp add: demo_pool_defs)
  then have b: "inner_step False ?u ?v" using c by (simp add: inner_step_def)
  note into = rtranclp.rtrancl_into_rtrancl[of "inner_step False" demo_pool]
  have r: "(inner_step False)\<^sup>*\<^sup>* demo_pool ?v" by (rule into[OF into[OF rtranclp.rtrancl_refl a] b])
  have v: "tp_jobs ?v j \<notin> {Counted, Create_failed}" "tp_threads ?v j = No_thread" for j by (auto simp: demo_pool_defs)
  have "called s' \<noteq> called ?v" if "pool_step False ?v s'" for s'
    using that
  proof (cases rule: pool_step.cases)
    case (call j)
    then have "j \<in> called s'" "j \<notin> called ?v" by (auto simp: called_def new_locked_def)
    then show ?thesis by blast
  qed (use v in auto)
  then have "\<nexists>s''. inner_step False ?v s''" by (auto simp: inner_step_def)
  then show ?thesis using pool_drains[OF _ demo_pool_run] r c(1) by (intro exI[of _ ?v]) auto
qed

text \<open>When the system refuses a thread while another call queues its job, that job is left in the queue with no thread that would take it: the pool is at
  rest with an accepted job that has not run.
\<close>

theorem pool_strands_job:
  "\<exists>s. pool_steps True (z_thread_init 1 starts stops) s \<and> tp_queue s = [1] \<and> tp_jobs s 1 = Queued \<and> tp_num s = 0 \<and> tp_refs s = 2
    \<and> (\<nexists>s'. inner_step True s s')"
proof -
  let ?s0 = "z_thread_init 1 starts stops"
  let ?s1 = "new_locked 0 ?s0" let ?s2 = "new_locked 1 ?s1" let ?s3 = "thread_not_created 0 ?s2" let ?z = "creation_failed 0 ?s3"
  have a: "pool_step True ?s0 ?s1" by (rule pool_step.call) (simp add: z_thread_init_def)
  have b: "pool_step True ?s1 ?s2" by (rule pool_step.call) (simp add: demo_pool_defs)
  have c: "pool_step True ?s2 ?s3" by (rule pool_step.refused) (simp_all add: demo_pool_defs)
  have d: "pool_step True ?s3 ?z" by (rule pool_step.gave_up) (simp add: demo_pool_defs)
  note into = rtranclp.rtrancl_into_rtrancl[of "pool_step True" ?s0]
  have r: "pool_steps True ?s0 ?z" by (rule into[OF into[OF into[OF into[OF rtranclp.rtrancl_refl a] b] c] d])
  have v: "tp_jobs ?z j \<notin> {Counted, Create_failed}" "tp_threads ?z j = No_thread" for j by (auto simp: demo_pool_defs)
  have "called s' \<noteq> called ?z" if "pool_step True ?z s'" for s'
    using that
  proof (cases rule: pool_step.cases)
    case (call j)
    then have "j \<in> called s'" "j \<notin> called ?z" by (auto simp: called_def new_locked_def)
    then show ?thesis by blast
  qed (use v in auto)
  then have "\<nexists>s'. inner_step True ?z s'" by (auto simp: inner_step_def)
  then show ?thesis using r by (intro exI[of _ ?z]) (simp add: demo_pool_defs)
qed

end
