(* ===== verification/Gzip_Header.thy ===== *)
theory Gzip_Header
  imports Stream_IO
begin

section \<open>Compressed streams\<close>

text \<open>
  \<open>src/streamgzip.c\<close>: a stream that compresses what is written and decompresses what is read, with the header and trailer of the gzip
  format. The child is a stream of the base class (theory \<open>Stream_IO\<close>), given by its number \<open>c\<close>. zlib is a parameter: a record
  of its functions, each with the state of the (de)compressor before and after, the number of bytes consumed and the bytes put out. The output
  buffer is the list of the bytes before \<open>next_out\<close>; \<open>buffer_encode_out_p\<close> is an offset in it.
\<close>

datatype zflush = No_flush | Sync_flush | Finish_flush

datatype zcode = Z_OK | Z_STREAM_END | Z_failed

record ('e, 'd) zlib =
  zl_deflate :: "'e \<Rightarrow> bytes \<Rightarrow> nat \<Rightarrow> zflush \<Rightarrow> 'e \<times> nat \<times> bytes \<times> zcode"
  zl_deflate_end :: "'e \<Rightarrow> zcode"
  zl_inflate :: "'d \<Rightarrow> bytes \<Rightarrow> nat \<Rightarrow> 'd \<times> nat \<times> bytes \<times> zcode"
  zl_inflate_end :: "'d \<Rightarrow> zcode"
  zl_crc32 :: "nat \<Rightarrow> bytes \<Rightarrow> nat"

record ('e, 'd) zstream_gzip =
  gz_sync_flush :: bool         \<comment> \<open>the flags\<close>
  gz_gzip_header :: bool
  gz_write_empty_header :: bool
  gz_encode :: 'e
  gz_decode :: 'd
  gz_buffer_length :: nat
  gz_out :: bytes
  gz_out_p :: nat
  gz_in :: bytes                \<comment> \<open>the bytes that \<open>decode.next_in\<close> and \<open>avail_in\<close> describe\<close>
  gz_eof_received :: bool       \<comment> \<open>\<open>state\<close>\<close>
  gz_finished :: bool
  gz_header_read :: bool
  gz_header_written :: bool
  gz_read_error :: bool
  gz_write_error :: bool
  gz_shutdown_in :: bool
  gz_shutdown_out :: bool
  gz_child_in :: bool           \<comment> \<open>\<open>child_cond\<close>\<close>
  gz_child_out :: bool
  gz_encode_crc :: nat
  gz_encode_in :: nat
  gz_timestamp :: nat
  gz_extra :: "bytes option"
  gz_origname :: "bytes option"
  gz_comment :: "bytes option"

definition Z_GZ_OS_CODE :: byte where "Z_GZ_OS_CODE = 3"
definition Z_GZH_HEAD_CRC :: byte where "Z_GZH_HEAD_CRC = 2"
definition Z_GZH_EXTRA_FIELD :: byte where "Z_GZH_EXTRA_FIELD = 4"
definition Z_GZH_ORIG_NAME :: byte where "Z_GZH_ORIG_NAME = 8"
definition Z_GZH_COMMENT :: byte where "Z_GZH_COMMENT = 16"
definition MAX_GZIP_HEADER_STRING :: nat where "MAX_GZIP_HEADER_STRING = 4096"

definition GZIP_IS_GZIP_MAGIC :: "bytes \<Rightarrow> bool" where
  "GZIP_IS_GZIP_MAGIC b \<longleftrightarrow> b ! 0 = 0x1F \<and> b ! 1 = 0x8B \<and> b ! 2 = 8 \<and> b ! 3 AND 0xE0 = 0"

subsection \<open>Strings of the header\<close>

text \<open>What is in the pushed back packets.\<close>

definition ungot_left :: "world \<Rightarrow> nat \<Rightarrow> nat" where
  "ungot_left w a = (case get_st w a of Inl e \<Rightarrow> 0 | Inr s \<Rightarrow> sum_list (map (\<lambda>p. length (pkt_data w p)) (st_ungot s)))"

lemma sum_list_le: "(\<And>x. x \<in> set xs \<Longrightarrow> f x \<le> g x) \<Longrightarrow> sum_list (map f xs) \<le> (sum_list (map g xs) :: nat)"
  by (induction xs) (auto intro: add_mono)

lemma read_byte_progress:
  assumes "z_stream_read w a (Suc 0) = Inr (w', IO_NORMAL, d)"
  shows "read_left w' a + ungot_left w' a < read_left w a + ungot_left w a"
proof -
  obtain s where s: "get_st w a = Inr s" using assms(1) by (auto simp: z_stream_read_def rbind_eq_Inr)
  show ?thesis
  proof (cases "st_ungot s")
    case Nil
    obtain es rc e where cr: "child_read (Suc 0) (st_input s) = (es, rc, e)" by (metis prod.exhaust)
    let ?w = "put_st a (s\<lparr>st_input := es\<rparr>) w"
    have g: "get_st ?w a = Inr (s\<lparr>st_input := es\<rparr>)" using s by (simp add: get_put)
    have c: "count_in ?w a rc e = Inr (w', IO_NORMAL, d)" using assms(1) s Nil cr by (simp add: z_stream_read_def)
    then have rc: "rc = IO_NORMAL" by (auto simp: count_in_def split: if_splits)
    then have "w' = put_st a (s\<lparr>st_input := es, st_recvd := addz (st_recvd s) (length e)\<rparr>) ?w" using c count_in_NORMAL[OF g, of e] by auto
    then have "get_st w' a = Inr (s\<lparr>st_input := es, st_recvd := addz (st_recvd s) (length e)\<rparr>)" using g by (simp add: get_put)
    moreover have "child_size es < child_size (st_input s)" using child_read_NORMAL[of "Suc 0" "st_input s" es e] cr rc by simp
    ultimately show ?thesis using s Nil by (simp add: read_left_def ungot_left_def)
  next
    case (Cons p ps)
    obtain k e where pk: "slot (w_pkts w) p = Some (k, e)"
      using assms(1) s Cons by (auto simp: z_stream_read_def split: option.splits)
    show ?thesis
    proof (cases "Suc 0 \<ge> length e")
      case True
      let ?w = "put_st a (s\<lparr>st_ungot := ps\<rparr>) w"
      obtain w1 where w1: "ungot_unref ?w p = Inr w1" "count_in w1 a IO_NORMAL e = Inr (w', IO_NORMAL, d)"
        using assms(1) s Cons pk True by (auto simp: z_stream_read_def rbind_eq_Inr)
      have pd: "length (pkt_data w1 q) \<le> length (pkt_data w q)" for q
      proof -
        obtain n' zero where "w_pkts w1 = (w_pkts w)[p := if zero then None else Some (n', e)]"
          using w1(1) pk by (auto simp: ungot_unref_def rbind_eq_Inr)
        then show ?thesis using pk slot_Some[OF pk] by (auto simp: pkt_data_def slot_update)
      qed
      have "get_st w1 a = get_st ?w a" using w1(1) by (auto simp: ungot_unref_def rbind_eq_Inr split: option.splits)
      then have g: "get_st w1 a = Inr (s\<lparr>st_ungot := ps\<rparr>)" using s by (simp add: get_put)
      then have w': "w' = put_st a (s\<lparr>st_ungot := ps, st_recvd := addz (st_recvd s) (length e)\<rparr>) w1"
        using count_in_NORMAL[OF g, of e] w1(2) by simp
      have "sum_list (map (\<lambda>q. length (pkt_data w1 q)) ps) \<le> sum_list (map (\<lambda>q. length (pkt_data w q)) ps)"
        using pd by (intro sum_list_le) auto
      then show ?thesis using s Cons w' g by (simp add: read_left_def ungot_left_def get_put)
    next
      case False
      let ?w = "w\<lparr>w_pkts := (w_pkts w)[p := Some (k, drop (Suc 0) e)]\<rparr>"
      have "count_in ?w a IO_NORMAL (take (Suc 0) e) = Inr (w', IO_NORMAL, d)"
        using assms(1) s Cons pk False by (simp add: z_stream_read_def)
      moreover have g: "get_st ?w a = Inr s" using s by simp
      ultimately have w': "w' = put_st a (s\<lparr>st_recvd := addz (st_recvd s) (length (take (Suc 0) e))\<rparr>) ?w"
        using count_in_NORMAL[OF g] by auto
      have pd: "pkt_data ?w q = (if q = p then drop (Suc 0) e else pkt_data w q)" for q
        using slot_Some[OF pk] by (simp add: pkt_data_def slot_update)
      have pe: "pkt_data w p = e" using pk by (simp add: pkt_data_def)
      have "sum_list (map (\<lambda>q. length (pkt_data ?w q)) ps) \<le> sum_list (map (\<lambda>q. length (pkt_data w q)) ps)"
        by (intro sum_list_le) (auto simp: pd pe)
      moreover have "length (pkt_data ?w p) < length (pkt_data w p)" using False by (simp add: pd pe)
      ultimately show ?thesis using s Cons w' g by (simp add: read_left_def ungot_left_def get_put)
    qed
  qed
qed

text \<open>
  The two loops of \<open>z_stream_gzip_read_gzip_string\<close>. \<open>junk\<close> is what the array and the variable \<open>ch\<close> hold before anything is stored in them. The
  first loop returns the string, the last status and \<open>buf[rdlen]\<close>.
\<close>

function string_loop :: "(nat \<Rightarrow> byte) \<Rightarrow> nat \<Rightarrow> world \<Rightarrow> bytes \<Rightarrow> (world \<times> bytes \<times> io_status \<times> byte) result" where
  "string_loop junk c w buf =
     (if length buf \<ge> MAX_GZIP_HEADER_STRING - 1 then Inr (w, buf, IO_NORMAL, junk (length buf))
      else rbind (z_stream_read w c 1) (\<lambda>(w1, status, d).
        let b = (if d = [] then junk (length buf) else hd d)
        in if status = IO_NORMAL \<and> b \<noteq> 0 then string_loop junk c w1 (buf @ d) else Inr (w1, buf, status, b)))"
  by pat_completeness auto
termination
  by (relation "measure (\<lambda>(junk, c, w, buf). read_left w c + ungot_left w c)") (auto dest: read_byte_progress)

function skip_loop :: "byte \<Rightarrow> nat \<Rightarrow> world \<Rightarrow> (world \<times> io_status) result" where
  "skip_loop ch c w =
     rbind (z_stream_read w c 1) (\<lambda>(w1, status, d).
       let ch1 = (if d = [] then ch else hd d)
       in if status = IO_NORMAL \<and> ch1 \<noteq> 0 then skip_loop ch1 c w1 else Inr (w1, status))"
  by pat_completeness auto
termination
  by (relation "measure (\<lambda>(ch, c, w). read_left w c + ungot_left w c)") (auto dest: read_byte_progress)

declare string_loop.simps [simp del] skip_loop.simps [simp del]

definition z_stream_gzip_read_gzip_string :: "(nat \<Rightarrow> byte) \<Rightarrow> nat \<Rightarrow> world \<Rightarrow> (world \<times> bytes option) result" where
  "z_stream_gzip_read_gzip_string junk c w =
     rbind (string_loop junk c w []) (\<lambda>(w1, buf, status, b).
     rbind (if b \<noteq> 0 then skip_loop (junk MAX_GZIP_HEADER_STRING) c w1 else Inr (w1, status)) (\<lambda>(w2, status2).
       Inr (w2, if status2 = IO_NORMAL then Some buf else None)))"

subsection \<open>The header\<close>

definition z_stream_gzip_reset_gzip_header :: "('e, 'd) zstream_gzip \<Rightarrow> ('e, 'd) zstream_gzip" where
  "z_stream_gzip_reset_gzip_header self = self\<lparr>gz_origname := None, gz_comment := None, gz_extra := None\<rparr>"

text \<open>A chunk of exactly \<open>n\<close> bytes, or what makes the function jump to \<open>error\<close>; \<open>g_new0\<close> of no bytes is \<open>NULL\<close>.\<close>

definition read_exactly :: "nat \<Rightarrow> world \<Rightarrow> nat \<Rightarrow> (world \<times> bool \<times> bytes) result" where
  "read_exactly c w n = rbind (z_stream_read_chunk w c n) (\<lambda>(w1, status, d). Inr (w1, status = IO_NORMAL \<and> length d = n, d))"

definition new_extra :: "nat \<Rightarrow> bytes \<Rightarrow> bytes option" where
  "new_extra n d = (if n = 0 then None else Some (d @ replicate (n - length d) 0))"

definition read_extra :: "nat \<Rightarrow> ('e, 'd) zstream_gzip \<Rightarrow> world \<Rightarrow> (('e, 'd) zstream_gzip \<times> world \<times> bool) result" where
  "read_extra c self w =
     rbind (read_exactly c w 2) (\<lambda>(w1, ok, b).
       if \<not> ok then Inr (self, w1, False)
       else let n = unat (b ! 0) + unat (b ! 1) * 256
         in rbind (read_exactly c w1 n) (\<lambda>(w2, ok2, d). Inr (self\<lparr>gz_extra := new_extra n d\<rparr>, w2, ok2)))"

text \<open>The optional fields; \<open>flags\<close> is \<open>buf[3]\<close>.\<close>

definition field_extra :: "nat \<Rightarrow> byte \<Rightarrow> ('e, 'd) zstream_gzip \<Rightarrow> world \<Rightarrow> (('e, 'd) zstream_gzip \<times> world \<times> bool) result" where
  "field_extra c flags self w = (if flags AND Z_GZH_EXTRA_FIELD \<noteq> 0 then read_extra c self w else Inr (self, w, True))"

definition field_name :: "(nat \<Rightarrow> byte) \<Rightarrow> nat \<Rightarrow> byte \<Rightarrow> ('e, 'd) zstream_gzip \<Rightarrow> world \<Rightarrow> (('e, 'd) zstream_gzip \<times> world \<times> bool) result" where
  "field_name junk c flags self w =
     (if flags AND Z_GZH_ORIG_NAME \<noteq> 0
      then rbind (z_stream_gzip_read_gzip_string junk c w) (\<lambda>(w1, s). Inr (if s = None then self else self\<lparr>gz_origname := s\<rparr>, w1, s \<noteq> None))
      else Inr (self, w, True))"

definition field_comment :: "(nat \<Rightarrow> byte) \<Rightarrow> nat \<Rightarrow> byte \<Rightarrow> ('e, 'd) zstream_gzip \<Rightarrow> world \<Rightarrow> (('e, 'd) zstream_gzip \<times> world \<times> bool) result" where
  "field_comment junk c flags self w =
     (if flags AND Z_GZH_COMMENT \<noteq> 0
      then rbind (z_stream_gzip_read_gzip_string junk c w) (\<lambda>(w1, s). Inr (if s = None then self else self\<lparr>gz_comment := s\<rparr>, w1, s \<noteq> None))
      else Inr (self, w, True))"

definition field_crc :: "nat \<Rightarrow> byte \<Rightarrow> world \<Rightarrow> (world \<times> bool) result" where
  "field_crc c flags w =
     (if flags AND Z_GZH_HEAD_CRC \<noteq> 0 then rbind (read_exactly c w 2) (\<lambda>(w1, ok, d). Inr (w1, ok)) else Inr (w, True))"

definition z_stream_gzip_read_gzip_header :: "(nat \<Rightarrow> byte) \<Rightarrow> nat \<Rightarrow> ('e, 'd) zstream_gzip \<Rightarrow> world \<Rightarrow> (('e, 'd) zstream_gzip \<times> world \<times> bool) result" where
  "z_stream_gzip_read_gzip_header junk c self w =
     (if \<not> gz_gzip_header self \<or> gz_header_read self then Inr (self, w, True)
      else
        let self0 = z_stream_gzip_reset_gzip_header (self\<lparr>gz_header_read := True\<rparr>)
        in rbind (read_exactly c w 4) (\<lambda>(w1, ok1, b).
           if \<not> ok1 \<or> \<not> GZIP_IS_GZIP_MAGIC b then Inr (self0, w1, False)
           else rbind (read_exactly c w1 6) (\<lambda>(w2, ok2, t).
             if \<not> ok2 then Inr (self0, w2, False)
             else let self1 = self0\<lparr>gz_timestamp := unat (t ! 0) + unat (t ! 1) * 2 ^ 8 + unat (t ! 2) * 2 ^ 16 + unat (t ! 3) * 2 ^ 24\<rparr>
               in rbind (field_extra c (b ! 3) self1 w2) (\<lambda>(self2, w3, ok3).
                 if \<not> ok3 then Inr (self2, w3, False)
                 else rbind (field_name junk c (b ! 3) self2 w3) (\<lambda>(self3, w4, ok4).
                   if \<not> ok4 then Inr (self3, w4, False)
                   else rbind (field_comment junk c (b ! 3) self3 w4) (\<lambda>(self4, w5, ok5).
                     if \<not> ok5 then Inr (self4, w5, False)
                     else rbind (field_crc c (b ! 3) w5) (\<lambda>(w6, ok6). Inr (self4, w6, ok6))))))))"

text \<open>The bytes of the fixed part of the header, and the pieces that are written one after the other.\<close>

definition header_flags :: "('e, 'd) zstream_gzip \<Rightarrow> byte" where
  "header_flags self = (if gz_origname self \<noteq> None then Z_GZH_ORIG_NAME else 0) OR (if gz_comment self \<noteq> None then Z_GZH_COMMENT else 0)
     OR (if gz_extra self \<noteq> None then Z_GZH_EXTRA_FIELD else 0)"

definition four_bytes :: "nat \<Rightarrow> bytes" where
  "four_bytes n = [of_nat (n mod 256), of_nat (n div 2 ^ 8 mod 256), of_nat (n div 2 ^ 16 mod 256), of_nat (n div 2 ^ 24 mod 256)]"

definition header_pieces :: "('e, 'd) zstream_gzip \<Rightarrow> bytes list" where
  "header_pieces self =
     [[0x1F, 0x8B, 8, header_flags self] @ four_bytes (gz_timestamp self) @ [0, Z_GZ_OS_CODE]]
     @ (case gz_extra self of None \<Rightarrow> [] | Some e \<Rightarrow> [[of_nat (length e mod 256), of_nat (length e div 256 mod 256)], e])
     @ (case gz_origname self of None \<Rightarrow> [] | Some s \<Rightarrow> [s @ [0]])
     @ (case gz_comment self of None \<Rightarrow> [] | Some s \<Rightarrow> [s @ [0]])"

fun write_pieces :: "nat \<Rightarrow> bytes list \<Rightarrow> world \<Rightarrow> (world \<times> bool) result" where
  "write_pieces c [] w = Inr (w, True)"
| "write_pieces c (d # ds) w =
     rbind (z_stream_write_chunk w c d) (\<lambda>(w1, status, n). if status \<noteq> IO_NORMAL then Inr (w1, False) else write_pieces c ds w1)"

definition z_stream_gzip_write_gzip_header :: "nat \<Rightarrow> ('e, 'd) zstream_gzip \<Rightarrow> world \<Rightarrow> (('e, 'd) zstream_gzip \<times> world \<times> bool) result" where
  "z_stream_gzip_write_gzip_header c self w =
     (if \<not> gz_gzip_header self \<or> gz_header_written self then Inr (self, w, True)
      else rbind (write_pieces c (header_pieces self) w) (\<lambda>(w1, ok). Inr (self\<lparr>gz_header_written := True\<rparr>, w1, ok)))"

definition z_stream_gzip_write_gzip_trailer :: "nat \<Rightarrow> ('e, 'd) zstream_gzip \<Rightarrow> world \<Rightarrow> (world \<times> bool) result" where
  "z_stream_gzip_write_gzip_trailer c self w =
     (if gz_gzip_header self \<and> gz_header_written self
      then rbind (z_stream_write_chunk w c (four_bytes (gz_encode_crc self) @ four_bytes (gz_encode_in self))) (\<lambda>(w1, status, n).
        Inr (w1, status = IO_NORMAL))
      else Inr (w, True))"

text \<open>\<open>memcpy\<close> to \<open>gzip_extra\<close>, which was just set to \<open>NULL\<close>.\<close>

definition z_stream_gzip_set_header_fields :: "nat \<Rightarrow> nat \<Rightarrow> bytes option \<Rightarrow> bytes option \<Rightarrow> bytes \<Rightarrow> ('e, 'd) zstream_gzip \<Rightarrow> ('e, 'd) zstream_gzip result" where
  "z_stream_gzip_set_header_fields now timestamp origname comment extra self =
     (let self1 = (z_stream_gzip_reset_gzip_header self)
            \<lparr>gz_timestamp := if timestamp \<noteq> 0 then timestamp else now, gz_origname := origname, gz_comment := comment\<rparr>
      in if length extra > 0 then Inl Bad_access else Inr self1)"

definition z_stream_gzip_get_header_fields :: "('e, 'd) zstream_gzip \<Rightarrow> nat \<times> bytes option \<times> bytes option \<times> bytes option" where
  "z_stream_gzip_get_header_fields self = (gz_timestamp self, gz_origname self, gz_comment self, gz_extra self)"

subsection \<open>Reading back what was written\<close>

text \<open>A child without pushed back data whose reads are never empty.\<close>

fun dense :: "child \<Rightarrow> bool" where
  "dense [] = True"
| "dense (Data bs # es) \<longleftrightarrow> bs \<noteq> [] \<and> dense es"
| "dense (_ # es) = False"

definition dense_source :: "nat \<Rightarrow> world \<Rightarrow> bool" where
  "dense_source c w \<longleftrightarrow> (\<exists>s. get_st w c = Inr s \<and> st_ungot s = [] \<and> dense (st_input s))"

lemma dense_steady: "dense es \<Longrightarrow> steady es"
  by (induction es rule: dense.induct) (auto simp: steady_def)

lemma dense_source_ok: "dense_source c w \<Longrightarrow> source_ok c w"
  by (auto simp: dense_source_def source_ok_def dense_steady)

lemma dense_child_read:
  assumes "dense es" "0 < n" "child_input es \<noteq> []"
  shows "\<exists>es' d. child_read n es = (es', IO_NORMAL, d) \<and> dense es' \<and> d \<noteq> [] \<and> length d \<le> n \<and> child_input es = d @ child_input es'"
  using assms by (cases "(n, es)" rule: child_read.cases) auto

lemma dense_read:
  assumes "dense_source c w" "0 < n" "to_read c w \<noteq> []"
  shows "\<exists>w' d. z_stream_read w c n = Inr (w', IO_NORMAL, d) \<and> dense_source c w' \<and> d \<noteq> [] \<and> length d \<le> n \<and> to_read c w = d @ to_read c w'"
proof -
  obtain s where s: "get_st w c = Inr s" "st_ungot s = []" "dense (st_input s)" using assms(1) by (auto simp: dense_source_def)
  then have t: "to_read c w = child_input (st_input s)" by (simp add: to_read_def)
  obtain es d where r: "child_read n (st_input s) = (es, IO_NORMAL, d)" "dense es" "d \<noteq> []" "length d \<le> n" "child_input (st_input s) = d @ child_input es"
    using dense_child_read[OF s(3) assms(2)] assms(3) t by auto
  let ?w = "put_st c (s\<lparr>st_input := es\<rparr>) w"
  have g: "get_st ?w c = Inr (s\<lparr>st_input := es\<rparr>)" using s(1) by (simp add: get_put)
  let ?w' = "put_st c (s\<lparr>st_input := es, st_recvd := addz (st_recvd s) (length d)\<rparr>) ?w"
  have "z_stream_read w c n = Inr (?w', IO_NORMAL, d)" using s r count_in_NORMAL[OF g, of d] by (simp add: z_stream_read_def)
  moreover have "get_st ?w' c = Inr (s\<lparr>st_input := es, st_recvd := addz (st_recvd s) (length d)\<rparr>)" using g by (simp add: get_put)
  then have "dense_source c ?w'" "to_read c ?w' = child_input es" using s r by (auto simp: dense_source_def to_read_def)
  ultimately show ?thesis using r(3-5) t by (intro exI[of _ ?w'] exI[of _ d]) auto
qed

lemma dense_loop:
  "dense_source c w \<Longrightarrow> n \<le> length (to_read c w) \<Longrightarrow>
   \<exists>w'. read_loop w c n = Inr (w', IO_NORMAL, take n (to_read c w)) \<and> dense_source c w' \<and> to_read c w' = drop n (to_read c w)"
proof (induction w c n rule: read_loop.induct)
  case (1 w c n)
  show ?case
  proof (cases "n = 0")
    case True
    then show ?thesis using 1(2) by (subst read_loop.simps) simp
  next
    case False
    then have "to_read c w \<noteq> []" using 1(3) by auto
    then obtain w1 d where r: "z_stream_read w c n = Inr (w1, IO_NORMAL, d)" "dense_source c w1" "length d \<le> n" "to_read c w = d @ to_read c w1"
      using dense_read[OF 1(2), of n] False by auto
    have "n - length d \<le> length (to_read c w1)" using 1(3) r(4) by simp
    with 1(1)[OF False r(1) refl refl refl r(2)] obtain w' where
      "read_loop w1 c (n - length d) = Inr (w', IO_NORMAL, take (n - length d) (to_read c w1))" "dense_source c w'"
      "to_read c w' = drop (n - length d) (to_read c w1)" by blast
    then show ?thesis using r False by (subst read_loop.simps) auto
  qed
qed

lemma dense_exactly:
  assumes "dense_source c w" "to_read c w = d @ r" "n = length d"
  shows "\<exists>w'. read_exactly c w n = Inr (w', True, d) \<and> dense_source c w' \<and> to_read c w' = r"
  using dense_loop[OF assms(1), of n] assms(2,3) by (auto simp: read_exactly_def z_stream_read_chunk_def)

lemma dense_string:
  assumes "dense_source c w" "to_read c w = s @ 0 # r" "0 \<notin> set s" "length s < MAX_GZIP_HEADER_STRING - 1"
  shows "\<exists>w'. z_stream_gzip_read_gzip_string junk c w = Inr (w', Some s) \<and> dense_source c w' \<and> to_read c w' = r"
proof -
  have "\<exists>w'. string_loop junk c w buf = Inr (w', buf @ s, IO_NORMAL, 0) \<and> dense_source c w' \<and> to_read c w' = r"
    if "dense_source c w" "to_read c w = s @ 0 # r" "0 \<notin> set s" "length buf + length s < MAX_GZIP_HEADER_STRING - 1" for buf
    using that
  proof (induction s arbitrary: w buf)
    case Nil
    then obtain w1 d where "z_stream_read w c 1 = Inr (w1, IO_NORMAL, d)" "dense_source c w1" "d \<noteq> []" "length d \<le> 1" "0 # r = d @ to_read c w1"
      using dense_read[OF Nil(1), of 1] by auto
    then show ?case using Nil.prems(4) by (subst string_loop.simps) (auto simp: Cons_eq_append_conv)
  next
    case (Cons b s)
    then obtain w1 d where r: "z_stream_read w c 1 = Inr (w1, IO_NORMAL, d)" "dense_source c w1" "d \<noteq> []" "length d \<le> 1" "b # s @ 0 # r = d @ to_read c w1"
      using dense_read[OF Cons.prems(1), of 1] by auto
    then have d: "d = [b]" "to_read c w1 = s @ 0 # r" by (auto simp: Cons_eq_append_conv)
    obtain w' where "string_loop junk c w1 (buf @ [b]) = Inr (w', buf @ b # s, IO_NORMAL, 0)" "dense_source c w'" "to_read c w' = r"
      using Cons.IH[OF r(2) d(2), of "buf @ [b]"] Cons.prems(3,4) by auto
    then show ?case using Cons.prems(3,4) r(1) d(1) by (subst string_loop.simps) auto
  qed
  from this[of "[]"] assms show ?thesis by (auto simp: z_stream_gzip_read_gzip_string_def)
qed

lemma four_bytes_value:
  assumes "n < 2 ^ 32" "four_bytes n = [b0, b1, b2, b3]"
  shows "unat b0 + unat b1 * 2 ^ 8 + unat b2 * 2 ^ 16 + unat b3 * 2 ^ 24 = n"
proof -
  have b: "unat b0 = n mod 256" "unat b1 = n div 256 mod 256" "unat b2 = n div 65536 mod 256" "unat b3 = n div 16777216"
    using assms by (auto simp: four_bytes_def unat_of_nat less_mult_imp_div_less)
  have "n = n div 256 * 256 + n mod 256" by simp
  moreover have "n div 256 = n div 65536 * 256 + n div 256 mod 256" using div_mult_mod_eq[of "n div 256" 256] by (simp add: div_mult2_eq[symmetric])
  moreover have "n div 65536 = n div 16777216 * 256 + n div 65536 mod 256"
    using div_mult_mod_eq[of "n div 65536" 256] by (simp add: div_mult2_eq[symmetric])
  ultimately have "n mod 256 + n div 256 mod 256 * 256 + n div 65536 mod 256 * 65536 + n div 16777216 * 16777216 = n" by linarith
  then show ?thesis unfolding b by simp
qed

lemma header_flag_bits:
  "header_flags self AND 0xE0 = 0" "header_flags self AND Z_GZH_HEAD_CRC = 0"
  "header_flags self AND Z_GZH_EXTRA_FIELD \<noteq> 0 \<longleftrightarrow> gz_extra self \<noteq> None"
  "header_flags self AND Z_GZH_ORIG_NAME \<noteq> 0 \<longleftrightarrow> gz_origname self \<noteq> None"
  "header_flags self AND Z_GZH_COMMENT \<noteq> 0 \<longleftrightarrow> gz_comment self \<noteq> None"
  by (auto simp: header_flags_def Z_GZH_HEAD_CRC_def Z_GZH_EXTRA_FIELD_def Z_GZH_ORIG_NAME_def Z_GZH_COMMENT_def)

text \<open>The fields that a header can hold: strings are C strings that fit the reader's array, the length of the extra field has two bytes.\<close>

definition header_fits :: "('e, 'd) zstream_gzip \<Rightarrow> bool" where
  "header_fits self \<longleftrightarrow> gz_timestamp self < 2 ^ 32
     \<and> (\<forall>e. gz_extra self = Some e \<longrightarrow> e \<noteq> [] \<and> length e < 65536)
     \<and> (\<forall>s. gz_origname self = Some s \<or> gz_comment self = Some s \<longrightarrow> 0 \<notin> set s \<and> length s < MAX_GZIP_HEADER_STRING - 1)"

lemma dense_extra:
  assumes "dense_source c w" "to_read c w = [of_nat (length e mod 256), of_nat (length e div 256 mod 256)] @ e @ r" "e \<noteq> []" "length e < 65536"
  shows "\<exists>w'. read_extra c self w = Inr (self\<lparr>gz_extra := Some e\<rparr>, w', True) \<and> dense_source c w' \<and> to_read c w' = r"
proof -
  obtain w1 where w1: "read_exactly c w 2 = Inr (w1, True, [of_nat (length e mod 256), of_nat (length e div 256 mod 256)])"
    "dense_source c w1" "to_read c w1 = e @ r" using dense_exactly[OF assms(1,2), of 2] by auto
  have n: "unat (of_nat (length e mod 256) :: byte) + unat (of_nat (length e div 256 mod 256) :: byte) * 256 = length e"
    using assms(4) div_mult_mod_eq[of "length e" 256] by (simp add: unat_of_nat less_mult_imp_div_less)
  have x: "new_extra (length e) e = Some e" using assms(3) by (simp add: new_extra_def)
  obtain w2 where "read_exactly c w1 (length e) = Inr (w2, True, e)" "dense_source c w2" "to_read c w2 = r"
    using dense_exactly[OF w1(2,3) refl] by blast
  then show ?thesis unfolding read_extra_def w1(1) by (simp add: n x)
qed

lemma write_loop_accept:
  "write_loop w a d = Inr (w', st, n) \<Longrightarrow> get_st w a = Inr s \<Longrightarrow> \<exists>s'. get_st w' a = Inr s' \<and> set (st_accept s') \<subseteq> set (st_accept s)"
proof (induction w a d arbitrary: s n rule: write_loop.induct)
  case (1 w a d)
  show ?case
  proof (cases "d = []")
    case True
    then show ?thesis using 1(2,3) by (simp add: write_loop.simps)
  next
    case False
    obtain es rc k where sw: "script_write (st_accept s) (length d) = (es, rc, k)" by (metis prod.exhaust)
    then have es: "set es \<subseteq> set (st_accept s)" by (cases "(st_accept s, length d)" rule: script_write.cases) auto
    let ?s = "(s\<lparr>st_accept := es, st_written := st_written s @ take k d\<rparr>)"
    let ?s2 = "if rc = IO_NORMAL then ?s\<lparr>st_sent := addz (st_sent ?s) k\<rparr> else ?s"
    have wr: "z_stream_write w a d = Inr (put_st a ?s2 w, rc, k)" using 1(3) sw by (simp add: z_stream_write_def Let_def)
    have g: "get_st (put_st a ?s2 w) a = Inr ?s2" using 1(3) by (simp add: get_put)
    show ?thesis
    proof (cases "rc = IO_NORMAL")
      case True
      obtain n' where "write_loop (put_st a ?s2 w) a (drop k d) = Inr (w', st, n')"
        using 1(2) False wr True by (subst (asm) write_loop.simps) (auto simp: rbind_eq_Inr)
      from 1(1)[OF False wr refl refl True this g] show ?thesis using es True by auto
    next
      case f: False
      then show ?thesis using 1(2) False wr g es by (subst (asm) write_loop.simps) auto
    qed
  qed
qed

lemma write_pieces_all:
  assumes "get_st w c = Inr s" "\<forall>e \<in> set (st_accept s). \<exists>k. e = Accept k"
  shows "\<exists>w' s'. write_pieces c ds w = Inr (w', True) \<and> get_st w' c = Inr s' \<and> st_written s' = st_written s @ concat ds
    \<and> set (st_accept s') \<subseteq> set (st_accept s)"
  using assms
proof (induction ds arbitrary: w s)
  case (Cons d ds)
  obtain w1 s1 where w1: "write_loop w c d = Inr (w1, IO_NORMAL, length d)" "get_st w1 c = Inr s1" "st_written s1 = st_written s @ d"
    using write_loop_all[OF Cons.prems] by blast
  have acc: "set (st_accept s1) \<subseteq> set (st_accept s)" using write_loop_accept[OF w1(1) Cons.prems(1)] w1(2) by auto
  obtain w2 s2 where "write_pieces c ds w1 = Inr (w2, True)" "get_st w2 c = Inr s2" "st_written s2 = st_written s1 @ concat ds"
    "set (st_accept s2) \<subseteq> set (st_accept s1)"
    using Cons.IH[OF w1(2)] acc Cons.prems(2) by blast
  then show ?case using w1 acc by (auto simp: z_stream_write_chunk_def)
qed auto

lemma header_read_back:
  assumes "dense_source c w" "to_read c w = concat (header_pieces h) @ r" "header_fits h" "gz_gzip_header self" "\<not> gz_header_read self"
  shows "\<exists>w'. z_stream_gzip_read_gzip_header junk c self w = Inr (self\<lparr>gz_header_read := True, gz_timestamp := gz_timestamp h, gz_extra := gz_extra h,
      gz_origname := gz_origname h, gz_comment := gz_comment h\<rparr>, w', True) \<and> to_read c w' = r"
proof -
  define rc where "rc = (case gz_comment h of None \<Rightarrow> [] | Some s \<Rightarrow> s @ [0]) @ r"
  define rn where "rn = (case gz_origname h of None \<Rightarrow> [] | Some s \<Rightarrow> s @ [0]) @ rc"
  define re where "re = (case gz_extra h of None \<Rightarrow> [] | Some e \<Rightarrow> [of_nat (length e mod 256), of_nat (length e div 256 mod 256)] @ e) @ rn"
  let ?b = "[0x1F, 0x8B, 8, header_flags h]" and ?t = "four_bytes (gz_timestamp h) @ [0, Z_GZ_OS_CODE]"
  have t: "to_read c w = ?b @ ?t @ re"
    unfolding assms(2) re_def rn_def rc_def header_pieces_def by (auto split: option.splits)
  obtain w1 where w1: "read_exactly c w 4 = Inr (w1, True, ?b)" "dense_source c w1" "to_read c w1 = ?t @ re"
    using dense_exactly[OF assms(1) t, of 4] by auto
  have "length ?t = 6" by (simp add: four_bytes_def)
  then obtain w2 where w2: "read_exactly c w1 6 = Inr (w2, True, ?t)" "dense_source c w2" "to_read c w2 = re"
    using dense_exactly[OF w1(2,3), of 6] by auto
  let ?self0 = "z_stream_gzip_reset_gzip_header (self\<lparr>gz_header_read := True\<rparr>)"
  let ?self1 = "?self0\<lparr>gz_timestamp := gz_timestamp h\<rparr>"
  have ts: "unat (?t ! 0) + unat (?t ! 1) * 2 ^ 8 + unat (?t ! 2) * 2 ^ 16 + unat (?t ! 3) * 2 ^ 24 = gz_timestamp h"
  proof -
    obtain b0 b1 b2 b3 where b: "four_bytes (gz_timestamp h) = [b0, b1, b2, b3]" by (simp add: four_bytes_def)
    show ?thesis using four_bytes_value[OF conjunct1[OF assms(3)[unfolded header_fits_def]] b] unfolding b by simp
  qed
  obtain w3 where w3: "field_extra c (header_flags h) ?self1 w2 = Inr (?self1\<lparr>gz_extra := gz_extra h\<rparr>, w3, True)" "dense_source c w3" "to_read c w3 = rn"
  proof (cases "gz_extra h")
    case None
    then show ?thesis using that[of w2] w2 by (simp add: field_extra_def header_flag_bits re_def z_stream_gzip_reset_gzip_header_def)
  next
    case (Some e)
    then show ?thesis using that dense_extra[OF w2(2), of e rn ?self1] w2(3) assms(3) by (auto simp: field_extra_def header_flag_bits re_def header_fits_def)
  qed
  let ?self2 = "?self1\<lparr>gz_extra := gz_extra h\<rparr>"
  obtain w4 where w4: "field_name junk c (header_flags h) ?self2 w3 = Inr (?self2\<lparr>gz_origname := gz_origname h\<rparr>, w4, True)" "dense_source c w4" "to_read c w4 = rc"
  proof (cases "gz_origname h")
    case None
    then show ?thesis using that[of w3] w3 by (simp add: field_name_def header_flag_bits rn_def z_stream_gzip_reset_gzip_header_def)
  next
    case (Some s)
    then show ?thesis using that dense_string[OF w3(2), of s rc junk] w3(3) assms(3) by (auto simp: field_name_def header_flag_bits rn_def header_fits_def)
  qed
  let ?self3 = "?self2\<lparr>gz_origname := gz_origname h\<rparr>"
  obtain w5 where w5: "field_comment junk c (header_flags h) ?self3 w4 = Inr (?self3\<lparr>gz_comment := gz_comment h\<rparr>, w5, True)" "dense_source c w5" "to_read c w5 = r"
  proof (cases "gz_comment h")
    case None
    then show ?thesis using that[of w4] w4 by (simp add: field_comment_def header_flag_bits rc_def z_stream_gzip_reset_gzip_header_def)
  next
    case (Some s)
    then show ?thesis using that dense_string[OF w4(2), of s r junk] w4(3) assms(3) by (auto simp: field_comment_def header_flag_bits rc_def header_fits_def)
  qed
  have b3: "?b ! 3 = header_flags h" by simp
  have m: "GZIP_IS_GZIP_MAGIC ?b" "field_crc c (header_flags h) w5 = Inr (w5, True)" by (simp_all add: GZIP_IS_GZIP_MAGIC_def field_crc_def header_flag_bits(1,2))
  have "z_stream_gzip_read_gzip_header junk c self w = Inr (?self3\<lparr>gz_comment := gz_comment h\<rparr>, w5, True)"
    unfolding z_stream_gzip_read_gzip_header_def Let_def
    using assms(4,5) by (simp only: w1(1) w2(1) rbind_simps prod.case m b3 ts w3(1) w4(1) w5(1) simp_thms if_False if_True)
  then show ?thesis using w5(3) by (auto simp: z_stream_gzip_reset_gzip_header_def)
qed


text \<open>A header, and a stream that delivers its bytes one by one.\<close>

definition named_header :: "(unit, unit) zstream_gzip" where
  "named_header = \<lparr>gz_sync_flush = False, gz_gzip_header = True, gz_write_empty_header = False, gz_encode = (), gz_decode = (), gz_buffer_length = 16,
      gz_out = [], gz_out_p = 0, gz_in = [], gz_eof_received = False, gz_finished = False, gz_header_read = False, gz_header_written = False,
      gz_read_error = False, gz_write_error = False, gz_shutdown_in = False, gz_shutdown_out = False, gz_child_in = False, gz_child_out = False,
      gz_encode_crc = 0, gz_encode_in = 0, gz_timestamp = 0x01020304, gz_extra = Some [5, 6], gz_origname = Some [102, 105], gz_comment = None\<rparr>"

definition byte_reader :: "bytes \<Rightarrow> world" where
  "byte_reader bs = fst (z_stream_new \<lparr>w_streams = [], w_pkts = [], w_notified = [], w_dying = []\<rparr> ''ZStreamFD'' ''fd'' G_IO_IN (map (\<lambda>b. Data [b]) bs))"

lemma byte_reader_dense: "dense_source 0 (byte_reader bs)" "to_read 0 (byte_reader bs) = bs"
proof -
  have "dense (map (\<lambda>b. Data [b]) bs)" "child_input (map (\<lambda>b. Data [b]) bs) = bs" by (induction bs) auto
  then show "dense_source 0 (byte_reader bs)" "to_read 0 (byte_reader bs) = bs"
    by (simp_all add: dense_source_def to_read_def byte_reader_def z_stream_new_def get_st_def slot_def)
qed


end
