(* ===== verification/Stream_Child.thy ===== *)
theory Stream_Child
  imports Stream_IO Stream_Control
begin

section \<open>Children of streams that wrap another stream\<close>

text \<open>
  What the theories of the streams on top of another one share: children that take all that is written to them, and what an operation on one stream leaves
  of the others.
\<close>

subsection \<open>A child that takes everything\<close>

text \<open>The bottom of a stack that takes all it is given; \<open>d\<close> is what it got.\<close>

definition takes_all :: "nat \<Rightarrow> world \<Rightarrow> bytes \<Rightarrow> bool" where
  "takes_all c w d \<longleftrightarrow> (\<exists>s. get_st w c = Inr s \<and> st_accept s = [] \<and> st_child s = None \<and> st_written s = d)"

lemma takes_all_write:
  assumes "takes_all c w d"
  obtains w' where "z_stream_write w c x = Inr (w', IO_NORMAL, length x)" "takes_all c w' (d @ x)"
proof -
  obtain s where s: "get_st w c = Inr s" "st_accept s = []" "st_child s = None" "st_written s = d" using assms by (auto simp: takes_all_def)
  let ?s = "s\<lparr>st_accept := [], st_written := d @ x, st_sent := addz (st_sent s) (length x)\<rparr>"
  have "z_stream_write w c x = Inr (put_st c ?s w, IO_NORMAL, length x)" using s by (simp add: z_stream_write_def)
  moreover have "get_st (put_st c ?s w) c = Inr ?s" using s(1) by (simp add: get_put)
  then have "takes_all c (put_st c ?s w) (d @ x)" using s(3) by (simp add: takes_all_def)
  ultimately show ?thesis using that by blast
qed

lemma takes_all_loop:
  assumes "takes_all c w d"
  obtains w' where "write_loop w c x = Inr (w', IO_NORMAL, length x)" "takes_all c w' (d @ x)"
proof (cases "x = []")
  case True
  then show ?thesis using that[of w] assms by (simp add: write_loop.simps)
next
  case False
  obtain w' where "z_stream_write w c x = Inr (w', IO_NORMAL, length x)" "takes_all c w' (d @ x)" using takes_all_write[OF assms] .
  then show ?thesis using that[of w'] False by (simp add: write_loop.simps[of w] write_loop.simps[of w'])
qed

lemma takes_all_nonblock:
  assumes "takes_all c w d"
  shows "z_stream_get_nonblock w c i = Inr (w, i)" "z_stream_set_nonblock w c i = Inr (w, False)"
proof -
  obtain s where s: "get_st w c = Inr s" "st_child s = None" using assms by (auto simp: takes_all_def)
  then have "c < length (w_streams w)" by (auto simp: get_st_def slot_def split: option.splits if_splits)
  then have "stack w c = Inr [c]" using s by (cases "length (w_streams w)") simp_all
  then show "z_stream_get_nonblock w c i = Inr (w, i)" "z_stream_set_nonblock w c i = Inr (w, False)" by (rule nonblock_unknown)+
qed

lemma fed_takes_all: "takes_all 0 fed_stream []"
  by (simp add: takes_all_def fed_stream_def z_stream_new_def get_st_def slot_def)

text \<open>A stream with the given answers to its first writes.\<close>

definition taking :: "write_event list \<Rightarrow> world" where
  "taking es = (case get_st fed_stream 0 of Inl e \<Rightarrow> fed_stream | Inr s \<Rightarrow> put_st 0 (s\<lparr>st_accept := es\<rparr>) fed_stream)"

subsection \<open>The other streams\<close>

lemma put_other [simp]: "a \<noteq> b \<Longrightarrow> get_st (put_st a s w) b = get_st w b"
  by (simp add: get_st_def put_st_def slot_update)

lemma count_in_other: "count_in w a res d = Inr (w', st, e) \<Longrightarrow> b \<noteq> a \<Longrightarrow> get_st w' b = get_st w b"
  by (auto simp: count_in_def upd_st_def rbind_eq_Inr split: if_splits)

lemma read_other:
  assumes "z_stream_read w a n = Inr (w', st, d)" "b \<noteq> a"
  shows "get_st w' b = get_st w b"
proof -
  obtain s where s: "get_st w a = Inr s" using assms(1) by (auto simp: z_stream_read_def rbind_eq_Inr)
  show ?thesis
  proof (cases "st_ungot s")
    case Nil
    then show ?thesis using assms s by (auto simp: z_stream_read_def dest: count_in_other split: prod.splits)
  next
    case (Cons p ps)
    then obtain k e where pk: "slot (w_pkts w) p = Some (k, e)" using assms(1) s by (auto simp: z_stream_read_def split: option.splits)
    show ?thesis
    proof (cases "n \<ge> length e")
      case True
      obtain w1 where w1: "ungot_unref (put_st a (s\<lparr>st_ungot := ps\<rparr>) w) p = Inr w1" "count_in w1 a IO_NORMAL e = Inr (w', st, d)"
        using assms(1) s Cons pk True by (auto simp: z_stream_read_def rbind_eq_Inr)
      have "get_st w1 b = get_st (put_st a (s\<lparr>st_ungot := ps\<rparr>) w) b" using w1(1) by (auto simp: ungot_unref_def rbind_eq_Inr split: option.splits)
      then show ?thesis using count_in_other[OF w1(2) assms(2)] assms(2) by simp
    next
      case False
      then have "count_in (w\<lparr>w_pkts := (w_pkts w)[p := Some (k, drop n e)]\<rparr>) a IO_NORMAL (take n e) = Inr (w', st, d)"
        using assms(1) s Cons pk by (simp add: z_stream_read_def)
      from count_in_other[OF this assms(2)] show ?thesis by simp
    qed
  qed
qed

lemma write_other:
  assumes a: "z_stream_write w a d = Inr (w', st, n)" "b \<noteq> a"
  shows "get_st w' b = get_st w b \<and> w_pkts w' = w_pkts w"
proof -
  obtain s where s: "get_st w a = Inr s" using a(1) by (auto simp: z_stream_write_def rbind_eq_Inr)
  obtain es rc k where sw: "script_write (st_accept s) (length d) = (es, rc, k)" by (metis prod.exhaust)
  have "\<exists>t. w' = put_st a t w" using a(1) s sw by (auto simp: z_stream_write_def Let_def)
  then show ?thesis using a(2) by (auto simp: put_st_def get_st_def slot_update)
qed

lemma takes_all_cong: "get_st w' c = get_st w c \<Longrightarrow> takes_all c w' d = takes_all c w d"
  by (simp add: takes_all_def)

lemma source_cong:
  assumes "get_st w' c = get_st w c" "w_pkts w' = w_pkts w"
  shows "source_ok c w' = source_ok c w \<and> to_read c w' = to_read c w"
proof -
  have "pkt_data w' = pkt_data w" using assms(2) by (simp add: pkt_data_def fun_eq_iff)
  then show ?thesis using assms by (simp add: source_ok_def to_read_def split: sum.split)
qed

lemma write_loop_other: "write_loop w a d = Inr (w', st, n) \<Longrightarrow> b \<noteq> a \<Longrightarrow> get_st w' b = get_st w b \<and> w_pkts w' = w_pkts w"
proof (induction w a d arbitrary: n rule: write_loop.induct)
  case (1 w a d)
  show ?case
  proof (cases "d = []")
    case True
    then show ?thesis using 1(2) by (simp add: write_loop.simps)
  next
    case False
    then obtain w1 st1 k where w1: "z_stream_write w a d = Inr (w1, st1, k)"
      using 1(2) by (subst (asm) write_loop.simps) (auto simp: rbind_eq_Inr)
    show ?thesis
    proof (cases "st1 = IO_NORMAL")
      case True
      then obtain n' where "write_loop w1 a (drop k d) = Inr (w', st, n')"
        using 1(2) False w1 by (subst (asm) write_loop.simps) (auto simp: rbind_eq_Inr)
      then show ?thesis using 1(1)[OF False w1 refl refl True _ 1(3)] write_other[OF w1 1(3)] by simp
    next
      case f: False
      then show ?thesis using 1(2) False w1 write_other[OF w1 1(3)] by (subst (asm) write_loop.simps) auto
    qed
  qed
qed

end
