(* ===== verification/Streamgzip.thy ===== *)
theory Streamgzip
  imports Gzip_Header Stream_Child
begin

section \<open>Compressed streams: data\<close>

text \<open>
  The virtual methods of \<open>src/streamgzip.c\<close>: reading, writing, shutdown, close and polling. zlib is the parameter of theory \<open>Gzip_Header\<close>.
\<close>

subsection \<open>Reading and writing\<close>

text \<open>The results: status and \<open>*bytes_written\<close> (0 when it is not set). \<open>avail_out\<close> is the room that is left in the output buffer.\<close>

definition avail_out :: "('e, 'd) zstream_gzip \<Rightarrow> nat" where
  "avail_out self = gz_buffer_length self - length (gz_out self)"

text \<open>
  The loop of \<open>z_stream_gzip_write_method\<close>. It writes the buffer from its start in every turn; after a partial write the bytes are
  written again. The loop may go on for ever, so it has a counter: \<open>Endless_loop\<close> when it is used up.
\<close>

fun deflate_loop :: "nat \<Rightarrow> ('e, 'd) zlib \<Rightarrow> nat \<Rightarrow> bytes \<Rightarrow> ('e, 'd) zstream_gzip \<Rightarrow> world \<Rightarrow> (('e, 'd) zstream_gzip \<times> world \<times> io_status \<times> bytes) result" where
  "deflate_loop 0 zl c input self w = Inl Endless_loop"
| "deflate_loop (Suc fuel) zl c input self w =
     (if input = [] then Inr (self, w, IO_NORMAL, [])
      else
        let (e, k, out, rc) = (if avail_out self > 0
              then zl_deflate zl (gz_encode self) input (avail_out self) (if gz_sync_flush self then Sync_flush else No_flush)
              else (gz_encode self, 0, [], Z_OK));
            self1 = self\<lparr>gz_encode := e, gz_out := gz_out self @ out\<rparr>;
            rest = drop k input
        in if rc \<noteq> Z_OK then Inr (self1\<lparr>gz_read_error := True\<rparr>, w, IO_ERROR, rest)
           else rbind (z_stream_write w c (gz_out self1)) (\<lambda>(w1, res, n).
             if res = IO_NORMAL
             then let self2 = self1\<lparr>gz_out_p := gz_out_p self1 + n\<rparr>
               in deflate_loop fuel zl c rest
                    (if gz_out_p self2 = length (gz_out self2) then self2\<lparr>gz_out := [], gz_out_p := 0\<rparr> else self2) w1
             else if res \<noteq> IO_AGAIN then Inr (self1\<lparr>gz_write_error := True\<rparr>, w1, IO_ERROR, rest)
             else Inr (self1, w1, IO_AGAIN, rest)))"

text \<open>From \<open>buffer_encode_out_p\<close> to \<open>next_out\<close>; when the pointer is beyond, the length wraps around.\<close>

definition unwritten :: "('e, 'd) zstream_gzip \<Rightarrow> bytes result" where
  "unwritten self = (if gz_out_p self > length (gz_out self) then Inl Bad_access else Inr (drop (gz_out_p self) (gz_out self)))"

text \<open>What is left of the output buffer is written; the status says how to go on: \<open>IO_NORMAL\<close> when all of it was.\<close>

definition write_rest :: "nat \<Rightarrow> ('e, 'd) zstream_gzip \<Rightarrow> world \<Rightarrow> (('e, 'd) zstream_gzip \<times> world \<times> io_status) result" where
  "write_rest c self w =
     (if avail_out self < gz_buffer_length self
      then rbind (unwritten self) (\<lambda>rest. rbind (z_stream_write w c rest) (\<lambda>(w1, res, n).
        if res = IO_AGAIN then Inr (self, w1, IO_AGAIN)
        else if res \<noteq> IO_NORMAL then Inr (self\<lparr>gz_write_error := True\<rparr>, w1, IO_ERROR)
        else let self1 = self\<lparr>gz_out_p := gz_out_p self + n\<rparr>
          in Inr (self1, w1, if gz_out_p self1 \<noteq> length (gz_out self1) then IO_AGAIN else IO_NORMAL)))
      else Inr (self, w, IO_NORMAL))"

definition z_stream_gzip_write_method :: "nat \<Rightarrow> ('e, 'd) zlib \<Rightarrow> nat \<Rightarrow> bytes \<Rightarrow> ('e, 'd) zstream_gzip \<Rightarrow> world \<Rightarrow>
    (('e, 'd) zstream_gzip \<times> world \<times> io_status \<times> nat) result" where
  "z_stream_gzip_write_method fuel zl c buf self w =
     (let self0 = self\<lparr>gz_child_out := False\<rparr>
      in if gz_shutdown_out self0 \<or> gz_write_error self0 then Inr (self0, w, IO_ERROR, 0)
         else rbind (z_stream_gzip_write_gzip_header c self0 w) (\<lambda>(self1, w1, ok).
           if \<not> ok then Inr (self1, w1, IO_ERROR, 0)
           else rbind (write_rest c self1 w1) (\<lambda>(self2, w2, res).
             if res \<noteq> IO_NORMAL then Inr (self2, w2, res, 0)
             else rbind (deflate_loop fuel zl c buf (self2\<lparr>gz_out := [], gz_out_p := 0\<rparr>) w2) (\<lambda>(self3, w3, res3, rest).
               let n = length buf - length rest
               in if res3 = IO_ERROR then Inr (self3, w3, IO_ERROR, 0)
                  else if n = 0 then Inr (self3, w3, IO_AGAIN, 0)
                  else Inr (if gz_gzip_header self3
                            then self3\<lparr>gz_encode_crc := zl_crc32 zl (gz_encode_crc self3) (take n buf), gz_encode_in := (gz_encode_in self3 + n) mod 2 ^ 32\<rparr>
                            else self3, w3, IO_NORMAL, n)))))"

definition z_stream_gzip_write_callback :: "nat \<Rightarrow> ('e, 'd) zstream_gzip \<Rightarrow> world \<Rightarrow> (('e, 'd) zstream_gzip \<times> world) result" where
  "z_stream_gzip_write_callback c self w =
     rbind (write_rest c self w) (\<lambda>(self1, w1, res). Inr (if res = IO_NORMAL then self1\<lparr>gz_child_out := True\<rparr> else self1, w1))"

definition z_stream_gzip_read_callback :: "('e, 'd) zstream_gzip \<Rightarrow> ('e, 'd) zstream_gzip" where
  "z_stream_gzip_read_callback self = self\<lparr>gz_child_in := True\<rparr>"

definition z_stream_gzip_read_method :: "(nat \<Rightarrow> byte) \<Rightarrow> ('e, 'd) zlib \<Rightarrow> nat \<Rightarrow> nat \<Rightarrow> ('e, 'd) zstream_gzip \<Rightarrow> world \<Rightarrow>
    (('e, 'd) zstream_gzip \<times> world \<times> io_status \<times> bytes) result" where
  "z_stream_gzip_read_method junk zl c count self w =
     (let self0 = self\<lparr>gz_child_in := False\<rparr>
      in if gz_shutdown_in self0 then Inr (self0, w, IO_ERROR, [])
         else if gz_finished self0 then Inr (self0, w, IO_EOF, [])
         else if gz_read_error self0 then Inr (self0, w, IO_ERROR, [])
         else rbind (z_stream_gzip_read_gzip_header junk c self0 w) (\<lambda>(self1, w1, ok).
           if \<not> ok then Inr (self1, w1, IO_ERROR, [])
           else rbind (if gz_in self1 = [] \<and> \<not> gz_eof_received self1
                       then rbind (z_stream_read w1 c (gz_buffer_length self1)) (\<lambda>(w2, res, d).
                         Inr (if res = IO_EOF then self1\<lparr>gz_in := d, gz_eof_received := True\<rparr>
                              else if res = IO_ERROR then self1\<lparr>gz_in := d, gz_read_error := True\<rparr> else self1\<lparr>gz_in := d\<rparr>, w2, res))
                       else Inr (self1, w1, IO_NORMAL)) (\<lambda>(self2, w2, res).
             if res = IO_AGAIN then Inr (self2, w2, IO_AGAIN, [])
             else if res = IO_ERROR then Inr (self2, w2, IO_ERROR, [])
             else let (d, k, out, rc) = zl_inflate zl (gz_decode self2) (gz_in self2) count;
                      self3 = self2\<lparr>gz_decode := d, gz_in := drop k (gz_in self2)\<rparr>
               in if rc = Z_failed then Inr (self3\<lparr>gz_read_error := True\<rparr>, w2, IO_ERROR, [])
                  else Inr (if rc = Z_STREAM_END then self3\<lparr>gz_finished := True\<rparr> else self3, w2, IO_NORMAL, out))))"

subsection \<open>Shutdown\<close>

datatype shut_how = SHUT_RD | SHUT_WR | SHUT_RDWR

text \<open>\<open>ret\<close> of the loops that write what is left of the buffer.\<close>

definition flush_out :: "nat \<Rightarrow> ('e, 'd) zstream_gzip \<Rightarrow> world \<Rightarrow> (('e, 'd) zstream_gzip \<times> world \<times> io_status) result" where
  "flush_out c self w =
     rbind (unwritten self) (\<lambda>rest. rbind (write_loop w c rest) (\<lambda>(w1, ret, n). Inr (self\<lparr>gz_out_p := gz_out_p self + n\<rparr>, w1, ret)))"

text \<open>The end of the compressed data and what follows it; \<open>res\<close> and \<open>ret\<close> are the two statuses of the function.\<close>

definition after_finish :: "nat \<Rightarrow> io_status \<Rightarrow> ('e, 'd) zstream_gzip \<Rightarrow> world \<Rightarrow> (('e, 'd) zstream_gzip \<times> world \<times> io_status \<times> io_status) result" where
  "after_finish c res self w =
     rbind (if avail_out self < gz_buffer_length self then flush_out c self w else Inr (self, w, IO_NORMAL)) (\<lambda>(self1, w1, ret).
     rbind (if gz_write_empty_header self1 then z_stream_gzip_write_gzip_header c self1 w1 else Inr (self1, w1, True)) (\<lambda>(self2, w2, ok).
       let res1 = (if ok then res else IO_ERROR)
       in if res1 = IO_NORMAL
          then rbind (z_stream_gzip_write_gzip_trailer c self2 w2) (\<lambda>(w3, ok3). Inr (self2, w3, if ok3 then res1 else IO_ERROR, ret))
          else Inr (self2, w2, res1, ret)))"

definition finish_out :: "('e, 'd) zlib \<Rightarrow> nat \<Rightarrow> io_status \<Rightarrow> ('e, 'd) zstream_gzip \<Rightarrow> world \<Rightarrow>
    (('e, 'd) zstream_gzip \<times> world \<times> io_status \<times> io_status) result" where
  "finish_out zl c res self w =
     rbind (flush_out c self w) (\<lambda>(self1, w1, ret).
       if ret = IO_NORMAL
       then let (e, k, out, rc) = zl_deflate zl (gz_encode self1) [] (gz_buffer_length self1) Finish_flush;
                self2 = self1\<lparr>gz_encode := e, gz_out := out, gz_out_p := 0\<rparr>
         in if rc = Z_STREAM_END then after_finish c res self2 w1 else Inr (self2, w1, res, ret)
       else Inr (self1, w1, res, ret))"

definition shutdown_read :: "('e, 'd) zlib \<Rightarrow> shut_how \<Rightarrow> ('e, 'd) zstream_gzip \<Rightarrow> ('e, 'd) zstream_gzip \<times> io_status" where
  "shutdown_read zl how self =
     (if how \<noteq> SHUT_WR \<and> \<not> gz_shutdown_in self
      then (self\<lparr>gz_shutdown_in := True\<rparr>, if zl_inflate_end zl (gz_decode self) = Z_OK then IO_NORMAL else IO_ERROR)
      else (self, IO_ERROR))"

text \<open>\<open>i\<close> is what the variable holds when the child does not answer \<open>ZST_CTRL_GET_NONBLOCK\<close>.\<close>

definition shutdown_write :: "int \<Rightarrow> ('e, 'd) zlib \<Rightarrow> nat \<Rightarrow> shut_how \<Rightarrow> io_status \<Rightarrow> ('e, 'd) zstream_gzip \<Rightarrow> world \<Rightarrow>
    (('e, 'd) zstream_gzip \<times> world \<times> io_status) result" where
  "shutdown_write i zl c how res self w =
     (if how \<noteq> SHUT_RD \<and> \<not> gz_shutdown_out self
      then rbind (z_stream_get_nonblock w c i) (\<lambda>(w1, nonblock).
           rbind (z_stream_set_nonblock w1 c 0) (\<lambda>(w2, ok).
           rbind (finish_out zl c res self w2) (\<lambda>(self1, w3, res1, ret).
           rbind (z_stream_set_nonblock w3 c nonblock) (\<lambda>(w4, ok4).
             Inr (self1\<lparr>gz_shutdown_out := True\<rparr>, w4,
                  if ret = IO_NORMAL \<and> zl_deflate_end zl (gz_encode self1) = Z_OK then IO_NORMAL else res1)))))
      else Inr (self, w, res))"

text \<open>\<open>shut\<close> and \<open>close\<close> are the virtual methods of the child and of the base class.\<close>

definition z_stream_gzip_shutdown_method :: "int \<Rightarrow> ('e, 'd) zlib \<Rightarrow> (shut_how \<Rightarrow> world \<Rightarrow> (world \<times> io_status) result) \<Rightarrow> nat \<Rightarrow> shut_how \<Rightarrow>
    ('e, 'd) zstream_gzip \<Rightarrow> world \<Rightarrow> (('e, 'd) zstream_gzip \<times> world \<times> io_status) result" where
  "z_stream_gzip_shutdown_method i zl shut c how self w =
     (let (self1, res) = shutdown_read zl how self
      in rbind (shutdown_write i zl c how res self1 w) (\<lambda>(self2, w1, res2).
         rbind (shut how w1) (\<lambda>(w2, ret). Inr (self2, w2, if ret \<noteq> IO_NORMAL then ret else res2))))"

definition z_stream_gzip_close_method :: "int \<Rightarrow> ('e, 'd) zlib \<Rightarrow> (shut_how \<Rightarrow> world \<Rightarrow> (world \<times> io_status) result) \<Rightarrow> (world \<Rightarrow> (world \<times> io_status) result) \<Rightarrow>
    nat \<Rightarrow> ('e, 'd) zstream_gzip \<Rightarrow> world \<Rightarrow> (('e, 'd) zstream_gzip \<times> world \<times> io_status) result" where
  "z_stream_gzip_close_method i zl shut close c self w =
     rbind (z_stream_gzip_shutdown_method i zl shut c SHUT_RDWR self w) (\<lambda>(self1, w1, st_shutdown).
     rbind (close w1) (\<lambda>(w2, st_close). Inr (self1, w2, if st_shutdown \<noteq> IO_NORMAL then st_shutdown else st_close)))"

subsection \<open>Polling\<close>

text \<open>\<open>want_read\<close> and \<open>want_write\<close> are the fields of the base class (\<open>wants\<close> reads them when callbacks may change them). \<open>read_cb\<close> and \<open>write_cb\<close> stand for the callbacks with their data.\<close>

definition z_stream_gzip_watch_prepare :: "nat \<Rightarrow> bool \<Rightarrow> bool \<Rightarrow> ('e, 'd) zstream_gzip \<Rightarrow> world \<Rightarrow> (world \<times> bool) result" where
  "z_stream_gzip_watch_prepare c want_read want_write self w =
     (let waits = (gz_in self = [] \<and> \<not> gz_child_in self); pending = (avail_out self \<noteq> gz_buffer_length self)
      in rbind (z_stream_set_cond w c G_IO_IN (of_bool (want_read \<and> waits))) (\<lambda>(w1, ok).
         rbind (z_stream_set_cond w1 c G_IO_OUT (of_bool pending)) (\<lambda>(w2, ok2).
           Inr (w2, want_read \<and> \<not> waits \<or> want_write \<and> \<not> pending))))"

definition z_stream_gzip_watch_check :: "bool \<Rightarrow> bool \<Rightarrow> ('e, 'd) zstream_gzip \<Rightarrow> bool" where
  "z_stream_gzip_watch_check want_read want_write self \<longleftrightarrow>
     want_read \<and> (gz_in self \<noteq> [] \<or> gz_child_in self)
     \<or> want_write \<and> (avail_out self = gz_buffer_length self \<or> gz_child_out self)"

definition z_stream_gzip_watch_dispatch :: "(('e, 'd) zstream_gzip \<times> world \<Rightarrow> ((('e, 'd) zstream_gzip \<times> world) \<times> bool) result) \<Rightarrow>
    (('e, 'd) zstream_gzip \<times> world \<Rightarrow> ((('e, 'd) zstream_gzip \<times> world) \<times> bool) result) \<Rightarrow>
    (('e, 'd) zstream_gzip \<times> world \<Rightarrow> bool \<times> bool) \<Rightarrow>
    ('e, 'd) zstream_gzip \<times> world \<Rightarrow> ((('e, 'd) zstream_gzip \<times> world) \<times> bool) result" where
  "z_stream_gzip_watch_dispatch read_cb write_cb wants x =
     rbind (if fst (wants x) \<and> (gz_in (fst x) \<noteq> [] \<or> gz_child_in (fst x)) then read_cb x else Inr (x, True)) (\<lambda>(y, rc).
       if snd (wants y) \<and> rc \<and> (avail_out (fst y) = gz_buffer_length (fst y) \<or> gz_child_out (fst y)) then write_cb y else Inr (y, rc))"

definition z_stream_gzip_new :: "bool \<Rightarrow> bool \<Rightarrow> bool \<Rightarrow> 'e \<Rightarrow> 'd \<Rightarrow> nat \<Rightarrow> ('e, 'd) zstream_gzip" where
  "z_stream_gzip_new sync header empty_header e d len =
     \<lparr>gz_sync_flush = sync, gz_gzip_header = header, gz_write_empty_header = empty_header, gz_encode = e, gz_decode = d, gz_buffer_length = len,
      gz_out = [], gz_out_p = 0, gz_in = [], gz_eof_received = False, gz_finished = False, gz_header_read = False, gz_header_written = False,
      gz_read_error = False, gz_write_error = False, gz_shutdown_in = False, gz_shutdown_out = False, gz_child_in = False, gz_child_out = False,
      gz_encode_crc = 0, gz_encode_in = 0, gz_timestamp = 0, gz_extra = None, gz_origname = None, gz_comment = None\<rparr>"

subsection \<open>Writing everything\<close>

lemma takes_all_pieces:
  assumes "takes_all c w d"
  shows "\<exists>w'. write_pieces c ds w = Inr (w', True) \<and> takes_all c w' (d @ concat ds)"
  using assms
proof (induction ds arbitrary: w d)
  case (Cons x ds)
  obtain w1 where w1: "write_loop w c x = Inr (w1, IO_NORMAL, length x)" "takes_all c w1 (d @ x)" using takes_all_loop[OF Cons.prems] .
  then show ?case using Cons.IH[OF w1(2)] by (simp add: z_stream_write_chunk_def)
qed simp

text \<open>
  A run of the compressor over the input with \<open>len\<close> bytes of room in every call: its last state and the pieces that it puts out.
\<close>

inductive feeds :: "('e, 'd) zlib \<Rightarrow> nat \<Rightarrow> zflush \<Rightarrow> 'e \<Rightarrow> bytes \<Rightarrow> 'e \<Rightarrow> bytes list \<Rightarrow> bool" for zl len fl where
  feeds_done: "feeds zl len fl e [] e []"
| feeds_turn: "input \<noteq> [] \<Longrightarrow> zl_deflate zl e input len fl = (e1, k, out, Z_OK) \<Longrightarrow> feeds zl len fl e1 (drop k input) e' outs
    \<Longrightarrow> feeds zl len fl e input e' (out # outs)"

definition flush_mode :: "('e, 'd) zstream_gzip \<Rightarrow> zflush" where
  "flush_mode self = (if gz_sync_flush self then Sync_flush else No_flush)"

lemma deflate_loop_feeds:
  assumes "feeds zl len fl e input e' outs" "takes_all c w d" "gz_out self = []" "gz_out_p self = 0" "0 < len"
    "gz_buffer_length self = len" "flush_mode self = fl" "gz_encode self = e"
  shows "\<exists>w'. (\<forall>fuel > length outs. deflate_loop fuel zl c input self w = Inr (self\<lparr>gz_encode := e'\<rparr>, w', IO_NORMAL, []))
     \<and> takes_all c w' (d @ concat outs)"
  using assms
proof (induction e input e' outs arbitrary: self w d rule: feeds.induct)
  case (feeds_done e)
  have "deflate_loop fuel zl c [] self w = Inr (self\<lparr>gz_encode := gz_encode self\<rparr>, w, IO_NORMAL, [])" if "0 < fuel" for fuel
    using that by (cases fuel) simp_all
  then show ?case using feeds_done by auto
next
  case (feeds_turn input e e1 k out e' outs)
  obtain w1 where w1: "z_stream_write w c out = Inr (w1, IO_NORMAL, length out)" "takes_all c w1 (d @ out)"
    using takes_all_write[OF feeds_turn.prems(1)] .
  let ?self = "self\<lparr>gz_encode := e1\<rparr>"
  obtain w' where w': "\<forall>fuel > length outs. deflate_loop fuel zl c (drop k input) ?self w1 = Inr (?self\<lparr>gz_encode := e'\<rparr>, w', IO_NORMAL, [])"
    "takes_all c w' ((d @ out) @ concat outs)"
    using feeds_turn.IH[of w1 "d @ out" ?self] w1(2) feeds_turn.prems by (auto simp: flush_mode_def)
  have a: "avail_out self = gz_buffer_length self" using feeds_turn.prems(2) by (simp add: avail_out_def)
  have df: "zl_deflate zl (gz_encode self) input (gz_buffer_length self) (if gz_sync_flush self then Sync_flush else No_flush) = (e1, k, out, Z_OK)"
    using feeds_turn.hyps(2) unfolding flush_mode_def feeds_turn.prems(5)[symmetric] feeds_turn.prems(7) feeds_turn.prems(6)[symmetric] .
  have s: "self\<lparr>gz_encode := e1, gz_out := [], gz_out_p := 0\<rparr> = ?self" using feeds_turn.prems(2,3) by simp
  have "deflate_loop fuel zl c input self w = Inr (self\<lparr>gz_encode := e'\<rparr>, w', IO_NORMAL, [])" if fuel: "length (out # outs) < fuel" for fuel
  proof -
    obtain f where f: "fuel = Suc f" "length outs < f" using fuel by (cases fuel) auto
    show ?thesis using w'(1) f(2) feeds_turn.hyps(1) feeds_turn.prems(2-6) df by (cases "gz_sync_flush self") (simp_all add: f(1) a w1(1) s)
  qed
  then show ?case using w'(2) by auto
qed

lemma write_header_all:
  assumes "takes_all c w d"
  shows "\<exists>w'. z_stream_gzip_write_gzip_header c self w = Inr (self\<lparr>gz_header_written := gz_gzip_header self \<or> gz_header_written self\<rparr>, w', True)
    \<and> takes_all c w' (d @ (if gz_gzip_header self \<and> \<not> gz_header_written self then concat (header_pieces self) else []))"
proof (cases "gz_gzip_header self \<and> \<not> gz_header_written self")
  case True
  then show ?thesis using takes_all_pieces[OF assms, of "header_pieces self"] by (auto simp: z_stream_gzip_write_gzip_header_def)
next
  case False
  then have "self\<lparr>gz_header_written := gz_gzip_header self \<or> gz_header_written self\<rparr> = self" by (cases self) auto
  then show ?thesis using False assms by (auto simp: z_stream_gzip_write_gzip_header_def)
qed

lemma write_rest_all:
  assumes "takes_all c w d" "gz_out_p self \<le> length (gz_out self)" "0 < gz_buffer_length self"
  shows "\<exists>self' w'. write_rest c self w = Inr (self', w', IO_NORMAL) \<and> takes_all c w' (d @ drop (gz_out_p self) (gz_out self))
    \<and> self'\<lparr>gz_out := [], gz_out_p := 0\<rparr> = self\<lparr>gz_out := [], gz_out_p := 0\<rparr>"
proof (cases "gz_out self = []")
  case True
  then show ?thesis using assms by (simp add: write_rest_def avail_out_def)
next
  case False
  obtain w1 where "z_stream_write w c (drop (gz_out_p self) (gz_out self)) = Inr (w1, IO_NORMAL, length (drop (gz_out_p self) (gz_out self)))"
    "takes_all c w1 (d @ drop (gz_out_p self) (gz_out self))" using takes_all_write[OF assms(1)] .
  then show ?thesis using False assms(2,3) by (simp add: write_rest_def avail_out_def unwritten_def)
qed


text \<open>A compressor that puts out what it gets, as much as there is room for, and four bytes at the end.\<close>

definition stored :: "(unit, unit) zlib" where
  "stored = \<lparr>zl_deflate = \<lambda>e input room fl. if fl = Finish_flush then (e, 0, [9, 9], Z_STREAM_END) else (e, room, take room input, Z_OK),
     zl_deflate_end = \<lambda>e. Z_OK, zl_inflate = \<lambda>d input room. (d, room, take room input, Z_OK), zl_inflate_end = \<lambda>d. Z_OK,
     zl_crc32 = \<lambda>c bs. (c + sum_list (map unat bs)) mod 2 ^ 32\<rparr>"

definition stored_stream :: "nat \<Rightarrow> (unit, unit) zstream_gzip" where
  "stored_stream len = (z_stream_gzip_new False True False () () len)\<lparr>gz_header_written := True\<rparr>"

lemma stored_stream_simps:
  "gz_out (stored_stream len) = []" "gz_out_p (stored_stream len) = 0" "gz_encode (stored_stream len) = ()" "gz_decode (stored_stream len) = ()"
  "gz_gzip_header (stored_stream len)" "gz_header_written (stored_stream len)" "gz_buffer_length (stored_stream len) = len" "flush_mode (stored_stream len) = No_flush"
  "\<not> gz_shutdown_in (stored_stream len)" "\<not> gz_shutdown_out (stored_stream len)" "\<not> gz_write_error (stored_stream len)"
  "gz_encode_crc (stored_stream len) = 0" "gz_encode_in (stored_stream len) = 0" "\<not> gz_write_empty_header (stored_stream len)" "\<not> gz_sync_flush (stored_stream len)"
  by (simp_all add: stored_stream_def z_stream_gzip_new_def flush_mode_def)


subsection \<open>A child that takes a part\<close>

lemma full_buffer_stuck:
  "takes_all c w d \<Longrightarrow> length (gz_out self) = gz_buffer_length self \<Longrightarrow> 0 < gz_out_p self \<Longrightarrow> input \<noteq> [] \<Longrightarrow>
   deflate_loop fuel zl c input self w = Inl Endless_loop"
proof (induction fuel arbitrary: self w d)
  case (Suc fuel)
  obtain w1 where w1: "z_stream_write w c (gz_out self) = Inr (w1, IO_NORMAL, length (gz_out self))" "takes_all c w1 (d @ gz_out self)"
    using takes_all_write[OF Suc.prems(1)] .
  have "avail_out self = 0" using Suc.prems(2) by (simp add: avail_out_def)
  moreover have "deflate_loop fuel zl c input (self\<lparr>gz_out_p := gz_out_p self + length (gz_out self)\<rparr>) w1 = Inl Endless_loop"
    using Suc.IH[OF w1(2), of "self\<lparr>gz_out_p := gz_out_p self + length (gz_out self)\<rparr>"] Suc.prems by simp
  ultimately show ?case using Suc.prems w1(1) by simp
qed simp

text \<open>A write whose data does not fit in one buffer, on a child that takes a part of the full buffer and everything afterwards, does not return:
  the loop sends the same buffer from its start again and again, and what the child has got never matches the end of the buffer.
\<close>

theorem gzip_partial_write_never_returns:
  assumes "zl_deflate zl (gz_encode self) buf (gz_buffer_length self) (flush_mode self) = (e, k, out, Z_OK)" "length out = gz_buffer_length self"
    "k < length buf" "get_st w c = Inr s" "st_accept s = [Accept n]" "st_child s = None" "0 < n" "n < gz_buffer_length self" "gz_out self = []"
    "\<not> gz_shutdown_out self" "\<not> gz_write_error self" "\<not> gz_gzip_header self \<or> gz_header_written self"
  shows "z_stream_gzip_write_method fuel zl c buf self w = Inl Endless_loop"
proof -
  let ?s0 = "self\<lparr>gz_child_out := False\<rparr>"
  have h: "z_stream_gzip_write_gzip_header c ?s0 w = Inr (?s0, w, True)" using assms(12) by (auto simp: z_stream_gzip_write_gzip_header_def)
  have r: "write_rest c ?s0 w = Inr (?s0, w, IO_NORMAL)" using assms(9) by (simp add: write_rest_def avail_out_def)
  let ?s3 = "?s0\<lparr>gz_out := [], gz_out_p := 0\<rparr>"
  let ?s = "s\<lparr>st_accept := [], st_written := st_written s @ take n out, st_sent := addz (st_sent s) n\<rparr>"
  have wr: "z_stream_write w c out = Inr (put_st c ?s w, IO_NORMAL, n)" using assms(2,4,5,8) by (simp add: z_stream_write_def)
  have "get_st (put_st c ?s w) c = Inr ?s" using assms(4) by (simp add: get_put)
  then have t: "takes_all c (put_st c ?s w) (st_written s @ take n out)" using assms(6) by (simp add: takes_all_def)
  have "deflate_loop f zl c (drop k buf) (?s3\<lparr>gz_encode := e, gz_out := out, gz_out_p := n\<rparr>) (put_st c ?s w) = Inl Endless_loop" for f
    using full_buffer_stuck[OF t, of "?s3\<lparr>gz_encode := e, gz_out := out, gz_out_p := n\<rparr>" "drop k buf"] assms(2,3,7) by simp
  moreover have "zl_deflate zl (gz_encode self) buf (gz_buffer_length self) (if gz_sync_flush self then Sync_flush else No_flush) = (e, k, out, Z_OK)"
    using assms(1) unfolding flush_mode_def .
  ultimately have "deflate_loop fuel zl c buf ?s3 w = Inl Endless_loop"
    using assms(2,3,7,8) wr by (cases fuel) (auto simp: avail_out_def)
  then show ?thesis using assms(10,11) h r by (simp add: z_stream_gzip_write_method_def)
qed

theorem gzip_partial_write_never_returns_witness:
  "z_stream_gzip_write_method 1000 stored 0 [1, 2, 3] (stored_stream 2) (taking [Accept 1]) = Inl Endless_loop"
proof -
  obtain s where s: "get_st (taking [Accept 1]) 0 = Inr s" "st_accept s = [Accept 1]" "st_child s = None"
    by (auto simp: taking_def fed_stream_def z_stream_new_def get_st_def slot_def put_st_def)
  have "zl_deflate stored (gz_encode (stored_stream 2)) [1, 2, 3] (gz_buffer_length (stored_stream 2)) (flush_mode (stored_stream 2)) = ((), 2, [1, 2], Z_OK)"
    by (simp add: stored_stream_simps) (simp add: stored_def)
  from gzip_partial_write_never_returns[OF this _ _ s] show ?thesis by (simp add: stored_stream_simps)
qed

subsection \<open>The trailer\<close>

lemma flush_out_all:
  assumes "takes_all c w d" "gz_out_p self \<le> length (gz_out self)"
  shows "\<exists>w'. flush_out c self w = Inr (self\<lparr>gz_out_p := length (gz_out self)\<rparr>, w', IO_NORMAL) \<and> takes_all c w' (d @ drop (gz_out_p self) (gz_out self))"
proof -
  obtain w' where "write_loop w c (drop (gz_out_p self) (gz_out self)) = Inr (w', IO_NORMAL, length (drop (gz_out_p self) (gz_out self)))"
    "takes_all c w' (d @ drop (gz_out_p self) (gz_out self))" using takes_all_loop[OF assms(1)] .
  then show ?thesis using assms(2) by (auto simp: flush_out_def unwritten_def)
qed

text \<open>What the trailer is when it is written.\<close>

definition trailer :: "('e, 'd) zstream_gzip \<Rightarrow> bytes" where
  "trailer self = four_bytes (gz_encode_crc self) @ four_bytes (gz_encode_in self)"

lemma trailer_all:
  assumes "takes_all c w d" "gz_gzip_header self" "gz_header_written self"
  shows "\<exists>w'. z_stream_gzip_write_gzip_trailer c self w = Inr (w', True) \<and> takes_all c w' (d @ trailer self)"
proof -
  obtain w' where "write_loop w c (trailer self) = Inr (w', IO_NORMAL, length (trailer self))" "takes_all c w' (d @ trailer self)" using takes_all_loop[OF assms(1)] .
  then show ?thesis using assms(2,3) by (auto simp: z_stream_gzip_write_gzip_trailer_def z_stream_write_chunk_def trailer_def)
qed

lemma after_finish_all:
  assumes "takes_all c w d" "gz_gzip_header self" "gz_header_written self" "gz_out_p self = 0" "0 < gz_buffer_length self" "\<not> gz_write_empty_header self"
  shows "\<exists>self' w'. after_finish c res self w = Inr (self', w', res, IO_NORMAL) \<and> gz_encode self' = gz_encode self
     \<and> takes_all c w' (d @ gz_out self @ (if res = IO_NORMAL then trailer self else []))"
proof -
  obtain s1 w1 where w1: "(if avail_out self < gz_buffer_length self then flush_out c self w else Inr (self, w, IO_NORMAL)) = Inr (s1, w1, IO_NORMAL)"
    "takes_all c w1 (d @ gz_out self)" "\<exists>p. s1 = self\<lparr>gz_out_p := p\<rparr>"
  proof (cases "gz_out self = []")
    case True
    moreover have "\<exists>p. self = self\<lparr>gz_out_p := p\<rparr>" by (rule exI[of _ "gz_out_p self"]) simp
    ultimately show ?thesis using that[of self w] assms(1) by (simp add: avail_out_def)
  next
    case False
    then have "avail_out self < gz_buffer_length self" using assms(5) by (simp add: avail_out_def)
    then show ?thesis using that flush_out_all[OF assms(1), of self] assms(4) by auto
  qed
  then have s1: "gz_write_empty_header s1 = False" "gz_gzip_header s1" "gz_header_written s1" "gz_encode s1 = gz_encode self" "trailer s1 = trailer self"
    using assms(2,3,6) by (auto simp: trailer_def)
  show ?thesis using trailer_all[OF w1(2) s1(2,3)] w1(2) s1 by (auto simp: after_finish_def w1(1))
qed

text \<open>What a shutdown writes. On a child that takes everything, shutting down the write direction writes what is left in the output buffer and
  the last bytes of the compressor, but the checksum and length that end a gzip file only when both directions are shut down in one call and
  the read direction was still open: a stream that is shut down for writing alone, and answers that all went well, leaves a file without its end.
\<close>

theorem gzip_trailer_only_both_ways:
  assumes "takes_all c w d" "gz_gzip_header self" "gz_header_written self" "\<not> gz_write_empty_header self" "\<not> gz_shutdown_out self"
    "0 < gz_buffer_length self" "gz_out_p self \<le> length (gz_out self)" "how \<noteq> SHUT_RD"
    "zl_deflate zl (gz_encode self) [] (gz_buffer_length self) Finish_flush = (e, k, out, Z_STREAM_END)" "zl_deflate_end zl e = Z_OK"
    "zl_inflate_end zl (gz_decode self) = Z_OK" "\<And>h v. shut h v = Inr (v, IO_NORMAL)"
  shows "\<exists>self' w'. z_stream_gzip_shutdown_method i zl shut c how self w = Inr (self', w', IO_NORMAL) \<and> gz_shutdown_out self'
     \<and> takes_all c w' (d @ drop (gz_out_p self) (gz_out self) @ out @ (if how = SHUT_RDWR \<and> \<not> gz_shutdown_in self then trailer self else []))"
proof -
  obtain s1 res where r: "shutdown_read zl how self = (s1, res)" by (metis prod.exhaust)
  have res: "res = IO_NORMAL \<longleftrightarrow> how = SHUT_RDWR \<and> \<not> gz_shutdown_in self"
    using r assms(8,11) by (cases how) (auto simp: shutdown_read_def split: if_splits)
  have s1: "gz_gzip_header s1" "gz_header_written s1" "\<not> gz_write_empty_header s1" "\<not> gz_shutdown_out s1" "gz_buffer_length s1 = gz_buffer_length self"
    "gz_out s1 = gz_out self" "gz_out_p s1 = gz_out_p self" "gz_encode s1 = gz_encode self" "trailer s1 = trailer self"
    using r assms(2-5) by (auto simp: shutdown_read_def trailer_def split: if_splits)
  obtain w1 where w1: "flush_out c s1 w = Inr (s1\<lparr>gz_out_p := length (gz_out s1)\<rparr>, w1, IO_NORMAL)"
    "takes_all c w1 (d @ drop (gz_out_p self) (gz_out self))" using flush_out_all[OF assms(1), of s1] s1(6,7) assms(7) by auto
  let ?s2 = "s1\<lparr>gz_encode := e, gz_out := out, gz_out_p := 0\<rparr>"
  obtain s3 w2 where w2: "after_finish c res ?s2 w1 = Inr (s3, w2, res, IO_NORMAL)" "gz_encode s3 = e"
    "takes_all c w2 ((d @ drop (gz_out_p self) (gz_out self)) @ out @ (if res = IO_NORMAL then trailer ?s2 else []))"
    using after_finish_all[OF w1(2), of ?s2 res] s1 assms(6) by auto
  have t: "trailer ?s2 = trailer self" using s1(9) by (simp add: trailer_def)
  have "finish_out zl c res s1 w = Inr (s3, w2, res, IO_NORMAL)"
    using w1(1) w2(1) s1(5,8) assms(9) by (simp add: finish_out_def)
  then have "shutdown_write i zl c how res s1 w = Inr (s3\<lparr>gz_shutdown_out := True\<rparr>, w2, IO_NORMAL)"
    using assms(8,10) s1(4) w2(2) takes_all_nonblock[OF assms(1)] takes_all_nonblock[OF w2(3)] by (simp add: shutdown_write_def)
  then have "z_stream_gzip_shutdown_method i zl shut c how self w = Inr (s3\<lparr>gz_shutdown_out := True\<rparr>, w2, IO_NORMAL)"
    using r assms(12) by (simp add: z_stream_gzip_shutdown_method_def)
  then show ?thesis using w2(3) unfolding t res by (intro exI[of _ "s3\<lparr>gz_shutdown_out := True\<rparr>"] exI[of _ w2]) simp
qed

theorem gzip_trailer_only_both_ways_witness:
  "(\<exists>self' w'. z_stream_gzip_shutdown_method 0 stored (\<lambda>h v. Inr (v, IO_NORMAL)) 0 SHUT_WR (stored_stream 2) fed_stream = Inr (self', w', IO_NORMAL)
      \<and> takes_all 0 w' [9, 9])
   \<and> (\<exists>self' w'. z_stream_gzip_shutdown_method 0 stored (\<lambda>h v. Inr (v, IO_NORMAL)) 0 SHUT_RDWR (stored_stream 2) fed_stream = Inr (self', w', IO_NORMAL)
      \<and> takes_all 0 w' [9, 9, 0, 0, 0, 0, 0, 0, 0, 0])"
proof -
  have z: "zl_deflate stored (gz_encode (stored_stream 2)) [] (gz_buffer_length (stored_stream 2)) Finish_flush = ((), 0, [9, 9], Z_STREAM_END)"
    "zl_deflate_end stored () = Z_OK" "zl_inflate_end stored (gz_decode (stored_stream 2)) = Z_OK" by (simp_all add: stored_def)
  have t: "trailer (stored_stream 2) = [0, 0, 0, 0, 0, 0, 0, 0]" by (simp add: trailer_def four_bytes_def stored_stream_simps)
  note T = gzip_trailer_only_both_ways[OF fed_takes_all, of "stored_stream 2" _ stored "()" 0 "[9, 9]" "\<lambda>h v. Inr (v, IO_NORMAL)" 0]
  show ?thesis using T[of SHUT_WR] T[of SHUT_RDWR] z by (simp add: stored_stream_simps t) blast
qed

subsection \<open>After a bad header\<close>

text \<open>
  The mark that the header was read is set before it is read. A stream whose header is refused takes what follows for compressed data in the
  next read.
\<close>

lemma fields_keep:
  "field_extra c b self w = Inr (self1, w1, ok) \<Longrightarrow> gz_header_read self1 = gz_header_read self \<and> gz_read_error self1 = gz_read_error self"
  "field_name junk c b self w = Inr (self1, w1, ok) \<Longrightarrow> gz_header_read self1 = gz_header_read self \<and> gz_read_error self1 = gz_read_error self"
  "field_comment junk c b self w = Inr (self1, w1, ok) \<Longrightarrow> gz_header_read self1 = gz_header_read self \<and> gz_read_error self1 = gz_read_error self"
  by (auto simp: field_extra_def read_extra_def field_name_def field_comment_def rbind_eq_Inr Let_def split: if_splits)

theorem gzip_bad_header_forgotten:
  assumes "z_stream_gzip_read_gzip_header junk c self w = Inr (self1, w1, False)"
  shows "gz_header_read self1 \<and> gz_read_error self1 = gz_read_error self \<and> (\<forall>v. z_stream_gzip_read_gzip_header junk c self1 v = Inr (self1, v, True))"
proof -
  define self0 where "self0 = z_stream_gzip_reset_gzip_header (self\<lparr>gz_header_read := True\<rparr>)"
  have kept: "gz_header_read self0 \<and> gz_read_error self0 = gz_read_error self" by (simp add: self0_def z_stream_gzip_reset_gzip_header_def)
  have "\<not> (\<not> gz_gzip_header self \<or> gz_header_read self)"
  proof
    assume "\<not> gz_gzip_header self \<or> gz_header_read self"
    from assms[unfolded z_stream_gzip_read_gzip_header_def if_P[OF this]] show False by simp
  qed
  note h = assms[unfolded z_stream_gzip_read_gzip_header_def if_not_P[OF this] Let_def, folded self0_def]
  have "gz_header_read self1 \<and> gz_read_error self1 = gz_read_error self"
    using h kept by (fastforce simp: rbind_eq_Inr dest: fields_keep split: if_splits)
  then show ?thesis by (simp add: z_stream_gzip_read_gzip_header_def)
qed

end
