(* ===== verification/Zrandom.thy ===== *)
theory Zrandom
  imports Zorp_Prelude
begin

section \<open>Random numbers in a range\<close>

text \<open>
  \<open>src/random.c\<close>. The generator of OpenSSL is the argument \<open>rand\<close>: for a length, what \<open>RAND_bytes\<close> returns and what the buffer holds after
  the call. \<open>guint\<close> values are numbers below \<open>2 ^ 32\<close>.
\<close>

unbundle bit_operations_syntax

definition Z_RANDOM_NUM_STRENGTHS :: nat where "Z_RANDOM_NUM_STRENGTHS = 3"

definition MASK_FOR_N_BITS :: "nat \<Rightarrow> nat" where "MASK_FOR_N_BITS n = 2 ^ n - 1"

text \<open>\<open>g_return_val_if_fail\<close> returns \<open>FALSE\<close>; otherwise it is the answer of OpenSSL, which is -1 when it has no such function.\<close>

definition z_random_sequence_get :: "nat \<Rightarrow> (nat \<Rightarrow> int \<times> bytes) \<Rightarrow> nat \<Rightarrow> int \<times> bytes" where
  "z_random_sequence_get strength rand target_len = (if strength < Z_RANDOM_NUM_STRENGTHS then rand target_len else (0, []))"

fun count_bits :: "nat \<Rightarrow> nat" where
  "count_bits bound = (if bound = 0 then 0 else 1 + count_bits (bound div 2))"

declare count_bits.simps [simp del]

text \<open>\<open>num_bits\<close> fresh bits: what is in \<open>target[i]\<close> before it is scaled, and the new \<open>j\<close>, \<open>unused_bit_count\<close> and \<open>bit_buffer\<close>.\<close>

definition take_bits :: "nat \<Rightarrow> bytes \<Rightarrow> nat \<times> nat \<times> byte \<Rightarrow> (byte \<times> nat \<times> nat \<times> byte) result" where
  "take_bits num_bits buf st =
     (case st of (j, unused, bit_buffer) \<Rightarrow>
       if num_bits \<le> unused
       then Inr (bit_buffer AND of_nat (MASK_FOR_N_BITS num_bits), j, unused - num_bits, drop_bit num_bits bit_buffer)
       else let offset = num_bits - unused
         in if j < length buf
            then Inr (push_bit offset bit_buffer OR (buf ! j AND of_nat (MASK_FOR_N_BITS offset)), j + 1, 8 - offset, drop_bit offset (buf ! j))
            else Inl Bad_access)"

definition scale :: "nat \<Rightarrow> byte \<Rightarrow> byte \<Rightarrow> byte \<Rightarrow> byte" where
  "scale num_bits mn mx v = of_nat (unat v * (unat mx - unat mn) div MASK_FOR_N_BITS num_bits + unat mn)"

fun bounded_loop :: "nat \<Rightarrow> nat \<Rightarrow> byte \<Rightarrow> byte \<Rightarrow> bytes \<Rightarrow> nat \<times> nat \<times> byte \<Rightarrow> bytes result" where
  "bounded_loop 0 num_bits mn mx buf st = Inr []"
| "bounded_loop (Suc n) num_bits mn mx buf st =
     rbind (take_bits num_bits buf st) (\<lambda>(v, st1).
       let t = scale num_bits mn mx v
       in rbind (g_assert (mn \<le> t \<and> t \<le> mx)) (\<lambda>_. rbind (bounded_loop n num_bits mn mx buf st1) (\<lambda>ts. Inr (t # ts))))"

text \<open>The counter \<open>i\<close> is a \<open>guint\<close>: it never reaches a length of \<open>2 ^ 32\<close> or more.\<close>

definition z_random_sequence_get_bounded :: "nat \<Rightarrow> (nat \<Rightarrow> int \<times> bytes) \<Rightarrow> nat \<Rightarrow> byte \<Rightarrow> byte \<Rightarrow> bytes option result" where
  "z_random_sequence_get_bounded strength rand target_len mn mx =
     (if \<not> strength < Z_RANDOM_NUM_STRENGTHS \<or> \<not> mn < mx then Inr None
      else
        let num_bits = count_bits (unat mx - unat mn);
            needed_bytes = (num_bits * target_len + 7) mod size_limit div 8 mod 2 ^ 32;
            (ret, buf) = z_random_sequence_get strength rand needed_bytes
        in if ret = 0 then Inr None
           else if target_len \<ge> 2 ^ 32 then Inl Endless_loop
           else rbind (bounded_loop target_len num_bits mn mx buf (0, 0, 0)) (\<lambda>ts. Inr (Some ts)))"

subsection \<open>The number of bits\<close>

lemma count_bits_bound: "n < 2 ^ count_bits n"
proof (induction n rule: count_bits.induct)
  case (1 n)
  then show ?case by (cases "n = 0") (auto simp: count_bits.simps[of n])
qed

lemma count_bits_le: "0 < n \<Longrightarrow> 2 ^ (count_bits n - 1) \<le> n"
proof (induction n rule: count_bits.induct)
  case (1 n)
  show ?case
  proof (cases "n div 2 = 0")
    case True
    then show ?thesis using 1(2) by (simp add: count_bits.simps[of n] count_bits.simps[of 0])
  next
    case False
    then have "2 ^ (count_bits (n div 2) - 1) \<le> n div 2" using 1 by simp
    moreover have "0 < count_bits (n div 2)" using False by (simp add: count_bits.simps[of "n div 2"])
    ultimately have "2 ^ count_bits (n div 2) \<le> n" by (cases "count_bits (n div 2)") auto
    then show ?thesis using 1(2) by (simp add: count_bits.simps[of n])
  qed
qed

lemma count_bits_byte:
  assumes "0 < n" "n < 256"
  shows "0 < count_bits n" "count_bits n \<le> 8"
proof -
  show "0 < count_bits n" using assms(1) by (simp add: count_bits.simps[of n])
  have "(2 :: nat) ^ (count_bits n - 1) < 2 ^ 8" using count_bits_le[OF assms(1)] assms(2) by simp
  then have "count_bits n - 1 < 8" by (rule power_less_imp_less_exp[rotated]) simp
  then show "count_bits n \<le> 8" by simp
qed

subsection \<open>Fresh bits\<close>

lemma or_below: "a < 2 ^ n \<Longrightarrow> b < 2 ^ n \<Longrightarrow> (a OR b :: nat) < 2 ^ n"
  by (metis take_bit_nat_eq_self_iff take_bit_or)

lemma unat_small: "n < 256 \<Longrightarrow> unat (of_nat n :: byte) = n"
  by (simp add: unat_of_nat)

lemma unat_push_bit: "unat (push_bit k (v :: byte)) \<le> unat v * 2 ^ k"
  unfolding unsigned_push_bit_eq by (simp add: push_bit_eq_mult take_bit_eq_mod)

lemma unat_mask: "n \<le> 8 \<Longrightarrow> unat (v AND of_nat (MASK_FOR_N_BITS n) :: byte) < 2 ^ n"
proof -
  assume n: "n \<le> 8"
  have "(2 :: nat) ^ n - 1 < 256" using power_increasing[OF n, of "2 :: nat"] by simp
  then have "unat (of_nat (MASK_FOR_N_BITS n) :: byte) = 2 ^ n - 1"
    unfolding MASK_FOR_N_BITS_def by (rule unat_small)
  moreover have "unat (v AND of_nat (MASK_FOR_N_BITS n) :: byte) \<le> unat (of_nat (MASK_FOR_N_BITS n) :: byte)"
    unfolding word_le_nat_alt[symmetric] by (rule word_and_le1)
  ultimately show ?thesis by (simp add: order.strict_trans1)
qed

lemma unat_drop_bit: "unat (drop_bit n (v :: byte)) = unat v div 2 ^ n"
  unfolding unsigned_drop_bit_eq by (simp add: drop_bit_eq_div take_bit_eq_mod unat_byte_less)

lemma unat_drop: "n \<le> 8 \<Longrightarrow> unat (drop_bit n (v :: byte)) < 2 ^ (8 - n)"
proof -
  assume n: "n \<le> 8"
  have "unat v < 2 ^ (8 - n) * 2 ^ n" using unat_byte_less[of v] n by (simp add: power_add[symmetric])
  then have "unat v div 2 ^ n < 2 ^ (8 - n)" by (simp add: less_mult_imp_div_less)
  then show ?thesis by (simp only: unat_drop_bit)
qed

definition bits_ok :: "nat \<Rightarrow> nat \<Rightarrow> nat \<times> nat \<times> byte \<Rightarrow> bool" where
  "bits_ok num_bits i st = (case st of (j, unused, b) \<Rightarrow> unat b < 2 ^ unused \<and> unused < 8 \<and> 8 * j = num_bits * i + unused)"

lemma take_bits_ok:
  assumes "bits_ok num_bits i st" "0 < num_bits" "num_bits \<le> 8" "num_bits * (i + 1) \<le> 8 * length buf"
  shows "\<exists>v st1. take_bits num_bits buf st = Inr (v, st1) \<and> unat v < 2 ^ num_bits \<and> bits_ok num_bits (i + 1) st1"
proof -
  obtain j u b where st: "st = (j, u, b)" by (cases st)
  have ok: "unat b < 2 ^ u" "u < 8" "8 * j = num_bits * i + u" using assms(1) by (auto simp: bits_ok_def st)
  show ?thesis
  proof (cases "num_bits \<le> u")
    case True
    have "unat b < 2 ^ (u - num_bits) * 2 ^ num_bits" using ok(1) True by (simp add: power_add[symmetric])
    then have "unat b div 2 ^ num_bits < 2 ^ (u - num_bits)" by (simp add: less_mult_imp_div_less)
    then have "unat (drop_bit num_bits b) < 2 ^ (u - num_bits)" by (simp only: unat_drop_bit)
    then show ?thesis using True ok(2,3) unat_mask[OF assms(3), of b] by (simp add: take_bits_def st bits_ok_def)
  next
    case False
    let ?o = "num_bits - u"
    have j: "j < length buf" using ok(3) False assms(4) by simp
    have o: "?o \<le> 8" "0 < ?o" using assms(3) False by auto
    have "unat (push_bit ?o b) \<le> unat b * 2 ^ ?o" by (rule unat_push_bit)
    also have "\<dots> < 2 ^ u * 2 ^ ?o" using ok(1) by simp
    finally have p: "unat (push_bit ?o b) < 2 ^ num_bits" using False by (simp add: power_add[symmetric])
    have "unat (buf ! j AND of_nat (MASK_FOR_N_BITS ?o)) < 2 ^ num_bits"
      using unat_mask[OF o(1), of "buf ! j"] power_increasing[of ?o num_bits "2 :: nat"] by (rule order.strict_trans2) simp_all
    then have "unat (push_bit ?o b OR (buf ! j AND of_nat (MASK_FOR_N_BITS ?o))) < 2 ^ num_bits"
      unfolding unsigned_or_eq by (rule or_below[OF p])
    then show ?thesis using False j o ok(2,3) unat_drop[OF o(1), of "buf ! j"] by (simp add: take_bits_def st bits_ok_def Let_def)
  qed
qed

subsection \<open>The range\<close>

lemma scale_range:
  assumes "mn < mx" "unat v < 2 ^ n" "0 < n"
  shows "mn \<le> scale n mn mx v \<and> scale n mn mx v \<le> mx" "unat (scale n mn mx v) = unat v * (unat mx - unat mn) div (2 ^ n - 1) + unat mn"
proof -
  let ?d = "unat mx - unat mn" and ?m = "(2 :: nat) ^ n - 1"
  have lt: "unat mn < unat mx" using assms(1) by (simp add: word_less_nat_alt)
  have "0 < ?m" using one_less_power[OF _ assms(3), of "2 :: nat"] by simp
  moreover have "unat v \<le> ?m" using assms(2) by simp
  then have "unat v * ?d \<le> ?m * ?d" by (rule mult_le_mono1)
  ultimately have "unat v * ?d div ?m \<le> ?d" by (metis div_le_mono nonzero_mult_div_cancel_left not_gr_zero)
  then have le: "unat v * ?d div ?m + unat mn \<le> unat mx" using lt by linarith
  then have "unat v * ?d div ?m + unat mn < 256" using unat_byte_less[of mx] by linarith
  then show u: "unat (scale n mn mx v) = unat v * ?d div ?m + unat mn"
    unfolding scale_def MASK_FOR_N_BITS_def by (rule unat_small)
  show "mn \<le> scale n mn mx v \<and> scale n mn mx v \<le> mx" unfolding word_le_nat_alt u using le by simp
qed

lemma bounded_loop_ok:
  assumes "bits_ok num_bits i st" "0 < num_bits" "num_bits \<le> 8" "num_bits * (i + n) \<le> 8 * length buf" "mn < mx"
  shows "\<exists>ts. bounded_loop n num_bits mn mx buf st = Inr ts \<and> length ts = n \<and> (\<forall>t \<in> set ts. mn \<le> t \<and> t \<le> mx)"
  using assms(1,4)
proof (induction n arbitrary: i st)
  case (Suc n)
  have "num_bits * (i + 1) \<le> num_bits * (i + Suc n)" by (rule mult_le_mono2) simp
  then obtain v st1 where v: "take_bits num_bits buf st = Inr (v, st1)" "unat v < 2 ^ num_bits" "bits_ok num_bits (i + 1) st1"
    using take_bits_ok[OF Suc.prems(1) assms(2,3) order.trans] Suc.prems(2) by blast
  obtain ts where ts: "bounded_loop n num_bits mn mx buf st1 = Inr ts" "length ts = n" "\<forall>t \<in> set ts. mn \<le> t \<and> t \<le> mx"
    using Suc.IH[OF v(3)] Suc.prems(2) by auto
  have r: "mn \<le> scale num_bits mn mx v \<and> scale num_bits mn mx v \<le> mx" by (rule scale_range(1)[OF assms(5) v(2) assms(2)])
  then have "bounded_loop (Suc n) num_bits mn mx buf st = Inr (scale num_bits mn mx v # ts)" by (simp add: v(1) ts(1))
  then show ?case using ts r by auto
qed simp

text \<open>
  C28: A sequence of random values in a range has the length asked for and every value is in the range, whatever the generator yields. The code asks the
  generator for enough bytes, never looks behind them, and its assertion holds.
\<close>

theorem random_in_range:
  assumes "strength < Z_RANDOM_NUM_STRENGTHS" "mn < mx" "target_len < 2 ^ 32" "\<And>n. fst (rand n) \<noteq> 0 \<and> length (snd (rand n)) = n"
  shows "\<exists>ts. z_random_sequence_get_bounded strength rand target_len mn mx = Inr (Some ts) \<and> length ts = target_len
     \<and> (\<forall>t \<in> set ts. mn \<le> t \<and> t \<le> mx)"
proof -
  let ?n = "count_bits (unat mx - unat mn)"
  let ?need = "(?n * target_len + 7) mod size_limit div 8 mod 2 ^ 32"
  have "unat mn < unat mx" using assms(2) by (simp add: word_less_nat_alt)
  then have n: "0 < ?n" "?n \<le> 8" using count_bits_byte[of "unat mx - unat mn"] unat_byte_less[of mx] by auto
  have b: "?n * target_len \<le> 8 * target_len" using n(2) by (rule mult_le_mono1)
  then have "?n * target_len + 7 < 8 * 2 ^ 32 + 7" using assms(3) by linarith
  then have small: "(?n * target_len + 7) mod size_limit = ?n * target_len + 7" by (intro mod_less) simp
  have "(?n * target_len + 7) div 8 < 2 ^ 32" using b assms(3) by linarith
  then have need: "?need = (?n * target_len + 7) div 8" unfolding small by (rule mod_less)
  obtain ret buf where r: "rand ?need = (ret, buf)" "ret \<noteq> 0" "length buf = ?need" using assms(4)[of ?need] by (cases "rand ?need") auto
  have "?n * (0 + target_len) \<le> 8 * length buf" unfolding r(3) need by simp
  moreover have "bits_ok ?n 0 (0, 0, 0)" by (simp add: bits_ok_def)
  ultimately obtain ts where "bounded_loop target_len ?n mn mx buf (0, 0, 0) = Inr ts" "length ts = target_len" "\<forall>t \<in> set ts. mn \<le> t \<and> t \<le> mx"
    using bounded_loop_ok[OF _ n] assms(2) by blast
  then show ?thesis using assms(1,2,3) r by (simp add: z_random_sequence_get_bounded_def z_random_sequence_get_def Let_def)
qed

theorem random_in_range_witness:
  "\<exists>ts. z_random_sequence_get_bounded 2 (\<lambda>n. (1, replicate n 0xA7)) 5 97 122 = Inr (Some ts) \<and> length ts = 5 \<and> list_all (\<lambda>t. 97 \<le> t \<and> t \<le> 122) ts"
  using random_in_range[of 2 97 122 5 "\<lambda>n. (1, replicate n 0xA7)"] by (simp add: Z_RANDOM_NUM_STRENGTHS_def list_all_iff)

text \<open>The scaling is not even: the largest value of the range comes from one pattern of bits alone, while others come from several.\<close>

theorem random_largest_is_rare:
  assumes "mn < mx" "unat v < 2 ^ n" "0 < n"
  shows "scale n mn mx v = mx \<longleftrightarrow> unat v = 2 ^ n - 1"
proof -
  let ?d = "unat mx - unat mn" and ?m = "(2 :: nat) ^ n - 1"
  have lt: "unat mn < unat mx" using assms(1) by (simp add: word_less_nat_alt)
  have m: "0 < ?m" using one_less_power[OF _ assms(3), of "2 :: nat"] by simp
  have "scale n mn mx v = mx \<longleftrightarrow> unat v * ?d div ?m = ?d"
    using scale_range(2)[OF assms] lt by (auto simp: word_unat_eq_iff)
  also have "\<dots> \<longleftrightarrow> unat v = ?m"
  proof
    assume e: "unat v * ?d div ?m = ?d"
    show "unat v = ?m"
    proof (rule ccontr)
      assume "unat v \<noteq> ?m"
      then have "unat v < ?m" using assms(2) by linarith
      then have "unat v * ?d < ?m * ?d" using lt by simp
      then have "unat v * ?d < ?d * ?m" by (simp add: mult.commute)
      then have "unat v * ?d div ?m < ?d" by (rule less_mult_imp_div_less)
      then show False using e by simp
    qed
  next
    assume "unat v = ?m"
    then show "unat v * ?d div ?m = ?d" using m by simp
  qed
  finally show ?thesis .
qed

end
