(* ===== verification/Sources.thy ===== *)
theory Sources
  imports Misc
begin

section \<open>Sources of the main loop\<close>

text \<open>
  \<open>src/source.c\<close> and \<open>src/socketsource.c\<close>. The main loop of GLib calls \<open>prepare\<close> of every source, polls for at most the smallest
  timeout (in milliseconds) that is not negative, calls \<open>check\<close>, and \<open>dispatch\<close> where one of the two said so. A negative timeout sets no
  limit. The clock is an argument: seconds for \<open>time\<close>, a \<open>timeval\<close> for \<open>g_get_current_time\<close>.
\<close>

text \<open>A \<open>glong\<close> that is stored in a \<open>gint\<close>.\<close>

definition to_gint :: "int \<Rightarrow> int" where
  "to_gint i = (i + 2 ^ 31) mod 2 ^ 32 - 2 ^ 31"

lemma to_gint_id: "- (2 ^ 31) \<le> i \<Longrightarrow> i < 2 ^ 31 \<Longrightarrow> to_gint i = i"
  by (simp add: to_gint_def)

subsection \<open>The threshold source\<close>

record threshold_source =
  ts_idle_threshold :: nat
  ts_busy_threshold :: nat
  ts_last_call :: int
  ts_start_time :: int

definition z_threshold_source_prepare :: "int \<Rightarrow> threshold_source \<Rightarrow> bool \<times> int \<times> threshold_source" where
  "z_threshold_source_prepare now self =
     (False, to_gint (min (int (ts_idle_threshold self)) (int (ts_busy_threshold self) + ts_last_call self - now) * 1000), self\<lparr>ts_start_time := now\<rparr>)"

definition z_threshold_source_check :: "int \<Rightarrow> threshold_source \<Rightarrow> bool" where
  "z_threshold_source_check now self \<longleftrightarrow>
     ts_start_time self + int (ts_idle_threshold self) \<le> now \<or> ts_last_call self + int (ts_busy_threshold self) \<le> now"

text \<open>The callback changes a state \<open>'s\<close> of its own; \<open>now\<close> is the time when it has returned.\<close>

definition z_threshold_source_dispatch :: "('s \<Rightarrow> 's \<times> bool) option \<Rightarrow> int \<Rightarrow> 's \<Rightarrow> threshold_source \<Rightarrow> 's \<times> threshold_source \<times> bool" where
  "z_threshold_source_dispatch callback now user_data self =
     (case callback of None \<Rightarrow> (user_data, self, False) | Some f \<Rightarrow> let (u, rc) = f user_data in (u, self\<lparr>ts_last_call := now\<rparr>, rc))"

definition z_threshold_source_new :: "nat \<Rightarrow> nat \<Rightarrow> threshold_source" where
  "z_threshold_source_new idle busy = \<lparr>ts_idle_threshold = idle, ts_busy_threshold = busy, ts_last_call = 0, ts_start_time = 0\<rparr>"

definition z_threshold_source_set_threshold :: "nat \<Rightarrow> nat \<Rightarrow> threshold_source \<Rightarrow> threshold_source" where
  "z_threshold_source_set_threshold idle busy self = self\<lparr>ts_idle_threshold := idle, ts_busy_threshold := busy\<rparr>"

text \<open>When a threshold source wakes up the main loop. While the busy threshold has not passed yet, the timeout that it asks for ends exactly when it
  has to be dispatched. But once the busy threshold has passed, so that it is due, the timeout is negative, and the main loop waits without a limit.
\<close>

theorem threshold_wakes_in_time:
  assumes "ts_idle_threshold s < 2147483" "\<bar>ts_last_call s + int (ts_busy_threshold s) - now\<bar> < 2147483"
    "z_threshold_source_prepare now s = (ready, timeout, s1)"
  shows "(0 \<le> timeout \<longleftrightarrow> now \<le> ts_last_call s + int (ts_busy_threshold s))
    \<and> (0 \<le> timeout \<longrightarrow> (\<forall>t \<ge> now. z_threshold_source_check t s1 \<longleftrightarrow> now * 1000 + timeout \<le> t * 1000))
    \<and> (timeout < 0 \<longrightarrow> z_threshold_source_check now s1)"
proof -
  let ?m = "min (int (ts_idle_threshold s)) (int (ts_busy_threshold s) + ts_last_call s - now)"
  obtain m where m: "m = ?m" by simp
  have "- 2147483 < m" "m < 2147483" unfolding m using assms(1,2) by (auto simp: min_def)
  then have "to_gint (m * 1000) = m * 1000" by (intro to_gint_id) simp_all
  then have "timeout = ?m * 1000" "s1 = s\<lparr>ts_start_time := now\<rparr>" using assms(3) unfolding m by (simp_all add: z_threshold_source_prepare_def)
  then show ?thesis by (auto simp: z_threshold_source_check_def min_def)
qed

theorem threshold_wakes_in_time_witness:
  "(let (ready, timeout, s1) = z_threshold_source_prepare 1000 \<lparr>ts_idle_threshold = 60, ts_busy_threshold = 5, ts_last_call = 990, ts_start_time = 0\<rparr>
    in timeout < 0 \<and> z_threshold_source_check 1000 s1)"
  using threshold_wakes_in_time[of "\<lparr>ts_idle_threshold = 60, ts_busy_threshold = 5, ts_last_call = 990, ts_start_time = 0\<rparr>" 1000 False "- 5000"
      "\<lparr>ts_idle_threshold = 60, ts_busy_threshold = 5, ts_last_call = 990, ts_start_time = 1000\<rparr>"]
  by (simp add: z_threshold_source_prepare_def to_gint_def)

subsection \<open>The timeout source\<close>

text \<open>The state of the source is its target.\<close>

definition z_timeout_source_enabled :: "timeval \<Rightarrow> bool" where
  "z_timeout_source_enabled target = (if tv_sec target > 0 then True else if tv_sec target < 0 then False else tv_usec target > 0)"

text \<open>The timeout is \<open>None\<close> when nothing is stored.\<close>

definition z_timeout_source_prepare :: "timeval \<Rightarrow> timeval \<Rightarrow> bool \<times> int option" where
  "z_timeout_source_prepare now target =
     (if \<not> z_timeout_source_enabled target then (False, None)
      else if g_time_val_compare target now \<le> 0 then (True, None)
      else (False, Some (to_gint (g_time_val_diff target now div 1000))))"

definition z_timeout_source_check :: "timeval \<Rightarrow> timeval \<Rightarrow> bool" where
  "z_timeout_source_check now target = (z_timeout_source_enabled target \<and> g_time_val_compare target now \<le> 0)"

definition z_timeout_source_dispatch :: "('s \<Rightarrow> 's \<times> bool) \<Rightarrow> 's \<Rightarrow> 's \<times> bool" where
  "z_timeout_source_dispatch callback user_data = callback user_data"

text \<open>\<open>g_time_val_add\<close> of GLib, for less than a second.\<close>

definition g_time_val_add :: "timeval \<Rightarrow> int \<Rightarrow> timeval" where
  "g_time_val_add t us =
     (if tv_usec t + us \<ge> 1000000 then t\<lparr>tv_sec := tv_sec t + 1, tv_usec := tv_usec t + us - 1000000\<rparr> else t\<lparr>tv_usec := tv_usec t + us\<rparr>)"

definition z_timeout_source_set_timeout :: "timeval \<Rightarrow> nat \<Rightarrow> timeval" where
  "z_timeout_source_set_timeout now new_timeout =
     g_time_val_add (now\<lparr>tv_sec := tv_sec now + int (new_timeout div 1000)\<rparr>) (int (new_timeout mod 1000 * 1000))"

definition z_timeout_source_set_time :: "timeval \<Rightarrow> timeval" where
  "z_timeout_source_set_time nexttime = nexttime"

definition z_timeout_source_disable :: "timeval \<Rightarrow> timeval" where
  "z_timeout_source_disable target = target\<lparr>tv_sec := - 1\<rparr>"

definition z_timeout_source_new :: "timeval \<Rightarrow> nat \<Rightarrow> timeval" where
  "z_timeout_source_new now initial_timeout = z_timeout_source_set_timeout now initial_timeout"

definition micros :: "timeval \<Rightarrow> int" where
  "micros t = tv_sec t * 1000000 + tv_usec t"

lemma set_timeout_target:
  assumes "tv_normal now"
  shows "tv_normal (z_timeout_source_set_timeout now ms)" "micros (z_timeout_source_set_timeout now ms) = micros now + int ms * 1000"
proof -
  have "ms = ms div 1000 * 1000 + ms mod 1000" by simp
  then have ms: "int ms = int (ms div 1000) * 1000 + int (ms mod 1000)" by (metis of_nat_add of_nat_mult of_nat_numeral)
  have "int (ms mod 1000) < 1000" "0 \<le> int (ms mod 1000)" by simp_all
  then show "tv_normal (z_timeout_source_set_timeout now ms)" "micros (z_timeout_source_set_timeout now ms) = micros now + int ms * 1000"
    unfolding ms using assms
    by (auto simp: z_timeout_source_set_timeout_def g_time_val_add_def tv_normal_def micros_def)
qed

lemma compare_micros: "tv_normal t \<Longrightarrow> tv_normal u \<Longrightarrow> g_time_val_compare t u \<le> 0 \<longleftrightarrow> micros t \<le> micros u"
  using time_val_compare_diff[of t u] by (auto simp: g_time_val_diff_def micros_def sgn_if split: if_splits)

lemma diff_micros: "g_time_val_diff t u = micros t - micros u"
  by (simp add: g_time_val_diff_def micros_def)

text \<open>A timeout source that is set to go off in some milliseconds is due exactly from that moment on: \<open>check\<close> and the answer of \<open>prepare\<close> say so at every
  time, and before it the timeout that \<open>prepare\<close> stores ends less than a millisecond before that moment and never after it. A source that was disabled is
  never due and sets no limit.
\<close>

theorem timeout_source_exact:
  assumes "tv_normal now" "0 \<le> tv_sec now" "0 < ms" "ms < 2 ^ 31"
  defines "target \<equiv> z_timeout_source_new now ms"
  shows "\<forall>t. tv_normal t \<and> micros now \<le> micros t \<longrightarrow>
       (z_timeout_source_check t target \<longleftrightarrow> micros now + int ms * 1000 \<le> micros t)
     \<and> (fst (z_timeout_source_prepare t target) \<longleftrightarrow> micros now + int ms * 1000 \<le> micros t)
     \<and> (micros t < micros now + int ms * 1000 \<longrightarrow>
          (\<exists>timeout. z_timeout_source_prepare t target = (False, Some timeout) \<and> 0 \<le> timeout
             \<and> micros t + timeout * 1000 \<le> micros now + int ms * 1000 \<and> micros now + int ms * 1000 < micros t + (timeout + 1) * 1000))
     \<and> \<not> z_timeout_source_check t (z_timeout_source_disable target) \<and> z_timeout_source_prepare t (z_timeout_source_disable target) = (False, None)"
proof (intro allI impI)
  fix t
  assume t: "tv_normal t \<and> micros now \<le> micros t"
  have tg: "tv_normal target" "micros target = micros now + int ms * 1000"
    using set_timeout_target[OF assms(1)] by (simp_all add: target_def z_timeout_source_new_def)
  have en: "z_timeout_source_enabled target"
  proof -
    have "0 < micros target" using tg(2) assms(1-3) by (simp add: micros_def tv_normal_def)
    then show ?thesis using tg(1) by (auto simp: z_timeout_source_enabled_def micros_def tv_normal_def)
  qed
  have cmp: "g_time_val_compare target t \<le> 0 \<longleftrightarrow> micros now + int ms * 1000 \<le> micros t" using compare_micros[OF tg(1)] t tg(2) by simp
  have "\<exists>timeout. z_timeout_source_prepare t target = (False, Some timeout) \<and> 0 \<le> timeout
      \<and> micros t + timeout * 1000 \<le> micros now + int ms * 1000 \<and> micros now + int ms * 1000 < micros t + (timeout + 1) * 1000"
    if lt: "micros t < micros now + int ms * 1000"
  proof -
    let ?d = "micros target - micros t"
    have d: "0 < ?d" "?d \<le> int ms * 1000" using lt t tg(2) by simp_all
    then have "?d div 1000 < 2 ^ 31" "0 \<le> ?d div 1000" using assms(4) by simp_all
    then have "to_gint (?d div 1000) = ?d div 1000" by (intro to_gint_id) simp_all
    moreover have "0 \<le> ?d mod 1000" "?d mod 1000 < 1000" by simp_all
    then have "?d div 1000 * 1000 \<le> ?d" "?d < (?d div 1000 + 1) * 1000"
      using div_mult_mod_eq[of ?d 1000] unfolding distrib_right by linarith+
    ultimately show ?thesis using lt en cmp tg(2) \<open>0 \<le> ?d div 1000\<close> by (simp add: z_timeout_source_prepare_def diff_micros)
  qed
  moreover have "\<not> z_timeout_source_enabled (z_timeout_source_disable target)" by (simp add: z_timeout_source_enabled_def z_timeout_source_disable_def)
  ultimately show "(z_timeout_source_check t target \<longleftrightarrow> micros now + int ms * 1000 \<le> micros t)
     \<and> (fst (z_timeout_source_prepare t target) \<longleftrightarrow> micros now + int ms * 1000 \<le> micros t)
     \<and> (micros t < micros now + int ms * 1000 \<longrightarrow>
          (\<exists>timeout. z_timeout_source_prepare t target = (False, Some timeout) \<and> 0 \<le> timeout
             \<and> micros t + timeout * 1000 \<le> micros now + int ms * 1000 \<and> micros now + int ms * 1000 < micros t + (timeout + 1) * 1000))
     \<and> \<not> z_timeout_source_check t (z_timeout_source_disable target) \<and> z_timeout_source_prepare t (z_timeout_source_disable target) = (False, None)"
    using en cmp by (simp add: z_timeout_source_check_def z_timeout_source_prepare_def)
qed

theorem timeout_source_exact_witness:
  "\<not> z_timeout_source_check \<lparr>tv_sec = 11, tv_usec = 399999\<rparr> (z_timeout_source_new \<lparr>tv_sec = 9, tv_usec = 900000\<rparr> 1500)
   \<and> z_timeout_source_check \<lparr>tv_sec = 11, tv_usec = 400000\<rparr> (z_timeout_source_new \<lparr>tv_sec = 9, tv_usec = 900000\<rparr> 1500)"
  using timeout_source_exact[of "\<lparr>tv_sec = 9, tv_usec = 900000\<rparr>" 1500]
  by (auto simp: tv_normal_def micros_def)

subsection \<open>The socket source\<close>

text \<open>\<open>timeout_time\<close> is a \<open>gint\<close>, in seconds.\<close>

record socket_source =
  so_fd :: int
  so_cond :: nat
  so_events :: nat
  so_revents :: nat
  so_timeout_time :: int
  so_suspended :: bool
  so_timed_out :: bool

definition z_socket_source_prepare :: "int \<Rightarrow> socket_source \<Rightarrow> bool \<times> int \<times> socket_source" where
  "z_socket_source_prepare now self =
     (if so_suspended self then (False, -1, self\<lparr>so_events := 0, so_revents := 0\<rparr>)
      else (False,
            if so_timeout_time self \<noteq> -1 then (let t = to_gint ((so_timeout_time self - now) * 1000) in if t < 0 then 0 else t) else -1,
            self\<lparr>so_events := so_cond self\<rparr>))"

definition z_socket_source_check :: "int \<Rightarrow> socket_source \<Rightarrow> bool \<times> socket_source" where
  "z_socket_source_check now self =
     (if so_timeout_time self > 0 \<and> now \<ge> so_timeout_time self then (True, self\<lparr>so_timed_out := True\<rparr>)
      else (so_revents self \<noteq> 0, self\<lparr>so_timed_out := False\<rparr>))"

definition z_socket_source_dispatch :: "(bool \<Rightarrow> 's \<Rightarrow> 's \<times> bool) \<Rightarrow> 's \<Rightarrow> socket_source \<Rightarrow> 's \<times> bool" where
  "z_socket_source_dispatch callback user_data self =
     (if \<not> so_suspended self then callback (so_timed_out self) user_data else (user_data, True))"

definition z_socket_source_suspend :: "socket_source \<Rightarrow> socket_source" where
  "z_socket_source_suspend self = self\<lparr>so_suspended := True\<rparr>"

definition z_socket_source_resume :: "socket_source \<Rightarrow> socket_source" where
  "z_socket_source_resume self = self\<lparr>so_suspended := False\<rparr>"

definition z_socket_source_is_suspended :: "socket_source \<Rightarrow> bool" where
  "z_socket_source_is_suspended self = so_suspended self"

definition z_socket_source_new :: "int \<Rightarrow> nat \<Rightarrow> int \<Rightarrow> int \<Rightarrow> socket_source" where
  "z_socket_source_new fd cond timeout now =
     \<lparr>so_fd = fd, so_cond = cond, so_events = 0, so_revents = 0, so_timeout_time = (if timeout \<noteq> -1 then to_gint (now + timeout) else -1),
      so_suspended = False, so_timed_out = False\<rparr>"

text \<open>
  One turn of the main loop that polls from \<open>now\<close> to \<open>later\<close> and finds the conditions \<open>found\<close> on the descriptor.
\<close>

definition socket_turn :: "(bool \<Rightarrow> 's \<Rightarrow> 's \<times> bool) \<Rightarrow> int \<Rightarrow> nat \<Rightarrow> int \<Rightarrow> 's \<Rightarrow> socket_source \<Rightarrow> 's \<times> socket_source \<times> bool" where
  "socket_turn callback now found later user_data self =
     (let (r, timeout, s1) = z_socket_source_prepare now self;
          s2 = s1\<lparr>so_revents := found AND so_events s1\<rparr>;
          (due, s3) = z_socket_source_check later s2
      in if due then let (u, keep) = z_socket_source_dispatch callback user_data s3 in (u, s3, keep) else (user_data, s3, True))"

text \<open>A turn of the main loop calls the callback of a socket source at most once: never while the source is suspended; with the timeout mark
  from the moment on at which its time is over, even if the descriptor is ready; before, without it, when a condition that was asked for is met.
\<close>

theorem socket_turn_calls:
  assumes "0 < now" "0 < timeout" "now + timeout < 2 ^ 31" "s = (if sus then z_socket_source_suspend else id) (z_socket_source_new fd cond timeout now)"
  shows "(fst (socket_turn callback t found later u s), snd (snd (socket_turn callback t found later u s)))
    = (if sus then (u, True)
       else if now + timeout \<le> later then callback True u
       else if found AND cond \<noteq> 0 then callback False u else (u, True))"
proof -
  have "to_gint (now + timeout) = now + timeout" using assms(1-3) by (intro to_gint_id) simp_all
  then show ?thesis using assms(1,2) unfolding assms(4)
    by (auto simp: socket_turn_def z_socket_source_prepare_def z_socket_source_check_def z_socket_source_dispatch_def z_socket_source_new_def
        z_socket_source_suspend_def Let_def split: prod.splits)
qed

end
