(* ===== verification/Poll.thy ===== *)
theory Poll
  imports Sources
begin

section \<open>The poll loop\<close>

text \<open>
  \<open>src/poll.c\<close>. The main context of GLib is a parameter: a record of its functions over a state \<open>'c\<close>. \<open>mc_query\<close> gets the size of the array
  and says how many descriptors there are and the timeout; \<open>mc_poll\<close> gets the size of the array, the number and the timeout, and answers with the
  result of \<open>poll\<close> and \<open>errno\<close>. The sources that are checked and dispatched may change \<open>errno\<close>.
\<close>

record 'c main_context =
  mc_prepare :: "'c \<Rightarrow> 'c"
  mc_query :: "nat \<Rightarrow> 'c \<Rightarrow> nat \<times> int"
  mc_poll :: "nat \<Rightarrow> nat \<Rightarrow> int \<Rightarrow> 'c \<Rightarrow> 'c \<times> int \<times> int"
  mc_check :: "'c \<Rightarrow> int \<Rightarrow> 'c \<times> bool \<times> int"
  mc_dispatch :: "'c \<Rightarrow> int \<Rightarrow> 'c \<times> int"
  mc_wakeup :: "'c \<Rightarrow> 'c"

text \<open>\<open>pl_wakeup\<close> is the flag of the source \<open>wakeup\<close>; \<open>pl_errno\<close> is \<open>errno\<close>; \<open>pl_freed\<close> is set when the structure was freed.\<close>

record 'c zpoll =
  pl_ref_count :: nat
  pl_pollfd_num :: nat
  pl_quit :: bool
  pl_wakeup :: bool
  pl_context :: 'c
  pl_errno :: int
  pl_freed :: bool

definition EINTR :: int where "EINTR = 4"
definition ETIMEDOUT :: int where "ETIMEDOUT = 110"

subsection \<open>The source that wakes up the loop\<close>

definition z_poll_source_prepare :: "bool \<Rightarrow> bool \<times> int option" where
  "z_poll_source_prepare wakeup = (if wakeup then (True, None) else (False, Some (- 1)))"

definition z_poll_source_check :: "bool \<Rightarrow> bool" where
  "z_poll_source_check wakeup = False"

definition z_poll_source_dispatch :: "bool \<Rightarrow> bool \<times> bool" where
  "z_poll_source_dispatch wakeup = (False, True)"

subsection \<open>Life and flags\<close>

definition z_poll_new :: "'c \<Rightarrow> 'c zpoll" where
  "z_poll_new context =
     \<lparr>pl_ref_count = 1, pl_pollfd_num = 4, pl_quit = False, pl_wakeup = False, pl_context = context, pl_errno = 0, pl_freed = False\<rparr>"

definition z_poll_ref :: "'c zpoll \<Rightarrow> 'c zpoll" where
  "z_poll_ref self = self\<lparr>pl_ref_count := pl_ref_count self + 1\<rparr>"

definition z_poll_unref :: "'c zpoll \<Rightarrow> 'c zpoll result" where
  "z_poll_unref self =
     (if pl_freed self then Inl Bad_access
      else rbind (g_assert (pl_ref_count self > 0)) (\<lambda>_.
        let n = pl_ref_count self - 1 in Inr (self\<lparr>pl_ref_count := n, pl_freed := n = 0\<rparr>)))"

definition z_poll_wakeup :: "'c main_context \<Rightarrow> 'c zpoll \<Rightarrow> 'c zpoll" where
  "z_poll_wakeup mc self = self\<lparr>pl_wakeup := True, pl_context := mc_wakeup mc (pl_context self)\<rparr>"

definition z_poll_is_running :: "'c zpoll \<Rightarrow> bool" where
  "z_poll_is_running self \<longleftrightarrow> \<not> pl_quit self"

definition z_poll_quit :: "'c main_context \<Rightarrow> 'c zpoll \<Rightarrow> 'c zpoll" where
  "z_poll_quit mc self = z_poll_wakeup mc (self\<lparr>pl_quit := True\<rparr>)"

subsection \<open>One turn\<close>

text \<open>The loop that makes the array larger. The sizes are \<open>gint\<close> values in the comparison.\<close>

function grow_fds :: "'c main_context \<Rightarrow> 'c \<Rightarrow> nat \<Rightarrow> nat \<times> int \<Rightarrow> (nat \<times> nat \<times> int) result" where
  "grow_fds mc c num q =
     (if num = 0 \<or> num \<ge> 2 ^ 30 then Inl Int_overflow
      else if fst q > num
      then grow_fds mc c (num * 2) (mc_query mc (num * 2) c)
      else Inr (num, q))"
  by pat_completeness auto
termination by (relation "measure (\<lambda>(mc, c, num, q). 2 ^ 30 - num)") auto

declare grow_fds.simps [simp del]

definition poll_timeout :: "int \<Rightarrow> int \<Rightarrow> int" where
  "poll_timeout polltimeout timeout = (if polltimeout \<le> -1 then timeout else if timeout > -1 then min polltimeout timeout else polltimeout)"

definition z_poll_iter_timeout :: "'c main_context \<Rightarrow> int \<Rightarrow> 'c zpoll \<Rightarrow> ('c zpoll \<times> nat) result" where
  "z_poll_iter_timeout mc timeout self =
     (let self0 = self\<lparr>pl_errno := 0\<rparr>
      in if pl_quit self0 then Inr (self0, 0)
         else
           let c1 = mc_prepare mc (pl_context self0)
           in rbind (grow_fds mc c1 (pl_pollfd_num self0) (mc_query mc (pl_pollfd_num self0) c1)) (\<lambda>(num, fdnum, t).
             let polltimeout = poll_timeout t timeout;
                 (c2, rc, e2) = mc_poll mc num fdnum polltimeout c1;
                 (c3, due, e3) = mc_check mc c2 e2;
                 (c4, err) = (if due then mc_dispatch mc c3 e3 else (c3, e3));
                 self1 = self0\<lparr>pl_pollfd_num := num, pl_context := c4, pl_errno := err\<rparr>
             in if rc = -1 \<and> err \<noteq> EINTR then Inr (self1, 0)
                else if rc = 0 \<and> polltimeout = timeout then Inr (self1\<lparr>pl_errno := ETIMEDOUT\<rparr>, 0)
                else Inr (self1, 1)))"

subsection \<open>Properties\<close>

lemma grow_fds_enough:
  assumes "0 < num" "num < 2 ^ 30" "n \<le> 2 ^ 29" "\<And>k. mc_query mc k c = (n, t)" "q = (n, t)"
  shows "\<exists>num'. grow_fds mc c num q = Inr (num', n, t) \<and> n \<le> num' \<and> num \<le> num' \<and> num' < 2 ^ 30"
  using assms
proof (induction mc c num q rule: grow_fds.induct)
  case (1 mc c num q)
  show ?case
  proof (cases "n > num")
    case True
    have "num * 2 < 2 ^ 30" using True 1(4) by simp
    then obtain num' where "grow_fds mc c (num * 2) (n, t) = Inr (num', n, t)" "n \<le> num'" "num * 2 \<le> num'" "num' < 2 ^ 30"
      using 1(1)[OF _ _ _ _ 1(4,5)] 1(2-6) True by auto
    then show ?thesis using True 1(2-6) by (subst grow_fds.simps) auto
  next
    case False
    then show ?thesis using 1(2-6) by (subst grow_fds.simps) auto
  qed
qed

text \<open>A turn of the poll loop that was not told to quit polls all descriptors, in an array that is large enough for them, for no longer than the
  caller and the sources allow, and without a limit only when neither sets one; what is due is dispatched once; and it says that the loop is to end when the call failed for
  another reason than a signal, as far as \<open>errno\<close> still tells after the sources were dispatched, or when the time of the caller is over.
\<close>

theorem poll_turn:
  assumes "\<not> pl_quit self" "0 < pl_pollfd_num self" "pl_pollfd_num self < 2 ^ 30" "n \<le> 2 ^ 29"
    "\<And>k. mc_query mc k (mc_prepare mc (pl_context self)) = (n, t)"
  shows "\<exists>num tmo self1. n \<le> num \<and> (t \<ge> 0 \<longrightarrow> 0 \<le> tmo \<and> tmo \<le> t) \<and> (timeout \<ge> 0 \<longrightarrow> 0 \<le> tmo \<and> tmo \<le> timeout) \<and> (t < 0 \<and> timeout < 0 \<longrightarrow> tmo < 0)
     \<and> (let (c2, rc, e2) = mc_poll mc num n tmo (mc_prepare mc (pl_context self)); (c3, due, e3) = mc_check mc c2 e2;
            (c4, err) = (if due then mc_dispatch mc c3 e3 else (c3, e3))
        in z_poll_iter_timeout mc timeout self = Inr (self1, if rc = -1 \<and> err \<noteq> EINTR \<or> rc = 0 \<and> tmo = timeout then 0 else 1)
         \<and> pl_context self1 = c4 \<and> pl_pollfd_num self1 = num \<and> pl_quit self1 = pl_quit self)"
proof -
  let ?c = "mc_prepare mc (pl_context self)"
  obtain num where num: "grow_fds mc ?c (pl_pollfd_num self) (n, t) = Inr (num, n, t)" "n \<le> num"
    using grow_fds_enough[OF assms(2-5) refl] by blast
  let ?tmo = "poll_timeout t timeout"
  obtain c2 rc e2 where p: "mc_poll mc num n ?tmo ?c = (c2, rc, e2)" by (metis prod.exhaust)
  obtain c3 due e3 where k: "mc_check mc c2 e2 = (c3, due, e3)" by (metis prod.exhaust)
  obtain c4 err where d: "(if due then mc_dispatch mc c3 e3 else (c3, e3)) = (c4, err)" by (metis prod.exhaust)
  have tmo: "(t \<ge> 0 \<longrightarrow> 0 \<le> ?tmo \<and> ?tmo \<le> t) \<or> t \<ge> 0 \<and> timeout \<ge> 0" "timeout \<ge> 0 \<longrightarrow> 0 \<le> ?tmo \<and> ?tmo \<le> timeout" "t < 0 \<and> timeout < 0 \<longrightarrow> ?tmo < 0"
    "t \<ge> 0 \<longrightarrow> 0 \<le> ?tmo \<and> ?tmo \<le> t"
    by (auto simp: poll_timeout_def)
  show ?thesis
    using assms(1,5) num p k d tmo
    by (intro exI[of _ num] exI[of _ ?tmo] exI[of _ "(fst (projr (z_poll_iter_timeout mc timeout self)))"])
       (simp add: z_poll_iter_timeout_def Let_def)
qed

text \<open>A context with six descriptors and no timeout of its own; the poll reports one ready descriptor.\<close>

definition six_fds :: "(nat list) main_context" where
  "six_fds = \<lparr>mc_prepare = \<lambda>c. c, mc_query = \<lambda>k c. (6, -1), mc_poll = \<lambda>num n t c. (num # n # c, 1, 0), mc_check = \<lambda>c e. (c, True, e),
     mc_dispatch = \<lambda>c e. (99 # c, e), mc_wakeup = \<lambda>c. c\<rparr>"

theorem poll_turn_witness:
  "\<exists>num self1. 6 \<le> num \<and> z_poll_iter_timeout six_fds 500 (z_poll_new []) = Inr (self1, 1) \<and> pl_context self1 = [99, num, 6]"
  using poll_turn[of "z_poll_new []" 6 six_fds "- 1" 500] by (fastforce simp: z_poll_new_def six_fds_def Let_def)

text \<open>After \<open>z_poll_quit\<close> the next turn returns 0 without polling, and the loop is not running; the flag of the source that wakes up the
  loop is set, so that a turn that prepares then does not wait, and one dispatch clears it.
\<close>

theorem poll_quit_ends:
  "z_poll_iter_timeout mc timeout (z_poll_quit mc self) = Inr ((z_poll_quit mc self)\<lparr>pl_errno := 0\<rparr>, 0)
   \<and> \<not> z_poll_is_running (z_poll_quit mc self) \<and> z_poll_source_prepare (pl_wakeup (z_poll_quit mc self)) = (True, None)
   \<and> z_poll_source_prepare (fst (z_poll_source_dispatch True)) = (False, Some (- 1))"
  by (simp add: z_poll_iter_timeout_def z_poll_quit_def z_poll_wakeup_def z_poll_is_running_def z_poll_source_prepare_def z_poll_source_dispatch_def Let_def)

end
