(* ===== verification/Connector.thy ===== *)
theory Connector
  imports Sources Poll
begin

section \<open>Connecting\<close>

text \<open>
  \<open>src/connect.c\<close>. A connector owns a socket until the connection is made or given up. It is shared by the thread that uses it, which starts and
  cancels the connection and drops its reference, and by the thread that runs the main loop, which calls \<open>z_connector_connected\<close> in
  a source that holds a reference of its own. Besides the fields of \<open>ZConnector\<close> the record holds what is visible from
  outside: whether the user still has a reference, the source, how far a dispatch has come, and a log. GLib calls the destroy notification of
  a source once: when the source is destroyed, or, when it is being dispatched, at the end of the dispatch.
\<close>

datatype event =
    Connected nat      \<comment> \<open>the callback was called with a stream on the descriptor\<close>
  | Failed int         \<comment> \<open>the callback was called with an error\<close>
  | Nothing_connected  \<comment> \<open>the callback was called with neither\<close>
  | Closed nat
  | Data_destroyed

datatype source_state = No_source | Attached | Destroyed

datatype dispatch_state = Idle | Decided "nat option" int | Returned

record 'a connector =
  co_fd :: "nat option"
  co_local :: "'a option"
  co_watch :: bool
  co_timeout :: int
  co_callback :: bool
  co_user_data :: bool
  co_destroy_data :: bool
  co_ref :: nat
  co_freed :: bool
  co_user :: bool
  co_source :: source_state
  co_dispatch :: dispatch_state
  co_log :: "event list"

definition add_log :: "event list \<Rightarrow> 'a connector \<Rightarrow> 'a connector" where
  "add_log es s = s\<lparr>co_log := co_log s @ es\<rparr>"

subsection \<open>Creation\<close>

text \<open>
  \<open>sock\<close> is the result of \<open>socket\<close>; \<open>bound\<close> and \<open>nonblocking\<close> say whether \<open>z_bind\<close> (when there is a local address) and \<open>z_fd_set_nonblock\<close> succeed. The
  second component are the descriptors that are open afterwards.
\<close>

definition z_connector_open_socket :: "nat option \<Rightarrow> bool \<Rightarrow> bool \<Rightarrow> bool \<Rightarrow> nat option \<times> nat list" where
  "z_connector_open_socket sock has_local bound nonblocking =
     (case sock of None \<Rightarrow> (None, [])
      | Some fd \<Rightarrow> if has_local \<and> \<not> bound then (None, [fd]) else if \<not> nonblocking then (None, [fd]) else (Some fd, [fd]))"

definition close_fd :: "nat option \<Rightarrow> 'a connector \<Rightarrow> 'a connector" where
  "close_fd fd s = (case fd of None \<Rightarrow> s | Some f \<Rightarrow> add_log [Closed f] s)"

definition destroy_user_data :: "'a connector \<Rightarrow> 'a connector" where
  "destroy_user_data s = (if co_destroy_data s \<and> co_user_data s then (add_log [Data_destroyed] s)\<lparr>co_user_data := False\<rparr> else s)"

text \<open>Destroying a source that is still attached would call the notification, which drops a reference of the freed object.\<close>

definition z_connector_free :: "'a connector \<Rightarrow> 'a connector result" where
  "z_connector_free s =
     (let s1 = close_fd (co_fd s) (destroy_user_data (s\<lparr>co_callback := False\<rparr>))
      in if co_watch s1 \<and> co_source s1 = Attached then Inl Bad_access else Inr (s1\<lparr>co_watch := False, co_freed := True\<rparr>))"

definition z_connector_ref :: "'a connector \<Rightarrow> 'a connector result" where
  "z_connector_ref s = (if co_freed s \<or> co_ref s = 0 then Inl Bad_access else Inr (s\<lparr>co_ref := co_ref s + 1\<rparr>))"

definition z_connector_unref :: "'a connector \<Rightarrow> 'a connector result" where
  "z_connector_unref s =
     (if co_freed s \<or> co_ref s = 0 then Inl Bad_access
      else let s1 = s\<lparr>co_ref := co_ref s - 1\<rparr> in if co_ref s1 = 0 then z_connector_free s1 else Inr s1)"

definition z_connector_new :: "nat option \<Rightarrow> 'a option \<Rightarrow> bool \<Rightarrow> bool \<Rightarrow> bool \<Rightarrow> bool \<Rightarrow> bool \<Rightarrow> ('a connector option \<times> event list) result" where
  "z_connector_new sock addr bound nonblocking callback user_data destroy_data =
     (let fd = fst (z_connector_open_socket sock (addr \<noteq> None) bound nonblocking);
          s = \<lparr>co_fd = fd, co_local = addr, co_watch = False, co_timeout = 30, co_callback = callback, co_user_data = user_data,
               co_destroy_data = destroy_data, co_ref = 1, co_freed = False, co_user = True, co_source = No_source, co_dispatch = Idle, co_log = []\<rparr>
      in if fd = None then rbind (z_connector_unref s) (\<lambda>s1. Inr (None, co_log s1)) else Inr (Some s, []))"

subsection \<open>Starting and cancelling\<close>

definition z_connector_source_destroy_cb :: "'a connector \<Rightarrow> 'a connector result" where
  "z_connector_source_destroy_cb s = z_connector_unref (destroy_user_data s)"

text \<open>\<open>ok\<close>: \<open>z_connect\<close> succeeded or is in progress. \<open>name\<close> is the answer of \<open>z_getsockname\<close>, which is also what is stored in \<open>*local_addr\<close>.\<close>

definition z_connector_start_internal :: "bool \<Rightarrow> 'a option \<Rightarrow> 'a connector \<Rightarrow> 'a connector \<times> bool" where
  "z_connector_start_internal ok name s =
     (if \<not> ok then (s, False) else (if name \<noteq> None then s\<lparr>co_local := name\<rparr> else s, True))"

definition z_connector_start :: "bool \<Rightarrow> 'a option \<Rightarrow> 'a connector \<Rightarrow> ('a connector \<times> bool) result" where
  "z_connector_start ok name s =
     (if co_watch s then Inr (s, False)
      else let (s1, started) = z_connector_start_internal ok name s
        in if started
           then rbind (z_connector_ref s1) (\<lambda>s2. Inr (s2\<lparr>co_watch := True, co_source := Attached\<rparr>, True))
           else Inr (s1, False))"

text \<open>The poll loop of \<open>z_connector_start_block\<close>: the results of \<open>poll\<close>, with \<open>None\<close> for a call that a signal interrupted.\<close>

fun block_loop :: "int option list \<Rightarrow> int" where
  "block_loop [] = 0"
| "block_loop (None # rs) = block_loop rs"
| "block_loop (Some r # rs) = r"

definition z_connector_start_block :: "bool \<Rightarrow> 'a option \<Rightarrow> int option list \<Rightarrow> 'a connector \<Rightarrow> ('a connector \<times> nat option \<times> bool) result" where
  "z_connector_start_block ok name polls s =
     (let (s1, started) = z_connector_start_internal ok name s
      in if started
         then rbind (z_connector_ref s1) (\<lambda>s2.
           let res = block_loop polls; stream = co_fd s2
           in rbind (z_connector_source_destroy_cb s2) (\<lambda>s3. Inr (s3\<lparr>co_fd := None\<rparr>, stream, True)))
         else Inr (s1, None, False))"

definition z_connector_cancel :: "'a connector \<Rightarrow> 'a connector result" where
  "z_connector_cancel s =
     (if co_freed s then Inl Bad_access
      else if co_watch s
      then let s1 = s\<lparr>co_watch := False\<rparr>
        in if co_source s1 = Attached
           then let s2 = s1\<lparr>co_source := Destroyed\<rparr>
             in if co_dispatch s2 = Idle then z_connector_source_destroy_cb s2 else Inr s2
           else Inr s1
      else Inr s)"

definition z_connector_set_timeout :: "int \<Rightarrow> 'a connector \<Rightarrow> 'a connector" where
  "z_connector_set_timeout timeout s = s\<lparr>co_timeout := timeout\<rparr>"

subsection \<open>The connection is made or not\<close>

text \<open>\<open>z_connector_connected\<close> up to the lock; \<open>sock_error\<close> is what \<open>getsockopt\<close> stored, 0 when it failed.\<close>

definition connected_unlocked :: "bool \<Rightarrow> int \<Rightarrow> 'a connector \<Rightarrow> 'a connector result" where
  "connected_unlocked timed_out sock_error s =
     (if co_freed s then Inl Bad_access
      else if \<not> co_callback s then Inr (s\<lparr>co_dispatch := Returned\<rparr>)
      else let error_num = (if timed_out then ETIMEDOUT else sock_error)
        in if error_num \<noteq> 0 then Inr (s\<lparr>co_dispatch := Decided None error_num\<rparr>)
           else Inr (s\<lparr>co_dispatch := Decided (co_fd s) 0, co_fd := None\<rparr>))"

text \<open>The section under the lock.\<close>

definition connected_locked :: "nat option \<Rightarrow> int \<Rightarrow> 'a connector \<Rightarrow> 'a connector result" where
  "connected_locked fd error_num s =
     (if co_freed s then Inl Bad_access
      else if co_watch s
      then Inr ((add_log [case fd of Some f \<Rightarrow> Connected f | None \<Rightarrow> if error_num \<noteq> 0 then Failed error_num else Nothing_connected] s)
                  \<lparr>co_callback := False, co_dispatch := Returned\<rparr>)
      else Inr ((close_fd fd s)\<lparr>co_dispatch := Returned\<rparr>))"

text \<open>Back in the main loop, which destroys the source because the function returns \<open>FALSE\<close>.\<close>

definition dispatch_returns :: "'a connector \<Rightarrow> 'a connector result" where
  "dispatch_returns s = z_connector_source_destroy_cb (s\<lparr>co_dispatch := Idle, co_source := Destroyed\<rparr>)"

subsection \<open>The two threads\<close>

text \<open>
  What the threads do, in any order: the user starts once, cancels and drops the reference; the main loop dispatches while the source is attached. Every
  step is what one of them does without releasing the lock.
\<close>

inductive connector_step :: "'a connector \<Rightarrow> 'a connector result \<Rightarrow> bool" where
  start: "co_user s \<Longrightarrow> co_source s = No_source \<Longrightarrow> connector_step s (rbind (z_connector_start ok name s) (\<lambda>(s1, b). Inr s1))"
| cancel: "co_user s \<Longrightarrow> connector_step s (z_connector_cancel s)"
| set_timeout: "co_user s \<Longrightarrow> connector_step s (Inr (z_connector_set_timeout t s))"
| drop_ref: "co_user s \<Longrightarrow> connector_step s (z_connector_unref (s\<lparr>co_user := False\<rparr>))"
| dispatch: "co_source s = Attached \<Longrightarrow> co_dispatch s = Idle \<Longrightarrow> connector_step s (connected_unlocked timed_out sock_error s)"
| locked: "co_dispatch s = Decided fd e \<Longrightarrow> connector_step s (connected_locked fd e s)"
| returns: "co_dispatch s = Returned \<Longrightarrow> connector_step s (dispatch_returns s)"

inductive connector_run :: "'a connector \<Rightarrow> 'a connector \<Rightarrow> bool" where
  run_none: "connector_run s s"
| run_more: "connector_run s s1 \<Longrightarrow> connector_step s1 (Inr s2) \<Longrightarrow> connector_run s s2"

definition calls :: "event list \<Rightarrow> event list" where
  "calls es = [e \<leftarrow> es. case e of Closed f \<Rightarrow> False | Data_destroyed \<Rightarrow> False | _ \<Rightarrow> True]"

lemma calls_simps [simp]:
  "calls [] = []" "calls (xs @ ys) = calls xs @ calls ys" "calls (Connected f # es) = Connected f # calls es" "calls (Failed e # es) = Failed e # calls es"
  "calls (Nothing_connected # es) = Nothing_connected # calls es" "calls (Closed f # es) = calls es" "calls (Data_destroyed # es) = calls es"
  by (simp_all add: calls_def)

text \<open>How many hold the descriptor: the connector, a dispatch, the receiver of the stream, or nobody because it was closed.\<close>

definition holders :: "nat \<Rightarrow> 'a connector \<Rightarrow> nat" where
  "holders f s = of_bool (\<not> co_freed s \<and> co_fd s = Some f) + of_bool (\<exists>e. co_dispatch s = Decided (Some f) e) + count_list (co_log s) (Connected f) + count_list (co_log s) (Closed f)"

definition in_use :: "'a connector \<Rightarrow> bool" where
  "in_use s \<longleftrightarrow> co_source s = Attached \<or> co_dispatch s \<noteq> Idle"

text \<open>References: those of the user, of the source, and \<open>k\<close> that are about to be dropped.\<close>

definition refs_ok :: "nat \<Rightarrow> 'a connector \<Rightarrow> bool" where
  "refs_ok k s \<longleftrightarrow> co_ref s = of_bool (co_user s) + of_bool (in_use s) + k \<and> (co_freed s \<longleftrightarrow> co_ref s = 0)"

definition fd_ok :: "nat \<Rightarrow> 'a connector \<Rightarrow> bool" where
  "fd_ok f s \<longleftrightarrow> holders f s = 1 \<and> (co_fd s = None \<or> co_fd s = Some f)
     \<and> (case co_dispatch s of Decided g e \<Rightarrow> co_callback s \<and> (g = None \<and> e \<noteq> 0 \<or> g = Some f \<and> e = 0) | _ \<Rightarrow> True)
     \<and> (co_callback s \<longrightarrow> co_fd s = Some f \<or> co_dispatch s = Decided (Some f) 0 \<or> co_source s = Destroyed)"

definition calls_ok :: "'a connector \<Rightarrow> bool" where
  "calls_ok s \<longleftrightarrow> (co_callback s \<longrightarrow> calls (co_log s) = []) \<and> length (calls (co_log s)) \<le> 1 \<and> Nothing_connected \<notin> set (co_log s)
     \<and> (co_source s = No_source \<longrightarrow> \<not> co_watch s \<and> co_dispatch s = Idle) \<and> (co_source s = Attached \<longrightarrow> co_watch s)
     \<and> (co_watch s \<and> (co_source s = Destroyed \<or> co_dispatch s = Returned) \<longrightarrow> \<not> co_callback s)"

definition data_ok :: "bool \<Rightarrow> 'a connector \<Rightarrow> bool" where
  "data_ok owes s \<longleftrightarrow> count_list (co_log s) Data_destroyed + of_bool (co_destroy_data s \<and> co_user_data s) = of_bool owes
     \<and> (co_freed s \<longrightarrow> \<not> (co_destroy_data s \<and> co_user_data s))"

definition connector_ok :: "nat \<Rightarrow> bool \<Rightarrow> nat \<Rightarrow> 'a connector \<Rightarrow> bool" where
  "connector_ok f owes k s \<longleftrightarrow> refs_ok k s \<and> fd_ok f s \<and> calls_ok s \<and> data_ok owes s"

lemmas connector_parts = refs_ok_def fd_ok_def calls_ok_def data_ok_def holders_def in_use_def

lemma connector_okI: "refs_ok k s \<Longrightarrow> fd_ok f s \<Longrightarrow> calls_ok s \<Longrightarrow> data_ok owes s \<Longrightarrow> connector_ok f owes k s"
  by (simp add: connector_ok_def)

lemma connector_okD: "connector_ok f owes k s \<Longrightarrow> refs_ok k s" "connector_ok f owes k s \<Longrightarrow> fd_ok f s" "connector_ok f owes k s \<Longrightarrow> calls_ok s" "connector_ok f owes k s \<Longrightarrow> data_ok owes s"
  by (simp_all add: connector_ok_def)

lemma destroy_user_data_ok:
  assumes "connector_ok f owes k s" "\<not> co_freed s"
  shows "connector_ok f owes k (destroy_user_data s) \<and> \<not> (co_destroy_data (destroy_user_data s) \<and> co_user_data (destroy_user_data s))"
proof (cases "co_destroy_data s \<and> co_user_data s")
  case True
  note ok = connector_okD[OF assms(1)]
  let ?s = "(add_log [Data_destroyed] s)\<lparr>co_user_data := False\<rparr>"
  have d: "destroy_user_data s = ?s" using True by (simp add: destroy_user_data_def)
  have "refs_ok k ?s" using ok(1) by (simp add: refs_ok_def in_use_def add_log_def)
  moreover have "fd_ok f ?s" using ok(2) by (simp add: fd_ok_def holders_def add_log_def cong: dispatch_state.case_cong)
  moreover have "calls_ok ?s" using ok(3) by (simp add: calls_ok_def add_log_def)
  moreover have "data_ok owes ?s" using ok(4) True by (simp add: data_ok_def add_log_def)
  ultimately show ?thesis unfolding d using connector_okI by (simp add: add_log_def)
next
  case False
  then have "destroy_user_data s = s" by (auto simp: destroy_user_data_def)
  then show ?thesis using assms(1) False by simp
qed

lemma free_ok:
  assumes "connector_ok f owes 1 s" "\<not> co_freed s" "co_ref s = 1" "\<not> (co_destroy_data s \<and> co_user_data s)"
  shows "\<exists>s'. z_connector_free (s\<lparr>co_ref := 0\<rparr>) = Inr s' \<and> connector_ok f owes 0 s' \<and> co_freed s'"
proof -
  note ok = connector_okD[OF assms(1)]
  have u: "\<not> co_user s" "\<not> in_use s" using ok(1) assms(3) by (simp_all add: refs_ok_def)
  then have i: "co_source s \<noteq> Attached" "co_dispatch s = Idle" by (simp_all add: in_use_def)
  let ?s = "(close_fd (co_fd s) (s\<lparr>co_ref := 0, co_callback := False\<rparr>))\<lparr>co_watch := False, co_freed := True\<rparr>"
  have "destroy_user_data (s\<lparr>co_ref := 0, co_callback := False\<rparr>) = s\<lparr>co_ref := 0, co_callback := False\<rparr>" using assms(4) by (auto simp: destroy_user_data_def)
  then have "z_connector_free (s\<lparr>co_ref := 0\<rparr>) = Inr ?s" using i(1) by (cases "co_fd s") (auto simp: z_connector_free_def close_fd_def add_log_def Let_def)
  moreover have "refs_ok 0 ?s" using u(1) i by (simp add: refs_ok_def in_use_def close_fd_def add_log_def split: option.splits)
  moreover have "fd_ok f ?s" using ok(2) i assms(2) by (cases "co_fd s") (simp_all add: fd_ok_def holders_def close_fd_def add_log_def)
  moreover have "calls_ok ?s" using ok(3) i by (cases "co_fd s") (auto simp add: calls_ok_def close_fd_def add_log_def)
  moreover have "data_ok owes ?s" using ok(4) assms(4) by (cases "co_fd s") (auto simp add: data_ok_def close_fd_def add_log_def)
  ultimately show ?thesis using connector_okI by force
qed

lemma free_data: "z_connector_free (s\<lparr>co_ref := 0\<rparr>) = z_connector_free ((destroy_user_data s)\<lparr>co_ref := 0\<rparr>)"
  by (auto simp: z_connector_free_def destroy_user_data_def add_log_def close_fd_def Let_def split: option.splits)

lemma destroy_user_data_simps [simp]:
  "co_ref (destroy_user_data s) = co_ref s" "co_freed (destroy_user_data s) = co_freed s" "co_source (destroy_user_data s) = co_source s"
  "co_dispatch (destroy_user_data s) = co_dispatch s" "co_watch (destroy_user_data s) = co_watch s" "calls (co_log (destroy_user_data s)) = calls (co_log s)"
  by (simp_all add: destroy_user_data_def add_log_def)

lemma unref_ok:
  assumes "connector_ok f owes 1 s" "\<not> co_freed s"
  shows "\<exists>s'. z_connector_unref s = Inr s' \<and> connector_ok f owes 0 s'"
proof (cases "co_ref s = 1")
  case True
  have "connector_ok f owes 1 (destroy_user_data s)" "\<not> (co_destroy_data (destroy_user_data s) \<and> co_user_data (destroy_user_data s))"
    using destroy_user_data_ok[OF assms] by blast+
  from free_ok[OF this(1) _ _ this(2)] obtain s' where "z_connector_free (s\<lparr>co_ref := 0\<rparr>) = Inr s'" "connector_ok f owes 0 s'"
    using True assms(2) unfolding free_data[of s] by auto
  then show ?thesis using True assms(2) by (simp add: z_connector_unref_def Let_def)
next
  case False
  note ok = connector_okD[OF assms(1)]
  let ?s = "s\<lparr>co_ref := co_ref s - 1\<rparr>"
  have "1 \<le> co_ref s" using ok(1) by (simp add: refs_ok_def)
  then have n: "co_ref s > 1" using False by simp
  have "in_use ?s = in_use s" by (simp add: in_use_def)
  then have "refs_ok 0 ?s" using ok(1) n assms(2) by (auto simp: refs_ok_def)
  moreover have "fd_ok f ?s" using ok(2) by (simp add: fd_ok_def holders_def cong: dispatch_state.case_cong)
  moreover have "calls_ok ?s" "data_ok owes ?s" using ok(3,4) by (simp_all add: calls_ok_def data_ok_def)
  moreover have "z_connector_unref s = Inr ?s" using n assms(2) by (simp add: z_connector_unref_def Let_def)
  ultimately show ?thesis using connector_okI by blast
qed

lemma destroy_cb_ok:
  assumes "connector_ok f owes 1 s" "\<not> co_freed s"
  shows "\<exists>s'. z_connector_source_destroy_cb s = Inr s' \<and> connector_ok f owes 0 s'"
  unfolding z_connector_source_destroy_cb_def by (rule unref_ok) (use destroy_user_data_ok[OF assms] assms(2) in simp_all)

subsection \<open>Every step keeps the invariant\<close>

lemma start_ok:
  assumes "connector_ok f owes 0 s" "co_user s" "co_source s = No_source"
  shows "\<exists>s' b. z_connector_start ok name s = Inr (s', b) \<and> connector_ok f owes 0 s'"
proof -
  note ok = connector_okD[OF assms(1)]
  let ?s1 = "if name \<noteq> None then s\<lparr>co_local := name\<rparr> else s"
  have w: "\<not> co_watch s" "co_dispatch s = Idle" "co_ref s = 1" "\<not> co_freed s"
    using assms by (auto simp: connector_ok_def refs_ok_def calls_ok_def in_use_def)
  let ?s2 = "?s1\<lparr>co_ref := 2, co_watch := True, co_source := Attached\<rparr>"
  have "refs_ok 0 ?s2" using w assms(2) by (simp add: refs_ok_def in_use_def)
  moreover have "fd_ok f ?s2" using ok(2) w assms(3) by (simp add: fd_ok_def holders_def)
  moreover have "calls_ok ?s2" "data_ok owes ?s2" using ok(3,4) w(2) by (simp_all add: calls_ok_def data_ok_def)
  ultimately have "connector_ok f owes 0 ?s2" by (rule connector_okI)
  moreover have "z_connector_start ok name s = Inr (if ok then (?s2, True) else (s, False))"
    using w by (simp add: z_connector_start_def z_connector_start_internal_def z_connector_ref_def numeral_2_eq_2)
  ultimately show ?thesis using assms(1) by (cases ok) auto
qed

text \<open>The parts that do not depend on how far a dispatch has come.\<close>

lemma refs_move: "refs_ok k s \<Longrightarrow> in_use s \<Longrightarrow> in_use (s\<lparr>co_dispatch := d\<rparr>) \<Longrightarrow> refs_ok k (s\<lparr>co_dispatch := d\<rparr>)"
  by (simp add: refs_ok_def)

lemma dispatch_ok:
  assumes "connector_ok f owes 0 s" "co_source s = Attached" "co_dispatch s = Idle"
  shows "\<exists>s'. connected_unlocked timed_out sock_error s = Inr s' \<and> connector_ok f owes 0 s'"
proof -
  note ok = connector_okD[OF assms(1)]
  have u: "in_use s" using assms(2) by (simp add: in_use_def)
  have a: "\<not> co_freed s" using ok(1) u by (simp add: refs_ok_def)
  have r: "refs_ok 0 (s\<lparr>co_dispatch := d\<rparr>)" for d using refs_move[OF ok(1) u] assms(2) by (simp add: in_use_def)
  show ?thesis
  proof (cases "co_callback s")
    case True
    then have fd: "co_fd s = Some f" using ok(2) assms(2,3) by (simp add: fd_ok_def)
    let ?e = "if timed_out then ETIMEDOUT else sock_error"
    show ?thesis
    proof (cases "?e = 0")
      case e: True
      let ?s = "s\<lparr>co_dispatch := Decided (Some f) 0, co_fd := None\<rparr>"
      have "connected_unlocked timed_out sock_error s = Inr ?s" using a True fd e by (simp add: connected_unlocked_def Let_def)
      moreover have "refs_ok 0 ?s" using r[of "Decided (Some f) 0"] by (simp add: refs_ok_def in_use_def)
      moreover have "fd_ok f ?s" using ok(2) True fd a assms(3) by (simp add: fd_ok_def holders_def)
      moreover have "calls_ok ?s" "data_ok owes ?s" using ok(3,4) assms(2) by (simp_all add: calls_ok_def data_ok_def)
      ultimately show ?thesis using connector_okI by blast
    next
      case e: False
      let ?s = "s\<lparr>co_dispatch := Decided None ?e\<rparr>"
      have "connected_unlocked timed_out sock_error s = Inr ?s" using a True e by (simp only: connected_unlocked_def Let_def if_False not_True_eq_False if_True simp_thms)
      moreover have "fd_ok f ?s" using ok(2) True fd a assms(3) e by (simp add: fd_ok_def holders_def)
      moreover have "calls_ok ?s" "data_ok owes ?s" using ok(3,4) assms(2) by (simp_all add: calls_ok_def data_ok_def)
      ultimately show ?thesis using connector_okI r by blast
    qed
  next
    case False
    let ?s = "s\<lparr>co_dispatch := Returned\<rparr>"
    have "connected_unlocked timed_out sock_error s = Inr ?s" using a False by (simp add: connected_unlocked_def)
    moreover have "fd_ok f ?s" "calls_ok ?s" "data_ok owes ?s" using ok(2-4) False assms(2,3) by (simp_all add: fd_ok_def holders_def calls_ok_def data_ok_def)
    ultimately show ?thesis using connector_okI r by blast
  qed
qed

lemma locked_ok:
  assumes "connector_ok f owes 0 s" "co_dispatch s = Decided fd e"
  shows "\<exists>s'. connected_locked fd e s = Inr s' \<and> connector_ok f owes 0 s'"
proof -
  note ok = connector_okD[OF assms(1)]
  have u: "in_use s" using assms(2) by (simp add: in_use_def)
  have a: "\<not> co_freed s" using ok(1) u by (simp add: refs_ok_def)
  have d: "co_callback s" "fd = None \<and> e \<noteq> 0 \<or> fd = Some f \<and> e = 0" using ok(2) assms(2) by (auto simp: fd_ok_def)
  have c: "calls (co_log s) = []" "co_source s \<noteq> No_source" "\<not> co_watch s \<Longrightarrow> co_source s = Destroyed"
    using ok(3) d(1) assms(2) by (auto simp: calls_ok_def intro: source_state.exhaust[of "co_source s"])
  show ?thesis
  proof (cases "co_watch s")
    case True
    let ?s = "(add_log [case fd of Some f \<Rightarrow> Connected f | None \<Rightarrow> if e \<noteq> 0 then Failed e else Nothing_connected] s)\<lparr>co_callback := False, co_dispatch := Returned\<rparr>"
    have "connected_locked fd e s = Inr ?s" using a True by (simp add: connected_locked_def)
    moreover have "refs_ok 0 ?s" using refs_move[OF ok(1) u, of Returned] by (simp add: refs_ok_def in_use_def add_log_def)
    moreover have "fd_ok f ?s" using ok(2) d(2) a assms(2) by (auto simp: fd_ok_def holders_def add_log_def)
    moreover have "calls_ok ?s" "data_ok owes ?s" using ok(3,4) d(2) c(1,2) by (auto simp: calls_ok_def data_ok_def add_log_def)
    ultimately show ?thesis using connector_okI by blast
  next
    case False
    let ?s = "(close_fd fd s)\<lparr>co_dispatch := Returned\<rparr>"
    have "connected_locked fd e s = Inr ?s" using a False by (simp add: connected_locked_def)
    moreover have "refs_ok 0 ?s" using refs_move[OF ok(1) u, of Returned] by (simp add: refs_ok_def in_use_def close_fd_def add_log_def split: option.splits)
    moreover have "fd_ok f ?s" using ok(2) d(2) a assms(2) c(3)[OF False] by (auto simp: fd_ok_def holders_def close_fd_def add_log_def)
    moreover have "calls_ok ?s" using ok(3) d(2) c(1,2) False by (auto simp: calls_ok_def close_fd_def add_log_def)
    moreover have "data_ok owes ?s" using ok(4) by (cases fd) (simp_all add: data_ok_def close_fd_def add_log_def)
    ultimately show ?thesis using connector_okI by blast
  qed
qed

lemma returns_ok:
  assumes "connector_ok f owes 0 s" "co_dispatch s = Returned"
  shows "\<exists>s'. dispatch_returns s = Inr s' \<and> connector_ok f owes 0 s'"
proof -
  note ok = connector_okD[OF assms(1)]
  have u: "in_use s" using assms(2) by (simp add: in_use_def)
  have a: "\<not> co_freed s" using ok(1) u by (simp add: refs_ok_def)
  let ?s = "s\<lparr>co_dispatch := Idle, co_source := Destroyed\<rparr>"
  have "\<not> in_use ?s" by (simp add: in_use_def)
  then have "refs_ok 1 ?s" using ok(1) u by (simp add: refs_ok_def)
  moreover have "fd_ok f ?s" using ok(2) assms(2) by (simp add: fd_ok_def holders_def)
  moreover have "calls_ok ?s" "data_ok owes ?s" using ok(3,4) assms(2) by (simp_all add: calls_ok_def data_ok_def)
  ultimately have "connector_ok f owes 1 ?s" by (rule connector_okI)
  then show ?thesis unfolding dispatch_returns_def using destroy_cb_ok[of f owes ?s] a by simp
qed

lemma drop_ok:
  assumes "connector_ok f owes 0 s" "co_user s"
  shows "\<exists>s'. z_connector_unref (s\<lparr>co_user := False\<rparr>) = Inr s' \<and> connector_ok f owes 0 s'"
proof -
  note ok = connector_okD[OF assms(1)]
  let ?s = "s\<lparr>co_user := False\<rparr>"
  have i: "in_use ?s = in_use s" by (simp add: in_use_def)
  have "refs_ok 1 ?s" using ok(1) assms(2) unfolding refs_ok_def i by simp
  moreover have "fd_ok f ?s" using ok(2) by (simp add: fd_ok_def holders_def cong: dispatch_state.case_cong)
  moreover have "calls_ok ?s" "data_ok owes ?s" using ok(3,4) by (simp_all add: calls_ok_def data_ok_def)
  ultimately have "connector_ok f owes 1 ?s" by (rule connector_okI)
  moreover have "\<not> co_freed ?s" using ok(1) assms(2) by (simp add: refs_ok_def)
  ultimately show ?thesis by (rule unref_ok)
qed

lemma cancel_ok:
  assumes "connector_ok f owes 0 s" "co_user s"
  shows "\<exists>s'. z_connector_cancel s = Inr s' \<and> connector_ok f owes 0 s'"
proof -
  note ok = connector_okD[OF assms(1)]
  have a: "\<not> co_freed s" using ok(1) assms(2) by (simp add: refs_ok_def)
  show ?thesis
  proof (cases "co_watch s")
    case w: True
    let ?s1 = "s\<lparr>co_watch := False\<rparr>" and ?s2 = "s\<lparr>co_watch := False, co_source := Destroyed\<rparr>"
    have f2: "fd_ok f ?s2" "calls_ok ?s2" "data_ok owes ?s2" "data_ok owes ?s1"
      using ok(2-4) by (cases "co_dispatch s"; simp add: fd_ok_def holders_def calls_ok_def data_ok_def)+
    show ?thesis
    proof (cases "co_source s = Attached")
      case att: True
      show ?thesis
      proof (cases "co_dispatch s = Idle")
        case True
        have "in_use s" "\<not> in_use ?s2" using att True by (simp_all add: in_use_def)
        then have "refs_ok 1 ?s2" using ok(1) by (simp add: refs_ok_def)
        then have "connector_ok f owes 1 ?s2" using f2(1-3) by (rule connector_okI)
        then show ?thesis using destroy_cb_ok[of f owes ?s2] a w att True by (simp add: z_connector_cancel_def Let_def)
      next
        case False
        have "in_use s" "in_use ?s2" using False by (simp_all add: in_use_def)
        then have "refs_ok 0 ?s2" using ok(1) by (simp add: refs_ok_def)
        then have "connector_ok f owes 0 ?s2" using f2(1-3) by (rule connector_okI)
        then show ?thesis using a w att False by (simp add: z_connector_cancel_def Let_def)
      qed
    next
      case False
      then have d: "co_source s = Destroyed" using ok(3) w by (cases "co_source s") (simp_all add: calls_ok_def)
      then have e: "?s1 = ?s2" by (cases s) simp
      have "in_use ?s2 = in_use s" using d by (simp add: in_use_def)
      then have "refs_ok 0 ?s2" using ok(1) by (simp add: refs_ok_def)
      then have "connector_ok f owes 0 ?s2" using f2(1-3) by (rule connector_okI)
      then have "connector_ok f owes 0 ?s1" by (rule ssubst[OF e])
      then show ?thesis using a w False by (simp add: z_connector_cancel_def Let_def)
    qed
  next
    case False
    then show ?thesis using assms(1) a by (simp add: z_connector_cancel_def)
  qed
qed

lemma set_timeout_ok:
  assumes "connector_ok f owes 0 s"
  shows "connector_ok f owes 0 (z_connector_set_timeout t s)"
proof -
  note ok = connector_okD[OF assms]
  have "in_use (z_connector_set_timeout t s) = in_use s" by (simp add: in_use_def z_connector_set_timeout_def)
  then have "refs_ok 0 (z_connector_set_timeout t s)" using ok(1) by (simp add: refs_ok_def z_connector_set_timeout_def)
  moreover have "fd_ok f (z_connector_set_timeout t s)" using ok(2)
    by (simp add: fd_ok_def holders_def z_connector_set_timeout_def cong: dispatch_state.case_cong)
  moreover have "calls_ok (z_connector_set_timeout t s)" "data_ok owes (z_connector_set_timeout t s)"
    using ok(3,4) by (simp_all add: calls_ok_def data_ok_def z_connector_set_timeout_def)
  ultimately show ?thesis by (rule connector_okI)
qed

lemma step_ok:
  assumes "connector_step s r" "connector_ok f owes 0 s"
  shows "\<exists>s'. r = Inr s' \<and> connector_ok f owes 0 s'"
  using assms
proof (cases rule: connector_step.cases)
  case (start ok name)
  then show ?thesis using start_ok[OF assms(2), of ok name] by auto
next
  case cancel
  then show ?thesis using cancel_ok[OF assms(2)] by simp
next
  case set_timeout
  then show ?thesis using set_timeout_ok[OF assms(2)] by simp
next
  case drop_ref
  then show ?thesis using drop_ok[OF assms(2)] by simp
next
  case dispatch
  then show ?thesis using dispatch_ok[OF assms(2)] by simp
next
  case locked
  then show ?thesis using locked_ok[OF assms(2)] by simp
next
  case returns
  then show ?thesis using returns_ok[OF assms(2)] by simp
qed

lemma run_ok: "connector_run s s' \<Longrightarrow> connector_ok f owes 0 s \<Longrightarrow> connector_ok f owes 0 s'"
  by (induction rule: connector_run.induct) (auto dest: step_ok)

subsection \<open>Properties\<close>

lemma new_ok:
  assumes "z_connector_new (Some f) addr bound nonblocking True ud dd = Inr (Some s, es)"
  shows "connector_ok f (ud \<and> dd) 0 s"
proof -
  have "s = \<lparr>co_fd = Some f, co_local = addr, co_watch = False, co_timeout = 30, co_callback = True, co_user_data = ud,
      co_destroy_data = dd, co_ref = 1, co_freed = False, co_user = True, co_source = No_source, co_dispatch = Idle, co_log = []\<rparr>"
    using assms by (auto simp: z_connector_new_def z_connector_open_socket_def rbind_eq_Inr Let_def split: if_splits)
  then show ?thesis by (auto simp: connector_ok_def connector_parts calls_ok_def data_ok_def)
qed


text \<open>A connection that is cancelled while it is being made.\<close>

definition new_connector :: "nat connector" where
  "new_connector = \<lparr>co_fd = Some 7, co_local = None, co_watch = False, co_timeout = 30, co_callback = True, co_user_data = True,
     co_destroy_data = True, co_ref = 1, co_freed = False, co_user = True, co_source = No_source, co_dispatch = Idle, co_log = []\<rparr>"

definition racing_connector :: "nat connector" where
  "racing_connector = new_connector\<lparr>co_source := Attached, co_watch := True, co_ref := 2, co_dispatch := Decided (Some 7) 0, co_fd := None\<rparr>"

lemma racing_run: "connector_run new_connector racing_connector"
proof -
  have a: "connector_step new_connector (Inr (new_connector\<lparr>co_source := Attached, co_watch := True, co_ref := 2\<rparr>))"
    using connector_step.start[of new_connector True None]
    by (simp add: new_connector_def z_connector_start_def z_connector_start_internal_def z_connector_ref_def numeral_2_eq_2)
  have b: "connector_step (new_connector\<lparr>co_source := Attached, co_watch := True, co_ref := 2\<rparr>) (Inr racing_connector)"
    using connector_step.dispatch[of "new_connector\<lparr>co_source := Attached, co_watch := True, co_ref := 2\<rparr>" False 0]
    by (simp add: new_connector_def racing_connector_def connected_unlocked_def)
  show ?thesis by (rule run_more[OF run_more[OF run_none a] b])
qed

definition cancelled_connector :: "nat connector" where
  "cancelled_connector = racing_connector\<lparr>co_watch := False, co_source := Destroyed\<rparr>"

lemma racing_cancel: "z_connector_cancel racing_connector = Inr cancelled_connector"
  by (simp add: z_connector_cancel_def racing_connector_def cancelled_connector_def new_connector_def)

lemma closed_run: "connector_run cancelled_connector (cancelled_connector\<lparr>co_dispatch := Returned, co_log := [Closed 7]\<rparr>)"
proof -
  have "connector_step cancelled_connector (Inr (cancelled_connector\<lparr>co_dispatch := Returned, co_log := [Closed 7]\<rparr>))"
    using connector_step.locked[of cancelled_connector "Some 7" 0]
    by (simp add: cancelled_connector_def racing_connector_def new_connector_def connected_locked_def close_fd_def add_log_def)
  then show ?thesis by (rule run_more[OF run_none])
qed


lemma unref_calls:
  assumes "z_connector_unref s = Inr s'"
  shows "calls (co_log s') = calls (co_log s) \<and> co_source s' = co_source s \<and> (co_watch s' \<longrightarrow> co_watch s)"
  using assms by (auto simp: z_connector_unref_def z_connector_free_def Let_def close_fd_def add_log_def destroy_user_data_def split: if_splits option.splits)

lemma cancelled_step:
  assumes "connector_step s r" "r = Inr s'" "\<not> co_watch s" "co_source s \<noteq> No_source"
  shows "\<not> co_watch s' \<and> co_source s' \<noteq> No_source \<and> calls (co_log s') = calls (co_log s)"
  using assms(1)
proof (cases rule: connector_step.cases)
  case cancel
  then show ?thesis using assms(2-4) by (simp add: z_connector_cancel_def split: if_splits)
next
  case set_timeout
  then show ?thesis using assms(2-4) by (auto simp: z_connector_set_timeout_def)
next
  case drop_ref
  then show ?thesis using assms(2-4) unref_calls[of "s\<lparr>co_user := False\<rparr>" s'] by auto
next
  case dispatch
  then show ?thesis using assms(2-4) by (auto simp: connected_unlocked_def Let_def split: if_splits)
next
  case (locked fd e)
  then show ?thesis using assms(2-4) by (auto simp: connected_locked_def close_fd_def add_log_def split: if_splits option.splits)
next
  case returns
  then show ?thesis using assms(2-4) unref_calls[of "destroy_user_data (s\<lparr>co_dispatch := Idle, co_source := Destroyed\<rparr>)" s']
    by (auto simp: dispatch_returns_def z_connector_source_destroy_cb_def)
qed (use assms(4) in simp)

lemma cancelled_run:
  "connector_run s s' \<Longrightarrow> \<not> co_watch s \<Longrightarrow> co_source s \<noteq> No_source \<Longrightarrow> \<not> co_watch s' \<and> co_source s' \<noteq> No_source \<and> calls (co_log s') = calls (co_log s)"
  by (induction rule: connector_run.induct) (auto dest!: cancelled_step)



subsection \<open>What goes wrong\<close>

text \<open>What \<open>poll\<close> answers makes no difference to a blocking start: after a timeout or a failure it returns success and a stream all the same.\<close>

theorem start_block_ignores_outcome:
  "z_connector_start_block ok name polls s = z_connector_start_block ok name polls' s"
  unfolding z_connector_start_block_def Let_def ..

text \<open>When the address cannot be bound or the socket cannot be switched, the socket stays open and nobody knows it; the data of the user is destroyed though no connector was made.\<close>

theorem connector_new_leaks:
  "\<exists>es. z_connector_new (Some f) (Some a) False nonblocking callback True True = Inr (None, es) \<and> snd (z_connector_open_socket (Some f) True False nonblocking) = [f]
     \<and> Closed f \<notin> set es \<and> Data_destroyed \<in> set es"
  by (simp add: z_connector_new_def z_connector_open_socket_def z_connector_unref_def z_connector_free_def close_fd_def destroy_user_data_def add_log_def)

end
