(* ===== verification/Listener.thy ===== *)
theory Listener
  imports Zorp_Prelude
begin

section \<open>Listening\<close>

text \<open>
  \<open>src/listen.c\<close>, and \<open>z_accept\<close>, \<open>z_connect\<close>, \<open>z_listen\<close> of \<open>src/socket.c\<close>. What the system answers to \<open>accept\<close> is a list, and so is
  what the callback of the user does: it may cancel, suspend or resume the listener and drop its reference. Peers and destinations are numbers.
\<close>

subsection \<open>System calls that are repeated after a signal\<close>

datatype accept_answer =
    Got nat "nat option"   \<comment> \<open>a connection: the peer, and the original destination if it is known\<close>
  | Interrupted
  | Would_block
  | Broken

text \<open>At the end of the list nothing is pending.\<close>

fun z_accept :: "accept_answer list \<Rightarrow> io_status \<times> (nat \<times> nat option) option \<times> accept_answer list" where
  "z_accept [] = (IO_AGAIN, None, [])"
| "z_accept (Interrupted # ks) = z_accept ks"
| "z_accept (Would_block # ks) = (IO_AGAIN, None, ks)"
| "z_accept (Broken # ks) = (IO_ERROR, None, ks)"
| "z_accept (Got c d # ks) = (IO_NORMAL, Some (c, d), ks)"

datatype connect_answer = Connect_ok | Connect_interrupted | Connect_failed int

text \<open>The second component is \<open>errno\<close>.\<close>

fun z_connect :: "connect_answer list \<Rightarrow> io_status \<times> int" where
  "z_connect [] = (IO_NORMAL, 0)"
| "z_connect (Connect_ok # ks) = (IO_NORMAL, 0)"
| "z_connect (Connect_interrupted # ks) = z_connect ks"
| "z_connect (Connect_failed e # ks) = (IO_ERROR, e)"

fun z_disconnect :: "connect_answer list \<Rightarrow> io_status" where
  "z_disconnect [] = IO_NORMAL"
| "z_disconnect (Connect_ok # ks) = IO_NORMAL"
| "z_disconnect (Connect_interrupted # ks) = z_disconnect ks"
| "z_disconnect (Connect_failed e # ks) = IO_ERROR"

definition z_listen :: "int \<Rightarrow> io_status" where
  "z_listen rc = (if rc = -1 then IO_ERROR else IO_NORMAL)"

subsection \<open>The listener\<close>

text \<open>
  \<open>li_watch\<close>: the pointer to the source is set; \<open>li_attached\<close>: that source is not destroyed; \<open>li_busy\<close>: it is being dispatched, and
  GLib keeps the reference of the source until the end. \<open>li_user\<close>: the user has a reference.
\<close>

record listener =
  li_fd :: "nat option"
  li_watch :: bool
  li_suspended :: bool
  li_accept_one :: bool
  li_ref :: nat
  li_freed :: bool
  li_user :: bool
  li_attached :: bool
  li_busy :: bool
  li_closed :: "nat list"

definition z_listener_new :: "bool \<Rightarrow> listener" where
  "z_listener_new accept_one =
     \<lparr>li_fd = None, li_watch = False, li_suspended = False, li_accept_one = accept_one, li_ref = 1, li_freed = False, li_user = True,
      li_attached = False, li_busy = False, li_closed = []\<rparr>"

definition z_listener_free :: "listener \<Rightarrow> listener" where
  "z_listener_free self = self\<lparr>li_closed := li_closed self @ (case li_fd self of None \<Rightarrow> [] | Some fd \<Rightarrow> [fd]), li_freed := True\<rparr>"

definition z_listener_ref :: "listener \<Rightarrow> listener result" where
  "z_listener_ref self = (if li_freed self \<or> li_ref self = 0 then Inl Bad_access else Inr (self\<lparr>li_ref := li_ref self + 1\<rparr>))"

definition z_listener_unref :: "listener \<Rightarrow> listener result" where
  "z_listener_unref self =
     (if li_freed self \<or> li_ref self = 0 then Inl Bad_access
      else let s = self\<lparr>li_ref := li_ref self - 1\<rparr> in Inr (if li_ref s = 0 then z_listener_free s else s))"

text \<open>
  \<open>z_stream_listener_open_listener\<close>: the results of the calls. The list are the descriptors that stay open.
\<close>

definition z_stream_listener_open_listener :: "nat option \<Rightarrow> io_status \<Rightarrow> io_status \<Rightarrow> io_status \<Rightarrow> nat option \<times> nat list" where
  "z_stream_listener_open_listener sock bound listens named =
     (case sock of None \<Rightarrow> (None, [])
      | Some fd \<Rightarrow> if bound \<noteq> IO_NORMAL \<or> listens \<noteq> IO_NORMAL \<or> named \<noteq> IO_NORMAL then (None, []) else (Some fd, [fd]))"

definition z_listener_open :: "nat option \<Rightarrow> listener \<Rightarrow> listener \<times> bool" where
  "z_listener_open opened self = (case opened of None \<Rightarrow> (self, False) | Some fd \<Rightarrow> (self\<lparr>li_fd := Some fd\<rparr>, True))"

text \<open>\<open>opened\<close> is the answer of the virtual function \<open>open_listener\<close>.\<close>

definition z_listener_start :: "nat option \<Rightarrow> listener \<Rightarrow> (listener \<times> bool) result" where
  "z_listener_start opened self =
     (if li_watch self then Inr (self, False)
      else let (s, ok) = (if li_fd self = None then z_listener_open opened self else (self, True))
        in if ok
           then rbind (z_listener_ref s) (\<lambda>s1. Inr (s1\<lparr>li_watch := True, li_attached := True, li_suspended := False\<rparr>, True))
           else Inr (s, False))"

definition z_listener_suspend :: "listener \<Rightarrow> listener" where
  "z_listener_suspend self = (if li_watch self then self\<lparr>li_suspended := True\<rparr> else self)"

definition z_listener_resume :: "listener \<Rightarrow> listener" where
  "z_listener_resume self = (if li_watch self then self\<lparr>li_suspended := False\<rparr> else self)"

definition z_listener_cancel :: "listener \<Rightarrow> listener result" where
  "z_listener_cancel self =
     (if li_watch self
      then let s = self\<lparr>li_watch := False\<rparr>
        in if li_attached s
           then let s1 = s\<lparr>li_attached := False\<rparr> in if li_busy s1 then Inr s1 else z_listener_unref s1
           else Inr s
      else Inr self)"

subsection \<open>Accepting\<close>

datatype act = Do_cancel | Do_suspend | Do_resume | Do_drop

fun do_act :: "act \<Rightarrow> listener \<Rightarrow> listener result" where
  "do_act Do_cancel s = z_listener_cancel s"
| "do_act Do_suspend s = Inr (z_listener_suspend s)"
| "do_act Do_resume s = Inr (z_listener_resume s)"
| "do_act Do_drop s = (if li_user s then z_listener_unref (s\<lparr>li_user := False\<rparr>) else Inr s)"

fun do_acts :: "act list \<Rightarrow> listener \<Rightarrow> listener result" where
  "do_acts [] s = Inr s"
| "do_acts (a # as) s = rbind (do_act a s) (do_acts as)"

text \<open>The variable \<open>dest\<close>, which the code does not initialise.\<close>

datatype out_param = Unset | Set "nat option"

definition MAX_ACCEPTS_AT_A_TIME :: nat where "MAX_ACCEPTS_AT_A_TIME = 50"

text \<open>
  The loop of \<open>z_listener_accept\<close>. \<open>left\<close> counts down from the maximum; \<open>same i\<close> says whether the clock still shows the second of the start
  when the \<open>i\<close>-th turn begins; \<open>react i\<close> is what the \<open>i\<close>-th call of the callback returns and does. The result has the calls: the peer, if any, and \<open>dest\<close>.
\<close>

fun accept_loop :: "nat \<Rightarrow> (nat \<Rightarrow> bool) \<Rightarrow> (nat \<Rightarrow> bool \<times> act list) \<Rightarrow> nat \<Rightarrow> out_param \<Rightarrow> bool \<Rightarrow> accept_answer list \<Rightarrow> listener \<Rightarrow>
    (listener \<times> accept_answer list \<times> (nat option \<times> out_param) list \<times> bool) result" where
  "accept_loop 0 same react i dest rc ks s = Inr (s, ks, [], rc)"
| "accept_loop (Suc left) same react i dest rc ks s =
     (if li_suspended s \<or> \<not> rc \<or> \<not> same i then Inr (s, ks, [], rc)
      else
        let (res, c, ks1) = z_accept ks
        in if res = IO_AGAIN then Inr (s, ks1, [], rc)
           else
             let client = map_option fst c;
                 dest1 = (case c of Some (p, d) \<Rightarrow> Set d | None \<Rightarrow> dest)
             in rbind (do_acts (snd (react i)) s) (\<lambda>s1.
                  let rc1 = (if li_accept_one s1 then False else fst (react i))
                  in if \<not> li_watch s1 then Inr (s1, ks1, [(client, dest1)], rc1)
                     else rbind (accept_loop left same react (i + 1) dest1 rc1 ks1 s1) (\<lambda>(s2, ks2, calls, rc2).
                       Inr (s2, ks2, (client, dest1) # calls, rc2))))"

definition z_listener_accept :: "(nat \<Rightarrow> bool) \<Rightarrow> (nat \<Rightarrow> bool \<times> act list) \<Rightarrow> accept_answer list \<Rightarrow> listener \<Rightarrow>
    (listener \<times> accept_answer list \<times> (nat option \<times> out_param) list \<times> bool) result" where
  "z_listener_accept same react ks self =
     (if \<not> li_watch self then Inr (self, ks, [], True)
      else rbind (z_listener_ref self) (\<lambda>s.
           rbind (accept_loop MAX_ACCEPTS_AT_A_TIME same react 0 Unset True ks s) (\<lambda>(s1, ks1, calls, rc).
           rbind (z_listener_unref s1) (\<lambda>s2. if li_freed s2 then Inl Bad_access else Inr (s2, ks1, calls, rc)))))"

text \<open>A dispatch of the source: its end drops the reference of the source when it was destroyed or the function returns \<open>FALSE\<close>.\<close>

definition listener_dispatch :: "(nat \<Rightarrow> bool) \<Rightarrow> (nat \<Rightarrow> bool \<times> act list) \<Rightarrow> accept_answer list \<Rightarrow> listener \<Rightarrow>
    (listener \<times> accept_answer list \<times> (nat option \<times> out_param) list) result" where
  "listener_dispatch same react ks self =
     rbind (if li_suspended self then Inr (self\<lparr>li_busy := True\<rparr>, ks, [], True) else z_listener_accept same react ks (self\<lparr>li_busy := True\<rparr>)) (\<lambda>(s, ks1, calls, rc).
       let s1 = s\<lparr>li_busy := False\<rparr>
       in if rc \<and> li_attached s1 then Inr (s1, ks1, calls)
          else rbind (z_listener_unref (s1\<lparr>li_attached := False\<rparr>)) (\<lambda>s2. Inr (s2, ks1, calls)))"

subsection \<open>The references are enough\<close>

text \<open>In a dispatch: the reference of the source, \<open>k\<close> of the function, and that of the user.\<close>

definition in_dispatch :: "nat \<Rightarrow> listener \<Rightarrow> bool" where
  "in_dispatch k s \<longleftrightarrow> li_busy s \<and> \<not> li_freed s \<and> li_ref s = of_bool (li_user s) + 1 + k \<and> li_watch s = li_attached s"

lemma act_ok:
  assumes "in_dispatch k s"
  shows "\<exists>s'. do_act a s = Inr s' \<and> in_dispatch k s' \<and> li_accept_one s' = li_accept_one s \<and> (li_watch s' \<longrightarrow> li_watch s) \<and> (a = Do_cancel \<longrightarrow> \<not> li_watch s')"
  using assms
  by (cases a) (auto simp: in_dispatch_def z_listener_cancel_def z_listener_suspend_def z_listener_resume_def z_listener_unref_def Let_def)

lemma acts_ok:
  "in_dispatch k s \<Longrightarrow> \<exists>s'. do_acts as s = Inr s' \<and> in_dispatch k s' \<and> li_accept_one s' = li_accept_one s \<and> (li_watch s' \<longrightarrow> li_watch s \<and> Do_cancel \<notin> set as)"
proof (induction as arbitrary: s)
  case (Cons a as)
  obtain s1 where s1: "do_act a s = Inr s1" "in_dispatch k s1" "li_accept_one s1 = li_accept_one s" "li_watch s1 \<longrightarrow> li_watch s"
    "a = Do_cancel \<longrightarrow> \<not> li_watch s1" using act_ok[OF Cons.prems] by blast
  obtain s2 where "do_acts as s1 = Inr s2" "in_dispatch k s2" "li_accept_one s2 = li_accept_one s1" "li_watch s2 \<longrightarrow> li_watch s1 \<and> Do_cancel \<notin> set as"
    using Cons.IH[OF s1(2)] by blast
  then show ?case using s1 by auto
qed simp

text \<open>What the system answered with: the calls of the callback that this leads to.\<close>

fun taken :: "accept_answer list \<Rightarrow> nat option list" where
  "taken [] = []"
| "taken (Got c d # ks) = Some c # taken ks"
| "taken (Broken # ks) = None # taken ks"
| "taken (_ # ks) = taken ks"

lemma accept_taken:
  "z_accept ks = (res, c, ks1) \<Longrightarrow> \<exists>used. ks = used @ ks1 \<and> taken used = (if res = IO_AGAIN then [] else [map_option fst c])"
proof (induction ks rule: z_accept.induct)
  case (2 ks)
  then obtain used where "ks = used @ ks1" "taken used = (if res = IO_AGAIN then [] else [map_option fst c])" by auto
  then show ?case by (intro exI[of _ "Interrupted # used"]) simp
next
  case (3 ks)
  then show ?case by (intro exI[of _ "[Would_block]"]) auto
next
  case (4 ks)
  then show ?case by (intro exI[of _ "[Broken]"]) auto
next
  case (5 c d ks)
  then show ?case by (intro exI[of _ "[Got c d]"]) auto
qed auto

lemma taken_append [simp]: "taken (xs @ ys) = taken xs @ taken ys"
  by (induction xs rule: taken.induct) auto

lemma loop_ok:
  "in_dispatch k s \<Longrightarrow>
   \<exists>s' ks' calls rc'. accept_loop left same react i dest rc ks s = Inr (s', ks', calls, rc') \<and> in_dispatch k s'
     \<and> length calls \<le> left \<and> (li_accept_one s \<longrightarrow> length calls \<le> 1) \<and> (\<not> rc \<longrightarrow> calls = [])
     \<and> (\<exists>used. ks = used @ ks' \<and> taken used = map fst calls)
     \<and> (\<forall>j. j + 1 < length calls \<longrightarrow> fst (react (i + j)) \<and> Do_cancel \<notin> set (snd (react (i + j))))"
proof (induction left arbitrary: i dest rc ks s)
  case (Suc left)
  show ?case
  proof (cases "li_suspended s \<or> \<not> rc \<or> \<not> same i")
    case True
    then show ?thesis using Suc.prems by auto
  next
    case False
    obtain res c ks1 where z: "z_accept ks = (res, c, ks1)" by (metis prod.exhaust)
    obtain used where u: "ks = used @ ks1" "taken used = (if res = IO_AGAIN then [] else [map_option fst c])" using accept_taken[OF z] by blast
    show ?thesis
    proof (cases "res = IO_AGAIN")
      case True
      then show ?thesis using z u False Suc.prems by auto
    next
      case res: False
      obtain s1 where s1: "do_acts (snd (react i)) s = Inr s1" "in_dispatch k s1" "li_accept_one s1 = li_accept_one s"
        "li_watch s1 \<longrightarrow> Do_cancel \<notin> set (snd (react i))" using acts_ok[OF Suc.prems] by blast
      show ?thesis
      proof (cases "li_watch s1")
        case w: False
        then show ?thesis using z u False res s1 by simp
      next
        case w: True
        let ?d = "case c of Some (p, d) \<Rightarrow> Set d | None \<Rightarrow> dest" and ?rc = "if li_accept_one s1 then False else fst (react i)"
        obtain s2 ks2 calls rc2 where r: "accept_loop left same react (i + 1) ?d ?rc ks1 s1 = Inr (s2, ks2, calls, rc2)" "in_dispatch k s2"
          "length calls \<le> left" "li_accept_one s1 \<longrightarrow> length calls \<le> 1" "\<not> ?rc \<longrightarrow> calls = []"
          "\<exists>used. ks1 = used @ ks2 \<and> taken used = map fst calls"
          "\<forall>j. j + 1 < length calls \<longrightarrow> fst (react (i + 1 + j)) \<and> Do_cancel \<notin> set (snd (react (i + 1 + j)))"
          using Suc.IH[OF s1(2), of "i + 1" ?d ?rc ks1] by blast
        have e: "accept_loop (Suc left) same react i dest rc ks s = Inr (s2, ks2, (map_option fst c, ?d) # calls, rc2)"
          using False z res s1(1) w r(1) by simp
        have "fst (react (i + j)) \<and> Do_cancel \<notin> set (snd (react (i + j)))" if "j < length calls" for j
        proof (cases j)
          case 0
          then have "calls \<noteq> []" using that by auto
          then show ?thesis using 0 r(5) s1(4) w by (auto split: if_splits)
        next
          case (Suc m)
          then show ?thesis using r(7)[rule_format, of m] that by simp
        qed
        moreover have "li_accept_one s \<longrightarrow> calls = []" using r(5) s1(3) by auto
        moreover obtain used2 where "ks1 = used2 @ ks2" "taken used2 = map fst calls" using r(6) by blast
        then have "ks = (used @ used2) @ ks2" "taken (used @ used2) = map fst ((map_option fst c, ?d) # calls)" using u res by simp_all
        moreover have rc using False by simp
        ultimately show ?thesis using e r(2,3) by (intro exI[of _ s2] exI[of _ ks2] exI[of _ "(map_option fst c, ?d) # calls"] exI[of _ rc2]) auto
      qed
    qed
  qed
qed auto

text \<open>
  C27: When the socket of a listener is ready, the connections that are accepted are all handed to the callback, in order, and the others stay
  pending; there are at most fifty, and at most one for a listener that is to accept one. A call that returns \<open>FALSE\<close> or
  cancels the listener is the last one, and a cancelled or suspended listener gets none. The listener is not freed while this goes on,
  even when the callback cancels it and drops the last reference of the user: then it is freed at the end and its socket is closed.
\<close>

theorem listener_hands_over:
  assumes "li_ref s = of_bool (li_user s) + 1" "\<not> li_freed s" "li_attached s" "li_watch s" "\<not> li_busy s" "li_closed s = []"
  shows "\<exists>s' ks' calls. listener_dispatch same react ks s = Inr (s', ks', calls)
     \<and> (\<exists>used. ks = used @ ks' \<and> taken used = map fst calls) \<and> length calls \<le> 50 \<and> (li_accept_one s \<longrightarrow> length calls \<le> 1)
     \<and> (\<forall>j. j + 1 < length calls \<longrightarrow> fst (react j) \<and> Do_cancel \<notin> set (snd (react j)))
     \<and> (li_suspended s \<longrightarrow> calls = [])
     \<and> (li_freed s' \<longleftrightarrow> \<not> li_user s' \<and> \<not> li_attached s')"
proof (cases "li_suspended s")
  case True
  then show ?thesis using assms by (auto simp: listener_dispatch_def)
next
  case False
  let ?s1 = "s\<lparr>li_busy := True, li_ref := li_ref s + 1\<rparr>"
  have d: "in_dispatch 1 ?s1" using assms by (simp add: in_dispatch_def)
  obtain s2 ks2 calls rc where r: "accept_loop MAX_ACCEPTS_AT_A_TIME same react 0 Unset True ks ?s1 = Inr (s2, ks2, calls, rc)" "in_dispatch 1 s2"
    "length calls \<le> MAX_ACCEPTS_AT_A_TIME" "li_accept_one s \<longrightarrow> length calls \<le> 1" "\<exists>used. ks = used @ ks2 \<and> taken used = map fst calls"
    "\<forall>j. j + 1 < length calls \<longrightarrow> fst (react j) \<and> Do_cancel \<notin> set (snd (react j))"
    using loop_ok[OF d, of MAX_ACCEPTS_AT_A_TIME same react 0 Unset True ks] by auto
  let ?s3 = "s2\<lparr>li_ref := li_ref s2 - 1\<rparr>"
  have b: "li_ref s2 = of_bool (li_user s2) + 2" "\<not> li_freed s2" using r(2) by (auto simp: in_dispatch_def)
  have "z_listener_accept same react ks (s\<lparr>li_busy := True\<rparr>) = Inr (?s3, ks2, calls, rc)"
    using assms(1,2,4) r(1) b by (simp add: z_listener_accept_def z_listener_ref_def z_listener_unref_def Let_def)
  then have "listener_dispatch same react ks s = (if rc \<and> li_attached s2 then Inr (?s3\<lparr>li_busy := False\<rparr>, ks2, calls)
      else rbind (z_listener_unref (?s3\<lparr>li_busy := False, li_attached := False\<rparr>)) (\<lambda>s4. Inr (s4, ks2, calls)))"
    using False by (simp add: listener_dispatch_def Let_def)
  moreover have "z_listener_unref (?s3\<lparr>li_busy := False, li_attached := False\<rparr>)
      = Inr (if li_user s2 then ?s3\<lparr>li_busy := False, li_attached := False, li_ref := 1\<rparr>
             else z_listener_free (?s3\<lparr>li_busy := False, li_attached := False, li_ref := 0\<rparr>))"
    using b by (simp add: z_listener_unref_def Let_def)
  ultimately show ?thesis using r(3-6) False b
    by (auto simp: MAX_ACCEPTS_AT_A_TIME_def z_listener_free_def)
qed

definition live_listener :: listener where
  "live_listener = (z_listener_new False)\<lparr>li_fd := Some 4, li_watch := True, li_attached := True, li_ref := 2\<rparr>"

theorem listener_hands_over_witness:
  "\<exists>s' ks' calls. listener_dispatch (\<lambda>i. True) (\<lambda>i. (True, if i = 1 then [Do_cancel, Do_drop] else [])) [Got 1 None, Interrupted, Got 2 (Some 9), Got 3 None] live_listener
      = Inr (s', ks', calls) \<and> length calls \<le> 50 \<and> (li_freed s' \<longleftrightarrow> \<not> li_user s' \<and> \<not> li_attached s')"
  using listener_hands_over[of live_listener "\<lambda>i. True" "\<lambda>i. (True, if i = 1 then [Do_cancel, Do_drop] else [])" "[Got 1 None, Interrupted, Got 2 (Some 9), Got 3 None]"]
  unfolding live_listener_def z_listener_new_def by auto

text \<open>When the first answer is an error, the callback is called with a destination that was never set; later, with that of the connection before.\<close>

theorem listener_stale_destination:
  "listener_dispatch (\<lambda>i. True) (\<lambda>i. (True, [])) [Broken, Got 2 (Some 9), Broken] live_listener
     = Inr (live_listener, [], [(None, Unset), (Some 2, Set (Some 9)), (None, Set (Some 9))])"
  by (simp add: listener_dispatch_def z_listener_accept_def z_listener_ref_def z_listener_unref_def live_listener_def z_listener_new_def MAX_ACCEPTS_AT_A_TIME_def
      numeral_eq_Suc Let_def)

end
