(* ===== verification/Streamtee.thy ===== *)
theory Streamtee
  imports Stream_Child Streamgzip
begin

section \<open>Tee streams\<close>

text \<open>
  \<open>src/streamtee.c\<close>: a stream over the child \<open>c\<close> that copies what passes in one direction to a second stream, the fork. Both are
  streams of the store. \<open>shut\<close> and \<open>close\<close> stand for virtual methods of streams, by their number.
\<close>

record zstream_tee =
  te_fork :: nat
  te_direction :: "32 word"
  te_timeout :: int

definition z_stream_tee_new :: "nat \<Rightarrow> 32 word \<Rightarrow> zstream_tee" where
  "z_stream_tee_new fork direction = \<lparr>te_fork = fork, te_direction = direction, te_timeout = -2\<rparr>"

text \<open>Writes until all is written or a write fails.\<close>

definition z_stream_tee_write_fork :: "zstream_tee \<Rightarrow> bytes \<Rightarrow> world \<Rightarrow> (world \<times> io_status) result" where
  "z_stream_tee_write_fork self buf w = rbind (write_loop w (te_fork self) buf) (\<lambda>(w1, st, n). Inr (w1, st))"

definition z_stream_tee_read_method :: "nat \<Rightarrow> nat \<Rightarrow> zstream_tee \<Rightarrow> world \<Rightarrow> (world \<times> io_status \<times> bytes) result" where
  "z_stream_tee_read_method c count self w =
     rbind (upd_st w c (\<lambda>s. s\<lparr>st_timeout := te_timeout self\<rparr>)) (\<lambda>w0.
     rbind (z_stream_read w0 c count) (\<lambda>(w1, res, d).
       if res = IO_NORMAL \<and> te_direction self = G_IO_IN \<and> d \<noteq> []
       then rbind (z_stream_tee_write_fork self d w1) (\<lambda>(w2, res2). Inr (w2, res2, d))
       else Inr (w1, res, d)))"

definition z_stream_tee_write_method :: "nat \<Rightarrow> bytes \<Rightarrow> zstream_tee \<Rightarrow> world \<Rightarrow> (world \<times> io_status \<times> nat) result" where
  "z_stream_tee_write_method c buf self w =
     rbind (upd_st w c (\<lambda>s. s\<lparr>st_timeout := te_timeout self\<rparr>)) (\<lambda>w0.
     rbind (z_stream_write w0 c buf) (\<lambda>(w1, res, n).
       if res = IO_NORMAL \<and> te_direction self = G_IO_OUT \<and> n \<noteq> 0
       then rbind (z_stream_tee_write_fork self (take n buf) w1) (\<lambda>(w2, res2). Inr (w2, res2, n))
       else Inr (w1, res, n)))"

definition z_stream_tee_shutdown_method :: "(nat \<Rightarrow> shut_how \<Rightarrow> 's \<Rightarrow> ('s \<times> io_status) result) \<Rightarrow> nat \<Rightarrow> shut_how \<Rightarrow> zstream_tee \<Rightarrow> 's \<Rightarrow> ('s \<times> io_status) result" where
  "z_stream_tee_shutdown_method shut c how self w =
     rbind (if how = SHUT_RDWR \<or> how = SHUT_WR \<and> te_direction self = G_IO_OUT \<or> how = SHUT_RD \<and> te_direction self = G_IO_IN
            then shut (te_fork self) SHUT_RDWR w else Inr (w, IO_NORMAL)) (\<lambda>(w1, res).
       if res = IO_NORMAL then shut c how w1 else Inr (w1, res))"

definition z_stream_tee_close_method :: "(nat \<Rightarrow> 's \<Rightarrow> ('s \<times> io_status) result) \<Rightarrow> nat \<Rightarrow> zstream_tee \<Rightarrow> 's \<Rightarrow> ('s \<times> io_status) result" where
  "z_stream_tee_close_method close self_stream self w =
     rbind (close (te_fork self) w) (\<lambda>(w1, res). if res = IO_NORMAL then close self_stream w1 else Inr (w1, res))"

text \<open>The conditions that the user wants are passed to the child, which calls back.\<close>

definition z_stream_tee_watch_prepare :: "nat \<Rightarrow> int \<Rightarrow> int \<Rightarrow> int \<Rightarrow> world \<Rightarrow> (world \<times> int \<times> bool) result" where
  "z_stream_tee_watch_prepare c want_read want_write want_pri w =
     rbind (z_stream_set_cond w c G_IO_IN want_read) (\<lambda>(w1, a).
     rbind (z_stream_set_cond w1 c G_IO_OUT want_write) (\<lambda>(w2, b).
     rbind (z_stream_set_cond w2 c G_IO_PRI want_pri) (\<lambda>(w3, d). Inr (w3, -1, False))))"

definition z_stream_tee_watch_check :: bool where "z_stream_tee_watch_check = False"
definition z_stream_tee_watch_dispatch :: bool where "z_stream_tee_watch_dispatch = True"

subsection \<open>The copy is complete\<close>

lemma upd_timeout:
  assumes "get_st w c = Inr s"
  shows "\<exists>w0. upd_st w c (\<lambda>s. s\<lparr>st_timeout := t\<rparr>) = Inr w0 \<and> get_st w0 c = Inr (s\<lparr>st_timeout := t\<rparr>) \<and> w_pkts w0 = w_pkts w
     \<and> (\<forall>b. b \<noteq> c \<longrightarrow> get_st w0 b = get_st w b)"
proof (intro exI conjI)
  show "upd_st w c (\<lambda>s. s\<lparr>st_timeout := t\<rparr>) = Inr (put_st c (s\<lparr>st_timeout := t\<rparr>) w)" using assms by (simp add: upd_st_def)
  show "w_pkts (put_st c (s\<lparr>st_timeout := t\<rparr>) w) = w_pkts w" by (simp add: put_st_def)
qed (use assms in \<open>auto simp: get_put\<close>)

lemma timeout_source:
  assumes "source_ok c w"
  shows "\<exists>w0. upd_st w c (\<lambda>s. s\<lparr>st_timeout := t\<rparr>) = Inr w0 \<and> source_ok c w0 \<and> to_read c w0 = to_read c w \<and> (\<forall>b. b \<noteq> c \<longrightarrow> get_st w0 b = get_st w b)"
proof -
  obtain s where s: "get_st w c = Inr s" using assms by (auto simp: source_ok_def)
  obtain w0 where w0: "upd_st w c (\<lambda>s. s\<lparr>st_timeout := t\<rparr>) = Inr w0" "get_st w0 c = Inr (s\<lparr>st_timeout := t\<rparr>)" "w_pkts w0 = w_pkts w"
    "\<forall>b. b \<noteq> c \<longrightarrow> get_st w0 b = get_st w b" using upd_timeout[OF s] by blast
  have "pkt_data w0 = pkt_data w" using w0(3) by (simp add: pkt_data_def fun_eq_iff)
  then have "source_ok c w0" "to_read c w0 = to_read c w" using assms s w0(2,3) by (simp_all add: source_ok_def to_read_def)
  then show ?thesis using w0(1,4) by blast
qed

lemma tee_read:
  assumes "source_ok c w" "takes_all f w d" "f \<noteq> c" "0 < n" "te_fork self = f"
  shows "\<exists>w' st e. z_stream_tee_read_method c n self w = Inr (w', st, e) \<and> source_ok c w' \<and> to_read c w = e @ to_read c w' \<and> length e \<le> n
     \<and> (st = IO_NORMAL \<or> st = IO_EOF \<and> to_read c w = []) \<and> takes_all f w' (d @ (if te_direction self = G_IO_IN then e else []))"
proof -
  obtain w0 where w0: "upd_st w c (\<lambda>s. s\<lparr>st_timeout := te_timeout self\<rparr>) = Inr w0" "source_ok c w0" "to_read c w0 = to_read c w"
    "\<forall>b. b \<noteq> c \<longrightarrow> get_st w0 b = get_st w b" using timeout_source[OF assms(1)] by blast
  obtain w1 st e where r: "z_stream_read w0 c n = Inr (w1, st, e)" "source_ok c w1" "to_read c w0 = e @ to_read c w1" "length e \<le> n"
    "st = IO_NORMAL \<or> st = IO_EOF \<and> to_read c w0 = []" using read_source[OF w0(2) assms(4)] by blast
  have t: "takes_all f w1 d" using assms(2) w0(4) read_other[OF r(1) assms(3)] assms(3) takes_all_cong by metis
  show ?thesis
  proof (cases "st = IO_NORMAL \<and> te_direction self = G_IO_IN \<and> e \<noteq> []")
    case True
    obtain w2 where w2: "write_loop w1 f e = Inr (w2, IO_NORMAL, length e)" "takes_all f w2 (d @ e)" using takes_all_loop[OF t] .
    have "source_ok c w2 \<and> to_read c w2 = to_read c w1" using write_loop_other[OF w2(1) assms(3)[symmetric]] source_cong[of w2 c w1] r(2) by blast
    then show ?thesis using True w0(1,3) r w2 assms(5) by (simp add: z_stream_tee_read_method_def z_stream_tee_write_fork_def)
  next
    case False
    then have "z_stream_tee_read_method c n self w = Inr (w1, st, e)" using w0(1) r(1) by (auto simp: z_stream_tee_read_method_def)
    moreover have "te_direction self = G_IO_IN \<longrightarrow> e = []" using False r(3,5) by auto
    ultimately show ?thesis using r w0(3) t by auto
  qed
qed

text \<open>A run of reads; the pieces that were delivered.\<close>

fun tee_reads :: "nat \<Rightarrow> nat list \<Rightarrow> zstream_tee \<Rightarrow> world \<Rightarrow> (world \<times> bytes list) result" where
  "tee_reads c [] self w = Inr (w, [])"
| "tee_reads c (n # ns) self w =
     rbind (z_stream_tee_read_method c n self w) (\<lambda>(w1, st, d). rbind (tee_reads c ns self w1) (\<lambda>(w2, ds). Inr (w2, d # ds)))"

text \<open>Reading through a tee stream whose fork takes everything, in whatever pieces, delivers what the child has to read, in order, and the fork gets the same
  bytes, or none when the tee copies the other direction.
\<close>

theorem tee_copies_reads:
  assumes "source_ok c w" "takes_all f w d" "f \<noteq> c" "\<forall>n \<in> set ns. 0 < n" "te_fork self = f"
  shows "\<exists>w' ds. tee_reads c ns self w = Inr (w', ds) \<and> source_ok c w' \<and> to_read c w = concat ds @ to_read c w' \<and> length ds = length ns
     \<and> takes_all f w' (d @ (if te_direction self = G_IO_IN then concat ds else []))"
  using assms(1,2,4)
proof (induction ns arbitrary: w d)
  case (Cons n ns)
  obtain w1 st e where r: "z_stream_tee_read_method c n self w = Inr (w1, st, e)" "source_ok c w1" "to_read c w = e @ to_read c w1"
    "takes_all f w1 (d @ (if te_direction self = G_IO_IN then e else []))" using tee_read[OF Cons.prems(1,2) assms(3) _ assms(5), of n] Cons.prems(3) by auto
  obtain w2 ds where "tee_reads c ns self w1 = Inr (w2, ds)" "source_ok c w2" "to_read c w1 = concat ds @ to_read c w2" "length ds = length ns"
    "takes_all f w2 ((d @ (if te_direction self = G_IO_IN then e else [])) @ (if te_direction self = G_IO_IN then concat ds else []))"
    using Cons.IH[OF r(2,4)] Cons.prems(3) by auto
  then show ?case using r by (auto split: if_splits)
qed auto

definition two_streams :: world where
  "two_streams = fst (z_stream_new fed_stream ''ZStreamFD'' ''copy'' G_IO_OUT [])"

lemma two_streams_ok: "source_ok 0 two_streams" "to_read 0 two_streams = [1, 2, 3]" "takes_all 1 two_streams []" "takes_all 0 two_streams []"
  by (simp_all add: two_streams_def fed_stream_def z_stream_new_def source_ok_def to_read_def takes_all_def get_st_def slot_def steady_def)

theorem tee_copies_reads_witness:
  "\<exists>w' ds. tee_reads 0 [2, 5] (z_stream_tee_new 1 G_IO_IN) two_streams = Inr (w', ds) \<and> [1, 2, 3] = concat ds @ to_read 0 w' \<and> takes_all 1 w' (concat ds)"
proof -
  have "(1 :: nat) \<noteq> 0" "\<forall>n \<in> set [2 :: nat, 5]. 0 < n" "te_fork (z_stream_tee_new 1 G_IO_IN) = 1" by (simp_all add: z_stream_tee_new_def)
  from tee_copies_reads[OF two_streams_ok(1,3) this] show ?thesis unfolding two_streams_ok(2) by (auto simp: z_stream_tee_new_def)
qed

subsection \<open>A fork that would block\<close>

text \<open>When the fork would block, a write through the tee stream answers that it would block though the child has taken the data: a caller that writes the same
  data again, as the answer asks for, sends it to the child twice and to the fork once.
\<close>

theorem tee_write_repeats:
  assumes "takes_all c w d" "get_st w f = Inr sf" "st_accept sf = [Write_again]" "st_child sf = None" "f \<noteq> c" "buf \<noteq> []"
    "self = z_stream_tee_new f G_IO_OUT"
  shows "\<exists>w1 w2. z_stream_tee_write_method c buf self w = Inr (w1, IO_AGAIN, length buf) \<and> z_stream_tee_write_method c buf self w1 = Inr (w2, IO_NORMAL, length buf)
     \<and> takes_all c w2 (d @ buf @ buf) \<and> takes_all f w2 (st_written sf @ buf)"
proof -
  have first: "\<exists>w2. z_stream_tee_write_method c buf self v = rbind (write_loop w2 f buf) (\<lambda>(w3, st, n). Inr (w3, st, length buf))
      \<and> takes_all c w2 (e @ buf) \<and> get_st w2 f = get_st v f" if v: "takes_all c v e" for v e
  proof -
    obtain s where s: "get_st v c = Inr s" "st_accept s = []" "st_child s = None" "st_written s = e" using v by (auto simp: takes_all_def)
    obtain w0 where w0: "upd_st v c (\<lambda>s. s\<lparr>st_timeout := te_timeout self\<rparr>) = Inr w0" "get_st w0 c = Inr (s\<lparr>st_timeout := te_timeout self\<rparr>)"
      "\<forall>b. b \<noteq> c \<longrightarrow> get_st w0 b = get_st v b" using upd_timeout[OF s(1)] by blast
    have "takes_all c w0 e" using w0(2) s(2-4) by (simp add: takes_all_def)
    then obtain w2 where w2: "z_stream_write w0 c buf = Inr (w2, IO_NORMAL, length buf)" "takes_all c w2 (e @ buf)" using takes_all_write by blast
    have "get_st w2 f = get_st v f" using write_other[OF w2(1) assms(5)] w0(3) assms(5) by simp
    moreover have "z_stream_tee_write_method c buf self v = rbind (write_loop w2 f buf) (\<lambda>(w3, st, n). Inr (w3, st, length buf))"
      using w0(1) w2 assms(6,7) by (cases "write_loop w2 f buf") (auto simp: z_stream_tee_write_method_def z_stream_tee_new_def z_stream_tee_write_fork_def)
    ultimately show ?thesis using w2(2) by blast
  qed
  obtain w1 where w1: "z_stream_tee_write_method c buf self w = rbind (write_loop w1 f buf) (\<lambda>(w3, st, n). Inr (w3, st, length buf))"
    "takes_all c w1 (d @ buf)" "get_st w1 f = Inr sf" using first[OF assms(1)] assms(2) by auto
  let ?sf = "sf\<lparr>st_accept := []\<rparr>"
  have wl: "write_loop w1 f buf = Inr (put_st f ?sf w1, IO_AGAIN, 0)"
    using w1(3) assms(3,6) by (subst write_loop.simps) (simp add: z_stream_write_def)
  have "get_st (put_st f ?sf w1) f = Inr ?sf" using w1(3) by (simp add: get_put)
  then have tf: "takes_all f (put_st f ?sf w1) (st_written sf)" using assms(4) by (simp add: takes_all_def)
  have tc: "takes_all c (put_st f ?sf w1) (d @ buf)" using w1(2) assms(5) takes_all_cong[of "put_st f ?sf w1" c w1] by simp
  obtain w2 where w2: "z_stream_tee_write_method c buf self (put_st f ?sf w1) = rbind (write_loop w2 f buf) (\<lambda>(w3, st, n). Inr (w3, st, length buf))"
    "takes_all c w2 ((d @ buf) @ buf)" "get_st w2 f = get_st (put_st f ?sf w1) f" using first[OF tc] by blast
  have "takes_all f w2 (st_written sf)" using tf takes_all_cong[OF w2(3)] by simp
  then obtain w3 where w3: "write_loop w2 f buf = Inr (w3, IO_NORMAL, length buf)" "takes_all f w3 (st_written sf @ buf)" using takes_all_loop by blast
  have "takes_all c w3 ((d @ buf) @ buf)" using w2(2) write_loop_other[OF w3(1)] assms(5) takes_all_cong[of w3 c w2] by auto
  then show ?thesis using w1(1) wl w2(1) w3 by simp
qed

definition blocking_fork :: world where
  "blocking_fork = (case get_st two_streams 1 of Inl e \<Rightarrow> two_streams | Inr s \<Rightarrow> put_st 1 (s\<lparr>st_accept := [Write_again]\<rparr>) two_streams)"

theorem tee_write_repeats_witness:
  "\<exists>w1 w2. z_stream_tee_write_method 0 [8, 9] (z_stream_tee_new 1 G_IO_OUT) blocking_fork = Inr (w1, IO_AGAIN, 2)
     \<and> z_stream_tee_write_method 0 [8, 9] (z_stream_tee_new 1 G_IO_OUT) w1 = Inr (w2, IO_NORMAL, 2) \<and> takes_all 0 w2 [8, 9, 8, 9] \<and> takes_all 1 w2 [8, 9]"
proof -
  obtain sf where sf: "get_st blocking_fork 1 = Inr sf" "st_accept sf = [Write_again]" "st_child sf = None" "st_written sf = []"
    by (auto simp: blocking_fork_def two_streams_def fed_stream_def z_stream_new_def get_st_def slot_def put_st_def)
  have "takes_all 0 blocking_fork []"
    by (auto simp: blocking_fork_def two_streams_def fed_stream_def z_stream_new_def get_st_def slot_def put_st_def takes_all_def)
  from tee_write_repeats[OF this sf(1-3) _ _ refl, of "[8, 9]"] show ?thesis using sf(4) by (simp add: numeral_2_eq_2)
qed

end
