(* ===== verification/Code_Streams.thy ===== *)
theory Code_Streams
  imports Code
begin

section \<open>The gzip and the cipher encoder\<close>

text \<open>
  \<open>src/code_gzip.c\<close> and \<open>src/code_cipher.c\<close>: encoders of the base class (theory \<open>Code\<close>) around zlib and around a cipher of OpenSSL. Both libraries
  are arguments: for the state of a stream, the input and the room for output, they yield the new state, the number of bytes consumed, the
  output, and a return code.
\<close>

subsection \<open>Output behind the result\<close>

definition put_output :: "bytes \<Rightarrow> 'a zcode_scheme \<Rightarrow> 'a zcode_scheme result" where
  "put_output out s =
     (if cb_used s + length out \<le> length (cb_buf s)
      then Inr (s\<lparr>cb_buf := overwrite (cb_used s) out (cb_buf s), cb_used := cb_used s + length out\<rparr>)
      else Inl Bad_access)"

lemma put_output_ok:
  assumes "code_ok s" "cb_used s + length out \<le> length (cb_buf s)"
  obtains s' where "put_output out s = Inr s'" "code_ok s'" "code_result s' = code_result s @ out" "zcode.more s' = zcode.more s"
    "length (cb_buf s') = length (cb_buf s)" "cb_used s' = cb_used s + length out"
proof -
  let ?s = "s\<lparr>cb_buf := overwrite (cb_used s) out (cb_buf s), cb_used := cb_used s + length out\<rparr>"
  have "length (overwrite (cb_used s) out (cb_buf s)) = length (cb_buf s)" using assms(2) by (simp add: overwrite_def)
  then show thesis using assms by (intro that[of ?s]) (auto simp: put_output_def code_ok_def code_result_def overwrite_def)
qed

subsection \<open>The gzip encoder\<close>

record 'g code_gzip = zcode +
  cg_encode :: bool
  cg_gzip :: 'g
  cg_avail_in :: nat
  cg_end_of_stream :: bool

type_synonym 'g zlib_call = "'g \<Rightarrow> bytes \<Rightarrow> nat \<Rightarrow> 'g \<times> nat \<times> bytes \<times> int"

definition Z_STREAM_END :: int where "Z_STREAM_END = 1"

definition z_code_gzip_init :: "int \<Rightarrow> bool \<Rightarrow> 'g \<Rightarrow> 'g code_gzip" where
  "z_code_gzip_init bufsize encode g =
     (let c = z_code_init bufsize
      in \<lparr>cb_buf = cb_buf c, cb_used = cb_used c, cb_errors = cb_errors c, cg_encode = encode, cg_gzip = g, cg_avail_in = 0, cg_end_of_stream = False\<rparr>)"

definition z_code_gzip_encode_new :: "int \<Rightarrow> 'g \<Rightarrow> 'g code_gzip" where
  "z_code_gzip_encode_new bufsize g = z_code_gzip_init bufsize True g"

definition z_code_gzip_decode_new :: "int \<Rightarrow> 'g \<Rightarrow> 'g code_gzip" where
  "z_code_gzip_decode_new bufsize g = z_code_gzip_init bufsize False g"

text \<open>
  The loop of \<open>z_code_gzip_transform\<close>, with a counter since it may not end. \<open>call\<close> is \<open>deflate\<close> or \<open>inflate\<close>. After an error the output of the call is
  in the buffer but does not count. The lengths of zlib have 32 bits.
\<close>

fun gzip_loop :: "nat \<Rightarrow> (nat \<Rightarrow> byte) \<Rightarrow> 'g zlib_call \<Rightarrow> bytes \<Rightarrow> 'g code_gzip \<Rightarrow> ('g code_gzip \<times> bool) result" where
  "gzip_loop 0 fresh call input s = Inl Endless_loop"
| "gzip_loop (Suc fuel) fresh call input s =
     (let needed = (if cg_encode s then length input else (length input * 2) mod 2 ^ 32)
      in rbind (if length (cb_buf s) - cb_used s < needed then z_code_grow fresh s (size_to_int (length (cb_buf s) + needed)) else Inr s) (\<lambda>s1.
         let (g, k, out, rc) = call (cg_gzip s1) input (length (cb_buf s1) - cb_used s1);
             s2 = s1\<lparr>cg_gzip := g, cg_avail_in := length input - k\<rparr>
         in if rc < 0 then rbind (put_output out s2) (\<lambda>s3. Inr (s3\<lparr>cb_used := cb_used s2\<rparr>, False))
            else rbind (put_output out (if rc = Z_STREAM_END then s2\<lparr>cg_end_of_stream := True\<rparr> else s2)) (\<lambda>s3.
              if length input - k \<noteq> 0 then gzip_loop fuel fresh call (drop k input) s3 else Inr (s3, True))))"

definition z_code_gzip_transform :: "nat \<Rightarrow> (nat \<Rightarrow> byte) \<Rightarrow> 'g zlib_call \<Rightarrow> 'g zlib_call \<Rightarrow> 'g code_gzip \<Rightarrow> bytes \<Rightarrow> ('g code_gzip \<times> bool) result" where
  "z_code_gzip_transform fuel fresh deflate inflate s buf =
     (if buf = [] then Inr (s, True)
      else if cg_end_of_stream s then Inr (s, False)
      else gzip_loop fuel fresh (if cg_encode s then deflate else inflate) (take (length buf mod 2 ^ 32) buf) s)"

definition z_code_gzip_finish :: "'g code_gzip \<Rightarrow> bool" where
  "z_code_gzip_finish s \<longleftrightarrow> cg_avail_in s = 0"

text \<open>What a stream of zlib does with an input, call by call.\<close>

inductive zlib_run :: "'g zlib_call \<Rightarrow> 'g \<Rightarrow> bytes \<Rightarrow> 'g \<Rightarrow> bytes \<Rightarrow> bool" for call where
  run_last: "call g input room = (g', k, out, rc) \<Longrightarrow> 0 \<le> rc \<Longrightarrow> length input \<le> k \<Longrightarrow> zlib_run call g input g' out"
| run_turn: "call g input room = (g1, k, out, rc) \<Longrightarrow> 0 \<le> rc \<Longrightarrow> k < length input \<Longrightarrow> zlib_run call g1 (drop k input) g' outs
    \<Longrightarrow> zlib_run call g input g' (out @ outs)"

text \<open>
  zlib stays in the room that it is given. \<open>settles call g input n\<close>: whatever room they are given, \<open>n\<close> calls use up the input or end with an error.
\<close>

definition stays_in_room :: "'g zlib_call \<Rightarrow> bool" where
  "stays_in_room call \<longleftrightarrow> (\<forall>g input room g' k out rc. call g input room = (g', k, out, rc) \<longrightarrow> length out \<le> room)"

primrec settles :: "'g zlib_call \<Rightarrow> 'g \<Rightarrow> bytes \<Rightarrow> nat \<Rightarrow> bool" where
  "settles call g input 0 = False"
| "settles call g input (Suc n) =
     (\<forall>room. case call g input room of (g', k, out, rc) \<Rightarrow> rc < 0 \<or> length input \<le> k \<or> settles call g' (drop k input) n)"

lemma grow_loop_any:
  "0 < newlen \<Longrightarrow> newlen < 2 ^ 31 \<Longrightarrow> grow_loop newlen reqlen = Inl Int_overflow \<or> (\<exists>n. grow_loop newlen reqlen = Inr n \<and> newlen \<le> n \<and> n < 2 ^ 31)"
proof (induction newlen reqlen rule: grow_loop.induct)
  case (1 newlen reqlen)
  show ?case
  proof (cases "newlen < reqlen \<and> \<not> newlen * 2 \<ge> 2 ^ 31")
    case True
    then show ?thesis using 1 by (subst grow_loop.simps, subst (2) grow_loop.simps) auto
  next
    case False
    then show ?thesis using 1(2,3) by (subst grow_loop.simps, subst (2) grow_loop.simps) auto
  qed
qed

lemma grow_any:
  assumes "code_ok s"
  shows "z_code_grow fresh s reqlen = Inl Int_overflow
     \<or> (\<exists>b. z_code_grow fresh s reqlen = Inr (s\<lparr>cb_buf := b\<rparr>) \<and> code_ok (s\<lparr>cb_buf := b\<rparr>) \<and> code_result (s\<lparr>cb_buf := b\<rparr>) = code_result s)"
proof -
  let ?n = "length (cb_buf s)"
  have n: "0 < ?n" "?n < 2 ^ 31" "cb_used s \<le> ?n" using assms by (simp_all add: code_ok_def)
  have i: "size_to_int ?n = int ?n" using n(2) by (rule size_to_int_small)
  have "grow_loop (int ?n) reqlen = Inl Int_overflow \<or> (\<exists>m. grow_loop (int ?n) reqlen = Inr m \<and> int ?n \<le> m \<and> m < 2 ^ 31)"
    using grow_loop_any[of "int ?n" reqlen] n by simp
  then show ?thesis
  proof
    assume "grow_loop (int ?n) reqlen = Inl Int_overflow"
    then show ?thesis using n(1) by (simp add: z_code_grow_def i Let_def)
  next
    assume "\<exists>m. grow_loop (int ?n) reqlen = Inr m \<and> int ?n \<le> m \<and> m < 2 ^ 31"
    then obtain m where m: "grow_loop (int ?n) reqlen = Inr m" "int ?n \<le> m" "m < 2 ^ 31" by blast
    let ?b = "take (nat m) (cb_buf s) @ map fresh [?n..<nat m]"
    have l: "length ?b = nat m" using m(2) by simp
    have pos: "0 < m" using n(1) m(2) by linarith
    have "z_code_grow fresh s reqlen = Inr (s\<lparr>cb_buf := ?b\<rparr>)" using n(1) m(1) by (simp add: z_code_grow_def i Let_def)
    moreover have "?n \<le> nat m" using m(2) by simp
    then have "code_ok (s\<lparr>cb_buf := ?b\<rparr>)" "code_result (s\<lparr>cb_buf := ?b\<rparr>) = code_result s"
      using n m l pos by (auto simp: code_ok_def code_result_def)
    ultimately show ?thesis by blast
  qed
qed

lemma result_fields [simp]:
  "code_ok (s\<lparr>cg_gzip := g, cg_avail_in := n\<rparr>) = code_ok s" "code_ok (s\<lparr>cg_gzip := g, cg_avail_in := n, cg_end_of_stream := e\<rparr>) = code_ok s"
  "code_result (s\<lparr>cg_gzip := g, cg_avail_in := n\<rparr>) = code_result s" "code_result (s\<lparr>cg_gzip := g, cg_avail_in := n, cg_end_of_stream := e\<rparr>) = code_result s"
  by (simp_all add: code_ok_def code_result_def)

lemma put_output_gzip:
  assumes "code_ok s" "cb_used s + length out \<le> length (cb_buf s)"
  shows "\<exists>s'. put_output out s = Inr s' \<and> code_ok s' \<and> code_result s' = code_result s @ out \<and> cg_gzip s' = cg_gzip s \<and> cg_encode s' = cg_encode s
     \<and> cg_avail_in s' = cg_avail_in s \<and> code_ok (s'\<lparr>cb_used := cb_used s\<rparr>) \<and> code_result (s'\<lparr>cb_used := cb_used s\<rparr>) = code_result s
     \<and> cb_used s' = cb_used s + length out \<and> length (cb_buf s') = length (cb_buf s)"
  using assms by (auto simp: put_output_def code_ok_def code_result_def overwrite_def)

lemma gzip_loop_result:
  assumes "stays_in_room call"
  shows "code_ok s \<Longrightarrow> settles call (cg_gzip s) input fuel \<Longrightarrow>
     gzip_loop fuel fresh call input s = Inl Int_overflow
     \<or> (\<exists>s' ok out. gzip_loop fuel fresh call input s = Inr (s', ok) \<and> code_ok s' \<and> code_result s' = code_result s @ out
          \<and> (ok \<longrightarrow> z_code_gzip_finish s' \<and> zlib_run call (cg_gzip s) input (cg_gzip s') out))"
proof (induction fuel arbitrary: input s)
  case (Suc fuel)
  let ?needed = "if cg_encode s then length input else (length input * 2) mod 2 ^ 32"
  let ?grown = "if length (cb_buf s) - cb_used s < ?needed then z_code_grow fresh s (size_to_int (length (cb_buf s) + ?needed)) else Inr s"
  have "?grown = Inl Int_overflow \<or> (\<exists>b. ?grown = Inr (s\<lparr>cb_buf := b\<rparr>) \<and> code_ok (s\<lparr>cb_buf := b\<rparr>) \<and> code_result (s\<lparr>cb_buf := b\<rparr>) = code_result s)"
  proof (cases "length (cb_buf s) - cb_used s < ?needed")
    case True
    then show ?thesis using grow_any[OF Suc.prems(1)] by simp
  next
    case False
    then show ?thesis using Suc.prems(1) by (intro disjI2 exI[of _ "cb_buf s"]) simp
  qed
  then show ?case
  proof
    assume "?grown = Inl Int_overflow"
    then show ?thesis by (simp add: Let_def)
  next
    assume "\<exists>b. ?grown = Inr (s\<lparr>cb_buf := b\<rparr>) \<and> code_ok (s\<lparr>cb_buf := b\<rparr>) \<and> code_result (s\<lparr>cb_buf := b\<rparr>) = code_result s"
    then obtain b where b: "?grown = Inr (s\<lparr>cb_buf := b\<rparr>)" "code_ok (s\<lparr>cb_buf := b\<rparr>)" "code_result (s\<lparr>cb_buf := b\<rparr>) = code_result s" by blast
    let ?s1 = "s\<lparr>cb_buf := b\<rparr>" and ?room = "length b - cb_used s"
    obtain g k out rc where c: "call (cg_gzip s) input ?room = (g, k, out, rc)" by (metis prod.exhaust)
    have used: "cb_used s \<le> length b" using b(2) by (simp add: code_ok_def)
    have "length out \<le> ?room" using assms c unfolding stays_in_room_def by blast
    then have out: "cb_used s + length out \<le> length b" using used by linarith
    let ?s2 = "?s1\<lparr>cg_gzip := g, cg_avail_in := length input - k\<rparr>"
    show ?thesis
    proof (cases "rc < 0")
      case True
      have "cb_used ?s2 + length out \<le> length (cb_buf ?s2)" using out by simp
      then obtain s3 where "put_output out ?s2 = Inr s3" "code_ok (s3\<lparr>cb_used := cb_used ?s2\<rparr>)" "code_result (s3\<lparr>cb_used := cb_used ?s2\<rparr>) = code_result ?s2"
        using put_output_gzip[of ?s2 out] b(2) by auto
      then show ?thesis using b(1,3) c True by (auto simp: Let_def)
    next
      case False
      let ?s2' = "if rc = Z_STREAM_END then ?s2\<lparr>cg_end_of_stream := True\<rparr> else ?s2"
      have ok2: "code_ok ?s2'" "code_result ?s2' = code_result s" "cb_used ?s2' = cb_used s" "cb_buf ?s2' = b" "cg_gzip ?s2' = g" "cg_avail_in ?s2' = length input - k"
        using b(2,3) by simp_all
      have "cb_used ?s2' + length out \<le> length (cb_buf ?s2')" using out unfolding ok2(3,4) .
      from put_output_gzip[OF ok2(1) this] obtain s3 where s3: "put_output out ?s2' = Inr s3" "code_ok s3" "code_result s3 = code_result s @ out" "cg_gzip s3 = g"
        "cg_avail_in s3 = length input - k" unfolding ok2 by blast
      have e: "gzip_loop (Suc fuel) fresh call input s = (if length input - k \<noteq> 0 then gzip_loop fuel fresh call (drop k input) s3 else Inr (s3, True))"
        using b(1) c False s3(1) by (simp add: Let_def)
      show ?thesis
      proof (cases "length input - k = 0")
        case True
        then have "gzip_loop (Suc fuel) fresh call input s = Inr (s3, True)" unfolding e by simp
        moreover have "zlib_run call (cg_gzip s) input (cg_gzip s3) out" unfolding s3(4) using True False by (intro run_last[where call = call, OF c]) simp_all
        ultimately show ?thesis using s3(2,3,5) True by (auto simp: z_code_gzip_finish_def)
      next
        case more: False
        have "settles call (cg_gzip s3) (drop k input) fuel" using spec[OF Suc.prems(2)[unfolded settles.simps], of ?room] c False more s3(4) by simp
        from Suc.IH[OF s3(2) this] show ?thesis
        proof
          assume "gzip_loop fuel fresh call (drop k input) s3 = Inl Int_overflow"
          then show ?thesis using e more by simp
        next
          assume "\<exists>s' ok outs. gzip_loop fuel fresh call (drop k input) s3 = Inr (s', ok) \<and> code_ok s' \<and> code_result s' = code_result s3 @ outs
              \<and> (ok \<longrightarrow> z_code_gzip_finish s' \<and> zlib_run call (cg_gzip s3) (drop k input) (cg_gzip s') outs)"
          then obtain s' ok outs where r: "gzip_loop fuel fresh call (drop k input) s3 = Inr (s', ok)" "code_ok s'" "code_result s' = code_result s3 @ outs"
            "ok \<longrightarrow> z_code_gzip_finish s' \<and> zlib_run call (cg_gzip s3) (drop k input) (cg_gzip s') outs" by blast
          have "ok \<longrightarrow> zlib_run call (cg_gzip s) input (cg_gzip s') (out @ outs)"
            using run_turn[where call = call, OF c, of "cg_gzip s'" outs] False more r(4) s3(4) by simp
          moreover have "gzip_loop (Suc fuel) fresh call input s = Inr (s', ok)" using e more r(1) by simp
          moreover have "code_result s' = code_result s @ out @ outs" using r(3) s3(3) by simp
          ultimately show ?thesis using r(2,4) by blast
        qed
      qed
    qed
  qed
qed simp

subsection \<open>What a transformation adds\<close>

text \<open>When zlib stays in its room and uses up the input in at most \<open>fuel\<close> calls or fails, a transformation returns, its result behind what was there
  is what those calls put out, in order, and success means that all of the input was used; no write leaves the buffer. The one other outcome is the
  overflow of the size of a buffer that doubles beyond 1 GB.
\<close>

theorem gzip_code_result:
  assumes "stays_in_room deflate" "stays_in_room inflate" "code_ok s" "length buf < 2 ^ 32"
    "settles (if cg_encode s then deflate else inflate) (cg_gzip s) buf fuel"
  shows "z_code_gzip_transform fuel fresh deflate inflate s buf = Inl Int_overflow
     \<or> (\<exists>s' ok out. z_code_gzip_transform fuel fresh deflate inflate s buf = Inr (s', ok) \<and> code_ok s' \<and> code_result s' = code_result s @ out
          \<and> (ok \<and> buf \<noteq> [] \<longrightarrow> z_code_gzip_finish s' \<and> zlib_run (if cg_encode s then deflate else inflate) (cg_gzip s) buf (cg_gzip s') out))"
proof (cases "buf = [] \<or> cg_end_of_stream s")
  case True
  then show ?thesis using assms(3) by (auto simp: z_code_gzip_transform_def)
next
  case False
  have "stays_in_room (if cg_encode s then deflate else inflate)" using assms(1,2) by simp
  from gzip_loop_result[OF this assms(3,5), of fresh] show ?thesis using False assms(4) unfolding z_code_gzip_transform_def by simp
qed

text \<open>A compressor that changes nothing, for the witnesses.\<close>

definition plain_zlib :: "unit zlib_call" where
  "plain_zlib g input room = (if room = 0 then (g, 0, [], -5) else (g, min room (length input), take room input, 0))"

definition plain_code :: "unit code_gzip" where
  "plain_code = \<lparr>cb_buf = [7, 0, 0], cb_used = 1, cb_errors = 0, cg_encode = False, cg_gzip = (), cg_avail_in = 0, cg_end_of_stream = False\<rparr>"

theorem gzip_code_result_witness:
  "z_code_gzip_transform 2 (\<lambda>_. 9) plain_zlib plain_zlib plain_code [5, 6] = Inl Int_overflow
     \<or> (\<exists>s' ok out. z_code_gzip_transform 2 (\<lambda>_. 9) plain_zlib plain_zlib plain_code [5, 6] = Inr (s', ok) \<and> code_ok s' \<and> code_result s' = code_result plain_code @ out)"
proof -
  have room: "stays_in_room plain_zlib" by (auto simp: stays_in_room_def plain_zlib_def split: if_splits)
  have ok: "code_ok plain_code" by (simp add: code_ok_def plain_code_def)
  have l: "length [5, 6 :: byte] < 2 ^ 32" by simp
  have n: "settles (if cg_encode plain_code then plain_zlib else plain_zlib) (cg_gzip plain_code) [5, 6] 2"
    by (auto simp: numeral_2_eq_2 plain_zlib_def)
  show ?thesis using gzip_code_result[OF room room ok l n, of "\<lambda>_. 9"] by blast
qed

subsection \<open>Data behind the end of a compressed stream\<close>

lemma gzip_loop_stuck:
  assumes "call g input (length (cb_buf s) - cb_used s) = (g, 0, [], Z_STREAM_END)" "input \<noteq> []" "cg_gzip s = g" "\<not> cg_encode s"
    "cb_used s + 2 * length input \<le> length (cb_buf s)" "cg_end_of_stream s"
  shows "gzip_loop fuel fresh call input s = Inl Endless_loop"
  using assms
proof (induction fuel arbitrary: s)
  case (Suc fuel)
  let ?s = "s\<lparr>cg_avail_in := length input\<rparr>"
  have "(length input * 2) mod 2 ^ 32 \<le> length input * 2" by simp
  then have "\<not> length (cb_buf s) - cb_used s < (length input * 2) mod 2 ^ 32" using Suc.prems(5) by linarith
  moreover have "put_output [] (s\<lparr>cg_gzip := g, cg_avail_in := length input, cg_end_of_stream := True\<rparr>) = Inr ?s"
    using Suc.prems(3,5,6) by (simp add: put_output_def overwrite_def)
  ultimately have "gzip_loop (Suc fuel) fresh call input s = gzip_loop fuel fresh call input ?s"
    using Suc.prems by (simp add: Let_def Z_STREAM_END_def)
  then show ?case using Suc.IH[of ?s] Suc.prems by simp
qed simp


text \<open>A stream that ends with its first byte.\<close>

definition short_zlib :: "bool zlib_call" where
  "short_zlib ended input room = (if ended \<or> input = [] then (True, 0, [], Z_STREAM_END) else (True, 1, take 1 input, Z_STREAM_END))"


subsection \<open>The cipher encoder\<close>

text \<open>
  \<open>EVP_CipherUpdate\<close> and \<open>EVP_CipherFinal\<close> yield the new context, the bytes that they write, what they store as the length (\<open>None\<close> when they leave
  it alone), and whether they succeed.
\<close>

record 'c code_cipher = zcode +
  cc_ctx :: 'c

type_synonym 'c cipher_update = "'c \<Rightarrow> bytes \<Rightarrow> 'c \<times> bytes \<times> nat option \<times> bool"
type_synonym 'c cipher_final = "'c \<Rightarrow> 'c \<times> bytes \<times> nat option \<times> bool"

definition z_code_cipher_new :: "'c \<Rightarrow> 'c code_cipher" where
  "z_code_cipher_new ctx = (let c = z_code_init 0 in \<lparr>cb_buf = cb_buf c, cb_used = cb_used c, cb_errors = cb_errors c, cc_ctx = ctx\<rparr>)"

text \<open>The length that is added is the one that the call stored, or the room that was there when it stored none.\<close>

definition take_output :: "'c \<times> bytes \<times> nat option \<times> bool \<Rightarrow> 'c code_cipher \<Rightarrow> ('c code_cipher \<times> bool) result" where
  "take_output = (\<lambda>(c, out, outl, ok) s.
     rbind (put_output out (s\<lparr>cc_ctx := c\<rparr>)) (\<lambda>s1.
       Inr (s1\<lparr>cb_used := cb_used s + (case outl of Some n \<Rightarrow> n | None \<Rightarrow> length (cb_buf s) - cb_used s)\<rparr>, ok)))"

definition z_code_cipher_transform :: "(nat \<Rightarrow> byte) \<Rightarrow> nat \<Rightarrow> 'c cipher_update \<Rightarrow> 'c code_cipher \<Rightarrow> bytes \<Rightarrow> ('c code_cipher \<times> bool) result" where
  "z_code_cipher_transform fresh block_size update s buf =
     (if buf \<noteq> []
      then rbind (z_code_grow fresh s (size_to_int (cb_used s + (length buf div block_size + 1) * block_size))) (\<lambda>s1.
             take_output (update (cc_ctx s1) buf) s1)
      else Inr (s, True))"

definition z_code_cipher_finish :: "(nat \<Rightarrow> byte) \<Rightarrow> nat \<Rightarrow> 'c cipher_final \<Rightarrow> 'c code_cipher \<Rightarrow> ('c code_cipher \<times> bool) result" where
  "z_code_cipher_finish fresh block_size final s =
     rbind (z_code_grow fresh s (size_to_int (cb_used s + block_size))) (\<lambda>s1. take_output (final (cc_ctx s1)) s1)"

text \<open>
  What the code relies on, as OpenSSL documents it: an update that succeeds puts out whole blocks, less than a block more than its input; the last
  call puts out at most a block.
\<close>

definition update_law :: "nat \<Rightarrow> 'c cipher_update \<Rightarrow> bool" where
  "update_law block_size update \<longleftrightarrow> (\<forall>c input c' out outl. update c input = (c', out, outl, True) \<and> input \<noteq> [] \<longrightarrow>
     outl = Some (length out) \<and> block_size dvd length out \<and> length out < length input + block_size)"

definition final_law :: "nat \<Rightarrow> 'c cipher_final \<Rightarrow> bool" where
  "final_law block_size final \<longleftrightarrow> (\<forall>c c' out outl. final c = (c', out, outl, True) \<longrightarrow> outl = Some (length out) \<and> length out \<le> block_size)"

lemma whole_blocks:
  fixes b :: nat
  assumes "b dvd n" "n < l + b"
  shows "n \<le> (l div b + 1) * b"
proof -
  obtain k where k: "n = b * k" using assms(1) by blast
  show ?thesis
  proof (rule ccontr)
    assume "\<not> n \<le> (l div b + 1) * b"
    then have "b * (l div b + 1) < b * k" using k by (simp add: mult.commute)
    then have lt: "b * (l div b + 1) < b * k" .
    then have "0 < b" by (cases b) simp_all
    then have "l div b + 2 \<le> k" using lt by (simp only: mult_less_cancel1) linarith
    then have "b * (l div b + 2) \<le> n" unfolding k by (rule mult_le_mono2)
    moreover have "b * (l div b + 2) = b * (l div b) + b + b" by (simp add: algebra_simps)
    moreover have "l < b * (l div b) + b" using \<open>0 < b\<close> by (metis add.commute add_less_cancel_left mod_less_divisor mult_div_mod_eq)
    ultimately show False using assms(2) by linarith
  qed
qed

lemma blocks_le: "(l div b + 1) * b \<le> l + (b::nat)"
  using div_times_less_eq_dividend[of l b] by (simp add: add_mult_distrib)

lemma take_output_ok:
  assumes "code_ok s" "cb_used s + length out \<le> length (cb_buf s)"
  shows "\<exists>s'. take_output (c, out, Some (length out), ok) s = Inr (s', ok) \<and> code_ok s' \<and> code_result s' = code_result s @ out \<and> cc_ctx s' = c
     \<and> cb_used s' = cb_used s + length out"
  using assms by (auto simp: take_output_def put_output_def code_ok_def code_result_def overwrite_def)

lemma grow_code:
  assumes "code_ok s" "n \<le> 2 ^ 30"
  obtains b where "z_code_grow fresh s (size_to_int n) = Inr (s\<lparr>cb_buf := b\<rparr>)" "code_ok (s\<lparr>cb_buf := b\<rparr>)"
    "code_result (s\<lparr>cb_buf := b\<rparr>) = code_result s" "n \<le> length b"
proof -
  have len: "0 < length (cb_buf s)" "length (cb_buf s) < 2 ^ 31" "cb_used s \<le> length (cb_buf s)" using assms(1) by (simp_all add: code_ok_def)
  have n: "size_to_int n = int n" "int n \<le> 2 ^ 30" using assms(2) by (auto intro: size_to_int_small)
  obtain b where b: "z_code_grow fresh s (int n) = Inr (s\<lparr>cb_buf := b\<rparr>)" "take (length (cb_buf s)) b = cb_buf s" "int n \<le> int (length b)" "length b < 2 ^ 31"
    by (rule code_grow_ok[OF len(1,2) n(2)])
  have le: "length (cb_buf s) \<le> length b" using arg_cong[OF b(2), of length] by simp
  have ok: "code_ok (s\<lparr>cb_buf := b\<rparr>)" using len le b(4) by (auto simp: code_ok_def)
  have "take (cb_used s) b = take (cb_used s) (cb_buf s)" using b(2) len(3) by (metis min.absorb1 take_take)
  then have "code_result (s\<lparr>cb_buf := b\<rparr>) = code_result s" by (simp add: code_result_def)
  then show thesis using that b(1,3) n(1) ok by simp
qed

lemma cipher_transform_ok:
  assumes "code_ok s" "update_law block_size update" "update (cc_ctx s) buf = (c, out, outl, True)" "buf \<noteq> []" "cb_used s + length buf + block_size \<le> 2 ^ 30"
  shows "\<exists>s'. z_code_cipher_transform fresh block_size update s buf = Inr (s', True) \<and> code_ok s' \<and> code_result s' = code_result s @ out \<and> cc_ctx s' = c
     \<and> cb_used s' \<le> cb_used s + length out"
proof -
  let ?n = "cb_used s + (length buf div block_size + 1) * block_size"
  have "?n \<le> 2 ^ 30" using blocks_le[of "length buf" block_size] assms(5) by linarith
  then obtain b where b: "z_code_grow fresh s (size_to_int ?n) = Inr (s\<lparr>cb_buf := b\<rparr>)" "code_ok (s\<lparr>cb_buf := b\<rparr>)"
    "code_result (s\<lparr>cb_buf := b\<rparr>) = code_result s" "?n \<le> length b" using grow_code[OF assms(1)] by metis
  have law: "outl = Some (length out)" "block_size dvd length out" "length out < length buf + block_size"
    using assms(2,3,4) unfolding update_law_def by blast+
  have "length out \<le> (length buf div block_size + 1) * block_size" by (rule whole_blocks[OF law(2,3)])
  then have "cb_used s + length out \<le> length b" using b(4) by linarith
  then obtain s' where s': "take_output (c, out, Some (length out), True) (s\<lparr>cb_buf := b\<rparr>) = Inr (s', True)" "code_ok s'"
    "code_result s' = code_result (s\<lparr>cb_buf := b\<rparr>) @ out" "cc_ctx s' = c" "cb_used s' = cb_used (s\<lparr>cb_buf := b\<rparr>) + length out"
    using take_output_ok[OF b(2), of out c True] by auto
  show ?thesis using assms(3,4) b(1,3) s' law(1) by (auto simp: z_code_cipher_transform_def)
qed

lemma cipher_finish_ok:
  assumes "code_ok s" "final_law block_size final" "final (cc_ctx s) = (c, out, outl, True)" "cb_used s + block_size \<le> 2 ^ 30"
  shows "\<exists>s'. z_code_cipher_finish fresh block_size final s = Inr (s', True) \<and> code_ok s' \<and> code_result s' = code_result s @ out \<and> cc_ctx s' = c"
proof -
  obtain b where b: "z_code_grow fresh s (size_to_int (cb_used s + block_size)) = Inr (s\<lparr>cb_buf := b\<rparr>)" "code_ok (s\<lparr>cb_buf := b\<rparr>)"
    "code_result (s\<lparr>cb_buf := b\<rparr>) = code_result s" "cb_used s + block_size \<le> length b" using grow_code[OF assms(1,4)] by metis
  have law: "outl = Some (length out)" "length out \<le> block_size" using assms(2,3) unfolding final_law_def by blast+
  then have "cb_used s + length out \<le> length b" using b(4) by linarith
  then obtain s' where "take_output (c, out, Some (length out), True) (s\<lparr>cb_buf := b\<rparr>) = Inr (s', True)" "code_ok s'"
    "code_result s' = code_result (s\<lparr>cb_buf := b\<rparr>) @ out" "cc_ctx s' = c" using take_output_ok[OF b(2), of out c True] by auto
  then show ?thesis using assms(3) b(1,3) law(1) by (auto simp: z_code_cipher_finish_def)
qed

text \<open>What the cipher puts out for a message that is given in pieces; the empty pieces never reach it.\<close>

fun evp_run :: "'c cipher_update \<Rightarrow> 'c cipher_final \<Rightarrow> bytes list \<Rightarrow> 'c \<Rightarrow> bytes option" where
  "evp_run update final [] c = (case final c of (_, out, _, ok) \<Rightarrow> if ok then Some out else None)"
| "evp_run update final (p # ps) c =
     (if p = [] then evp_run update final ps c
      else case update c p of (c', out, _, ok) \<Rightarrow> if ok then map_option ((@) out) (evp_run update final ps c') else None)"

lemma cipher_feed:
  assumes "update_law block_size update" "final_law block_size final"
  shows "code_ok s \<Longrightarrow> cb_used s + length (concat ps) + (length ps + 1) * block_size \<le> 2 ^ 30 \<Longrightarrow> evp_run update final ps (cc_ctx s) = Some out \<Longrightarrow>
    \<exists>s1 s2. feed_chunks (z_code_cipher_transform fresh block_size update) ps s = Inr (s1, True)
       \<and> z_code_cipher_finish fresh block_size final s1 = Inr (s2, True) \<and> code_ok s2 \<and> code_result s2 = code_result s @ out"
proof (induction ps arbitrary: s out)
  case Nil
  obtain c o' outl ok where f: "final (cc_ctx s) = (c, o', outl, ok)" by (metis prod.exhaust)
  have "ok" "o' = out" using Nil.prems(3) f by (auto split: if_splits)
  then show ?case using cipher_finish_ok[OF Nil.prems(1) assms(2), of c out outl fresh] f Nil.prems(2) by auto
next
  case (Cons p ps)
  show ?case
  proof (cases "p = []")
    case True
    then show ?thesis using Cons.IH[of s out] Cons.prems by (simp add: z_code_cipher_transform_def)
  next
    case False
    obtain c o' outl ok where u: "update (cc_ctx s) p = (c, o', outl, ok)" by (metis prod.exhaust)
    obtain rest where r: "ok" "evp_run update final ps c = Some rest" "out = o' @ rest"
      using Cons.prems(3) False u by (auto split: if_splits)
    have law: "length o' < length p + block_size" using assms(1) u r(1) False unfolding update_law_def by simp
    have sz: "cb_used s + length p + block_size \<le> 2 ^ 30" using Cons.prems(2) by simp
    obtain s' where s': "z_code_cipher_transform fresh block_size update s p = Inr (s', True)" "code_ok s'" "code_result s' = code_result s @ o'"
      "cc_ctx s' = c" "cb_used s' \<le> cb_used s + length o'"
      using cipher_transform_ok[OF Cons.prems(1) assms(1) _ False sz, of c o' outl fresh] u r(1) by auto
    have "cb_used s' + length (concat ps) + (length ps + 1) * block_size \<le> 2 ^ 30" using s'(5) law Cons.prems(2) by simp
    from Cons.IH[OF s'(2) this] r(2) s'(4) obtain s1 s2 where
      "feed_chunks (z_code_cipher_transform fresh block_size update) ps s' = Inr (s1, True)"
      "z_code_cipher_finish fresh block_size final s1 = Inr (s2, True)" "code_ok s2" "code_result s2 = code_result s' @ rest" by blast
    then show ?thesis using s'(1,3) r(3) by auto
  qed
qed

text \<open>
  C26: For a cipher that keeps what OpenSSL documents, feeding a message in any pieces to a new cipher encoder and finishing leaves exactly the output
  of the cipher as the result: each growth of the buffer makes enough room for the call that follows, the last block included, so that no call writes
  behind the end of the buffer.
\<close>

theorem cipher_output_fits:
  assumes "update_law block_size update" "final_law block_size final" "length (concat ps) + (length ps + 1) * block_size \<le> 2 ^ 30"
    "evp_run update final ps ctx = Some out"
  shows "\<exists>s1 s2. feed_chunks (z_code_cipher_transform fresh block_size update) ps (z_code_cipher_new ctx) = Inr (s1, True)
     \<and> z_code_cipher_finish fresh block_size final s1 = Inr (s2, True) \<and> code_ok s2 \<and> code_result s2 = out"
proof -
  have "code_ok (z_code_cipher_new ctx)" "code_result (z_code_cipher_new ctx) = []" "cb_used (z_code_cipher_new ctx) = 0" "cc_ctx (z_code_cipher_new ctx) = ctx"
    by (simp_all add: z_code_cipher_new_def z_code_init_def ZCODE_BUFSIZE_DEFAULT_def code_ok_def code_result_def Let_def)
  then show ?thesis using cipher_feed[OF assms(1,2), of "z_code_cipher_new ctx" ps out fresh] assms(3,4) by simp
qed

text \<open>A cipher of blocks of two bytes that keeps the odd byte and pads with a zero.\<close>

definition pair_update :: "bytes cipher_update" where
  "pair_update c input = (let all = c @ input; n = length all - length all mod 2 in (drop n all, take n all, Some n, length c < 2))"

definition pair_final :: "bytes cipher_final" where
  "pair_final c = (let out = (if length c = 1 then c @ [0] else []) in ([], out, Some (length out), True))"

theorem cipher_output_fits_witness:
  "\<exists>s1 s2. feed_chunks (z_code_cipher_transform (\<lambda>_. 9) 2 pair_update) [[1, 2, 3], [], [4, 5]] (z_code_cipher_new []) = Inr (s1, True)
     \<and> z_code_cipher_finish (\<lambda>_. 9) 2 pair_final s1 = Inr (s2, True) \<and> code_ok s2 \<and> code_result s2 = [1, 2, 3, 4, 5, 0]"
proof (rule cipher_output_fits)
  show "update_law 2 pair_update" unfolding update_law_def
  proof (intro allI impI)
    fix c input c' out :: bytes and outl
    assume a: "pair_update c input = (c', out, outl, True) \<and> input \<noteq> []"
    let ?n = "length (c @ input)"
    have c: "length c < 2" "out = take (?n - ?n mod 2) (c @ input)" "outl = Some (?n - ?n mod 2)" using a by (auto simp: pair_update_def Let_def)
    have n: "?n - ?n mod 2 \<le> ?n" "2 dvd ?n - ?n mod 2" by simp_all
    have "length out = ?n - ?n mod 2" using c(2) n(1) by (simp only: length_take min.absorb2 min.absorb1)
    moreover have "?n < length input + 2" using c(1) by simp
    then have "?n - ?n mod 2 < length input + 2" using n(1) by linarith
    ultimately show "outl = Some (length out) \<and> 2 dvd length out \<and> length out < length input + 2" using c(3) n(2) by (simp only:)
  qed
  show "final_law 2 pair_final" by (auto simp: final_law_def pair_final_def Let_def split: if_splits)
qed (simp_all add: pair_update_def pair_final_def Let_def)

text \<open>A call that fails and leaves the length alone makes the rest of the buffer part of the result.\<close>

theorem cipher_failure_exposes_buffer:
  assumes "code_ok s" "update (cc_ctx s) buf = (c, [], None, False)" "buf \<noteq> []" "cb_used s + length buf + block_size \<le> 2 ^ 30"
  shows "\<exists>s'. z_code_cipher_transform fresh block_size update s buf = Inr (s', False) \<and> cb_used s' = length (cb_buf s')"
proof -
  let ?n = "cb_used s + (length buf div block_size + 1) * block_size"
  have "?n \<le> 2 ^ 30" using blocks_le[of "length buf" block_size] assms(4) by linarith
  then obtain b where "z_code_grow fresh s (size_to_int ?n) = Inr (s\<lparr>cb_buf := b\<rparr>)" "code_ok (s\<lparr>cb_buf := b\<rparr>)" using grow_code[OF assms(1)] by metis
  then show ?thesis using assms(2,3) by (auto simp: z_code_cipher_transform_def take_output_def put_output_def code_ok_def overwrite_def)
qed

end
