(* ===== verification/Streamfd.thy ===== *)
theory Streamfd
  imports Byte_Source Stream Stream_Control Poll
begin

section \<open>Streams on descriptors\<close>

text \<open>
  \<open>src/streamfd.c\<close>. The system is outside: what the calls of \<open>poll\<close> in the \<open>i\<close>-th wait answer is the list \<open>ke_polls i\<close> of results and values of
  \<open>errno\<close>, the answers of \<open>send\<close>, \<open>shutdown\<close> and \<open>recv\<close> are lists or values, and the channel of GLib is a pair of functions that read and write.
\<close>

unbundle bit_operations_syntax

definition G_IO_ERR :: "32 word" where "G_IO_ERR = 8"
definition G_IO_HUP :: "32 word" where "G_IO_HUP = 16"
definition EAGAIN :: int where "EAGAIN = 11"
definition ENOTSOCK :: int where "ENOTSOCK = 88"

record zstream_fd =
  fd_fd :: int
  fd_nonblock :: bool
  fd_timeout :: int
  fd_keepalive :: int
  fd_cloexec :: bool
  fd_events :: "32 word"
  fd_revents :: "32 word"
  fd_want_read :: bool
  fd_want_write :: bool
  fd_want_pri :: bool
  fd_bytes_sent :: nat

record fd_kernel =
  ke_polls :: "nat \<Rightarrow> (int \<times> int) list"
  ke_waits :: nat
  ke_errno :: int

text \<open>\<open>fd_nonblock\<close> and \<open>fd_cloexec\<close> are flags of the descriptor, which may be set before.\<close>

definition z_stream_fd_new :: "int \<Rightarrow> bool \<Rightarrow> bool \<Rightarrow> zstream_fd" where
  "z_stream_fd_new fd nonblock cloexec =
     \<lparr>fd_fd = fd, fd_nonblock = nonblock, fd_timeout = -2, fd_keepalive = 0, fd_cloexec = cloexec, fd_events = 0, fd_revents = 0,
      fd_want_read = False, fd_want_write = False, fd_want_pri = False, fd_bytes_sent = 0\<rparr>"

subsection \<open>Waiting, reading and writing\<close>

text \<open>The loop of \<open>z_stream_wait_fd\<close>. When the answers are used up, nothing happens any more: the wait does not end.\<close>

fun wait_loop :: "(int \<times> int) list \<Rightarrow> (bool \<times> int) result" where
  "wait_loop [] = Inl Endless_loop"
| "wait_loop ((res, err) # ps) =
     (if res = 1 then Inr (True, err) else if res = -1 \<and> err = EINTR then wait_loop ps else Inr (False, ETIMEDOUT))"

definition z_stream_wait_fd :: "zstream_fd \<Rightarrow> int \<Rightarrow> fd_kernel \<Rightarrow> (fd_kernel \<times> bool) result" where
  "z_stream_wait_fd self timeout k =
     (if fd_nonblock self \<or> timeout = -2 then Inr (k, True)
      else rbind (wait_loop (ke_polls k (ke_waits k))) (\<lambda>(ok, err). Inr (k\<lparr>ke_waits := ke_waits k + 1, ke_errno := err\<rparr>, ok)))"

definition z_stream_fd_read_method ::
  "(nat \<Rightarrow> 'c \<Rightarrow> 'c \<times> io_status \<times> bytes) \<Rightarrow> nat \<Rightarrow> zstream_fd \<Rightarrow> fd_kernel \<times> 'c \<Rightarrow> ((fd_kernel \<times> 'c) \<times> io_status \<times> bytes) result" where
  "z_stream_fd_read_method read_chars count self = (\<lambda>(k, c).
     rbind (z_stream_wait_fd self (fd_timeout self) k) (\<lambda>(k1, ready).
       if \<not> ready then Inr ((k1, c), IO_ERROR, [])
       else case read_chars count c of (c1, res, d) \<Rightarrow> Inr ((k1, c1), res, d)))"

definition z_stream_fd_write_method ::
  "(bytes \<Rightarrow> 'c \<Rightarrow> 'c \<times> io_status \<times> nat) \<Rightarrow> bytes \<Rightarrow> zstream_fd \<Rightarrow> fd_kernel \<times> 'c \<Rightarrow> ((fd_kernel \<times> 'c) \<times> io_status \<times> nat) result" where
  "z_stream_fd_write_method write_chars buf self = (\<lambda>(k, c).
     rbind (z_stream_wait_fd self (fd_timeout self) k) (\<lambda>(k1, ready).
       if \<not> ready then Inr ((k1, c), IO_ERROR, 0)
       else case write_chars buf c of (c1, res, n) \<Rightarrow> Inr ((k1, c1), res, n)))"

text \<open>Urgent data. \<open>sends\<close> are the answers of \<open>send\<close>.\<close>

fun z_stream_fd_write_pri_method :: "(int \<times> int) list \<Rightarrow> zstream_fd \<Rightarrow> fd_kernel \<Rightarrow> (zstream_fd \<times> fd_kernel \<times> io_status \<times> nat) result" where
  "z_stream_fd_write_pri_method [] self k = Inl Endless_loop"
| "z_stream_fd_write_pri_method ((res, err) # sends) self k =
     rbind (z_stream_wait_fd self (fd_timeout self) k) (\<lambda>(k1, ready).
       if \<not> ready then Inr (self, k1, IO_ERROR, 0)
       else if res = -1 \<and> err = EINTR then z_stream_fd_write_pri_method sends self k1
       else if res \<ge> 0 then Inr (self\<lparr>fd_bytes_sent := fd_bytes_sent self + nat res\<rparr>, k1, IO_NORMAL, nat res)
       else if err = EAGAIN then Inr (self, k1, IO_AGAIN, 0)
       else Inr (self, k1, IO_ERROR, 0))"

fun z_stream_fd_shutdown_method :: "(int \<times> int) list \<Rightarrow> io_status result" where
  "z_stream_fd_shutdown_method [] = Inl Endless_loop"
| "z_stream_fd_shutdown_method ((res, err) # rs) =
     (if res = -1 \<and> err = EINTR then z_stream_fd_shutdown_method rs else Inr (if res \<noteq> 0 then IO_ERROR else IO_NORMAL))"

text \<open>\<open>super_close\<close> is the method of the base class, \<open>channel_shutdown\<close> the answer of the channel.\<close>

definition z_stream_fd_close_method :: "('s \<Rightarrow> ('s \<times> io_status) result) \<Rightarrow> ('s \<Rightarrow> 's \<times> io_status) \<Rightarrow> 's \<Rightarrow> ('s \<times> io_status) result" where
  "z_stream_fd_close_method super_close channel_shutdown s =
     rbind (super_close s) (\<lambda>(s1, res). if res = IO_NORMAL then Inr (channel_shutdown s1) else Inr (s1, res))"

subsection \<open>Polling\<close>

definition z_stream_fd_watch_prepare :: "zstream_fd \<Rightarrow> zstream_fd \<times> int \<times> bool" where
  "z_stream_fd_watch_prepare self =
     (if fd_revents self \<noteq> 0 then (self, -1, True)
      else (self\<lparr>fd_events := (if fd_want_read self then G_IO_IN else 0) OR (if fd_want_write self then G_IO_OUT else 0) OR (if fd_want_pri self then G_IO_PRI else 0)\<rparr>,
            -1, False))"

definition z_stream_fd_watch_check :: "zstream_fd \<Rightarrow> bool" where
  "z_stream_fd_watch_check self \<longleftrightarrow> fd_revents self \<noteq> 0"

text \<open>A callback gets the conditions, may change the stream and the state \<open>'u\<close> of its user, and says whether to go on. \<open>None\<close> is a missing one.\<close>

type_synonym 'u fd_callback = "(32 word \<Rightarrow> zstream_fd \<times> 'u \<Rightarrow> (zstream_fd \<times> 'u) \<times> bool) option"

definition call_if :: "bool \<Rightarrow> 'u fd_callback \<Rightarrow> 32 word \<Rightarrow> (zstream_fd \<times> 'u) \<times> bool \<Rightarrow> (zstream_fd \<times> 'u) \<times> bool" where
  "call_if due cb cond = (\<lambda>(st, rc). if due \<and> rc then (case cb of None \<Rightarrow> (st, rc) | Some f \<Rightarrow> f cond st) else (st, rc))"

text \<open>The last component: the source was destroyed, because it reports an error that nobody waits for.\<close>

definition z_stream_fd_watch_dispatch ::
  "'u fd_callback \<Rightarrow> 'u fd_callback \<Rightarrow> 'u fd_callback \<Rightarrow> zstream_fd \<times> 'u \<Rightarrow> ((zstream_fd \<times> 'u) \<times> bool \<times> bool) result" where
  "z_stream_fd_watch_dispatch rd wr pr = (\<lambda>(self, u).
     let cond = fd_revents self; s = self\<lparr>fd_revents := 0\<rparr>
     in if cond AND (G_IO_ERR OR G_IO_HUP) \<noteq> 0
        then
          if fd_want_read s then (case rd of None \<Rightarrow> Inl Bad_access | Some f \<Rightarrow> (case f cond (s, u) of (st, rc) \<Rightarrow> Inr (st, rc, False)))
          else if fd_want_write s then (case wr of None \<Rightarrow> Inl Bad_access | Some f \<Rightarrow> (case f cond (s, u) of (st, rc) \<Rightarrow> Inr (st, rc, False)))
          else Inr ((s, u), True, True)
        else
          let (st1, rc1) = call_if (fd_want_read s \<and> cond AND G_IO_IN \<noteq> 0) rd cond ((s, u), True);
              (st2, rc2) = call_if (fd_want_write (fst st1) \<and> cond AND G_IO_OUT \<noteq> 0) wr cond (st1, rc1);
              (st3, rc3) = call_if (fd_want_pri (fst st2) \<and> cond AND G_IO_PRI \<noteq> 0) pr cond (st2, rc2)
          in Inr (st3, rc3, False))"

text \<open>A turn of the main loop: \<open>found\<close> is the state of the descriptor, of which \<open>poll\<close> reports what was asked for, and errors in any case.\<close>

definition fd_turn :: "'u fd_callback \<Rightarrow> 'u fd_callback \<Rightarrow> 'u fd_callback \<Rightarrow> 32 word \<Rightarrow> zstream_fd \<times> 'u \<Rightarrow> ((zstream_fd \<times> 'u) \<times> bool \<times> bool) result" where
  "fd_turn rd wr pr found = (\<lambda>(self, u).
     let (s, t, due) = z_stream_fd_watch_prepare self;
         s1 = (if due then s else s\<lparr>fd_revents := found AND (fd_events s OR G_IO_ERR OR G_IO_HUP)\<rparr>)
     in if z_stream_fd_watch_check s1 then z_stream_fd_watch_dispatch rd wr pr (s1, u) else Inr ((s1, u), True, False))"

subsection \<open>Control messages\<close>

definition ZST_CTRL_GET_BROKEN :: nat where "ZST_CTRL_GET_BROKEN = 0x16"
definition ZST_CTRL_SET_CLOSEONEXEC :: nat where "ZST_CTRL_SET_CLOSEONEXEC = 0x17"
definition ZST_CTRL_GET_KEEPALIVE :: nat where "ZST_CTRL_GET_KEEPALIVE = 0x18"
definition ZST_CTRL_SET_KEEPALIVE :: nat where "ZST_CTRL_SET_KEEPALIVE = 0x19"

record fd_answers =
  an_set_flags :: bool                \<comment> \<open>\<open>g_io_channel_set_flags\<close> succeeds\<close>
  an_setfd :: "int"                   \<comment> \<open>the result of \<open>fcntl\<close> with \<open>F_SETFD\<close>\<close>
  an_recv :: "int \<times> int"              \<comment> \<open>the result of \<open>recv\<close> and \<open>errno\<close>\<close>

text \<open>
  \<open>value\<close> is the \<open>gint\<close> or \<open>gboolean\<close> behind the pointer, both of four bytes; \<open>super\<close> is the method of the base class.
\<close>

definition z_stream_fd_ctrl_method :: "(int \<Rightarrow> int \<times> bool) \<Rightarrow> fd_answers \<Rightarrow> nat \<Rightarrow> int \<Rightarrow> nat \<Rightarrow> zstream_fd \<Rightarrow> zstream_fd \<times> int \<times> bool" where
  "z_stream_fd_ctrl_method super an function value vlen self =
     (let msg = ZST_CTRL_MSG function in
      if msg = ZST_CTRL_SET_CLOSEONEXEC 
      then if vlen = 4 \<and> an_setfd an \<ge> 0 then (self\<lparr>fd_cloexec := value \<noteq> 0\<rparr>, value, True) else (self, value, False)
      else if msg = ZST_CTRL_SET_NONBLOCK
      then if vlen = 4 \<and> an_set_flags an then (self\<lparr>fd_nonblock := value \<noteq> 0\<rparr>, value, True) else (self, value, False)
      else if msg = ZST_CTRL_GET_NONBLOCK
      then if vlen = 4 then (self, if fd_nonblock self then 1 else 0, True) else (self, value, False)
      else if msg = ZST_CTRL_GET_FD then if vlen = 4 then (self, fd_fd self, True) else (self, value, False)
      else if msg = ZST_CTRL_GET_BROKEN
      then if vlen = 4
           then (case an_recv an of (res, err) \<Rightarrow> (self, if res < 0 \<and> (err = EAGAIN \<or> err = ENOTSOCK) \<or> res > 0 then 0 else 1, True))
           else (self, value, False)
      else if msg = ZST_CTRL_GET_KEEPALIVE then if vlen = 4 then (self, fd_keepalive self, True) else (self, value, False)
      else if msg = ZST_CTRL_SET_KEEPALIVE then if vlen = 4 then (self\<lparr>fd_keepalive := value\<rparr>, value, True) else (self, value, False)
      else case super value of (v, ok) \<Rightarrow> (self, v, ok))"

text \<open>The part of a stream context that belongs to the class: the base class uses the first \<open>ofs\<close> bytes, then comes a \<open>gboolean\<close>.\<close>

definition z_stream_fd_extra_get_size_method :: "nat \<Rightarrow> nat" where
  "z_stream_fd_extra_get_size_method super_size = super_size + 4"

definition z_stream_fd_extra_save_method :: "nat \<Rightarrow> zstream_fd \<Rightarrow> (nat \<Rightarrow> int) \<Rightarrow> (nat \<Rightarrow> int) \<times> nat" where
  "z_stream_fd_extra_save_method ofs self extra =
     (extra(ofs := fst (snd (z_stream_fd_ctrl_method (\<lambda>v. (v, False)) \<lparr>an_set_flags = True, an_setfd = 0, an_recv = (0, 0)\<rparr> ZST_CTRL_GET_NONBLOCK 0 4 self))), ofs + 4)"

definition z_stream_fd_extra_restore_method :: "nat \<Rightarrow> bool \<Rightarrow> zstream_fd \<Rightarrow> (nat \<Rightarrow> int) \<Rightarrow> zstream_fd \<times> nat" where
  "z_stream_fd_extra_restore_method ofs flags_ok self extra =
     (fst (z_stream_fd_ctrl_method (\<lambda>v. (v, False)) \<lparr>an_set_flags = flags_ok, an_setfd = 0, an_recv = (0, 0)\<rparr> ZST_CTRL_SET_NONBLOCK (extra ofs) 4 self), ofs + 4)"

subsection \<open>A read waits for the descriptor\<close>

definition awaited :: "(int \<times> int) list \<Rightarrow> bool" where
  "awaited ps \<longleftrightarrow> (\<exists>n err rest. ps = replicate n (-1, EINTR) @ (1, err) # rest)"

lemma wait_loop_signals: "wait_loop (replicate n (-1, EINTR) @ ps) = wait_loop ps"
  by (induction n) simp_all

lemma wait_awaited:
  assumes "\<forall>i. awaited (ke_polls k i)"
  shows "\<exists>k'. z_stream_wait_fd self timeout k = Inr (k', True) \<and> ke_polls k' = ke_polls k"
proof -
  obtain n err rest where "ke_polls k (ke_waits k) = replicate n (-1, EINTR) @ (1, err) # rest" using assms unfolding awaited_def by blast
  then have "wait_loop (ke_polls k (ke_waits k)) = Inr (True, err)" using wait_loop_signals by simp
  then show ?thesis by (auto simp: z_stream_wait_fd_def)
qed

text \<open>A read on a blocking descriptor with a timeout: interrupted calls of \<open>poll\<close> are repeated; when the descriptor becomes ready the answer is that of the
  channel; when the time is over, or \<open>poll\<close> fails, it is an error with \<open>ETIMEDOUT\<close>, and nothing is taken from the channel.
\<close>

theorem fd_read_waits:
  assumes "\<not> fd_nonblock self" "fd_timeout self \<noteq> -2" "ke_polls k (ke_waits k) = replicate n (-1, EINTR) @ (res, err) # rest" "\<not> (res = -1 \<and> err = EINTR)"
  shows "z_stream_fd_read_method read_chars count self (k, c) =
    (if res = 1 then Inr ((k\<lparr>ke_waits := ke_waits k + 1, ke_errno := err\<rparr>, fst (read_chars count c)), snd (read_chars count c))
     else Inr ((k\<lparr>ke_waits := ke_waits k + 1, ke_errno := ETIMEDOUT\<rparr>, c), IO_ERROR, []))"
proof -
  have "wait_loop (ke_polls k (ke_waits k)) = Inr (if res = 1 then (True, err) else (False, ETIMEDOUT))"
    unfolding assms(3) wait_loop_signals using assms(4) by auto
  then show ?thesis using assms(1,2) by (simp add: z_stream_fd_read_method_def z_stream_wait_fd_def split: prod.split)
qed

theorem fd_read_waits_witness:
  "z_stream_fd_read_method child_read 2 ((z_stream_fd_new 5 False False)\<lparr>fd_timeout := 1000\<rparr>) (\<lparr>ke_polls = \<lambda>i. [(-1, EINTR), (0, 0)], ke_waits = 0, ke_errno = 0\<rparr>, [Data [1]])
    = Inr ((\<lparr>ke_polls = \<lambda>i. [(-1, EINTR), (0, 0)], ke_waits = 1, ke_errno = ETIMEDOUT\<rparr>, [Data [1]]), IO_ERROR, [])"
  using fd_read_waits[of "(z_stream_fd_new 5 False False)\<lparr>fd_timeout := 1000\<rparr>" "\<lparr>ke_polls = \<lambda>i. [(-1, EINTR), (0, 0)], ke_waits = 0, ke_errno = 0\<rparr>" 1 0 0 "[]" child_read 2 "[Data [1]]"]
  by (simp add: z_stream_fd_new_def)

subsection \<open>A stream on a socket is a source of bytes\<close>

definition fd_source_ok :: "fd_kernel \<times> child \<Rightarrow> bool" where
  "fd_source_ok kc \<longleftrightarrow> (\<forall>i. awaited (ke_polls (fst kc) i)) \<and> steady (snd kc)"

interpretation fd: byte_source fd_source_ok "\<lambda>kc. child_input (snd kc)" "\<lambda>n kc. z_stream_fd_read_method child_read n self kc"
proof
  fix kc :: "fd_kernel \<times> child" and n :: nat
  assume a: "fd_source_ok kc" "0 < n"
  obtain k c where kc: "kc = (k, c)" by (cases kc)
  obtain k' where k': "z_stream_wait_fd self (fd_timeout self) k = Inr (k', True)" "ke_polls k' = ke_polls k"
    using wait_awaited[of k self] a(1) unfolding fd_source_ok_def kc by auto
  obtain c' st d where c': "child_read n c = (c', st, d)" "steady c'" "child_input c = d @ child_input c'" "length d \<le> n"
    "st = IO_NORMAL \<or> st = IO_EOF \<and> c = [] \<and> c' = [] \<and> d = []"
    using child_read_law[of c n] a unfolding fd_source_ok_def kc by auto
  have "z_stream_fd_read_method child_read n self kc = Inr ((k', c'), st, d)" using k'(1) c'(1) by (simp add: z_stream_fd_read_method_def kc)
  moreover have "fd_source_ok (k', c')" using a(1) k'(2) c'(2) by (simp add: fd_source_ok_def kc)
  ultimately show "\<exists>s' st d. z_stream_fd_read_method child_read n self kc = Inr (s', st, d) \<and> fd_source_ok s'
      \<and> child_input (snd kc) = d @ child_input (snd s') \<and> length d \<le> n \<and> (st = IO_NORMAL \<or> st = IO_EOF \<and> child_input (snd kc) = [])"
    using c' unfolding kc by fastforce
qed



subsection \<open>Which callbacks are called\<close>

text \<open>A callback that notes which one it is.\<close>

definition noting :: "channel \<Rightarrow> bool \<Rightarrow> (channel \<times> 32 word) list fd_callback" where
  "noting ch goes_on = Some (\<lambda>cond (s, u). ((s, u @ [(ch, cond)]), goes_on))"

lemma call_if_noting:
  "call_if due (noting ch g) cond ((s, u), rc) = ((s, u @ (if due \<and> rc then [(ch, cond)] else [])), if due then rc \<and> g else rc)"
  by (simp add: call_if_def noting_def)

text \<open>
  C38: In a turn of the main loop the callbacks that are called, in order, are those of the conditions that the stream wants and the descriptor has, up to the
  first one that does not want to go on; when the descriptor has an error or was hung up it is one callback, the one for reading if reading is wanted,
  else that for writing; and when neither is wanted, the source is destroyed.
\<close>

theorem fd_turn_calls:
  assumes "fd_revents self = 0"
    and "wanted = found AND ((if fd_want_read self then G_IO_IN else 0) OR (if fd_want_write self then G_IO_OUT else 0) OR (if fd_want_pri self then G_IO_PRI else 0)
                 OR G_IO_ERR OR G_IO_HUP)"
  shows "\<exists>s. fd_turn (noting Read_ch r) (noting Write_ch w) (noting Pri_ch p) found (self, []) =
    (if found AND (G_IO_ERR OR G_IO_HUP) \<noteq> 0
     then if fd_want_read self then Inr ((s, [(Read_ch, wanted)]), r, False)
          else if fd_want_write self then Inr ((s, [(Write_ch, wanted)]), w, False) else Inr ((s, []), True, True)
     else let rd = fd_want_read self \<and> found AND G_IO_IN \<noteq> 0; wr = fd_want_write self \<and> found AND G_IO_OUT \<noteq> 0; pr = fd_want_pri self \<and> found AND G_IO_PRI \<noteq> 0
       in Inr ((s, (if rd then [(Read_ch, wanted)] else []) @ (if wr \<and> (rd \<longrightarrow> r) then [(Write_ch, wanted)] else [])
                 @ (if pr \<and> (rd \<longrightarrow> r) \<and> (wr \<longrightarrow> w) then [(Pri_ch, wanted)] else [])),
               (rd \<longrightarrow> r) \<and> (wr \<longrightarrow> w) \<and> (pr \<longrightarrow> p), False)) \<and> fd_revents s = 0"
proof -
  let ?m = "(if fd_want_read self then G_IO_IN else 0) OR (if fd_want_write self then G_IO_OUT else 0) OR (if fd_want_pri self then G_IO_PRI else 0)"
  let ?e = "G_IO_ERR OR G_IO_HUP"
  have wanted: "wanted = found AND (?m OR G_IO_ERR OR G_IO_HUP)" unfolding assms(2) by (simp only: or.assoc)
  have "(?m OR G_IO_ERR OR G_IO_HUP) AND ?e = ?e" by (auto simp: G_IO_IN_def G_IO_OUT_def G_IO_PRI_def G_IO_ERR_def G_IO_HUP_def)
  then have err: "wanted AND ?e = found AND ?e" unfolding wanted by (simp only: and.assoc)
  have "fd_want_read self \<Longrightarrow> (?m OR G_IO_ERR OR G_IO_HUP) AND G_IO_IN = G_IO_IN" by (auto simp: G_IO_IN_def G_IO_OUT_def G_IO_PRI_def G_IO_ERR_def G_IO_HUP_def)
  then have rd: "fd_want_read self \<Longrightarrow> wanted AND G_IO_IN = found AND G_IO_IN" unfolding wanted by (simp only: and.assoc)
  have "fd_want_write self \<Longrightarrow> (?m OR G_IO_ERR OR G_IO_HUP) AND G_IO_OUT = G_IO_OUT" by (auto simp: G_IO_IN_def G_IO_OUT_def G_IO_PRI_def G_IO_ERR_def G_IO_HUP_def)
  then have wr: "fd_want_write self \<Longrightarrow> wanted AND G_IO_OUT = found AND G_IO_OUT" unfolding wanted by (simp only: and.assoc)
  have "fd_want_pri self \<Longrightarrow> (?m OR G_IO_ERR OR G_IO_HUP) AND G_IO_PRI = G_IO_PRI" by (auto simp: G_IO_IN_def G_IO_OUT_def G_IO_PRI_def G_IO_ERR_def G_IO_HUP_def)
  then have pr: "fd_want_pri self \<Longrightarrow> wanted AND G_IO_PRI = found AND G_IO_PRI" unfolding wanted by (simp only: and.assoc)
  let ?s = "self\<lparr>fd_events := ?m, fd_revents := wanted\<rparr>"
  have turn: "fd_turn rd wr pr found (self, u) = (if wanted \<noteq> 0 then z_stream_fd_watch_dispatch rd wr pr (?s, u) else Inr ((?s, u), True, False))" for rd wr pr and u :: "(channel \<times> 32 word) list"
    using assms(1) unfolding fd_turn_def z_stream_fd_watch_prepare_def z_stream_fd_watch_check_def wanted by (simp add: Let_def)
  show ?thesis
  proof (cases "wanted = 0")
    case True
    then have z: "found AND ?e = 0" "fd_want_read self \<Longrightarrow> found AND G_IO_IN = 0" "fd_want_write self \<Longrightarrow> found AND G_IO_OUT = 0" "fd_want_pri self \<Longrightarrow> found AND G_IO_PRI = 0"
      using err rd wr pr by simp_all
    show ?thesis unfolding turn using True z by (intro exI[of _ ?s]) (auto simp: Let_def)
  next
    case False
    show ?thesis
    proof (cases "found AND ?e = 0")
      case True
      then show ?thesis unfolding turn using False err rd wr pr
        by (intro exI[of _ "?s\<lparr>fd_revents := 0\<rparr>"]) (simp add: z_stream_fd_watch_dispatch_def call_if_noting Let_def cong: conj_cong)
    next
      case e: False
      then show ?thesis unfolding turn using False err
        by (intro exI[of _ "?s\<lparr>fd_revents := 0\<rparr>"]) (simp add: z_stream_fd_watch_dispatch_def noting_def Let_def)
    qed
  qed
qed

theorem fd_turn_calls_witness:
  "\<exists>s. fd_turn (noting Read_ch True) (noting Write_ch False) (noting Pri_ch True) 7 ((z_stream_fd_new 5 False False)\<lparr>fd_want_read := True, fd_want_write := True\<rparr>, [])
     = Inr ((s, [(Read_ch, 5), (Write_ch, 5)]), False, False)"
  using fd_turn_calls[of "(z_stream_fd_new 5 False False)\<lparr>fd_want_read := True, fd_want_write := True\<rparr>" _ 7 True False True]
  by (simp add: z_stream_fd_new_def G_IO_IN_def G_IO_OUT_def G_IO_PRI_def G_IO_ERR_def G_IO_HUP_def) blast

subsection \<open>What is saved is restored\<close>

text \<open>
  The mode of the descriptor is saved behind the data of the base class and set again, whatever was done to the stream in between, and the sizes agree.
\<close>

theorem fd_extra_roundtrip:
  "(case z_stream_fd_extra_save_method ofs self extra of (extra', n) \<Rightarrow>
      n = z_stream_fd_extra_get_size_method ofs
      \<and> (case z_stream_fd_extra_restore_method ofs True other extra' of (s, m) \<Rightarrow> m = n \<and> s = other\<lparr>fd_nonblock := fd_nonblock self\<rparr>))"
  by (simp add: z_stream_fd_extra_save_method_def z_stream_fd_extra_restore_method_def z_stream_fd_extra_get_size_method_def z_stream_fd_ctrl_method_def Let_def
      ZST_CTRL_MSG_def ZST_CTRL_SET_CLOSEONEXEC_def ZST_CTRL_SET_NONBLOCK_def ZST_CTRL_GET_NONBLOCK_def)

text \<open>With a missing callback, an error on a descriptor that is to be read is an access through a null pointer; other conditions are only logged.\<close>

theorem fd_error_without_callback:
  "fd_turn None wr pr G_IO_HUP ((z_stream_fd_new fd nb ce)\<lparr>fd_want_read := True\<rparr>, u) = Inl Bad_access"
  "\<exists>s. fd_turn None wr pr G_IO_IN ((z_stream_fd_new fd nb ce)\<lparr>fd_want_read := True\<rparr>, u) = Inr ((s, u), True, False)"
  by (simp_all add: fd_turn_def z_stream_fd_new_def z_stream_fd_watch_prepare_def z_stream_fd_watch_check_def z_stream_fd_watch_dispatch_def call_if_def Let_def
      G_IO_IN_def G_IO_OUT_def G_IO_PRI_def G_IO_ERR_def G_IO_HUP_def)

end
