(* ===== verification/Crypt.thy ===== *)
theory Crypt
  imports Zorp_Prelude
begin

section \<open>Hashed passwords\<close>

text \<open>
  \<open>src/crypt.c\<close>. C strings are the bytes before the terminating NUL; a buffer is a list of bytes of its length. \<open>md5\<close> is the digest of OpenSSL:
  \<open>MD5_Update\<close> adds to the bytes that \<open>MD5_Final\<close> digests, so that a context is the bytes given so far.
\<close>

unbundle bit_operations_syntax

definition ascii :: "string \<Rightarrow> bytes" where "ascii s = map of_char s"

definition CRYPT_MD5_MAGIC :: bytes where "CRYPT_MD5_MAGIC = [0x24, 0x31, 0x24]"
definition dollar :: byte where "dollar = 0x24"

definition md5_crypt_b64t :: bytes where
  "md5_crypt_b64t = ascii ''./0123456789ABCDEFGHIJKLMNOPQRSTUVWXYZabcdefghijklmnopqrstuvwxyz''"

primrec md5_crypt_to64 :: "nat \<Rightarrow> 32 word \<Rightarrow> bytes" where
  "md5_crypt_to64 0 v = []"
| "md5_crypt_to64 (Suc n) v = md5_crypt_b64t ! unat (v AND 0x3f) # md5_crypt_to64 n (drop_bit 6 v)"

subsection \<open>The salt\<close>

definition after_magic :: "bytes \<Rightarrow> bytes" where
  "after_magic salt = (if take 3 salt = CRYPT_MD5_MAGIC then drop 3 salt else salt)"

text \<open>The loop over \<open>ep\<close>, at most eight bytes.\<close>

fun salt_end :: "nat \<Rightarrow> bytes \<Rightarrow> nat" where
  "salt_end 0 s = 0"
| "salt_end (Suc n) [] = 0"
| "salt_end (Suc n) (c # s) = (if c = dollar then 0 else 1 + salt_end n s)"

definition true_salt :: "bytes \<Rightarrow> bytes" where
  "true_salt salt = (let sp = after_magic salt in take (salt_end 8 sp) sp)"

subsection \<open>The digest\<close>

fun add_digest :: "bytes \<Rightarrow> nat \<Rightarrow> bytes" where
  "add_digest final i = (if i > 0 then take (if i > 16 then 16 else i) final @ add_digest final (i - 16) else [])"

fun add_weird :: "bytes \<Rightarrow> nat \<Rightarrow> bytes" where
  "add_weird pw i = (if i \<noteq> 0 then (if i AND 1 \<noteq> 0 then [0] else take 1 pw) @ add_weird pw (i div 2) else [])"

declare add_digest.simps [simp del] add_weird.simps [simp del]

definition md5_round :: "(bytes \<Rightarrow> bytes) \<Rightarrow> bytes \<Rightarrow> bytes \<Rightarrow> nat \<Rightarrow> bytes \<Rightarrow> bytes" where
  "md5_round md5 pw sp i final =
     md5 ((if i AND 1 \<noteq> 0 then pw else final) @ (if i mod 3 \<noteq> 0 then sp else []) @ (if i mod 7 \<noteq> 0 then pw else []) @ (if i AND 1 \<noteq> 0 then final else pw))"

definition md5_final :: "(bytes \<Rightarrow> bytes) \<Rightarrow> bytes \<Rightarrow> bytes \<Rightarrow> bytes" where
  "md5_final md5 pw sp =
     (let alt = md5 (pw @ sp @ pw);
          final = md5 (pw @ CRYPT_MD5_MAGIC @ sp @ add_digest alt (length pw) @ add_weird pw (length pw))
      in fold (md5_round md5 pw sp) [0..<1000] final)"

subsection \<open>The output string\<close>

definition triple :: "byte \<Rightarrow> byte \<Rightarrow> byte \<Rightarrow> 32 word" where
  "triple a b c = push_bit 16 (ucast a) OR push_bit 8 (ucast b) OR ucast c"

definition hash_text :: "bytes \<Rightarrow> bytes" where
  "hash_text f =
     md5_crypt_to64 4 (triple (f ! 0) (f ! 6) (f ! 12)) @ md5_crypt_to64 4 (triple (f ! 1) (f ! 7) (f ! 13))
     @ md5_crypt_to64 4 (triple (f ! 2) (f ! 8) (f ! 14)) @ md5_crypt_to64 4 (triple (f ! 3) (f ! 9) (f ! 15))
     @ md5_crypt_to64 4 (triple (f ! 4) (f ! 10) (f ! 5)) @ md5_crypt_to64 2 (ucast (f ! 11))"

definition put_at :: "nat \<Rightarrow> bytes \<Rightarrow> bytes \<Rightarrow> bytes result" where
  "put_at p xs r = (if p + length xs \<le> length r then Inr (overwrite p xs r) else Inl Bad_access)"

text \<open>
  The length of the password is an \<open>int\<close>: when it is negative the second loop shifts it to -1 and never ends. \<open>snprintf\<close> cuts the text to the buffer and returns
  the length of the whole text.
\<close>

definition md5_crypt :: "(bytes \<Rightarrow> bytes) \<Rightarrow> bytes \<Rightarrow> bytes \<Rightarrow> bytes \<Rightarrow> bytes result" where
  "md5_crypt md5 pw salt result =
     (let sp = true_salt salt; pwl = size_to_int (length pw)
      in if pwl < 0 then Inl Endless_loop
         else
           let final = md5_final md5 (take (nat pwl) pw) sp;
               header = CRYPT_MD5_MAGIC @ sp @ [dollar];
               i = length header
           in rbind (if result = [] then Inr [] else put_at 0 (take (length result - 1) header @ [0]) result) (\<lambda>r.
                if i > 0 \<and> length result > i \<and> length result > 23 then put_at i (hash_text final @ [0]) r else Inr r))"

text \<open>\<open>z_crypt\<close> where the C library has \<open>crypt\<close> without MD5; \<open>crypt\<close> may answer \<open>NULL\<close>, which \<open>g_strlcpy\<close> refuses.\<close>

definition g_strlcpy :: "bytes \<Rightarrow> bytes \<Rightarrow> bytes" where
  "g_strlcpy dest src = (if dest = [] then dest else overwrite 0 (take (length dest - 1) src @ [0]) dest)"

definition z_crypt :: "(bytes \<Rightarrow> bytes) \<Rightarrow> (bytes \<Rightarrow> bytes \<Rightarrow> bytes option) \<Rightarrow> bytes \<Rightarrow> bytes \<Rightarrow> bytes \<Rightarrow> bytes result" where
  "z_crypt md5 crypt key salt result =
     (if take 3 salt = CRYPT_MD5_MAGIC then md5_crypt md5 key salt result
      else Inr (case crypt key salt of None \<Rightarrow> result | Some h \<Rightarrow> g_strlcpy result h))"

subsection \<open>Lengths and bytes\<close>

lemma to64_length [simp]: "length (md5_crypt_to64 n v) = n"
  by (induction n arbitrary: v) simp_all

lemma hash_text_length [simp]: "length (hash_text f) = 22"
  by (simp add: hash_text_def)

lemma b64t_nonzero: "i < 64 \<Longrightarrow> md5_crypt_b64t ! i \<noteq> 0"
proof -
  have "list_all (\<lambda>c. c \<noteq> 0) md5_crypt_b64t" "length md5_crypt_b64t = 64" by (simp_all add: md5_crypt_b64t_def ascii_def)
  then show "i < 64 \<Longrightarrow> md5_crypt_b64t ! i \<noteq> 0" by (simp add: list_all_length)
qed

lemma to64_nonzero: "0 \<notin> set (md5_crypt_to64 n v)"
proof (induction n arbitrary: v)
  case (Suc n)
  have "v AND 0x3f = take_bit 6 v" by (simp add: take_bit_eq_mask mask_eq_exp_minus_1)
  then have "unat (v AND 0x3f) = take_bit 6 (unat v)" by (simp only: unsigned_take_bit_eq)
  then have "unat (v AND 0x3f) < 64" by (simp only: take_bit_eq_mod) simp
  then show ?case using Suc b64t_nonzero[of "unat (v AND 0x3f)"] by (metis md5_crypt_to64.simps(2) set_ConsD)
qed simp

lemma hash_text_nonzero: "0 \<notin> set (hash_text f)"
  by (simp add: hash_text_def to64_nonzero)

lemma salt_end_le: "salt_end n s \<le> n" "salt_end n s \<le> length s"
  by (induction n s rule: salt_end.induct) simp_all

lemma true_salt_length: "length (true_salt salt) \<le> 8"
  using salt_end_le(1)[of 8] by (simp add: true_salt_def Let_def min.coboundedI2)

lemma salt_end_again: "salt_end n (take (salt_end n s) s @ dollar # t) = salt_end n s"
  by (induction n s rule: salt_end.induct) (auto simp: neq_Nil_conv split: nat.splits)

text \<open>The salt in the result is the salt that was used.\<close>

lemma true_salt_again: "true_salt (CRYPT_MD5_MAGIC @ true_salt salt @ dollar # t) = true_salt salt"
proof -
  let ?sp = "after_magic salt"
  have "after_magic (CRYPT_MD5_MAGIC @ true_salt salt @ dollar # t) = true_salt salt @ dollar # t" by (simp add: after_magic_def CRYPT_MD5_MAGIC_def)
  moreover have "salt_end 8 (true_salt salt @ dollar # t) = salt_end 8 ?sp" unfolding true_salt_def Let_def by (rule salt_end_again)
  moreover have "length (true_salt salt) = salt_end 8 ?sp" using salt_end_le(2)[of 8 ?sp] by (simp add: true_salt_def Let_def)
  ultimately show ?thesis unfolding true_salt_def[of "CRYPT_MD5_MAGIC @ true_salt salt @ dollar # t"] by (simp add: Let_def)
qed

subsection \<open>What is in the buffer\<close>

definition crypt_text :: "(bytes \<Rightarrow> bytes) \<Rightarrow> bytes \<Rightarrow> bytes \<Rightarrow> bytes" where
  "crypt_text md5 pw salt = CRYPT_MD5_MAGIC @ true_salt salt @ [dollar] @ hash_text (md5_final md5 pw (true_salt salt))"

definition c_string :: "bytes \<Rightarrow> bytes" where "c_string = takeWhile (\<lambda>c. c \<noteq> 0)"

text \<open>
  A buffer of up to 23 bytes gets the salt and no hash; one from 24 bytes up to the length that is needed is written beyond its end; a larger one gets the
  whole text.
\<close>

theorem md5_crypt_buffers:
  assumes "length pw < 2 ^ 31"
  shows "md5_crypt md5 pw salt result =
     (if length result = 0 then Inr []
      else if length result \<le> 23 then Inr (overwrite 0 (take (length result - 1) (CRYPT_MD5_MAGIC @ true_salt salt @ [dollar]) @ [0]) result)
      else if length result < length (true_salt salt) + 27 then Inl Bad_access
      else Inr (overwrite 0 (crypt_text md5 pw salt @ [0]) result))"
proof -
  let ?header = "CRYPT_MD5_MAGIC @ true_salt salt @ [dollar]" and ?hash = "hash_text (md5_final md5 pw (true_salt salt))"
  have pwl: "size_to_int (length pw) = int (length pw)" using assms by (rule size_to_int_small)
  have i: "length ?header = length (true_salt salt) + 4" "length ?header \<le> 12" using true_salt_length[of salt] by (simp_all add: CRYPT_MD5_MAGIC_def)
  have first: "put_at 0 (take (length result - 1) ?header @ [0]) result = Inr (overwrite 0 (take (length result - 1) ?header @ [0]) result)" if "result \<noteq> []"
    using that by (cases result) (auto simp: put_at_def min_def)
  have second: "md5_crypt md5 pw salt result = Inr (overwrite 0 (crypt_text md5 pw salt @ [0]) result)" if "length (true_salt salt) + 27 \<le> length result"
  proof -
    have t: "take (length result - 1) ?header = ?header" using that i by simp
    have r: "result \<noteq> []" using that by auto
    have "overwrite (length ?header) (?hash @ [0]) (overwrite 0 (?header @ [0]) result) = overwrite 0 (?header @ ?hash @ [0]) result"
      using that i by (simp add: overwrite_def)
    then show ?thesis using first[OF r] that i r pwl unfolding t by (simp add: md5_crypt_def Let_def put_at_def crypt_text_def)
  qed
  show ?thesis
  proof (cases "length (true_salt salt) + 27 \<le> length result")
    case True
    then show ?thesis using second by auto
  next
    case False
    show ?thesis
    proof (cases "length result = 0")
      case True
      then show ?thesis using pwl by (simp add: md5_crypt_def Let_def)
    next
      case r: False
      then have f: "put_at 0 (take (length result - 1) ?header @ [0]) result = Inr (overwrite 0 (take (length result - 1) ?header @ [0]) result)" using first by simp
      show ?thesis
      proof (cases "length result \<le> 23")
        case True
        then show ?thesis using f r pwl unfolding md5_crypt_def Let_def by simp
      next
        case big: False
        have "overwrite 0 (take (length result - 1) ?header @ [0]) result = overwrite 0 (?header @ [0]) result" using big i by simp
        then have "md5_crypt md5 pw salt result = put_at (length ?header) (?hash @ [0]) (overwrite 0 (?header @ [0]) result)"
          using f r pwl big i unfolding md5_crypt_def Let_def by simp
        also have "\<dots> = Inl Bad_access" using False i by (simp add: put_at_def overwrite_def)
        finally show ?thesis using r big False by simp
      qed
    qed
  qed
qed

subsection \<open>A stored hash verifies its password\<close>



end
