(* ===== verification/Streamssl.thy ===== *)
theory Streamssl
  imports Stream_IO Stream_Control Streamfd
begin

section \<open>Streams over SSL\<close>

text \<open>
  \<open>src/streamssl.c\<close>. The SSL library is outside: \<open>SSL_read\<close> and \<open>SSL_write\<close> yield the new state of the session, their result, the data that was read, what
  \<open>SSL_get_error\<close> answers, and \<open>errno\<close>. A session may have to write before it can read on, and the other way round (a renegotiation): then the callback
  for reading has to be called when the child can be written. The child is a stream of the store.
\<close>

datatype ssl_error = SSL_ERROR_ZERO_RETURN | SSL_ERROR_WANT_READ | SSL_ERROR_WANT_WRITE | SSL_ERROR_SYSCALL | SSL_ERROR_SSL

definition DO_AS_USUAL :: nat where "DO_AS_USUAL = 0"
definition CALL_READ_WHEN_WRITE :: nat where "CALL_READ_WHEN_WRITE = 1"
definition CALL_WRITE_WHEN_READ :: nat where "CALL_WRITE_WHEN_READ = 2"

lemmas what_defs = DO_AS_USUAL_def CALL_READ_WHEN_WRITE_def CALL_WRITE_WHEN_READ_def

record zstream_ssl =
  sl_child :: nat
  sl_timeout :: int
  sl_what_if_called :: nat
  sl_shutdown :: bool
  sl_ssl :: bool
  sl_want_read :: bool
  sl_want_write :: bool
  sl_want_pri :: bool

definition z_stream_ssl_new :: "nat \<Rightarrow> bool \<Rightarrow> zstream_ssl" where
  "z_stream_ssl_new child ssl =
     \<lparr>sl_child = child, sl_timeout = -2, sl_what_if_called = DO_AS_USUAL, sl_shutdown = False, sl_ssl = ssl,
      sl_want_read = False, sl_want_write = False, sl_want_pri = False\<rparr>"

subsection \<open>The callbacks of the child\<close>

definition z_stream_ssl_read_callback :: "zstream_ssl \<Rightarrow> 'cb \<Rightarrow> 'cb \<Rightarrow> 'cb" where
  "z_stream_ssl_read_callback self read_cb write_cb = (if sl_what_if_called self = CALL_WRITE_WHEN_READ then write_cb else read_cb)"

definition z_stream_ssl_write_callback :: "zstream_ssl \<Rightarrow> 'cb \<Rightarrow> 'cb \<Rightarrow> 'cb" where
  "z_stream_ssl_write_callback self read_cb write_cb = (if sl_what_if_called self = CALL_READ_WHEN_WRITE then read_cb else write_cb)"

subsection \<open>Reading\<close>

type_synonym 's ssl_reader = "nat \<Rightarrow> 's \<Rightarrow> 's \<times> int \<times> bytes \<times> ssl_error \<times> int"
type_synonym 's ssl_writer = "bytes \<Rightarrow> 's \<Rightarrow> 's \<times> int \<times> ssl_error \<times> int"

definition z_stream_ssl_read_method_impl ::
  "'s ssl_reader \<Rightarrow> nat \<Rightarrow> zstream_ssl \<Rightarrow> 's \<Rightarrow> world \<Rightarrow> (zstream_ssl \<times> 's \<times> world \<times> io_status \<times> bytes) result" where
  "z_stream_ssl_read_method_impl ssl_read count self ss w =
     (let (ss1, result, d, ssl_err, err) = ssl_read count ss
      in if result < 0
         then (case ssl_err of
             SSL_ERROR_ZERO_RETURN \<Rightarrow> Inr (self, ss1, w, IO_EOF, [])
           | SSL_ERROR_WANT_READ \<Rightarrow> Inr (self, ss1, w, IO_AGAIN, [])
           | SSL_ERROR_WANT_WRITE \<Rightarrow>
               rbind (if sl_what_if_called self = DO_AS_USUAL then z_stream_set_cond w (sl_child self) G_IO_OUT 1 else Inr (w, True)) (\<lambda>(w1, ret).
                 Inr (self\<lparr>sl_what_if_called := CALL_READ_WHEN_WRITE\<rparr>, ss1, w1, IO_AGAIN, []))
           | SSL_ERROR_SYSCALL \<Rightarrow>
               Inr (self, ss1, w, if err = EAGAIN \<or> err = EINTR then IO_AGAIN else if err = 0 then IO_EOF else IO_ERROR, [])
           | SSL_ERROR_SSL \<Rightarrow> Inr (self, ss1, w, IO_ERROR, []))
         else if result = 0 then Inr (self, ss1, w, IO_EOF, [])
         else
           rbind (if sl_what_if_called self \<noteq> DO_AS_USUAL then z_stream_set_cond w (sl_child self) G_IO_OUT 0 else Inr (w, True)) (\<lambda>(w1, ret).
             Inr (self\<lparr>sl_what_if_called := DO_AS_USUAL\<rparr>, ss1, w1, IO_NORMAL, take (nat result) d)))"

definition z_stream_ssl_read_method ::
  "'s ssl_reader \<Rightarrow> nat \<Rightarrow> zstream_ssl \<Rightarrow> 's \<Rightarrow> world \<Rightarrow> (zstream_ssl \<times> 's \<times> world \<times> io_status \<times> bytes) result" where
  "z_stream_ssl_read_method ssl_read count self ss w =
     (if sl_shutdown self then Inr (self, ss, w, IO_EOF, [])
      else rbind (upd_st w (sl_child self) (\<lambda>c. c\<lparr>st_timeout := sl_timeout self\<rparr>)) (\<lambda>w0.
        if sl_ssl self then z_stream_ssl_read_method_impl ssl_read count self ss w0
        else rbind (z_stream_read w0 (sl_child self) count) (\<lambda>(w1, res, d). Inr (self, ss, w1, res, d))))"

subsection \<open>Writing\<close>

definition z_stream_ssl_write_method_impl ::
  "'s ssl_writer \<Rightarrow> bytes \<Rightarrow> zstream_ssl \<Rightarrow> 's \<Rightarrow> world \<Rightarrow> (zstream_ssl \<times> 's \<times> world \<times> io_status \<times> nat) result" where
  "z_stream_ssl_write_method_impl ssl_write buf self ss w =
     (let (ss1, result, ssl_err, err) = ssl_write buf ss
      in if result < 0
         then (case ssl_err of
             SSL_ERROR_ZERO_RETURN \<Rightarrow> Inr (self, ss1, w, IO_EOF, 0)
           | SSL_ERROR_WANT_READ \<Rightarrow>
               rbind (if sl_what_if_called self = DO_AS_USUAL then z_stream_set_cond w (sl_child self) G_IO_IN 1 else Inr (w, True)) (\<lambda>(w1, ret).
                 Inr (self\<lparr>sl_what_if_called := CALL_WRITE_WHEN_READ\<rparr>, ss1, w1, IO_AGAIN, 0))
           | SSL_ERROR_WANT_WRITE \<Rightarrow> Inr (self, ss1, w, IO_AGAIN, 0)
           | SSL_ERROR_SYSCALL \<Rightarrow> Inr (self, ss1, w, if err = EAGAIN \<or> err = EINTR then IO_AGAIN else IO_ERROR, 0)
           | SSL_ERROR_SSL \<Rightarrow> Inr (self, ss1, w, IO_ERROR, 0))
         else
           rbind (if sl_what_if_called self \<noteq> DO_AS_USUAL then z_stream_set_cond w (sl_child self) G_IO_IN 0 else Inr (w, True)) (\<lambda>(w1, ret).
             Inr (self\<lparr>sl_what_if_called := DO_AS_USUAL\<rparr>, ss1, w1, IO_NORMAL, nat result)))"

definition z_stream_ssl_write_method ::
  "'s ssl_writer \<Rightarrow> bytes \<Rightarrow> zstream_ssl \<Rightarrow> 's \<Rightarrow> world \<Rightarrow> (zstream_ssl \<times> 's \<times> world \<times> io_status \<times> nat) result" where
  "z_stream_ssl_write_method ssl_write buf self ss w =
     (if sl_shutdown self then Inr (self, ss, w, IO_ERROR, 0)
      else rbind (upd_st w (sl_child self) (\<lambda>c. c\<lparr>st_timeout := sl_timeout self\<rparr>)) (\<lambda>w0.
        if sl_ssl self then z_stream_ssl_write_method_impl ssl_write buf self ss w0
        else rbind (z_stream_write w0 (sl_child self) buf) (\<lambda>(w1, res, n). Inr (self, ss, w1, res, n))))"

subsection \<open>Shutting down\<close>

text \<open>
  \<open>ssl_shutdown\<close> is \<open>SSL_shutdown\<close>; \<open>shut\<close> the method of the child. Switching the mode of the child and back is left to the child; the timeout of the child is
  set to a second, and not set back.
\<close>

definition z_stream_ssl_shutdown_method ::
  "('s \<Rightarrow> 's \<times> int) \<Rightarrow> (world \<Rightarrow> (world \<times> io_status) result) \<Rightarrow> zstream_ssl \<Rightarrow> 's \<Rightarrow> world \<Rightarrow> (zstream_ssl \<times> 's \<times> world \<times> io_status) result" where
  "z_stream_ssl_shutdown_method ssl_shutdown shut self ss w =
     rbind (if sl_shutdown self then Inr (self, ss, w)
            else rbind (upd_st w (sl_child self) (\<lambda>c. c\<lparr>st_timeout := 1000\<rparr>)) (\<lambda>w0.
              let ss1 = (if sl_ssl self then (case ssl_shutdown ss of (s1, r) \<Rightarrow> if r = 0 then fst (ssl_shutdown s1) else s1) else ss)
              in Inr (self\<lparr>sl_shutdown := True\<rparr>, ss1, w0))) (\<lambda>(self1, ss1, w1).
       rbind (shut w1) (\<lambda>(w2, res). Inr (self1, ss1, w2, res)))"

subsection \<open>Polling\<close>

text \<open>\<open>pending\<close>: the answer of \<open>SSL_pending\<close>, the number of bytes that were decrypted and not read.\<close>

definition z_stream_ssl_watch_prepare :: "nat \<Rightarrow> zstream_ssl \<Rightarrow> world \<Rightarrow> (world \<times> int \<times> bool) result" where
  "z_stream_ssl_watch_prepare pending self w =
     (if sl_want_read self
      then
        if sl_shutdown self then Inr (w, 0, True)
        else if sl_ssl self then if pending \<noteq> 0 then Inr (w, 0, True) else Inr (w, -1, False)
        else
          rbind (z_stream_set_cond w (sl_child self) G_IO_IN 1) (\<lambda>(w1, a).
          rbind (z_stream_set_cond w1 (sl_child self) G_IO_PRI (of_bool (sl_want_pri self))) (\<lambda>(w2, b).
            if sl_want_write self then rbind (z_stream_set_cond w2 (sl_child self) G_IO_OUT 1) (\<lambda>(w3, d). Inr (w3, -1, True))
            else rbind (z_stream_set_cond w2 (sl_child self) G_IO_OUT 0) (\<lambda>(w3, d). Inr (w3, -1, False))))
      else Inr (w, -1, False))"

definition z_stream_ssl_watch_check :: "nat \<Rightarrow> zstream_ssl \<Rightarrow> bool" where
  "z_stream_ssl_watch_check pending self \<longleftrightarrow> sl_want_read self \<and> (if sl_ssl self then pending \<noteq> 0 else sl_want_pri self)"

definition z_stream_ssl_watch_dispatch :: "(32 word \<Rightarrow> 'u \<Rightarrow> 'u \<times> bool) \<Rightarrow> zstream_ssl \<Rightarrow> 'u \<Rightarrow> 'u \<times> bool" where
  "z_stream_ssl_watch_dispatch read_cb self u = (if sl_want_read self then read_cb G_IO_IN u else (u, True))"

subsection \<open>A read that has to write, a write that has to read\<close>

definition wants :: "channel \<Rightarrow> nat \<Rightarrow> world \<Rightarrow> int" where
  "wants ch c w = (case get_st w c of Inr s \<Rightarrow> cb_want (chan ch s) | Inl e \<Rightarrow> 0)"

lemma slot_bound: "get_st w c = Inr s \<Longrightarrow> \<exists>n. length (w_streams w) = Suc n"
  by (cases "w_streams w") (auto simp: get_st_def slot_def split: if_splits)

lemma set_cond_out:
  assumes "get_st w c = Inr s"
  shows "\<exists>w' s'. z_stream_set_cond w c G_IO_OUT v = Inr (w', True) \<and> get_st w' c = Inr s' \<and> cb_want (st_write s') = v \<and> cb_want (st_read s') = cb_want (st_read s)"
  using assms slot_bound[OF assms]
  by (auto simp: z_stream_set_cond_def z_stream_ctrl_def ctrl_switch_def ctrl_set_cond_def ctrl_defs G_IO_IN_def G_IO_OUT_def G_IO_PRI_def get_put)

lemma set_cond_in:
  assumes "get_st w c = Inr s"
  shows "\<exists>w' s'. z_stream_set_cond w c G_IO_IN v = Inr (w', True) \<and> get_st w' c = Inr s' \<and> cb_want (st_read s') = v \<and> cb_want (st_write s') = cb_want (st_write s)"
  using assms slot_bound[OF assms]
  by (auto simp: z_stream_set_cond_def z_stream_ctrl_def ctrl_switch_def ctrl_set_cond_def ctrl_defs G_IO_IN_def get_put)

lemma upd_timeout_wants:
  assumes "get_st w c = Inr s"
  shows "\<exists>w0 s0. upd_st w c (\<lambda>x. x\<lparr>st_timeout := t\<rparr>) = Inr w0 \<and> get_st w0 c = Inr s0 \<and> cb_want (st_read s0) = cb_want (st_read s) \<and> cb_want (st_write s0) = cb_want (st_write s)"
  using assms by (auto simp: upd_st_def get_put)


text \<open>A child that is watched for reading, and a session that has to go the other way first.\<close>

definition watched_child :: world where
  "watched_child = (case z_stream_set_cond fed_stream 0 G_IO_IN 1 of Inl e \<Rightarrow> fed_stream | Inr (w, b) \<Rightarrow> w)"

lemma watched_child_get:
  obtains c where "get_st watched_child 0 = Inr c" "cb_want (st_read c) = 1"
proof -
  have "\<exists>s. get_st fed_stream 0 = Inr s" by (simp add: fed_stream_def z_stream_new_def get_st_def slot_def)
  then obtain s where s: "get_st fed_stream 0 = Inr s" by blast
  obtain w' s' where "z_stream_set_cond fed_stream 0 G_IO_IN 1 = Inr (w', True)" "get_st w' 0 = Inr s'" "cb_want (st_read s') = 1" using set_cond_in[OF s] by blast
  then show thesis by (intro that[of s']) (simp_all add: watched_child_def)
qed

definition turning_reader :: "nat ssl_reader" where
  "turning_reader n ss = (if ss = 0 then (1, -1, [], SSL_ERROR_WANT_WRITE, 0) else (ss + 1, 2, [4, 5], SSL_ERROR_SSL, 0))"

definition turning_writer :: "nat ssl_writer" where
  "turning_writer buf ss = (if ss = 0 then (1, -1, SSL_ERROR_WANT_READ, 0) else (ss + 1, int (length buf), SSL_ERROR_SSL, 0))"


text \<open>
  C37: A write that had to read first and then succeeds switches off the watching of the child for reading, though the user of the stream wants to read: with
  nothing left in the session neither a turn of the main loop nor data that arrive make the callback for reading be called.
\<close>

theorem ssl_write_stops_reading:
  assumes "sl_ssl self" "\<not> sl_shutdown self" "sl_what_if_called self = DO_AS_USUAL" "get_st w (sl_child self) = Inr c" "sl_want_read self" "cb_want (st_read c) = 1"
    "ssl_write d ss = (ss1, -1, SSL_ERROR_WANT_READ, e)" "ssl_write d ss1 = (ss2, int (length d), e1, e2)"
  shows "\<exists>self1 w1 self2 w2. z_stream_ssl_write_method ssl_write d self ss w = Inr (self1, ss1, w1, IO_AGAIN, 0)
     \<and> z_stream_ssl_read_callback self1 rd wr = wr
     \<and> z_stream_ssl_write_method ssl_write d self1 ss1 w1 = Inr (self2, ss2, w2, IO_NORMAL, length d)
     \<and> sl_want_read self2 \<and> wants Read_ch (sl_child self) w = 1 \<and> wants Read_ch (sl_child self) w2 = 0
     \<and> z_stream_ssl_watch_prepare 0 self2 w2 = Inr (w2, -1, False) \<and> \<not> z_stream_ssl_watch_check 0 self2"
proof -
  let ?c = "sl_child self" and ?self1 = "self\<lparr>sl_what_if_called := CALL_WRITE_WHEN_READ\<rparr>" and ?self2 = "self\<lparr>sl_what_if_called := DO_AS_USUAL\<rparr>"
  obtain w0 c0 where w0: "upd_st w ?c (\<lambda>x. x\<lparr>st_timeout := sl_timeout self\<rparr>) = Inr w0" "get_st w0 ?c = Inr c0"
    using upd_timeout_wants[OF assms(4)] by blast
  obtain w1 c1 where w1: "z_stream_set_cond w0 ?c G_IO_IN 1 = Inr (w1, True)" "get_st w1 ?c = Inr c1" using set_cond_in[OF w0(2)] by blast
  obtain w2 c2 where w2: "upd_st w1 ?c (\<lambda>x. x\<lparr>st_timeout := sl_timeout self\<rparr>) = Inr w2" "get_st w2 ?c = Inr c2" using upd_timeout_wants[OF w1(2)] by blast
  obtain w3 c3 where w3: "z_stream_set_cond w2 ?c G_IO_IN 0 = Inr (w3, True)" "get_st w3 ?c = Inr c3" "cb_want (st_read c3) = 0" using set_cond_in[OF w2(2)] by blast
  have "z_stream_ssl_write_method ssl_write d self ss w = Inr (?self1, ss1, w1, IO_AGAIN, 0)"
    using assms(1,2,3,7) w0(1) w1(1) by (simp add: z_stream_ssl_write_method_def z_stream_ssl_write_method_impl_def)
  moreover have "z_stream_ssl_write_method ssl_write d ?self1 ss1 w1 = Inr (?self2, ss2, w3, IO_NORMAL, length d)"
    using assms(1,2,8) w2(1) w3(1) by (simp add: z_stream_ssl_write_method_def z_stream_ssl_write_method_impl_def what_defs)
  moreover have "wants Read_ch ?c w = 1" "wants Read_ch ?c w3 = 0" using assms(4,6) w3(2,3) by (simp_all add: wants_def)
  moreover have "z_stream_ssl_read_callback ?self1 rd wr = wr" by (simp add: z_stream_ssl_read_callback_def)
  moreover have "z_stream_ssl_watch_prepare 0 ?self2 w3 = Inr (w3, -1, False)" "\<not> z_stream_ssl_watch_check 0 ?self2" "sl_want_read ?self2"
    using assms(1,2,5) by (simp_all add: z_stream_ssl_watch_prepare_def z_stream_ssl_watch_check_def)
  ultimately show ?thesis by blast
qed

theorem ssl_write_stops_reading_witness:
  "\<exists>self1 w1 self2 w2. z_stream_ssl_write_method turning_writer [6] ((z_stream_ssl_new 0 True)\<lparr>sl_want_read := True\<rparr>) 0 watched_child = Inr (self1, 1, w1, IO_AGAIN, 0)
     \<and> z_stream_ssl_write_method turning_writer [6] self1 1 w1 = Inr (self2, 2, w2, IO_NORMAL, 1)
     \<and> sl_want_read self2 \<and> wants Read_ch 0 watched_child = 1 \<and> wants Read_ch 0 w2 = 0"
proof -
  let ?self = "(z_stream_ssl_new 0 True)\<lparr>sl_want_read := True\<rparr>"
  obtain c where c: "get_st watched_child (sl_child ?self) = Inr c" "cb_want (st_read c) = 1" using watched_child_get by (auto simp: z_stream_ssl_new_def)
  have "turning_writer [6] 0 = (1, -1, SSL_ERROR_WANT_READ, 0)" "turning_writer [6] 1 = (2, int (length [6 :: byte]), SSL_ERROR_SSL, 0)"
    by (simp_all add: turning_writer_def)
  from ssl_write_stops_reading[where ssl_write = turning_writer and rd = "''read''" and wr = "''write''", OF _ _ _ c(1) _ c(2) this] show ?thesis by (auto simp: z_stream_ssl_new_def)
qed

subsection \<open>Results of zero\<close>

text \<open>
  A write for which the library answers 0, because the connection is gone, is reported as a success that wrote nothing; a read for which it answers 0 is the end
  of the data whatever the reason was, also when the connection was cut.
\<close>

theorem ssl_zero_results:
  assumes "sl_ssl self" "\<not> sl_shutdown self" "sl_what_if_called self = DO_AS_USUAL" "get_st w (sl_child self) = Inr c"
  shows "ssl_write d ss = (ss1, 0, err, e) \<Longrightarrow> \<exists>w1. z_stream_ssl_write_method ssl_write d self ss w = Inr (self, ss1, w1, IO_NORMAL, 0)"
    and "ssl_read n ss = (ss1, 0, d, err, e) \<Longrightarrow> \<exists>w1. z_stream_ssl_read_method ssl_read n self ss w = Inr (self, ss1, w1, IO_EOF, [])"
  using assms by (auto simp: z_stream_ssl_write_method_def z_stream_ssl_write_method_impl_def z_stream_ssl_read_method_def z_stream_ssl_read_method_impl_def upd_st_def)

text \<open>Without a session, a stream that is to be read and written is dispatched in every turn, and the callback for reading is called though nothing came.\<close>

theorem ssl_plain_spins:
  assumes "\<not> sl_ssl self" "\<not> sl_shutdown self" "sl_want_read self" "sl_want_write self" "get_st w (sl_child self) = Inr c"
  shows "\<exists>w1. z_stream_ssl_watch_prepare 0 self w = Inr (w1, -1, True)" "z_stream_ssl_watch_dispatch read_cb self u = read_cb G_IO_IN u"
proof -
  obtain w1 c1 where w1: "z_stream_set_cond w (sl_child self) G_IO_IN 1 = Inr (w1, True)" "get_st w1 (sl_child self) = Inr c1" using set_cond_in[OF assms(5)] by blast
  obtain w2 c2 where w2: "z_stream_set_cond w1 (sl_child self) G_IO_PRI (of_bool (sl_want_pri self)) = Inr (w2, True)" "get_st w2 (sl_child self) = Inr c2"
    using w1(2) slot_bound[OF w1(2)]
    by (auto simp: z_stream_set_cond_def z_stream_ctrl_def ctrl_switch_def ctrl_set_cond_def ctrl_defs G_IO_IN_def G_IO_OUT_def G_IO_PRI_def get_put)
  obtain w3 where w3: "z_stream_set_cond w2 (sl_child self) G_IO_OUT 1 = Inr (w3, True)" using set_cond_out[OF w2(2)] by blast
  show "\<exists>w1. z_stream_ssl_watch_prepare 0 self w = Inr (w1, -1, True)" using assms(1-4) w1(1) w2(1) w3 by (auto simp: z_stream_ssl_watch_prepare_def)
qed (use assms(3) in \<open>simp add: z_stream_ssl_watch_dispatch_def\<close>)

end
