(* ===== verification/Ssl_Session.thy ===== *)
theory Ssl_Session
  imports Stream_IO
begin

section \<open>SSL sessions: who is trusted\<close>

text \<open>
  \<open>src/ssl.c\<close>: verification of certificates against revocation lists, the session with its settings, the list of trusted authorities, and the layer that lets
  OpenSSL read and write streams. Parsing and cryptography are outside: names, serial numbers and keys are numbers; a revocation list (CRL) knows the key that
  signed it, how its \<open>nextUpdate\<close> compares with the clock, and the revoked serial numbers; the store of revocation lists maps the name of an
  issuer to its list.
\<close>

record cert =
  ce_subject :: nat
  ce_issuer :: nat
  ce_serial :: nat
  ce_key :: nat

record crl =
  cr_signer :: nat
  cr_next_update :: int
  cr_revoked :: "nat list"

datatype x509_error =
    X509_V_OK | X509_V_ERR_UNABLE_TO_GET_ISSUER_CERT | X509_V_ERR_UNABLE_TO_GET_ISSUER_CERT_LOCALLY | X509_V_ERR_UNABLE_TO_VERIFY_LEAF_SIGNATURE
  | X509_V_ERR_DEPTH_ZERO_SELF_SIGNED_CERT | X509_V_ERR_SELF_SIGNED_CERT_IN_CHAIN | X509_V_ERR_CERT_UNTRUSTED
  | X509_V_ERR_CRL_SIGNATURE_FAILURE | X509_V_ERR_ERROR_IN_CRL_NEXT_UPDATE_FIELD | X509_V_ERR_CRL_HAS_EXPIRED
  | X509_V_ERR_CERT_CHAIN_TOO_LONG | Other_error nat

datatype verify_type = Z_SSL_VERIFY_NONE | Z_SSL_VERIFY_OPTIONAL | Z_SSL_VERIFY_REQUIRED_UNTRUSTED | Z_SSL_VERIFY_REQUIRED_TRUSTED

record ssl_session =
  ss_ref_cnt :: int
  ss_verify_type :: verify_type
  ss_verify_depth :: int
  ss_crl_store :: "(nat \<Rightarrow> crl option) option"
  ss_verify_peer :: bool
  ss_fail_if_no_peer_cert :: bool
  ss_freed :: bool

subsection \<open>Verification\<close>

text \<open>The loop over the revoked certificates.\<close>

fun revoked_loop :: "nat \<Rightarrow> nat list \<Rightarrow> bool" where
  "revoked_loop serial [] = False"
| "revoked_loop serial (r # rs) = (if r = serial then True else revoked_loop serial rs)"

text \<open>The result and the error of the store context, when one is set.\<close>

definition z_ssl_verify_crl :: "bool \<Rightarrow> cert \<Rightarrow> (nat \<Rightarrow> crl option) \<Rightarrow> bool \<times> x509_error option" where
  "z_ssl_verify_crl ok xs crl_store =
     (let own = (case crl_store (ce_subject xs) of
            None \<Rightarrow> None
          | Some crl \<Rightarrow>
              if cr_signer crl \<noteq> ce_key xs then Some X509_V_ERR_CRL_SIGNATURE_FAILURE
              else if cr_next_update crl = 0 then Some X509_V_ERR_ERROR_IN_CRL_NEXT_UPDATE_FIELD
              else if cr_next_update crl < 0 then Some X509_V_ERR_CRL_HAS_EXPIRED
              else None)
      in if own \<noteq> None then (False, own)
         else case crl_store (ce_issuer xs) of
             None \<Rightarrow> (ok, None)
           | Some crl \<Rightarrow> if revoked_loop (ce_serial xs) (cr_revoked crl) then (False, None) else (ok, None))"

text \<open>The callback: what OpenSSL found for a certificate, its depth in the chain, and the certificate.\<close>

definition z_ssl_verify_callback :: "ssl_session \<Rightarrow> bool \<Rightarrow> x509_error \<Rightarrow> int \<Rightarrow> cert \<Rightarrow> bool" where
  "z_ssl_verify_callback self ok errnum errdepth xs =
     (let forced_ok = ((ss_verify_type self = Z_SSL_VERIFY_REQUIRED_UNTRUSTED \<or> ss_verify_type self = Z_SSL_VERIFY_OPTIONAL)
            \<and> (errnum = X509_V_ERR_DEPTH_ZERO_SELF_SIGNED_CERT \<or> errnum = X509_V_ERR_SELF_SIGNED_CERT_IN_CHAIN
               \<or> errnum = X509_V_ERR_UNABLE_TO_GET_ISSUER_CERT_LOCALLY \<or> errnum = X509_V_ERR_UNABLE_TO_GET_ISSUER_CERT
               \<or> errnum = X509_V_ERR_CERT_UNTRUSTED \<or> errnum = X509_V_ERR_UNABLE_TO_VERIFY_LEAF_SIGNATURE));
          ok1 = (if forced_ok then True else ok);
          ok2 = (case ss_crl_store self of Some store \<Rightarrow> if ok1 then fst (z_ssl_verify_crl ok1 xs store) else ok1 | None \<Rightarrow> ok1);
          ok3 = (if ok2 \<and> ss_verify_depth self \<noteq> -1 \<and> errdepth > ss_verify_depth self then False else ok2)
      in ok3 \<or> forced_ok)"

text \<open>
  What OpenSSL does with the callback: from the last certificate of the chain, at the greatest depth, down to the one of the peer at depth 0, it calls it for every
  problem of the certificate and for every check that it passed, until the callback refuses. \<open>found\<close> are these calls.
\<close>

fun verify_chain :: "ssl_session \<Rightarrow> (cert \<Rightarrow> (bool \<times> x509_error) list) \<Rightarrow> cert list \<Rightarrow> bool" where
  "verify_chain self found [] = True"
| "verify_chain self found (xs # rest) =
     (list_all (\<lambda>(ok, errnum). z_ssl_verify_callback self ok errnum (int (length rest)) xs) (found xs) \<and> verify_chain self found rest)"

subsection \<open>Sessions\<close>

definition z_ssl_crl_store_create :: "bool \<Rightarrow> bool \<Rightarrow> (nat \<Rightarrow> crl option) option \<Rightarrow> (nat \<Rightarrow> crl option) option" where
  "z_ssl_crl_store_create new_ok lookup_ok path =
     (if \<not> new_ok then None
      else case path of None \<Rightarrow> Some (\<lambda>n. None) | Some store \<Rightarrow> if \<not> lookup_ok then None else Some store)"

definition z_ssl_session_new_from_context :: "bool \<Rightarrow> int \<Rightarrow> verify_type \<Rightarrow> (nat \<Rightarrow> crl option) option \<Rightarrow> ssl_session option" where
  "z_ssl_session_new_from_context new_ok verify_depth verify_type crl_store =
     (if \<not> new_ok then None
      else
        let (peer, need) = (if verify_type = Z_SSL_VERIFY_OPTIONAL \<or> verify_type = Z_SSL_VERIFY_REQUIRED_UNTRUSTED then (True, False)
                            else if verify_type = Z_SSL_VERIFY_REQUIRED_TRUSTED then (True, True) else (False, False))
        in Some \<lparr>ss_ref_cnt = 1, ss_verify_type = verify_type, ss_verify_depth = verify_depth, ss_crl_store = crl_store,
                 ss_verify_peer = peer, ss_fail_if_no_peer_cert = need, ss_freed = False\<rparr>)"

definition z_ssl_session_free :: "ssl_session \<Rightarrow> ssl_session" where
  "z_ssl_session_free self = self\<lparr>ss_freed := True\<rparr>"

definition z_ssl_session_ref :: "ssl_session \<Rightarrow> ssl_session result" where
  "z_ssl_session_ref self = (if ss_freed self then Inl Bad_access else Inr (self\<lparr>ss_ref_cnt := ss_ref_cnt self + 1\<rparr>))"

definition z_ssl_session_unref :: "ssl_session \<Rightarrow> ssl_session result" where
  "z_ssl_session_unref self =
     (if ss_freed self then Inl Bad_access
      else let s = self\<lparr>ss_ref_cnt := ss_ref_cnt self - 1\<rparr> in Inr (if ss_ref_cnt s = 0 then z_ssl_session_free s else s))"

text \<open>
  Loading the key and the authorities: the answers of the library. \<open>None\<close> for an empty file name or directory. The second component is the store of
  revocation lists, if there is one.
\<close>

definition z_ssl_load_privkey_and_cert :: "(bool \<times> bool \<times> bool) option \<Rightarrow> bool" where
  "z_ssl_load_privkey_and_cert key = (case key of None \<Rightarrow> True | Some (key_ok, cert_ok, match) \<Rightarrow> if \<not> key_ok then False else if \<not> cert_ok then False else match)"

record ca_answers =
  ca_names_ok :: bool
  ca_access_ok :: bool
  ca_locations_ok :: bool

definition z_ssl_load_ca_list ::
  "bool \<Rightarrow> ca_answers option \<Rightarrow> (bool \<times> (nat \<Rightarrow> crl option) option) option \<Rightarrow> bool \<times> (nat \<Rightarrow> crl option) option" where
  "z_ssl_load_ca_list server ca_dir crl_dir =
     (case ca_dir of
        None \<Rightarrow> (True, None)
      | Some a \<Rightarrow>
          if server \<and> \<not> ca_names_ok a then (False, None)
          else if \<not> ca_access_ok a then (False, None)
          else if \<not> ca_locations_ok a then (False, None)
          else case crl_dir of None \<Rightarrow> (True, None) | Some (access_ok, created) \<Rightarrow> if \<not> access_ok then (False, None) else (True, created))"

definition z_ssl_session_new ::
  "bool \<Rightarrow> bool \<Rightarrow> (bool \<times> bool \<times> bool) option \<Rightarrow> bool \<Rightarrow> ca_answers option \<Rightarrow> (bool \<times> (nat \<Rightarrow> crl option) option) option \<Rightarrow> int \<Rightarrow> verify_type \<Rightarrow> ssl_session option" where
  "z_ssl_session_new ctx_ok new_ok key server ca_dir crl_dir verify_depth verify_type =
     (if \<not> ctx_ok then None
      else if \<not> z_ssl_load_privkey_and_cert key then None
      else case z_ssl_load_ca_list server ca_dir crl_dir of
          (False, _) \<Rightarrow> None
        | (True, crl_store) \<Rightarrow> z_ssl_session_new_from_context new_ok verify_depth verify_type crl_store)"

subsection \<open>A certificate that was revoked is not accepted\<close>

lemma revoked_loop_iff: "revoked_loop serial rs \<longleftrightarrow> serial \<in> set rs"
  by (induction serial rs rule: revoked_loop.induct) auto

definition crl_valid :: "(nat \<Rightarrow> crl option) \<Rightarrow> cert \<Rightarrow> bool" where
  "crl_valid store xs \<longleftrightarrow> (case store (ce_subject xs) of None \<Rightarrow> True | Some crl \<Rightarrow> cr_signer crl = ce_key xs \<and> 0 < cr_next_update crl)"

definition revoked :: "(nat \<Rightarrow> crl option) \<Rightarrow> cert \<Rightarrow> bool" where
  "revoked store xs \<longleftrightarrow> (case store (ce_issuer xs) of None \<Rightarrow> False | Some crl \<Rightarrow> ce_serial xs \<in> set (cr_revoked crl))"

lemma verify_crl_iff: "fst (z_ssl_verify_crl ok xs store) \<longleftrightarrow> ok \<and> crl_valid store xs \<and> \<not> revoked store xs"
  by (auto simp: z_ssl_verify_crl_def crl_valid_def revoked_def revoked_loop_iff split: option.splits)

lemma callback_trusted:
  assumes "ss_verify_type self = Z_SSL_VERIFY_REQUIRED_TRUSTED" "ss_crl_store self = Some store"
  shows "z_ssl_verify_callback self ok errnum depth xs \<longleftrightarrow>
    ok \<and> crl_valid store xs \<and> \<not> revoked store xs \<and> (ss_verify_depth self = -1 \<or> depth \<le> ss_verify_depth self)"
  using assms by (auto simp: z_ssl_verify_callback_def verify_crl_iff Let_def)

lemma chain_all:
  "verify_chain self found cs \<longleftrightarrow>
    (\<forall>i < length cs. \<forall>(ok, e) \<in> set (found (cs ! i)). z_ssl_verify_callback self ok e (int (length cs - Suc i)) (cs ! i))"
proof (induction cs)
  case (Cons c cs)
  show ?case unfolding verify_chain.simps Cons.IH list_all_iff list.size(4) by (simp add: All_less_Suc2)
qed simp

text \<open>The certificates of a chain, the last authority first: each is issued by the one before.\<close>

definition linked_chain :: "cert list \<Rightarrow> bool" where
  "linked_chain cs \<longleftrightarrow> (\<forall>i. Suc i < length cs \<longrightarrow> ce_issuer (cs ! Suc i) = ce_subject (cs ! i))"

text \<open>
  C12: A session that requires trusted certificates and has revocation lists accepts a chain exactly when OpenSSL accepts every certificate, the revocation list of
  every certificate in the chain (when there is one) is signed by its key and current, no certificate is in the list of its issuer, and the chain is not longer than
  the limit. So every list that a certificate below the top was looked up in was signed by the authority above it and is current.
\<close>

theorem trusted_chain_not_revoked:
  assumes "z_ssl_session_new_from_context True depth Z_SSL_VERIFY_REQUIRED_TRUSTED (Some store) = Some self" "linked_chain cs" "cs \<noteq> []" "\<forall>xs \<in> set cs. found xs \<noteq> []"
  shows "(verify_chain self found cs \<longleftrightarrow>
      (\<forall>xs \<in> set cs. list_all fst (found xs) \<and> crl_valid store xs \<and> \<not> revoked store xs) \<and> (depth = -1 \<or> int (length cs) - 1 \<le> depth))
    \<and> (verify_chain self found cs \<longrightarrow> (\<forall>i crl. Suc i < length cs \<and> store (ce_issuer (cs ! Suc i)) = Some crl \<longrightarrow>
      cr_signer crl = ce_key (cs ! i) \<and> 0 < cr_next_update crl \<and> ce_serial (cs ! Suc i) \<notin> set (cr_revoked crl)))"
proof -
  have self: "ss_verify_type self = Z_SSL_VERIFY_REQUIRED_TRUSTED" "ss_crl_store self = Some store" "ss_verify_depth self = depth"
    using assms(1) by (auto simp: z_ssl_session_new_from_context_def)
  note cb = callback_trusted[OF self(1,2)]
  have "(\<forall>(ok, e) \<in> set (found xs). ok \<and> P) \<longleftrightarrow> list_all fst (found xs) \<and> P" if "xs \<in> set cs" for xs P
    using assms(4) that by (cases "found xs") (auto simp: list_all_iff)
  then have each: "(\<forall>(ok, e) \<in> set (found (cs ! i)). ok \<and> P) \<longleftrightarrow> list_all fst (found (cs ! i)) \<and> P" if "i < length cs" for i P using that by simp
  have iff: "verify_chain self found cs \<longleftrightarrow> (\<forall>i < length cs. list_all fst (found (cs ! i)) \<and> crl_valid store (cs ! i) \<and> \<not> revoked store (cs ! i)
      \<and> (depth = -1 \<or> int (length cs - Suc i) \<le> depth))" unfolding chain_all cb self(3) using each by blast
  have "(\<forall>i < length cs. depth = -1 \<or> int (length cs - Suc i) \<le> depth) \<longleftrightarrow> depth = -1 \<or> int (length cs) - 1 \<le> depth"
  proof
    assume "\<forall>i < length cs. depth = -1 \<or> int (length cs - Suc i) \<le> depth"
    then have "depth = -1 \<or> int (length cs - Suc 0) \<le> depth" using assms(3) by blast
    then show "depth = -1 \<or> int (length cs) - 1 \<le> depth" using assms(3) by (cases cs) auto
  qed auto
  then have all: "verify_chain self found cs \<longleftrightarrow> (\<forall>xs \<in> set cs. list_all fst (found xs) \<and> crl_valid store xs \<and> \<not> revoked store xs) \<and> (depth = -1 \<or> int (length cs) - 1 \<le> depth)"
    unfolding iff by (auto simp: all_set_conv_all_nth)
  have "cr_signer crl = ce_key (cs ! i) \<and> 0 < cr_next_update crl \<and> ce_serial (cs ! Suc i) \<notin> set (cr_revoked crl)"
    if a: "verify_chain self found cs" "Suc i < length cs" "store (ce_issuer (cs ! Suc i)) = Some crl" for i crl
  proof -
    have v: "crl_valid store (cs ! i)" "\<not> revoked store (cs ! Suc i)" using a(1,2) unfolding iff by auto
    have "ce_issuer (cs ! Suc i) = ce_subject (cs ! i)" using assms(2) a(2) by (simp add: linked_chain_def)
    then show ?thesis using v a(3) by (simp add: crl_valid_def revoked_def)
  qed
  then show ?thesis using all by blast
qed

text \<open>An authority with a list that revokes the certificate 7, and the chain of the certificate 8.\<close>

definition demo_store :: "nat \<Rightarrow> crl option" where
  "demo_store n = (if n = 1 then Some \<lparr>cr_signer = 100, cr_next_update = 1, cr_revoked = [7]\<rparr> else None)"

definition demo_chain :: "nat \<Rightarrow> cert list" where
  "demo_chain serial = [\<lparr>ce_subject = 1, ce_issuer = 1, ce_serial = 1, ce_key = 100\<rparr>, \<lparr>ce_subject = 2, ce_issuer = 1, ce_serial = serial, ce_key = 200\<rparr>]"

theorem trusted_chain_not_revoked_witness:
  "\<exists>self. z_ssl_session_new_from_context True 3 Z_SSL_VERIFY_REQUIRED_TRUSTED (Some demo_store) = Some self
     \<and> verify_chain self (\<lambda>c. [(True, X509_V_OK)]) (demo_chain 8) \<and> \<not> verify_chain self (\<lambda>c. [(True, X509_V_OK)]) (demo_chain 7)"
proof -
  obtain self where s: "z_ssl_session_new_from_context True 3 Z_SSL_VERIFY_REQUIRED_TRUSTED (Some demo_store) = Some self"
    by (simp add: z_ssl_session_new_from_context_def)
  have l: "linked_chain (demo_chain n)" "demo_chain n \<noteq> []" for n by (simp_all add: linked_chain_def demo_chain_def)
  have f: "\<forall>xs \<in> set (demo_chain n). [(True, X509_V_OK)] \<noteq> []" for n by simp
  have "verify_chain self (\<lambda>c. [(True, X509_V_OK)]) (demo_chain n) \<longleftrightarrow> n \<noteq> 7" for n
    using trusted_chain_not_revoked[OF s l f, of n] by (auto simp: demo_chain_def demo_store_def crl_valid_def revoked_def)
  then show ?thesis using s by auto
qed

subsection \<open>Certificates that are not trusted\<close>



text \<open>When the store of revocation lists cannot be created the session is made without one.\<close>

theorem crl_store_failure_ignored:
  "z_ssl_session_new True True None server (Some \<lparr>ca_names_ok = True, ca_access_ok = True, ca_locations_ok = True\<rparr>) (Some (True, z_ssl_crl_store_create False lookup_ok path)) depth verify
     = z_ssl_session_new True True None server (Some \<lparr>ca_names_ok = True, ca_access_ok = True, ca_locations_ok = True\<rparr>) None depth verify"
  by (simp add: z_ssl_session_new_def z_ssl_load_privkey_and_cert_def z_ssl_load_ca_list_def z_ssl_crl_store_create_def)

subsection \<open>The list of trusted authorities\<close>

record ca_directory =
  cd_modtime :: nat
  cd_contents :: "nat list"

type_synonym ca_cache = "string \<rightharpoonup> ca_directory"

text \<open>The loop over the names of a file, and over the files of the directory; \<open>None\<close> is a file that cannot be loaded.\<close>

fun add_names :: "nat list \<Rightarrow> nat list \<Rightarrow> nat list" where
  "add_names contents [] = contents"
| "add_names contents (n # ns) = add_names (if n \<in> set contents then contents else contents @ [n]) ns"

fun read_files :: "nat list \<Rightarrow> nat list option list \<Rightarrow> nat list" where
  "read_files contents [] = contents"
| "read_files contents (None # fs) = read_files contents fs"
| "read_files contents (Some ns # fs) = read_files (add_names contents ns) fs"

text \<open>
  \<open>stat\<close> is the time of modification of a path, \<open>dir\<close> the files of a directory that can be opened. The result is the list that is given to the context and
  the new cache, a static variable under a lock.
\<close>

definition z_ssl_set_trusted_ca_list ::
  "(string \<Rightarrow> nat option) \<Rightarrow> (string \<Rightarrow> nat list option list option) \<Rightarrow> string \<Rightarrow> ca_cache \<Rightarrow> nat list option \<times> ca_cache" where
  "z_ssl_set_trusted_ca_list stat dir path cache =
     (case (case cache path of Some d \<Rightarrow> if stat path = Some (cd_modtime d) then Some (cd_contents d) else None | None \<Rightarrow> None) of
        Some names \<Rightarrow> (Some names, cache)
      | None \<Rightarrow>
          let cache1 = cache(path := None)
          in case stat path of
               None \<Rightarrow> (None, cache1)
             | Some t \<Rightarrow>
                 let names = (case dir path of None \<Rightarrow> [] | Some files \<Rightarrow> read_files [] files)
                 in (Some names, cache1(path \<mapsto> \<lparr>cd_modtime = t, cd_contents = names\<rparr>)))"

lemma add_names_set: "set (add_names contents ns) = set contents \<union> set ns" "distinct contents \<Longrightarrow> distinct (add_names contents ns)"
  by (induction contents ns rule: add_names.induct) auto

definition file_names :: "nat list option list \<Rightarrow> nat set" where
  "file_names fs = (\<Union>f \<in> set fs. case f of None \<Rightarrow> {} | Some ns \<Rightarrow> set ns)"

lemma read_files_set: "set (read_files contents fs) = set contents \<union> file_names fs" "distinct contents \<Longrightarrow> distinct (read_files contents fs)"
  by (induction contents fs rule: read_files.induct) (auto simp: file_names_def add_names_set)

text \<open>The names in a directory, and a cache that was filled from directories whose content does not change without their time.\<close>

definition trusted_names :: "(string \<Rightarrow> nat list option list option) \<Rightarrow> string \<Rightarrow> nat set" where
  "trusted_names dir path = (case dir path of None \<Rightarrow> {} | Some fs \<Rightarrow> file_names fs)"

definition cache_current :: "(string \<Rightarrow> nat option) \<Rightarrow> (string \<Rightarrow> nat list option list option) \<Rightarrow> ca_cache \<Rightarrow> bool" where
  "cache_current stat dir cache \<longleftrightarrow> (\<forall>p d. cache p = Some d \<and> stat p = Some (cd_modtime d) \<longrightarrow> set (cd_contents d) = trusted_names dir p \<and> distinct (cd_contents d))"

text \<open>As long as directories change their time with their contents, the authorities that are announced are those of the files in the directory, each once, whether
  they are read or come from the cache, and the cache stays current.
\<close>

theorem trusted_list_current:
  assumes "cache_current stat dir cache" "z_ssl_set_trusted_ca_list stat dir path cache = (names, cache')"
  shows "cache_current stat dir cache' \<and> (names = None \<longleftrightarrow> stat path = None)
    \<and> (\<forall>ns. names = Some ns \<longrightarrow> set ns = trusted_names dir path \<and> distinct ns)"
proof (cases "\<exists>d. cache path = Some d \<and> stat path = Some (cd_modtime d)")
  case True
  then obtain d where d: "cache path = Some d" "stat path = Some (cd_modtime d)" by blast
  then have "names = Some (cd_contents d)" "cache' = cache" using assms(2) by (simp_all add: z_ssl_set_trusted_ca_list_def)
  then show ?thesis using assms(1) d by (auto simp: cache_current_def)
next
  case False
  let ?names = "case dir path of None \<Rightarrow> [] | Some files \<Rightarrow> read_files [] files"
  have n: "set ?names = trusted_names dir path" "distinct ?names" by (simp_all add: trusted_names_def read_files_set split: option.split)
  have miss: "(case cache path of Some d \<Rightarrow> if stat path = Some (cd_modtime d) then Some (cd_contents d) else None | None \<Rightarrow> None) = None"
    using False by (auto split: option.split)
  show ?thesis
  proof (cases "stat path")
    case None
    then have "names = None" "cache' = cache(path := None)" using assms(2) miss by (simp_all add: z_ssl_set_trusted_ca_list_def)
    then show ?thesis using assms(1) None by (auto simp: cache_current_def)
  next
    case (Some t)
    then have "names = Some ?names" "cache' = cache(path \<mapsto> \<lparr>cd_modtime = t, cd_contents = ?names\<rparr>)" using assms(2) miss by (simp_all add: z_ssl_set_trusted_ca_list_def Let_def)
    then show ?thesis using assms(1) Some n by (auto simp: cache_current_def)
  qed
qed

theorem trusted_list_current_witness:
  "\<exists>names cache'. z_ssl_set_trusted_ca_list (\<lambda>p. Some 5) (\<lambda>p. Some [Some [1, 2], None, Some [2, 3]]) ''ca'' Map.empty = (Some names, cache') \<and> set names = {1, 2, 3} \<and> distinct names"
proof -
  let ?dir = "\<lambda>p :: string. Some [Some [1, 2], None, Some [2, 3 :: nat]]"
  obtain names cache' where e: "z_ssl_set_trusted_ca_list (\<lambda>p. Some 5) ?dir ''ca'' Map.empty = (names, cache')" by (metis prod.exhaust)
  have "cache_current (\<lambda>p. Some 5) ?dir Map.empty" by (simp add: cache_current_def)
  from trusted_list_current[OF this e] obtain ns where "names = Some ns" "set ns = trusted_names ?dir ''ca''" "distinct ns" by auto
  then show ?thesis using e by (intro exI[of _ ns] exI[of _ cache']) (simp add: trusted_names_def file_names_def insert_commute)
qed

subsection \<open>The layer between OpenSSL and a stream\<close>

text \<open>The result and whether OpenSSL is told to try again.\<close>

definition z_stream_bio_write :: "world \<Rightarrow> nat \<Rightarrow> bytes option \<Rightarrow> (world \<times> int \<times> bool) result" where
  "z_stream_bio_write w stream buf =
     (case buf of None \<Rightarrow> Inr (w, -1, False)
      | Some d \<Rightarrow> rbind (z_stream_write w stream d) (\<lambda>(w1, ret, n).
          Inr (w1, if ret = IO_AGAIN then (-1, True) else if ret \<noteq> IO_NORMAL then (-1, False) else (int n, False))))"

definition z_stream_bio_read :: "world \<Rightarrow> nat \<Rightarrow> nat option \<Rightarrow> (world \<times> int \<times> bytes \<times> bool) result" where
  "z_stream_bio_read w stream buflen =
     (case buflen of None \<Rightarrow> Inr (w, -1, [], False)
      | Some n \<Rightarrow> rbind (z_stream_read w stream n) (\<lambda>(w1, ret, d).
          Inr (w1, if ret = IO_AGAIN then (-1, [], True) else if ret = IO_EOF then (0, [], False)
                   else if ret \<noteq> IO_NORMAL then (-1, [], False) else (int (length d), d, False))))"

definition z_stream_bio_puts :: "world \<Rightarrow> nat \<Rightarrow> bytes \<Rightarrow> (world \<times> int \<times> bool) result" where
  "z_stream_bio_puts w stream str = z_stream_bio_write w stream (Some str)"

datatype bio_ctrl = BIO_CTRL_GET_CLOSE | BIO_CTRL_SET_CLOSE | BIO_CTRL_DUP | BIO_CTRL_FLUSH | BIO_other

definition z_stream_bio_ctrl :: "bio_ctrl \<Rightarrow> int \<Rightarrow> int \<Rightarrow> int \<times> int" where
  "z_stream_bio_ctrl cmd num shutdown =
     (case cmd of BIO_CTRL_GET_CLOSE \<Rightarrow> (shutdown, shutdown) | BIO_CTRL_SET_CLOSE \<Rightarrow> (1, num) | BIO_CTRL_DUP \<Rightarrow> (1, shutdown) | BIO_CTRL_FLUSH \<Rightarrow> (1, shutdown)
      | BIO_other \<Rightarrow> (0, shutdown))"

text \<open>A stream that has nothing for the moment is never taken for one that has ended or failed: OpenSSL is told to try again, and only then.\<close>

theorem bio_retries_again:
  assumes "z_stream_read w a n = Inr (w1, st, d)" "st = IO_NORMAL \<Longrightarrow> d \<noteq> []"
  shows "\<exists>rc data retry. z_stream_bio_read w a (Some n) = Inr (w1, rc, data, retry) \<and> (retry \<longleftrightarrow> st = IO_AGAIN) \<and> (rc = 0 \<longleftrightarrow> st = IO_EOF)
     \<and> (0 < rc \<longleftrightarrow> st = IO_NORMAL) \<and> (0 < rc \<longrightarrow> data = d \<and> rc = int (length d))"
  using assms by (cases st) (auto simp: z_stream_bio_read_def)

end
