(* ===== verification/Memtrace.thy ===== *)
theory Memtrace
  imports Zorp_Prelude
begin

section \<open>The table of allocated blocks\<close>

text \<open>
  \<open>src/memtrace.c\<close>: with tracing, \<open>malloc\<close>, \<open>free\<close>, \<open>realloc\<close> and \<open>calloc\<close> keep a table of the blocks that are allocated, to find blocks that are never freed,
  freed twice or written beyond their ends. The table is a hash table whose chains, and the list of unused entries, are index_chain by indices in one array. Pointers
  are numbers, 0 is \<open>NULL\<close>; the allocator below, and whether the guard values around a block are intact, are arguments. Backtraces are left out.
\<close>

definition MEMTRACE_HASH_SIZE :: nat where "MEMTRACE_HASH_SIZE = 32768"
definition MEMTRACE_HEAP_SIZE :: nat where "MEMTRACE_HEAP_SIZE = 300000"
definition MEMTRACE_TEMP_HEAP_SIZE :: nat where "MEMTRACE_TEMP_HEAP_SIZE = 65536"
definition MEMTRACE_EOL :: nat where "MEMTRACE_EOL = 2 ^ 32 - 1"
definition MEMTRACE_CANARY_OVERHEAD :: nat where "MEMTRACE_CANARY_OVERHEAD = 48"

record mt_entry =
  en_next :: nat
  en_ptr :: nat
  en_size :: nat
  en_deleted :: bool

record memtrace =
  mt_hash :: "nat list"
  mt_heap :: "mt_entry list"
  mt_free_list :: nat
  mt_block_count :: "32 word"
  mt_allocated_size :: "32 word"
  mt_alloc_count :: "32 word"
  mt_initialized :: bool
  mt_trace :: bool
  mt_canaries :: bool
  mt_hard :: bool
  mt_temp_brk :: int

text \<open>The variables before the first call, and which of the variables of the environment are set.\<close>

definition mem_trace_statics :: memtrace where
  "mem_trace_statics =
     \<lparr>mt_hash = replicate MEMTRACE_HASH_SIZE 0, mt_heap = replicate MEMTRACE_HEAP_SIZE \<lparr>en_next = 0, en_ptr = 0, en_size = 0, en_deleted = False\<rparr>,
      mt_free_list = MEMTRACE_EOL, mt_block_count = 0, mt_allocated_size = 0, mt_alloc_count = 0,
      mt_initialized = False, mt_trace = False, mt_canaries = False, mt_hard = False, mt_temp_brk = 0\<rparr>"

record mt_env =
  ENV_MEMTRACE :: bool
  ENV_CANARIES :: bool
  ENV_HARD :: bool

definition z_mem_trace_init_internal :: "mt_env \<Rightarrow> memtrace \<Rightarrow> memtrace" where
  "z_mem_trace_init_internal env s =
     (if mt_initialized s then s
      else if \<not> ENV_MEMTRACE env then s\<lparr>mt_initialized := True\<rparr>
      else s\<lparr>mt_initialized := True, mt_trace := True, mt_canaries := mt_canaries s \<or> ENV_CANARIES env, mt_hard := mt_hard s \<or> ENV_HARD env,
             mt_heap := map (\<lambda>i. (mt_heap s ! i)\<lparr>en_next := if i + 1 = MEMTRACE_HEAP_SIZE then MEMTRACE_EOL else i + 1\<rparr>) [0..<MEMTRACE_HEAP_SIZE],
             mt_free_list := 0,
             mt_hash := replicate MEMTRACE_HASH_SIZE MEMTRACE_EOL\<rparr>)"

definition z_mem_trace_hash :: "nat \<Rightarrow> nat" where
  "z_mem_trace_hash ptr = (ptr div 8) mod MEMTRACE_HASH_SIZE"

definition z_mem_trace_add :: "nat \<Rightarrow> int \<Rightarrow> memtrace \<Rightarrow> (memtrace \<times> bool) result" where
  "z_mem_trace_add ptr sz s =
     (if mt_free_list s = MEMTRACE_EOL then Inr (s, False)
      else if mt_free_list s \<ge> length (mt_heap s) then Inl Bad_access
      else
        let new_ndx = mt_free_list s; new = mt_heap s ! new_ndx; hash = z_mem_trace_hash ptr
        in Inr (s\<lparr>mt_block_count := mt_block_count s + 1, mt_alloc_count := mt_alloc_count s + 1, mt_allocated_size := mt_allocated_size s + word_of_int sz,
                  mt_free_list := en_next new,
                  mt_heap := (mt_heap s)[new_ndx := new\<lparr>en_ptr := ptr, en_size := ssize_to_size sz, en_next := mt_hash s ! hash\<rparr>],
                  mt_hash := (mt_hash s)[hash := new_ndx]\<rparr>, True))"

text \<open>The loops along a chain, with a counter: they would not end on a chain that is a circle. The first one also yields the place of the link that leads to the entry.\<close>

fun del_loop :: "nat \<Rightarrow> mt_entry list \<Rightarrow> nat \<Rightarrow> nat option \<Rightarrow> nat \<Rightarrow> (nat option \<times> nat) result" where
  "del_loop 0 heap ptr prev cur = Inl Endless_loop"
| "del_loop (Suc n) heap ptr prev cur =
     (if cur = MEMTRACE_EOL then Inr (prev, cur)
      else if cur \<ge> length heap then Inl Bad_access
      else if en_ptr (heap ! cur) \<noteq> ptr then del_loop n heap ptr (Some cur) (en_next (heap ! cur))
      else Inr (prev, cur))"

fun z_mem_trace_lookup_chain :: "nat \<Rightarrow> mt_entry list \<Rightarrow> nat \<Rightarrow> nat \<Rightarrow> nat result" where
  "z_mem_trace_lookup_chain 0 heap ptr cur = Inl Endless_loop"
| "z_mem_trace_lookup_chain (Suc n) heap ptr cur =
     (if cur = MEMTRACE_EOL then Inr cur
      else if cur \<ge> length heap then Inl Bad_access
      else if en_ptr (heap ! cur) \<noteq> ptr then z_mem_trace_lookup_chain n heap ptr (en_next (heap ! cur))
      else Inr cur)"

definition set_next :: "nat \<Rightarrow> nat \<Rightarrow> mt_entry list \<Rightarrow> mt_entry list" where
  "set_next i nxt heap = heap[i := (heap ! i)\<lparr>en_next := nxt\<rparr>]"

definition z_mem_trace_del :: "nat \<Rightarrow> memtrace \<Rightarrow> (memtrace \<times> bool) result" where
  "z_mem_trace_del ptr s =
     (let hash = z_mem_trace_hash ptr
      in rbind (del_loop (length (mt_heap s) + 1) (mt_heap s) ptr None (mt_hash s ! hash)) (\<lambda>(prev, cur).
           if cur = MEMTRACE_EOL then Inr (s, False)
           else if mt_hard s then Inr (s\<lparr>mt_heap := (mt_heap s)[cur := (mt_heap s ! cur)\<lparr>en_deleted := True\<rparr>]\<rparr>, True)
           else
             let nxt = en_next (mt_heap s ! cur);
                 s1 = (case prev of None \<Rightarrow> s\<lparr>mt_hash := (mt_hash s)[hash := nxt]\<rparr> | Some p \<Rightarrow> s\<lparr>mt_heap := set_next p nxt (mt_heap s)\<rparr>)
             in Inr (s1\<lparr>mt_heap := set_next cur (mt_free_list s1) (mt_heap s1), mt_free_list := cur, mt_block_count := mt_block_count s1 - 1,
                        mt_allocated_size := mt_allocated_size s1 - word_of_nat (en_size (mt_heap s1 ! cur))\<rparr>, True)))"

definition z_mem_trace_getsize :: "nat \<Rightarrow> memtrace \<Rightarrow> int result" where
  "z_mem_trace_getsize ptr s =
     rbind (z_mem_trace_lookup_chain (length (mt_heap s) + 1) (mt_heap s) ptr (mt_hash s ! z_mem_trace_hash ptr)) (\<lambda>cur.
       Inr (if cur \<noteq> MEMTRACE_EOL then size_to_int (en_size (mt_heap s ! cur)) else -1))"

subsection \<open>Allocating with the table\<close>

text \<open>The guard values are written before and behind the user's bytes into a block of \<open>len\<close> bytes; the user gets the pointer between them.\<close>

definition z_mem_trace_fill_canaries :: "nat \<Rightarrow> nat \<Rightarrow> int \<Rightarrow> memtrace \<Rightarrow> nat result" where
  "z_mem_trace_fill_canaries len ptr sz s =
     (if ptr = 0 then Inr ptr
      else if mt_canaries s
      then if 0 \<le> 24 + sz \<and> sz + int MEMTRACE_CANARY_OVERHEAD \<le> int len then Inr (ptr + MEMTRACE_CANARY_OVERHEAD div 2) else Inl Bad_access
      else Inr ptr)"

text \<open>\<open>intact\<close>: nobody wrote over the guard values; otherwise the process is aborted.\<close>

definition z_mem_trace_check_canaries :: "bool \<Rightarrow> nat \<Rightarrow> memtrace \<Rightarrow> nat result" where
  "z_mem_trace_check_canaries intact ptr s =
     (if ptr = 0 then Inr ptr
      else if mt_canaries s then if \<not> intact then Inl Assert_failed else Inr (ptr - MEMTRACE_CANARY_OVERHEAD div 2)
      else Inr ptr)"

definition overhead :: "memtrace \<Rightarrow> nat" where
  "overhead s = (if mt_canaries s then MEMTRACE_CANARY_OVERHEAD else 0)"

text \<open>The allocator below is what it answers to a size, \<open>None\<close> as long as it is not known; \<open>temp\<close> is the address of the bytes that are used meanwhile.\<close>

definition z_malloc :: "mt_env \<Rightarrow> nat \<Rightarrow> (nat \<Rightarrow> nat) option \<Rightarrow> nat \<Rightarrow> memtrace \<Rightarrow> (memtrace \<times> nat \<times> nat list) result" where
  "z_malloc env temp old_malloc sz s0 =
     (let s1 = z_mem_trace_init_internal env s0; len = addz sz (overhead s1)
      in rbind (case old_malloc of
                  None \<Rightarrow>
                    let brk = size_to_int (addz (ssize_to_size (mt_temp_brk s1)) len)
                    in if brk > int MEMTRACE_TEMP_HEAP_SIZE then Inl Assert_failed else Inr (s1\<lparr>mt_temp_brk := brk\<rparr>, nat (int temp + mt_temp_brk s1))
                | Some f \<Rightarrow> Inr (s1, f len)) (\<lambda>(s, raw).
           if \<not> mt_trace s then Inr (s, raw, [])
           else rbind (z_mem_trace_fill_canaries len raw (size_to_int sz) s) (\<lambda>user.
             rbind (if mt_hard s then z_mem_trace_getsize user s else Inr (-1)) (\<lambda>old.
               if old \<noteq> -1 then Inl Assert_failed
               else if user = 0 then Inr (s, 0, [])
               else rbind (z_mem_trace_add user (size_to_int sz) s) (\<lambda>(s', ok). if \<not> ok then Inr (s', 0, [raw]) else Inr (s', user, []))))))"

definition TMP_ALLOCATED :: "nat \<Rightarrow> nat \<Rightarrow> bool" where
  "TMP_ALLOCATED temp ptr \<longleftrightarrow> (int ptr - int temp) mod 2 ^ 32 < int MEMTRACE_TEMP_HEAP_SIZE"

text \<open>The list is what is given to the allocator's \<open>free\<close>.\<close>

definition z_free :: "mt_env \<Rightarrow> nat \<Rightarrow> bool \<Rightarrow> nat \<Rightarrow> memtrace \<Rightarrow> (memtrace \<times> nat list) result" where
  "z_free env temp intact user s0 =
     (let s1 = z_mem_trace_init_internal env s0
      in rbind (if mt_trace s1
                then rbind (z_mem_trace_getsize user s1) (\<lambda>_.
                       rbind (if user \<noteq> 0 then z_mem_trace_del user s1 else Inr (s1, True)) (\<lambda>(s2, found).
                         if \<not> found then Inl Assert_failed
                         else rbind (z_mem_trace_check_canaries intact user s2) (\<lambda>raw. Inr (s2, raw))))
                else Inr (s1, user)) (\<lambda>(s, raw).
           Inr (s, if \<not> TMP_ALLOCATED temp raw \<and> \<not> mt_hard s then [raw] else [])))"

text \<open>The last component is how many bytes of the old block are copied here; the allocator's \<open>realloc\<close> copies them itself.\<close>

definition z_realloc ::
  "mt_env \<Rightarrow> nat \<Rightarrow> bool \<Rightarrow> (nat \<Rightarrow> nat) option \<Rightarrow> (nat \<Rightarrow> nat \<Rightarrow> nat) option \<Rightarrow> nat \<Rightarrow> nat \<Rightarrow> memtrace \<Rightarrow> (memtrace \<times> nat \<times> nat) result" where
  "z_realloc env temp intact old_malloc old_realloc user sz s0 =
     (let s1 = z_mem_trace_init_internal env s0
      in rbind (if mt_trace s1
                then if user \<noteq> 0
                     then rbind (z_mem_trace_getsize user s1) (\<lambda>n.
                            if n = -1 then Inl Assert_failed
                            else rbind (z_mem_trace_del user s1) (\<lambda>(s2, ok).
                              if \<not> ok then Inl Assert_failed
                              else rbind (z_mem_trace_check_canaries intact user s2) (\<lambda>raw. Inr (s2, raw, ssize_to_size n))))
                     else Inr (s1, 0, 0)
                else Inr (s1, user, 0)) (\<lambda>(s, raw, old_size).
           let len = addz sz (overhead s)
           in rbind (case (old_realloc, old_malloc) of
                       (Some re, Some f) \<Rightarrow>
                         if TMP_ALLOCATED temp raw
                         then rbind (z_mem_trace_fill_canaries len (f len) (size_to_int sz) s) (\<lambda>new_ptr. Inr (s, new_ptr, if new_ptr = 0 then 0 else old_size))
                         else if \<not> mt_hard s
                         then rbind (z_mem_trace_fill_canaries len (re raw len) (size_to_int sz) s) (\<lambda>new_ptr. Inr (s, new_ptr, 0))
                         else rbind (z_mem_trace_fill_canaries len (f len) (size_to_int sz) s) (\<lambda>new_ptr.
                           if new_ptr = 0 \<and> min sz old_size > 0 then Inl Bad_access else Inr (s, new_ptr, min sz old_size))
                     | _ \<Rightarrow>
                         let brk = size_to_int (addz (ssize_to_size (mt_temp_brk s)) len)
                         in if \<not> brk < int MEMTRACE_TEMP_HEAP_SIZE then Inl Assert_failed
                            else rbind (z_mem_trace_fill_canaries len (nat (int temp + mt_temp_brk s)) (size_to_int sz) s) (\<lambda>new_ptr.
                              Inr (s\<lparr>mt_temp_brk := brk\<rparr>, new_ptr, old_size))) (\<lambda>(s', new_ptr, copied).
                if new_ptr \<noteq> 0 then rbind (z_mem_trace_add new_ptr (size_to_int sz) s') (\<lambda>(s'', ok). Inr (s'', new_ptr, copied)) else Inr (s', new_ptr, copied))))"

text \<open>The allocator's \<open>calloc\<close> gets the guard values as part of every element.\<close>

definition z_calloc :: "mt_env \<Rightarrow> nat \<Rightarrow> (nat \<Rightarrow> nat \<Rightarrow> nat) option \<Rightarrow> nat \<Rightarrow> nat \<Rightarrow> memtrace \<Rightarrow> (memtrace \<times> nat) result" where
  "z_calloc env temp old_calloc nmemb sz s0 =
     (let s1 = z_mem_trace_init_internal env s0; bytes = nmemb * sz mod size_limit
      in rbind (case old_calloc of
                  None \<Rightarrow>
                    let len = addz bytes (overhead s1); brk = size_to_int (addz (ssize_to_size (mt_temp_brk s1)) len)
                    in if \<not> brk < int MEMTRACE_TEMP_HEAP_SIZE then Inl Assert_failed else Inr (s1\<lparr>mt_temp_brk := brk\<rparr>, nat (int temp + mt_temp_brk s1), len)
                | Some f \<Rightarrow> Inr (s1, f nmemb (addz sz (overhead s1)), nmemb * addz sz (overhead s1))) (\<lambda>(s, raw, len).
           if \<not> mt_trace s then Inr (s, raw)
           else rbind (z_mem_trace_fill_canaries len raw (size_to_int bytes) s) (\<lambda>user.
             rbind (z_mem_trace_add user (size_to_int bytes) s) (\<lambda>(s', ok). Inr (s', user)))))"

subsection \<open>Lists linked by indices\<close>

primrec index_chain :: "mt_entry list \<Rightarrow> nat \<Rightarrow> nat list \<Rightarrow> nat \<Rightarrow> bool" where
  "index_chain heap a [] b = (a = b)"
| "index_chain heap a (x # xs) b = (a = x \<and> x < length heap \<and> index_chain heap (en_next (heap ! x)) xs b)"

lemma index_chain_append: "index_chain heap a (xs @ ys) b \<longleftrightarrow> (\<exists>m. index_chain heap a xs m \<and> index_chain heap m ys b)"
  by (induction xs arbitrary: a) auto

lemma index_chain_bound: "index_chain heap a xs b \<Longrightarrow> x \<in> set xs \<Longrightarrow> x < length heap"
  by (induction xs arbitrary: a) auto

lemma index_chain_other: "i \<notin> set xs \<Longrightarrow> index_chain (heap[i := e]) a xs b = index_chain heap a xs b"
  by (induction xs arbitrary: a) auto

lemma del_loop_finds:
  assumes "length heap < MEMTRACE_EOL"
  shows "index_chain heap cur (ys @ x # zs) MEMTRACE_EOL \<Longrightarrow> \<forall>y \<in> set ys. en_ptr (heap ! y) \<noteq> p \<Longrightarrow> en_ptr (heap ! x) = p \<Longrightarrow> length ys < n \<Longrightarrow>
    del_loop n heap p prev cur = Inr (if ys = [] then prev else Some (last ys), x)"
proof (induction ys arbitrary: n prev cur)
  case Nil
  then show ?case using assms by (cases n) auto
next
  case (Cons y ys)
  then obtain k where n: "n = Suc k" "length ys < k" by (cases n) auto
  have "cur = y" "y < length heap" "index_chain heap (en_next (heap ! y)) (ys @ x # zs) MEMTRACE_EOL" "en_ptr (heap ! y) \<noteq> p" using Cons.prems(1,2) by simp_all
  then show ?case using Cons.IH[of "en_next (heap ! y)" k "Some y"] Cons.prems(2,3) n assms by auto
qed

lemma del_loop_misses:
  assumes "length heap < MEMTRACE_EOL"
  shows "index_chain heap cur xs MEMTRACE_EOL \<Longrightarrow> \<forall>y \<in> set xs. en_ptr (heap ! y) \<noteq> p \<Longrightarrow> length xs < n \<Longrightarrow> \<exists>r. del_loop n heap p prev cur = Inr (r, MEMTRACE_EOL)"
proof (induction xs arbitrary: n prev cur)
  case Nil
  then show ?case by (cases n) auto
next
  case (Cons y ys)
  then obtain k where n: "n = Suc k" "length ys < k" by (cases n) auto
  have "cur = y" "y < length heap" "index_chain heap (en_next (heap ! y)) ys MEMTRACE_EOL" "en_ptr (heap ! y) \<noteq> p" using Cons.prems(1,2) by simp_all
  then show ?case using Cons.IH[of "en_next (heap ! y)" k "Some y"] Cons.prems(2) n assms by auto
qed

lemma lookup_is_del_loop: "z_mem_trace_lookup_chain n heap p cur = rbind (del_loop n heap p prev cur) (\<lambda>(r, c). Inr c)"
  by (induction n arbitrary: prev cur) auto

text \<open>Taking an element out of a chain.\<close>

lemma index_chain_unlink:
  assumes "index_chain heap a (ys @ x # zs) b" "distinct (ys @ x # zs)"
  shows "if ys = [] then index_chain heap (en_next (heap ! x)) zs b else index_chain (set_next (last ys) (en_next (heap ! x)) heap) a (ys @ zs) b"
proof (cases "ys = []")
  case True
  then show ?thesis using assms(1) by simp
next
  case False
  then obtain us l where ys: "ys = us @ [l]" by (metis append_butlast_last_id)
  obtain m where m: "index_chain heap a us m" "index_chain heap m [l] x" "x < length heap" "index_chain heap (en_next (heap ! x)) zs b"
    using assms(1) unfolding ys by (auto simp: index_chain_append)
  let ?heap = "set_next l (en_next (heap ! x)) heap"
  have "l \<notin> set us" "l \<notin> set zs" "l < length heap" "m = l" using assms(2) m(2) unfolding ys by auto
  then have "index_chain ?heap a us l" "index_chain ?heap l [l] (en_next (heap ! x))" "index_chain ?heap (en_next (heap ! x)) zs b"
    using m(1,4) by (simp_all add: set_next_def index_chain_other)
  then show ?thesis using False unfolding ys by (auto simp: index_chain_append)
qed

lemma index_chain_set_next: "i \<notin> set xs \<Longrightarrow> index_chain (set_next i n heap) a xs b = index_chain heap a xs b"
  by (simp add: set_next_def index_chain_other)

lemma set_next_fields:
  "en_ptr (set_next i n heap ! x) = en_ptr (heap ! x)" "en_size (set_next i n heap ! x) = en_size (heap ! x)" "length (set_next i n heap) = length heap"
proof -
  show "length (set_next i n heap) = length heap" by (simp add: set_next_def)
  have "set_next i n heap ! x = heap ! x \<or> set_next i n heap ! x = (heap ! x)\<lparr>en_next := n\<rparr>"
    unfolding set_next_def by (cases "i < length heap") (auto simp: nth_list_update list_update_beyond)
  then show "en_ptr (set_next i n heap ! x) = en_ptr (heap ! x)" "en_size (set_next i n heap ! x) = en_size (heap ! x)" by auto
qed

declare del_loop.simps(2) [simp del] z_mem_trace_lookup_chain.simps(2) [simp del]

subsection \<open>What the table is for\<close>

text \<open>The contract: a map from the pointers of the allocated blocks to their sizes, with room for so many blocks.\<close>

type_synonym blocks = "nat \<Rightarrow> nat option"

datatype mt_op = Add nat nat | Del nat | Getsize nat

fun blocks_step :: "mt_op \<Rightarrow> blocks \<Rightarrow> blocks \<times> int" where
  "blocks_step (Add p n) m = (if card (dom m) = MEMTRACE_HEAP_SIZE then (m, 0) else (m(p \<mapsto> n), 1))"
| "blocks_step (Del p) m = (if p \<in> dom m then (m(p := None), 1) else (m, 0))"
| "blocks_step (Getsize p) m = (m, case m p of None \<Rightarrow> -1 | Some n \<Rightarrow> int n)"

fun table_step :: "mt_op \<Rightarrow> memtrace \<Rightarrow> (memtrace \<times> int) result" where
  "table_step (Add p n) s = rbind (z_mem_trace_add p (int n) s) (\<lambda>(s', ok). Inr (s', of_bool ok))"
| "table_step (Del p) s = rbind (z_mem_trace_del p s) (\<lambda>(s', ok). Inr (s', of_bool ok))"
| "table_step (Getsize p) s = rbind (z_mem_trace_getsize p s) (\<lambda>n. Inr (s, n))"

primrec blocks_run :: "mt_op list \<Rightarrow> blocks \<Rightarrow> blocks \<times> int list" where
  "blocks_run [] m = (m, [])"
| "blocks_run (op # ops) m = (let (m1, r) = blocks_step op m; (m2, rs) = blocks_run ops m1 in (m2, r # rs))"

primrec table_run :: "mt_op list \<Rightarrow> memtrace \<Rightarrow> (memtrace \<times> int list) result" where
  "table_run [] s = Inr (s, [])"
| "table_run (op # ops) s = rbind (table_step op s) (\<lambda>(s1, r). rbind (table_run ops s1) (\<lambda>(s2, rs). Inr (s2, r # rs)))"

text \<open>The allocator does not hand out a block that is in use, and sizes fit into an \<open>int\<close>.\<close>

fun fresh_op :: "mt_op \<Rightarrow> blocks \<Rightarrow> bool" where
  "fresh_op (Add p n) m \<longleftrightarrow> m p = None \<and> n < 2 ^ 31"
| "fresh_op _ m \<longleftrightarrow> True"

primrec fresh_ops :: "mt_op list \<Rightarrow> blocks \<Rightarrow> bool" where
  "fresh_ops [] m \<longleftrightarrow> True"
| "fresh_ops (op # ops) m \<longleftrightarrow> fresh_op op m \<and> fresh_ops ops (fst (blocks_step op m))"

text \<open>
  The table stands for a map: \<open>fr\<close> is the list of unused entries, \<open>ch h\<close> the chain of \<open>h\<close>; every used entry is in the chain of its pointer's hash, once, and no two
  entries are of the same pointer.
\<close>

definition used_entries :: "memtrace \<Rightarrow> nat list \<Rightarrow> nat set" where
  "used_entries s fr = {..<length (mt_heap s)} - set fr"

definition block_at :: "memtrace \<Rightarrow> nat \<Rightarrow> nat" where
  "block_at s x = en_ptr (mt_heap s ! x)"

definition table_rel :: "memtrace \<Rightarrow> blocks \<Rightarrow> nat list \<Rightarrow> (nat \<Rightarrow> nat list) \<Rightarrow> bool" where
  "table_rel s m fr ch \<longleftrightarrow>
     length (mt_hash s) = MEMTRACE_HASH_SIZE \<and> length (mt_heap s) = MEMTRACE_HEAP_SIZE \<and> \<not> mt_hard s \<and>
     index_chain (mt_heap s) (mt_free_list s) fr MEMTRACE_EOL \<and> distinct fr \<and>
     (\<forall>h < MEMTRACE_HASH_SIZE. index_chain (mt_heap s) (mt_hash s ! h) (ch h) MEMTRACE_EOL \<and> distinct (ch h) \<and>
        set (ch h) = {x \<in> used_entries s fr. z_mem_trace_hash (block_at s x) = h}) \<and>
     inj_on (block_at s) (used_entries s fr) \<and> dom m = block_at s ` used_entries s fr \<and>
     (\<forall>x \<in> used_entries s fr. m (block_at s x) = Some (en_size (mt_heap s ! x)) \<and> en_size (mt_heap s ! x) < 2 ^ 31) \<and>
     mt_block_count s = of_nat (card (dom m)) \<and> mt_allocated_size s = (\<Sum>x \<in> used_entries s fr. of_nat (en_size (mt_heap s ! x)))"

lemma sizes_EOL: "MEMTRACE_HEAP_SIZE < MEMTRACE_EOL" by (simp add: MEMTRACE_HEAP_SIZE_def MEMTRACE_EOL_def)

lemma hash_less: "z_mem_trace_hash p < MEMTRACE_HASH_SIZE" by (simp add: z_mem_trace_hash_def MEMTRACE_HASH_SIZE_def)

lemma finite_used [simp]: "finite (used_entries s fr)" by (simp add: used_entries_def)

lemma table_rel_card:
  assumes r: "table_rel s m fr ch"
  shows "card (dom m) = MEMTRACE_HEAP_SIZE - length fr" "length fr \<le> MEMTRACE_HEAP_SIZE"
proof -
  have l: "index_chain (mt_heap s) (mt_free_list s) fr MEMTRACE_EOL" "distinct fr" "length (mt_heap s) = MEMTRACE_HEAP_SIZE"
    "inj_on (block_at s) (used_entries s fr)" "dom m = block_at s ` used_entries s fr" using r unfolding table_rel_def by blast+
  have sub: "set fr \<subseteq> {..<MEMTRACE_HEAP_SIZE}" using index_chain_bound[OF l(1)] l(3) by auto
  have c: "card (set fr) = length fr" using l(2) by (rule distinct_card)
  show "length fr \<le> MEMTRACE_HEAP_SIZE" using card_mono[OF _ sub] c by simp
  have "card (dom m) = card (used_entries s fr)" using l(4,5) by (simp add: card_image)
  also have "\<dots> = MEMTRACE_HEAP_SIZE - length fr" unfolding used_entries_def l(3) using sub c by (simp add: card_Diff_subset)
  finally show "card (dom m) = MEMTRACE_HEAP_SIZE - length fr" .
qed

text \<open>Looking up a pointer.\<close>

lemma distinct_bound: "distinct xs \<Longrightarrow> \<forall>x \<in> set xs. x < n \<Longrightarrow> length xs \<le> n"
  using card_mono[of "{..<n}" "set xs"] by (auto simp: distinct_card)

lemma table_rel_chain:
  fixes p :: nat
  assumes "table_rel s m fr ch"
  defines "h \<equiv> z_mem_trace_hash p"
  shows "index_chain (mt_heap s) (mt_hash s ! h) (ch h) MEMTRACE_EOL" "distinct (ch h)" "length (ch h) \<le> length (mt_heap s)"
    "set (ch h) = {x \<in> used_entries s fr. z_mem_trace_hash (block_at s x) = h}"
proof -
  have "h < MEMTRACE_HASH_SIZE" by (simp add: h_def hash_less)
  then show "index_chain (mt_heap s) (mt_hash s ! h) (ch h) MEMTRACE_EOL" "distinct (ch h)" "set (ch h) = {x \<in> used_entries s fr. z_mem_trace_hash (block_at s x) = h}"
    using assms(1) unfolding table_rel_def by blast+
  then show "length (ch h) \<le> length (mt_heap s)" using index_chain_bound by (blast intro: distinct_bound)
qed

lemma table_rel_lookup:
  fixes p :: nat
  assumes r: "table_rel s m fr ch"
  defines "h \<equiv> z_mem_trace_hash p"
  shows "m p = None \<Longrightarrow> \<exists>r. del_loop (length (mt_heap s) + 1) (mt_heap s) p None (mt_hash s ! h) = Inr (r, MEMTRACE_EOL)"
    and "p \<in> dom m \<Longrightarrow> \<exists>ys x zs. ch h = ys @ x # zs \<and> x \<in> used_entries s fr \<and> block_at s x = p \<and>
      del_loop (length (mt_heap s) + 1) (mt_heap s) p None (mt_hash s ! h) = Inr (if ys = [] then None else Some (last ys), x)"
proof -
  note c = table_rel_chain[OF r, of p, folded h_def]
  have L: "length (mt_heap s) < MEMTRACE_EOL" using r sizes_EOL by (simp add: table_rel_def)
  have d: "dom m = block_at s ` used_entries s fr" and i: "inj_on (block_at s) (used_entries s fr)" using r by (simp_all add: table_rel_def)
  {
    assume "m p = None"
    then have "\<forall>y \<in> set (ch h). en_ptr (mt_heap s ! y) \<noteq> p" using c(4) d by (auto simp: block_at_def)
    then show "\<exists>r. del_loop (length (mt_heap s) + 1) (mt_heap s) p None (mt_hash s ! h) = Inr (r, MEMTRACE_EOL)"
      using del_loop_misses[OF L c(1)] c(3) by simp
  }
  assume "p \<in> dom m"
  then obtain x where x: "x \<in> used_entries s fr" "block_at s x = p" using d by auto
  then have "x \<in> set (ch h)" using c(4) by (simp add: h_def)
  then obtain ys zs where ch: "ch h = ys @ x # zs" by (meson split_list)
  have "\<forall>y \<in> set ys. en_ptr (mt_heap s ! y) \<noteq> p"
  proof
    fix y
    assume y: "y \<in> set ys"
    then have "y \<in> used_entries s fr" "y \<noteq> x" using c(2,4) unfolding ch by auto
    then show "en_ptr (mt_heap s ! y) \<noteq> p" using i x unfolding inj_on_def block_at_def by blast
  qed
  then have "del_loop (length (mt_heap s) + 1) (mt_heap s) p None (mt_hash s ! h) = Inr (if ys = [] then None else Some (last ys), x)"
    using del_loop_finds[OF L c(1)[unfolded ch]] x c(3) unfolding ch by (simp add: block_at_def)
  then show "\<exists>ys x zs. ch h = ys @ x # zs \<and> x \<in> used_entries s fr \<and> block_at s x = p \<and>
      del_loop (length (mt_heap s) + 1) (mt_heap s) p None (mt_hash s ! h) = Inr (if ys = [] then None else Some (last ys), x)" using ch x by blast
qed

lemma getsize_spec:
  assumes r: "table_rel s m fr ch"
  shows "z_mem_trace_getsize p s = Inr (case m p of None \<Rightarrow> -1 | Some n \<Rightarrow> int n)"
proof (cases "m p")
  case None
  then obtain q where "del_loop (length (mt_heap s) + 1) (mt_heap s) p None (mt_hash s ! z_mem_trace_hash p) = Inr (q, MEMTRACE_EOL)"
    using table_rel_lookup(1)[OF r] by blast
  then show ?thesis using None by (simp add: z_mem_trace_getsize_def lookup_is_del_loop[where prev = None])
next
  case (Some n)
  then obtain ys x zs where x: "x \<in> used_entries s fr" "block_at s x = p"
    "del_loop (length (mt_heap s) + 1) (mt_heap s) p None (mt_hash s ! z_mem_trace_hash p) = Inr (if ys = [] then None else Some (last ys), x)"
    using table_rel_lookup(2)[OF r, of p] by blast
  then have "x \<noteq> MEMTRACE_EOL" "en_size (mt_heap s ! x) = n" "n < 2 ^ 31" using r Some sizes_EOL unfolding table_rel_def used_entries_def by auto
  then show ?thesis using x Some by (simp add: z_mem_trace_getsize_def lookup_is_del_loop[where prev = None] size_to_int_small)
qed

text \<open>Adding and removing.\<close>

lemma index_chain_EOL: "index_chain heap a xs MEMTRACE_EOL \<Longrightarrow> length heap \<le> MEMTRACE_HEAP_SIZE \<Longrightarrow> a = MEMTRACE_EOL \<longleftrightarrow> xs = []"
  using sizes_EOL by (cases xs) auto

lemma add_full:
  assumes r: "table_rel s m fr ch" and c: "card (dom m) = MEMTRACE_HEAP_SIZE"
  shows "z_mem_trace_add p sz s = Inr (s, False)"
proof -
  have "fr = []" using table_rel_card[OF r] c by (cases fr) (auto simp: MEMTRACE_HEAP_SIZE_def)
  then show ?thesis using r by (simp add: z_mem_trace_add_def table_rel_def)
qed

lemma add_spec:
  assumes r: "table_rel s m fr ch" and c: "card (dom m) \<noteq> MEMTRACE_HEAP_SIZE" and p: "m p = None" and n: "n < 2 ^ 31"
  shows "\<exists>s' fr' ch'. z_mem_trace_add p (int n) s = Inr (s', True) \<and> table_rel s' (m(p \<mapsto> n)) fr' ch'"
proof -
  obtain x fr' where fr: "fr = x # fr'" using table_rel_card[OF r] c by (cases fr) auto
  let ?h = "z_mem_trace_hash p" and ?heap = "mt_heap s"
  let ?new = "(?heap ! x)\<lparr>en_ptr := p, en_size := n, en_next := mt_hash s ! ?h\<rparr>"
  let ?s = "s\<lparr>mt_block_count := mt_block_count s + 1, mt_alloc_count := mt_alloc_count s + 1, mt_allocated_size := mt_allocated_size s + word_of_nat n,
     mt_free_list := en_next (?heap ! x), mt_heap := ?heap[x := ?new], mt_hash := (mt_hash s)[?h := x]\<rparr>"
  let ?ch = "ch(?h := x # ch ?h)"
  have L: "length ?heap = MEMTRACE_HEAP_SIZE" "length (mt_hash s) = MEMTRACE_HASH_SIZE" "\<not> mt_hard s" using r by (simp_all add: table_rel_def)
  have f: "mt_free_list s = x" "x < length ?heap" "index_chain ?heap (en_next (?heap ! x)) fr' MEMTRACE_EOL" "x \<notin> set fr'" "distinct fr'"
    using r by (simp_all add: table_rel_def fr)
  have inj: "inj_on (block_at s) (used_entries s fr)" and d: "dom m = block_at s ` used_entries s fr"
    and v: "\<forall>y \<in> used_entries s fr. m (block_at s y) = Some (en_size (?heap ! y)) \<and> en_size (?heap ! y) < 2 ^ 31"
    and k: "mt_block_count s = of_nat (card (dom m))" "mt_allocated_size s = (\<Sum>y \<in> used_entries s fr. of_nat (en_size (?heap ! y)))"
    using r unfolding table_rel_def by blast+
  have run: "z_mem_trace_add p (int n) s = Inr (?s, True)"
    using f(1,2) L sizes_EOL n by (simp add: z_mem_trace_add_def Let_def ssize_to_size_nonneg)
  have u: "used_entries ?s fr' = insert x (used_entries s fr)" "x \<notin> used_entries s fr" using f(2,4) by (auto simp: used_entries_def fr)
  have bx: "block_at ?s x = p" using f(2) by (simp add: block_at_def)
  have ey: "block_at ?s y = block_at s y" "mt_heap ?s ! y = ?heap ! y" if "y \<in> used_entries s fr" for y
  proof -
    have "x \<noteq> y" using that u(2) by blast
    then show "block_at ?s y = block_at s y" "mt_heap ?s ! y = ?heap ! y" by (simp_all add: block_at_def)
  qed
  have pn: "p \<notin> block_at s ` used_entries s fr" using p d by auto
  have chains: "index_chain (mt_heap ?s) (mt_hash ?s ! h) (?ch h) MEMTRACE_EOL \<and> distinct (?ch h) \<and> set (?ch h) = {y \<in> used_entries ?s fr'. z_mem_trace_hash (block_at ?s y) = h}"
    if h: "h < MEMTRACE_HASH_SIZE" for h
  proof -
    have c: "index_chain ?heap (mt_hash s ! h) (ch h) MEMTRACE_EOL" "distinct (ch h)" "set (ch h) = {y \<in> used_entries s fr. z_mem_trace_hash (block_at s y) = h}"
      using r h unfolding table_rel_def by blast+
    have x: "x \<notin> set (ch h)" using c(3) u(2) by auto
    have s1: "{y \<in> used_entries ?s fr'. z_mem_trace_hash (block_at ?s y) = h} = (if h = ?h then {x} else {}) \<union> set (ch h)"
      unfolding u(1) c(3) using ey(1) bx by auto
    show ?thesis unfolding s1 using c(1,2) x f(2) L h by (auto simp: index_chain_other)
  qed
  have img: "block_at ?s ` used_entries ?s fr' = insert p (block_at s ` used_entries s fr)" unfolding u(1) using bx ey(1) by auto
  have "table_rel ?s (m(p \<mapsto> n)) fr' ?ch"
    unfolding table_rel_def
  proof (intro conjI)
    show "\<forall>h < MEMTRACE_HASH_SIZE. index_chain (mt_heap ?s) (mt_hash ?s ! h) (?ch h) MEMTRACE_EOL \<and> distinct (?ch h) \<and>
        set (?ch h) = {x \<in> used_entries ?s fr'. z_mem_trace_hash (block_at ?s x) = h}" using chains by blast
    show "index_chain (mt_heap ?s) (mt_free_list ?s) fr' MEMTRACE_EOL" using f(3,4) by (simp add: index_chain_other)
    show "inj_on (block_at ?s) (used_entries ?s fr')" unfolding u(1) using inj pn bx ey(1) by (auto simp: inj_on_def)
    show "dom (m(p \<mapsto> n)) = block_at ?s ` used_entries ?s fr'" unfolding img using d by simp
    show "\<forall>y \<in> used_entries ?s fr'. (m(p \<mapsto> n)) (block_at ?s y) = Some (en_size (mt_heap ?s ! y)) \<and> en_size (mt_heap ?s ! y) < 2 ^ 31"
    proof
      fix y assume "y \<in> used_entries ?s fr'"
      then consider "y = x" | "y \<in> used_entries s fr" unfolding u(1) by blast
      then show "(m(p \<mapsto> n)) (block_at ?s y) = Some (en_size (mt_heap ?s ! y)) \<and> en_size (mt_heap ?s ! y) < 2 ^ 31"
      proof cases
        case 1
        then show ?thesis using bx n f(2) by simp
      next
        case 2
        then have "block_at s y \<noteq> p" using pn by blast
        then show ?thesis using v 2 ey[OF 2] by (simp del: memtrace.simps)
      qed
    qed
    have "finite (dom m)" using d by simp
    then show "mt_block_count ?s = of_nat (card (dom (m(p \<mapsto> n))))" using k(1) p by (simp add: domIff)
    have "(\<Sum>y \<in> used_entries ?s fr'. of_nat (en_size (mt_heap ?s ! y))) = of_nat (en_size (mt_heap ?s ! x)) + (\<Sum>y \<in> used_entries s fr. of_nat (en_size (mt_heap ?s ! y)) :: 32 word)"
      unfolding u(1) using u(2) by simp
    also have "\<dots> = of_nat n + (\<Sum>y \<in> used_entries s fr. of_nat (en_size (?heap ! y)))" using f(2) ey(2) by simp
    finally show "mt_allocated_size ?s = (\<Sum>y \<in> used_entries ?s fr'. of_nat (en_size (mt_heap ?s ! y)))" using k(2) by simp
  qed (use L f in simp_all)
  then show ?thesis using run by blast
qed

lemma del_missing: "table_rel s m fr ch \<Longrightarrow> m p = None \<Longrightarrow> z_mem_trace_del p s = Inr (s, False)"
  using table_rel_lookup(1)[of s m fr ch p] by (auto simp: z_mem_trace_del_def Let_def)

lemma del_spec:
  assumes r: "table_rel s m fr ch" and p: "p \<in> dom m"
  shows "\<exists>s' fr' ch'. z_mem_trace_del p s = Inr (s', True) \<and> table_rel s' (m(p := None)) fr' ch'"
proof -
  let ?h = "z_mem_trace_hash p" and ?heap = "mt_heap s"
  obtain ys x zs where x: "ch ?h = ys @ x # zs" "x \<in> used_entries s fr" "block_at s x = p"
    and loop: "del_loop (length ?heap + 1) ?heap p None (mt_hash s ! ?h) = Inr (if ys = [] then None else Some (last ys), x)"
    using table_rel_lookup(2)[OF r p] by blast
  let ?nxt = "en_next (?heap ! x)"
  define heap1 where "heap1 = (if ys = [] then ?heap else set_next (last ys) ?nxt ?heap)"
  define hash1 where "hash1 = (if ys = [] then (mt_hash s)[?h := ?nxt] else mt_hash s)"
  let ?heap2 = "set_next x (mt_free_list s) heap1"
  let ?s = "s\<lparr>mt_hash := hash1, mt_heap := ?heap2, mt_free_list := x, mt_block_count := mt_block_count s - 1,
     mt_allocated_size := mt_allocated_size s - of_nat (en_size (?heap ! x))\<rparr>"
  let ?ch = "ch(?h := ys @ zs)"
  have L: "length ?heap = MEMTRACE_HEAP_SIZE" "length (mt_hash s) = MEMTRACE_HASH_SIZE" "\<not> mt_hard s" using r by (simp_all add: table_rel_def)
  have f: "index_chain ?heap (mt_free_list s) fr MEMTRACE_EOL" "distinct fr" and inj: "inj_on (block_at s) (used_entries s fr)" and d: "dom m = block_at s ` used_entries s fr"
    and v: "\<forall>y \<in> used_entries s fr. m (block_at s y) = Some (en_size (?heap ! y)) \<and> en_size (?heap ! y) < 2 ^ 31"
    and k: "mt_block_count s = of_nat (card (dom m))" "mt_allocated_size s = (\<Sum>y \<in> used_entries s fr. of_nat (en_size (?heap ! y)))"
    using r unfolding table_rel_def by blast+
  have xl: "x < length ?heap" "x \<notin> set fr" using x(2) by (auto simp: used_entries_def)
  have fields: "en_ptr (?heap2 ! y) = en_ptr (?heap ! y)" "en_size (?heap2 ! y) = en_size (?heap ! y)" "length ?heap2 = length ?heap" "length heap1 = length ?heap"
    "en_size (heap1 ! y) = en_size (?heap ! y)" for y by (simp_all add: heap1_def set_next_fields)
  have run: "z_mem_trace_del p s = Inr (?s, True)"
    using loop xl L sizes_EOL fields by (simp add: z_mem_trace_del_def Let_def heap1_def hash1_def set_next_fields)
  have b: "block_at ?s y = block_at s y" for y by (simp add: block_at_def fields)
  have u: "used_entries ?s (x # fr) = used_entries s fr - {x}" using fields(3) by (auto simp: used_entries_def)
  note c = table_rel_chain[OF r, of p, unfolded x(1)]
  have ys: "set ys \<subseteq> used_entries s fr" "x \<notin> set ys" "x \<notin> set zs" using c(2,4) by auto
  have keeps: "index_chain ?heap2 a xs q" if "index_chain ?heap a xs q" "x \<notin> set xs" "ys \<noteq> [] \<Longrightarrow> last ys \<notin> set xs" for a xs q
    using that by (simp add: heap1_def index_chain_set_next)
  have unlinked: "index_chain ?heap2 (hash1 ! ?h) (ys @ zs) MEMTRACE_EOL"
    using index_chain_unlink[OF c(1,2)] ys(2,3) hash_less[of p] L(2) by (cases "ys = []") (simp_all add: heap1_def hash1_def index_chain_set_next)
  have chains: "index_chain ?heap2 (hash1 ! h) (?ch h) MEMTRACE_EOL \<and> distinct (?ch h) \<and> set (?ch h) = {y \<in> used_entries s fr - {x}. z_mem_trace_hash (block_at s y) = h}"
    if h: "h < MEMTRACE_HASH_SIZE" for h
  proof (cases "h = ?h")
    case True
    have "set (ys @ zs) = set (ys @ x # zs) - {x}" using ys by auto
    then have "set (ys @ zs) = {y \<in> used_entries s fr - {x}. z_mem_trace_hash (block_at s y) = ?h}" unfolding c(4) by blast
    then show ?thesis using True unlinked c(2) by simp
  next
    case False
    have g: "index_chain ?heap (mt_hash s ! h) (ch h) MEMTRACE_EOL" "distinct (ch h)" "set (ch h) = {y \<in> used_entries s fr. z_mem_trace_hash (block_at s y) = h}"
      using r h unfolding table_rel_def by blast+
    have "x \<notin> set (ch h)" using g(3) x(3) False by auto
    moreover have "ys \<noteq> [] \<Longrightarrow> last ys \<notin> set (ch h)"
    proof -
      assume "ys \<noteq> []"
      then have "last ys \<in> set (ys @ x # zs)" by simp
      then have "z_mem_trace_hash (block_at s (last ys)) = ?h" unfolding c(4) by blast
      then show "last ys \<notin> set (ch h)" unfolding g(3) using False by blast
    qed
    ultimately have "index_chain ?heap2 (mt_hash s ! h) (ch h) MEMTRACE_EOL" using keeps[OF g(1)] by blast
    moreover have "hash1 ! h = mt_hash s ! h" using False by (simp add: hash1_def)
    moreover have "set (ch h) = {y \<in> used_entries s fr - {x}. z_mem_trace_hash (block_at s y) = h}" using g(3) x(3) False by auto
    ultimately show ?thesis using False g(2) by simp
  qed
  have dp: "dom (m(p := None)) = block_at s ` (used_entries s fr - {x})" using d x(2,3) inj by (auto simp: inj_on_def)
  have "table_rel ?s (m(p := None)) (x # fr) ?ch"
    unfolding table_rel_def u
  proof (intro conjI)
    show "\<forall>h < MEMTRACE_HASH_SIZE. index_chain (mt_heap ?s) (mt_hash ?s ! h) (?ch h) MEMTRACE_EOL \<and> distinct (?ch h) \<and>
        set (?ch h) = {y \<in> used_entries s fr - {x}. z_mem_trace_hash (block_at ?s y) = h}" using chains by (simp add: b)
    have "ys \<noteq> [] \<Longrightarrow> last ys \<notin> set fr" using ys(1) last_in_set by (fastforce simp: used_entries_def)
    then have "index_chain ?heap2 (mt_free_list s) fr MEMTRACE_EOL" using keeps[OF f(1)] xl(2) by blast
    moreover have "en_next (?heap2 ! x) = mt_free_list s" using xl(1) fields(4) by (simp add: set_next_def)
    ultimately show "index_chain (mt_heap ?s) (mt_free_list ?s) (x # fr) MEMTRACE_EOL" using xl(1) fields(3) by simp
    show "dom (m(p := None)) = block_at ?s ` (used_entries s fr - {x})" using dp by (simp add: b)
    show "inj_on (block_at ?s) (used_entries s fr - {x})" using inj by (simp add: b inj_on_def)
    show "\<forall>y \<in> used_entries s fr - {x}. (m(p := None)) (block_at ?s y) = Some (en_size (mt_heap ?s ! y)) \<and> en_size (mt_heap ?s ! y) < 2 ^ 31"
    proof
      fix y assume y: "y \<in> used_entries s fr - {x}"
      then have "block_at s y \<noteq> p" using inj x(2,3) unfolding inj_on_def by blast
      then show "(m(p := None)) (block_at ?s y) = Some (en_size (mt_heap ?s ! y)) \<and> en_size (mt_heap ?s ! y) < 2 ^ 31" using v y by (simp add: fields b)
    qed
    have "finite (dom m)" using d by simp
    then have "card (dom m) = Suc (card (dom (m(p := None))))" using card.remove[of "dom m" p] p by simp
    then show "mt_block_count ?s = of_nat (card (dom (m(p := None))))" using k(1) by simp
    have "(\<Sum>y \<in> used_entries s fr. of_nat (en_size (?heap ! y))) = (of_nat (en_size (?heap ! x)) :: 32 word) + (\<Sum>y \<in> used_entries s fr - {x}. of_nat (en_size (?heap ! y)))"
      using x(2) by (simp add: sum.remove)
    then show "mt_allocated_size ?s = (\<Sum>y \<in> used_entries s fr - {x}. of_nat (en_size (mt_heap ?s ! y)))" using k(2) by (simp add: fields)
  qed (use L f xl in \<open>simp_all add: fields hash1_def\<close>)
  then show ?thesis using run by blast
qed

text \<open>Any sequence of operations, from the table that the first call sets up.\<close>

lemma table_step_refines:
  assumes r: "table_rel s m fr ch" and f: "fresh_op op m"
  shows "\<exists>s' fr' ch'. table_step op s = Inr (s', snd (blocks_step op m)) \<and> table_rel s' (fst (blocks_step op m)) fr' ch'"
proof (cases op)
  case (Add p n)
  then have "m p = None" "n < 2 ^ 31" using f by simp_all
  show ?thesis
  proof (cases "card (dom m) = MEMTRACE_HEAP_SIZE")
    case True
    then show ?thesis using add_full[OF r] r unfolding Add by auto
  next
    case False
    then obtain s' fr' ch' where "z_mem_trace_add p (int n) s = Inr (s', True)" "table_rel s' (m(p \<mapsto> n)) fr' ch'" using add_spec[OF r] \<open>m p = None\<close> \<open>n < 2 ^ 31\<close> by blast
    then have "table_step (Add p n) s = Inr (s', snd (blocks_step (Add p n) m))" "table_rel s' (fst (blocks_step (Add p n) m)) fr' ch'" using False by simp_all
    then show ?thesis unfolding Add by blast
  qed
next
  case (Del p)
  show ?thesis
  proof (cases "m p")
    case None
    then show ?thesis using del_missing[OF r None] r unfolding Del by (auto simp: domIff)
  next
    case (Some n)
    then obtain s' fr' ch' where "z_mem_trace_del p s = Inr (s', True)" "table_rel s' (m(p := None)) fr' ch'" using del_spec[OF r, of p] by blast
    then have "table_step (Del p) s = Inr (s', snd (blocks_step (Del p) m))" "table_rel s' (fst (blocks_step (Del p) m)) fr' ch'" using Some by (simp_all add: domIff)
    then show ?thesis unfolding Del by blast
  qed
next
  case (Getsize p)
  then show ?thesis using getsize_spec[OF r, of p] r by auto
qed

lemma table_run_refines:
  "table_rel s m fr ch \<Longrightarrow> fresh_ops ops m \<Longrightarrow> \<exists>s' fr' ch'. table_run ops s = Inr (s', snd (blocks_run ops m)) \<and> table_rel s' (fst (blocks_run ops m)) fr' ch'"
proof (induction ops arbitrary: s m fr ch)
  case Nil
  then show ?case by auto
next
  case (Cons op ops)
  obtain s1 fr1 ch1 where 1: "table_step op s = Inr (s1, snd (blocks_step op m))" "table_rel s1 (fst (blocks_step op m)) fr1 ch1"
    using table_step_refines[OF Cons.prems(1), of op] Cons.prems(2) by auto
  then obtain s2 fr2 ch2 where "table_run ops s1 = Inr (s2, snd (blocks_run ops (fst (blocks_step op m))))" "table_rel s2 (fst (blocks_run ops (fst (blocks_step op m)))) fr2 ch2"
    using Cons.IH[OF 1(2)] Cons.prems(2) by auto
  then show ?case using 1(1) by (auto simp: Let_def split_beta)
qed

lemma index_chain_from:
  assumes "length heap = N" "\<forall>i < N. en_next (heap ! i) = (if i + 1 = N then e else i + 1)" "i < N"
  shows "index_chain heap i [i..<N] e"
  using assms(3)
proof (induction "N - i" arbitrary: i)
  case 0
  then show ?case by simp
next
  case (Suc k)
  show ?case
  proof (cases "Suc i = N")
    case True
    then have "[i..<N] = [i]" by (simp add: upt_rec)
    then show ?thesis using True assms(1,2) by auto
  next
    case False
    then have "index_chain heap (Suc i) [Suc i..<N] e" using Suc by simp
    then show ?thesis using False Suc.prems assms(1,2) by (simp add: upt_conv_Cons)
  qed
qed

lemma init_rel:
  assumes "ENV_MEMTRACE env" "\<not> ENV_HARD env"
  shows "table_rel (z_mem_trace_init_internal env mem_trace_statics) Map.empty [0..<MEMTRACE_HEAP_SIZE] (\<lambda>_. [])"
proof -
  let ?s = "z_mem_trace_init_internal env mem_trace_statics"
  have h: "length (mt_heap ?s) = MEMTRACE_HEAP_SIZE" "\<forall>i < MEMTRACE_HEAP_SIZE. en_next (mt_heap ?s ! i) = (if i + 1 = MEMTRACE_HEAP_SIZE then MEMTRACE_EOL else i + 1)"
    using assms by (simp_all add: z_mem_trace_init_internal_def mem_trace_statics_def)
  have s: "mt_free_list ?s = 0" "\<not> mt_hard ?s" "mt_hash ?s = replicate MEMTRACE_HASH_SIZE MEMTRACE_EOL" "mt_block_count ?s = 0" "mt_allocated_size ?s = 0"
    using assms by (simp_all add: z_mem_trace_init_internal_def mem_trace_statics_def)
  have l: "index_chain (mt_heap ?s) 0 [0..<MEMTRACE_HEAP_SIZE] MEMTRACE_EOL" using index_chain_from[OF h] by (simp add: MEMTRACE_HEAP_SIZE_def)
  have u: "used_entries ?s [0..<MEMTRACE_HEAP_SIZE] = {}" using h(1) by (auto simp: used_entries_def)
  show ?thesis unfolding table_rel_def u s using h(1) s(2) l by simp
qed

text \<open>A block of the allocator that lies four gigabytes above the temporary bytes is taken for one of them.\<close>

lemma TMP_ALLOCATED_truncates: "TMP_ALLOCATED temp (temp + 2 ^ 32 * k)"
  by (simp add: TMP_ALLOCATED_def MEMTRACE_TEMP_HEAP_SIZE_def)

text \<open>In hard mode an entry stays where it is, so that freeing a block a second time is not noticed.\<close>

lemma del_hard_again:
  "mt_hard s \<Longrightarrow> z_mem_trace_del p s = Inr (s', True) \<Longrightarrow> index_chain (mt_heap s) (mt_hash s ! z_mem_trace_hash p) (ys @ x # zs) MEMTRACE_EOL \<Longrightarrow>
     \<forall>y \<in> set ys. en_ptr (mt_heap s ! y) \<noteq> p \<Longrightarrow> en_ptr (mt_heap s ! x) = p \<Longrightarrow> length (mt_heap s) < MEMTRACE_EOL \<Longrightarrow> length ys \<le> length (mt_heap s) \<Longrightarrow>
     s' = s\<lparr>mt_heap := (mt_heap s)[x := (mt_heap s ! x)\<lparr>en_deleted := True\<rparr>]\<rparr>"
  using del_loop_finds[of "mt_heap s" "mt_hash s ! z_mem_trace_hash p" ys x zs p "length (mt_heap s) + 1" None]
  by (auto simp: z_mem_trace_del_def Let_def index_chain_append)

text \<open>
  C13: The table of allocated blocks behaves as a map from pointers to sizes.
\<close>

theorem memtrace_table_refines_map:
  assumes "ENV_MEMTRACE env" "\<not> ENV_HARD env" "fresh_ops ops Map.empty"
  shows "\<exists>s. table_run ops (z_mem_trace_init_internal env mem_trace_statics) = Inr (s, snd (blocks_run ops Map.empty)) \<and>
     mt_block_count s = word_of_nat (card (dom (fst (blocks_run ops Map.empty))))"
  using table_run_refines[OF init_rel[OF assms(1,2)] assms(3)] by (auto simp: table_rel_def)

theorem memtrace_table_refines_map_witness:
  "\<exists>s. table_run [Add 4096 5, Add 266240 7, Getsize 4096, Del 4096, Del 4096, Getsize 266240]
       (z_mem_trace_init_internal \<lparr>ENV_MEMTRACE = True, ENV_CANARIES = False, ENV_HARD = False\<rparr> mem_trace_statics) = Inr (s, [1, 1, 5, 1, 0, 7]) \<and> mt_block_count s = 1"
  using memtrace_table_refines_map[of "\<lparr>ENV_MEMTRACE = True, ENV_CANARIES = False, ENV_HARD = False\<rparr>"
      "[Add 4096 5, Add 266240 7, Getsize 4096, Del 4096, Del 4096, Getsize 266240]"]
  by (simp add: MEMTRACE_HEAP_SIZE_def)

text \<open>The settings do not change, so that freeing looks at the table in the state it left.\<close>

lemma table_step_settings:
  "table_step op s = Inr (s', r) \<Longrightarrow> mt_initialized s' = mt_initialized s \<and> mt_trace s' = mt_trace s \<and> mt_canaries s' = mt_canaries s"
  by (cases op) (auto simp: z_mem_trace_add_def z_mem_trace_del_def Let_def rbind_eq_Inr split: if_splits option.splits)

lemma table_run_settings:
  "table_run ops s = Inr (s', rs) \<Longrightarrow> mt_initialized s' = mt_initialized s \<and> mt_trace s' = mt_trace s \<and> mt_canaries s' = mt_canaries s"
proof (induction ops arbitrary: s rs)
  case (Cons op ops)
  then obtain s1 r rs1 where "table_step op s = Inr (s1, r)" "table_run ops s1 = Inr (s', rs1)" by (auto simp: rbind_eq_Inr)
  then show ?case using Cons.IH table_step_settings by metis
qed simp



end
