(* ===== verification/Spec2Isabelle.thy ===== *)
theory Spec2Isabelle
  imports Packet_Messages Code_Base64 Zurlparse Registry Streamline Stream_Stack Stream_IO Stream_Control Blob_Properties Misc Zobject Log_Threads Log_Syslog Streambuf Sockaddr Streamblob Process Threads Streamgzip Zrandom Poll Connector Listener Streamtee Code_Streams Streamfd Crypt Streamssl Ssl_Session Memtrace
begin

section \<open>libzorpll\<close>

text \<open>
  libzorpll is the low level library of the Zorp firewall: packet buffers, streams that are stacked on each other, stores for large data,
  encoders, parsers, logging, a registry, socket addresses and the supervisor of the daemon. This development models its C code under
  \<open>src/\<close> and proves what makes its parts correct. Definitions have the names of the C functions; a function that changes
  memory or other state takes the state and returns the new one.

  \<^bold>\<open>Values and errors.\<close> \<open>gsize\<close> arithmetic wraps at \<open>2 ^ 64\<close> (\<open>addz\<close>, \<open>subz\<close>, \<open>shlz\<close> of theory \<open>Zorp_Prelude\<close>), bytes are
  \<open>8 word\<close>, \<open>guint16\<close> ports are numbers taken \<open>mod 65536\<close>, a \<open>gint\<close> is an \<open>int\<close> whose overflow is an error where it can happen. A result
  is \<open>Inr\<close> of a value or \<open>Inl\<close> of what would have gone wrong: an access outside an object or to freed memory (\<open>Bad_access\<close>), a failed
  \<open>g_assert\<close>, signed overflow, an allocation that the system refuses, a loop that does not end (\<open>Endless_loop\<close>). So "the result is \<open>Inr\<close>" says that
  the code runs to its end without undefined behaviour.

  \<^bold>\<open>The parts.\<close> In the order in which they build on each other:

  \<^item> \<open>Zorp_Prelude\<close>, \<open>Zorp_Memory\<close>, \<open>Byte_Order\<close>, \<open>Refcount\<close>: results, wrapping arithmetic, lists cut and overwritten at positions, a heap of
    memory blocks, integers in memory and on the wire, and reference counters (\<open>zorp/misc.h\<close>).
  \<^item> \<open>Packetbuf\<close>, \<open>Packet_Messages\<close> (\<open>packetbuf.c\<close>): buffers in the heap, with parts that borrow the memory of others. \<open>Packetbuf\<close> shows that each
    operation simulates an operation on a list of bytes with a position; \<open>Packet_Messages\<close> composes them: whole runs refine the list, messages that were
    written are read back, memory is freed with the last reference.
  \<^item> \<open>Code\<close>, \<open>Code_Base64\<close> (\<open>code.c\<close>, \<open>code_base64.c\<close>): the encoder base class and base64, equivalent to encoding in one piece whatever the pieces are, and
    inverse to each other.
  \<^item> \<open>Zurlparse\<close> (\<open>zurlparse.c\<close>), \<open>Misc\<close> (\<open>misc.c\<close>, \<open>zorp/misc.h\<close>): parsers and printers; parsing undoes printing, and what the dumps show.
  \<^item> \<open>Registry\<close> (\<open>registry.c\<close>): named entries by type. \<open>Zobject\<close> (\<open>zobject.c\<close>): classes, inherited methods, instances.
  \<^item> \<open>Byte_Source\<close> states what a reader of bytes promises as a locale; \<open>Streamline\<close> (\<open>streamline.c\<close>) uses it to cut a stream into lines,
    whatever pieces its child delivers. \<open>Stream_IO\<close> (\<open>stream.c\<close>) provides it: \<open>z_stream_read\<close> with data that was pushed back.
  \<^item> \<open>Stream\<close>, \<open>Stream_Stack\<close>, \<open>Stream_Control\<close> (\<open>stream.c\<close>): the two counters of a stream, stacks, sources, closing, callbacks and contexts. The streams are
    records in a store, so that sharing and freeing are visible.
  \<^item> \<open>Blob\<close>, \<open>Blob_Contents\<close>, \<open>Blob_Accounting\<close>, \<open>Blob_Properties\<close> (\<open>blob.c\<close>): large data in memory or swapped to files, under limits that all blobs
    share, with threads that wait for space. \<open>Blob_Contents\<close> relates a blob to its bytes, \<open>Blob_Accounting\<close> is the invariant of the limits.
    \<open>Streamblob\<close> (\<open>streamblob.c\<close>) composes streams and blobs.
  \<^item> \<open>Streambuf\<close> (\<open>streambuf.c\<close>): writes that are buffered in packets; its child is the locale \<open>byte_sink\<close>, provided by \<open>z_stream_write\<close>.
  \<^item> \<open>Gzip_Header\<close>, \<open>Streamgzip\<close> (\<open>streamgzip.c\<close>): compressed streams over any compressor: the header is read back, a write delivers all that the
    compressor puts out, and what partial writes and shutdowns do.
  \<^item> \<open>Threads\<close> (\<open>thread.c\<close>): the pool of threads as a step relation; its count, and that queued jobs are run.
  \<^item> \<open>Stream_Child\<close>, \<open>Streamtee\<close> (\<open>streamtee.c\<close>): what a stream over another one relies on, and the stream that copies to a second one.
  \<^item> \<open>Code_Streams\<close> (\<open>code_gzip.c\<close>, \<open>code_cipher.c\<close>): encoders around any compressor and any cipher: what they add to the result, and that the
    output fits.
  \<^item> \<open>Streamfd\<close> (\<open>streamfd.c\<close>): streams on descriptors: waiting, the bytes of a socket, and which callbacks a turn of the main loop calls.
  \<^item> \<open>Streamssl\<close> (\<open>streamssl.c\<close>), \<open>Ssl_Session\<close> (\<open>ssl.c\<close>): streams over any SSL library: reads that have to write first and writes that have to read
    first; which chains of certificates a session accepts, and the authorities it announces.
  \<^item> \<open>Crypt\<close> (\<open>crypt.c\<close>): passwords hashed with any digest; a stored hash verifies its password.
  \<^item> \<open>Zrandom\<close> (\<open>random.c\<close>): random values in a range. \<open>Sources\<close> (\<open>source.c\<close>, \<open>socketsource.c\<close>) and \<open>Poll\<close> (\<open>poll.c\<close>): what wakes up
    the main loop and when, and one turn of it.
  \<^item> \<open>Connector\<close> (\<open>connect.c\<close>): a connector that its user and the main loop share, as a step relation: one call of the callback, one owner of the
    socket, no use after it is freed. \<open>Listener\<close> (\<open>listen.c\<close>, \<open>z_accept\<close> and others of \<open>socket.c\<close>): a turn of accepting, with a callback that may
    cancel the listener.
  \<^item> \<open>Memtrace\<close> (\<open>memtrace.c\<close>): the table of allocated blocks, chains and a free list linked by indices, refines a map; the traced
    \<open>malloc\<close>, \<open>free\<close>, \<open>realloc\<close> and \<open>calloc\<close>, and when a free aborts.
  \<^item> \<open>Logspec\<close>, \<open>Log_Cache\<close>, \<open>Log_Threads\<close>, \<open>Log_Syslog\<close> (\<open>log.c\<close>): log specifications, the caches of levels that each thread has, the
    interleavings of threads that log and that change the settings as a step relation, and the syslog client.
  \<^item> \<open>Sockaddr\<close> (\<open>sockaddr.c\<close>, \<open>z_do_ll_bind\<close> and \<open>z_bind\<close> of \<open>socket.c\<close>): addresses and the search for a free port.
  \<^item> \<open>Process\<close> (\<open>process.c\<close>): the supervisor loop, the result pipes, the pid file, the options.

  \<^bold>\<open>Loops and bounds.\<close> Loops are recursive functions on their data. Where the code loops without such a measure there is a counter: \<open>range_try\<close>
  gives up after 65537 turns, one more than a 16 bit port has values, so that running out means that the loop repeats itself; the flush loop of a
  buffered stream has the code's own counter of ten; \<open>resolve_funcs\<close> has one more turn than there are classes, more than the longest chain of
  parents; functions that read from a child take the list of the child's answers and end with it. The loops around a compressor (\<open>deflate_loop\<close>, \<open>gzip_loop\<close>)
  have a counter that the statement ties to the number of calls that the compressor needs. Endless loops of the code are the value
  \<open>Endless_loop\<close>, and the theorems say when they occur.

  \<^bold>\<open>What comes from outside.\<close> Allocation, files, \<open>bind\<close>, \<open>fork\<close>, clocks, random numbers, host names, methods of derived classes and user callbacks
  are arguments of the definitions: scripts of answers or functions, with what is assumed of them in the statements.

  \<^bold>\<open>Not modelled.\<close> Wrappers of other libraries (what is left of \<open>ssl.c\<close>; libcap in \<open>cap.c\<close>; \<open>GError\<close> in \<open>error.c\<close>), system calls
  without logic of their own (\<open>io.c\<close>, the rest of \<open>socket.c\<close>), dumps of machine state (\<open>stackdump.c\<close>, the backtraces of \<open>memtrace.c\<close>), option groups
  of GLib, code for Windows. Threads interleave only in the parts whose theories say so (\<open>Blob\<close>, \<open>Log_Threads\<close>, \<open>Threads\<close>, \<open>Connector\<close>); elsewhere one thread at a
  time is assumed, as the code demands.
\<close>

end
